(* ===== verification/Prelude.thy ===== *)
theory Prelude
  imports Main "HOL-Library.Word" "HOL-Library.Monad_Syntax"
begin

text \<open>
  Shared vocabulary of the development: the machine integer types of the sources
  (\<^verbatim>\<open>std::uint64_t\<close> and friends), the outcome type of code that can call
  \<^verbatim>\<open>std::abort\<close> or violate an \<^verbatim>\<open>assert\<close>, and the lemmas on lists, counting and
  words that several components use.
\<close>

section \<open>Machine integers\<close>

type_synonym u8 = "8 word"
type_synonym u16 = "16 word"
type_synonym u32 = "32 word"
type_synonym u64 = "64 word"

text \<open>
  \<^verbatim>\<open>std::int64_t\<close> is a 64-bit word read in two's complement: it is compared with
  \<open>sint\<close>.
\<close>

type_synonym i64 = "64 word"

section \<open>Outcomes\<close>

text \<open>
  \<open>None\<close> means that the call does not return: \<^verbatim>\<open>std::abort\<close>, a failed
  \<^verbatim>\<open>assert\<close> of the Debug build, a null dereference, or a loop that never ends.
  \<open>Some r\<close> is a normal return.
\<close>

type_synonym 'a outcome = "'a option"

definition cassert :: "bool \<Rightarrow> unit outcome" where
  "cassert b = (if b then Some () else None)"

named_theorems outcome_simps \<open>rewrite rules for programs in the outcome monad\<close>

lemma cassert_True [simp]: "cassert True = Some ()"
  by (simp add: cassert_def)

lemma cassert_False [simp]: "cassert False = None"
  by (simp add: cassert_def)

lemma cassert_bind [outcome_simps]: "cassert b \<bind> f = (if b then f () else None)"
  by (simp add: cassert_def)

lemma bind_eq_SomeE:
  assumes "m \<bind> f = Some y"
  obtains x where "m = Some x" "f x = Some y"
  using assms by (cases m) auto

section \<open>Arrays\<close>

text \<open>Reading and updating an array; an index out of range is undefined behaviour.\<close>

definition arr_get :: "'a list \<Rightarrow> nat \<Rightarrow> 'a outcome" where
  "arr_get xs i = (if i < length xs then Some (xs ! i) else None)"

definition arr_upd :: "'a list \<Rightarrow> nat \<Rightarrow> ('a \<Rightarrow> 'a) \<Rightarrow> 'a list outcome" where
  "arr_upd xs i f = (if i < length xs then Some (xs[i := f (xs ! i)]) else None)"

section \<open>Lists with updates\<close>

named_theorems upd_simps \<open>rewrite rules for indexed updates\<close>

lemma nth_list_update_if [upd_simps]:
  "i < length xs \<Longrightarrow> xs[i := x] ! j = (if i = j then x else xs ! j)"
  by auto

lemma in_set_tlD: "x \<in> set (tl xs) \<Longrightarrow> x \<in> set xs"
  by (cases xs) auto

lemma length_filter_update:
  assumes "i < length xs"
  shows "length (filter P (xs[i := x])) + of_bool (P (xs ! i))
       = length (filter P xs) + of_bool (P x)"
  using assms
proof (induction xs arbitrary: i)
  case Nil
  then show ?case by simp
next
  case (Cons a xs)
  then show ?case by (cases i) auto
qed

lemma length_filter_split2:
  assumes "\<And>x. x \<in> set xs \<Longrightarrow> \<not> (P x \<and> Q x)"
  shows "length (filter P xs) + length (filter Q xs) = length (filter (\<lambda>x. P x \<or> Q x) xs)"
  using assms by (induction xs) auto

lemma filter_all_length_iff:
  "length (filter P xs) = length xs \<longleftrightarrow> (\<forall>x \<in> set xs. P x)"
  by (metis filter_id_conv length_filter_less less_irrefl)

lemma distinct_map_filter_nthI:
  assumes "\<And>i j. i < length xs \<Longrightarrow> j < length xs \<Longrightarrow> P (xs ! i) \<Longrightarrow> P (xs ! j) \<Longrightarrow>
    f (xs ! i) = f (xs ! j) \<Longrightarrow> i = j"
  shows "distinct (map f (filter P xs))"
  using assms
proof (induction xs)
  case Nil
  then show ?case by simp
next
  case (Cons a xs)
  have "distinct (map f (filter P xs))"
    using Cons.prems [of "Suc i" "Suc j" for i j] by (intro Cons.IH) auto
  moreover have False if "P a" "x \<in> set xs" "P x" "f x = f a" for x
  proof -
    obtain j where "j < length xs" "x = xs ! j"
      using \<open>x \<in> set xs\<close> by (auto simp: in_set_conv_nth)
    with that Cons.prems [of 0 "Suc j"] show False by simp
  qed
  ultimately show ?case by force
qed

section \<open>Masks and powers of two\<close>

unbundle bit_operations_syntax

lemma nat_and_mask_mod: "(n::nat) AND (2 ^ k - 1) = n mod 2 ^ k"
  by (metis mask_eq_exp_minus_1 take_bit_eq_mask take_bit_eq_mod)

lemma unat_and_mask_mod:
  fixes w :: "'a::len word"
  shows "unat (w AND (2 ^ k - 1)) = unat w mod 2 ^ k"
proof -
  have "w AND (2 ^ k - 1) = take_bit k w"
    by (simp add: take_bit_eq_mask mask_eq_exp_minus_1)
  then have "unat (w AND (2 ^ k - 1)) = take_bit k (unat w)"
    by (simp only: unsigned_take_bit_eq)
  then show ?thesis
    by (simp only: take_bit_eq_mod)
qed

lemma unat_less_exp: "unat (w :: 'a::len word) < 2 ^ LENGTH('a)"
  by (rule unsigned_less)

lemma unat_of_nat_eq_small:
  assumes "n < 2 ^ LENGTH('a)"
  shows "unat (of_nat n :: 'a::len word) = n"
  using assms by (simp add: unat_of_nat take_bit_nat_eq_self)

text \<open>Going round a ring of size \<open>c\<close>: offsets below \<open>c\<close> from a fixed start are distinct.\<close>

lemma ring_offset_inj:
  assumes "(b + d) mod c = (b + e) mod c" "d < c" "e < (c::nat)"
  shows "d = e"
proof (rule linorder_cases [of d e])
  assume "d < e"
  then have "c dvd e - d"
    using assms(1) mod_eq_dvd_iff_nat [of "b + d" "b + e" c] by simp
  with \<open>d < e\<close> assms(3) show ?thesis
    using dvd_imp_le [of c "e - d"] by simp
next
  assume "e < d"
  then have "c dvd d - e"
    using assms(1) mod_eq_dvd_iff_nat [of "b + e" "b + d" c] by simp
  with \<open>e < d\<close> assms(2) show ?thesis
    using dvd_imp_le [of c "d - e"] by simp
qed

lemma ring_offset_ex:
  assumes "i < (c::nat)"
  shows "\<exists>d<c. (b + d) mod c = i"
proof -
  let ?d = "(i + c - b mod c) mod c"
  have lt: "?d < c" using assms by simp
  have "b mod c < c" using assms by simp
  then have "b mod c + (i + c - b mod c) = i + c" by simp
  then have "(b + ?d) mod c = i"
    using assms by (metis mod_add_left_eq mod_add_right_eq mod_add_self2 mod_less)
  with lt show ?thesis by blast
qed

end
