(* ===== verification/BitUtils.thy ===== *)
theory BitUtils
  imports Prelude
begin

text \<open>
  \<^verbatim>\<open>libs/sys/bit_utils.hpp\<close>: alignment and power-of-two arithmetic. Both branches of
  the feature-test conditionals are modelled: the C++20 library calls and the bit tricks
  they replace. They are proved equal, and each is related to its arithmetic meaning.
\<close>

section \<open>Definitions\<close>

unbundle bit_operations_syntax

definition align_up :: "u64 \<Rightarrow> u64 \<Rightarrow> u64" where
  "align_up value alignment = (value + alignment - 1) AND NOT (alignment - 1)"

definition align_down :: "u64 \<Rightarrow> u64 \<Rightarrow> u64" where
  "align_down value alignment = value AND NOT (alignment - 1)"

definition is_aligned :: "u64 \<Rightarrow> u64 \<Rightarrow> bool" where
  "is_aligned addr alignment \<longleftrightarrow> addr AND (alignment - 1) = 0"

text \<open>\<^verbatim>\<open>std::has_single_bit\<close>: exactly one bit of the value is set.\<close>

definition has_single_bit :: "u64 \<Rightarrow> bool" where
  "has_single_bit n \<longleftrightarrow> length (filter (bit n) [0..<64]) = 1"

definition is_power_of_two :: "u64 \<Rightarrow> bool" where
  "is_power_of_two n = has_single_bit n"

definition is_power_of_two_fallback :: "u64 \<Rightarrow> bool" where
  "is_power_of_two_fallback n \<longleftrightarrow> n \<noteq> 0 \<and> n AND (n - 1) = 0"

text \<open>
  \<^verbatim>\<open>std::bit_width\<close> (the width of the type minus the count of leading zeros) and
  \<^verbatim>\<open>std::bit_ceil\<close>; a result that does not fit the type is undefined behaviour,
  modelled by \<open>None\<close>.
\<close>

fun bit_width :: "nat \<Rightarrow> nat" where
  "bit_width n = (if n = 0 then 0 else Suc (bit_width (n div 2)))"

declare bit_width.simps [simp del]

definition bit_ceil :: "u32 \<Rightarrow> u32 outcome" where
  "bit_ceil n =
     (if unat n \<le> 1 then Some 1
      else let w = bit_width (unat n - 1)
           in if w < 32 then Some (push_bit w 1) else None)"

definition round_up_pow2 :: "u32 \<Rightarrow> u32 outcome" where
  "round_up_pow2 n = bit_ceil n"

text \<open>The fallback: \<^verbatim>\<open>1U << (32U - __builtin_clz(n - 1))\<close>; a shift by 32 is undefined.\<close>

definition builtin_clz :: "u32 \<Rightarrow> nat" where
  "builtin_clz n = 32 - bit_width (unat n)"

definition round_up_pow2_fallback :: "u32 \<Rightarrow> u32 outcome" where
  "round_up_pow2_fallback n =
     (if n \<le> 1 then Some 1
      else let s = 32 - builtin_clz (n - 1)
           in if s < 32 then Some (push_bit s 1) else None)"

section \<open>Powers of two\<close>

lemma bit_top:
  assumes "2 ^ k \<le> (m::nat)" "m < 2 ^ Suc k"
  shows "bit m k"
proof -
  have "m div 2 ^ k = 1"
    using assms by (intro div_nat_eqI) auto
  then show ?thesis by (simp add: bit_iff_odd)
qed

lemma nat_power2_bracket:
  assumes "0 < (m::nat)"
  obtains k where "2 ^ k \<le> m" "m < 2 ^ Suc k"
  using assms ex_power_ivl1 [of 2 m] by force

lemma has_single_bit_iff: "has_single_bit n \<longleftrightarrow> (\<exists>k<64. n = 2 ^ k)"
proof -
  have "length (filter (bit n) [0..<64]) = card {i. i < 64 \<and> bit n i}"
    by (simp add: length_filter_conv_card)
       (rule arg_cong [where f = card], auto)
  then have "has_single_bit n \<longleftrightarrow> (\<exists>k. {i. i < 64 \<and> bit n i} = {k})"
    by (simp add: has_single_bit_def card_1_singleton_iff)
  also have "\<dots> \<longleftrightarrow> (\<exists>k<64. n = 2 ^ k)"
  proof
    assume "\<exists>k. {i. i < 64 \<and> bit n i} = {k}"
    then obtain k where k: "{i. i < 64 \<and> bit n i} = {k}" by blast
    then have "k < 64" by blast
    moreover have "n = 2 ^ k"
    proof (rule bit_word_eqI)
      fix i assume "i < LENGTH(64)"
      then have "bit n i \<longleftrightarrow> i = k" using k by auto
      then show "bit n i = bit (2 ^ k :: u64) i"
        using \<open>k < 64\<close> \<open>i < LENGTH(64)\<close> by (auto simp: bit_simps)
    qed
    ultimately show "\<exists>k<64. n = 2 ^ k" by blast
  next
    assume "\<exists>k<64. n = 2 ^ k"
    then obtain k where "k < 64" "n = 2 ^ k" by blast
    then have "{i. i < 64 \<and> bit n i} = {k}" by (auto simp: bit_simps)
    then show "\<exists>k. {i. i < 64 \<and> bit n i} = {k}" by blast
  qed
  finally show ?thesis .
qed

lemma unat_pow2: "k < LENGTH('a::len) \<Longrightarrow> unat (2 ^ k :: 'a word) = 2 ^ k"
  by transfer (simp add: nat_take_bit_eq take_bit_eq_mod)

lemma is_power_of_two_iff: "is_power_of_two n \<longleftrightarrow> (\<exists>k<64. unat n = 2 ^ k)"
proof -
  have "n = 2 ^ k \<longleftrightarrow> unat n = 2 ^ k" if "k < 64" for k
    using that by (simp add: word_unat_eq_iff unat_pow2)
  then show ?thesis
    by (auto simp: is_power_of_two_def has_single_bit_iff)
qed

lemma fallback_imp_power:
  assumes "is_power_of_two_fallback n"
  shows "\<exists>k<64. unat n = 2 ^ k"
proof -
  have nz: "0 < unat n" and andz: "n AND (n - 1) = 0"
    using assms by (auto simp: is_power_of_two_fallback_def unat_gt_0)
  obtain k where k: "2 ^ k \<le> unat n" "unat n < 2 ^ Suc k"
    using nat_power2_bracket [OF nz] .
  have lt: "unat n < 2 ^ 64" using unat_less_exp [of n] by simp
  have "k < 64"
    using le_less_trans [OF k(1) lt] by (rule power_less_imp_less_exp [rotated]) simp
  moreover have "unat n = 2 ^ k"
  proof (rule ccontr)
    assume ne: "unat n \<noteq> 2 ^ k"
    have "unat (n - 1) = unat n - 1"
      using nz by (simp add: unat_minus_one unat_gt_0)
    with ne k have "bit (unat (n - 1)) k" and "bit (unat n) k"
      by (auto intro!: bit_top)
    then have "bit (n AND (n - 1)) k"
      using \<open>k < 64\<close> by (simp add: bit_simps bit_unsigned_iff)
    with andz show False by simp
  qed
  ultimately show ?thesis by blast
qed

lemma is_power_of_two_fallback_eq: "is_power_of_two_fallback n = is_power_of_two n"
proof
  assume "is_power_of_two_fallback n"
  then show "is_power_of_two n"
    by (simp add: is_power_of_two_iff fallback_imp_power)
next
  assume "is_power_of_two n"
  then obtain k where k: "k < 64" "n = 2 ^ k"
    by (auto simp: is_power_of_two_def has_single_bit_iff)
  have "(2 ^ k :: u64) AND (2 ^ k - 1) = 0"
    by (rule bit_word_eqI) (auto simp: bit_simps mask_eq_exp_minus_1 [symmetric])
  then show "is_power_of_two_fallback n"
    using k by (simp add: is_power_of_two_fallback_def)
qed

section \<open>Rounding up\<close>

lemma bit_width_bounds: "0 < n \<Longrightarrow> 2 ^ (bit_width n - 1) \<le> n \<and> n < 2 ^ bit_width n \<and> 0 < bit_width n"
proof (induction n rule: bit_width.induct)
  case (1 n)
  show ?case
  proof (cases "n = 1")
    case True
    then show ?thesis by (simp add: bit_width.simps)
  next
    case False
    with "1.prems" have "0 < n div 2" by auto
    with "1.IH" "1.prems" have IH: "2 ^ (bit_width (n div 2) - 1) \<le> n div 2"
      "n div 2 < 2 ^ bit_width (n div 2)" "0 < bit_width (n div 2)"
      by auto
    have w: "bit_width n = Suc (bit_width (n div 2))"
      using "1.prems" by (simp add: bit_width.simps [of n])
    obtain e where e: "bit_width (n div 2) = Suc e"
      using IH(3) by (cases "bit_width (n div 2)") auto
    have "2 ^ e \<le> n div 2" "n div 2 < 2 * 2 ^ e"
      using IH by (simp_all add: e)
    then have "2 * 2 ^ e \<le> n \<and> n < 4 * 2 ^ e" by linarith
    then show ?thesis by (simp add: w e)
  qed
qed

lemma push_bit_one_pow: "push_bit w (1::u32) = 2 ^ w"
  by (simp add: push_bit_eq_mult)

lemma bit_width_less_32:
  assumes "1 < n" "n \<le> 2 ^ 31"
  shows "bit_width (n - 1) < 32"
proof (rule ccontr)
  assume "\<not> bit_width (n - 1) < 32"
  then have "(2::nat) ^ 31 \<le> 2 ^ (bit_width (n - 1) - 1)"
    by (intro power_increasing) auto
  with bit_width_bounds [of "n - 1"] assms show False by linarith
qed

lemma round_up_pow2_total: "unat n \<le> 2 ^ 31 \<Longrightarrow> \<exists>r. round_up_pow2 n = Some r"
  using bit_width_less_32 [of "unat n"]
  by (auto simp: round_up_pow2_def bit_ceil_def Let_def)

lemma round_up_pow2_spec:
  assumes "round_up_pow2 n = Some r"
  shows "\<exists>k<32. unat r = 2 ^ k \<and> unat n \<le> 2 ^ k \<and> (\<forall>j. unat n \<le> 2 ^ j \<longrightarrow> k \<le> j)"
proof (cases "unat n \<le> 1")
  case True
  then have "r = 1" using assms by (simp add: round_up_pow2_def bit_ceil_def)
  with True show ?thesis by (intro exI [of _ 0]) auto
next
  case False
  let ?w = "bit_width (unat n - 1)"
  have w: "?w < 32" "r = 2 ^ ?w"
    using assms False
    by (auto simp: round_up_pow2_def bit_ceil_def Let_def push_bit_one_pow split: if_splits)
  have b: "2 ^ (?w - 1) \<le> unat n - 1" "unat n - 1 < 2 ^ ?w" "0 < ?w"
    using bit_width_bounds [of "unat n - 1"] False by auto
  have "?w \<le> j" if "unat n \<le> 2 ^ j" for j
  proof (rule ccontr)
    assume "\<not> ?w \<le> j"
    then have "(2::nat) ^ j \<le> 2 ^ (?w - 1)" by (intro power_increasing) auto
    with b that False show False by linarith
  qed
  moreover have "unat r = 2 ^ ?w" using w by (simp add: unat_pow2)
  moreover have "unat n \<le> 2 ^ ?w" using b by linarith
  ultimately show ?thesis using w by (intro exI [of _ ?w]) auto
qed

lemma round_up_pow2_fallback_eq: "round_up_pow2_fallback n = round_up_pow2 n"
proof (cases "unat n \<le> 1")
  case True
  then show ?thesis
    by (simp add: round_up_pow2_fallback_def round_up_pow2_def bit_ceil_def word_le_nat_alt)
next
  case False
  then have sub: "unat (n - 1) = unat n - 1"
    by (metis le_zero_eq nat_le_linear unat_0 unat_minus_one zero_le_one)
  have "unat n - 1 < 2 ^ 32" using unat_less_exp [of n] by simp
  moreover have "2 ^ (bit_width (unat n - 1) - 1) \<le> unat n - 1"
    using bit_width_bounds [of "unat n - 1"] False by auto
  ultimately have "(2::nat) ^ (bit_width (unat n - 1) - 1) < 2 ^ 32" by linarith
  then have "bit_width (unat n - 1) - 1 < 32"
    by (rule power_less_imp_less_exp [rotated]) simp
  then have "bit_width (unat n - 1) \<le> 32" by simp
  with False sub show ?thesis
    by (simp add: round_up_pow2_fallback_def round_up_pow2_def bit_ceil_def Let_def
        builtin_clz_def word_le_nat_alt)
qed

section \<open>Alignment\<close>

lemma align_down_unat:
  assumes "k < 64"
  shows "unat (align_down v (2 ^ k)) = unat v - unat v mod 2 ^ k"
proof -
  have "(v AND NOT (2 ^ k - 1)) + (v AND (2 ^ k - 1)) = v"
    by (subst disjunctive_add) (auto simp: bit_simps intro!: bit_word_eqI)
  then have "align_down v (2 ^ k) = v - (v AND (2 ^ k - 1))"
    by (simp add: align_down_def algebra_simps)
  moreover have "v AND (2 ^ k - 1) \<le> v" by (rule word_and_le2)
  ultimately show ?thesis by (simp add: unat_sub unat_and_mask_mod)
qed

lemma align_up_unat:
  assumes "k < 64" "unat v + 2 ^ k \<le> 2 ^ 64"
  shows "unat (align_up v (2 ^ k)) = unat v + 2 ^ k - 1 - (unat v + 2 ^ k - 1) mod 2 ^ k"
proof -
  have pk: "unat (2 ^ k :: u64) = 2 ^ k" using assms(1) by (simp add: unat_pow2)
  have "1 \<le> unat v + 2 ^ k" by (simp add: trans_le_add2)
  then have "of_nat (unat v + 2 ^ k - 1) = (of_nat (unat v + 2 ^ k) - of_nat 1 :: u64)"
    by (rule of_nat_diff)
  then have "v + 2 ^ k - 1 = of_nat (unat v + 2 ^ k - 1)" by simp
  moreover have "unat v + 2 ^ k - 1 < 2 ^ 64" using assms(2) by simp
  ultimately have "unat (v + 2 ^ k - 1) = unat v + 2 ^ k - 1"
    by (simp add: unat_of_nat_eq_small)
  then show ?thesis
    using align_down_unat [OF assms(1), of "v + 2 ^ k - 1"] by (simp add: align_up_def align_down_def)
qed

text \<open>The aligned value is the least multiple of the alignment that is not below the value.\<close>

lemma align_up_spec:
  assumes "k < 64" "unat v + 2 ^ k \<le> 2 ^ 64"
  shows "2 ^ k dvd unat (align_up v (2 ^ k))" "unat v \<le> unat (align_up v (2 ^ k))"
    "unat (align_up v (2 ^ k)) < unat v + 2 ^ k"
proof -
  let ?s = "unat v + 2 ^ k - 1"
  have s: "unat (align_up v (2 ^ k)) = ?s - ?s mod 2 ^ k" by (rule align_up_unat [OF assms])
  show "2 ^ k dvd unat (align_up v (2 ^ k))" unfolding s by (rule dvd_minus_mod)
  have "?s mod 2 ^ k < 2 ^ k" by simp
  then show "unat v \<le> unat (align_up v (2 ^ k))" unfolding s by linarith
  have "0 < (2::nat) ^ k" by simp
  then show "unat (align_up v (2 ^ k)) < unat v + 2 ^ k" unfolding s by linarith
qed

end
