(* ===== verification/HashMap.thy ===== *)
theory HashMap
  imports HashUtils BitUtils
begin

text \<open>
  \<^verbatim>\<open>libs/ds/hash_map.hpp\<close>: the open-addressing hash map with linear probing, tombstone
  deletion and a 70 percent load limit. The state is the class's data members; slots live in a
  list as long as the capacity. A probe that finds no place calls \<^verbatim>\<open>std::abort\<close>, which
  is the outcome \<open>None\<close>. The invariant \<open>hm_inv\<close> shows that this never happens, and
  that the operations implement a finite map.
\<close>

section \<open>State\<close>

unbundle bit_operations_syntax

datatype SlotState = kEmpty | kFull | kTombstone

record ('k, 'v) Slot =
  slot_key :: 'k
  slot_value :: 'v
  slot_state :: SlotState

text \<open>
  The counters are \<^verbatim>\<open>std::size_t\<close> values bounded by the capacity (at most $2^{31}$),
  so they are natural numbers here; the hash function is the class's \<^verbatim>\<open>hash_\<close> member.
\<close>

record ('k, 'v) HashMap =
  hm_slots :: "('k, 'v) Slot list"
  hm_capacity :: nat
  hm_mask :: nat
  hm_max_load :: nat
  hm_tombstone_threshold :: nat
  hm_size :: nat
  hm_tombstones :: nat
  hm_hash :: "'k \<Rightarrow> u64"

section \<open>Probing\<close>

definition bucket_for :: "('k, 'v) HashMap \<Rightarrow> 'k \<Rightarrow> nat" where
  "bucket_for m key = unat (hm_hash m key AND of_nat (hm_mask m))"

text \<open>The probe loops run at most \<^verbatim>\<open>capacity_\<close> times; \<open>n\<close> is the number of rounds left.\<close>

fun probe_find_loop :: "('k, 'v) HashMap \<Rightarrow> 'k \<Rightarrow> nat \<Rightarrow> nat \<Rightarrow> nat outcome" where
  "probe_find_loop m key idx 0 = None"
| "probe_find_loop m key idx (Suc n) =
    (let slot = hm_slots m ! idx in
     if slot_state slot = kEmpty then Some idx
     else if slot_state slot = kFull \<and> slot_key slot = key then Some idx
     else probe_find_loop m key ((idx + 1) AND hm_mask m) n)"

definition probe_find :: "('k, 'v) HashMap \<Rightarrow> 'k \<Rightarrow> nat outcome" where
  "probe_find m key = probe_find_loop m key (bucket_for m key) (hm_capacity m)"

fun probe_insert_loop ::
  "('k, 'v) HashMap \<Rightarrow> 'k \<Rightarrow> nat \<Rightarrow> nat \<Rightarrow> nat \<Rightarrow> (nat \<times> bool) outcome" where
  "probe_insert_loop m key idx first_tombstone 0 = None"
| "probe_insert_loop m key idx first_tombstone (Suc n) =
    (let slot = hm_slots m ! idx in
     if slot_state slot = kEmpty
     then Some (if first_tombstone \<noteq> hm_capacity m then first_tombstone else idx, False)
     else if slot_state slot = kTombstone
     then probe_insert_loop m key ((idx + 1) AND hm_mask m)
            (if first_tombstone = hm_capacity m then idx else first_tombstone) n
     else if slot_key slot = key then Some (idx, True)
     else probe_insert_loop m key ((idx + 1) AND hm_mask m) first_tombstone n)"

definition probe_insert :: "('k, 'v) HashMap \<Rightarrow> 'k \<Rightarrow> (nat \<times> bool) outcome" where
  "probe_insert m key =
     probe_insert_loop m key (bucket_for m key) (hm_capacity m) (hm_capacity m)"

section \<open>Construction\<close>

definition hm_is_valid_capacity :: "nat \<Rightarrow> bool" where
  "hm_is_valid_capacity c \<longleftrightarrow>
     4 \<le> c \<and> is_power_of_two (ucast (of_nat c :: u32)) \<and> c \<le> 2 ^ 32 - 1"

definition hm_round_up_capacity :: "nat \<Rightarrow> nat outcome" where
  "hm_round_up_capacity n =
     (if n = 0 then Some 0
      else if n \<le> 4 then Some 4
      else if n > 2 ^ 32 - 1 then Some 0
      else map_option unat (round_up_pow2 (of_nat n)))"

definition hm_required_buffer_size :: "nat \<Rightarrow> nat \<Rightarrow> nat" where
  "hm_required_buffer_size sizeof_slot capacity = capacity * sizeof_slot"

definition hm_clear :: "('k, 'v) HashMap \<Rightarrow> ('k, 'v) HashMap" where
  "hm_clear m = m\<lparr>hm_slots := map (\<lambda>s. s\<lparr>slot_state := kEmpty\<rparr>) (hm_slots m),
                 hm_size := 0, hm_tombstones := 0\<rparr>"

text \<open>The private constructor.\<close>

definition hm_new :: "('k \<Rightarrow> u64) \<Rightarrow> ('k, 'v) Slot list \<Rightarrow> nat \<Rightarrow> ('k, 'v) HashMap" where
  "hm_new hash raw cap =
     \<lparr>hm_slots = raw, hm_capacity = cap, hm_mask = cap - 1, hm_max_load = cap * 7 div 10,
      hm_tombstone_threshold = cap * 2 div 10, hm_size = 0, hm_tombstones = 0, hm_hash = hash\<rparr>"

text \<open>
  The factory. The external buffer is an address (0 is the null pointer), its size in
  bytes, and the slots its bytes read as: their contents are unknown, so the factory
  clears them. \<open>None\<close> is \<^verbatim>\<open>std::nullopt\<close>.
\<close>

definition hm_create ::
  "('k \<Rightarrow> u64) \<Rightarrow> nat \<Rightarrow> nat \<Rightarrow> nat \<Rightarrow> ('k, 'v) Slot list \<Rightarrow> nat \<Rightarrow> nat \<Rightarrow> ('k, 'v) HashMap option" where
  "hm_create hash sizeof_slot alignof_slot external_buf contents buf_size_bytes capacity =
    (if \<not> hm_is_valid_capacity capacity \<or> external_buf = 0 then None
     else if external_buf mod alignof_slot \<noteq> 0 then None
     else if buf_size_bytes < capacity * sizeof_slot then None
     else Some (hm_clear (hm_new hash (take capacity contents) capacity)))"

text \<open>The direct constructor aborts where the factory returns \<^verbatim>\<open>std::nullopt\<close>.\<close>

definition hm_construct ::
  "('k \<Rightarrow> u64) \<Rightarrow> nat \<Rightarrow> nat \<Rightarrow> nat \<Rightarrow> ('k, 'v) Slot list \<Rightarrow> nat \<Rightarrow> nat \<Rightarrow> ('k, 'v) HashMap outcome" where
  "hm_construct hash sizeof_slot alignof_slot external_buf contents buf_size_bytes capacity = do {
     cassert (\<not> (\<not> hm_is_valid_capacity capacity \<or> external_buf = 0 \<or> buf_size_bytes < capacity * sizeof_slot \<or>
                  external_buf mod alignof_slot \<noteq> 0));
     Some (hm_clear (hm_new hash (take capacity contents) capacity))
   }"

text \<open>The default constructor: capacity 0, unusable.\<close>

definition hm_default :: "('k \<Rightarrow> u64) \<Rightarrow> ('k, 'v) HashMap" where
  "hm_default hash = \<lparr>hm_slots = [], hm_capacity = 0, hm_mask = 0, hm_max_load = 0,
      hm_tombstone_threshold = 0, hm_size = 0, hm_tombstones = 0, hm_hash = hash\<rparr>"

section \<open>Operations\<close>

definition hm_needs_rebuild :: "('k, 'v) HashMap \<Rightarrow> bool" where
  "hm_needs_rebuild m \<longleftrightarrow> hm_tombstones m > hm_tombstone_threshold m"

text \<open>\<^verbatim>\<open>find\<close> returns a pointer to the value, or null: here the value itself, or \<open>None\<close>.\<close>

definition hm_find :: "('k, 'v) HashMap \<Rightarrow> 'k \<Rightarrow> 'v option outcome" where
  "hm_find m key =
    (if hm_capacity m = 0 then Some None
     else do {
       idx \<leftarrow> probe_find m key;
       let slot = hm_slots m ! idx;
       Some (if slot_state slot = kFull then Some (slot_value slot) else None)
     })"

text \<open>The common tail of \<^verbatim>\<open>insert\<close> and \<^verbatim>\<open>upsert\<close>: fill the slot for a new key.\<close>

definition hm_fill :: "('k, 'v) HashMap \<Rightarrow> nat \<Rightarrow> 'k \<Rightarrow> 'v \<Rightarrow> ('k, 'v) HashMap" where
  "hm_fill m idx key value =
    (let m = (if slot_state (hm_slots m ! idx) = kTombstone
              then m\<lparr>hm_tombstones := hm_tombstones m - 1\<rparr> else m)
     in m\<lparr>hm_slots := (hm_slots m)[idx := \<lparr>slot_key = key, slot_value = value, slot_state = kFull\<rparr>],
          hm_size := hm_size m + 1\<rparr>)"

definition hm_insert ::
  "('k, 'v) HashMap \<Rightarrow> 'k \<Rightarrow> 'v \<Rightarrow> (bool \<times> ('k, 'v) HashMap) outcome" where
  "hm_insert m key value =
    (if hm_capacity m = 0 then Some (False, m)
     else do {
       (idx, found_existing) \<leftarrow> probe_insert m key;
       if found_existing then Some (False, m)
       else let reusing_tombstone = (slot_state (hm_slots m ! idx) = kTombstone) in
         if \<not> reusing_tombstone \<and> hm_size m + hm_tombstones m \<ge> hm_max_load m
         then Some (False, m)
         else Some (True, hm_fill m idx key value)
     })"

datatype UpsertResult = kInserted | kUpdated | kCapacityFull

definition hm_upsert ::
  "('k, 'v) HashMap \<Rightarrow> 'k \<Rightarrow> 'v \<Rightarrow> (UpsertResult \<times> ('k, 'v) HashMap) outcome" where
  "hm_upsert m key value =
    (if hm_capacity m = 0 then Some (kCapacityFull, m)
     else do {
       (idx, found_existing) \<leftarrow> probe_insert m key;
       if found_existing
       then Some (kUpdated, m\<lparr>hm_slots := (hm_slots m)[idx := (hm_slots m ! idx)\<lparr>slot_value := value\<rparr>]\<rparr>)
       else let reusing_tombstone = (slot_state (hm_slots m ! idx) = kTombstone) in
         if \<not> reusing_tombstone \<and> hm_size m + hm_tombstones m \<ge> hm_max_load m
         then Some (kCapacityFull, m)
         else Some (kInserted, hm_fill m idx key value)
     })"

definition hm_erase :: "('k, 'v) HashMap \<Rightarrow> 'k \<Rightarrow> (bool \<times> ('k, 'v) HashMap) outcome" where
  "hm_erase m key =
    (if hm_capacity m = 0 then Some (False, m)
     else do {
       idx \<leftarrow> probe_find m key;
       if slot_state (hm_slots m ! idx) \<noteq> kFull then Some (False, m)
       else Some (True,
         m\<lparr>hm_slots := (hm_slots m)[idx := (hm_slots m ! idx)\<lparr>slot_state := kTombstone\<rparr>],
           hm_size := hm_size m - 1, hm_tombstones := hm_tombstones m + 1\<rparr>)
     })"

text \<open>The entries \<^verbatim>\<open>for_each\<close> visits, in slot order.\<close>

definition hm_entries :: "('k, 'v) HashMap \<Rightarrow> ('k \<times> 'v) list" where
  "hm_entries m =
     map (\<lambda>s. (slot_key s, slot_value s)) (filter (\<lambda>s. slot_state s = kFull) (hm_slots m))"

definition hm_for_each ::
  "('k \<Rightarrow> 'v \<Rightarrow> 's \<Rightarrow> 's) \<Rightarrow> ('k, 'v) HashMap \<Rightarrow> 's \<Rightarrow> 's" where
  "hm_for_each fn m s = fold (\<lambda>(k, v). fn k v) (hm_entries m) s"

section \<open>Invariant\<close>

abbreviation hm_state :: "('k, 'v) HashMap \<Rightarrow> nat \<Rightarrow> SlotState" where
  "hm_state m i \<equiv> slot_state (hm_slots m ! i)"

abbreviation hm_key :: "('k, 'v) HashMap \<Rightarrow> nat \<Rightarrow> 'k" where
  "hm_key m i \<equiv> slot_key (hm_slots m ! i)"

text \<open>The finite map a table stands for.\<close>

definition hm_lookup :: "('k, 'v) HashMap \<Rightarrow> 'k \<Rightarrow> 'v option" where
  "hm_lookup m = map_of (hm_entries m)"

definition hm_shape :: "('k, 'v) HashMap \<Rightarrow> bool" where
  "hm_shape m \<longleftrightarrow> hm_is_valid_capacity (hm_capacity m) \<and>
     length (hm_slots m) = hm_capacity m \<and> hm_mask m = hm_capacity m - 1 \<and>
     hm_max_load m = hm_capacity m * 7 div 10 \<and>
     hm_tombstone_threshold m = hm_capacity m * 2 div 10"

definition hm_counts :: "('k, 'v) HashMap \<Rightarrow> bool" where
  "hm_counts m \<longleftrightarrow>
     hm_size m = length (filter (\<lambda>s. slot_state s = kFull) (hm_slots m)) \<and>
     hm_tombstones m = length (filter (\<lambda>s. slot_state s = kTombstone) (hm_slots m)) \<and>
     hm_size m + hm_tombstones m \<le> hm_max_load m"

text \<open>
  No empty slot interrupts the probe path from a live key's bucket to its slot, and no
  key occupies two slots.
\<close>

definition hm_chains :: "('k, 'v) HashMap \<Rightarrow> bool" where
  "hm_chains m \<longleftrightarrow>
     (\<forall>i < hm_capacity m. hm_state m i = kFull \<longrightarrow>
       (\<forall>d < hm_capacity m. (bucket_for m (hm_key m i) + d) mod hm_capacity m = i \<longrightarrow>
         (\<forall>e < d. hm_state m ((bucket_for m (hm_key m i) + e) mod hm_capacity m) \<noteq> kEmpty)))"

definition hm_unique :: "('k, 'v) HashMap \<Rightarrow> bool" where
  "hm_unique m \<longleftrightarrow>
     (\<forall>i < hm_capacity m. \<forall>j < hm_capacity m.
        hm_state m i = kFull \<and> hm_state m j = kFull \<and> hm_key m i = hm_key m j \<longrightarrow> i = j)"

definition hm_inv :: "('k, 'v) HashMap \<Rightarrow> bool" where
  "hm_inv m \<longleftrightarrow> hm_shape m \<and> hm_counts m \<and> hm_chains m \<and> hm_unique m"

lemma hm_invD:
  assumes "hm_inv m"
  shows "hm_shape m" "hm_counts m" "hm_chains m" "hm_unique m"
  using assms by (auto simp: hm_inv_def)

lemma hm_is_valid_capacity_iff:
  "hm_is_valid_capacity c \<longleftrightarrow> (\<exists>k. 2 \<le> k \<and> k < 32 \<and> c = 2 ^ k)"
proof -
  have cast: "unat (ucast (of_nat c :: u32) :: u64) = c" if "c < 2 ^ 32"
    using that by (simp add: unsigned_ucast_eq unat_of_nat_eq_small take_bit_nat_eq_self)
  show ?thesis
  proof
    assume a: "hm_is_valid_capacity c"
    then have lt: "c < 2 ^ 32" by (simp add: hm_is_valid_capacity_def)
    with a obtain k where k: "c = 2 ^ k" "4 \<le> c"
      by (auto simp: hm_is_valid_capacity_def is_power_of_two_iff cast)
    have "k < 32" using lt k by (metis power_less_imp_less_exp one_less_numeral_iff semiring_norm(76))
    moreover have "2 \<le> k"
    proof (rule ccontr)
      assume "\<not> 2 \<le> k"
      then have "k = 0 \<or> k = 1" by auto
      with k show False by auto
    qed
    ultimately show "\<exists>k. 2 \<le> k \<and> k < 32 \<and> c = 2 ^ k" using k by blast
  next
    assume "\<exists>k. 2 \<le> k \<and> k < 32 \<and> c = 2 ^ k"
    then obtain k where k: "2 \<le> k" "k < 32" "c = 2 ^ k" by blast
    have lt: "c < 2 ^ 32" unfolding k(3) by (rule power_strict_increasing) (use k in auto)
    have "(2::nat) ^ 2 \<le> 2 ^ k" using k(1) by (rule power_increasing) simp
    with k have "4 \<le> c" by simp
    moreover have "is_power_of_two (ucast (of_nat c :: u32))"
      unfolding is_power_of_two_iff cast [OF lt] using k by (intro exI [of _ k]) auto
    ultimately show "hm_is_valid_capacity c"
      using lt by (simp add: hm_is_valid_capacity_def)
  qed
qed

lemma hm_shape_pow2:
  assumes "hm_shape m"
  obtains k where "2 \<le> k" "k < 32" "hm_capacity m = 2 ^ k" "hm_mask m = 2 ^ k - 1"
  using assms by (auto simp: hm_shape_def hm_is_valid_capacity_iff)

lemma hm_shape_capacity:
  assumes "hm_shape m"
  shows "4 \<le> hm_capacity m" "0 < hm_capacity m" "length (hm_slots m) = hm_capacity m"
    "hm_max_load m < hm_capacity m"
  using assms by (auto simp: hm_shape_def hm_is_valid_capacity_def)

lemma hm_mask_step:
  assumes "hm_shape m"
  shows "i AND hm_mask m = i mod hm_capacity m"
  using hm_shape_pow2 [OF assms] by (metis nat_and_mask_mod)

lemma bucket_for_eq:
  assumes "hm_shape m"
  shows "bucket_for m key = unat (hm_hash m key) mod hm_capacity m"
proof -
  obtain k where k: "k < 32" "hm_capacity m = 2 ^ k" "hm_mask m = 2 ^ k - 1"
    using hm_shape_pow2 [OF assms] by metis
  have "(of_nat (hm_mask m) :: u64) = 2 ^ k - 1"
    using k by (simp add: of_nat_diff)
  then show ?thesis by (simp add: bucket_for_def unat_and_mask_mod k)
qed

lemma bucket_for_less: "hm_shape m \<Longrightarrow> bucket_for m key < hm_capacity m"
  by (simp add: bucket_for_eq hm_shape_capacity)

section \<open>The probe sequence\<close>

text \<open>The slot at distance \<open>d\<close> from position \<open>b\<close>, going round the table.\<close>

abbreviation hm_at :: "('k, 'v) HashMap \<Rightarrow> nat \<Rightarrow> nat" where
  "hm_at m i \<equiv> i mod hm_capacity m"

definition hm_hit :: "('k, 'v) HashMap \<Rightarrow> 'k \<Rightarrow> nat \<Rightarrow> bool" where
  "hm_hit m key i \<longleftrightarrow> hm_state m i = kFull \<and> hm_key m i = key"

lemma probe_find_walk:
  assumes "hm_shape m" and "d < n" and "idx = hm_at m b"
    and "\<forall>e<d. hm_state m (hm_at m (b + e)) \<noteq> kEmpty \<and> \<not> hm_hit m key (hm_at m (b + e))"
    and "hm_state m (hm_at m (b + d)) = kEmpty \<or> hm_hit m key (hm_at m (b + d))"
  shows "probe_find_loop m key idx n = Some (hm_at m (b + d))"
  using assms(2-)
proof (induction d arbitrary: b n idx)
  case 0
  then show ?case by (cases n) (auto simp: hm_hit_def Let_def)
next
  case (Suc d)
  then obtain n' where n: "n = Suc n'" "d < n'" by (cases n) auto
  have "hm_state m idx \<noteq> kEmpty \<and> \<not> hm_hit m key idx"
    using Suc.prems(2) Suc.prems(3) [rule_format, of 0] by simp
  moreover have "probe_find_loop m key ((idx + 1) AND hm_mask m) n' = Some (hm_at m (Suc b + d))"
  proof (rule Suc.IH)
    show "(idx + 1) AND hm_mask m = hm_at m (Suc b)"
      using Suc.prems(2) assms(1) by (simp add: hm_mask_step mod_Suc_eq)
  qed (use Suc.prems(3)[rule_format, of "Suc e" for e] Suc.prems(4) n in auto)
  ultimately show ?case by (auto simp: n hm_hit_def Let_def)
qed

lemma probe_insert_walk_hit:
  assumes "hm_shape m" and "d < n" and "idx = hm_at m b"
    and "\<forall>e<d. hm_state m (hm_at m (b + e)) \<noteq> kEmpty \<and> \<not> hm_hit m key (hm_at m (b + e))"
    and "hm_hit m key (hm_at m (b + d))"
  shows "probe_insert_loop m key idx f n = Some (hm_at m (b + d), True)"
  using assms(2-)
proof (induction d arbitrary: b n idx f)
  case 0
  then show ?case by (cases n) (auto simp: hm_hit_def Let_def)
next
  case (Suc d)
  then obtain n' where n: "n = Suc n'" "d < n'" by (cases n) auto
  have "hm_state m idx \<noteq> kEmpty \<and> \<not> hm_hit m key idx"
    using Suc.prems(2) Suc.prems(3) [rule_format, of 0] by simp
  moreover have "probe_insert_loop m key ((idx + 1) AND hm_mask m) f' n'
      = Some (hm_at m (Suc b + d), True)" for f'
  proof (rule Suc.IH)
    show "(idx + 1) AND hm_mask m = hm_at m (Suc b)"
      using Suc.prems(2) assms(1) by (simp add: hm_mask_step mod_Suc_eq)
  qed (use Suc.prems(3)[rule_format, of "Suc e" for e] Suc.prems(4) n in auto)
  ultimately show ?case
    by (cases "hm_state m idx") (simp_all add: n hm_hit_def Let_def)
qed

text \<open>
  On a miss the loop ends at the first empty slot, and the place it returns is the first
  tombstone of the path, or that empty slot: everything before it is occupied.
\<close>

lemma probe_insert_walk_miss:
  assumes "hm_shape m" and "d < n" and "idx = hm_at m b"
    and "\<forall>e<d. hm_state m (hm_at m (b + e)) \<noteq> kEmpty \<and> \<not> hm_hit m key (hm_at m (b + e))"
    and "hm_state m (hm_at m (b + d)) = kEmpty"
  shows "\<exists>t. probe_insert_loop m key idx f n = Some (t, False) \<and>
     (if f = hm_capacity m then \<exists>e\<le>d. t = hm_at m (b + e) \<and> hm_state m t \<noteq> kFull else t = f)"
  using assms(2-)
proof (induction d arbitrary: b n idx f)
  case 0
  then show ?case by (cases n) (auto simp: Let_def)
next
  case (Suc d)
  then obtain n' where n: "n = Suc n'" "d < n'" by (cases n) auto
  have here: "hm_state m idx \<noteq> kEmpty \<and> \<not> hm_hit m key idx"
    using Suc.prems(2) Suc.prems(3) [rule_format, of 0] by simp
  have lt: "idx < hm_capacity m"
    using Suc.prems(2) assms(1) by (simp add: hm_shape_capacity)
  have rest: "\<exists>t. probe_insert_loop m key ((idx + 1) AND hm_mask m) f' n' = Some (t, False) \<and>
     (if f' = hm_capacity m then \<exists>e\<le>d. t = hm_at m (Suc b + e) \<and> hm_state m t \<noteq> kFull else t = f')" for f'
  proof (rule Suc.IH)
    show "(idx + 1) AND hm_mask m = hm_at m (Suc b)"
      using Suc.prems(2) assms(1) by (simp add: hm_mask_step mod_Suc_eq)
  qed (use Suc.prems(3)[rule_format, of "Suc e" for e] Suc.prems(4) n in auto)
  show ?case
  proof (cases "hm_state m idx = kTombstone")
    case True
    show ?thesis
    proof (cases "f = hm_capacity m")
      case f: True
      have "probe_insert_loop m key idx f n = Some (idx, False)"
        using rest [of idx] True lt f by (auto simp: n Let_def)
      moreover have "\<exists>e\<le>Suc d. idx = hm_at m (b + e) \<and> hm_state m idx \<noteq> kFull"
        using Suc.prems(2) True by (intro exI [of _ 0]) auto
      ultimately show ?thesis using f by auto
    next
      case False
      then show ?thesis using rest [of f] True by (simp add: n Let_def)
    qed
  next
    case False
    then have "probe_insert_loop m key idx f n =
        probe_insert_loop m key ((idx + 1) AND hm_mask m) f n'"
      using here by (cases "hm_state m idx") (simp_all add: n hm_hit_def Let_def)
    moreover have "\<exists>e\<le>Suc d. t = hm_at m (b + e) \<and> P" if "\<exists>e\<le>d. t = hm_at m (Suc b + e) \<and> P" for t P
    proof -
      from that obtain e where "e \<le> d" "t = hm_at m (b + Suc e)" P by auto
      then show ?thesis by (intro exI [of _ "Suc e"]) auto
    qed
    ultimately show ?thesis
      using rest [of f] by (cases "f = hm_capacity m") (simp, metis, simp)
  qed
qed

section \<open>Lookup\<close>

lemma hm_entries_distinct:
  assumes "hm_shape m" "hm_unique m"
  shows "distinct (map fst (hm_entries m))"
proof -
  have "distinct (map slot_key (filter (\<lambda>s. slot_state s = kFull) (hm_slots m)))"
    using assms by (intro distinct_map_filter_nthI) (auto simp: hm_unique_def hm_shape_capacity)
  then show ?thesis by (simp add: hm_entries_def comp_def)
qed

lemma hm_lookup_Some_iff:
  assumes "hm_shape m" "hm_unique m"
  shows "hm_lookup m k = Some v \<longleftrightarrow>
    (\<exists>i < hm_capacity m. hm_hit m k i \<and> slot_value (hm_slots m ! i) = v)"
proof -
  have "hm_lookup m k = Some v \<longleftrightarrow> (k, v) \<in> set (hm_entries m)"
    using hm_entries_distinct [OF assms] by (simp add: hm_lookup_def map_of_eq_Some_iff)
  also have "\<dots> \<longleftrightarrow> (\<exists>i < hm_capacity m. hm_hit m k i \<and> slot_value (hm_slots m ! i) = v)"
    using assms(1) by (auto simp: hm_entries_def hm_hit_def in_set_conv_nth hm_shape_capacity)
  finally show ?thesis .
qed

lemma hm_lookup_None_iff:
  assumes "hm_shape m" "hm_unique m"
  shows "hm_lookup m k = None \<longleftrightarrow> (\<forall>i < hm_capacity m. \<not> hm_hit m k i)"
  using hm_lookup_Some_iff [OF assms, of k]
  by (metis not_None_eq)

lemma hm_lookup_hit:
  assumes "hm_shape m" "hm_unique m" "i < hm_capacity m" "hm_hit m k i"
  shows "hm_lookup m k = Some (slot_value (hm_slots m ! i))"
  using assms by (auto simp: hm_lookup_Some_iff)

lemma hm_has_empty:
  assumes "hm_shape m" "hm_counts m"
  shows "\<exists>i < hm_capacity m. hm_state m i = kEmpty"
proof (rule ccontr)
  assume no: "\<not> ?thesis"
  let ?F = "\<lambda>s. slot_state s = kFull" and ?T = "\<lambda>s. slot_state s = kTombstone"
  have ft: "?F s \<or> ?T s" if s: "s \<in> set (hm_slots m)" for s
  proof -
    obtain i where "i < hm_capacity m" "s = hm_slots m ! i"
      using s assms(1) by (auto simp: in_set_conv_nth hm_shape_capacity)
    with no show ?thesis by (cases "slot_state s") auto
  qed
  then have "length (filter (\<lambda>s. ?F s \<or> ?T s) (hm_slots m)) = hm_capacity m"
    using assms(1) by (simp add: hm_shape_capacity)
  moreover have "length (filter ?F (hm_slots m)) + length (filter ?T (hm_slots m))
      = length (filter (\<lambda>s. ?F s \<or> ?T s) (hm_slots m))"
    by (rule length_filter_split2) auto
  ultimately have "hm_size m + hm_tombstones m = hm_capacity m"
    using assms(2) by (simp add: hm_counts_def)
  then show False
    using assms hm_shape_capacity(4) [OF assms(1)] by (simp add: hm_counts_def)
qed

lemma hm_first_stop:
  assumes "hm_shape m" "hm_counts m"
  shows "\<exists>d < hm_capacity m.
    (\<forall>e<d. hm_state m (hm_at m (b + e)) \<noteq> kEmpty \<and> \<not> hm_hit m k (hm_at m (b + e))) \<and>
    (hm_state m (hm_at m (b + d)) = kEmpty \<or> hm_hit m k (hm_at m (b + d)))"
proof -
  let ?stop = "\<lambda>d. hm_state m (hm_at m (b + d)) = kEmpty \<or> hm_hit m k (hm_at m (b + d))"
  obtain i where i: "i < hm_capacity m" "hm_state m i = kEmpty"
    using hm_has_empty [OF assms] by blast
  then obtain d where d: "d < hm_capacity m" "hm_at m (b + d) = i"
    using ring_offset_ex by blast
  define d' where "d' = (LEAST d. ?stop d)"
  have "?stop d" using d i by simp
  then have "?stop d'" "d' \<le> d" unfolding d'_def by (rule LeastI, rule Least_le)
  moreover have "\<forall>e<d'. \<not> ?stop e" unfolding d'_def using not_less_Least by blast
  moreover have "d' < hm_capacity m" using d(1) \<open>d' \<le> d\<close> by simp
  ultimately show ?thesis by blast
qed

lemma hm_empty_stop_absent:
  assumes "hm_inv m" "d < hm_capacity m"
    and "\<forall>e<d. \<not> hm_hit m k (hm_at m (bucket_for m k + e))"
    and "hm_state m (hm_at m (bucket_for m k + d)) = kEmpty"
  shows "hm_lookup m k = None"
proof -
  have "\<not> hm_hit m k i" if i: "i < hm_capacity m" for i
  proof
    assume hit: "hm_hit m k i"
    obtain e where e: "e < hm_capacity m" "hm_at m (bucket_for m k + e) = i"
      using ring_offset_ex [OF i] by blast
    have "\<forall>f<e. hm_state m (hm_at m (bucket_for m k + f)) \<noteq> kEmpty"
      using hm_invD(3) [OF assms(1)] hit i e by (auto simp: hm_chains_def hm_hit_def)
    then have "e \<le> d" using assms(4) by (meson not_le)
    moreover have "e \<noteq> d" using assms(4) e hit by (auto simp: hm_hit_def)
    ultimately show False using assms(3) e hit by auto
  qed
  then show ?thesis using hm_invD [OF assms(1)] by (simp add: hm_lookup_None_iff)
qed

text \<open>The probe never aborts; it returns the key's slot, or an empty slot when the key is absent.\<close>

lemma probe_find_cases:
  assumes "hm_inv m"
  obtains (hit) i where "probe_find m k = Some i" "i < hm_capacity m" "hm_hit m k i"
  | (miss) i where "probe_find m k = Some i" "i < hm_capacity m" "hm_state m i = kEmpty"
      "hm_lookup m k = None"
proof -
  note D = hm_invD [OF assms]
  let ?b = "bucket_for m k"
  obtain d where d: "d < hm_capacity m"
    "\<forall>e<d. hm_state m (hm_at m (?b + e)) \<noteq> kEmpty \<and> \<not> hm_hit m k (hm_at m (?b + e))"
    "hm_state m (hm_at m (?b + d)) = kEmpty \<or> hm_hit m k (hm_at m (?b + d))"
    using hm_first_stop [OF D(1,2)] by blast
  have eq: "probe_find m k = Some (hm_at m (?b + d))"
    unfolding probe_find_def
    by (rule probe_find_walk [OF D(1) d(1) _ d(2,3)]) (simp add: bucket_for_less [OF D(1)])
  have lt: "hm_at m (?b + d) < hm_capacity m" using D(1) by (simp add: hm_shape_capacity)
  from d(3) show thesis
  proof
    assume e: "hm_state m (hm_at m (?b + d)) = kEmpty"
    then have "hm_lookup m k = None"
      using hm_empty_stop_absent [OF assms d(1)] d(2) by blast
    with eq lt e show thesis by (rule miss)
  next
    assume "hm_hit m k (hm_at m (?b + d))"
    with eq lt show thesis by (rule hit)
  qed
qed

lemma probe_insert_cases:
  assumes "hm_inv m"
  obtains (hit) i where "probe_insert m k = Some (i, True)" "i < hm_capacity m" "hm_hit m k i"
  | (miss) d where "probe_insert m k = Some (hm_at m (bucket_for m k + d), False)"
      "d < hm_capacity m" "hm_state m (hm_at m (bucket_for m k + d)) \<noteq> kFull"
      "\<forall>e<d. hm_state m (hm_at m (bucket_for m k + e)) \<noteq> kEmpty" "hm_lookup m k = None"
proof -
  note D = hm_invD [OF assms]
  let ?b = "bucket_for m k"
  have b: "?b = hm_at m ?b" by (simp add: bucket_for_less [OF D(1)])
  obtain d where d: "d < hm_capacity m"
    "\<forall>e<d. hm_state m (hm_at m (?b + e)) \<noteq> kEmpty \<and> \<not> hm_hit m k (hm_at m (?b + e))"
    "hm_state m (hm_at m (?b + d)) = kEmpty \<or> hm_hit m k (hm_at m (?b + d))"
    using hm_first_stop [OF D(1,2)] by blast
  from d(3) show thesis
  proof
    assume h: "hm_hit m k (hm_at m (?b + d))"
    have "probe_insert m k = Some (hm_at m (?b + d), True)"
      unfolding probe_insert_def by (rule probe_insert_walk_hit [OF D(1) d(1) b d(2) h])
    then show thesis using h D(1) by (intro hit) (auto simp: hm_shape_capacity)
  next
    assume e: "hm_state m (hm_at m (?b + d)) = kEmpty"
    obtain t f where t: "probe_insert m k = Some (t, False)" "f \<le> d" "t = hm_at m (?b + f)"
      "hm_state m t \<noteq> kFull"
      using probe_insert_walk_miss [OF D(1) d(1) b d(2) e, of "hm_capacity m"]
      unfolding probe_insert_def by auto
    moreover have "hm_lookup m k = None"
      using hm_empty_stop_absent [OF assms d(1) _ e] d(2) by blast
    ultimately show thesis using d by (intro miss [of f]) auto
  qed
qed

theorem hm_find_correct:
  assumes "hm_inv m"
  shows "hm_find m k = Some (hm_lookup m k)"
proof -
  note D = hm_invD [OF assms]
  have c: "hm_capacity m \<noteq> 0" using D(1) by (simp add: hm_shape_capacity)
  from assms show ?thesis
  proof (cases rule: probe_find_cases [of m k])
    case (hit i)
    then show ?thesis
      using c hm_lookup_hit [OF D(1,4) hit(2,3)] by (simp add: hm_find_def hm_hit_def Let_def)
  next
    case (miss i)
    then show ?thesis using c by (simp add: hm_find_def Let_def)
  qed
qed

section \<open>Modifiers keep the invariant and implement map updates\<close>

lemma bucket_for_cong:
  "hm_hash m' = hm_hash m \<Longrightarrow> hm_mask m' = hm_mask m \<Longrightarrow> bucket_for m' = bucket_for m"
  by (simp add: bucket_for_def fun_eq_iff)

lemma hm_fill_fields [simp]:
  "hm_capacity (hm_fill m t k v) = hm_capacity m" "hm_mask (hm_fill m t k v) = hm_mask m"
  "hm_max_load (hm_fill m t k v) = hm_max_load m" "hm_hash (hm_fill m t k v) = hm_hash m"
  "hm_tombstone_threshold (hm_fill m t k v) = hm_tombstone_threshold m"
  "hm_size (hm_fill m t k v) = hm_size m + 1"
  "hm_tombstones (hm_fill m t k v) = hm_tombstones m - of_bool (hm_state m t = kTombstone)"
  by (simp_all add: hm_fill_def Let_def)

lemma hm_slots_fill:
  "hm_slots (hm_fill m t k v) =
     (hm_slots m)[t := \<lparr>slot_key = k, slot_value = v, slot_state = kFull\<rparr>]"
  by (simp add: hm_fill_def Let_def)

lemma hm_fill_correct:
  assumes inv: "hm_inv m" and d: "d < hm_capacity m"
    and t: "t = hm_at m (bucket_for m k + d)" and free: "hm_state m t \<noteq> kFull"
    and path: "\<forall>e<d. hm_state m (hm_at m (bucket_for m k + e)) \<noteq> kEmpty"
    and absent: "hm_lookup m k = None"
    and room: "hm_state m t = kTombstone \<or> hm_size m + hm_tombstones m < hm_max_load m"
  shows "hm_inv (hm_fill m t k v)" and "hm_lookup (hm_fill m t k v) = (hm_lookup m)(k \<mapsto> v)"
proof -
  note D = hm_invD [OF inv]
  let ?m = "hm_fill m t k v"
  have tl: "t < hm_capacity m" using t D(1) by (simp add: hm_shape_capacity)
  have len: "t < length (hm_slots m)" using tl D(1) by (simp add: hm_shape_capacity)
  have st: "hm_state ?m i = (if i = t then kFull else hm_state m i)"
    and ky: "hm_key ?m i = (if i = t then k else hm_key m i)"
    and va: "slot_value (hm_slots ?m ! i) = (if i = t then v else slot_value (hm_slots m ! i))" for i
    using len by (simp_all add: hm_slots_fill nth_list_update_if)
  have hit: "hm_hit ?m q i \<longleftrightarrow> (if i = t then q = k else hm_hit m q i)" for q i
    by (auto simp: hm_hit_def st ky)
  have shape: "hm_shape ?m" using D(1) by (simp add: hm_shape_def hm_slots_fill)
  have none: "\<not> hm_hit m k i" if "i < hm_capacity m" for i
    using absent that D by (simp add: hm_lookup_None_iff)
  have uniq: "hm_unique ?m"
    using D(4) none unfolding hm_unique_def hm_hit_def by (auto simp: st ky split: if_splits)
  have chains: "hm_chains ?m"
    unfolding hm_chains_def hm_fill_fields
  proof (intro allI impI)
    fix i d' e
    assume a: "i < hm_capacity m" "hm_state ?m i = kFull" "d' < hm_capacity m"
      "hm_at m (bucket_for ?m (hm_key ?m i) + d') = i" "e < d'"
    have b: "bucket_for ?m = bucket_for m" by (rule bucket_for_cong) simp_all
    show "hm_state ?m (hm_at m (bucket_for ?m (hm_key ?m i) + e)) \<noteq> kEmpty"
    proof (cases "i = t")
      case True
      then have key: "hm_key ?m i = k" by (simp add: ky)
      have "hm_at m (bucket_for m k + d') = hm_at m (bucket_for m k + d)"
        using a(4) True t unfolding key b by simp
      then have "d' = d" using a(3) d by (rule ring_offset_inj)
      then have "hm_state m (hm_at m (bucket_for m k + e)) \<noteq> kEmpty" using path a(5) by simp
      then show ?thesis unfolding key b st by simp
    next
      case False
      then show ?thesis
        using D(3) a by (simp add: b ky st hm_chains_def)
    qed
  qed
  have full: "length (filter (\<lambda>s. slot_state s = kFull) (hm_slots ?m)) = hm_size m + 1"
    using length_filter_update [OF len, of "\<lambda>s. slot_state s = kFull"
        "\<lparr>slot_key = k, slot_value = v, slot_state = kFull\<rparr>"] free D(2)
    by (simp add: hm_counts_def hm_slots_fill)
  have tomb: "length (filter (\<lambda>s. slot_state s = kTombstone) (hm_slots ?m))
      = hm_tombstones m - of_bool (hm_state m t = kTombstone)"
    using length_filter_update [OF len, of "\<lambda>s. slot_state s = kTombstone"
        "\<lparr>slot_key = k, slot_value = v, slot_state = kFull\<rparr>"] D(2)
    by (auto simp: hm_counts_def hm_slots_fill)
  have pos: "0 < hm_tombstones m" if "hm_state m t = kTombstone"
    using that len D(2) by (auto simp: hm_counts_def filter_empty_conv)
  have "hm_size m + hm_tombstones m \<le> hm_max_load m" using D(2) by (simp add: hm_counts_def)
  then have "hm_size m + 1 + (hm_tombstones m - of_bool (hm_state m t = kTombstone)) \<le> hm_max_load m"
    using room pos by (cases "hm_state m t = kTombstone") simp_all
  then have "hm_counts ?m" by (simp add: hm_counts_def full tomb)
  with shape uniq chains show "hm_inv ?m" by (simp add: hm_inv_def)
  show "hm_lookup ?m = (hm_lookup m)(k \<mapsto> v)"
  proof
    fix q
    show "hm_lookup ?m q = ((hm_lookup m)(k \<mapsto> v)) q"
    proof (cases "q = k")
      case True
      then show ?thesis
        using tl hm_lookup_hit [OF shape uniq, of t k] by (simp add: hit va)
    next
      case False
      have "hm_hit ?m q i \<and> slot_value (hm_slots ?m ! i) = w \<longleftrightarrow>
            hm_hit m q i \<and> slot_value (hm_slots m ! i) = w" for i w
        using False free by (auto simp: hit va) (auto simp: hm_hit_def)
      then have "hm_lookup ?m q = Some w \<longleftrightarrow> hm_lookup m q = Some w" for w
        by (simp add: hm_lookup_Some_iff [OF shape uniq] hm_lookup_Some_iff [OF D(1,4)])
      then have "hm_lookup ?m q = hm_lookup m q" by (metis option.exhaust)
      then show ?thesis using False by simp
    qed
  qed
qed

theorem hm_insert_correct:
  assumes inv: "hm_inv m"
  obtains b m' where "hm_insert m k v = Some (b, m')" "hm_inv m'"
    "b \<Longrightarrow> hm_lookup m k = None \<and> hm_lookup m' = (hm_lookup m)(k \<mapsto> v)"
    "\<not> b \<Longrightarrow> m' = m"
    "hm_lookup m k = None \<Longrightarrow> hm_size m + hm_tombstones m < hm_max_load m \<Longrightarrow> b"
proof -
  note D = hm_invD [OF inv]
  have c: "hm_capacity m \<noteq> 0" using D(1) by (simp add: hm_shape_capacity)
  from inv show thesis
  proof (cases rule: probe_insert_cases [of m k])
    case (hit i)
    then have "hm_insert m k v = Some (False, m)" using c by (simp add: hm_insert_def)
    then show thesis
      using hm_lookup_hit [OF D(1,4) hit(2,3)] inv by (intro that [of False m]) auto
  next
    case (miss d)
    let ?t = "hm_at m (bucket_for m k + d)"
    show thesis
    proof (cases "hm_state m ?t = kTombstone \<or> hm_size m + hm_tombstones m < hm_max_load m")
      case True
      then have "hm_insert m k v = Some (True, hm_fill m ?t k v)"
        using c miss(1) by (auto simp: hm_insert_def Let_def)
      then show thesis
        using hm_fill_correct [OF inv miss(2) refl miss(3,4,5) True] miss(5)
        by (intro that [of True "hm_fill m ?t k v"]) auto
    next
      case False
      then have "hm_insert m k v = Some (False, m)"
        using c miss(1) by (auto simp: hm_insert_def Let_def)
      then show thesis using False inv by (intro that [of False m]) auto
    qed
  qed
qed

lemma hm_store_correct:
  assumes inv: "hm_inv m" and i: "i < hm_capacity m" "hm_hit m k i"
    and m': "m' = m\<lparr>hm_slots := (hm_slots m)[i := (hm_slots m ! i)\<lparr>slot_value := v\<rparr>]\<rparr>"
  shows "hm_inv m'" and "hm_lookup m' = (hm_lookup m)(k \<mapsto> v)"
proof -
  note D = hm_invD [OF inv]
  have len: "i < length (hm_slots m)" using i D(1) by (simp add: hm_shape_capacity)
  have same: "hm_capacity m' = hm_capacity m" "bucket_for m' = bucket_for m"
    "hm_state m' j = hm_state m j" "hm_key m' j = hm_key m j" for j
    using len by (auto simp: m' nth_list_update_if bucket_for_def fun_eq_iff)
  have hit: "hm_hit m' q j \<longleftrightarrow> hm_hit m q j" for q j by (simp add: hm_hit_def same)
  have va: "slot_value (hm_slots m' ! j) = (if j = i then v else slot_value (hm_slots m ! j))" for j
    using len by (simp add: m' nth_list_update_if)
  have shape: "hm_shape m'" using D(1) by (simp add: hm_shape_def m')
  have uniq: "hm_unique m'" using D(4) by (simp add: hm_unique_def same)
  have "length (filter P (hm_slots m')) = length (filter P (hm_slots m))"
    if "P ((hm_slots m ! i)\<lparr>slot_value := v\<rparr>) \<longleftrightarrow> P (hm_slots m ! i)" for P
    using length_filter_update [OF len, of P "(hm_slots m ! i)\<lparr>slot_value := v\<rparr>"] that
    by (simp add: m')
  then have "hm_counts m'" using D(2) by (simp add: hm_counts_def) (simp add: m')
  moreover have "hm_chains m'" using D(3) by (simp add: hm_chains_def same)
  ultimately show "hm_inv m'" using shape uniq by (simp add: hm_inv_def)
  show "hm_lookup m' = (hm_lookup m)(k \<mapsto> v)"
  proof
    fix q
    show "hm_lookup m' q = ((hm_lookup m)(k \<mapsto> v)) q"
    proof (cases "q = k")
      case True
      then show ?thesis
        using i hm_lookup_hit [OF shape uniq, of i k] by (simp add: hit va same)
    next
      case False
      have "hm_hit m' q j \<and> slot_value (hm_slots m' ! j) = w \<longleftrightarrow>
            hm_hit m q j \<and> slot_value (hm_slots m ! j) = w" for j w
        using False i by (auto simp: hit va) (auto simp: hm_hit_def)
      then have "hm_lookup m' q = Some w \<longleftrightarrow> hm_lookup m q = Some w" for w
        by (simp add: hm_lookup_Some_iff [OF shape uniq] hm_lookup_Some_iff [OF D(1,4)] same)
      then have "hm_lookup m' q = hm_lookup m q" by (metis option.exhaust)
      then show ?thesis using False by simp
    qed
  qed
qed

theorem hm_upsert_correct:
  assumes inv: "hm_inv m"
  obtains r m' where "hm_upsert m k v = Some (r, m')" "hm_inv m'"
    "r = kUpdated \<longleftrightarrow> hm_lookup m k \<noteq> None"
    "r = kCapacityFull \<Longrightarrow> m' = m \<and> hm_max_load m \<le> hm_size m + hm_tombstones m"
    "r \<noteq> kCapacityFull \<Longrightarrow> hm_lookup m' = (hm_lookup m)(k \<mapsto> v)"
proof -
  note D = hm_invD [OF inv]
  have c: "hm_capacity m \<noteq> 0" using D(1) by (simp add: hm_shape_capacity)
  from inv show thesis
  proof (cases rule: probe_insert_cases [of m k])
    case (hit i)
    let ?m = "m\<lparr>hm_slots := (hm_slots m)[i := (hm_slots m ! i)\<lparr>slot_value := v\<rparr>]\<rparr>"
    have "hm_upsert m k v = Some (kUpdated, ?m)" using c hit by (simp add: hm_upsert_def)
    then show thesis
      using hm_lookup_hit [OF D(1,4) hit(2,3)] hm_store_correct [OF inv hit(2,3) refl]
      by (intro that [of kUpdated ?m]) auto
  next
    case (miss d)
    let ?t = "hm_at m (bucket_for m k + d)"
    show thesis
    proof (cases "hm_state m ?t = kTombstone \<or> hm_size m + hm_tombstones m < hm_max_load m")
      case True
      then have "hm_upsert m k v = Some (kInserted, hm_fill m ?t k v)"
        using c miss(1) by (auto simp: hm_upsert_def Let_def)
      then show thesis
        using hm_fill_correct [OF inv miss(2) refl miss(3,4,5) True] miss(5)
        by (intro that [of kInserted "hm_fill m ?t k v"]) auto
    next
      case False
      then have "hm_upsert m k v = Some (kCapacityFull, m)"
        using c miss(1) by (auto simp: hm_upsert_def Let_def)
      then show thesis using False inv miss(5) by (intro that [of kCapacityFull m]) auto
    qed
  qed
qed

lemma hm_bury_correct:
  assumes inv: "hm_inv m" and i: "i < hm_capacity m" "hm_hit m k i"
    and m': "m' = m\<lparr>hm_slots := (hm_slots m)[i := (hm_slots m ! i)\<lparr>slot_state := kTombstone\<rparr>],
               hm_size := hm_size m - 1, hm_tombstones := hm_tombstones m + 1\<rparr>"
  shows "hm_inv m'" and "hm_lookup m' = (hm_lookup m)(k := None)"
proof -
  note D = hm_invD [OF inv]
  have len: "i < length (hm_slots m)" using i D(1) by (simp add: hm_shape_capacity)
  have same: "hm_capacity m' = hm_capacity m" "bucket_for m' = bucket_for m"
    "hm_state m' j = (if j = i then kTombstone else hm_state m j)" "hm_key m' j = hm_key m j"
    "slot_value (hm_slots m' ! j) = slot_value (hm_slots m ! j)" for j
    using len by (auto simp: m' nth_list_update_if bucket_for_def fun_eq_iff)
  have only: "j = i" if "j < hm_capacity m" "hm_hit m k j" for j
    using that i D(4) by (auto simp: hm_unique_def hm_hit_def)
  have hit: "hm_hit m' q j \<longleftrightarrow> hm_hit m q j \<and> q \<noteq> k" if "j < hm_capacity m" for q j
  proof (cases "j = i")
    case True
    then show ?thesis using i by (auto simp: hm_hit_def same)
  next
    case False
    then have "\<not> hm_hit m k j" using only that by blast
    then show ?thesis using False by (auto simp: hm_hit_def same)
  qed
  have shape: "hm_shape m'" using D(1) by (simp add: hm_shape_def m')
  have uniq: "hm_unique m'" using D(4) by (simp add: hm_unique_def same)
  let ?s = "(hm_slots m ! i)\<lparr>slot_state := kTombstone\<rparr>"
  have st: "hm_state m i = kFull" using i by (simp add: hm_hit_def)
  have full: "Suc (length (filter (\<lambda>s. slot_state s = kFull) (hm_slots m'))) = hm_size m"
    using length_filter_update [OF len, of "\<lambda>s. slot_state s = kFull" ?s] st D(2)
    by (simp add: hm_counts_def m')
  have tomb: "length (filter (\<lambda>s. slot_state s = kTombstone) (hm_slots m')) = hm_tombstones m + 1"
    using length_filter_update [OF len, of "\<lambda>s. slot_state s = kTombstone" ?s] st D(2)
    by (simp add: hm_counts_def m')
  have sz: "hm_size m' = hm_size m - 1" "hm_tombstones m' = hm_tombstones m + 1"
    "hm_max_load m' = hm_max_load m" by (simp_all add: m')
  have "hm_size m + hm_tombstones m \<le> hm_max_load m" using D(2) by (simp add: hm_counts_def)
  then have "hm_counts m'"
    unfolding hm_counts_def sz using full tomb by linarith
  moreover have "hm_chains m'" using D(3) by (simp add: hm_chains_def same)
  ultimately show "hm_inv m'" using shape uniq by (simp add: hm_inv_def)
  show "hm_lookup m' = (hm_lookup m)(k := None)"
  proof
    fix q
    have "hm_lookup m' q = Some w \<longleftrightarrow> ((hm_lookup m)(k := None)) q = Some w" for w
      by (auto simp: hm_lookup_Some_iff [OF shape uniq] hm_lookup_Some_iff [OF D(1,4)] hit same)
    then show "hm_lookup m' q = ((hm_lookup m)(k := None)) q"
      by (metis option.exhaust)
  qed
qed

theorem hm_erase_correct:
  assumes inv: "hm_inv m"
  obtains m' where "hm_erase m k = Some (hm_lookup m k \<noteq> None, m')" "hm_inv m'"
    "hm_lookup m' = (hm_lookup m)(k := None)"
proof -
  note D = hm_invD [OF inv]
  have c: "hm_capacity m \<noteq> 0" using D(1) by (simp add: hm_shape_capacity)
  from inv show thesis
  proof (cases rule: probe_find_cases [of m k])
    case (hit i)
    let ?m = "m\<lparr>hm_slots := (hm_slots m)[i := (hm_slots m ! i)\<lparr>slot_state := kTombstone\<rparr>],
               hm_size := hm_size m - 1, hm_tombstones := hm_tombstones m + 1\<rparr>"
    have "hm_erase m k = Some (True, ?m)"
      using c hit by (simp add: hm_erase_def hm_hit_def)
    then show thesis
      using hm_lookup_hit [OF D(1,4) hit(2,3)] hm_bury_correct [OF inv hit(2,3) refl]
      by (intro that [of ?m]) auto
  next
    case (miss i)
    then have "hm_erase m k = Some (False, m)" using c by (simp add: hm_erase_def)
    then show thesis using miss inv by (intro that [of m]) (auto simp: fun_eq_iff)
  qed
qed

lemma hm_clear_correct:
  assumes "hm_shape m"
  shows "hm_inv (hm_clear m)" and "hm_lookup (hm_clear m) = Map.empty"
proof -
  have st: "hm_state (hm_clear m) i = kEmpty" if "i < hm_capacity m" for i
    using that assms by (simp add: hm_clear_def hm_shape_capacity)
  have cap: "hm_capacity (hm_clear m) = hm_capacity m" by (simp add: hm_clear_def)
  have "hm_shape (hm_clear m)" using assms by (simp add: hm_shape_def hm_clear_def)
  moreover have "hm_counts (hm_clear m)" by (simp add: hm_counts_def hm_clear_def)
  moreover have "hm_chains (hm_clear m)" "hm_unique (hm_clear m)"
    using st by (simp_all add: hm_chains_def hm_unique_def cap)
  ultimately show "hm_inv (hm_clear m)" by (simp add: hm_inv_def)
  show "hm_lookup (hm_clear m) = Map.empty"
    by (simp add: hm_lookup_def hm_entries_def hm_clear_def)
qed

text \<open>A map that the factory returns is well formed and empty, whatever the buffer held.\<close>

theorem hm_create_correct:
  assumes "hm_create hash sz al buf contents bytes cap = Some m" and "cap \<le> length contents"
  shows "hm_inv m" and "hm_lookup m = Map.empty" and "hm_capacity m = cap" and "hm_hash m = hash"
proof -
  have m: "m = hm_clear (hm_new hash (take cap contents) cap)" and "hm_is_valid_capacity cap"
    using assms(1) by (auto simp: hm_create_def split: if_splits)
  then have "hm_shape (hm_new hash (take cap contents) cap)"
    using assms(2) by (simp add: hm_shape_def hm_new_def)
  then show "hm_inv m" and "hm_lookup m = Map.empty" unfolding m by (rule hm_clear_correct)+
  show "hm_capacity m = cap" and "hm_hash m = hash" by (simp_all add: m hm_clear_def hm_new_def)
qed

lemma hm_construct_create: "hm_construct hash sz al buf contents bytes cap = hm_create hash sz al buf contents bytes cap"
  by (auto simp: hm_construct_def hm_create_def cassert_def)

lemma hm_size_card_dom:
  assumes "hm_inv m"
  shows "hm_size m = card (dom (hm_lookup m))"
proof -
  note D = hm_invD [OF assms]
  have "hm_size m = length (map fst (hm_entries m))"
    using D(2) by (simp add: hm_counts_def hm_entries_def)
  also have "\<dots> = card (set (map fst (hm_entries m)))"
    using hm_entries_distinct [OF D(1,4)] by (metis distinct_card)
  also have "\<dots> = card (dom (hm_lookup m))"
    by (simp add: hm_lookup_def dom_map_of_conv_image_fst)
  finally show ?thesis .
qed

lemma hm_capacity_nonzero: "hm_inv m \<Longrightarrow> hm_capacity m \<noteq> 0"
  using hm_shape_capacity by (auto simp: hm_inv_def)

section \<open>The contract a client relies on\<close>

text \<open>The 70% load limit, tombstones included, is reached.\<close>

definition hm_full :: "('k, 'v) HashMap \<Rightarrow> bool" where
  "hm_full m \<longleftrightarrow> hm_max_load m \<le> hm_size m + hm_tombstones m"

text \<open>
  A key-value store with fallible insertion: the laws the order book, the order manager and
  the exchange rely on. Both hash maps of the library provide it.
\<close>

locale kv_store =
  fixes inv :: "'m \<Rightarrow> bool"
    and lookup :: "'m \<Rightarrow> 'k \<Rightarrow> 'v option"
    and find :: "'m \<Rightarrow> 'k \<Rightarrow> 'v option outcome"
    and insert :: "'m \<Rightarrow> 'k \<Rightarrow> 'v \<Rightarrow> (bool \<times> 'm) outcome"
    and erase :: "'m \<Rightarrow> 'k \<Rightarrow> (bool \<times> 'm) outcome"
    and clear :: "'m \<Rightarrow> 'm"
    and size :: "'m \<Rightarrow> nat"
    and full :: "'m \<Rightarrow> bool"
  assumes find: "inv m \<Longrightarrow> find m k = Some (lookup m k)"
    and insert: "inv m \<Longrightarrow> \<exists>b m'. insert m k v = Some (b, m') \<and> inv m' \<and>
      (b \<longrightarrow> lookup m k = None \<and> lookup m' = (lookup m)(k \<mapsto> v)) \<and>
      (\<not> b \<longrightarrow> m' = m \<and> (lookup m k \<noteq> None \<or> full m))"
    and erase: "inv m \<Longrightarrow> \<exists>m'. erase m k = Some (lookup m k \<noteq> None, m') \<and> inv m' \<and>
      lookup m' = (lookup m)(k := None)"
    and clear: "inv m \<Longrightarrow> inv (clear m)" "inv m \<Longrightarrow> lookup (clear m) = Map.empty"
    and size: "inv m \<Longrightarrow> size m = card (dom (lookup m))"
begin

lemma insertE:
  assumes "inv m"
  obtains (ok) m' where "insert m k v = Some (True, m')" "inv m'" "lookup m k = None"
      "lookup m' = (lookup m)(k \<mapsto> v)"
  | (fail) "insert m k v = Some (False, m)" "lookup m k \<noteq> None \<or> full m"
  using insert [OF assms, of k v] by (metis (full_types))

lemma eraseE:
  assumes "inv m"
  obtains m' where "erase m k = Some (lookup m k \<noteq> None, m')" "inv m'"
    "lookup m' = (lookup m)(k := None)"
  using erase [OF assms, of k] by blast

lemma insert_duplicate: "inv m \<Longrightarrow> lookup m k \<noteq> None \<Longrightarrow> insert m k v = Some (False, m)"
  by (rule insertE [of m k v]) auto

text \<open>A key just inserted is found again, and erasing it restores the contents.\<close>

lemma insert_find:
  assumes "inv m" "insert m k v = Some (True, m')"
  shows "find m' k' = Some (if k' = k then Some v else lookup m k')"
  using assms(1) by (rule insertE [of m k v]) (use assms(2) in \<open>auto simp: find\<close>)

lemma insert_erase:
  assumes "inv m" "insert m k v = Some (True, m')"
  shows "\<exists>m''. erase m' k = Some (True, m'') \<and> inv m'' \<and> lookup m'' = lookup m"
  using assms(1)
proof (rule insertE [of m k v])
  fix m1 assume 1: "insert m k v = Some (True, m1)" "inv m1" "lookup m k = None"
    "lookup m1 = (lookup m)(k \<mapsto> v)"
  with assms(2) have "m1 = m'" by simp
  with 1 show ?thesis
    using erase [of m' k] by (auto simp: fun_upd_idem)
qed (use assms(2) in auto)

end

interpretation hmap: kv_store hm_inv hm_lookup hm_find hm_insert hm_erase hm_clear hm_size hm_full
proof unfold_locales
  fix m :: "('k, 'v) HashMap" and k v
  assume inv: "hm_inv m"
  show "hm_find m k = Some (hm_lookup m k)" by (rule hm_find_correct [OF inv])
  show "\<exists>b m'. hm_insert m k v = Some (b, m') \<and> hm_inv m' \<and>
    (b \<longrightarrow> hm_lookup m k = None \<and> hm_lookup m' = (hm_lookup m)(k \<mapsto> v)) \<and>
    (\<not> b \<longrightarrow> m' = m \<and> (hm_lookup m k \<noteq> None \<or> hm_full m))"
    unfolding hm_full_def not_less [symmetric]
    by (rule hm_insert_correct [OF inv, of k v]) blast
  show "\<exists>m'. hm_erase m k = Some (hm_lookup m k \<noteq> None, m') \<and> hm_inv m' \<and>
    hm_lookup m' = (hm_lookup m)(k := None)"
    by (rule hm_erase_correct [OF inv, of k]) blast
  show "hm_inv (hm_clear m)" "hm_lookup (hm_clear m) = Map.empty"
    using hm_clear_correct hm_invD(1) [OF inv] by blast+
  show "hm_size m = card (dom (hm_lookup m))" by (rule hm_size_card_dom [OF inv])
qed

end
