(* ===== verification/IndexFreeStack.thy ===== *)
theory IndexFreeStack
  imports Prelude
begin

text \<open>
  \<^verbatim>\<open>libs/ds/index_free_stack.hpp\<close>: the LIFO stack of free slot indices under every pool. The Debug build is modelled, with its
  \<^verbatim>\<open>in_use_\<close> tracker: it aborts in every case the Release build does and in more.
  The stack is proved to refine a list, to never hand out an index twice, and to abort
  exactly on a bad or doubled free.
\<close>

section \<open>State and operations\<close>

record IndexFreeStack =
  ifs_indices :: "nat list"
  ifs_capacity :: nat
  ifs_top :: nat
  ifs_in_use :: "bool list"

definition ifs_is_valid_capacity :: "nat \<Rightarrow> bool" where
  "ifs_is_valid_capacity c \<longleftrightarrow> 1 \<le> c \<and> c \<le> 2 ^ 32 - 1"

text \<open>Four bytes per index and one per tracker flag.\<close>

definition ifs_required_buffer_size :: "nat \<Rightarrow> nat" where
  "ifs_required_buffer_size capacity = capacity * 4 + capacity * 1"

definition ifs_partition_buffer :: "nat \<Rightarrow> nat \<Rightarrow> nat \<Rightarrow> bool" where
  "ifs_partition_buffer buf buf_bytes cap \<longleftrightarrow>
     buf \<noteq> 0 \<and> buf mod 4 = 0 \<and> \<not> buf_bytes < ifs_required_buffer_size cap"

definition ifs_init_storage :: "nat \<Rightarrow> IndexFreeStack" where
  "ifs_init_storage cap =
     \<lparr>ifs_indices = map (\<lambda>i. cap - 1 - i) [0..<cap], ifs_capacity = cap, ifs_top = cap,
      ifs_in_use = replicate cap False\<rparr>"

definition ifs_create :: "nat \<Rightarrow> nat \<Rightarrow> nat \<Rightarrow> IndexFreeStack option" where
  "ifs_create external_buf buf_size_bytes capacity =
    (if \<not> ifs_is_valid_capacity capacity then None
     else if \<not> ifs_partition_buffer external_buf buf_size_bytes capacity then None
     else Some (ifs_init_storage capacity))"

text \<open>The direct constructor aborts where the factory returns \<^verbatim>\<open>std::nullopt\<close>.\<close>

definition ifs_construct :: "nat \<Rightarrow> nat \<Rightarrow> nat \<Rightarrow> IndexFreeStack outcome" where
  "ifs_construct external_buf buf_size_bytes capacity = do {
     cassert (ifs_is_valid_capacity capacity);
     cassert (ifs_partition_buffer external_buf buf_size_bytes capacity);
     Some (ifs_init_storage capacity)
   }"

definition ifs_default :: IndexFreeStack where
  "ifs_default = \<lparr>ifs_indices = [], ifs_capacity = 0, ifs_top = 0, ifs_in_use = []\<rparr>"

text \<open>\<^verbatim>\<open>pop(out)\<close>: the index written to \<^verbatim>\<open>out\<close>, or \<open>None\<close> when it returns false.\<close>

definition ifs_pop :: "IndexFreeStack \<Rightarrow> nat option \<times> IndexFreeStack" where
  "ifs_pop s =
    (if ifs_top s = 0 then (None, s)
     else let top = ifs_top s - 1; out = ifs_indices s ! top
          in (Some out, s\<lparr>ifs_top := top, ifs_in_use := (ifs_in_use s)[out := True]\<rparr>))"

definition ifs_push :: "IndexFreeStack \<Rightarrow> nat \<Rightarrow> IndexFreeStack outcome" where
  "ifs_push s idx = do {
     cassert (\<not> (idx \<ge> ifs_capacity s \<or> ifs_top s \<ge> ifs_capacity s));
     cassert (ifs_in_use s ! idx);
     Some (s\<lparr>ifs_in_use := (ifs_in_use s)[idx := False],
             ifs_indices := (ifs_indices s)[ifs_top s := idx], ifs_top := ifs_top s + 1\<rparr>)
   }"

definition ifs_available :: "IndexFreeStack \<Rightarrow> nat" where
  "ifs_available s = ifs_top s"

definition ifs_empty :: "IndexFreeStack \<Rightarrow> bool" where
  "ifs_empty s \<longleftrightarrow> ifs_top s = 0"

definition ifs_full :: "IndexFreeStack \<Rightarrow> bool" where
  "ifs_full s \<longleftrightarrow> ifs_top s = ifs_capacity s"

section \<open>Abstraction and invariant\<close>

text \<open>The free indices, next one to be popped first.\<close>

definition ifs_stack :: "IndexFreeStack \<Rightarrow> nat list" where
  "ifs_stack s = rev (take (ifs_top s) (ifs_indices s))"

definition ifs_inv :: "IndexFreeStack \<Rightarrow> bool" where
  "ifs_inv s \<longleftrightarrow> length (ifs_indices s) = ifs_capacity s \<and> length (ifs_in_use s) = ifs_capacity s \<and>
     ifs_top s \<le> ifs_capacity s \<and> distinct (ifs_stack s) \<and>
     set (ifs_stack s) \<subseteq> {..<ifs_capacity s} \<and>
     (\<forall>i < ifs_capacity s. ifs_in_use s ! i \<longleftrightarrow> i \<notin> set (ifs_stack s))"

definition ifs_allocated :: "IndexFreeStack \<Rightarrow> nat set" where
  "ifs_allocated s = {..<ifs_capacity s} - set (ifs_stack s)"

lemma ifs_invD:
  assumes "ifs_inv s"
  shows "length (ifs_indices s) = ifs_capacity s" "length (ifs_in_use s) = ifs_capacity s"
    "ifs_top s \<le> ifs_capacity s" "distinct (ifs_stack s)" "set (ifs_stack s) \<subseteq> {..<ifs_capacity s}"
    "\<And>i. i < ifs_capacity s \<Longrightarrow> ifs_in_use s ! i \<longleftrightarrow> i \<notin> set (ifs_stack s)"
  using assms by (auto simp: ifs_inv_def)

lemma ifs_stack_length: "ifs_inv s \<Longrightarrow> length (ifs_stack s) = ifs_top s"
  by (simp add: ifs_inv_def ifs_stack_def)

lemma ifs_stack_init: "ifs_stack (ifs_init_storage cap) = [0..<cap]"
  by (rule nth_equalityI)
     (auto simp: ifs_stack_def ifs_init_storage_def rev_nth)

lemma ifs_init_inv: "ifs_inv (ifs_init_storage cap)"
  unfolding ifs_inv_def ifs_stack_init by (auto simp: ifs_init_storage_def)

lemma ifs_create_correct:
  assumes "ifs_create buf bytes cap = Some s"
  shows "ifs_inv s" "ifs_stack s = [0..<cap]" "ifs_capacity s = cap"
proof -
  have "s = ifs_init_storage cap" using assms by (auto simp: ifs_create_def split: if_splits)
  then show "ifs_inv s" "ifs_stack s = [0..<cap]" "ifs_capacity s = cap"
    by (simp_all add: ifs_init_inv ifs_stack_init) (simp add: ifs_init_storage_def)
qed

lemma ifs_construct_create: "ifs_construct buf bytes cap = ifs_create buf bytes cap"
  by (simp add: ifs_construct_def ifs_create_def outcome_simps)

lemma ifs_stack_Cons:
  assumes "ifs_inv s" "0 < ifs_top s"
  shows "ifs_stack s = ifs_indices s ! (ifs_top s - 1) #
           rev (take (ifs_top s - 1) (ifs_indices s))"
proof -
  have "ifs_top s - 1 < length (ifs_indices s)" using assms ifs_invD(1,3) by fastforce
  then show ?thesis
    using assms(2) take_Suc_conv_app_nth [of "ifs_top s - 1" "ifs_indices s"]
    by (simp add: ifs_stack_def)
qed

section \<open>The operations refine list operations\<close>

lemma ifs_pop_refines:
  assumes inv: "ifs_inv s"
  shows "case ifs_stack s of
      [] \<Rightarrow> ifs_pop s = (None, s)
    | i # rest \<Rightarrow> (\<exists>s'. ifs_pop s = (Some i, s') \<and> ifs_inv s' \<and> ifs_stack s' = rest \<and>
        ifs_capacity s' = ifs_capacity s)"
proof (cases "ifs_top s = 0")
  case True
  then show ?thesis by (simp add: ifs_stack_def ifs_pop_def)
next
  case False
  note D = ifs_invD [OF inv]
  let ?i = "ifs_indices s ! (ifs_top s - 1)" and ?rest = "rev (take (ifs_top s - 1) (ifs_indices s))"
  let ?s = "s\<lparr>ifs_top := ifs_top s - 1, ifs_in_use := (ifs_in_use s)[?i := True]\<rparr>"
  have st: "ifs_stack s = ?i # ?rest" using ifs_stack_Cons [OF inv] False by simp
  have pop: "ifs_pop s = (Some ?i, ?s)" using False by (simp add: ifs_pop_def Let_def)
  have st': "ifs_stack ?s = ?rest" by (simp add: ifs_stack_def)
  have "ifs_inv ?s"
    unfolding ifs_inv_def st'
    using D st by (auto simp: nth_list_update)
  with pop st st' show ?thesis by auto
qed

lemma ifs_push_refines:
  assumes inv: "ifs_inv s" and i: "i \<in> ifs_allocated s"
  shows "\<exists>s'. ifs_push s i = Some s' \<and> ifs_inv s' \<and> ifs_stack s' = i # ifs_stack s \<and>
           ifs_capacity s' = ifs_capacity s"
proof -
  note D = ifs_invD [OF inv]
  have i': "i < ifs_capacity s" "i \<notin> set (ifs_stack s)"
    using i by (auto simp: ifs_allocated_def)
  have "card (set (ifs_stack s)) < card {..<ifs_capacity s}"
    using D(5) i' by (intro psubset_card_mono) auto
  then have top: "ifs_top s < ifs_capacity s"
    using D(4) ifs_stack_length [OF inv] by (simp add: distinct_card)
  let ?s = "s\<lparr>ifs_in_use := (ifs_in_use s)[i := False],
              ifs_indices := (ifs_indices s)[ifs_top s := i], ifs_top := ifs_top s + 1\<rparr>"
  have push: "ifs_push s i = Some ?s"
    using i' D(6) [OF i'(1)] top by (simp add: ifs_push_def outcome_simps)
  have st: "ifs_stack ?s = i # ifs_stack s"
    using top D(1) by (simp add: ifs_stack_def take_Suc_conv_app_nth)
  have "ifs_inv ?s"
    unfolding ifs_inv_def st using D i' top by (auto simp: nth_list_update)
  with push st show ?thesis by auto
qed

text \<open>A push that is not the return of an allocated index aborts.\<close>

lemma ifs_push_abort_iff:
  assumes "ifs_inv s"
  shows "ifs_push s i = None \<longleftrightarrow> i \<notin> ifs_allocated s"
proof
  assume "ifs_push s i = None"
  then show "i \<notin> ifs_allocated s" using ifs_push_refines [OF assms] by fastforce
next
  assume "i \<notin> ifs_allocated s"
  then have "ifs_capacity s \<le> i \<or> \<not> ifs_in_use s ! i"
    using ifs_invD(6) [OF assms] by (auto simp: ifs_allocated_def)
  then show "ifs_push s i = None" by (auto simp: ifs_push_def outcome_simps)
qed

section \<open>The contract a pool relies on\<close>

locale index_pool =
  fixes inv :: "'s \<Rightarrow> bool" and capacity :: "'s \<Rightarrow> nat" and free :: "'s \<Rightarrow> nat list"
    and pop :: "'s \<Rightarrow> nat option \<times> 's" and push :: "'s \<Rightarrow> nat \<Rightarrow> 's outcome"
  assumes free_distinct: "inv s \<Longrightarrow> distinct (free s)"
    and free_bound: "inv s \<Longrightarrow> set (free s) \<subseteq> {..<capacity s}"
    and pop_spec: "inv s \<Longrightarrow> (case free s of [] \<Rightarrow> pop s = (None, s)
      | i # rest \<Rightarrow> \<exists>s'. pop s = (Some i, s') \<and> inv s' \<and> free s' = rest \<and> capacity s' = capacity s)"
    and push_spec: "inv s \<Longrightarrow> i < capacity s \<Longrightarrow> i \<notin> set (free s) \<Longrightarrow>
      \<exists>s'. push s i = Some s' \<and> inv s' \<and> free s' = i # free s \<and> capacity s' = capacity s"
begin

lemma popE:
  assumes "inv s"
  obtains (none) "free s = []" "pop s = (None, s)"
  | (some) i s' where "pop s = (Some i, s')" "inv s'" "free s = i # free s'"
      "capacity s' = capacity s" "i < capacity s" "i \<notin> set (free s')"
proof (cases "free s")
  case Nil
  then show thesis using pop_spec [OF assms] none by simp
next
  case (Cons i rest)
  then obtain s' where s': "pop s = (Some i, s')" "inv s'" "free s' = rest" "capacity s' = capacity s"
    using pop_spec [OF assms] by auto
  moreover have "i < capacity s" using free_bound [OF assms] Cons by auto
  moreover have "i \<notin> set rest" using free_distinct [OF assms] Cons by simp
  ultimately show thesis using Cons by (intro some [of i s']) auto
qed

lemma pushE:
  assumes "inv s" "i < capacity s" "i \<notin> set (free s)"
  obtains s' where "push s i = Some s'" "inv s'" "free s' = i # free s" "capacity s' = capacity s"
  using push_spec [OF assms] by blast

text \<open>Returning the index just taken restores the free list.\<close>

lemma pop_push:
  assumes "inv s" "pop s = (Some i, s')"
  shows "\<exists>s''. push s' i = Some s'' \<and> inv s'' \<and> free s'' = free s"
  using assms(1)
proof (cases rule: popE)
  case none
  then show ?thesis using assms(2) by simp
next
  case (some j t)
  with assms(2) have [simp]: "j = i" "t = s'" by simp_all
  from some show ?thesis by (metis push_spec \<open>j = i\<close> \<open>t = s'\<close>)
qed

end

interpretation ifs: index_pool ifs_inv ifs_capacity ifs_stack ifs_pop ifs_push
proof unfold_locales
  fix s :: IndexFreeStack and i
  assume inv: "ifs_inv s"
  show "distinct (ifs_stack s)" "set (ifs_stack s) \<subseteq> {..<ifs_capacity s}"
    using ifs_invD [OF inv] by auto
  show "case ifs_stack s of [] \<Rightarrow> ifs_pop s = (None, s)
      | i # rest \<Rightarrow> \<exists>s'. ifs_pop s = (Some i, s') \<and> ifs_inv s' \<and> ifs_stack s' = rest \<and>
          ifs_capacity s' = ifs_capacity s"
    by (rule ifs_pop_refines [OF inv])
  show "\<exists>s'. ifs_push s i = Some s' \<and> ifs_inv s' \<and> ifs_stack s' = i # ifs_stack s \<and>
          ifs_capacity s' = ifs_capacity s" if "i < ifs_capacity s" "i \<notin> set (ifs_stack s)"
    using ifs_push_refines [OF inv, of i] that by (auto simp: ifs_allocated_def)
qed

end
