(* ===== verification/IntrusiveList.thy ===== *)
theory IntrusiveList
  imports Prelude
begin

text \<open>
  \<^verbatim>\<open>libs/ds/intrusive_list.hpp\<close>: circular doubly linked lists whose links are embedded in
  the nodes. The model keeps the pointers: a heap of hooks, addressed by list sentinels
  and nodes, and the \<^verbatim>\<open>size_\<close> member of every list. Dereferencing a null pointer and a
  failed \<^verbatim>\<open>assert\<close> are the outcome \<open>None\<close>.

  The refinement relation \<open>il_abs\<close> says which sequence of nodes every list of the heap
  holds; each pointer operation is proved to carry it to the corresponding operation on
  sequences, leaving the other lists alone. Components that own intrusive lists are
  modelled over sequences, with the operations \<open>il_seq_erase\<close> and
  \<open>il_seq_insert_before\<close> below.
\<close>

section \<open>Pointers\<close>

datatype hook_addr = Sentinel nat | Node nat

record hook =
  hk_prev :: "hook_addr option"
  hk_next :: "hook_addr option"

type_synonym hooks = "hook_addr \<Rightarrow> hook"

record il_heap =
  il_hooks :: hooks
  il_sizes :: "nat \<Rightarrow> nat"

definition set_prev :: "hook_addr \<Rightarrow> hook_addr option \<Rightarrow> hooks \<Rightarrow> hooks" where
  "set_prev a p h = h(a := (h a)\<lparr>hk_prev := p\<rparr>)"

definition set_next :: "hook_addr \<Rightarrow> hook_addr option \<Rightarrow> hooks \<Rightarrow> hooks" where
  "set_next a p h = h(a := (h a)\<lparr>hk_next := p\<rparr>)"

definition is_linked :: "hooks \<Rightarrow> hook_addr \<Rightarrow> bool" where
  "is_linked h a \<longleftrightarrow> hk_next (h a) \<noteq> None"

definition init_sentinel :: "nat \<Rightarrow> hooks \<Rightarrow> hooks" where
  "init_sentinel l h =
     set_next (Sentinel l) (Some (Sentinel l)) (set_prev (Sentinel l) (Some (Sentinel l)) h)"

definition link_after :: "hook_addr \<Rightarrow> hook_addr \<Rightarrow> hooks \<Rightarrow> hooks outcome" where
  "link_after pos node h = do {
     let h = set_prev node (Some pos) h;
     let h = set_next node (hk_next (h pos)) h;
     n \<leftarrow> hk_next (h pos);
     let h = set_prev n (Some node) h;
     Some (set_next pos (Some node) h)
   }"

definition link_before :: "hook_addr \<Rightarrow> hook_addr \<Rightarrow> hooks \<Rightarrow> hooks outcome" where
  "link_before pos node h = do {
     let h = set_next node (Some pos) h;
     let h = set_prev node (hk_prev (h pos)) h;
     p \<leftarrow> hk_prev (h pos);
     let h = set_next p (Some node) h;
     Some (set_prev pos (Some node) h)
   }"

definition unlink :: "hook_addr \<Rightarrow> hooks \<Rightarrow> hooks outcome" where
  "unlink node h = do {
     p \<leftarrow> hk_prev (h node);
     let h = set_next p (hk_next (h node)) h;
     n \<leftarrow> hk_next (h node);
     let h = set_prev n (hk_prev (h node)) h;
     let h = set_prev node None h;
     Some (set_next node None h)
   }"

section \<open>List operations\<close>

definition il_empty :: "il_heap \<Rightarrow> nat \<Rightarrow> bool" where
  "il_empty s l \<longleftrightarrow> il_sizes s l = 0"

text \<open>The default constructor.\<close>

definition il_construct :: "il_heap \<Rightarrow> nat \<Rightarrow> il_heap" where
  "il_construct s l = s\<lparr>il_hooks := init_sentinel l (il_hooks s), il_sizes := (il_sizes s)(l := 0)\<rparr>"

text \<open>A node is recovered from its hook by a downcast; the sentinel is not a node.\<close>

fun downcast :: "hook_addr option \<Rightarrow> nat outcome" where
  "downcast (Some (Node n)) = Some n"
| "downcast _ = None"

definition il_front :: "il_heap \<Rightarrow> nat \<Rightarrow> nat outcome" where
  "il_front s l = do {
     cassert (\<not> il_empty s l);
     downcast (hk_next (il_hooks s (Sentinel l)))
   }"

definition il_back :: "il_heap \<Rightarrow> nat \<Rightarrow> nat outcome" where
  "il_back s l = do {
     cassert (\<not> il_empty s l);
     downcast (hk_prev (il_hooks s (Sentinel l)))
   }"

definition il_push_front :: "il_heap \<Rightarrow> nat \<Rightarrow> nat \<Rightarrow> il_heap outcome" where
  "il_push_front s l n = do {
     cassert (\<not> is_linked (il_hooks s) (Node n));
     h \<leftarrow> link_after (Sentinel l) (Node n) (il_hooks s);
     Some (s\<lparr>il_hooks := h, il_sizes := (il_sizes s)(l := il_sizes s l + 1)\<rparr>)
   }"

definition il_push_back :: "il_heap \<Rightarrow> nat \<Rightarrow> nat \<Rightarrow> il_heap outcome" where
  "il_push_back s l n = do {
     cassert (\<not> is_linked (il_hooks s) (Node n));
     h \<leftarrow> link_before (Sentinel l) (Node n) (il_hooks s);
     Some (s\<lparr>il_hooks := h, il_sizes := (il_sizes s)(l := il_sizes s l + 1)\<rparr>)
   }"

definition il_pop_front :: "il_heap \<Rightarrow> nat \<Rightarrow> (nat \<times> il_heap) outcome" where
  "il_pop_front s l = do {
     cassert (\<not> il_empty s l);
     n \<leftarrow> il_front s l;
     h \<leftarrow> unlink (Node n) (il_hooks s);
     Some (n, s\<lparr>il_hooks := h, il_sizes := (il_sizes s)(l := il_sizes s l - 1)\<rparr>)
   }"

definition il_pop_back :: "il_heap \<Rightarrow> nat \<Rightarrow> (nat \<times> il_heap) outcome" where
  "il_pop_back s l = do {
     cassert (\<not> il_empty s l);
     n \<leftarrow> il_back s l;
     h \<leftarrow> unlink (Node n) (il_hooks s);
     Some (n, s\<lparr>il_hooks := h, il_sizes := (il_sizes s)(l := il_sizes s l - 1)\<rparr>)
   }"

definition il_insert_before :: "il_heap \<Rightarrow> nat \<Rightarrow> nat \<Rightarrow> nat \<Rightarrow> il_heap outcome" where
  "il_insert_before s l pos n = do {
     cassert (is_linked (il_hooks s) (Node pos));
     cassert (\<not> is_linked (il_hooks s) (Node n));
     h \<leftarrow> link_before (Node pos) (Node n) (il_hooks s);
     Some (s\<lparr>il_hooks := h, il_sizes := (il_sizes s)(l := il_sizes s l + 1)\<rparr>)
   }"

definition il_erase :: "il_heap \<Rightarrow> nat \<Rightarrow> nat \<Rightarrow> il_heap outcome" where
  "il_erase s l n = do {
     cassert (is_linked (il_hooks s) (Node n));
     h \<leftarrow> unlink (Node n) (il_hooks s);
     cassert (\<not> is_linked h (Node n));
     Some (s\<lparr>il_hooks := h, il_sizes := (il_sizes s)(l := il_sizes s l - 1)\<rparr>)
   }"

text \<open>
  The loop of \<^verbatim>\<open>clear\<close>: it walks from the sentinel and ends only when it meets the
  sentinel again, so it may not return. The result counts the nodes it cleared.
\<close>

partial_function (option) il_clear_loop ::
  "hook_addr \<Rightarrow> hook_addr option \<Rightarrow> nat \<Rightarrow> hooks \<Rightarrow> (nat \<times> hooks) option" where
  "il_clear_loop sent cur cleared h =
    (case cur of
       None \<Rightarrow> None
     | Some c \<Rightarrow>
         if c = sent then Some (cleared, h)
         else il_clear_loop sent (hk_next (h c)) (Suc cleared)
                (set_next c None (set_prev c None h)))"

definition il_clear :: "il_heap \<Rightarrow> nat \<Rightarrow> il_heap outcome" where
  "il_clear s l = do {
     (cleared, h) \<leftarrow> il_clear_loop (Sentinel l) (hk_next (il_hooks s (Sentinel l))) 0 (il_hooks s);
     cassert (cleared = il_sizes s l);
     Some (s\<lparr>il_hooks := init_sentinel l h, il_sizes := (il_sizes s)(l := 0)\<rparr>)
   }"

section \<open>Sequences\<close>

text \<open>The operations of a list seen as the sequence of its nodes.\<close>

definition il_seq_erase :: "nat \<Rightarrow> nat list \<Rightarrow> nat list" where
  "il_seq_erase n xs = remove1 n xs"

definition il_seq_insert_before :: "nat \<Rightarrow> nat \<Rightarrow> nat list \<Rightarrow> nat list" where
  "il_seq_insert_before pos n xs = takeWhile (\<lambda>x. x \<noteq> pos) xs @ n # dropWhile (\<lambda>x. x \<noteq> pos) xs"

text \<open>Consecutive addresses of a path point at each other.\<close>

fun linked_path :: "hooks \<Rightarrow> hook_addr list \<Rightarrow> bool" where
  "linked_path h (a # b # as) \<longleftrightarrow>
     hk_next (h a) = Some b \<and> hk_prev (h b) = Some a \<and> linked_path h (b # as)"
| "linked_path h _ \<longleftrightarrow> True"

definition il_ring :: "nat \<Rightarrow> nat list \<Rightarrow> hook_addr list" where
  "il_ring l xs = Sentinel l # map Node xs @ [Sentinel l]"

text \<open>
  \<open>il_abs L f s\<close>: in heap \<open>s\<close> every list \<open>l \<in> L\<close> holds the nodes \<open>f l\<close>, no node is
  twice in a list or in two lists, and the hooks of all other nodes are null.
\<close>

definition il_abs :: "nat set \<Rightarrow> (nat \<Rightarrow> nat list) \<Rightarrow> il_heap \<Rightarrow> bool" where
  "il_abs L f s \<longleftrightarrow>
     (\<forall>l \<in> L. linked_path (il_hooks s) (il_ring l (f l)) \<and> distinct (f l) \<and>
              il_sizes s l = length (f l)) \<and>
     (\<forall>l \<in> L. \<forall>m \<in> L. l \<noteq> m \<longrightarrow> set (f l) \<inter> set (f m) = {}) \<and>
     (\<forall>n. (\<forall>l \<in> L. n \<notin> set (f l)) \<longrightarrow>
          hk_prev (il_hooks s (Node n)) = None \<and> hk_next (il_hooks s (Node n)) = None)"

section \<open>Reasoning about paths\<close>

lemma set_prev_sel [simp]:
  "hk_prev (set_prev a p h x) = (if x = a then p else hk_prev (h x))"
  "hk_next (set_prev a p h x) = hk_next (h x)"
  by (simp_all add: set_prev_def)

lemma set_next_sel [simp]:
  "hk_next (set_next a p h x) = (if x = a then p else hk_next (h x))"
  "hk_prev (set_next a p h x) = hk_prev (h x)"
  by (simp_all add: set_next_def)

lemma linked_path_append:
  "linked_path h (xs @ a # ys) \<longleftrightarrow> linked_path h (xs @ [a]) \<and> linked_path h (a # ys)"
proof (induction xs)
  case Nil
  then show ?case by simp
next
  case (Cons x xs)
  then show ?case by (cases xs) auto
qed

lemma linked_path_mid:
  assumes "linked_path h (as @ a # b # bs)"
  shows "hk_next (h a) = Some b" "hk_prev (h b) = Some a"
  using assms linked_path_append [of h as a "b # bs"] by auto

lemma linked_path_mid2:
  assumes "linked_path h (as @ a # n # b # bs)"
  shows "hk_prev (h n) = Some a" "hk_next (h n) = Some b"
  using assms linked_path_append [of h as a "n # b # bs"] by auto

lemma linked_path_cong:
  assumes "\<And>x. x \<in> set (butlast p) \<Longrightarrow> hk_next (h' x) = hk_next (h x)"
    and "\<And>x. x \<in> set (tl p) \<Longrightarrow> hk_prev (h' x) = hk_prev (h x)"
  shows "linked_path h' p = linked_path h p"
  using assms by (induction h p rule: linked_path.induct) auto

text \<open>The effect of putting \<open>n\<close> between neighbours \<open>a\<close> and \<open>b\<close>, and of taking it out.\<close>

definition spliced :: "hooks \<Rightarrow> hook_addr \<Rightarrow> hook_addr \<Rightarrow> hook_addr \<Rightarrow> hooks \<Rightarrow> bool" where
  "spliced h a n b h' \<longleftrightarrow> (\<forall>x.
     hk_next (h' x) = (if x = a then Some n else if x = n then Some b else hk_next (h x)) \<and>
     hk_prev (h' x) = (if x = b then Some n else if x = n then Some a else hk_prev (h x)))"

definition cut_out :: "hooks \<Rightarrow> hook_addr \<Rightarrow> hook_addr \<Rightarrow> hook_addr \<Rightarrow> hooks \<Rightarrow> bool" where
  "cut_out h a n b h' \<longleftrightarrow> (\<forall>x.
     hk_next (h' x) = (if x = n then None else if x = a then Some b else hk_next (h x)) \<and>
     hk_prev (h' x) = (if x = n then None else if x = b then Some a else hk_prev (h x)))"

lemma linked_path_frame:
  assumes "\<And>x. x \<in> set p \<Longrightarrow> x \<noteq> a \<and> x \<noteq> b \<and> x \<noteq> n"
    and "spliced h a n b h' \<or> cut_out h a n b h'"
  shows "linked_path h' p = linked_path h p"
  by (rule linked_path_cong)
     (use assms in \<open>auto simp: spliced_def cut_out_def dest!: in_set_butlastD in_set_tlD\<close>)

lemma link_after_spliced:
  assumes "hk_next (h a) = Some b" "n \<noteq> a" "n \<noteq> b"
  obtains h' where "link_after a n h = Some h'" "spliced h a n b h'"
  using assms by (auto simp: link_after_def spliced_def Let_def)

lemma link_before_spliced:
  assumes "hk_prev (h b) = Some a" "n \<noteq> a" "n \<noteq> b"
  obtains h' where "link_before b n h = Some h'" "spliced h a n b h'"
  using assms by (auto simp: link_before_def spliced_def Let_def)

lemma unlink_cut_out:
  assumes "hk_prev (h n) = Some a" "hk_next (h n) = Some b" "n \<noteq> a" "n \<noteq> b"
  obtains h' where "unlink n h = Some h'" "cut_out h a n b h'"
  using assms by (auto simp: unlink_def cut_out_def Let_def)

lemma linked_path_splice:
  assumes path: "linked_path h (as @ a # b # bs)" and sp: "spliced h a n b h'"
    and dist: "distinct (butlast (as @ a # b # bs))" "distinct (tl (as @ a # b # bs))"
    and new: "n \<notin> set (as @ a # b # bs)"
  shows "linked_path h' (as @ a # n # b # bs)"
proof -
  have tl: "tl (as @ a # b # bs) = tl (as @ [a]) @ b # bs" by (cases as) auto
  have d1: "a \<notin> set as" "a \<notin> set (butlast (b # bs))" "a \<notin> set (butlast (as @ [a]))"
    using dist(1) by (auto simp: butlast_append split: if_splits)
  have d2: "b \<notin> set (tl (as @ [a]))" "b \<notin> set bs"
    using dist(2) unfolding tl by auto
  have d3: "n \<notin> set (butlast (b # bs))" "n \<notin> set (butlast (as @ [a]))" "n \<notin> set (tl (as @ [a]))"
      "n \<notin> set (tl (b # bs))"
    using new by (auto dest: in_set_butlastD in_set_tlD)
  have parts: "linked_path h (as @ [a])" "linked_path h (b # bs)"
    using path linked_path_append [of h as a "b # bs"] by auto
  have "linked_path h' (as @ [a]) = linked_path h (as @ [a])"
    by (rule linked_path_cong) (use d1 d2 d3 sp in \<open>auto simp: spliced_def\<close>)
  moreover have "linked_path h' (b # bs) = linked_path h (b # bs)"
    by (rule linked_path_cong) (use d1 d2 d3 sp in \<open>auto simp: spliced_def\<close>)
  moreover have "hk_next (h' a) = Some n" "hk_prev (h' n) = Some a" "hk_next (h' n) = Some b"
    "hk_prev (h' b) = Some n"
    using sp new by (auto simp: spliced_def)
  ultimately show ?thesis
    using parts linked_path_append [of h' as a "n # b # bs"] by simp
qed

lemma linked_path_cut:
  assumes path: "linked_path h (as @ a # n # b # bs)" and ct: "cut_out h a n b h'"
    and dist: "distinct (butlast (as @ a # n # b # bs))" "distinct (tl (as @ a # n # b # bs))"
    and out: "n \<notin> set (as @ a # b # bs)"
  shows "linked_path h' (as @ a # b # bs)"
proof -
  have tl: "tl (as @ a # n # b # bs) = tl (as @ [a]) @ n # b # bs" by (cases as) auto
  have d1: "a \<notin> set as" "a \<notin> set (butlast (b # bs))" "a \<notin> set (butlast (as @ [a]))"
    using dist(1) by (auto simp: butlast_append split: if_splits)
  have d2: "b \<notin> set (tl (as @ [a]))" "b \<notin> set bs"
    using dist(2) unfolding tl by auto
  have d3: "n \<notin> set (butlast (b # bs))" "n \<notin> set (butlast (as @ [a]))" "n \<notin> set (tl (as @ [a]))"
      "n \<notin> set (tl (b # bs))"
    using out by (auto dest: in_set_butlastD in_set_tlD)
  have parts: "linked_path h (as @ [a])" "linked_path h (b # bs)"
    using path linked_path_append [of h as a "n # b # bs"] by auto
  have "linked_path h' (as @ [a]) = linked_path h (as @ [a])"
    by (rule linked_path_cong) (use d1 d2 d3 ct in \<open>auto simp: cut_out_def\<close>)
  moreover have "linked_path h' (b # bs) = linked_path h (b # bs)"
    by (rule linked_path_cong) (use d1 d2 d3 ct in \<open>auto simp: cut_out_def\<close>)
  moreover have "hk_next (h' a) = Some b" "hk_prev (h' b) = Some a"
    using ct out by (auto simp: cut_out_def)
  ultimately show ?thesis
    using parts linked_path_append [of h' as a "b # bs"] by simp
qed

section \<open>Inserting and removing a node\<close>

text \<open>The addresses before and after a position of a ring.\<close>

abbreviation il_before :: "nat \<Rightarrow> nat list \<Rightarrow> hook_addr" where
  "il_before l us \<equiv> last (Sentinel l # map Node us)"

abbreviation il_after :: "nat \<Rightarrow> nat list \<Rightarrow> hook_addr" where
  "il_after l vs \<equiv> hd (map Node vs @ [Sentinel l])"

lemma il_ring_split:
  "il_ring l (us @ vs) =
     butlast (Sentinel l # map Node us) @ il_before l us # il_after l vs # tl (map Node vs @ [Sentinel l])"
proof -
  have "il_ring l (us @ vs) = (Sentinel l # map Node us) @ (map Node vs @ [Sentinel l])"
    by (simp add: il_ring_def)
  also have "Sentinel l # map Node us = butlast (Sentinel l # map Node us) @ [il_before l us]"
    by (metis append_butlast_last_id list.discI)
  also have "map Node vs @ [Sentinel l] = il_after l vs # tl (map Node vs @ [Sentinel l])"
    by (cases vs) auto
  finally show ?thesis by simp
qed

lemma il_ring_split_node:
  "il_ring l (us @ n # vs) =
     butlast (Sentinel l # map Node us) @ il_before l us # Node n # il_after l vs # tl (map Node vs @ [Sentinel l])"
  using il_ring_split [of l us "n # vs"] by (cases vs) auto

lemma il_ring_distinct:
  assumes "distinct xs"
  shows "distinct (butlast (il_ring l xs))" "distinct (tl (il_ring l xs))"
  using assms by (auto simp: il_ring_def distinct_map inj_on_def butlast_append)

lemma il_ring_mem: "x \<in> set (il_ring l xs) \<longleftrightarrow> x = Sentinel l \<or> (\<exists>n \<in> set xs. x = Node n)"
  by (auto simp: il_ring_def)

lemma il_before_mem: "il_before l us \<in> set (il_ring l (us @ vs))"
  using last_in_set [of "Sentinel l # map Node us"] by (auto simp: il_ring_def)

lemma il_after_mem: "il_after l vs \<in> set (il_ring l (us @ vs))"
  using hd_in_set [of "map Node vs @ [Sentinel l]"] by (auto simp: il_ring_def)

lemma il_absD:
  assumes "il_abs L f s" "l \<in> L"
  shows "linked_path (il_hooks s) (il_ring l (f l))" "distinct (f l)" "il_sizes s l = length (f l)"
    "\<And>m. m \<in> L \<Longrightarrow> m \<noteq> l \<Longrightarrow> set (f m) \<inter> set (f l) = {}"
  using assms by (auto simp: il_abs_def)

lemma il_abs_null:
  assumes "il_abs L f s" "\<forall>l \<in> L. n \<notin> set (f l)"
  shows "hk_prev (il_hooks s (Node n)) = None" "hk_next (il_hooks s (Node n)) = None"
  using assms by (auto simp: il_abs_def)

text \<open>A path of another list does not meet the addresses of list \<open>l\<close>.\<close>

lemma il_other_ring:
  assumes "il_abs L f s" "l \<in> L" "m \<in> L" "m \<noteq> l" "x \<in> set (il_ring m (f m))"
  shows "x \<notin> set (il_ring l (f l))"
  using il_absD(4) [OF assms(1,2,3,4)] assms(4,5) by (auto simp: il_ring_mem)

lemma il_abs_insert:
  assumes abs: "il_abs L f s" and l: "l \<in> L" and fl: "f l = us @ vs"
    and new: "\<forall>m \<in> L. n \<notin> set (f m)"
    and sp: "spliced (il_hooks s) (il_before l us) (Node n) (il_after l vs) h'"
  shows "il_abs L (f(l := us @ n # vs))
    (s\<lparr>il_hooks := h', il_sizes := (il_sizes s)(l := il_sizes s l + 1)\<rparr>)"
proof -
  note D = il_absD [OF abs l]
  have mem: "il_before l us \<in> set (il_ring l (f l))" "il_after l vs \<in> set (il_ring l (f l))"
    unfolding fl by (rule il_before_mem, rule il_after_mem)
  have out: "Node n \<notin> set (il_ring m (f m))" if "m \<in> L" for m
    using new that by (auto simp: il_ring_mem)
  have "linked_path h' (il_ring l (us @ n # vs))"
    unfolding il_ring_split_node
    by (rule linked_path_splice [OF D(1) [unfolded fl il_ring_split] sp
          il_ring_distinct [OF D(2), of l, unfolded fl il_ring_split]
          out [OF l, unfolded fl il_ring_split]])
  moreover have "linked_path h' (il_ring m (f m))" if m: "m \<in> L" "m \<noteq> l" for m
  proof -
    have "x \<noteq> il_before l us \<and> x \<noteq> il_after l vs \<and> x \<noteq> Node n" if "x \<in> set (il_ring m (f m))" for x
      using il_other_ring [OF abs l m that] mem out [OF m(1)] that by auto
    then have "linked_path h' (il_ring m (f m)) = linked_path (il_hooks s) (il_ring m (f m))"
      by (rule linked_path_frame [OF _ disjI1 [OF sp]])
    then show ?thesis using il_absD(1) [OF abs m(1)] by simp
  qed
  moreover have "hk_prev (h' (Node k)) = None \<and> hk_next (h' (Node k)) = None"
    if k: "\<forall>m \<in> L. k \<notin> set ((f(l := us @ n # vs)) m)" for k
  proof -
    have kl: "k \<notin> set (us @ n # vs)" using bspec [OF k l] by simp
    then have kn: "k \<noteq> n" by simp
    have kf: "\<forall>m \<in> L. k \<notin> set (f m)"
    proof
      fix m assume "m \<in> L"
      then show "k \<notin> set (f m)" using bspec [OF k, of m] kl fl by (cases "m = l") auto
    qed
    then have "Node k \<notin> set (il_ring l (f l))" using l by (auto simp: il_ring_mem)
    then have "Node k \<noteq> il_before l us" "Node k \<noteq> il_after l vs" using mem by auto
    then show ?thesis using sp il_abs_null [OF abs kf] kn by (simp add: spliced_def)
  qed
  moreover have "distinct (us @ n # vs)" using D(2) new l fl by auto
  moreover have "set (us @ n # vs) \<inter> set (f m) = {}" if "m \<in> L" "m \<noteq> l" for m
    using D(4) [OF that] new that fl by auto
  ultimately show ?thesis
    using abs D(3) fl unfolding il_abs_def by auto
qed

lemma il_abs_remove:
  assumes abs: "il_abs L f s" and l: "l \<in> L" and fl: "f l = us @ n # vs"
    and ct: "cut_out (il_hooks s) (il_before l us) (Node n) (il_after l vs) h'"
  shows "il_abs L (f(l := us @ vs))
    (s\<lparr>il_hooks := h', il_sizes := (il_sizes s)(l := il_sizes s l - 1)\<rparr>)"
proof -
  note D = il_absD [OF abs l]
  have mem: "il_before l us \<in> set (il_ring l (f l))" "il_after l vs \<in> set (il_ring l (f l))"
    "Node n \<in> set (il_ring l (f l))"
    using il_before_mem [where l = l and us = us and vs = "n # vs"] il_after_mem [where l = l and vs = vs and us = "us @ [n]"]
    by (simp_all add: fl il_ring_mem)
  have nus: "n \<notin> set us \<union> set vs" using D(2) fl by auto
  have out: "Node n \<notin> set (il_ring l (us @ vs))" using nus by (auto simp: il_ring_mem)
  have "linked_path h' (il_ring l (us @ vs))"
    unfolding il_ring_split
    by (rule linked_path_cut [OF D(1) [unfolded fl il_ring_split_node] ct
          il_ring_distinct [OF D(2), of l, unfolded fl il_ring_split_node]
          out [unfolded il_ring_split]])
  moreover have "linked_path h' (il_ring m (f m))" if m: "m \<in> L" "m \<noteq> l" for m
  proof -
    have "x \<noteq> il_before l us \<and> x \<noteq> il_after l vs \<and> x \<noteq> Node n" if "x \<in> set (il_ring m (f m))" for x
      using il_other_ring [OF abs l m that] mem by auto
    then have "linked_path h' (il_ring m (f m)) = linked_path (il_hooks s) (il_ring m (f m))"
      by (rule linked_path_frame [OF _ disjI2 [OF ct]])
    then show ?thesis using il_absD(1) [OF abs m(1)] by simp
  qed
  moreover have "hk_prev (h' (Node k)) = None \<and> hk_next (h' (Node k)) = None"
    if k: "\<forall>m \<in> L. k \<notin> set ((f(l := us @ vs)) m)" for k
  proof (cases "k = n")
    case True
    then show ?thesis using ct by (simp add: cut_out_def)
  next
    case False
    have kl: "k \<notin> set (us @ vs)" using bspec [OF k l] by simp
    have kf: "\<forall>m \<in> L. k \<notin> set (f m)"
    proof
      fix m assume "m \<in> L"
      then show "k \<notin> set (f m)" using bspec [OF k, of m] kl fl False by (cases "m = l") auto
    qed
    then have "Node k \<notin> set (il_ring l (f l))" using l by (auto simp: il_ring_mem)
    then have "Node k \<noteq> il_before l us" "Node k \<noteq> il_after l vs" using mem by auto
    then show ?thesis using ct il_abs_null [OF abs kf] False by (simp add: cut_out_def)
  qed
  moreover have "distinct (us @ vs)" using D(2) fl by auto
  moreover have "set (us @ vs) \<inter> set (f m) = {}" if "m \<in> L" "m \<noteq> l" for m
    using D(4) [OF that] fl by auto
  ultimately show ?thesis
    using abs D(3) fl unfolding il_abs_def by auto
qed

section \<open>Every operation refines its counterpart on sequences\<close>

text \<open>The neighbours of a position, read off a linked ring.\<close>

lemma il_ring_neighbours:
  assumes "linked_path h (il_ring l (us @ vs))"
  shows "hk_next (h (il_before l us)) = Some (il_after l vs)"
    "hk_prev (h (il_after l vs)) = Some (il_before l us)"
  using linked_path_mid [OF assms [unfolded il_ring_split]] .

lemma il_ring_node:
  assumes "linked_path h (il_ring l (us @ n # vs))"
  shows "hk_prev (h (Node n)) = Some (il_before l us)" "hk_next (h (Node n)) = Some (il_after l vs)"
  using linked_path_mid2 [OF assms [unfolded il_ring_split_node]] .

lemma is_linked_iff:
  assumes "il_abs L f s"
  shows "is_linked (il_hooks s) (Node n) \<longleftrightarrow> (\<exists>l \<in> L. n \<in> set (f l))"
proof
  assume "is_linked (il_hooks s) (Node n)"
  then show "\<exists>l \<in> L. n \<in> set (f l)"
    using il_abs_null(2) [OF assms, of n] unfolding is_linked_def by (metis (no_types))
next
  assume "\<exists>l \<in> L. n \<in> set (f l)"
  then obtain l us vs where l: "l \<in> L" and fl: "f l = us @ n # vs" by (metis split_list)
  show "is_linked (il_hooks s) (Node n)"
    using il_ring_node(2) [OF il_absD(1) [OF assms l, unfolded fl]] by (simp add: is_linked_def)
qed

lemma il_empty_iff: "il_abs L f s \<Longrightarrow> l \<in> L \<Longrightarrow> il_empty s l \<longleftrightarrow> f l = []"
  using il_absD(3) by (fastforce simp: il_empty_def)

lemma il_node_ends:
  "Node n \<noteq> il_before l us" if "n \<notin> set us"
  using that last_in_set [of "Sentinel l # map Node us"] by auto

lemma il_node_starts:
  "Node n \<noteq> il_after l vs" if "n \<notin> set vs"
  using that hd_in_set [of "map Node vs @ [Sentinel l]"] by auto

text \<open>Both ways of linking a free node at a position.\<close>

lemma il_link_at:
  assumes abs: "il_abs L f s" and l: "l \<in> L" and fl: "f l = us @ vs"
    and new: "\<forall>m \<in> L. n \<notin> set (f m)"
  obtains h1 h2 where "link_after (il_before l us) (Node n) (il_hooks s) = Some h1"
    "link_before (il_after l vs) (Node n) (il_hooks s) = Some h2"
    "il_abs L (f(l := us @ n # vs)) (s\<lparr>il_hooks := h1, il_sizes := (il_sizes s)(l := il_sizes s l + 1)\<rparr>)"
    "il_abs L (f(l := us @ n # vs)) (s\<lparr>il_hooks := h2, il_sizes := (il_sizes s)(l := il_sizes s l + 1)\<rparr>)"
proof -
  have "n \<notin> set us" "n \<notin> set vs" using new l fl by auto
  note ne = il_node_ends [OF this(1), of l] il_node_starts [OF this(2), of l]
  note nb = il_ring_neighbours [OF il_absD(1) [OF abs l, unfolded fl]]
  obtain h1 where h1: "link_after (il_before l us) (Node n) (il_hooks s) = Some h1"
    "spliced (il_hooks s) (il_before l us) (Node n) (il_after l vs) h1"
    using link_after_spliced [of "il_hooks s", OF nb(1) ne] .
  obtain h2 where h2: "link_before (il_after l vs) (Node n) (il_hooks s) = Some h2"
    "spliced (il_hooks s) (il_before l us) (Node n) (il_after l vs) h2"
    using link_before_spliced [of "il_hooks s", OF nb(2) ne] .
  show thesis
    by (rule that [OF h1(1) h2(1) il_abs_insert [OF abs l fl new h1(2)] il_abs_insert [OF abs l fl new h2(2)]])
qed

lemma il_unlink_at:
  assumes abs: "il_abs L f s" and l: "l \<in> L" and fl: "f l = us @ n # vs"
  obtains h where "unlink (Node n) (il_hooks s) = Some h" "\<not> is_linked h (Node n)"
    "il_abs L (f(l := us @ vs)) (s\<lparr>il_hooks := h, il_sizes := (il_sizes s)(l := il_sizes s l - 1)\<rparr>)"
proof -
  have "n \<notin> set us" "n \<notin> set vs" using il_absD(2) [OF abs l] fl by auto
  note ne = il_node_ends [OF this(1), of l] il_node_starts [OF this(2), of l]
  obtain h where h: "unlink (Node n) (il_hooks s) = Some h"
    "cut_out (il_hooks s) (il_before l us) (Node n) (il_after l vs) h"
    using unlink_cut_out [where h = "il_hooks s" and n = "Node n", OF il_ring_node [OF il_absD(1) [OF abs l, unfolded fl]] ne] .
  have "\<not> is_linked h (Node n)" using h(2) by (simp add: cut_out_def is_linked_def)
  with h(1) show thesis using il_abs_remove [OF abs l fl h(2)] by (rule that)
qed

lemma il_push_front_refines:
  assumes abs: "il_abs L f s" and l: "l \<in> L" and new: "\<forall>m \<in> L. n \<notin> set (f m)"
  shows "\<exists>s'. il_push_front s l n = Some s' \<and> il_abs L (f(l := n # f l)) s'"
proof (rule il_link_at [OF abs l _ new, of "[]" "f l"])
  fix h1 h2
  assume "link_after (il_before l []) (Node n) (il_hooks s) = Some h1"
    "il_abs L (f(l := [] @ n # f l)) (s\<lparr>il_hooks := h1, il_sizes := (il_sizes s)(l := il_sizes s l + 1)\<rparr>)"
  then show ?thesis using new is_linked_iff [OF abs] by (simp add: il_push_front_def)
qed simp

lemma il_push_back_refines:
  assumes abs: "il_abs L f s" and l: "l \<in> L" and new: "\<forall>m \<in> L. n \<notin> set (f m)"
  shows "\<exists>s'. il_push_back s l n = Some s' \<and> il_abs L (f(l := f l @ [n])) s'"
proof (rule il_link_at [OF abs l _ new, of "f l" "[]"])
  fix h1 h2
  assume "link_before (il_after l []) (Node n) (il_hooks s) = Some h2"
    "il_abs L (f(l := f l @ n # [])) (s\<lparr>il_hooks := h2, il_sizes := (il_sizes s)(l := il_sizes s l + 1)\<rparr>)"
  then show ?thesis using new is_linked_iff [OF abs] by (simp add: il_push_back_def)
qed simp

lemma il_insert_before_refines:
  assumes abs: "il_abs L f s" and l: "l \<in> L" and new: "\<forall>m \<in> L. n \<notin> set (f m)"
    and pos: "pos \<in> set (f l)"
  shows "\<exists>s'. il_insert_before s l pos n = Some s' \<and>
           il_abs L (f(l := il_seq_insert_before pos n (f l))) s'"
proof -
  let ?us = "takeWhile (\<lambda>x. x \<noteq> pos) (f l)" and ?vs = "dropWhile (\<lambda>x. x \<noteq> pos) (f l)"
  have "hd ?vs = pos" "?vs \<noteq> []"
    using pos hd_dropWhile [of "\<lambda>x. x \<noteq> pos" "f l"] by (auto simp: dropWhile_eq_Nil_conv)
  then have af: "il_after l ?vs = Node pos" by (cases ?vs) auto
  have lk: "is_linked (il_hooks s) (Node pos)" using pos l is_linked_iff [OF abs] by blast
  show ?thesis
  proof (rule il_link_at [OF abs l _ new, of ?us ?vs])
    fix h1 h2
    assume "link_before (il_after l ?vs) (Node n) (il_hooks s) = Some h2"
      "il_abs L (f(l := ?us @ n # ?vs)) (s\<lparr>il_hooks := h2, il_sizes := (il_sizes s)(l := il_sizes s l + 1)\<rparr>)"
    then show ?thesis
      using new lk is_linked_iff [OF abs] unfolding af
      by (simp add: il_insert_before_def il_seq_insert_before_def)
  qed simp
qed

lemma il_erase_refines:
  assumes abs: "il_abs L f s" and l: "l \<in> L" and n: "n \<in> set (f l)"
  shows "\<exists>s'. il_erase s l n = Some s' \<and> il_abs L (f(l := il_seq_erase n (f l))) s'"
proof -
  obtain us vs where fl: "f l = us @ n # vs" "n \<notin> set us" using n by (metis split_list_first)
  have "is_linked (il_hooks s) (Node n)" using n l is_linked_iff [OF abs] by blast
  then show ?thesis
    by (rule_tac il_unlink_at [OF abs l fl(1)])
       (simp add: il_erase_def il_seq_erase_def fl remove1_append)
qed

lemma il_pop_front_refines:
  assumes abs: "il_abs L f s" and l: "l \<in> L" and fl: "f l = n # vs"
  shows "\<exists>s'. il_pop_front s l = Some (n, s') \<and> il_abs L (f(l := vs)) s'"
proof -
  have "hk_next (il_hooks s (Sentinel l)) = Some (Node n)"
    using il_ring_neighbours(1) [of "il_hooks s" l "[]" "f l"] il_absD(1) [OF abs l] by (simp add: fl)
  then have "il_front s l = Some n" "\<not> il_empty s l"
    using il_empty_iff [OF abs l] fl by (simp_all add: il_front_def)
  then show ?thesis
    by (rule_tac il_unlink_at [OF abs l, of "[]" n vs]) (simp_all add: il_pop_front_def fl)
qed

lemma il_pop_back_refines:
  assumes abs: "il_abs L f s" and l: "l \<in> L" and fl: "f l = us @ [n]"
  shows "\<exists>s'. il_pop_back s l = Some (n, s') \<and> il_abs L (f(l := us)) s'"
proof -
  have "hk_prev (il_hooks s (Sentinel l)) = Some (Node n)"
    using il_ring_neighbours(2) [of "il_hooks s" l "f l" "[]"] il_absD(1) [OF abs l] by (simp add: fl)
  then have "il_back s l = Some n" "\<not> il_empty s l"
    using il_empty_iff [OF abs l] fl by (simp_all add: il_back_def)
  then show ?thesis
    by (rule_tac il_unlink_at [OF abs l, of us n "[]"]) (simp_all add: il_pop_back_def fl)
qed

text \<open>The loop of \<open>il_clear\<close> ends, visits every node once and resets exactly their hooks.\<close>

lemma il_clear_loop_walk:
  assumes "linked_path h (map Node xs @ [Sentinel l])" "distinct xs"
  shows "\<exists>h'. il_clear_loop (Sentinel l) (Some (il_after l xs)) k h = Some (k + length xs, h') \<and>
    (\<forall>x. hk_next (h' x) = (if x \<in> Node ` set xs then None else hk_next (h x)) \<and>
         hk_prev (h' x) = (if x \<in> Node ` set xs then None else hk_prev (h x)))"
  using assms
proof (induction xs arbitrary: h k)
  case Nil
  then show ?case by (auto simp: il_clear_loop.simps)
next
  case (Cons y xs)
  let ?h = "set_next (Node y) None (set_prev (Node y) None h)"
  have nx: "hk_next (h (Node y)) = Some (il_after l xs)"
    using Cons.prems(1) by (cases xs) auto
  have "linked_path h (map Node xs @ [Sentinel l])"
    using Cons.prems(1) by (cases xs) auto
  moreover have "Node y \<notin> set (map Node xs @ [Sentinel l])" using Cons.prems(2) by auto
  then have "linked_path ?h (map Node xs @ [Sentinel l]) = linked_path h (map Node xs @ [Sentinel l])"
    by (intro linked_path_cong) (auto dest: in_set_butlastD in_set_tlD)
  ultimately have "linked_path ?h (map Node xs @ [Sentinel l])" by simp
  then obtain h' where h': "il_clear_loop (Sentinel l) (Some (il_after l xs)) (Suc k) ?h
      = Some (Suc k + length xs, h')"
    "\<And>x. hk_next (h' x) = (if x \<in> Node ` set xs then None else hk_next (?h x))"
    "\<And>x. hk_prev (h' x) = (if x \<in> Node ` set xs then None else hk_prev (?h x))"
    using Cons.IH [of ?h "Suc k"] Cons.prems(2) by auto
  have "il_clear_loop (Sentinel l) (Some (il_after l (y # xs))) k h = Some (Suc k + length xs, h')"
    by (subst il_clear_loop.simps) (simp add: nx h'(1))
  then show ?case using h'(2,3) by auto
qed

lemma il_clear_refines:
  assumes abs: "il_abs L f s" and l: "l \<in> L"
  shows "\<exists>s'. il_clear s l = Some s' \<and> il_abs L (f(l := [])) s'"
proof -
  note D = il_absD [OF abs l]
  have nx: "hk_next (il_hooks s (Sentinel l)) = Some (il_after l (f l))"
    using il_ring_neighbours(1) [of "il_hooks s" l "[]" "f l"] D(1) by simp
  have "linked_path (il_hooks s) (map Node (f l) @ [Sentinel l])"
    using D(1) by (cases "f l") (auto simp: il_ring_def)
  then obtain h where h: "il_clear_loop (Sentinel l) (Some (il_after l (f l))) 0 (il_hooks s)
      = Some (length (f l), h)"
    "\<And>x. hk_next (h x) = (if x \<in> Node ` set (f l) then None else hk_next (il_hooks s x))"
    "\<And>x. hk_prev (h x) = (if x \<in> Node ` set (f l) then None else hk_prev (il_hooks s x))"
    using il_clear_loop_walk [OF _ D(2), of "il_hooks s" l 0] by auto
  let ?s = "s\<lparr>il_hooks := init_sentinel l h, il_sizes := (il_sizes s)(l := 0)\<rparr>"
  have "il_clear s l = Some ?s" by (simp add: il_clear_def nx h(1) D(3))
  moreover have "linked_path (init_sentinel l h) (il_ring m (f m))" if m: "m \<in> L" "m \<noteq> l" for m
  proof -
    have off: "x \<noteq> Sentinel l \<and> x \<notin> Node ` set (f l)" if "x \<in> set (il_ring m (f m))" for x
      using il_other_ring [OF abs l m that] by (auto simp: il_ring_mem)
    have "linked_path (init_sentinel l h) (il_ring m (f m)) = linked_path (il_hooks s) (il_ring m (f m))"
    proof (rule linked_path_cong)
      show "hk_next (init_sentinel l h x) = hk_next (il_hooks s x)"
        if "x \<in> set (butlast (il_ring m (f m)))" for x
        using off [OF in_set_butlastD [OF that]] by (simp add: init_sentinel_def h(2))
      show "hk_prev (init_sentinel l h x) = hk_prev (il_hooks s x)"
        if "x \<in> set (tl (il_ring m (f m)))" for x
        using off [OF in_set_tlD [OF that]] by (simp add: init_sentinel_def h(3))
    qed
    then show ?thesis using il_absD(1) [OF abs m(1)] by simp
  qed
  moreover have "hk_prev (init_sentinel l h (Node k)) = None \<and> hk_next (init_sentinel l h (Node k)) = None"
    if k: "\<forall>m \<in> L. k \<notin> set ((f(l := [])) m)" for k
  proof (cases "k \<in> set (f l)")
    case True
    then show ?thesis by (simp add: init_sentinel_def h)
  next
    case False
    have "\<forall>m \<in> L. k \<notin> set (f m)"
    proof
      fix m assume "m \<in> L"
      then show "k \<notin> set (f m)" using bspec [OF k, of m] False by (cases "m = l") auto
    qed
    then show ?thesis using il_abs_null [OF abs] False by (simp add: init_sentinel_def h image_iff)
  qed
  moreover have "linked_path (init_sentinel l h) (il_ring l [])"
    by (simp add: init_sentinel_def il_ring_def)
  ultimately show ?thesis
    using abs by (intro exI [of _ ?s]) (auto simp: il_abs_def)
qed

lemma il_construct_abs:
  assumes "il_abs L f s" "l \<notin> L"
  shows "il_abs (insert l L) (f(l := [])) (il_construct s l)"
proof -
  have "linked_path (init_sentinel l (il_hooks s)) (il_ring m (f m)) =
      linked_path (il_hooks s) (il_ring m (f m))" if "m \<in> L" for m
    using that assms(2)
    by (intro linked_path_cong)
       (auto simp: init_sentinel_def il_ring_mem dest!: in_set_butlastD in_set_tlD)
  moreover have "linked_path (init_sentinel l (il_hooks s)) (il_ring l [])"
    by (simp add: init_sentinel_def il_ring_def)
  ultimately show ?thesis
    using assms by (auto simp: il_abs_def il_construct_def init_sentinel_def)
qed

section \<open>The contract an owner of lists relies on\<close>

locale node_lists =
  fixes abs :: "nat set \<Rightarrow> (nat \<Rightarrow> nat list) \<Rightarrow> 's \<Rightarrow> bool"
    and push_back :: "'s \<Rightarrow> nat \<Rightarrow> nat \<Rightarrow> 's outcome"
    and pop_front :: "'s \<Rightarrow> nat \<Rightarrow> (nat \<times> 's) outcome"
    and erase :: "'s \<Rightarrow> nat \<Rightarrow> nat \<Rightarrow> 's outcome"
  assumes push_back: "abs L f s \<Longrightarrow> l \<in> L \<Longrightarrow> \<forall>m \<in> L. n \<notin> set (f m) \<Longrightarrow>
      \<exists>s'. push_back s l n = Some s' \<and> abs L (f(l := f l @ [n])) s'"
    and pop_front: "abs L f s \<Longrightarrow> l \<in> L \<Longrightarrow> f l = n # xs \<Longrightarrow>
      \<exists>s'. pop_front s l = Some (n, s') \<and> abs L (f(l := xs)) s'"
    and erase: "abs L f s \<Longrightarrow> l \<in> L \<Longrightarrow> n \<in> set (f l) \<Longrightarrow>
      \<exists>s'. erase s l n = Some s' \<and> abs L (f(l := remove1 n (f l))) s'"
begin

fun push_all :: "'s \<Rightarrow> nat \<Rightarrow> nat list \<Rightarrow> 's outcome" where
  "push_all s l [] = Some s"
| "push_all s l (n # ns) = push_back s l n \<bind> (\<lambda>s'. push_all s' l ns)"

fun pop_all :: "'s \<Rightarrow> nat \<Rightarrow> nat \<Rightarrow> (nat list \<times> 's) outcome" where
  "pop_all s l 0 = Some ([], s)"
| "pop_all s l (Suc k) = pop_front s l \<bind> (\<lambda>(n, s'). pop_all s' l k \<bind> (\<lambda>(ns, s''). Some (n # ns, s'')))"

lemma push_all_abs:
  assumes "abs L f s" "l \<in> L" "distinct ns" "\<forall>m \<in> L. set ns \<inter> set (f m) = {}"
  shows "\<exists>s'. push_all s l ns = Some s' \<and> abs L (f(l := f l @ ns)) s'"
  using assms
proof (induction ns arbitrary: f s)
  case Nil
  then show ?case by simp
next
  case (Cons n ns)
  have "\<forall>m \<in> L. n \<notin> set (f m)" using Cons.prems(4) by auto
  from push_back [OF Cons.prems(1,2) this] obtain s1 where
    s1: "push_back s l n = Some s1" "abs L (f(l := f l @ [n])) s1" by blast
  have "\<forall>m \<in> L. set ns \<inter> set ((f(l := f l @ [n])) m) = {}"
    using Cons.prems(2,3,4) by auto
  moreover have "distinct ns" using Cons.prems(3) by simp
  ultimately obtain s2 where s2: "push_all s1 l ns = Some s2"
    "abs L ((f(l := f l @ [n]))(l := (f(l := f l @ [n])) l @ ns)) s2"
    using Cons.IH [OF s1(2) Cons.prems(2)] by blast
  have "(f(l := f l @ [n]))(l := (f(l := f l @ [n])) l @ ns) = f(l := f l @ n # ns)" by auto
  with s2(2) have "abs L (f(l := f l @ n # ns)) s2" by (simp only:)
  with s1(1) s2(1) show ?case by (intro exI [of _ s2]) (simp add: fun_upd_def)
qed

lemma pop_all_abs:
  assumes "abs L f s" "l \<in> L" "k \<le> length (f l)"
  shows "\<exists>s'. pop_all s l k = Some (take k (f l), s') \<and> abs L (f(l := drop k (f l))) s'"
  using assms
proof (induction k arbitrary: f s)
  case 0
  then show ?case by simp
next
  case (Suc k)
  then obtain n xs where fl: "f l = n # xs" by (cases "f l") auto
  from pop_front [OF Suc.prems(1,2) fl] obtain s1 where
    s1: "pop_front s l = Some (n, s1)" "abs L (f(l := xs)) s1" by blast
  have "(f(l := xs))(l := drop k xs) = f(l := drop k xs)" by auto
  moreover have "k \<le> length ((f(l := xs)) l)" using Suc.prems(3) fl by simp
  ultimately obtain s2 where s2: "pop_all s1 l k = Some (take k xs, s2)" "abs L (f(l := drop k xs)) s2"
    using Suc.IH [OF s1(2) Suc.prems(2)] unfolding fun_upd_same by metis
  then show ?case using fl s1(1) by (intro exI [of _ s2]) (simp add: fun_upd_def)
qed

text \<open>First in, first out: nodes appended to an empty list come back in the same order.\<close>

lemma fifo:
  assumes "abs L f s" "l \<in> L" "f l = []" "distinct ns" "\<forall>m \<in> L. set ns \<inter> set (f m) = {}"
  shows "\<exists>s1 s2. push_all s l ns = Some s1 \<and> pop_all s1 l (length ns) = Some (ns, s2)"
proof -
  obtain s1 where s1: "push_all s l ns = Some s1" "abs L (f(l := ns)) s1"
    using push_all_abs [OF assms(1,2,4,5)] assms(3) by auto
  then show ?thesis using pop_all_abs [OF s1(2) assms(2), of "length ns"] by auto
qed

end

interpretation il: node_lists il_abs il_push_back il_pop_front il_erase
proof unfold_locales
  fix L f and s :: il_heap and l n xs
  assume abs: "il_abs L f s" and l: "l \<in> L"
  show "\<exists>s'. il_push_back s l n = Some s' \<and> il_abs L (f(l := f l @ [n])) s'"
    if "\<forall>m \<in> L. n \<notin> set (f m)"
    using il_push_back_refines [OF abs l that] .
  show "\<exists>s'. il_pop_front s l = Some (n, s') \<and> il_abs L (f(l := xs)) s'" if "f l = n # xs"
    using il_pop_front_refines [OF abs l that] .
  show "\<exists>s'. il_erase s l n = Some s' \<and> il_abs L (f(l := remove1 n (f l))) s'" if "n \<in> set (f l)"
    using il_erase_refines [OF abs l that] by (simp add: il_seq_erase_def)
qed

end
