(* ===== verification/DataProps.thy ===== *)
theory DataProps
  imports HashMap IndexFreeStack IntrusiveList
begin

text \<open>
  The properties of the base containers: hash utilities, bit utilities, the hash map, the
  index free stack and the intrusive list.
\<close>

section \<open>The hash map as a machine\<close>

datatype ('k, 'v) hm_cmd = Insert 'k 'v | Upsert 'k 'v | Erase 'k | Clear

text \<open>One call, with whether it took effect.\<close>

definition hm_exec :: "('k, 'v) HashMap \<Rightarrow> ('k, 'v) hm_cmd \<Rightarrow> (bool \<times> ('k, 'v) HashMap) outcome" where
  "hm_exec m c = (case c of
     Insert k v \<Rightarrow> hm_insert m k v
   | Upsert k v \<Rightarrow> map_option (\<lambda>(r, m'). (r \<noteq> kCapacityFull, m')) (hm_upsert m k v)
   | Erase k \<Rightarrow> hm_erase m k
   | Clear \<Rightarrow> Some (True, hm_clear m))"

fun hm_run :: "('k, 'v) HashMap \<Rightarrow> ('k, 'v) hm_cmd list \<Rightarrow> (bool list \<times> ('k, 'v) HashMap) outcome" where
  "hm_run m [] = Some ([], m)"
| "hm_run m (c # cs) = do {
     (ok, m) \<leftarrow> hm_exec m c;
     (oks, m) \<leftarrow> hm_run m cs;
     Some (ok # oks, m)
   }"

text \<open>What a call that took effect does to the contents.\<close>

fun map_cmd :: "('k, 'v) hm_cmd \<Rightarrow> ('k \<Rightarrow> 'v option) \<Rightarrow> 'k \<Rightarrow> 'v option" where
  "map_cmd (Insert k v) f = f(k \<mapsto> v)"
| "map_cmd (Upsert k v) f = f(k \<mapsto> v)"
| "map_cmd (Erase k) f = f(k := None)"
| "map_cmd Clear f = Map.empty"

fun map_run :: "(bool \<times> ('k, 'v) hm_cmd) list \<Rightarrow> ('k \<Rightarrow> 'v option) \<Rightarrow> 'k \<Rightarrow> 'v option" where
  "map_run [] f = f"
| "map_run ((ok, c) # cs) f = map_run cs (if ok then map_cmd c f else f)"

lemma hm_exec_ok:
  assumes "hm_inv m"
  shows "\<exists>ok m'. hm_exec m c = Some (ok, m') \<and> hm_inv m' \<and>
    hm_lookup m' = (if ok then map_cmd c (hm_lookup m) else hm_lookup m)"
proof (cases c)
  case (Insert k v)
  show ?thesis using assms
    by (rule hmap.insertE [of m k v]) (auto simp: hm_exec_def Insert assms)
next
  case (Upsert k v)
  show ?thesis
    by (rule hm_upsert_correct [OF assms, of k v]) (auto simp: hm_exec_def Upsert)
next
  case (Erase k)
  show ?thesis using assms
    by (rule hmap.eraseE [of m k]) (auto simp: hm_exec_def Erase fun_upd_idem)
next
  case Clear
  then show ?thesis using hmap.clear [OF assms] by (auto simp: hm_exec_def)
qed

lemma hm_run_ok:
  assumes "hm_inv m"
  shows "\<exists>oks m'. hm_run m cs = Some (oks, m') \<and> length oks = length cs \<and> hm_inv m' \<and>
    hm_lookup m' = map_run (zip oks cs) (hm_lookup m)"
  using assms
proof (induction cs arbitrary: m)
  case (Cons c cs)
  obtain ok m1 where 1: "hm_exec m c = Some (ok, m1)" "hm_inv m1"
    "hm_lookup m1 = (if ok then map_cmd c (hm_lookup m) else hm_lookup m)"
    using hm_exec_ok [OF Cons.prems] by blast
  obtain oks m2 where 2: "hm_run m1 cs = Some (oks, m2)" "length oks = length cs" "hm_inv m2"
    "hm_lookup m2 = map_run (zip oks cs) (hm_lookup m1)"
    using Cons.IH [OF 1(2)] by blast
  have "hm_run m (c # cs) = Some (ok # oks, m2)" using 1(1) 2(1) by simp
  then show ?case using 1(3) 2(2-4) by (intro exI [of _ "ok # oks"]) simp
qed simp

definition sample_map :: "(u64, nat) HashMap" where
  "sample_map = hm_clear (hm_new default_hash (replicate 4 \<lparr>slot_key = 0, slot_value = 0, slot_state = kFull\<rparr>) 4)"

lemma sample_map_ok: "hm_inv sample_map" "hm_lookup sample_map = Map.empty" "\<not> hm_full sample_map"
proof -
  let ?raw = "replicate 4 \<lparr>slot_key = 0, slot_value = 0, slot_state = kFull\<rparr> :: (u64, nat) Slot list"
  have "is_power_of_two (4::u64)" unfolding is_power_of_two_iff by (intro exI [of _ 2]) simp
  then have m: "hm_create default_hash 24 8 64 ?raw 96 4 = Some sample_map"
    by (simp add: sample_map_def hm_create_def hm_is_valid_capacity_def)
  show "hm_inv sample_map" "hm_lookup sample_map = Map.empty" using hm_create_correct(1,2) [OF m] by simp_all
  show "\<not> hm_full sample_map" by (simp add: sample_map_def hm_full_def hm_clear_def hm_new_def)
qed

text \<open>Two freshly constructed lists over nodes that are not linked.\<close>

definition two_lists :: il_heap where
  "two_lists = il_construct (il_construct
     \<lparr>il_hooks = \<lambda>_. \<lparr>hk_prev = None, hk_next = None\<rparr>, il_sizes = \<lambda>_. 0\<rparr> 1) 0"

lemma two_lists_abs: "il_abs {0, 1} (\<lambda>_. []) two_lists"
proof -
  have "il_abs {} (\<lambda>_. []) \<lparr>il_hooks = \<lambda>_. \<lparr>hk_prev = None, hk_next = None\<rparr>, il_sizes = \<lambda>_. 0\<rparr>"
    by (simp add: il_abs_def)
  from il_construct_abs [OF il_construct_abs [OF this, of 1], of 0]
  show ?thesis by (simp add: two_lists_def fun_upd_idem)
qed

section \<open>Properties\<close>

text \<open>
  C16. The hash map implements a finite map: any sequence of inserts, upserts, erases and
  clears on a well-formed map returns (every probe loop ends within one turn round the
  table), and the contents afterwards are those of the mathematical map after the calls that
  reported success.
\<close>

theorem hash_map_implements_map:
  assumes "hm_inv m"
  shows "\<exists>oks m'. hm_run m cs = Some (oks, m') \<and> length oks = length cs \<and> hm_inv m' \<and>
    (\<forall>k. hm_find m' k = Some (map_run (zip oks cs) (hm_lookup m) k))"
  using hm_run_ok [OF assms, of cs] hmap.find by metis

theorem hash_map_implements_map_witness:
  "\<exists>oks m'. hm_run sample_map [Insert 7 1, Insert 7 2, Erase 7, Upsert 9 3] = Some (oks, m') \<and>
    length oks = length [Insert 7 1, Insert 7 2, Erase 7, Upsert (9::u64) (3::nat)] \<and> hm_inv m' \<and> (\<forall>k. hm_find m' k =
      Some (map_run (zip oks [Insert 7 1, Insert 7 2, Erase 7, Upsert 9 3]) (hm_lookup sample_map) k))"
  by (rule hash_map_implements_map [OF sample_map_ok(1)])

text \<open>
  An insert is refused only for a key that is present or at the load limit (size plus
  tombstones at 70% of the capacity); otherwise it succeeds, the key is then found with its
  value, and erasing it restores the previous contents.
\<close>

theorem hash_map_insert_round_trip:
  assumes "hm_inv m" "hm_lookup m k = None" "\<not> hm_full m"
  shows "\<exists>m' m''. hm_insert m k v = Some (True, m') \<and> hm_find m' k = Some (Some v) \<and>
    hm_erase m' k = Some (True, m'') \<and> (\<forall>q. hm_find m'' q = hm_find m q)"
  using assms(1)
proof (cases rule: hmap.insertE [of m k v])
  case (ok m')
  obtain m'' where m'': "hm_erase m' k = Some (True, m'')" "hm_inv m''" "hm_lookup m'' = hm_lookup m"
    using hmap.insert_erase [OF assms(1) ok(1)] by blast
  have "hm_find m' k = Some (Some v)" using hmap.insert_find [OF assms(1) ok(1), of k] by simp
  moreover have "hm_find m'' q = hm_find m q" for q
    using hmap.find [OF m''(2)] hmap.find [OF assms(1)] m''(3) by simp
  ultimately show ?thesis using ok(1) m''(1) by blast
qed (use assms in simp)

theorem hash_map_insert_round_trip_witness:
  "\<exists>m' m''. hm_insert sample_map 7 1 = Some (True, m') \<and> hm_find m' 7 = Some (Some 1) \<and>
    hm_erase m' 7 = Some (True, m'') \<and> (\<forall>q. hm_find m'' q = hm_find sample_map q)"
  using hash_map_insert_round_trip [OF sample_map_ok(1) _ sample_map_ok(3), of 7 1] sample_map_ok(2) by simp

text \<open>
  The mixer of the default hash is a bijection on 64-bit words, so distinct integer keys
  never have the same full hash.
\<close>

theorem mix64_bijective: "bij mix64 \<and> (\<forall>a b. default_hash a = default_hash b \<longrightarrow> a = b)"
  using bij_mix64 default_hash_inj by blast

theorem mix64_bijective_witness: "default_hash 3 \<noteq> default_hash 5"
proof
  assume "default_hash 3 = default_hash 5"
  then have "(3 :: u64) = 5" using mix64_bijective by blast
  then show False by simp
qed

text \<open>
  Both branches of the power-of-two helpers agree: the portable fallback of the test and
  of the rounding compute what the C++20 library functions do, undefined results included.
\<close>

theorem pow2_fallbacks_equivalent:
  "is_power_of_two_fallback n = is_power_of_two n \<and> round_up_pow2_fallback m = round_up_pow2 m"
  by (simp add: is_power_of_two_fallback_eq round_up_pow2_fallback_eq)

text \<open>
  Rounding up returns the least power of two that is not below its argument, for every
  argument up to \<open>2 ^ 31\<close>.
\<close>

theorem round_up_pow2_least:
  assumes "unat n \<le> 2 ^ 31"
  shows "\<exists>r k. round_up_pow2 n = Some r \<and> unat r = 2 ^ k \<and> unat n \<le> 2 ^ k \<and>
    (\<forall>j. unat n \<le> 2 ^ j \<longrightarrow> k \<le> j)"
  using round_up_pow2_total [OF assms] round_up_pow2_spec by metis

theorem round_up_pow2_least_witness:
  "\<exists>r k. round_up_pow2 18 = Some r \<and> unat r = 2 ^ k \<and> 18 \<le> (2::nat) ^ k \<and> (\<forall>j. 18 \<le> (2::nat) ^ j \<longrightarrow> k \<le> j)"
  using round_up_pow2_least [of 18] by simp

text \<open>
  C18. The index free stack hands each index out once: popping returns an index that was not
  allocated, and pushing an index aborts exactly when it is not allocated (a double free, an
  index out of range, or one never handed out); pushing the index just popped restores the
  free stack.
\<close>

theorem index_free_stack_safe:
  assumes "ifs_inv s"
  shows "(\<forall>i. ifs_push s i = None \<longleftrightarrow> i \<notin> ifs_allocated s) \<and>
    (\<forall>i s'. ifs_pop s = (Some i, s') \<longrightarrow> i < ifs_capacity s \<and> i \<notin> ifs_allocated s \<and> ifs_inv s' \<and>
       (\<exists>s''. ifs_push s' i = Some s'' \<and> ifs_inv s'' \<and> ifs_stack s'' = ifs_stack s))"
proof (intro conjI allI impI)
  show "ifs_push s i = None \<longleftrightarrow> i \<notin> ifs_allocated s" for i by (rule ifs_push_abort_iff [OF assms])
  fix i s' assume pop: "ifs_pop s = (Some i, s')"
  show "\<exists>s''. ifs_push s' i = Some s'' \<and> ifs_inv s'' \<and> ifs_stack s'' = ifs_stack s"
    by (rule ifs.pop_push [OF assms pop])
  show "i < ifs_capacity s" "i \<notin> ifs_allocated s" "ifs_inv s'"
    using assms by (cases rule: ifs.popE; use pop in \<open>auto simp: ifs_allocated_def\<close>)+
qed

theorem index_free_stack_safe_witness:
  "ifs_push (ifs_init_storage 3) 2 = None \<and>
   (case ifs_pop (ifs_init_storage 3) of (Some i, s') \<Rightarrow> i < 3 \<and> ifs_inv s' | _ \<Rightarrow> False)"
proof -
  obtain i s' where p: "ifs_pop (ifs_init_storage 3) = (Some i, s')"
    by (simp add: ifs_pop_def ifs_init_storage_def)
  show ?thesis using index_free_stack_safe [OF ifs_init_inv, of 3] p
    by (simp add: ifs_allocated_def ifs_stack_init)
qed

text \<open>
  The intrusive list is a FIFO queue: nodes pushed to the back of an empty list are
  popped from the front in the same order, every call succeeding, while the other lists in
  the same memory keep their contents.
\<close>

theorem intrusive_list_fifo:
  assumes "il_abs L f s" "l \<in> L" "f l = []" "distinct ns" "\<forall>m \<in> L. set ns \<inter> set (f m) = {}"
  shows "\<exists>s1 s2. il.push_all s l ns = Some s1 \<and> il_abs L (f(l := ns)) s1 \<and>
    il.pop_all s1 l (length ns) = Some (ns, s2) \<and> il_abs L f s2"
proof -
  obtain s1 where s1: "il.push_all s l ns = Some s1" "il_abs L (f(l := ns)) s1"
    using il.push_all_abs [OF assms(1,2,4,5)] assms(3) by auto
  have "f(l := []) = f" using assms(3) by auto
  then show ?thesis using il.pop_all_abs [OF s1(2) assms(2), of "length ns"] s1 by auto
qed

theorem intrusive_list_fifo_witness:
  "\<exists>s1 s2. il.push_all two_lists 0 [4, 2, 7] = Some s1 \<and> il_abs {0, 1} ((\<lambda>_. [])(0 := [4, 2, 7])) s1 \<and>
    il.pop_all s1 0 (length [4, 2, 7::nat]) = Some ([4, 2, 7], s2) \<and> il_abs {0, 1} (\<lambda>_. []) s2"
  by (rule intrusive_list_fifo [OF two_lists_abs]) simp_all

text \<open>
  Clearing an intrusive list ends, unlinks every node of that list and leaves all other
  lists in the same memory as they were.
\<close>

theorem intrusive_clear_terminates:
  assumes "il_abs L f s" "l \<in> L"
  shows "\<exists>s'. il_clear s l = Some s' \<and> il_abs L (f(l := [])) s' \<and> il_empty s' l \<and>
    (\<forall>n \<in> set (f l). il_hooks s' (Node n) = \<lparr>hk_prev = None, hk_next = None\<rparr>)"
proof -
  obtain s' where s': "il_clear s l = Some s'" "il_abs L (f(l := [])) s'"
    using il_clear_refines [OF assms] by blast
  have "il_hooks s' (Node n) = \<lparr>hk_prev = None, hk_next = None\<rparr>" if "n \<in> set (f l)" for n
  proof -
    have "\<forall>m \<in> L. n \<notin> set ((f(l := [])) m)" using il_absD(4) [OF assms] that by auto
    then show ?thesis using il_abs_null [OF s'(2)] by (simp add: hook.equality)
  qed
  then show ?thesis using s' il_empty_iff [OF s'(2) assms(2)] by auto
qed

theorem intrusive_clear_terminates_witness:
  "\<exists>s'. il_clear two_lists 0 = Some s' \<and> il_abs {0, 1} ((\<lambda>_. [])(0 := [])) s' \<and> il_empty s' 0"
  using intrusive_clear_terminates [OF two_lists_abs, of 0] by auto

end
