(* ===== verification/OrderBook.thy ===== *)
theory OrderBook
  imports HashMap IndexFreeStack IntrusiveList
begin

text \<open>
  The single-instrument limit order book of \<^verbatim>\<open>libs/algo/order_book.hpp\<close> over the types of
  \<^verbatim>\<open>libs/algo/trading_types.hpp\<close>: two slot pools with their free stacks, two sorted
  ladders of price levels, a FIFO queue of orders per level, and three hash maps. A pointer
  into a pool is the index of its slot; an intrusive list is the sequence of the slots it
  links (the refinement of \<open>IntrusiveList\<close>), so \<^verbatim>\<open>is_linked()\<close> is membership in one of
  the lists of the node's kind.
\<close>

section \<open>Data\<close>

type_synonym OrderId = u64
type_synonym Price = i64
type_synonym Qty = u32

datatype Side = kBid | kAsk | kCount

record Order =
  order_id :: OrderId
  o_price :: Price
  o_qty :: Qty
  o_side :: Side
  o_level :: "nat option"

record PriceLevel =
  pl_price :: Price
  pl_total_qty :: Qty
  pl_side :: Side
  pl_orders :: "nat list"

record Params =
  par_max_orders :: nat
  par_max_levels :: nat
  par_order_map_cap :: nat
  par_level_map_cap :: nat

record OrderBook =
  ob_order_slots :: "Order list"
  ob_level_slots :: "PriceLevel list"
  ob_max_orders :: nat
  ob_max_levels :: nat
  ob_order_free :: IndexFreeStack
  ob_level_free :: IndexFreeStack
  ob_bids :: "nat list"
  ob_asks :: "nat list"
  ob_order_map :: "(OrderId, nat) HashMap"
  ob_level_map :: "Side \<Rightarrow> (Price, nat) HashMap"

definition side_index :: "Side \<Rightarrow> nat outcome" where
  "side_index s = (case s of kBid \<Rightarrow> Some 0 | kAsk \<Rightarrow> Some 1 | kCount \<Rightarrow> None)"

text \<open>\<^verbatim>\<open>(side == Side::kBid) ? bids_ : asks_\<close>, read and written.\<close>

definition ob_ladder :: "OrderBook \<Rightarrow> Side \<Rightarrow> nat list" where
  "ob_ladder b s = (if s = kBid then ob_bids b else ob_asks b)"

definition set_ladder :: "Side \<Rightarrow> nat list \<Rightarrow> OrderBook \<Rightarrow> OrderBook" where
  "set_ladder s xs b = (if s = kBid then b\<lparr>ob_bids := xs\<rparr> else b\<lparr>ob_asks := xs\<rparr>)"

definition set_order :: "nat \<Rightarrow> (Order \<Rightarrow> Order) \<Rightarrow> OrderBook \<Rightarrow> OrderBook" where
  "set_order i f b = b\<lparr>ob_order_slots := (ob_order_slots b)[i := f (ob_order_slots b ! i)]\<rparr>"

definition set_level :: "nat \<Rightarrow> (PriceLevel \<Rightarrow> PriceLevel) \<Rightarrow> OrderBook \<Rightarrow> OrderBook" where
  "set_level l f b = b\<lparr>ob_level_slots := (ob_level_slots b)[l := f (ob_level_slots b ! l)]\<rparr>"

definition set_level_map :: "Side \<Rightarrow> (Price, nat) HashMap \<Rightarrow> OrderBook \<Rightarrow> OrderBook" where
  "set_level_map s m b = b\<lparr>ob_level_map := (ob_level_map b)(s := m)\<rparr>"

definition order_linked :: "OrderBook \<Rightarrow> nat \<Rightarrow> bool" where
  "order_linked b i = list_ex (\<lambda>l. i \<in> set (pl_orders l)) (ob_level_slots b)"

definition level_linked :: "OrderBook \<Rightarrow> nat \<Rightarrow> bool" where
  "level_linked b l \<longleftrightarrow> l \<in> set (ob_bids b) \<or> l \<in> set (ob_asks b)"

section \<open>Pool management\<close>

definition alloc_order :: "OrderBook \<Rightarrow> nat option \<times> OrderBook" where
  "alloc_order b = (case ifs_pop (ob_order_free b) of (r, f) \<Rightarrow> (r, b\<lparr>ob_order_free := f\<rparr>))"

text \<open>
  Freeing a slot overwrites the hook of the node with null pointers, which is only sound
  for a node in no list: the sequences of the model require it, so a violation is an abort.
\<close>

definition free_order :: "OrderBook \<Rightarrow> nat \<Rightarrow> OrderBook outcome" where
  "free_order b i = do {
     cassert (i < ob_max_orders b);
     cassert (\<not> order_linked b i);
     let b = set_order i (\<lambda>x. x\<lparr>o_level := None\<rparr>) b;
     f \<leftarrow> ifs_push (ob_order_free b) i;
     Some (b\<lparr>ob_order_free := f\<rparr>)
   }"

definition alloc_level :: "OrderBook \<Rightarrow> nat option \<times> OrderBook" where
  "alloc_level b = (case ifs_pop (ob_level_free b) of (r, f) \<Rightarrow> (r, b\<lparr>ob_level_free := f\<rparr>))"

definition free_level :: "OrderBook \<Rightarrow> nat \<Rightarrow> OrderBook outcome" where
  "free_level b l = do {
     cassert (l < ob_max_levels b);
     cassert (pl_orders (ob_level_slots b ! l) = []);
     cassert (\<not> level_linked b l);
     f \<leftarrow> ifs_push (ob_level_free b) l;
     Some (b\<lparr>ob_level_free := f\<rparr>)
   }"

section \<open>Level management\<close>

definition insert_level_sorted :: "OrderBook \<Rightarrow> Side \<Rightarrow> nat \<Rightarrow> OrderBook outcome" where
  "insert_level_sorted b side l = do {
     cassert (\<not> level_linked b l);
     let ladder = ob_ladder b side;
     let price = (\<lambda>k. pl_price (ob_level_slots b ! k));
     if ladder = [] then Some (set_ladder side (ladder @ [l]) b)
     else if side = kBid then
       (case List.find (\<lambda>it. sint (price it) < sint (price l)) ladder of
          Some it \<Rightarrow> Some (set_ladder side (il_seq_insert_before it l ladder) b)
        | None \<Rightarrow> Some (set_ladder side (ladder @ [l]) b))
     else
       (case List.find (\<lambda>it. sint (price it) > sint (price l)) ladder of
          Some it \<Rightarrow> Some (set_ladder side (il_seq_insert_before it l ladder) b)
        | None \<Rightarrow> Some (set_ladder side (ladder @ [l]) b))
   }"

definition find_or_create_level :: "OrderBook \<Rightarrow> Side \<Rightarrow> Price \<Rightarrow> (nat option \<times> OrderBook) outcome" where
  "find_or_create_level b side price = do {
     side_index side;
     pp \<leftarrow> hm_find (ob_level_map b side) price;
     case pp of
       Some l \<Rightarrow> Some (Some l, b)
     | None \<Rightarrow>
       (case alloc_level b of
          (None, b) \<Rightarrow> Some (None, b)
        | (Some l, b) \<Rightarrow> do {
            let b = set_level l (\<lambda>x. x\<lparr>pl_price := price, pl_total_qty := 0, pl_side := side\<rparr>) b;
            (ok, m) \<leftarrow> hm_insert (ob_level_map b side) price l;
            let b = set_level_map side m b;
            if \<not> ok then do {
              b \<leftarrow> free_level b l;
              Some (None, b)
            } else do {
              b \<leftarrow> insert_level_sorted b side l;
              Some (Some l, b)
            }
          })
   }"

definition remove_level :: "OrderBook \<Rightarrow> nat \<Rightarrow> OrderBook outcome" where
  "remove_level b l = do {
     cassert (pl_orders (ob_level_slots b ! l) = []);
     let side = pl_side (ob_level_slots b ! l);
     side_index side;
     cassert (l \<in> set (ob_ladder b side));
     let b = set_ladder side (il_seq_erase l (ob_ladder b side)) b;
     (_, m) \<leftarrow> hm_erase (ob_level_map b side) (pl_price (ob_level_slots b ! l));
     free_level (set_level_map side m b) l
   }"

section \<open>Operations\<close>

definition add_order :: "OrderBook \<Rightarrow> OrderId \<Rightarrow> Side \<Rightarrow> Price \<Rightarrow> Qty \<Rightarrow> (bool \<times> OrderBook) outcome" where
  "add_order b oid side price qty =
    (if qty = 0 then Some (False, b)
     else do {
       pp \<leftarrow> hm_find (ob_order_map b) oid;
       if pp \<noteq> None then Some (False, b)
       else case alloc_order b of
         (None, b) \<Rightarrow> Some (False, b)
       | (Some order, b) \<Rightarrow> do {
           let b = set_order order
             (\<lambda>x. x\<lparr>order_id := oid, o_price := price, o_qty := qty, o_side := side\<rparr>) b;
           (ok, m) \<leftarrow> hm_insert (ob_order_map b) oid order;
           let b = b\<lparr>ob_order_map := m\<rparr>;
           if \<not> ok then do {
             b \<leftarrow> free_order b order;
             Some (False, b)
           } else do {
             (level, b) \<leftarrow> find_or_create_level b side price;
             case level of
               None \<Rightarrow> do {
                 (_, m) \<leftarrow> hm_erase (ob_order_map b) oid;
                 b \<leftarrow> free_order (b\<lparr>ob_order_map := m\<rparr>) order;
                 Some (False, b)
               }
             | Some l \<Rightarrow> do {
                 let b = set_order order (\<lambda>x. x\<lparr>o_level := Some l\<rparr>) b;
                 cassert (\<not> order_linked b order);
                 let b = set_level l (\<lambda>x. x\<lparr>pl_orders := pl_orders x @ [order]\<rparr>) b;
                 let b = set_level l (\<lambda>x. x\<lparr>pl_total_qty := pl_total_qty x + qty\<rparr>) b;
                 Some (True, b)
               }
           }
         }
     })"

text \<open>
  \<^verbatim>\<open>level->orders.erase(*order); level->total_qty -= order->qty\<close>, which three operations
  perform.
\<close>

definition unlink_order :: "OrderBook \<Rightarrow> nat \<Rightarrow> nat \<Rightarrow> OrderBook outcome" where
  "unlink_order b l order = do {
     cassert (order \<in> set (pl_orders (ob_level_slots b ! l)));
     let b = set_level l (\<lambda>x. x\<lparr>pl_orders := il_seq_erase order (pl_orders x)\<rparr>) b;
     Some (set_level l (\<lambda>x. x\<lparr>pl_total_qty := pl_total_qty x - o_qty (ob_order_slots b ! order)\<rparr>) b)
   }"

text \<open>The body of \<^verbatim>\<open>cancel_order\<close> after the lookup, which \<^verbatim>\<open>modify_order\<close> repeats inline.\<close>

definition cancel_found :: "OrderBook \<Rightarrow> OrderId \<Rightarrow> nat \<Rightarrow> (bool \<times> OrderBook) outcome" where
  "cancel_found b oid order =
    (case o_level (ob_order_slots b ! order) of
       None \<Rightarrow> None
     | Some l \<Rightarrow> do {
         b \<leftarrow> unlink_order b l order;
         b \<leftarrow> (if pl_orders (ob_level_slots b ! l) = [] then remove_level b l else Some b);
         (_, m) \<leftarrow> hm_erase (ob_order_map b) oid;
         b \<leftarrow> free_order (b\<lparr>ob_order_map := m\<rparr>) order;
         Some (True, b)
       })"

definition cancel_order :: "OrderBook \<Rightarrow> OrderId \<Rightarrow> (bool \<times> OrderBook) outcome" where
  "cancel_order b oid = do {
     pp \<leftarrow> hm_find (ob_order_map b) oid;
     case pp of None \<Rightarrow> Some (False, b) | Some order \<Rightarrow> cancel_found b oid order
   }"

definition modify_order :: "OrderBook \<Rightarrow> OrderId \<Rightarrow> Qty \<Rightarrow> (bool \<times> OrderBook) outcome" where
  "modify_order b oid new_qty = do {
     pp \<leftarrow> hm_find (ob_order_map b) oid;
     case pp of
       None \<Rightarrow> Some (False, b)
     | Some order \<Rightarrow>
       (if new_qty \<ge> o_qty (ob_order_slots b ! order) then Some (False, b)
        else if new_qty = 0 then cancel_found b oid order
        else do {
          let delta = o_qty (ob_order_slots b ! order) - new_qty;
          let b = set_order order (\<lambda>x. x\<lparr>o_qty := new_qty\<rparr>) b;
          l \<leftarrow> o_level (ob_order_slots b ! order);
          Some (True, set_level l (\<lambda>x. x\<lparr>pl_total_qty := pl_total_qty x - delta\<rparr>) b)
        })
   }"

definition remove_filled_order :: "OrderBook \<Rightarrow> nat \<Rightarrow> (bool \<times> OrderBook) outcome" where
  "remove_filled_order b order = do {
     l \<leftarrow> o_level (ob_order_slots b ! order);
     b \<leftarrow> unlink_order b l order;
     (_, m) \<leftarrow> hm_erase (ob_order_map b) (order_id (ob_order_slots b ! order));
     b \<leftarrow> free_order (b\<lparr>ob_order_map := m\<rparr>) order;
     if pl_orders (ob_level_slots b ! l) = [] then do {
       b \<leftarrow> remove_level b l;
       Some (True, b)
     } else Some (False, b)
   }"

definition rest_order :: "OrderBook \<Rightarrow> OrderId \<Rightarrow> Side \<Rightarrow> Price \<Rightarrow> Qty \<Rightarrow> (bool \<times> OrderBook) outcome" where
  "rest_order b oid side price qty = add_order b oid side price qty"

text \<open>The two nested loops of \<^verbatim>\<open>clear\<close>.\<close>

partial_function (option) clear_level_orders :: "OrderBook \<Rightarrow> nat \<Rightarrow> OrderBook outcome" where
  "clear_level_orders b l =
    (case pl_orders (ob_level_slots b ! l) of
       [] \<Rightarrow> Some b
     | order # rest \<Rightarrow> do {
         let b = set_level l (\<lambda>x. x\<lparr>pl_orders := rest\<rparr>) b;
         b \<leftarrow> free_order b order;
         clear_level_orders b l
       })"

partial_function (option) clear_ladder :: "OrderBook \<Rightarrow> Side \<Rightarrow> OrderBook outcome" where
  "clear_ladder b side =
    (case ob_ladder b side of
       [] \<Rightarrow> Some b
     | l # rest \<Rightarrow> do {
         let b = set_ladder side rest b;
         b \<leftarrow> clear_level_orders b l;
         b \<leftarrow> free_level b l;
         clear_ladder b side
       })"

definition clear_side :: "OrderBook \<Rightarrow> Side \<Rightarrow> OrderBook outcome" where
  "clear_side b side = do {
     b \<leftarrow> clear_ladder b side;
     Some (set_level_map side (hm_clear (ob_level_map b side)) b)
   }"

definition total_orders :: "OrderBook \<Rightarrow> nat" where
  "total_orders b = hm_size (ob_order_map b)"

definition ob_clear :: "OrderBook \<Rightarrow> OrderBook outcome" where
  "ob_clear b = do {
     b \<leftarrow> clear_side b kBid;
     b \<leftarrow> clear_side b kAsk;
     let b = b\<lparr>ob_order_map := hm_clear (ob_order_map b)\<rparr>;
     cassert (ob_bids b = []);
     cassert (ob_asks b = []);
     cassert (total_orders b = 0);
     Some b
   }"

section \<open>Queries\<close>

definition best_bid :: "OrderBook \<Rightarrow> Price option" where
  "best_bid b = (case ob_bids b of [] \<Rightarrow> None | l # _ \<Rightarrow> Some (pl_price (ob_level_slots b ! l)))"

definition best_ask :: "OrderBook \<Rightarrow> Price option" where
  "best_ask b = (case ob_asks b of [] \<Rightarrow> None | l # _ \<Rightarrow> Some (pl_price (ob_level_slots b ! l)))"

text \<open>\<^verbatim>\<open>*ba - *bb\<close> is a signed subtraction: its overflow is undefined, an abort here.\<close>

definition spread :: "OrderBook \<Rightarrow> Price option outcome" where
  "spread b = (case (best_bid b, best_ask b) of
      (Some bb, Some ba) \<Rightarrow>
        (let d = sint ba - sint bb in
         if - (2 ^ 63) \<le> d \<and> d < 2 ^ 63 then Some (Some (ba - bb)) else None)
    | _ \<Rightarrow> Some None)"

definition volume_at_level :: "OrderBook \<Rightarrow> Side \<Rightarrow> Price \<Rightarrow> Qty outcome" where
  "volume_at_level b side price = do {
     side_index side;
     pp \<leftarrow> hm_find (ob_level_map b side) price;
     Some (case pp of None \<Rightarrow> 0 | Some l \<Rightarrow> pl_total_qty (ob_level_slots b ! l))
   }"

definition order_count_at_level :: "OrderBook \<Rightarrow> Side \<Rightarrow> Price \<Rightarrow> u32 outcome" where
  "order_count_at_level b side price = do {
     side_index side;
     pp \<leftarrow> hm_find (ob_level_map b side) price;
     Some (case pp of None \<Rightarrow> 0 | Some l \<Rightarrow> of_nat (length (pl_orders (ob_level_slots b ! l))))
   }"

definition has_order :: "OrderBook \<Rightarrow> OrderId \<Rightarrow> bool outcome" where
  "has_order b oid = do { pp \<leftarrow> hm_find (ob_order_map b) oid; Some (pp \<noteq> None) }"

definition order_qty :: "OrderBook \<Rightarrow> OrderId \<Rightarrow> Qty outcome" where
  "order_qty b oid = do {
     pp \<leftarrow> hm_find (ob_order_map b) oid;
     Some (case pp of None \<Rightarrow> 0 | Some order \<Rightarrow> o_qty (ob_order_slots b ! order))
   }"

definition book_depth :: "OrderBook \<Rightarrow> Side \<Rightarrow> nat" where
  "book_depth b side = (if side = kBid then length (ob_bids b) else length (ob_asks b))"

definition free_order_count :: "OrderBook \<Rightarrow> nat" where
  "free_order_count b = ifs_available (ob_order_free b)"

definition free_level_count :: "OrderBook \<Rightarrow> nat" where
  "free_level_count b = ifs_available (ob_level_free b)"

end
