(* ===== verification/OrderBookSpec.thy ===== *)
theory OrderBookSpec
  imports OrderBook
begin

text \<open>
  What the order book promises. The \<^emph>\<open>view\<close> of a book forgets how pools, free stacks and
  hash maps are laid out: it has the ladders, the levels and orders by slot, the contents of
  the maps and the sets of allocated slots. Well-formed views are the invariant of the book,
  and each view transformation below is one step of its operations. The abstract book is, per
  side, the ladder of prices with their queues of order ids and quantities.
\<close>

section \<open>Views\<close>

definition better :: "Side \<Rightarrow> Price \<Rightarrow> Price \<Rightarrow> bool" where
  "better s p q = (if s = kBid then sint q < sint p else sint p < sint q)"

lemma better_irrefl [simp]: "\<not> better s p p"
  by (simp add: better_def)

lemma better_trans: "better s p q \<Longrightarrow> better s q r \<Longrightarrow> better s p r"
  by (auto simp: better_def split: if_splits)

lemma better_asym: "better s p q \<Longrightarrow> \<not> better s q p"
  by (auto simp: better_def split: if_splits)

lemma better_total: "p \<noteq> q \<Longrightarrow> better s p q \<or> better s q p"
  using signed_word_eqI [where 'a = int, of p q] linorder_neqE [of "sint p" "sint q"]
  by (auto simp: better_def)

record bview =
  v_lad :: "Side \<Rightarrow> nat list"
  v_lvl :: "nat \<Rightarrow> PriceLevel"
  v_ord :: "nat \<Rightarrow> Order"
  v_om :: "OrderId \<Rightarrow> nat option"
  v_lm :: "Side \<Rightarrow> Price \<Rightarrow> nat option"
  v_ao :: "nat set"
  v_al :: "nat set"

abbreviation v_price :: "bview \<Rightarrow> nat \<Rightarrow> Price" where
  "v_price v l \<equiv> pl_price (v_lvl v l)"

abbreviation v_queue :: "bview \<Rightarrow> nat \<Rightarrow> nat list" where
  "v_queue v l \<equiv> pl_orders (v_lvl v l)"

section \<open>Well-formed views\<close>

text \<open>
  A level of the ladder of side \<open>s\<close>: its queue has no duplicates, its total is the sum of
  the quantities (in the 32-bit arithmetic of the code), and each order points back to it.
\<close>

definition level_ok :: "bview \<Rightarrow> Side \<Rightarrow> nat \<Rightarrow> bool" where
  "level_ok v s l \<longleftrightarrow> pl_side (v_lvl v l) = s \<and> distinct (v_queue v l) \<and>
     pl_total_qty (v_lvl v l) = sum_list (map (\<lambda>i. o_qty (v_ord v i)) (v_queue v l)) \<and>
     (\<forall>i \<in> set (v_queue v l). o_level (v_ord v i) = Some l \<and> o_price (v_ord v i) = v_price v l \<and>
        o_side (v_ord v i) = s \<and> o_qty (v_ord v i) \<noteq> 0)"

text \<open>
  \<open>E\<close> is the set of levels that may be empty: none between two operations, one in the
  middle of an operation. \<open>N\<close> is the number of level slots.
\<close>

definition wf_core :: "nat \<Rightarrow> nat set \<Rightarrow> bview \<Rightarrow> bool" where
  "wf_core N E v \<longleftrightarrow>
     (\<forall>s. sorted_wrt (better s) (map (v_price v) (v_lad v s))) \<and> v_lad v kCount = [] \<and>
     v_al v = (\<Union>s. set (v_lad v s)) \<and> v_al v \<subseteq> {..<N} \<and>
     (\<forall>s. \<forall>l \<in> set (v_lad v s). level_ok v s l \<and> (v_queue v l = [] \<longrightarrow> l \<in> E)) \<and>
     v_ao v = (\<Union>l \<in> v_al v. set (v_queue v l)) \<and>
     (\<forall>l < N. l \<notin> v_al v \<longrightarrow> v_queue v l = [])"

definition wf_maps :: "bview \<Rightarrow> bool" where
  "wf_maps v \<longleftrightarrow> (\<forall>oid i. v_om v oid = Some i \<longleftrightarrow> i \<in> v_ao v \<and> order_id (v_ord v i) = oid) \<and>
     (\<forall>s p l. s \<noteq> kCount \<longrightarrow> (v_lm v s p = Some l \<longleftrightarrow> l \<in> set (v_lad v s) \<and> v_price v l = p))"

lemma wf_coreD:
  assumes "wf_core N E v"
  shows "sorted_wrt (better s) (map (v_price v) (v_lad v s))" "v_lad v kCount = []"
    "v_al v = (\<Union>s. set (v_lad v s))" "v_al v \<subseteq> {..<N}"
    "\<And>l. l \<in> set (v_lad v s) \<Longrightarrow> level_ok v s l"
    "\<And>l. l \<in> set (v_lad v s) \<Longrightarrow> v_queue v l = [] \<Longrightarrow> l \<in> E"
    "v_ao v = (\<Union>l \<in> v_al v. set (v_queue v l))"
    "\<And>l. l < N \<Longrightarrow> l \<notin> v_al v \<Longrightarrow> v_queue v l = []"
  using assms unfolding wf_core_def by (elim conjE; metis)+

lemma wf_mapsD:
  assumes "wf_maps v"
  shows "v_om v oid = Some i \<longleftrightarrow> i \<in> v_ao v \<and> order_id (v_ord v i) = oid"
    "s \<noteq> kCount \<Longrightarrow> v_lm v s p = Some l \<longleftrightarrow> l \<in> set (v_lad v s) \<and> v_price v l = p"
  using assms unfolding wf_maps_def by blast+

lemma level_okD:
  assumes "level_ok v s l"
  shows "pl_side (v_lvl v l) = s" "distinct (v_queue v l)"
    "pl_total_qty (v_lvl v l) = sum_list (map (\<lambda>i. o_qty (v_ord v i)) (v_queue v l))"
    "\<And>i. i \<in> set (v_queue v l) \<Longrightarrow> o_level (v_ord v i) = Some l"
    "\<And>i. i \<in> set (v_queue v l) \<Longrightarrow> o_price (v_ord v i) = v_price v l"
    "\<And>i. i \<in> set (v_queue v l) \<Longrightarrow> o_side (v_ord v i) = s"
    "\<And>i. i \<in> set (v_queue v l) \<Longrightarrow> o_qty (v_ord v i) \<noteq> 0"
  using assms unfolding level_ok_def by blast+

lemma level_ok_cong:
  assumes "v_lvl w l = v_lvl v l" "\<And>i. i \<in> set (v_queue v l) \<Longrightarrow> v_ord w i = v_ord v i"
  shows "level_ok w s l = level_ok v s l"
proof -
  have eq: "map (\<lambda>i. o_qty (v_ord w i)) (v_queue v l) = map (\<lambda>i. o_qty (v_ord v i)) (v_queue v l)"
    using assms(2) by simp
  show ?thesis unfolding level_ok_def assms(1) eq using assms(2) by auto
qed

lemma sorted_better_distinct_map: "sorted_wrt (better s) (map f xs) \<Longrightarrow> distinct (map f xs)"
  by (induction xs) force+

lemma sorted_better_distinct:
  assumes "sorted_wrt (better s) (map f xs)"
  shows "distinct xs" "inj_on f (set xs)"
  using sorted_better_distinct_map [OF assms] by (simp_all add: distinct_map)

lemma wf_lad_distinct: "wf_core N E v \<Longrightarrow> distinct (v_lad v s)"
  using sorted_better_distinct(1) wf_coreD(1) by blast

lemma wf_lad_inj: "wf_core N E v \<Longrightarrow> inj_on (v_price v) (set (v_lad v s))"
  using sorted_better_distinct(2) wf_coreD(1) by blast

lemma wf_lad_side:
  assumes "wf_core N E v" "l \<in> set (v_lad v s)" "l \<in> set (v_lad v t)"
  shows "s = t"
  using level_okD(1) [OF wf_coreD(5) [OF assms(1,2)]] level_okD(1) [OF wf_coreD(5) [OF assms(1,3)]]
  by simp

lemma wf_lad_al: "wf_core N E v \<Longrightarrow> l \<in> set (v_lad v s) \<Longrightarrow> l \<in> v_al v"
  by (auto simp: wf_coreD(3))

lemma wf_lad_bound: "wf_core N E v \<Longrightarrow> l \<in> set (v_lad v s) \<Longrightarrow> l < N"
  using wf_lad_al wf_coreD(4) by blast

lemma wf_lad_valid: "wf_core N E v \<Longrightarrow> l \<in> set (v_lad v s) \<Longrightarrow> s \<noteq> kCount"
  using wf_coreD(2) by fastforce

lemma wf_queue_ao: "wf_core N E v \<Longrightarrow> l \<in> set (v_lad v s) \<Longrightarrow> i \<in> set (v_queue v l) \<Longrightarrow> i \<in> v_ao v"
  using wf_coreD(7) wf_lad_al by blast

lemma wf_queue_unique:
  assumes "wf_core N E v" "l \<in> set (v_lad v s)" "i \<in> set (v_queue v l)"
    "m < N" "i \<in> set (v_queue v m)"
  shows "m = l"
proof -
  have "m \<in> v_al v" using wf_coreD(8) [OF assms(1,4)] assms(5) by fastforce
  then obtain t where "m \<in> set (v_lad v t)" using wf_coreD(3) [OF assms(1)] by auto
  then have "o_level (v_ord v i) = Some m"
    using level_okD(4) [OF wf_coreD(5) [OF assms(1)]] assms(5) by blast
  moreover have "o_level (v_ord v i) = Some l"
    using level_okD(4) [OF wf_coreD(5) [OF assms(1,2)]] assms(3) by blast
  ultimately show ?thesis by simp
qed

lemma wf_fresh_unlinked: "wf_core N E v \<Longrightarrow> i \<notin> v_ao v \<Longrightarrow> m < N \<Longrightarrow> i \<notin> set (v_queue v m)"
  using wf_coreD(7,8) by fastforce

text \<open>The order a lookup finds is in the queue of its level.\<close>

lemma wf_order_placed:
  assumes "wf_core N E v" "i \<in> v_ao v"
  obtains s l where "l \<in> set (v_lad v s)" "i \<in> set (v_queue v l)" "o_level (v_ord v i) = Some l"
proof -
  obtain s l where "l \<in> set (v_lad v s)" "i \<in> set (v_queue v l)"
    using assms by (auto simp: wf_coreD(7) wf_coreD(3))
  then show thesis using that level_okD(4) [OF wf_coreD(5) [OF assms(1)]] by blast
qed

section \<open>View transformations\<close>

text \<open>Append order \<open>x\<close>, in slot \<open>i\<close>, to the queue of level \<open>l\<close>.\<close>

definition v_append :: "nat \<Rightarrow> nat \<Rightarrow> Order \<Rightarrow> bview \<Rightarrow> bview" where
  "v_append i l x v = v\<lparr>
     v_lvl := (v_lvl v)(l := (v_lvl v l)\<lparr>pl_orders := v_queue v l @ [i],
                                        pl_total_qty := pl_total_qty (v_lvl v l) + o_qty x\<rparr>),
     v_ord := (v_ord v)(i := x), v_om := (v_om v)(order_id x \<mapsto> i), v_ao := insert i (v_ao v)\<rparr>"

text \<open>Take order \<open>i\<close> out of the queue of level \<open>l\<close> and free its slot.\<close>

definition v_take :: "nat \<Rightarrow> nat \<Rightarrow> bview \<Rightarrow> bview" where
  "v_take i l v = v\<lparr>
     v_lvl := (v_lvl v)(l := (v_lvl v l)\<lparr>pl_orders := remove1 i (v_queue v l),
                                        pl_total_qty := pl_total_qty (v_lvl v l) - o_qty (v_ord v i)\<rparr>),
     v_ord := (v_ord v)(i := (v_ord v i)\<lparr>o_level := None\<rparr>),
     v_om := (v_om v)(order_id (v_ord v i) := None), v_ao := v_ao v - {i}\<rparr>"

text \<open>Put a new, empty level into a ladder: before the first level with a worse price.\<close>

definition ladder_put :: "(nat \<Rightarrow> Price) \<Rightarrow> Side \<Rightarrow> nat \<Rightarrow> nat list \<Rightarrow> nat list" where
  "ladder_put price s l xs =
     takeWhile (\<lambda>k. \<not> better s (price l) (price k)) xs @ l #
     dropWhile (\<lambda>k. \<not> better s (price l) (price k)) xs"

definition v_open :: "Side \<Rightarrow> Price \<Rightarrow> nat \<Rightarrow> bview \<Rightarrow> bview" where
  "v_open s p l v = (let lvl = (v_lvl v)(l := (v_lvl v l)\<lparr>pl_price := p, pl_total_qty := 0, pl_side := s\<rparr>)
     in v\<lparr>v_lvl := lvl, v_lad := (v_lad v)(s := ladder_put (\<lambda>k. pl_price (lvl k)) s l (v_lad v s)),
          v_lm := (v_lm v)(s := (v_lm v s)(p \<mapsto> l)), v_al := insert l (v_al v)\<rparr>)"

definition v_close :: "Side \<Rightarrow> nat \<Rightarrow> bview \<Rightarrow> bview" where
  "v_close s l v = v\<lparr>v_lad := (v_lad v)(s := remove1 l (v_lad v s)),
     v_lm := (v_lm v)(s := (v_lm v s)(v_price v l := None)), v_al := v_al v - {l}\<rparr>"

text \<open>Set the quantity of order \<open>i\<close> of level \<open>l\<close> to \<open>q\<close>.\<close>

definition v_requant :: "nat \<Rightarrow> nat \<Rightarrow> Qty \<Rightarrow> bview \<Rightarrow> bview" where
  "v_requant i l q v = v\<lparr>
     v_lvl := (v_lvl v)(l := (v_lvl v l)\<lparr>pl_total_qty :=
                pl_total_qty (v_lvl v l) - (o_qty (v_ord v i) - q)\<rparr>),
     v_ord := (v_ord v)(i := (v_ord v i)\<lparr>o_qty := q\<rparr>)\<rparr>"

lemma wf_coreI:
  assumes "\<And>s. sorted_wrt (better s) (map (v_price v) (v_lad v s))" "v_lad v kCount = []"
    "v_al v = (\<Union>s. set (v_lad v s))" "v_al v \<subseteq> {..<N}"
    "\<And>s l. l \<in> set (v_lad v s) \<Longrightarrow> level_ok v s l"
    "\<And>s l. l \<in> set (v_lad v s) \<Longrightarrow> v_queue v l = [] \<Longrightarrow> l \<in> E"
    "v_ao v = (\<Union>l \<in> v_al v. set (v_queue v l))"
    "\<And>l. l < N \<Longrightarrow> l \<notin> v_al v \<Longrightarrow> v_queue v l = []"
  shows "wf_core N E v"
  unfolding wf_core_def using assms by (intro conjI allI ballI impI) metis+

lemma v_append_simps [simp]:
  "v_lad (v_append i l x v) = v_lad v" "v_al (v_append i l x v) = v_al v"
  "v_lm (v_append i l x v) = v_lm v" "v_ao (v_append i l x v) = insert i (v_ao v)"
  "v_om (v_append i l x v) = (v_om v)(order_id x \<mapsto> i)" "v_ord (v_append i l x v) = (v_ord v)(i := x)"
  "v_price (v_append i l x v) m = v_price v m"
  "pl_side (v_lvl (v_append i l x v) m) = pl_side (v_lvl v m)"
  "pl_total_qty (v_lvl (v_append i l x v) m) =
     (if m = l then pl_total_qty (v_lvl v l) + o_qty x else pl_total_qty (v_lvl v m))"
  "v_queue (v_append i l x v) m = (if m = l then v_queue v l @ [i] else v_queue v m)"
  by (simp_all add: v_append_def)

lemma v_take_simps [simp]:
  "v_lad (v_take i l v) = v_lad v" "v_al (v_take i l v) = v_al v"
  "v_lm (v_take i l v) = v_lm v" "v_ao (v_take i l v) = v_ao v - {i}"
  "v_om (v_take i l v) = (v_om v)(order_id (v_ord v i) := None)"
  "v_ord (v_take i l v) = (v_ord v)(i := (v_ord v i)\<lparr>o_level := None\<rparr>)"
  "v_price (v_take i l v) m = v_price v m"
  "pl_side (v_lvl (v_take i l v) m) = pl_side (v_lvl v m)"
  "pl_total_qty (v_lvl (v_take i l v) m) =
     (if m = l then pl_total_qty (v_lvl v l) - o_qty (v_ord v i) else pl_total_qty (v_lvl v m))"
  "v_queue (v_take i l v) m = (if m = l then remove1 i (v_queue v l) else v_queue v m)"
  by (simp_all add: v_take_def)

lemma v_open_simps [simp]:
  "v_ord (v_open s p l v) = v_ord v" "v_om (v_open s p l v) = v_om v" "v_ao (v_open s p l v) = v_ao v"
  "v_al (v_open s p l v) = insert l (v_al v)"
  "v_lm (v_open s p l v) = (v_lm v)(s := (v_lm v s)(p \<mapsto> l))"
  "v_lad (v_open s p l v) = (v_lad v)(s := ladder_put ((v_price v)(l := p)) s l (v_lad v s))"
  "v_price (v_open s p l v) m = (if m = l then p else v_price v m)"
  "pl_side (v_lvl (v_open s p l v) m) = (if m = l then s else pl_side (v_lvl v m))"
  "pl_total_qty (v_lvl (v_open s p l v) m) = (if m = l then 0 else pl_total_qty (v_lvl v m))"
  "v_queue (v_open s p l v) m = v_queue v m"
  by (simp_all add: v_open_def Let_def fun_upd_def if_distrib cong: if_cong)

lemma v_close_simps [simp]:
  "v_ord (v_close s l v) = v_ord v" "v_om (v_close s l v) = v_om v" "v_ao (v_close s l v) = v_ao v"
  "v_lvl (v_close s l v) = v_lvl v" "v_al (v_close s l v) = v_al v - {l}"
  "v_lad (v_close s l v) = (v_lad v)(s := remove1 l (v_lad v s))"
  "v_lm (v_close s l v) = (v_lm v)(s := (v_lm v s)(v_price v l := None))"
  by (simp_all add: v_close_def)

lemma v_requant_simps [simp]:
  "v_lad (v_requant i l q v) = v_lad v" "v_al (v_requant i l q v) = v_al v"
  "v_lm (v_requant i l q v) = v_lm v" "v_ao (v_requant i l q v) = v_ao v"
  "v_om (v_requant i l q v) = v_om v"
  "v_ord (v_requant i l q v) = (v_ord v)(i := (v_ord v i)\<lparr>o_qty := q\<rparr>)"
  "v_price (v_requant i l q v) m = v_price v m"
  "pl_side (v_lvl (v_requant i l q v) m) = pl_side (v_lvl v m)"
  "pl_total_qty (v_lvl (v_requant i l q v) m) =
     (if m = l then pl_total_qty (v_lvl v l) - (o_qty (v_ord v i) - q) else pl_total_qty (v_lvl v m))"
  "v_queue (v_requant i l q v) m = v_queue v m"
  by (simp_all add: v_requant_def)

lemma sum_list_upd_notin:
  "i \<notin> set xs \<Longrightarrow> (\<Sum>j\<leftarrow>xs. g (if j = i then x else f j)) = (\<Sum>j\<leftarrow>xs. g (f j))"
  by (induction xs) auto

lemma wf_append:
  assumes wf: "wf_core N E v" and l: "l \<in> set (v_lad v s)" and i: "i \<notin> v_ao v"
    and x: "o_level x = Some l" "o_price x = v_price v l" "o_side x = s" "o_qty x \<noteq> 0"
  shows "wf_core N (E - {l}) (v_append i l x v)"
proof (rule wf_coreI; (unfold v_append_simps)?)
  note D = wf_coreD [OF wf]
  have fr: "i \<notin> set (v_queue v m)" if "m \<in> set (v_lad v t)" for m t
    using wf_queue_ao [OF wf that] i by blast
  show "sorted_wrt (better t) (map (v_price v) (v_lad v t))" for t by (rule D)
  show "v_lad v kCount = []" "v_al v \<subseteq> {..<N}" "v_al v = (\<Union>s. set (v_lad v s))" by (rule D)+
  show "insert i (v_ao v) = (\<Union>m \<in> v_al v. set (if m = l then v_queue v l @ [i] else v_queue v m))"
    using wf_lad_al [OF wf l] D(7) by (auto split: if_splits)
  show "(if m = l then v_queue v l @ [i] else v_queue v m) = []" if "m < N" "m \<notin> v_al v" for m
    using that D(8) wf_lad_al [OF wf l] by auto
  fix t m assume m: "m \<in> set (v_lad v t)"
  show "m \<in> E - {l}" if "(if m = l then v_queue v l @ [i] else v_queue v m) = []"
    using that D(6) [OF m] by (auto split: if_splits)
  show "level_ok (v_append i l x v) t m"
  proof (cases "m = l")
    case True
    then have [simp]: "m = l" "t = s" using wf_lad_side [OF wf l] m by auto
    show ?thesis
      using D(5) [OF l] fr [OF l] x by (auto simp: level_ok_def sum_list_upd_notin)
  next
    case False
    then show ?thesis
      using D(5) [OF m] fr [OF m]
      by (subst level_ok_cong [where v = v]) (auto simp: v_append_def)
  qed
qed

lemma wf_take:
  assumes wf: "wf_core N E v" and l: "l \<in> set (v_lad v s)" and i: "i \<in> set (v_queue v l)"
  shows "wf_core N (if v_queue v l = [i] then insert l E else E) (v_take i l v)"
proof (rule wf_coreI; (unfold v_take_simps)?)
  note D = wf_coreD [OF wf]
  note ok = D(5) [OF l]
  have fr: "i \<notin> set (v_queue v m)" if "m \<in> v_al v" "m \<noteq> l" for m
    using wf_queue_unique [OF wf l i] that D(4) by blast
  show "sorted_wrt (better t) (map (v_price v) (v_lad v t))" for t by (rule D)
  show "v_lad v kCount = []" "v_al v \<subseteq> {..<N}" "v_al v = (\<Union>s. set (v_lad v s))" by (rule D)+
  show "v_ao v - {i} = (\<Union>m \<in> v_al v. set (if m = l then remove1 i (v_queue v l) else v_queue v m))"
    using fr D(7) level_okD(2) [OF ok] by (auto split: if_splits)
  show "(if m = l then remove1 i (v_queue v l) else v_queue v m) = []" if "m < N" "m \<notin> v_al v" for m
    using that D(8) wf_lad_al [OF wf l] by auto
  fix t m assume m: "m \<in> set (v_lad v t)"
  show "m \<in> (if v_queue v l = [i] then insert l E else E)"
    if "(if m = l then remove1 i (v_queue v l) else v_queue v m) = []"
    using that D(6) [OF m] i by (cases "v_queue v l") (auto split: if_splits)
  show "level_ok (v_take i l v) t m"
  proof (cases "m = l")
    case True
    then have [simp]: "m = l" "t = s" using wf_lad_side [OF wf l] m by auto
    show ?thesis
      using ok i sum_list_map_remove1 [OF i, of "\<lambda>j. o_qty (v_ord v j)"]
      by (auto simp: level_ok_def sum_list_upd_notin)
  next
    case False
    then show ?thesis
      using D(5) [OF m] fr [OF wf_lad_al [OF wf m]]
      by (subst level_ok_cong [where v = v]) (auto simp: v_take_def)
  qed
qed

lemma sum_list_requant:
  fixes g :: "'b \<Rightarrow> 'c::ab_group_add"
  assumes "distinct xs" "i \<in> set xs"
  shows "(\<Sum>j\<leftarrow>xs. g (if j = i then x else f j)) = (\<Sum>j\<leftarrow>xs. g (f j)) - (g (f i) - g x)"
  using assms
proof (induction xs)
  case (Cons a xs)
  then show ?case by (cases "a = i") (auto simp: sum_list_upd_notin algebra_simps)
qed simp

lemma wf_requant:
  assumes wf: "wf_core N E v" and l: "l \<in> set (v_lad v s)" and i: "i \<in> set (v_queue v l)"
    and q: "q \<noteq> 0"
  shows "wf_core N E (v_requant i l q v)"
proof (rule wf_coreI; (unfold v_requant_simps)?)
  note D = wf_coreD [OF wf]
  note ok = D(5) [OF l]
  have fr: "i \<notin> set (v_queue v m)" if "m \<in> v_al v" "m \<noteq> l" for m
    using wf_queue_unique [OF wf l i] that D(4) by blast
  show "sorted_wrt (better t) (map (v_price v) (v_lad v t))" for t by (rule D)
  show "v_lad v kCount = []" "v_al v \<subseteq> {..<N}" "v_al v = (\<Union>s. set (v_lad v s))"
    "v_ao v = (\<Union>l \<in> v_al v. set (v_queue v l))" by (rule D)+
  show "v_queue v m = []" if "m < N" "m \<notin> v_al v" for m by (rule D) fact+
  fix t m assume m: "m \<in> set (v_lad v t)"
  show "m \<in> E" if "v_queue v m = []" by (rule D) fact+
  show "level_ok (v_requant i l q v) t m"
  proof (cases "m = l")
    case True
    then have [simp]: "m = l" "t = s" using wf_lad_side [OF wf l] m by auto
    show ?thesis
      using ok i q by (auto simp: level_ok_def sum_list_requant)
  next
    case False
    then show ?thesis
      using D(5) [OF m] fr [OF wf_lad_al [OF wf m]]
      by (subst level_ok_cong [where v = v]) (auto simp: v_requant_def)
  qed
qed

lemma sorted_remove1: "sorted_wrt P (map f xs) \<Longrightarrow> sorted_wrt P (map f (remove1 l xs))"
  by (induction xs) (auto dest: in_set_remove1 [THEN iffD1, rotated] notin_set_remove1 set_remove1_subset [THEN subsetD])

lemma wf_close:
  assumes wf: "wf_core N E v" and l: "l \<in> set (v_lad v s)" and i: "v_queue v l = []"
  shows "wf_core N (E - {l}) (v_close s l v)"
proof (rule wf_coreI; (unfold v_close_simps)?)
  note D = wf_coreD [OF wf]
  have lad: "set (((v_lad v)(s := remove1 l (v_lad v s))) t) = set (v_lad v t) - {l}" for t
    using wf_lad_distinct [OF wf] wf_lad_side [OF wf l] by auto
  show "sorted_wrt (better t) (map (v_price v) (((v_lad v)(s := remove1 l (v_lad v s))) t))" for t
    using D(1) [of t] D(1) [of s] by (simp add: sorted_remove1)
  show "((v_lad v)(s := remove1 l (v_lad v s))) kCount = []" using D(2) l by auto
  show "v_al v - {l} = (\<Union>t. set (((v_lad v)(s := remove1 l (v_lad v s))) t))"
    unfolding lad D(3) by auto
  show "v_al v - {l} \<subseteq> {..<N}" using D(4) by auto
  show "v_ao v = (\<Union>m \<in> v_al v - {l}. set (v_queue v m))" unfolding D(7) using i by auto
  show "v_queue v m = []" if "m < N" "m \<notin> v_al v - {l}" for m using D(8) that i by blast
  fix t m assume "m \<in> set (((v_lad v)(s := remove1 l (v_lad v s))) t)"
  then have m: "m \<in> set (v_lad v t)" "m \<noteq> l" unfolding lad by auto
  then show "level_ok (v_close s l v) t m" using D(5) by (subst level_ok_cong [where v = v]) auto
  show "m \<in> E - {l}" if "v_queue v m = []" using D(6) that m by blast
qed

lemma ladder_put_Nil [simp]: "ladder_put f s l [] = [l]"
  by (simp add: ladder_put_def)

lemma ladder_put_Cons [simp]:
  "ladder_put f s l (x # xs) =
     (if better s (f l) (f x) then l # x # xs else x # ladder_put f s l xs)"
  by (simp add: ladder_put_def)

lemma set_ladder_put [simp]: "set (ladder_put f s l xs) = insert l (set xs)"
  by (induction xs) auto

lemma sorted_ladder_put:
  assumes "sorted_wrt (better s) (map f xs)" "f l \<notin> f ` set xs"
  shows "sorted_wrt (better s) (map f (ladder_put f s l xs))"
  using assms
proof (induction xs)
  case (Cons x xs)
  then have "better s (f x) (f l)" if "\<not> better s (f l) (f x)"
    using that better_total [of "f l" "f x" s] by auto
  with Cons show ?case by (auto intro: better_trans)
qed simp

lemma wf_open:
  assumes wf: "wf_core N E v" and l: "l \<notin> v_al v" "l < N" and s: "s \<noteq> kCount"
    and p: "p \<notin> v_price v ` set (v_lad v s)"
  shows "wf_core N (insert l E) (v_open s p l v)"
proof (rule wf_coreI; (unfold v_open_simps)?)
  note D = wf_coreD [OF wf]
  let ?f = "(v_price v)(l := p)" and ?lad = "(v_lad v)(s := ladder_put ((v_price v)(l := p)) s l (v_lad v s))"
  have f: "(\<lambda>m. if m = l then p else v_price v m) = ?f" by auto
  have nl: "l \<notin> set (v_lad v t)" for t using l wf_lad_al [OF wf] by blast
  have eq: "map ?f (v_lad v t) = map (v_price v) (v_lad v t)" for t using nl by auto
  have lad: "set (?lad t) = (if t = s then insert l (set (v_lad v t)) else set (v_lad v t))" for t by auto
  have ql: "v_queue v l = []" using D(8) l by blast
  show "sorted_wrt (better t) (map (\<lambda>m. if m = l then p else v_price v m) (?lad t))" for t
  proof (cases "t = s")
    case True
    have "?f l \<notin> ?f ` set (v_lad v s)" using p nl [of s] by auto
    with True show ?thesis unfolding f using sorted_ladder_put [of s ?f "v_lad v s" l] D(1) [of s] eq by simp
  next
    case False
    then have "?lad t = v_lad v t" by simp
    then show ?thesis unfolding f by (simp only: eq D(1))
  qed
  show "?lad kCount = []" using D(2) s by simp
  show "insert l (v_al v) = (\<Union>t. set (?lad t))" unfolding lad D(3) by auto
  show "insert l (v_al v) \<subseteq> {..<N}" using D(4) l by auto
  show "v_ao v = (\<Union>m \<in> insert l (v_al v). set (v_queue v m))" using D(7) ql by auto
  show "v_queue v m = []" if "m < N" "m \<notin> insert l (v_al v)" for m using D(8) that by blast
  fix t m assume "m \<in> set (?lad t)"
  then have m: "m = l \<and> t = s \<or> m \<noteq> l \<and> m \<in> set (v_lad v t)"
    unfolding lad using nl by (auto split: if_splits)
  show "m \<in> insert l E" if "v_queue v m = []" using m D(6) [of m t] that by blast
  show "level_ok (v_open s p l v) t m"
    using m
  proof
    assume "m = l \<and> t = s"
    then show ?thesis using ql by (simp add: level_ok_def)
  next
    assume "m \<noteq> l \<and> m \<in> set (v_lad v t)"
    then show ?thesis using D(5) by (subst level_ok_cong [where v = v]) (auto simp: v_open_def)
  qed
qed

section \<open>The maps follow\<close>

lemma wf_maps_append:
  assumes "wf_maps v" "i \<notin> v_ao v" "v_om v (order_id x) = None"
  shows "wf_maps (v_append i l x v)"
  unfolding wf_maps_def
proof (intro conjI allI impI; unfold v_append_simps)
  show "((v_om v)(order_id x \<mapsto> i)) oid = Some j \<longleftrightarrow>
    j \<in> insert i (v_ao v) \<and> order_id (((v_ord v)(i := x)) j) = oid" for oid j
    using wf_mapsD(1) [OF assms(1), of oid j] assms(2,3) by auto
  show "v_lm v s p = Some m \<longleftrightarrow> m \<in> set (v_lad v s) \<and> v_price v m = p" if "s \<noteq> kCount" for s p m
    using wf_mapsD(2) [OF assms(1) that] .
qed

lemma wf_maps_take:
  assumes "wf_maps v" "i \<in> v_ao v"
  shows "wf_maps (v_take i l v)"
  unfolding wf_maps_def
proof (intro conjI allI impI; unfold v_take_simps)
  have "v_om v (order_id (v_ord v i)) = Some i" using assms by (simp add: wf_mapsD(1))
  then show "((v_om v)(order_id (v_ord v i) := None)) oid = Some j \<longleftrightarrow>
    j \<in> v_ao v - {i} \<and> order_id (((v_ord v)(i := (v_ord v i)\<lparr>o_level := None\<rparr>)) j) = oid" for oid j
    using wf_mapsD(1) [OF assms(1), of oid j] by auto
  show "v_lm v s p = Some m \<longleftrightarrow> m \<in> set (v_lad v s) \<and> v_price v m = p" if "s \<noteq> kCount" for s p m
    using wf_mapsD(2) [OF assms(1) that] .
qed

lemma wf_maps_requant: "wf_maps v \<Longrightarrow> wf_maps (v_requant i l q v)"
  unfolding wf_maps_def by simp

lemma wf_maps_open:
  assumes "wf_maps v" "wf_core N E v" "l \<notin> v_al v" "v_lm v s p = None"
  shows "wf_maps (v_open s p l v)"
  unfolding wf_maps_def
proof (intro conjI allI impI; unfold v_open_simps)
  show "v_om v oid = Some j \<longleftrightarrow> j \<in> v_ao v \<and> order_id (v_ord v j) = oid" for oid j
    by (rule wf_mapsD(1) [OF assms(1)])
  have nl: "l \<notin> set (v_lad v t)" for t using assms(3) wf_lad_al [OF assms(2)] by blast
  show "((v_lm v)(s := (v_lm v s)(p \<mapsto> l))) t q = Some m \<longleftrightarrow>
    m \<in> set (((v_lad v)(s := ladder_put ((v_price v)(l := p)) s l (v_lad v s))) t) \<and>
    (if m = l then p else v_price v m) = q" if "t \<noteq> kCount" for t q m
    using wf_mapsD(2) [OF assms(1) that, of q m] assms(4) nl by auto
qed

lemma wf_maps_close:
  assumes "wf_maps v" "wf_core N E v" "l \<in> set (v_lad v s)"
  shows "wf_maps (v_close s l v)"
  unfolding wf_maps_def
proof (intro conjI allI impI; unfold v_close_simps)
  show "v_om v oid = Some j \<longleftrightarrow> j \<in> v_ao v \<and> order_id (v_ord v j) = oid" for oid j
    by (rule wf_mapsD(1) [OF assms(1)])
  have d: "set (remove1 l (v_lad v s)) = set (v_lad v s) - {l}"
    using wf_lad_distinct [OF assms(2)] by simp
  show "((v_lm v)(s := (v_lm v s)(v_price v l := None))) t q = Some m \<longleftrightarrow>
    m \<in> set (((v_lad v)(s := remove1 l (v_lad v s))) t) \<and> v_price v m = q" if "t \<noteq> kCount" for t q m
  proof (cases "t = s")
    case True
    have "m = l" if "v_price v m = v_price v l" "m \<in> set (v_lad v s)"
      using inj_onD [OF wf_lad_inj [OF assms(2)]] that assms(3) by blast
    then show ?thesis using wf_mapsD(2) [OF assms(1) that, of q m] d True by auto
  next
    case False
    then show ?thesis using wf_mapsD(2) [OF assms(1) that, of q m] by simp
  qed
qed

section \<open>The abstract book\<close>

type_synonym alevel = "Price \<times> (OrderId \<times> Qty) list"

definition v_entry :: "bview \<Rightarrow> nat \<Rightarrow> OrderId \<times> Qty" where
  "v_entry v i = (order_id (v_ord v i), o_qty (v_ord v i))"

definition v_abs :: "bview \<Rightarrow> Side \<Rightarrow> alevel list" where
  "v_abs v s = map (\<lambda>l. (v_price v l, map (v_entry v) (v_queue v l))) (v_lad v s)"

text \<open>A new order joins the back of the queue at its price, or opens a level in price order.\<close>

fun a_add :: "Side \<Rightarrow> Price \<Rightarrow> OrderId \<times> Qty \<Rightarrow> alevel list \<Rightarrow> alevel list" where
  "a_add s p e [] = [(p, [e])]"
| "a_add s p e ((p', es) # r) =
     (if p' = p then (p', es @ [e]) # r
      else if better s p p' then (p, [e]) # (p', es) # r
      else (p', es) # a_add s p e r)"

text \<open>An order leaves its queue, and an empty queue leaves the ladder.\<close>

definition a_remove :: "OrderId \<Rightarrow> alevel list \<Rightarrow> alevel list" where
  "a_remove oid lad =
     filter (\<lambda>(p, es). es \<noteq> []) (map (\<lambda>(p, es). (p, filter (\<lambda>e. fst e \<noteq> oid) es)) lad)"

text \<open>A changed quantity keeps the place in the queue.\<close>

definition a_requant :: "OrderId \<Rightarrow> Qty \<Rightarrow> alevel list \<Rightarrow> alevel list" where
  "a_requant oid q lad =
     map (\<lambda>(p, es). (p, map (\<lambda>e. if fst e = oid then (oid, q) else e) es)) lad"

lemma a_add_existing:
  assumes "sorted_wrt (better s) (map f xs)" "l \<in> set xs"
  shows "a_add s (f l) e (map (\<lambda>k. (f k, g k)) xs) =
    map (\<lambda>k. (f k, if k = l then g l @ [e] else g k)) xs"
  using assms
proof (induction xs)
  case (Cons x xs)
  show ?case
  proof (cases "x = l")
    case True
    then have "l \<notin> set xs" using Cons.prems(1) by auto
    then show ?thesis using True by auto
  next
    case False
    then have "l \<in> set xs" "better s (f x) (f l)" using Cons.prems by auto
    then show ?thesis using Cons False better_asym by fastforce
  qed
qed simp

lemma a_add_new:
  assumes "sorted_wrt (better s) (map f xs)" "l \<notin> set xs" "f l \<notin> f ` set xs"
  shows "a_add s (f l) e (map (\<lambda>k. (f k, g k)) xs) =
    map (\<lambda>k. (f k, if k = l then [e] else g k)) (ladder_put f s l xs)"
  using assms by (induction xs) auto

lemma abs_append:
  assumes wf: "wf_core N E v" and l: "l \<in> set (v_lad v s)" and i: "i \<notin> v_ao v"
  shows "v_abs (v_append i l x v) =
    (v_abs v)(s := a_add s (v_price v l) (order_id x, o_qty x) (v_abs v s))"
proof (rule ext)
  fix t
  let ?e = "(order_id x, o_qty x)"
  have ent: "map (v_entry (v_append i l x v)) (v_queue v m) = map (v_entry v) (v_queue v m)"
    if "m \<in> set (v_lad v t)" for m t
    using wf_queue_ao [OF wf that] i by (auto simp: v_entry_def)
  have nl: "l \<notin> set (v_lad v t)" if "t \<noteq> s" using wf_lad_side [OF wf l] that by blast
  show "v_abs (v_append i l x v) t =
    ((v_abs v)(s := a_add s (v_price v l) ?e (v_abs v s))) t"
  proof (cases "t = s")
    case True
    have "a_add s (v_price v l) ?e (v_abs v s) = map (\<lambda>k. (v_price v k,
        if k = l then map (v_entry v) (v_queue v l) @ [?e] else map (v_entry v) (v_queue v k))) (v_lad v s)"
      unfolding v_abs_def by (rule a_add_existing [OF wf_coreD(1) [OF wf] l])
    then show ?thesis using True ent by (auto simp: v_abs_def v_entry_def [of "v_append i l x v" i])
  next
    case False
    then show ?thesis using nl ent by (auto simp: v_abs_def)
  qed
qed

lemma abs_open_append:
  assumes wf: "wf_core N E v" and l: "l \<notin> v_al v" "l < N" and s: "s \<noteq> kCount" and i: "i \<notin> v_ao v"
    and p: "p \<notin> v_price v ` set (v_lad v s)"
  shows "v_abs (v_append i l x (v_open s p l v)) =
    (v_abs v)(s := a_add s p (order_id x, o_qty x) (v_abs v s))"
proof (rule ext)
  fix t
  let ?e = "(order_id x, o_qty x)" and ?w = "v_append i l x (v_open s p l v)"
  let ?f = "(v_price v)(l := p)" and ?g = "\<lambda>k. map (v_entry v) (v_queue v k)"
  have nl: "l \<notin> set (v_lad v t)" for t using l wf_lad_al [OF wf] by blast
  have ql: "v_queue v l = []" using wf_coreD(8) [OF wf] l by blast
  have ent: "map (v_entry ?w) (v_queue v m) = ?g m" if "m < N" for m
    using wf_fresh_unlinked [OF wf i that] by (auto simp: v_entry_def)
  have bd: "m < N" if "m \<in> set (v_lad v t)" for m t using wf_lad_bound [OF wf that] .
  have ei: "v_entry ?w i = ?e" by (simp add: v_entry_def)
  have abs: "v_abs v t = map (\<lambda>k. (?f k, ?g k)) (v_lad v t)" for t using nl by (auto simp: v_abs_def)
  show "v_abs ?w t = ((v_abs v)(s := a_add s p ?e (v_abs v s))) t"
  proof (cases "t = s")
    case True
    have "map ?f (v_lad v s) = map (v_price v) (v_lad v s)" using nl [of s] by auto
    then have srt: "sorted_wrt (better s) (map ?f (v_lad v s))" by (simp only: wf_coreD(1) [OF wf])
    have "?f l \<notin> ?f ` set (v_lad v s)" using p nl [of s] by auto
    from a_add_new [OF srt nl this, of ?e ?g]
    have "a_add s p ?e (v_abs v s) =
      map (\<lambda>k. (?f k, if k = l then [?e] else ?g k)) (ladder_put ?f s l (v_lad v s))"
      unfolding abs by (simp only: fun_upd_same)
    moreover have "v_abs ?w s = map (\<lambda>k. (?f k, if k = l then [?e] else ?g k)) (ladder_put ?f s l (v_lad v s))"
      using ql ent bd [of _ s] l(2) ei by (auto simp: v_abs_def)
    ultimately show ?thesis using True by simp
  next
    case False
    then show ?thesis using nl ent bd [of _ t] by (auto simp: v_abs_def)
  qed
qed

lemma wf_id_unique:
  assumes "wf_maps v" "i \<in> v_ao v" "j \<in> v_ao v" "order_id (v_ord v j) = order_id (v_ord v i)"
  shows "j = i"
  using wf_mapsD(1) [OF assms(1), of "order_id (v_ord v i)"] assms(2-4) by (metis option.inject)

lemma filter_map_entry:
  assumes wf: "wf_core N E v" "wf_maps v" and i: "i \<in> v_ao v" and m: "m \<in> set (v_lad v t)"
  shows "filter (\<lambda>e. fst e \<noteq> order_id (v_ord v i)) (map (v_entry v) (v_queue v m)) =
    map (v_entry v) (remove1 i (v_queue v m))"
proof -
  have "order_id (v_ord v j) = order_id (v_ord v i) \<longleftrightarrow> j = i" if "j \<in> set (v_queue v m)" for j
    using wf_id_unique [OF wf(2) i] wf_queue_ao [OF wf(1) m that] by blast
  then have "filter (\<lambda>j. order_id (v_ord v j) \<noteq> order_id (v_ord v i)) (v_queue v m) =
      filter (\<lambda>j. j \<noteq> i) (v_queue v m)"
    by (intro filter_cong) auto
  moreover have "\<dots> = remove1 i (v_queue v m)"
    using level_okD(2) [OF wf_coreD(5) [OF wf(1) m]] by (simp add: distinct_remove1_removeAll removeAll_filter_not_eq)
      (metis)
  ultimately show ?thesis by (simp add: filter_map comp_def v_entry_def)
qed

definition v_drop :: "Side \<Rightarrow> nat \<Rightarrow> nat \<Rightarrow> bview \<Rightarrow> bview" where
  "v_drop s i l v = (if v_queue v l = [i] then v_close s l (v_take i l v) else v_take i l v)"

lemma wf_drop:
  assumes wf: "wf_core N {} v" "wf_maps v" and l: "l \<in> set (v_lad v s)" and i: "i \<in> set (v_queue v l)"
  shows "wf_core N {} (v_drop s i l v)" "wf_maps (v_drop s i l v)"
proof -
  have take: "wf_core N (if v_queue v l = [i] then {l} else {}) (v_take i l v)" "wf_maps (v_take i l v)"
    using wf_take [OF wf(1) l i] wf_maps_take [OF wf(2) wf_queue_ao [OF wf(1) l i]] by simp_all
  show "wf_core N {} (v_drop s i l v)"
    using take(1) wf_close [of N "{l}" "v_take i l v" l s] l by (auto simp: v_drop_def)
  show "wf_maps (v_drop s i l v)"
    using take wf_maps_close [of "v_take i l v" N "{l}" l s] l by (auto simp: v_drop_def)
qed

lemma abs_drop:
  assumes wf: "wf_core N {} v" "wf_maps v" and l: "l \<in> set (v_lad v s)" and i: "i \<in> set (v_queue v l)"
  shows "v_abs (v_drop s i l v) t = a_remove (order_id (v_ord v i)) (v_abs v t)"
proof -
  let ?q = "\<lambda>m. remove1 i (v_queue v m)" and ?w = "v_drop s i l v"
  have iao: "i \<in> v_ao v" by (rule wf_queue_ao [OF wf(1) l i])
  have lad: "v_lad ?w t = filter (\<lambda>m. ?q m \<noteq> []) (v_lad v t)"
  proof -
    have *: "?q m = [] \<longleftrightarrow> m = l \<and> v_queue v l = [i]" if "m \<in> set (v_lad v t)" for m
    proof (cases "m = l")
      case True
      then show ?thesis using i by (cases "v_queue v l") auto
    next
      case False
      then have "i \<notin> set (v_queue v m)"
        using wf_queue_unique [OF wf(1) l i] wf_lad_bound [OF wf(1) that] by blast
      then show ?thesis using False wf_coreD(6) [OF wf(1) that] by (auto simp: remove1_idem)
    qed
    show ?thesis
    proof (cases "v_queue v l = [i] \<and> t = s")
      case True
      have "filter (\<lambda>m. ?q m \<noteq> []) (v_lad v t) = filter (\<lambda>m. l \<noteq> m) (v_lad v t)"
        using * True by (intro filter_cong) auto
      then show ?thesis
        using True wf_lad_distinct [OF wf(1), of s]
        by (simp add: v_drop_def distinct_remove1_removeAll removeAll_filter_not_eq)
    next
      case False
      have "filter (\<lambda>m. ?q m \<noteq> []) (v_lad v t) = v_lad v t"
        unfolding filter_id_conv using * False wf_lad_side [OF wf(1) l] by blast
      then show ?thesis using False by (auto simp: v_drop_def)
    qed
  qed
  have "map (v_entry ?w) (v_queue ?w m) = map (v_entry v) (?q m) \<and> v_price ?w m = v_price v m"
    if "m \<in> set (v_lad v t)" for m
  proof -
    have "m = l \<or> i \<notin> set (v_queue v m)"
      using wf_queue_unique [OF wf(1) l i] wf_lad_bound [OF wf(1) that] by blast
    then have "v_queue ?w m = ?q m" by (auto simp: v_drop_def remove1_idem)
    moreover have "v_entry ?w j = v_entry v j" for j by (auto simp: v_entry_def v_drop_def)
    moreover have "v_price ?w m = v_price v m" by (simp add: v_drop_def)
    ultimately show ?thesis by simp
  qed
  then have "v_abs ?w t = map (\<lambda>m. (v_price v m, map (v_entry v) (?q m))) (v_lad ?w t)"
    unfolding v_abs_def lad by simp
  moreover have "map (\<lambda>(p, es). (p, filter (\<lambda>e. fst e \<noteq> order_id (v_ord v i)) es)) (v_abs v t) =
      map (\<lambda>m. (v_price v m, map (v_entry v) (?q m))) (v_lad v t)"
    using filter_map_entry [OF wf iao] by (simp add: v_abs_def)
  ultimately show ?thesis unfolding a_remove_def lad by (simp add: filter_map comp_def)
qed

lemma abs_requant:
  assumes wf: "wf_core N E v" "wf_maps v" and i: "i \<in> v_ao v"
  shows "v_abs (v_requant i l q v) t = a_requant (order_id (v_ord v i)) q (v_abs v t)"
proof -
  have "v_entry (v_requant i l q v) j =
      (if fst (v_entry v j) = order_id (v_ord v i) then (order_id (v_ord v i), q) else v_entry v j)"
    if "m \<in> set (v_lad v t)" "j \<in> set (v_queue v m)" for m j
    using wf_id_unique [OF wf(2) i] wf_queue_ao [OF wf(1) that] by (auto simp: v_entry_def)
  then show ?thesis unfolding v_abs_def a_requant_def by simp
qed

section \<open>The orders of an abstract book\<close>

definition a_orders :: "(Side \<Rightarrow> alevel list) \<Rightarrow> OrderId \<Rightarrow> Qty option" where
  "a_orders A = map_of (concat (map snd (A kBid @ A kAsk)))"

lemma map_of_entries:
  assumes "inj_on f (set xs)" "i \<in> set xs"
  shows "map_of (map (\<lambda>i. (f i, g i)) xs) (f i) = Some (g i)"
  using assms
proof (induction xs)
  case (Cons a xs)
  show ?case
  proof (cases "a = i")
    case False
    then have "f a \<noteq> f i" using inj_onD [OF Cons.prems(1), of a i] Cons.prems(2) by auto
    moreover have "map_of (map (\<lambda>i. (f i, g i)) xs) (f i) = Some (g i)"
      using Cons False by (intro Cons.IH) simp_all
    ultimately show ?thesis by simp
  qed simp
qed simp

lemma map_of_entries_None:
  "(\<And>i. i \<in> set xs \<Longrightarrow> f i \<noteq> k) \<Longrightarrow> map_of (map (\<lambda>i. (f i, g i)) xs) k = None"
  by (induction xs) auto

lemma a_orders_view:
  assumes wf: "wf_core N E v" "wf_maps v"
  shows "a_orders (v_abs v) oid = map_option (\<lambda>i. o_qty (v_ord v i)) (v_om v oid)"
proof -
  let ?Q = "concat (map (v_queue v) (v_lad v kBid @ v_lad v kAsk))"
  let ?es = "map (\<lambda>i. (order_id (v_ord v i), o_qty (v_ord v i))) ?Q"
  have all: "(\<Union>s. set (v_lad v s)) = set (v_lad v kBid) \<union> set (v_lad v kAsk)"
  proof -
    have "s \<in> {kBid, kAsk, kCount}" for s by (cases s) simp_all
    then have U: "UNIV = {kBid, kAsk, kCount}" by (rule UNIV_eq_I)
    show ?thesis unfolding U using wf_coreD(2) [OF wf(1)] by simp
  qed
  have "concat (map snd (v_abs v s)) =
      map (\<lambda>i. (order_id (v_ord v i), o_qty (v_ord v i))) (concat (map (v_queue v) (v_lad v s)))" for s
    unfolding v_abs_def v_entry_def by (simp add: map_concat comp_def)
  then have es: "a_orders (v_abs v) = map_of ?es" by (simp add: a_orders_def)
  have Q: "set ?Q = v_ao v"
    unfolding wf_coreD(7) [OF wf(1)] wf_coreD(3) [OF wf(1)] all by auto
  have inj: "inj_on (\<lambda>i. order_id (v_ord v i)) (set ?Q)"
    unfolding Q using wf_id_unique [OF wf(2)] by (intro inj_onI) metis
  show ?thesis
  proof (cases "v_om v oid")
    case (Some i)
    then have "i \<in> set ?Q" "oid = order_id (v_ord v i)" using wf_mapsD(1) [OF wf(2), of oid i] Q by auto
    then show ?thesis using map_of_entries [OF inj] es Some by simp
  next
    case None
    then have "order_id (v_ord v i) \<noteq> oid" if "i \<in> set ?Q" for i
      using wf_mapsD(1) [OF wf(2), of oid i] that unfolding Q by auto
    then have "map_of ?es oid = None" by (rule map_of_entries_None)
    then show ?thesis using None es by simp
  qed
qed

lemma a_remove_absent:
  assumes wf: "wf_core N {} v" "wf_maps v" and "v_om v oid = None"
  shows "a_remove oid (v_abs v s) = v_abs v s"
proof -
  have "order_id (v_ord v i) \<noteq> oid" if "l \<in> set (v_lad v s)" "i \<in> set (v_queue v l)" for l i
    using wf_mapsD(1) [OF wf(2), of oid i] wf_queue_ao [OF wf(1) that] assms(3) by auto
  then have m: "map (\<lambda>(p, es). (p, filter (\<lambda>e. fst e \<noteq> oid) es)) (v_abs v s) = v_abs v s"
    unfolding v_abs_def by (simp add: v_entry_def)
  show ?thesis
    unfolding a_remove_def m filter_id_conv using wf_coreD(6) [OF wf(1), of _ s]
    by (auto simp: v_abs_def)
qed

end
