(* ===== verification/OrderBookCorrect.thy ===== *)
theory OrderBookCorrect
  imports OrderBookSpec
begin

text \<open>
  The operations of the order book are correct: from a well-formed book none of them aborts,
  each keeps the book well-formed, and each acts on the abstract book as its specification.
\<close>

section \<open>The invariant of the book\<close>

definition book_shape :: "nat \<Rightarrow> nat \<Rightarrow> OrderBook \<Rightarrow> bool" where
  "book_shape M N b \<longleftrightarrow> ob_max_orders b = M \<and> ob_max_levels b = N \<and>
     length (ob_order_slots b) = M \<and> length (ob_level_slots b) = N \<and>
     ifs_inv (ob_order_free b) \<and> ifs_capacity (ob_order_free b) = M \<and>
     ifs_inv (ob_level_free b) \<and> ifs_capacity (ob_level_free b) = N \<and>
     hm_inv (ob_order_map b) \<and> (\<forall>s. s \<noteq> kCount \<longrightarrow> hm_inv (ob_level_map b s))"

definition view :: "OrderBook \<Rightarrow> bview" where
  "view b = \<lparr>v_lad = (\<lambda>s. if s = kCount then [] else ob_ladder b s),
     v_lvl = (\<lambda>l. ob_level_slots b ! l), v_ord = (\<lambda>i. ob_order_slots b ! i),
     v_om = hm_lookup (ob_order_map b), v_lm = (\<lambda>s. hm_lookup (ob_level_map b s)),
     v_ao = ifs_allocated (ob_order_free b), v_al = ifs_allocated (ob_level_free b)\<rparr>"

definition book_inv :: "nat \<Rightarrow> nat \<Rightarrow> OrderBook \<Rightarrow> bool" where
  "book_inv M N b \<longleftrightarrow> book_shape M N b \<and> wf_core N {} (view b) \<and> wf_maps (view b)"

definition book_abs :: "OrderBook \<Rightarrow> Side \<Rightarrow> alevel list" where
  "book_abs b = v_abs (view b)"

lemma view_sel:
  "v_lvl (view b) l = ob_level_slots b ! l" "v_ord (view b) i = ob_order_slots b ! i"
  "s \<noteq> kCount \<Longrightarrow> v_lad (view b) s = ob_ladder b s" "v_om (view b) = hm_lookup (ob_order_map b)"
  "v_lm (view b) s = hm_lookup (ob_level_map b s)" "v_ao (view b) = ifs_allocated (ob_order_free b)"
  "v_al (view b) = ifs_allocated (ob_level_free b)"
  by (simp_all add: view_def)

lemma book_shapeD:
  assumes "book_shape M N b"
  shows "ob_max_orders b = M" "ob_max_levels b = N" "length (ob_order_slots b) = M"
    "length (ob_level_slots b) = N" "ifs_inv (ob_order_free b)" "ifs_capacity (ob_order_free b) = M"
    "ifs_inv (ob_level_free b)" "ifs_capacity (ob_level_free b) = N" "hm_inv (ob_order_map b)"
    "\<And>s. s \<noteq> kCount \<Longrightarrow> hm_inv (ob_level_map b s)"
  using assms unfolding book_shape_def by simp_all

lemma book_invD:
  assumes "book_inv M N b"
  shows "book_shape M N b" "wf_core N {} (view b)" "wf_maps (view b)"
  using assms unfolding book_inv_def by simp_all

lemma side_index_valid [simp]: "s \<noteq> kCount \<Longrightarrow> side_index s \<bind> f = f (if s = kBid then 0 else 1)"
  by (cases s) (simp_all add: side_index_def)

subsection \<open>Field updates and the view\<close>

lemma set_level_fields [simp]:
  "ob_order_slots (set_level l f b) = ob_order_slots b" "ob_order_map (set_level l f b) = ob_order_map b"
  "ob_level_map (set_level l f b) = ob_level_map b"
  by (simp_all add: set_level_def)

lemma set_order_fields [simp]:
  "ob_level_slots (set_order i f b) = ob_level_slots b" "ob_order_map (set_order i f b) = ob_order_map b"
  "ob_level_map (set_order i f b) = ob_level_map b"
  by (simp_all add: set_order_def)

lemma shape_set_order [simp]: "book_shape M N (set_order i f b) = book_shape M N b"
  by (simp add: book_shape_def set_order_def)

lemma shape_set_level [simp]: "book_shape M N (set_level i f b) = book_shape M N b"
  by (simp add: book_shape_def set_level_def)

lemma shape_set_ladder [simp]: "book_shape M N (set_ladder s xs b) = book_shape M N b"
  by (simp add: book_shape_def set_ladder_def)

lemma shape_order_map: "book_shape M N b \<Longrightarrow> hm_inv m \<Longrightarrow> book_shape M N (b\<lparr>ob_order_map := m\<rparr>)"
  by (simp add: book_shape_def)

lemma shape_set_level_map: "book_shape M N b \<Longrightarrow> hm_inv m \<Longrightarrow> book_shape M N (set_level_map s m b)"
  by (simp add: book_shape_def set_level_map_def)

lemma view_set_order:
  "book_shape M N b \<Longrightarrow> i < M \<Longrightarrow>
    view (set_order i f b) = (view b)\<lparr>v_ord := (v_ord (view b))(i := f (v_ord (view b) i))\<rparr>"
  by (auto simp: view_def set_order_def book_shape_def ob_ladder_def fun_eq_iff)

lemma view_set_level:
  "book_shape M N b \<Longrightarrow> l < N \<Longrightarrow>
    view (set_level l f b) = (view b)\<lparr>v_lvl := (v_lvl (view b))(l := f (v_lvl (view b) l))\<rparr>"
  by (auto simp: view_def set_level_def book_shape_def ob_ladder_def fun_eq_iff)

lemma view_set_ladder:
  assumes "s \<noteq> kCount"
  shows "view (set_ladder s xs b) = (view b)\<lparr>v_lad := (v_lad (view b))(s := xs)\<rparr>"
proof -
  have "v_lad (view (set_ladder s xs b)) t = ((v_lad (view b))(s := xs)) t" for t
    using assms by (cases s; cases t) (auto simp: view_def set_ladder_def ob_ladder_def)
  then have "v_lad (view (set_ladder s xs b)) = (v_lad (view b))(s := xs)" by (rule ext)
  then show ?thesis by (simp add: view_def set_ladder_def)
qed

lemma view_set_level_map:
  "view (set_level_map s m b) = (view b)\<lparr>v_lm := (v_lm (view b))(s := hm_lookup m)\<rparr>"
  by (auto simp: view_def set_level_map_def ob_ladder_def fun_eq_iff)

lemma view_order_map:
  "view (b\<lparr>ob_order_map := m\<rparr>) = (view b)\<lparr>v_om := hm_lookup m\<rparr>"
  by (auto simp: view_def ob_ladder_def fun_eq_iff)

lemma order_linked_view:
  "book_shape M N b \<Longrightarrow> order_linked b i \<longleftrightarrow> (\<exists>l < N. i \<in> set (v_queue (view b) l))"
  by (simp add: order_linked_def list_ex_length view_sel book_shape_def)

lemma level_linked_view:
  "level_linked b l \<longleftrightarrow> (\<exists>s. l \<in> set (v_lad (view b) s))"
proof -
  have "(\<exists>s. P s) \<longleftrightarrow> P kBid \<or> P kAsk \<or> P kCount" for P by (metis Side.exhaust)
  then show ?thesis by (simp add: level_linked_def view_def ob_ladder_def)
qed

subsection \<open>Pool management\<close>

lemma ifs_allocated_pop:
  assumes "ifs_stack s = i # ifs_stack t" "ifs_capacity t = ifs_capacity s" "i < ifs_capacity s"
    "i \<notin> set (ifs_stack t)"
  shows "ifs_allocated t = insert i (ifs_allocated s)" "i \<notin> ifs_allocated s"
  using assms by (auto simp: ifs_allocated_def)

lemma alloc_order_cases:
  assumes sh: "book_shape M N b"
  obtains (none) "alloc_order b = (None, b)" "v_ao (view b) = {..<M}"
  | (some) i b' where "alloc_order b = (Some i, b')" "book_shape M N b'" "i < M" "i \<notin> v_ao (view b)"
      "view b' = (view b)\<lparr>v_ao := insert i (v_ao (view b))\<rparr>" "ob_order_map b' = ob_order_map b"
      "ob_level_map b' = ob_level_map b"
  using book_shapeD(5) [OF sh]
proof (cases rule: ifs.popE)
  case none
  then have "alloc_order b = (None, b)" by (simp add: alloc_order_def)
  then show thesis using none that(1) book_shapeD(6) [OF sh] by (simp add: view_sel ifs_allocated_def)
next
  case (some i s')
  then show thesis
    using sh ifs_allocated_pop [of "ob_order_free b" i s']
    by (intro that(2) [of i "b\<lparr>ob_order_free := s'\<rparr>"])
       (auto simp: alloc_order_def book_shape_def view_def ob_ladder_def fun_eq_iff)
qed

lemma alloc_level_cases:
  assumes sh: "book_shape M N b"
  obtains (none) "alloc_level b = (None, b)" "v_al (view b) = {..<N}"
  | (some) l b' where "alloc_level b = (Some l, b')" "book_shape M N b'" "l < N" "l \<notin> v_al (view b)"
      "view b' = (view b)\<lparr>v_al := insert l (v_al (view b))\<rparr>" "ob_level_map b' = ob_level_map b"
      "ob_order_map b' = ob_order_map b"
  using book_shapeD(7) [OF sh]
proof (cases rule: ifs.popE)
  case none
  then have "alloc_level b = (None, b)" by (simp add: alloc_level_def)
  then show thesis using none that(1) book_shapeD(8) [OF sh] by (simp add: view_sel ifs_allocated_def)
next
  case (some i s')
  then show thesis
    using sh ifs_allocated_pop [of "ob_level_free b" i s']
    by (intro that(2) [of i "b\<lparr>ob_level_free := s'\<rparr>"])
       (auto simp: alloc_level_def book_shape_def view_def ob_ladder_def fun_eq_iff)
qed

lemma free_order_ok:
  assumes sh: "book_shape M N b" and i: "i \<in> v_ao (view b)"
    and un: "\<And>l. l < N \<Longrightarrow> i \<notin> set (v_queue (view b) l)"
  obtains b' where "free_order b i = Some b'" "book_shape M N b'"
    "view b' = (view b)\<lparr>v_ord := (v_ord (view b))(i := (v_ord (view b) i)\<lparr>o_level := None\<rparr>),
                        v_ao := v_ao (view b) - {i}\<rparr>"
    "ob_order_map b' = ob_order_map b" "ob_level_map b' = ob_level_map b"
proof -
  have i': "i < M" "i \<notin> set (ifs_stack (ob_order_free b))"
    using i sh by (auto simp: view_sel ifs_allocated_def book_shape_def)
  obtain f where f: "ifs_push (ob_order_free b) i = Some f" "ifs_inv f"
    "ifs_stack f = i # ifs_stack (ob_order_free b)" "ifs_capacity f = ifs_capacity (ob_order_free b)"
    using ifs.pushE [of "ob_order_free b" i] i' book_shapeD(5,6) [OF sh] by metis
  let ?b = "(set_order i (\<lambda>x. x\<lparr>o_level := None\<rparr>) b)\<lparr>ob_order_free := f\<rparr>"
  have "free_order b i = Some ?b"
    using order_linked_view [OF sh, of i] un i' f(1) book_shapeD(1) [OF sh]
    by (auto simp: free_order_def outcome_simps set_order_def Let_def)
  moreover have "book_shape M N ?b" using sh f by (simp add: book_shape_def set_order_def)
  moreover have "view ?b = (view b)\<lparr>v_ord := (v_ord (view b))(i := (v_ord (view b) i)\<lparr>o_level := None\<rparr>),
                        v_ao := v_ao (view b) - {i}\<rparr>"
    using f(3,4) i' sh
    by (auto simp: view_def set_order_def ob_ladder_def ifs_allocated_def book_shape_def fun_eq_iff)
  ultimately show thesis by (rule that) (simp_all add: set_order_def)
qed

lemma free_level_ok:
  assumes sh: "book_shape M N b" and l: "l \<in> v_al (view b)"
    and un: "\<And>s. l \<notin> set (v_lad (view b) s)" and q: "v_queue (view b) l = []"
  obtains b' where "free_level b l = Some b'" "book_shape M N b'"
    "view b' = (view b)\<lparr>v_al := v_al (view b) - {l}\<rparr>"
    "ob_order_map b' = ob_order_map b" "ob_level_map b' = ob_level_map b"
proof -
  have l': "l < N" "l \<notin> set (ifs_stack (ob_level_free b))"
    using l sh by (auto simp: view_sel ifs_allocated_def book_shape_def)
  obtain f where f: "ifs_push (ob_level_free b) l = Some f" "ifs_inv f"
    "ifs_stack f = l # ifs_stack (ob_level_free b)" "ifs_capacity f = ifs_capacity (ob_level_free b)"
    using ifs.pushE [of "ob_level_free b" l] l' book_shapeD(7,8) [OF sh] by metis
  let ?b = "b\<lparr>ob_level_free := f\<rparr>"
  have "free_level b l = Some ?b"
    using level_linked_view [of b l] un l' f(1) q book_shapeD(2) [OF sh]
    by (auto simp: free_level_def outcome_simps view_sel)
  moreover have "book_shape M N ?b" using sh f by (simp add: book_shape_def)
  moreover have "view ?b = (view b)\<lparr>v_al := v_al (view b) - {l}\<rparr>"
    using f(3,4) l' sh by (auto simp: view_def ob_ladder_def ifs_allocated_def book_shape_def fun_eq_iff)
  ultimately show thesis by (rule that) simp_all
qed

subsection \<open>Level management\<close>

lemma find_insert_before:
  "(case List.find P xs of Some it \<Rightarrow> il_seq_insert_before it l xs | None \<Rightarrow> xs @ [l]) =
     takeWhile (\<lambda>k. \<not> P k) xs @ l # dropWhile (\<lambda>k. \<not> P k) xs"
proof (induction xs)
  case (Cons x xs)
  show ?case
  proof (cases "P x")
    case False
    have "it \<noteq> x" if "List.find P xs = Some it" for it
      using that False by (auto simp: find_Some_iff)
    then show ?thesis
      using Cons False by (auto simp: il_seq_insert_before_def split: option.splits)
  qed (simp add: il_seq_insert_before_def)
qed simp

lemma insert_level_sorted_ok:
  assumes "s \<noteq> kCount" "\<And>t. l \<notin> set (v_lad (view b) t)"
  shows "insert_level_sorted b s l =
    Some (set_ladder s (ladder_put (\<lambda>k. pl_price (ob_level_slots b ! k)) s l (ob_ladder b s)) b)"
proof -
  let ?p = "\<lambda>k. pl_price (ob_level_slots b ! k)"
  have un: "\<not> level_linked b l" using assms(2) by (simp add: level_linked_view)
  have "ladder_put ?p s l (ob_ladder b s) =
    (case List.find (\<lambda>it. better s (?p l) (?p it)) (ob_ladder b s) of
       Some it \<Rightarrow> il_seq_insert_before it l (ob_ladder b s) | None \<Rightarrow> ob_ladder b s @ [l])"
    unfolding find_insert_before ladder_put_def ..
  then show ?thesis
    using un by (auto simp: insert_level_sorted_def outcome_simps better_def Let_def split: option.splits)
qed

lemma find_or_create_level_cases:
  assumes sh: "book_shape M N b" and s: "s \<noteq> kCount"
    and al: "v_al (view b) = (\<Union>s. set (v_lad (view b) s))"
    and dead: "\<forall>l < N. l \<notin> v_al (view b) \<longrightarrow> v_queue (view b) l = []"
  obtains (found) l where "find_or_create_level b s p = Some (Some l, b)" "v_lm (view b) s p = Some l"
  | (full) b' l x where "find_or_create_level b s p = Some (None, b')" "book_shape M N b'"
      "ob_order_map b' = ob_order_map b" "v_lm (view b) s p = None"
      "v_al (view b) = {..<N} \<or> hm_full (ob_level_map b s)"
      "view b' = view b \<or> l \<notin> v_al (view b) \<and> pl_orders x = [] \<and> view b' = (view b)\<lparr>v_lvl := (v_lvl (view b))(l := x)\<rparr>"
  | (new) b' l where "find_or_create_level b s p = Some (Some l, b')" "book_shape M N b'"
      "ob_order_map b' = ob_order_map b" "v_lm (view b) s p = None" "l \<notin> v_al (view b)" "l < N"
      "view b' = v_open s p l (view b)"
proof (cases "v_lm (view b) s p")
  case (Some l)
  then show thesis
    using found hmap.find [OF book_shapeD(10) [OF sh s], of p] s
    by (simp add: find_or_create_level_def view_sel)
next
  case None
  then have find: "hm_find (ob_level_map b s) p = Some None"
    using hmap.find [OF book_shapeD(10) [OF sh s], of p] by (simp add: view_sel)
  show thesis
    using sh
  proof (cases rule: alloc_level_cases)
    case none
    then show thesis
      using full [of b 0] find sh None s by (simp add: find_or_create_level_def)
  next
    case (some l b1)
    let ?f = "\<lambda>x. x\<lparr>pl_price := p, pl_total_qty := 0, pl_side := s\<rparr>"
    let ?b2 = "set_level l ?f b1"
    have sh2: "book_shape M N ?b2" using some by simp
    have v2: "view ?b2 = (view b)\<lparr>v_al := insert l (v_al (view b)),
        v_lvl := (v_lvl (view b))(l := ?f (v_lvl (view b) l))\<rparr>"
      using view_set_level [OF some(2,3)] some(5) by simp
    have un: "l \<notin> set (v_lad (view b) t)" for t using al some(4) by blast
    have ql: "v_queue (view b) l = []" using dead some(3,4) by blast
    show thesis
      using book_shapeD(10) [OF sh2 s]
    proof (rule hmap.insertE [of _ p l])
      assume ins: "hm_insert (ob_level_map ?b2 s) p l = Some (False, ob_level_map ?b2 s)"
        and full_map: "hm_lookup (ob_level_map ?b2 s) p \<noteq> None \<or> hm_full (ob_level_map ?b2 s)"
      let ?b3 = "set_level_map s (ob_level_map ?b2 s) ?b2"
      have b3: "?b3 = ?b2" by (simp add: set_level_map_def)
      obtain b4 where b4: "free_level ?b2 l = Some b4" "book_shape M N b4"
        "view b4 = (view ?b2)\<lparr>v_al := v_al (view ?b2) - {l}\<rparr>" "ob_order_map b4 = ob_order_map ?b2"
        by (rule free_level_ok [OF sh2, of l]) (use un ql in \<open>auto simp: v2\<close>)
      show thesis
      proof (rule full [of b4 l "?f (v_lvl (view b) l)"])
        show "find_or_create_level b s p = Some (None, b4)"
          using find some(1) ins b3 b4(1) s by (simp add: find_or_create_level_def Let_def)
        show "book_shape M N b4" by fact
        show "ob_order_map b4 = ob_order_map b" using b4(4) some(7) by (simp add: set_level_def)
        show "v_lm (view b) s p = None" by fact
        then show "v_al (view b) = {..<N} \<or> hm_full (ob_level_map b s)"
          using full_map some(6) by (simp add: view_sel)
        show "view b4 = view b \<or> l \<notin> v_al (view b) \<and> pl_orders (?f (v_lvl (view b) l)) = [] \<and>
          view b4 = (view b)\<lparr>v_lvl := (v_lvl (view b))(l := ?f (v_lvl (view b) l))\<rparr>"
          using b4(3) v2 some(4) ql by simp
      qed
    next
      fix m assume ins: "hm_insert (ob_level_map ?b2 s) p l = Some (True, m)" "hm_inv m"
        "hm_lookup m = (hm_lookup (ob_level_map ?b2 s))(p \<mapsto> l)"
      let ?b3 = "set_level_map s m ?b2"
      have lm2: "hm_lookup (ob_level_map ?b2 s) = v_lm (view b) s"
        using some(6) by (simp add: view_sel set_level_def)
      have v3: "view ?b3 = (view ?b2)\<lparr>v_lm := (v_lm (view b))(s := (v_lm (view b) s)(p \<mapsto> l))\<rparr>"
        using view_set_level_map [of s m ?b2] ins(3) lm2 v2 by simp
      have un3: "l \<notin> set (v_lad (view ?b3) t)" for t using un v3 v2 by simp
      let ?b4 = "set_ladder s (ladder_put (\<lambda>k. pl_price (ob_level_slots ?b3 ! k)) s l (ob_ladder ?b3 s)) ?b3"
      note i4 = insert_level_sorted_ok [OF s, where b = ?b3, OF un3]
      have pr: "(\<lambda>k. pl_price (ob_level_slots ?b3 ! k)) = v_price (view ?b3)"
        and ld: "ob_ladder ?b3 s = v_lad (view b) s"
        using view_sel(1) [of ?b3] view_sel(3) [OF s, of ?b3] v3 v2 by auto
      have v4: "view ?b4 = v_open s p l (view b)"
        unfolding view_set_ladder [OF s] pr ld using v3 v2 by (simp add: v_open_def Let_def)
      show thesis
      proof (rule new [of l ?b4])
        show "find_or_create_level b s p = Some (Some l, ?b4)"
          using find some(1) ins(1) i4 s by (simp add: find_or_create_level_def Let_def)
        show "book_shape M N ?b4" using shape_set_level_map [OF sh2 ins(2)] by simp
        show "ob_order_map ?b4 = ob_order_map b"
          using some(7) by (simp add: set_level_map_def set_level_def set_ladder_def)
      qed fact+
    qed
  qed
qed

lemma remove_level_ok:
  assumes sh: "book_shape M N b" and l: "l \<in> set (v_lad (view b) s)" "pl_side (v_lvl (view b) l) = s"
    "distinct (v_lad (view b) s)" "\<And>t. t \<noteq> s \<Longrightarrow> l \<notin> set (v_lad (view b) t)"
    and al: "l \<in> v_al (view b)" and q: "v_queue (view b) l = []"
  obtains b' where "remove_level b l = Some b'" "book_shape M N b'"
    "view b' = v_close s l (view b)" "ob_order_map b' = ob_order_map b"
proof -
  have s: "s \<noteq> kCount" using l(1) by (auto simp: view_def)
  let ?b1 = "set_ladder s (remove1 l (ob_ladder b s)) b"
  have sel: "ob_level_slots b ! l = v_lvl (view b) l" by (simp add: view_sel)
  have b1: "ob_level_map ?b1 = ob_level_map b" "ob_level_slots ?b1 = ob_level_slots b"
    "ob_order_map ?b1 = ob_order_map b" by (simp_all add: set_ladder_def)
  obtain m where m: "hm_erase (ob_level_map b s) (v_price (view b) l) =
      Some (hm_lookup (ob_level_map b s) (v_price (view b) l) \<noteq> None, m)" "hm_inv m"
    "hm_lookup m = (hm_lookup (ob_level_map b s))(v_price (view b) l := None)"
    by (rule hmap.eraseE [OF book_shapeD(10) [OF sh s]])
  let ?b2 = "set_level_map s m ?b1"
  have v2: "view ?b2 = (view b)\<lparr>v_lad := (v_lad (view b))(s := remove1 l (v_lad (view b) s)),
      v_lm := (v_lm (view b))(s := (v_lm (view b) s)(v_price (view b) l := None))\<rparr>"
    unfolding view_set_level_map view_set_ladder [OF s] m(3) using view_sel(3) [OF s, of b]
    by (simp add: view_sel(5))
  have sh2: "book_shape M N ?b2" using shape_set_level_map [of M N ?b1] sh m(2) by simp
  obtain b' where b': "free_level ?b2 l = Some b'" "book_shape M N b'"
    "view b' = (view ?b2)\<lparr>v_al := v_al (view ?b2) - {l}\<rparr>" "ob_order_map b' = ob_order_map ?b2"
  proof (rule free_level_ok [OF sh2, of l])
    show "l \<notin> set (v_lad (view ?b2) t)" for t using l(3,4) by (simp add: v2)
  qed (use al q in \<open>simp_all add: v2\<close>)
  have "remove_level b l = Some b'"
    using l view_sel(3) [OF s, of b] q m(1) b'(1) s
    by (simp add: remove_level_def sel outcome_simps b1 il_seq_erase_def Let_def)
  moreover have "view b' = v_close s l (view b)" using b'(3) v2 by (simp add: v_close_def)
  ultimately show thesis using that b'(2,4) by (simp add: set_level_map_def set_ladder_def)
qed

section \<open>Removing an order\<close>

definition v_unlink :: "nat \<Rightarrow> nat \<Rightarrow> bview \<Rightarrow> bview" where
  "v_unlink i l v = v\<lparr>v_lvl := (v_lvl v)(l := (v_lvl v l)\<lparr>pl_orders := remove1 i (v_queue v l),
     pl_total_qty := pl_total_qty (v_lvl v l) - o_qty (v_ord v i)\<rparr>)\<rparr>"

lemma v_unlink_simps [simp]:
  "v_lad (v_unlink i l v) = v_lad v" "v_al (v_unlink i l v) = v_al v" "v_ord (v_unlink i l v) = v_ord v"
  "v_lm (v_unlink i l v) = v_lm v" "v_ao (v_unlink i l v) = v_ao v" "v_om (v_unlink i l v) = v_om v"
  "v_price (v_unlink i l v) m = v_price v m" "pl_side (v_lvl (v_unlink i l v) m) = pl_side (v_lvl v m)"
  "v_queue (v_unlink i l v) m = (if m = l then remove1 i (v_queue v l) else v_queue v m)"
  by (simp_all add: v_unlink_def)

lemma unlink_order_ok:
  assumes "book_shape M N b" "l < N" "i \<in> set (v_queue (view b) l)"
  obtains b' where "unlink_order b l i = Some b'" "book_shape M N b'"
    "view b' = v_unlink i l (view b)" "ob_order_map b' = ob_order_map b"
proof -
  let ?f = "\<lambda>x. x\<lparr>pl_orders := il_seq_erase i (pl_orders x)\<rparr>"
  let ?g = "\<lambda>x. x\<lparr>pl_total_qty := pl_total_qty x - o_qty (ob_order_slots (set_level l ?f b) ! i)\<rparr>"
  let ?b = "set_level l ?g (set_level l ?f b)"
  have "unlink_order b l i = Some ?b"
    using assms(3) by (simp add: unlink_order_def outcome_simps view_sel Let_def)
  moreover have "view ?b = v_unlink i l (view b)"
    using view_set_level [OF assms(1,2), of ?f] view_set_level [of M N "set_level l ?f b" l ?g] assms(1,2)
    by (simp add: v_unlink_def il_seq_erase_def view_sel(2))
  ultimately show thesis using that assms(1) by simp
qed

text \<open>Once unlinked, an order is in no queue at all.\<close>

lemma unlinked_everywhere:
  assumes wf: "wf_core N E v" and l: "l \<in> set (v_lad v s)" and i: "i \<in> set (v_queue v l)" and m: "m < N"
  shows "i \<notin> set (v_queue (v_unlink i l v) m)"
  using wf_queue_unique [OF wf l i m] level_okD(2) [OF wf_coreD(5) [OF wf l]] by auto

lemma queue_remove1_empty_iff: "i \<in> set q \<Longrightarrow> remove1 i q = [] \<longleftrightarrow> q = [i]"
  by (cases q) auto

text \<open>\<open>remove_level\<close> on a level whose queue an unlink has just emptied.\<close>

lemma remove_emptied_level:
  assumes sh: "book_shape M N b'" and wf: "wf_core N {} v" and l: "l \<in> set (v_lad v s)"
    and same: "v_lad (view b') = v_lad v" "v_al (view b') = v_al v" "v_lvl (view b') = v_lvl (v_unlink i l v)"
    and q: "v_queue v l = [i]"
  obtains b'' where "remove_level b' l = Some b''" "book_shape M N b''"
    "view b'' = v_close s l (view b')" "ob_order_map b'' = ob_order_map b'"
proof (rule remove_level_ok [OF sh, of l s])
  show "l \<in> set (v_lad (view b') s)" "l \<in> v_al (view b')" "distinct (v_lad (view b') s)"
    using l wf_lad_al [OF wf l] wf_lad_distinct [OF wf] same by simp_all
  show "pl_side (v_lvl (view b') l) = s" "v_queue (view b') l = []"
    using level_okD(1) [OF wf_coreD(5) [OF wf l]] q same by simp_all
  show "l \<notin> set (v_lad (view b') t)" if "t \<noteq> s" for t
    using wf_lad_side [OF wf l] that same by auto
qed (use that in blast)

lemma cancel_found_drop:
  assumes inv: "book_inv M N b" and l: "l \<in> set (v_lad (view b) s)" and i: "i \<in> set (v_queue (view b) l)"
  obtains b' where "cancel_found b (order_id (v_ord (view b) i)) i = Some (True, b')"
    "book_shape M N b'" "view b' = v_drop s i l (view b)"
proof -
  let ?v = "view b" and ?oid = "order_id (v_ord (view b) i)"
  note sh = book_invD(1) [OF inv] and wf = book_invD(2) [OF inv]
  have lev: "o_level (ob_order_slots b ! i) = Some l"
    using level_okD(4) [OF wf_coreD(5) [OF wf l] i] by (simp add: view_sel)
  have iao: "i \<in> v_ao ?v" by (rule wf_queue_ao [OF wf l i])
  obtain b1 where b1: "unlink_order b l i = Some b1" "book_shape M N b1" "view b1 = v_unlink i l ?v"
    "ob_order_map b1 = ob_order_map b"
    by (rule unlink_order_ok [OF sh wf_lad_bound [OF wf l] i])
  have q1: "pl_orders (ob_level_slots b1 ! l) = remove1 i (v_queue ?v l)"
    unfolding view_sel(1) [of b1 l, symmetric] b1(3) by simp
  obtain b2 where b2: "(if pl_orders (ob_level_slots b1 ! l) = [] then remove_level b1 l else Some b1) = Some b2"
    "book_shape M N b2" "ob_order_map b2 = ob_order_map b1"
    "view b2 = (if v_queue ?v l = [i] then v_close s l (view b1) else view b1)"
  proof (cases "v_queue ?v l = [i]")
    case True
    then obtain b'' where "remove_level b1 l = Some b''" "book_shape M N b''"
      "view b'' = v_close s l (view b1)" "ob_order_map b'' = ob_order_map b1"
      using b1 by (elim remove_emptied_level [OF b1(2) wf l, rotated 4]) simp_all
    then show thesis using that True q1 by simp
  next
    case False
    then show thesis using that b1 q1 queue_remove1_empty_iff [OF i] by simp
  qed
  obtain m where m: "hm_erase (ob_order_map b2) ?oid = Some (hm_lookup (ob_order_map b2) ?oid \<noteq> None, m)"
    "hm_inv m" "hm_lookup m = (hm_lookup (ob_order_map b2))(?oid := None)"
    by (rule hmap.eraseE [OF book_shapeD(9) [OF b2(2)]])
  let ?b3 = "b2\<lparr>ob_order_map := m\<rparr>"
  have v3: "view ?b3 = (if v_queue ?v l = [i] then v_close s l (v_unlink i l ?v) else v_unlink i l ?v)
      \<lparr>v_om := (v_om ?v)(?oid := None)\<rparr>"
    unfolding view_order_map m(3) using b1(3,4) b2(3,4) by (auto simp: view_sel(4))
  have un: "i \<notin> set (v_queue (view ?b3) k)" if "k < N" for k
    using unlinked_everywhere [OF wf l i that] v3 by (auto split: if_splits)
  have "i \<in> v_ao (view ?b3)" using iao v3 by simp
  from free_order_ok [OF shape_order_map [OF b2(2) m(2)] this un]
  obtain b4 where b4: "free_order ?b3 i = Some b4" "book_shape M N b4"
    "view b4 = (view ?b3)\<lparr>v_ord := (v_ord (view ?b3))(i := (v_ord (view ?b3) i)\<lparr>o_level := None\<rparr>),
                          v_ao := v_ao (view ?b3) - {i}\<rparr>" by blast
  have "cancel_found b ?oid i = Some (True, b4)"
    using lev b1(1) b2(1) m(1) b4(1) by (simp add: cancel_found_def)
  moreover have "view b4 = v_drop s i l ?v"
    unfolding b4(3) v3 by (simp add: v_drop_def v_close_def v_take_def v_unlink_def)
  ultimately show thesis using that b4(2) by blast
qed

lemma wf_dead_order:
  assumes wf: "wf_core N E v" "wf_maps v" and i: "i \<notin> v_ao v"
  shows "wf_core N E (v\<lparr>v_ord := (v_ord v)(i := x)\<rparr>)" "wf_maps (v\<lparr>v_ord := (v_ord v)(i := x)\<rparr>)"
    "v_abs (v\<lparr>v_ord := (v_ord v)(i := x)\<rparr>) = v_abs v"
proof -
  let ?w = "v\<lparr>v_ord := (v_ord v)(i := x)\<rparr>"
  have fr: "i \<notin> set (v_queue v m)" if "m \<in> set (v_lad v t)" for m t
    using wf_queue_ao [OF wf(1) that] i by blast
  have ok: "level_ok ?w t m = level_ok v t m" if "m \<in> set (v_lad v t)" for m t
    using fr [OF that] by (intro level_ok_cong) auto
  note D = wf_coreD [OF wf(1)]
  show "wf_core N E ?w"
  proof (rule wf_coreI)
    show "sorted_wrt (better t) (map (v_price ?w) (v_lad ?w t))" for t using D(1) by simp
    show "v_lad ?w kCount = []" "v_al ?w = (\<Union>s. set (v_lad ?w s))" "v_al ?w \<subseteq> {..<N}"
      "v_ao ?w = (\<Union>m \<in> v_al ?w. set (v_queue ?w m))"
      using D(2,3,4,7) by simp_all
    show "level_ok ?w t m" if "m \<in> set (v_lad ?w t)" for t m using that ok D(5) by simp
    show "m \<in> E" if "m \<in> set (v_lad ?w t)" "v_queue ?w m = []" for t m using that D(6) by simp
    show "v_queue ?w m = []" if "m < N" "m \<notin> v_al ?w" for m using that D(8) by simp
  qed
  show "wf_maps ?w" using wf(2) i unfolding wf_maps_def by simp
  have "v_entry ?w j = v_entry v j" if "m \<in> set (v_lad v t)" "j \<in> set (v_queue v m)" for m t j
    using fr that by (auto simp: v_entry_def)
  then show "v_abs ?w = v_abs v" by (intro ext) (simp add: v_abs_def)
qed

lemma wf_dead_level:
  assumes wf: "wf_core N E v" "wf_maps v" and l: "l \<notin> v_al v" and x: "pl_orders x = []"
  shows "wf_core N E (v\<lparr>v_lvl := (v_lvl v)(l := x)\<rparr>)" "wf_maps (v\<lparr>v_lvl := (v_lvl v)(l := x)\<rparr>)"
    "v_abs (v\<lparr>v_lvl := (v_lvl v)(l := x)\<rparr>) = v_abs v"
proof -
  let ?w = "v\<lparr>v_lvl := (v_lvl v)(l := x)\<rparr>"
  have nl: "m \<noteq> l" if "m \<in> set (v_lad v t)" for m t using wf_lad_al [OF wf(1) that] l by blast
  note D = wf_coreD [OF wf(1)]
  show "wf_core N E ?w"
  proof (rule wf_coreI)
    have "map (v_price ?w) (v_lad v t) = map (v_price v) (v_lad v t)" for t using nl by auto
    then show "sorted_wrt (better t) (map (v_price ?w) (v_lad ?w t))" for t
      using D(1) by (simp del: map_eq_conv)
    show "v_lad ?w kCount = []" "v_al ?w \<subseteq> {..<N}" using D(2,4) by simp_all
    show "v_al ?w = (\<Union>s. set (v_lad ?w s))" using D(3) by simp
    show "v_ao ?w = (\<Union>m \<in> v_al ?w. set (v_queue ?w m))"
      using D(7) l by (auto split: if_splits)
    show "v_queue ?w m = []" if "m < N" "m \<notin> v_al ?w" for m using D(8) that x by simp
    fix t m assume "m \<in> set (v_lad ?w t)"
    then have m: "m \<in> set (v_lad v t)" by simp
    show "level_ok ?w t m" using D(5) [OF m] nl [OF m] by (subst level_ok_cong [where v = v]) auto
    show "m \<in> E" if "v_queue ?w m = []" using D(6) [OF m] that nl [OF m] by simp
  qed
  show "wf_maps ?w" using wf(2) nl unfolding wf_maps_def by simp metis
  show "v_abs ?w = v_abs v" using nl by (intro ext) (auto simp: v_abs_def v_entry_def)
qed

lemma remove_filled_drop:
  assumes sh: "book_shape M N b" and wf: "wf_core N {} v" and v: "view b = v_requant i l 0 v"
    and l: "l \<in> set (v_lad v s)" and i: "i \<in> set (v_queue v l)"
  obtains b' where "remove_filled_order b i = Some (v_queue v l = [i], b')" "book_shape M N b'"
    "view b' = (v_drop s i l v)\<lparr>v_ord := (v_ord v)(i := (v_ord v i)\<lparr>o_qty := 0, o_level := None\<rparr>)\<rparr>"
proof -
  have lev: "o_level (ob_order_slots b ! i) = Some l"
    unfolding view_sel(2) [symmetric] v using level_okD(4) [OF wf_coreD(5) [OF wf l] i] by simp
  have oid: "order_id (ob_order_slots b' ! i) = order_id (v_ord v i)" if "view b' = v_unlink i l (view b)" for b'
    unfolding view_sel(2) [symmetric] that v by simp
  have iao: "i \<in> v_ao v" by (rule wf_queue_ao [OF wf l i])
  let ?oid = "order_id (v_ord v i)"
  obtain b1 where b1: "unlink_order b l i = Some b1" "book_shape M N b1" "view b1 = v_unlink i l (view b)"
    "ob_order_map b1 = ob_order_map b"
    by (rule unlink_order_ok [OF sh wf_lad_bound [OF wf l]]) (use i v in simp_all)
  obtain m where m: "hm_erase (ob_order_map b1) ?oid = Some (hm_lookup (ob_order_map b1) ?oid \<noteq> None, m)"
    "hm_inv m" "hm_lookup m = (hm_lookup (ob_order_map b1))(?oid := None)"
    by (rule hmap.eraseE [OF book_shapeD(9) [OF b1(2)]])
  let ?b2 = "b1\<lparr>ob_order_map := m\<rparr>"
  have v2: "view ?b2 = (v_unlink i l (v_requant i l 0 v))\<lparr>v_om := (v_om v)(?oid := None)\<rparr>"
    unfolding view_order_map m(3) b1(3,4) view_sel(4) [symmetric] v by simp
  have un: "i \<notin> set (v_queue (view ?b2) k)" if "k < N" for k
    using unlinked_everywhere [OF wf l i that] v2 by auto
  have "i \<in> v_ao (view ?b2)" using iao v2 by simp
  from free_order_ok [OF shape_order_map [OF b1(2) m(2)] this un]
  obtain b3 where b3: "free_order ?b2 i = Some b3" "book_shape M N b3"
    "view b3 = (view ?b2)\<lparr>v_ord := (v_ord (view ?b2))(i := (v_ord (view ?b2) i)\<lparr>o_level := None\<rparr>),
                          v_ao := v_ao (view ?b2) - {i}\<rparr>" by blast
  have v3: "view b3 = (v_take i l v)\<lparr>v_ord := (v_ord v)(i := (v_ord v i)\<lparr>o_qty := 0, o_level := None\<rparr>)\<rparr>"
    unfolding b3(3) v2 by (simp add: v_take_def v_requant_def v_unlink_def)
  have q3: "pl_orders (ob_level_slots b3 ! l) = remove1 i (v_queue v l)"
    unfolding view_sel(1) [of b3 l, symmetric] v3 by simp
  have step: "remove_filled_order b i =
      (if v_queue v l = [i] then do { b \<leftarrow> remove_level b3 l; Some (True, b) } else Some (False, b3))"
    using lev b1(1) m(1) b3(1) q3 oid [OF b1(3)] queue_remove1_empty_iff [OF i]
    by (simp add: remove_filled_order_def)
  show thesis
  proof (cases "v_queue v l = [i]")
    case True
    obtain b4 where "remove_level b3 l = Some b4" "book_shape M N b4" "view b4 = v_close s l (view b3)"
      by (rule remove_emptied_level [OF b3(2) wf l _ _ _ True])
         (simp_all add: v3 v_take_def v_unlink_def)
    then show thesis using that True step v3 by (simp add: v_drop_def v_close_def)
  next
    case False
    then show thesis using that step b3(2) v3 by (simp add: v_drop_def)
  qed
qed

section \<open>Cancelling and reducing\<close>

lemma has_order_ok:
  assumes "book_inv M N b"
  shows "has_order b oid = Some (a_orders (book_abs b) oid \<noteq> None)"
  using hmap.find [OF book_shapeD(9) [OF book_invD(1) [OF assms]], of oid]
    a_orders_view [OF book_invD(2,3) [OF assms], of oid]
  by (simp add: has_order_def book_abs_def view_sel)

lemma order_qty_ok:
  assumes "book_inv M N b"
  shows "order_qty b oid = Some (case a_orders (book_abs b) oid of None \<Rightarrow> 0 | Some q \<Rightarrow> q)"
  using hmap.find [OF book_shapeD(9) [OF book_invD(1) [OF assms]], of oid]
    a_orders_view [OF book_invD(2,3) [OF assms], of oid]
  by (auto simp: order_qty_def book_abs_def view_sel split: option.split)

lemma book_invI_drop:
  assumes inv: "book_inv M N b" and l: "l \<in> set (v_lad (view b) s)" "i \<in> set (v_queue (view b) l)"
    and b': "book_shape M N b'" "view b' = v_drop s i l (view b)"
  shows "book_inv M N b'" "book_abs b' = (\<lambda>s. a_remove (order_id (v_ord (view b) i)) (book_abs b s))"
  using wf_drop [OF book_invD(2,3) [OF inv] l] abs_drop [OF book_invD(2,3) [OF inv] l] b'
  by (auto simp: book_inv_def book_abs_def)

lemma cancel_found_ok:
  assumes inv: "book_inv M N b" and i: "v_om (view b) oid = Some i"
  obtains b' where "cancel_found b oid i = Some (True, b')" "book_inv M N b'"
    "book_abs b' = (\<lambda>s. a_remove oid (book_abs b s))"
proof -
  have i': "i \<in> v_ao (view b)" "order_id (v_ord (view b) i) = oid"
    using i wf_mapsD(1) [OF book_invD(3) [OF inv]] by blast+
  obtain s l where l: "l \<in> set (v_lad (view b) s)" "i \<in> set (v_queue (view b) l)"
    using wf_order_placed [OF book_invD(2) [OF inv] i'(1)] by blast
  obtain b' where "cancel_found b (order_id (v_ord (view b) i)) i = Some (True, b')"
    "book_shape M N b'" "view b' = v_drop s i l (view b)"
    by (rule cancel_found_drop [OF inv l])
  then show thesis using that book_invI_drop [OF inv l] i'(2) by simp
qed

lemma cancel_order_ok:
  assumes inv: "book_inv M N b"
  obtains b' where "cancel_order b oid = Some (a_orders (book_abs b) oid \<noteq> None, b')" "book_inv M N b'"
    "book_abs b' = (\<lambda>s. a_remove oid (book_abs b s))"
proof -
  note v = book_invD(2,3) [OF inv]
  have find: "hm_find (ob_order_map b) oid = Some (v_om (view b) oid)"
    using hmap.find [OF book_shapeD(9) [OF book_invD(1) [OF inv]]] by (simp add: view_sel)
  have ord: "a_orders (book_abs b) oid = map_option (\<lambda>i. o_qty (v_ord (view b) i)) (v_om (view b) oid)"
    using a_orders_view [OF v] by (simp add: book_abs_def)
  show thesis
  proof (cases "v_om (view b) oid")
    case None
    then have "(\<lambda>s. a_remove oid (book_abs b s)) = book_abs b"
      using a_remove_absent [OF v] by (auto simp: book_abs_def)
    then show thesis using that [of b] find ord None inv by (simp add: cancel_order_def)
  next
    case (Some i)
    then obtain b' where "cancel_found b oid i = Some (True, b')" "book_inv M N b'"
      "book_abs b' = (\<lambda>s. a_remove oid (book_abs b s))" by (rule cancel_found_ok [OF inv])
    then show thesis using that find ord Some by (simp add: cancel_order_def)
  qed
qed

lemma requant_step:
  assumes inv: "book_inv M N b" and i: "i \<in> v_ao (view b)" and q: "q \<noteq> 0"
    and l: "o_level (v_ord (view b) i) = Some l"
    and b': "b' = set_level l (\<lambda>x. x\<lparr>pl_total_qty := pl_total_qty x - (o_qty (v_ord (view b) i) - q)\<rparr>)
                  (set_order i (\<lambda>x. x\<lparr>o_qty := q\<rparr>) b)"
  shows "book_inv M N b'"
    "book_abs b' = (\<lambda>s. a_requant (order_id (v_ord (view b) i)) q (book_abs b s))"
proof -
  note sh = book_invD(1) [OF inv] and v = book_invD(2,3) [OF inv]
  obtain s where s: "l \<in> set (v_lad (view b) s)" "i \<in> set (v_queue (view b) l)"
    using wf_order_placed [OF v(1) i] l by (metis option.inject)
  have "i < M" using i sh by (auto simp: view_sel ifs_allocated_def book_shape_def)
  then have "view b' = v_requant i l q (view b)"
    unfolding b' using view_set_level [of M N "set_order i (\<lambda>x. x\<lparr>o_qty := q\<rparr>) b" l]
      view_set_order [OF sh, of i] sh wf_lad_bound [OF v(1) s(1)]
    by (simp add: v_requant_def)
  moreover have "book_shape M N b'" using sh unfolding b' by simp
  ultimately show "book_inv M N b'"
    "book_abs b' = (\<lambda>s. a_requant (order_id (v_ord (view b) i)) q (book_abs b s))"
    using wf_requant [OF v(1) s q] wf_maps_requant [OF v(2)] abs_requant [OF v i]
    by (auto simp: book_inv_def book_abs_def)
qed

lemma modify_order_ok:
  assumes inv: "book_inv M N b"
  obtains r b' where "modify_order b oid q = Some (r, b')" "book_inv M N b'"
    "r \<longleftrightarrow> (\<exists>q0. a_orders (book_abs b) oid = Some q0 \<and> q < q0)"
    "\<not> r \<Longrightarrow> b' = b"
    "r \<Longrightarrow> q = 0 \<Longrightarrow> book_abs b' = (\<lambda>s. a_remove oid (book_abs b s))"
    "r \<Longrightarrow> q \<noteq> 0 \<Longrightarrow> book_abs b' = (\<lambda>s. a_requant oid q (book_abs b s))"
proof -
  note v = book_invD(2,3) [OF inv]
  have find: "hm_find (ob_order_map b) oid = Some (v_om (view b) oid)"
    using hmap.find [OF book_shapeD(9) [OF book_invD(1) [OF inv]]] by (simp add: view_sel)
  have ord: "a_orders (book_abs b) oid = map_option (\<lambda>i. o_qty (v_ord (view b) i)) (v_om (view b) oid)"
    using a_orders_view [OF v] by (simp add: book_abs_def)
  show thesis
  proof (cases "v_om (view b) oid")
    case None
    then show thesis using that [of False b] find ord inv by (simp add: modify_order_def)
  next
    case (Some i)
    have i: "i \<in> v_ao (view b)" "order_id (v_ord (view b) i) = oid"
      using Some wf_mapsD(1) [OF v(2)] by blast+
    have sel: "ob_order_slots b ! i = v_ord (view b) i" by (simp add: view_sel)
    consider "o_qty (v_ord (view b) i) \<le> q" | "q < o_qty (v_ord (view b) i)" "q = 0"
      | "q < o_qty (v_ord (view b) i)" "q \<noteq> 0"
      using linorder_not_less by blast
    then show thesis
    proof cases
      case 1
      then show thesis using that [of False b] find ord Some inv sel by (auto simp: modify_order_def)
    next
      case 2
      obtain b' where "cancel_found b oid i = Some (True, b')" "book_inv M N b'"
        "book_abs b' = (\<lambda>s. a_remove oid (book_abs b s))" by (rule cancel_found_ok [OF inv Some])
      then show thesis using 2 that [of True b'] find ord Some sel by (auto simp: modify_order_def)
    next
      case 3
      obtain l where l: "o_level (v_ord (view b) i) = Some l"
        using wf_order_placed [OF v(1) i(1)] by blast
      have "i < M" using i(1) book_invD(1) [OF inv] by (auto simp: view_sel ifs_allocated_def book_shape_def)
      then have lev: "o_level (ob_order_slots (set_order i (\<lambda>x. x\<lparr>o_qty := q\<rparr>) b) ! i) = Some l"
        using l book_shapeD(3) [OF book_invD(1) [OF inv]] by (simp add: set_order_def view_sel)
      note st = requant_step [OF inv i(1) 3(2) l refl]
      have "modify_order b oid q = Some (True, set_level l
          (\<lambda>x. x\<lparr>pl_total_qty := pl_total_qty x - (o_qty (v_ord (view b) i) - q)\<rparr>)
          (set_order i (\<lambda>x. x\<lparr>o_qty := q\<rparr>) b))"
        using 3 find Some lev by (simp add: modify_order_def Let_def sel)
      then show thesis using st 3 ord Some i(2) by (intro that [OF _ st(1)]) auto
    qed
  qed
qed

section \<open>Adding an order\<close>

lemma link_order_view:
  assumes sh: "book_shape M N b" and il: "i < M" "l < N"
    and un: "\<And>k. k < N \<Longrightarrow> i \<notin> set (v_queue (view b) k)"
    and b1: "b1 = set_order i (\<lambda>x. x\<lparr>o_level := Some l\<rparr>) b"
    and b2: "b2 = set_level l (\<lambda>x. x\<lparr>pl_orders := pl_orders x @ [i]\<rparr>) b1"
    and b3: "b3 = set_level l (\<lambda>x. x\<lparr>pl_total_qty := pl_total_qty x + q\<rparr>) b2"
  shows "\<not> order_linked b1 i" "book_shape M N b3"
    "view b3 = (view b)\<lparr>v_ord := (v_ord (view b))(i := (v_ord (view b) i)\<lparr>o_level := Some l\<rparr>),
       v_lvl := (v_lvl (view b))(l := (v_lvl (view b) l)\<lparr>pl_orders := v_queue (view b) l @ [i],
                                      pl_total_qty := pl_total_qty (v_lvl (view b) l) + q\<rparr>)\<rparr>"
proof -
  have sh': "book_shape M N b1" "book_shape M N b2" using sh b1 b2 by simp_all
  have v1: "view b1 = (view b)\<lparr>v_ord := (v_ord (view b))(i := (v_ord (view b) i)\<lparr>o_level := Some l\<rparr>)\<rparr>"
    unfolding b1 by (rule view_set_order [OF sh il(1)])
  show "\<not> order_linked b1 i" using order_linked_view [OF sh'(1)] un v1 by simp
  show "book_shape M N b3" using sh' b3 by simp
  show "view b3 = (view b)\<lparr>v_ord := (v_ord (view b))(i := (v_ord (view b) i)\<lparr>o_level := Some l\<rparr>),
       v_lvl := (v_lvl (view b))(l := (v_lvl (view b) l)\<lparr>pl_orders := v_queue (view b) l @ [i],
                                      pl_total_qty := pl_total_qty (v_lvl (view b) l) + q\<rparr>)\<rparr>"
    using view_set_level [OF sh'(2) il(2)] view_set_level [OF sh'(1) il(2)] v1
    by (simp add: b3) (simp add: b2)
qed

text \<open>A failed \<open>add_order\<close> leaves garbage in at most one free order slot and one free level slot.\<close>

lemma book_invI_dead:
  assumes inv: "book_inv M N b" and i: "i \<notin> v_ao (view b)" and sh: "book_shape M N b'"
    and w: "w = view b \<or> l \<notin> v_al (view b) \<and> pl_orders x = [] \<and> w = (view b)\<lparr>v_lvl := (v_lvl (view b))(l := x)\<rparr>"
    and v: "view b' = w\<lparr>v_ord := (v_ord (view b))(i := y)\<rparr>"
  shows "book_inv M N b'" "book_abs b' = book_abs b"
proof -
  have "wf_core N {} w" "wf_maps w" "v_abs w = v_abs (view b)" "v_ao w = v_ao (view b)" "v_ord w = v_ord (view b)"
    using w wf_dead_level [OF book_invD(2,3) [OF inv], of l x] book_invD(2,3) [OF inv] by auto
  then show "book_inv M N b'" "book_abs b' = book_abs b"
    using wf_dead_order [of N "{}" w i y] i sh v by (auto simp: book_inv_def book_abs_def)
qed

text \<open>The three reasons for which \<open>add_order\<close> runs out of room.\<close>

definition no_room :: "nat \<Rightarrow> nat \<Rightarrow> OrderBook \<Rightarrow> Side \<Rightarrow> Price \<Rightarrow> bool" where
  "no_room M N b s p \<longleftrightarrow> v_ao (view b) = {..<M} \<or> hm_full (ob_order_map b) \<or>
     (v_lm (view b) s p = None \<and> (v_al (view b) = {..<N} \<or> hm_full (ob_level_map b s)))"

lemma add_order_alloc:
  assumes inv: "book_inv M N b" and s: "s \<noteq> kCount" and q: "q \<noteq> 0" and fresh: "v_om (view b) oid = None"
    and al: "alloc_order b = (Some i, b1)" "book_shape M N b1" "i < M" "i \<notin> v_ao (view b)"
      "view b1 = (view b)\<lparr>v_ao := insert i (v_ao (view b))\<rparr>" "ob_order_map b1 = ob_order_map b"
      "ob_level_map b1 = ob_level_map b"
  obtains r b' where "add_order b oid s p q = Some (r, b')" "book_inv M N b'"
    "r \<Longrightarrow> book_abs b' = (book_abs b)(s := a_add s p (oid, q) (book_abs b s))"
    "\<not> r \<Longrightarrow> book_abs b' = book_abs b \<and> no_room M N b s p"
proof -
  let ?v = "view b"
  note sh = book_invD(1) [OF inv] and wf = book_invD(2) [OF inv] and wm = book_invD(3) [OF inv]
  let ?f = "\<lambda>x. x\<lparr>order_id := oid, o_price := p, o_qty := q, o_side := s\<rparr>"
  let ?b2 = "set_order i ?f b1"
  have find: "hm_find (ob_order_map b) oid = Some None"
    using hmap.find [OF book_shapeD(9) [OF sh], of oid] fresh by (simp add: view_sel)
  have sh2: "book_shape M N ?b2" using al(2) by simp
  have v2: "view ?b2 = ?v\<lparr>v_ao := insert i (v_ao ?v), v_ord := (v_ord ?v)(i := ?f (v_ord ?v i))\<rparr>"
    unfolding view_set_order [OF al(2,3)] al(5) by simp
  have un: "i \<notin> set (v_queue ?v k)" if "k < N" for k by (rule wf_fresh_unlinked [OF wf al(4) that])
  show thesis
    using book_shapeD(9) [OF sh2]
  proof (rule hmap.insertE [of _ oid i])
    assume ins: "hm_insert (ob_order_map ?b2) oid i = Some (False, ob_order_map ?b2)"
      and full: "hm_lookup (ob_order_map ?b2) oid \<noteq> None \<or> hm_full (ob_order_map ?b2)"
    obtain b4 where b4: "free_order ?b2 i = Some b4" "book_shape M N b4"
      "view b4 = (view ?b2)\<lparr>v_ord := (v_ord (view ?b2))(i := (v_ord (view ?b2) i)\<lparr>o_level := None\<rparr>),
                            v_ao := v_ao (view ?b2) - {i}\<rparr>"
      by (rule free_order_ok [OF sh2, of i]) (use un in \<open>auto simp: v2\<close>)
    have same: "?b2\<lparr>ob_order_map := ob_order_map b1\<rparr> = ?b2" by (simp add: set_order_def)
    have "add_order b oid s p q = Some (False, b4)"
      using find al(1) ins b4(1) q by (simp add: add_order_def Let_def same)
    moreover have "view b4 = ?v\<lparr>v_ord := (v_ord ?v)(i := (?f (v_ord ?v i))\<lparr>o_level := None\<rparr>)\<rparr>"
      unfolding b4(3) v2 using al(4) by simp
    then have "book_inv M N b4" "book_abs b4 = book_abs b"
      using book_invI_dead [OF inv al(4) b4(2), where w = ?v] by auto
    moreover have "no_room M N b s p" using full fresh al(6) by (simp add: no_room_def view_sel)
    ultimately show thesis using that [of False b4] by simp
  next
    fix m assume ins: "hm_insert (ob_order_map ?b2) oid i = Some (True, m)" "hm_inv m"
      "hm_lookup m = (hm_lookup (ob_order_map ?b2))(oid \<mapsto> i)"
    let ?b3 = "?b2\<lparr>ob_order_map := m\<rparr>"
    have om: "hm_lookup (ob_order_map ?b2) = v_om ?v" using al(6) by (simp add: view_sel)
    have sh3: "book_shape M N ?b3" by (rule shape_order_map [OF sh2 ins(2)])
    have v3: "view ?b3 = ?v\<lparr>v_ao := insert i (v_ao ?v), v_ord := (v_ord ?v)(i := ?f (v_ord ?v i)),
        v_om := (v_om ?v)(oid \<mapsto> i)\<rparr>"
      unfolding view_order_map ins(3) om v2 by simp
    have lm3: "ob_level_map ?b3 = ob_level_map b" using al(7) by simp
    have ready: "v_al (view ?b3) = (\<Union>s. set (v_lad (view ?b3) s))"
      "\<forall>k < N. k \<notin> v_al (view ?b3) \<longrightarrow> v_queue (view ?b3) k = []"
      using wf_coreD(3,8) [OF wf] by (simp_all add: v3)
    have linked: thesis1
      if lev: "find_or_create_level ?b3 s p = Some (Some l, b4)" "book_shape M N b4" "l < N"
        and w: "view b4 = w\<lparr>v_ao := insert i (v_ao w), v_ord := (v_ord w)(i := ?f (v_ord w i)),
                             v_om := (v_om w)(oid \<mapsto> i)\<rparr>"
        and un4: "\<And>k. k < N \<Longrightarrow> i \<notin> set (v_queue w k)"
        and goal: "\<And>b'. add_order b oid s p q = Some (True, b') \<Longrightarrow> book_shape M N b' \<Longrightarrow>
          view b' = v_append i l ((?f (v_ord w i))\<lparr>o_level := Some l\<rparr>) w \<Longrightarrow> thesis1"
      for l b4 w thesis1
    proof -
      note lk = link_order_view [where q = q, OF lev(2) al(3) lev(3) _ refl refl refl]
      show thesis1
        by (rule goal [OF _ lk(2)])
           (use find al(1) ins(1) lev(1) lk q un4 in \<open>simp_all add: add_order_def Let_def outcome_simps w v_append_def\<close>)
    qed
    show thesis
      using sh3 s ready
    proof (cases rule: find_or_create_level_cases [where p = p])
      case (found l)
      have l: "l \<in> set (v_lad ?v s)" "v_price ?v l = p"
        using found(2) wf_mapsD(2) [OF wm s] by (simp_all add: v3)
      obtain b' where b': "add_order b oid s p q = Some (True, b')" "book_shape M N b'"
        "view b' = v_append i l ((?f (v_ord ?v i))\<lparr>o_level := Some l\<rparr>) ?v"
        by (rule linked [OF found(1) sh3 wf_lad_bound [OF wf l(1)], of ?v]) (use un in \<open>simp_all add: v3\<close>)
      have "book_inv M N b'"
        using wf_append [OF wf l(1) al(4)] wf_maps_append [OF wm al(4)] b' l fresh q
        by (simp add: book_inv_def)
      moreover have "book_abs b' = (book_abs b)(s := a_add s p (oid, q) (book_abs b s))"
        using abs_append [OF wf l(1) al(4)] b'(3) l(2) by (simp add: book_abs_def)
      ultimately show thesis using that [OF b'(1)] by simp
    next
      case (full b4 l x)
      obtain m' where m': "hm_erase (ob_order_map b4) oid = Some (hm_lookup (ob_order_map b4) oid \<noteq> None, m')"
        "hm_inv m'" "hm_lookup m' = (hm_lookup (ob_order_map b4))(oid := None)"
        by (rule hmap.eraseE [OF book_shapeD(9) [OF full(2)]])
      let ?b5 = "b4\<lparr>ob_order_map := m'\<rparr>"
      define w where "w = (view ?b5)\<lparr>v_ao := v_ao ?v, v_ord := v_ord ?v\<rparr>"
      have v5: "view ?b5 = (view b4)\<lparr>v_om := v_om ?v\<rparr>"
        unfolding view_order_map m'(3) full(3) using ins(3) om fresh by (simp add: fun_upd_idem)
      have w: "w = ?v \<or> l \<notin> v_al ?v \<and> pl_orders x = [] \<and> w = ?v\<lparr>v_lvl := (v_lvl ?v)(l := x)\<rparr>"
        using full(6) unfolding w_def v5 v3 by auto
      have e5: "v_ao (view ?b5) = insert i (v_ao ?v)" "v_ord (view ?b5) = (v_ord ?v)(i := ?f (v_ord ?v i))"
        using full(6) unfolding v5 v3 by auto
      have q5: "i \<notin> set (v_queue (view ?b5) k)" if "k < N" for k
        using full(6) un [OF that] unfolding v5 v3 by (auto split: if_splits)
      obtain b6 where b6: "free_order ?b5 i = Some b6" "book_shape M N b6"
        "view b6 = (view ?b5)\<lparr>v_ord := (v_ord (view ?b5))(i := (v_ord (view ?b5) i)\<lparr>o_level := None\<rparr>),
                              v_ao := v_ao (view ?b5) - {i}\<rparr>"
        by (rule free_order_ok [OF shape_order_map [OF full(2) m'(2)], of i]) (use e5(1) q5 in auto)
      have "view b6 = w\<lparr>v_ord := (v_ord ?v)(i := (?f (v_ord ?v i))\<lparr>o_level := None\<rparr>)\<rparr>"
        unfolding b6(3) e5 w_def using al(4) by simp
      note dead = book_invI_dead [OF inv al(4) b6(2) w this]
      have "add_order b oid s p q = Some (False, b6)"
        using find al(1) ins(1) full(1) m'(1) b6(1) q by (simp add: add_order_def Let_def)
      moreover have "no_room M N b s p"
        using full(4,5) lm3 by (simp add: no_room_def v3)
      ultimately show thesis using that [of False b6] dead by simp
    next
      case (new b4 l)
      let ?w = "v_open s p l ?v" and ?x = "(?f (v_ord ?v i))\<lparr>o_level := Some l\<rparr>"
      have new': "v_lm ?v s p = None" "l \<notin> v_al ?v" using new(4,5) by (simp_all add: v3)
      have np: "p \<notin> v_price ?v ` set (v_lad ?v s)"
        using new'(1) wf_mapsD(2) [OF wm s, of p] by (metis imageE option.distinct(1))
      obtain b' where b': "add_order b oid s p q = Some (True, b')" "book_shape M N b'"
        "view b' = v_append i l ?x ?w"
        by (rule linked [OF new(1,2,6), of ?w]) (use un new(7) in \<open>simp_all add: v3 v_open_def Let_def\<close>)
      have "wf_core N {l} ?w" using wf_open [OF wf new'(2) new(6) s np] by simp
      from wf_append [OF this, of l s i ?x] have "wf_core N {} (v_append i l ?x ?w)"
        using al(4) q by simp
      moreover have "wf_maps (v_append i l ?x ?w)"
        using wf_maps_open [OF wm wf new'(2,1)] wf_maps_append [of ?w i ?x] al(4) fresh by simp
      ultimately have "book_inv M N b'" using b'(2,3) by (simp add: book_inv_def)
      moreover have "book_abs b' = (book_abs b)(s := a_add s p (oid, q) (book_abs b s))"
        using abs_open_append [OF wf new'(2) new(6) s al(4) np, of ?x] b'(3) by (simp add: book_abs_def)
      ultimately show thesis using that [OF b'(1)] by simp
    qed
  qed
qed

lemma add_order_ok:
  assumes inv: "book_inv M N b" and s: "s \<noteq> kCount"
  obtains r b' where "add_order b oid s p q = Some (r, b')" "book_inv M N b'"
    "r \<Longrightarrow> q \<noteq> 0 \<and> a_orders (book_abs b) oid = None \<and>
       book_abs b' = (book_abs b)(s := a_add s p (oid, q) (book_abs b s))"
    "\<not> r \<Longrightarrow> book_abs b' = book_abs b \<and>
       (q = 0 \<or> a_orders (book_abs b) oid \<noteq> None \<or> no_room M N b s p)"
proof -
  have find: "hm_find (ob_order_map b) oid = Some (v_om (view b) oid)"
    using hmap.find [OF book_shapeD(9) [OF book_invD(1) [OF inv]]] by (simp add: view_sel)
  have ord: "a_orders (book_abs b) oid = None \<longleftrightarrow> v_om (view b) oid = None"
    using a_orders_view [OF book_invD(2,3) [OF inv]] by (simp add: book_abs_def)
  show thesis
  proof (cases "q = 0 \<or> v_om (view b) oid \<noteq> None")
    case True
    then have "add_order b oid s p q = Some (False, b)" using find by (auto simp: add_order_def)
    then show thesis using True ord inv by (intro that [of False b]) auto
  next
    case False
    show thesis
      using book_invD(1) [OF inv]
    proof (cases rule: alloc_order_cases)
      case none
      then have "add_order b oid s p q = Some (False, b)" using find False by (auto simp: add_order_def)
      then show thesis using none inv by (intro that [of False b]) (auto simp: no_room_def)
    next
      case (some i b1)
      from False have ok: "q \<noteq> 0" "v_om (view b) oid = None" by auto
      show thesis
        by (rule add_order_alloc [OF inv s ok some, of p]) (use that ord ok in blast)
    qed
  qed
qed

section \<open>Clearing the book\<close>

lemma clear_level_orders_ok:
  assumes "book_shape M N b" "l < N" "v_queue (view b) l = xs" "distinct xs" "set xs \<subseteq> v_ao (view b)"
    "\<forall>m < N. m \<noteq> l \<longrightarrow> set (v_queue (view b) m) \<inter> set xs = {}"
  shows "\<exists>b'. clear_level_orders b l = Some b' \<and> book_shape M N b' \<and>
    view b' = (view b)\<lparr>v_lvl := (v_lvl (view b))(l := (v_lvl (view b) l)\<lparr>pl_orders := []\<rparr>),
      v_ord := (\<lambda>i. if i \<in> set xs then (v_ord (view b) i)\<lparr>o_level := None\<rparr> else v_ord (view b) i),
      v_ao := v_ao (view b) - set xs\<rparr> \<and>
    ob_order_map b' = ob_order_map b \<and> ob_level_map b' = ob_level_map b"
  using assms
proof (induction xs arbitrary: b)
  case Nil
  have "(v_lvl (view b))(l := (v_lvl (view b) l)\<lparr>pl_orders := []\<rparr>) = v_lvl (view b)"
    using Nil(3) by (auto simp: fun_eq_iff)
  moreover have "pl_orders (ob_level_slots b ! l) = []" using Nil(3) by (simp add: view_sel)
  then have "clear_level_orders b l = Some b" by (subst clear_level_orders.simps) simp
  ultimately show ?case using Nil(1) by simp
next
  case (Cons i xs)
  let ?b1 = "set_level l (\<lambda>x. x\<lparr>pl_orders := xs\<rparr>) b"
  have v1: "view ?b1 = (view b)\<lparr>v_lvl := (v_lvl (view b))(l := (v_lvl (view b) l)\<lparr>pl_orders := xs\<rparr>)\<rparr>"
    by (rule view_set_level [OF Cons.prems(1,2)])
  obtain b2 where b2: "free_order ?b1 i = Some b2" "book_shape M N b2"
    "view b2 = (view ?b1)\<lparr>v_ord := (v_ord (view ?b1))(i := (v_ord (view ?b1) i)\<lparr>o_level := None\<rparr>),
                          v_ao := v_ao (view ?b1) - {i}\<rparr>"
    "ob_order_map b2 = ob_order_map ?b1" "ob_level_map b2 = ob_level_map ?b1"
    by (rule free_order_ok [of M N ?b1 i]) (use Cons.prems in \<open>auto simp: v1\<close>)
  have "\<exists>b'. clear_level_orders b2 l = Some b' \<and> book_shape M N b' \<and>
    view b' = (view b2)\<lparr>v_lvl := (v_lvl (view b2))(l := (v_lvl (view b2) l)\<lparr>pl_orders := []\<rparr>),
      v_ord := (\<lambda>i. if i \<in> set xs then (v_ord (view b2) i)\<lparr>o_level := None\<rparr> else v_ord (view b2) i),
      v_ao := v_ao (view b2) - set xs\<rparr> \<and>
    ob_order_map b' = ob_order_map b2 \<and> ob_level_map b' = ob_level_map b2"
    using Cons.prems b2(2) by (intro Cons.IH) (auto simp: b2(3) v1)
  then obtain b' where b': "clear_level_orders b2 l = Some b'" "book_shape M N b'"
    "view b' = (view b2)\<lparr>v_lvl := (v_lvl (view b2))(l := (v_lvl (view b2) l)\<lparr>pl_orders := []\<rparr>),
      v_ord := (\<lambda>i. if i \<in> set xs then (v_ord (view b2) i)\<lparr>o_level := None\<rparr> else v_ord (view b2) i),
      v_ao := v_ao (view b2) - set xs\<rparr>"
    "ob_order_map b' = ob_order_map b2" "ob_level_map b' = ob_level_map b2" by blast
  have "clear_level_orders b l = Some b'"
    using Cons.prems(3) b2(1) b'(1) by (subst clear_level_orders.simps) (simp add: view_sel)
  moreover have "view b' = (view b)\<lparr>v_lvl := (v_lvl (view b))(l := (v_lvl (view b) l)\<lparr>pl_orders := []\<rparr>),
      v_ord := (\<lambda>j. if j \<in> set (i # xs) then (v_ord (view b) j)\<lparr>o_level := None\<rparr> else v_ord (view b) j),
      v_ao := v_ao (view b) - set (i # xs)\<rparr>"
    unfolding b'(3) b2(3) v1 using Cons.prems(4) by (intro bview.equality) (auto simp: fun_eq_iff)
  moreover have "ob_order_map b' = ob_order_map b" "ob_level_map b' = ob_level_map b"
    using b'(4,5) b2(4,5) by simp_all
  ultimately show ?case using b'(2) by blast
qed

text \<open>One round of the outer loop: the front level goes, with its orders.\<close>

definition v_wipe :: "Side \<Rightarrow> nat \<Rightarrow> bview \<Rightarrow> bview" where
  "v_wipe s l v = v\<lparr>v_lad := (v_lad v)(s := remove1 l (v_lad v s)), v_al := v_al v - {l},
     v_lvl := (v_lvl v)(l := (v_lvl v l)\<lparr>pl_orders := []\<rparr>),
     v_ord := (\<lambda>i. if i \<in> set (v_queue v l) then (v_ord v i)\<lparr>o_level := None\<rparr> else v_ord v i),
     v_ao := v_ao v - set (v_queue v l)\<rparr>"

lemma wf_wipe:
  assumes wf: "wf_core N {} v" and l: "l \<in> set (v_lad v s)"
  shows "wf_core N {} (v_wipe s l v)"
proof (rule wf_coreI)
  note D = wf_coreD [OF wf]
  let ?w = "v_wipe s l v"
  have lad: "set (v_lad ?w t) = set (v_lad v t) - {l}" for t
    using wf_lad_distinct [OF wf] wf_lad_side [OF wf l] by (auto simp: v_wipe_def)
  have pr: "v_price ?w = v_price v" by (auto simp: v_wipe_def)
  have q: "v_queue ?w m = (if m = l then [] else v_queue v m)" for m by (simp add: v_wipe_def)
  have dis: "i \<notin> set (v_queue v l)" if "i \<in> set (v_queue v m)" "m \<noteq> l" "m < N" for i m
    using wf_queue_unique [OF wf l] that by blast
  show "sorted_wrt (better t) (map (v_price ?w) (v_lad ?w t))" for t
    unfolding pr using D(1) [of t] D(1) [of s] by (simp add: v_wipe_def sorted_remove1)
  show "v_lad ?w kCount = []" using D(2) l by (auto simp: v_wipe_def)
  show "v_al ?w = (\<Union>t. set (v_lad ?w t))" unfolding lad using D(3) by (auto simp: v_wipe_def)
  show "v_al ?w \<subseteq> {..<N}" using D(4) by (auto simp: v_wipe_def)
  show "v_ao ?w = (\<Union>m \<in> v_al ?w. set (v_queue ?w m))"
    unfolding q using D(4,7) dis by (auto simp: v_wipe_def)
  show "v_queue ?w m = []" if "m < N" "m \<notin> v_al ?w" for m
    unfolding q using D(8) that by (auto simp: v_wipe_def)
  fix t m assume "m \<in> set (v_lad ?w t)"
  then have m: "m \<in> set (v_lad v t)" "m \<noteq> l" unfolding lad by auto
  show "m \<in> {}" if "v_queue ?w m = []" using D(6) [OF m(1)] that m(2) unfolding q by simp
  show "level_ok ?w t m"
    using D(5) [OF m(1)] m(2) dis [OF _ m(2) wf_lad_bound [OF wf m(1)]]
    by (subst level_ok_cong [where v = v]) (auto simp: v_wipe_def)
qed

lemma clear_ladder_ok:
  assumes "book_shape M N b" "wf_core N {} (view b)" "v_lad (view b) s = ls" "s \<noteq> kCount"
  shows "\<exists>b'. clear_ladder b s = Some b' \<and> book_shape M N b' \<and> wf_core N {} (view b') \<and>
    v_lad (view b') = (v_lad (view b))(s := []) \<and> ob_level_map b' = ob_level_map b"
  using assms(1-3)
proof (induction ls arbitrary: b)
  case Nil
  then have "clear_ladder b s = Some b"
    using assms(4) by (subst clear_ladder.simps) (simp add: view_sel)
  then show ?case using Nil by (auto simp: fun_upd_idem)
next
  case (Cons l ls)
  let ?v = "view b" and ?b1 = "set_ladder s ls b"
  note wf = Cons.prems(2) and sh = Cons.prems(1)
  have l: "l \<in> set (v_lad ?v s)" using Cons.prems(3) by simp
  have v1: "view ?b1 = ?v\<lparr>v_lad := (v_lad ?v)(s := ls)\<rparr>" by (rule view_set_ladder [OF assms(4)])
  have bd: "l < N" by (rule wf_lad_bound [OF wf l])
  have "\<exists>b'. clear_level_orders ?b1 l = Some b' \<and> book_shape M N b' \<and>
    view b' = (view ?b1)\<lparr>v_lvl := (v_lvl (view ?b1))(l := (v_lvl (view ?b1) l)\<lparr>pl_orders := []\<rparr>),
      v_ord := (\<lambda>i. if i \<in> set (v_queue ?v l) then (v_ord (view ?b1) i)\<lparr>o_level := None\<rparr> else v_ord (view ?b1) i),
      v_ao := v_ao (view ?b1) - set (v_queue ?v l)\<rparr> \<and>
    ob_order_map b' = ob_order_map ?b1 \<and> ob_level_map b' = ob_level_map ?b1"
    using sh bd level_okD(2) [OF wf_coreD(5) [OF wf l]] wf_queue_ao [OF wf l] wf_queue_unique [OF wf l]
    by (intro clear_level_orders_ok) (auto simp: v1)
  then obtain b2 where b2: "clear_level_orders ?b1 l = Some b2" "book_shape M N b2"
    "view b2 = (view ?b1)\<lparr>v_lvl := (v_lvl (view ?b1))(l := (v_lvl (view ?b1) l)\<lparr>pl_orders := []\<rparr>),
      v_ord := (\<lambda>i. if i \<in> set (v_queue ?v l) then (v_ord (view ?b1) i)\<lparr>o_level := None\<rparr> else v_ord (view ?b1) i),
      v_ao := v_ao (view ?b1) - set (v_queue ?v l)\<rparr>"
    "ob_level_map b2 = ob_level_map ?b1" by blast
  have nl: "l \<notin> set (v_lad (view b2) t)" for t
    using wf_lad_distinct [OF wf, of s] Cons.prems(3) wf_lad_side [OF wf l] by (auto simp: b2(3) v1)
  obtain b3 where b3: "free_level b2 l = Some b3" "book_shape M N b3"
    "view b3 = (view b2)\<lparr>v_al := v_al (view b2) - {l}\<rparr>" "ob_level_map b3 = ob_level_map b2"
    by (rule free_level_ok [OF b2(2), of l]) (use nl wf_lad_al [OF wf l] in \<open>simp_all add: b2(3) v1\<close>)
  have v3: "view b3 = v_wipe s l ?v"
    unfolding b3(3) b2(3) v1 v_wipe_def using Cons.prems(3)
    by (intro bview.equality) (simp_all cong: if_cong)
  have "\<exists>b'. clear_ladder b3 s = Some b' \<and> book_shape M N b' \<and> wf_core N {} (view b') \<and>
    v_lad (view b') = (v_lad (view b3))(s := []) \<and> ob_level_map b' = ob_level_map b3"
    using wf_wipe [OF wf l] v3 Cons.prems(3) b3(2) by (intro Cons.IH) (simp_all add: v_wipe_def)
  then obtain b' where b': "clear_ladder b3 s = Some b'" "book_shape M N b'" "wf_core N {} (view b')"
    "v_lad (view b') = (v_lad (view b3))(s := [])" "ob_level_map b' = ob_level_map b3" by blast
  have "clear_ladder b s = Some b'"
    using Cons.prems(3) assms(4) b2(1) b3(1) b'(1) by (subst clear_ladder.simps) (simp add: view_sel(3))
  moreover have "ob_level_map ?b1 = ob_level_map b" by (simp add: set_ladder_def)
  moreover have "v_lad (view b') = (v_lad ?v)(s := [])" using b'(4) v3 by (simp add: v_wipe_def)
  ultimately show ?case using b'(2,3,5) b2(4) b3(4) by metis
qed

lemma wf_core_maps [simp]:
  "wf_core N E (v\<lparr>v_lm := f\<rparr>) = wf_core N E v" "wf_core N E (v\<lparr>v_om := g\<rparr>) = wf_core N E v"
  by (simp_all add: wf_core_def level_ok_def)

lemma clear_side_ok:
  assumes "book_shape M N b" "wf_core N {} (view b)" "s \<noteq> kCount"
  obtains b' where "clear_side b s = Some b'" "book_shape M N b'" "wf_core N {} (view b')"
    "v_lad (view b') = (v_lad (view b))(s := [])" "v_lm (view b') = (v_lm (view b))(s := Map.empty)"
proof -
  obtain b1 where b1: "clear_ladder b s = Some b1" "book_shape M N b1" "wf_core N {} (view b1)"
    "v_lad (view b1) = (v_lad (view b))(s := [])" "ob_level_map b1 = ob_level_map b"
    using clear_ladder_ok [OF assms(1,2) refl assms(3)] by blast
  let ?b = "set_level_map s (hm_clear (ob_level_map b1 s)) b1"
  have "book_shape M N ?b"
    using shape_set_level_map [OF b1(2)] hmap.clear(1) [OF book_shapeD(10) [OF b1(2) assms(3)]] by blast
  moreover have "v_lm (view b1) = v_lm (view b)" using b1(5) by (simp add: view_def)
  moreover have "wf_core N {} (view ?b)"
    using b1(3) unfolding view_set_level_map by simp
  ultimately show thesis
    using that [of ?b] b1 hmap.clear(2) [OF book_shapeD(10) [OF b1(2) assms(3)]]
    by (simp add: clear_side_def view_set_level_map)
qed

lemma ob_clear_ok:
  assumes inv: "book_inv M N b"
  obtains b' where "ob_clear b = Some b'" "book_inv M N b'" "book_abs b' = (\<lambda>s. [])"
    "v_ao (view b') = {}" "v_al (view b') = {}"
proof -
  obtain b1 where b1: "clear_side b kBid = Some b1" "book_shape M N b1" "wf_core N {} (view b1)"
    "v_lad (view b1) = (v_lad (view b))(kBid := [])" "v_lm (view b1) = (v_lm (view b))(kBid := Map.empty)"
    by (rule clear_side_ok [OF book_invD(1,2) [OF inv], of kBid]) simp_all
  obtain b2 where b2: "clear_side b1 kAsk = Some b2" "book_shape M N b2" "wf_core N {} (view b2)"
    "v_lad (view b2) = (v_lad (view b1))(kAsk := [])" "v_lm (view b2) = (v_lm (view b1))(kAsk := Map.empty)"
    by (rule clear_side_ok [OF b1(2,3), of kAsk]) simp_all
  let ?b = "b2\<lparr>ob_order_map := hm_clear (ob_order_map b2)\<rparr>"
  note om = hmap.clear [OF book_shapeD(9) [OF b2(2)]]
  have lad: "v_lad (view b2) t = []" for t
    using wf_coreD(2) [OF book_invD(2) [OF inv]] b1(4) b2(4) by (cases t) simp_all
  have al: "v_al (view b2) = {}" "v_ao (view b2) = {}"
    using wf_coreD(3,7) [OF b2(3)] lad by simp_all
  have v: "view ?b = (view b2)\<lparr>v_om := Map.empty\<rparr>" unfolding view_order_map om(2) by simp
  have lm: "v_lm (view b2) t p = None" if "t \<noteq> kCount" for t p
    using that b1(5) b2(5) by (cases t) simp_all
  have "ob_bids b2 = []" "ob_asks b2 = []"
    using lad [of kBid] lad [of kAsk] by (simp_all add: view_sel ob_ladder_def)
  moreover have "total_orders ?b = 0" by (simp add: total_orders_def hm_clear_def)
  ultimately have "ob_clear b = Some ?b" using b1(1) b2(1) by (simp add: ob_clear_def)
  moreover have "wf_core N {} (view ?b)" using b2(3) unfolding v by simp
  moreover have "wf_maps (view ?b)" unfolding v wf_maps_def using lm lad al by simp
  moreover have "book_abs ?b = (\<lambda>s. [])" using lad by (intro ext) (simp add: book_abs_def v v_abs_def)
  ultimately show thesis
    using that shape_order_map [OF b2(2) om(1)] al v by (simp add: book_inv_def)
qed

section \<open>Queries\<close>

lemma best_bid_ok: "best_bid b = (case book_abs b kBid of [] \<Rightarrow> None | e # _ \<Rightarrow> Some (fst e))"
  by (simp add: best_bid_def book_abs_def v_abs_def view_def ob_ladder_def split: list.splits)

lemma best_ask_ok: "best_ask b = (case book_abs b kAsk of [] \<Rightarrow> None | e # _ \<Rightarrow> Some (fst e))"
  by (simp add: best_ask_def book_abs_def v_abs_def view_def ob_ladder_def split: list.splits)

lemma book_depth_ok: "s \<noteq> kCount \<Longrightarrow> book_depth b s = length (book_abs b s)"
  by (simp add: book_depth_def book_abs_def v_abs_def view_def ob_ladder_def)

lemma level_lookup:
  assumes inv: "book_inv M N b" and s: "s \<noteq> kCount"
  shows "hm_find (ob_level_map b s) p = Some (v_lm (view b) s p)"
    "map_of (book_abs b s) p = map_option (\<lambda>l. map (v_entry (view b)) (v_queue (view b) l)) (v_lm (view b) s p)"
proof -
  note wf = book_invD(2) [OF inv] and wm = book_invD(3) [OF inv]
  show "hm_find (ob_level_map b s) p = Some (v_lm (view b) s p)"
    using hmap.find [OF book_shapeD(10) [OF book_invD(1) [OF inv] s]] by (simp add: view_sel)
  show "map_of (book_abs b s) p = map_option (\<lambda>l. map (v_entry (view b)) (v_queue (view b) l)) (v_lm (view b) s p)"
  proof (cases "v_lm (view b) s p")
    case None
    then have "v_price (view b) l \<noteq> p" if "l \<in> set (v_lad (view b) s)" for l
      using wf_mapsD(2) [OF wm s, of p l] that by auto
    then have "map_of (book_abs b s) p = None"
      unfolding book_abs_def v_abs_def by (rule map_of_entries_None)
    then show ?thesis using None by simp
  next
    case (Some l)
    then have l: "l \<in> set (v_lad (view b) s)" "v_price (view b) l = p"
      using wf_mapsD(2) [OF wm s] by blast+
    show ?thesis
      using map_of_entries [OF wf_lad_inj [OF wf] l(1), of "\<lambda>l. map (v_entry (view b)) (v_queue (view b) l)"]
      by (simp add: Some l(2) book_abs_def v_abs_def)
  qed
qed

lemma volume_at_level_ok:
  assumes inv: "book_inv M N b" and s: "s \<noteq> kCount"
  shows "volume_at_level b s p =
    Some (case map_of (book_abs b s) p of None \<Rightarrow> 0 | Some es \<Rightarrow> sum_list (map snd es))"
proof (cases "v_lm (view b) s p")
  case None
  then show ?thesis using level_lookup [OF assms, of p] s by (simp add: volume_at_level_def)
next
  case (Some l)
  then have "l \<in> set (v_lad (view b) s)" using wf_mapsD(2) [OF book_invD(3) [OF inv] s] by blast
  then have "pl_total_qty (ob_level_slots b ! l) = sum_list (map snd (map (v_entry (view b)) (v_queue (view b) l)))"
    using level_okD(3) [OF wf_coreD(5) [OF book_invD(2) [OF inv]]]
    by (simp add: view_sel(1) v_entry_def comp_def)
  then show ?thesis using level_lookup [OF assms, of p] s Some by (simp add: volume_at_level_def)
qed

lemma order_count_at_level_ok:
  assumes inv: "book_inv M N b" and s: "s \<noteq> kCount"
  shows "order_count_at_level b s p =
    Some (case map_of (book_abs b s) p of None \<Rightarrow> 0 | Some es \<Rightarrow> of_nat (length es))"
  using level_lookup [OF assms, of p] s
  by (cases "v_lm (view b) s p") (auto simp: order_count_at_level_def view_sel)

lemma total_orders_ok:
  assumes inv: "book_inv M N b"
  shows "total_orders b = card (dom (a_orders (book_abs b)))"
proof -
  have "dom (a_orders (book_abs b)) = dom (hm_lookup (ob_order_map b))"
    using a_orders_view [OF book_invD(2,3) [OF inv]] by (auto simp: book_abs_def dom_def view_sel)
  then show ?thesis
    using hmap.size [OF book_shapeD(9) [OF book_invD(1) [OF inv]]] by (simp add: total_orders_def)
qed

text \<open>Prices of a ladder are strictly sorted, best first.\<close>

lemma book_abs_sorted: "book_inv M N b \<Longrightarrow> sorted_wrt (better s) (map fst (book_abs b s))"
  using wf_coreD(1) [OF book_invD(2)] by (simp add: book_abs_def v_abs_def comp_def)

lemma book_abs_queues:
  assumes inv: "book_inv M N b" and e: "(p, es) \<in> set (book_abs b s)"
  shows "es \<noteq> []" "(oid, q) \<in> set es \<Longrightarrow> q \<noteq> 0"
proof -
  obtain l where l: "l \<in> set (v_lad (view b) s)" "es = map (v_entry (view b)) (v_queue (view b) l)"
    using e by (auto simp: book_abs_def v_abs_def)
  show "es \<noteq> []" using wf_coreD(6) [OF book_invD(2) [OF inv] l(1)] l(2) by auto
  show "q \<noteq> 0" if "(oid, q) \<in> set es"
    using level_okD(7) [OF wf_coreD(5) [OF book_invD(2) [OF inv] l(1)]] l(2) that
    by (auto simp: v_entry_def)
qed

end
