(* ===== verification/Arena.thy ===== *)
theory Arena
  imports BitUtils
begin

text \<open>
  The bump-pointer arena of \<^verbatim>\<open>libs/sys/memory/arena_allocator.hpp\<close>. Pointers are 64-bit
  addresses; the memory itself belongs to whoever provides the buffer, so the arena is its
  three pointers. Allocation returns \<open>None\<close> for the null pointer.
\<close>

record Arena =
  ar_base :: u64
  ar_cur :: u64
  ar_end :: u64

definition ar_new :: "u64 \<Rightarrow> u64 \<Rightarrow> Arena" where
  "ar_new mem_data mem_size = \<lparr>ar_base = mem_data, ar_cur = mem_data, ar_end = mem_data + mem_size\<rparr>"

definition ar_capacity :: "Arena \<Rightarrow> u64" where
  "ar_capacity a = ar_end a - ar_base a"

definition ar_used :: "Arena \<Rightarrow> u64" where
  "ar_used a = ar_cur a - ar_base a"

definition ar_remaining :: "Arena \<Rightarrow> u64" where
  "ar_remaining a = ar_end a - ar_cur a"

definition ar_alloc :: "Arena \<Rightarrow> u64 \<Rightarrow> u64 \<Rightarrow> (u64 option \<times> Arena) outcome" where
  "ar_alloc a bytes alignment = do {
     let alignment = max alignment 8;
     cassert (is_power_of_two alignment);
     let p = align_up (ar_cur a) alignment;
     if p > ar_end a \<or> bytes > ar_end a - p then Some (None, a)
     else Some (Some p, a\<lparr>ar_cur := p + bytes\<rparr>)
   }"

text \<open>The typed helper: \<^verbatim>\<open>count * sizeof(T)\<close> is a \<^verbatim>\<open>std::size_t\<close> product.\<close>

definition ar_alloc_n :: "Arena \<Rightarrow> u64 \<Rightarrow> u64 \<Rightarrow> u64 \<Rightarrow> (u64 option \<times> Arena) outcome" where
  "ar_alloc_n a sizeof_T alignof_T count = ar_alloc a (count * sizeof_T) alignof_T"

definition ar_reset :: "Arena \<Rightarrow> Arena" where
  "ar_reset a = a\<lparr>ar_cur := ar_base a\<rparr>"

text \<open>\<^verbatim>\<open>ArenaAllocator<T>::allocate\<close>: aborts on overflow and on exhaustion.\<close>

definition ar_allocate :: "Arena \<Rightarrow> u64 \<Rightarrow> u64 \<Rightarrow> u64 \<Rightarrow> (u64 \<times> Arena) outcome" where
  "ar_allocate a sizeof_T alignof_T n = do {
     cassert (\<not> n > (- 1) div sizeof_T);
     let bytes = n * sizeof_T;
     (p, a) \<leftarrow> ar_alloc a bytes alignof_T;
     q \<leftarrow> p;
     Some (q, a)
   }"

definition ar_deallocate :: "Arena \<Rightarrow> u64 \<Rightarrow> u64 \<Rightarrow> Arena" where
  "ar_deallocate a p n = a"

section \<open>Correctness\<close>

definition ar_inv :: "Arena \<Rightarrow> bool" where
  "ar_inv a \<longleftrightarrow> ar_base a \<le> ar_cur a \<and> ar_cur a \<le> ar_end a"

lemma ar_inv_unat:
  "ar_inv a \<longleftrightarrow> unat (ar_base a) \<le> unat (ar_cur a) \<and> unat (ar_cur a) \<le> unat (ar_end a)"
  by (simp add: ar_inv_def word_le_nat_alt)

lemma max_alignment:
  assumes "k < 64"
  shows "max (2 ^ k) 8 = (2 ^ max k 3 :: u64)" "is_power_of_two (max (2 ^ k) 8)"
proof -
  have "(2 ^ k :: u64) \<le> 8 \<longleftrightarrow> k \<le> 3"
  proof -
    have "(2 ^ k :: u64) \<le> 8 \<longleftrightarrow> (2::nat) ^ k \<le> 2 ^ 3"
      using assms by (simp add: word_le_nat_alt unat_pow2)
    also have "\<dots> \<longleftrightarrow> k \<le> 3" by (rule power_increasing_iff) simp
    finally show ?thesis .
  qed
  then show eq: "max (2 ^ k) 8 = (2 ^ max k 3 :: u64)" by (auto simp: max_def)
  have "unat (2 ^ max k 3 :: u64) = 2 ^ max k 3" using assms by (simp add: unat_pow2)
  then show "is_power_of_two (max (2 ^ k) 8)"
    unfolding eq is_power_of_two_iff using assms by (intro exI [of _ "max k 3"]) simp
qed

text \<open>
  An allocation is null exactly when the aligned request does not fit; otherwise the block
  is aligned, lies between the old bump pointer and the end, and the new bump pointer is
  its end. The hypothesis on the end pointer says that the arena is not within one
  alignment unit of the top of the address space.
\<close>

lemma ar_alloc_cases:
  assumes inv: "ar_inv a" and k: "k < 64" and top: "unat (ar_end a) + 2 ^ max k 3 \<le> 2 ^ 64"
  obtains (null) "ar_alloc a bytes (2 ^ k) = Some (None, a)"
      "unat (ar_end a) < unat (align_up (ar_cur a) (2 ^ max k 3)) + unat bytes"
  | (block) p where "ar_alloc a bytes (2 ^ k) = Some (Some p, a\<lparr>ar_cur := p + bytes\<rparr>)"
      "2 ^ max k 3 dvd unat p" "unat (ar_cur a) \<le> unat p" "unat p < unat (ar_cur a) + 2 ^ max k 3"
      "unat (p + bytes) = unat p + unat bytes" "unat p + unat bytes \<le> unat (ar_end a)"
      "ar_inv (a\<lparr>ar_cur := p + bytes\<rparr>)"
proof -
  let ?p = "align_up (ar_cur a) (2 ^ max k 3)"
  have inv': "unat (ar_base a) \<le> unat (ar_cur a)" "unat (ar_cur a) \<le> unat (ar_end a)"
    using inv by (simp_all add: ar_inv_unat)
  have up: "2 ^ max k 3 dvd unat ?p" "unat (ar_cur a) \<le> unat ?p" "unat ?p < unat (ar_cur a) + 2 ^ max k 3"
    using align_up_spec [of "max k 3" "ar_cur a"] k top inv'(2) by simp_all
  have oom: "(?p > ar_end a \<or> bytes > ar_end a - ?p) \<longleftrightarrow> unat (ar_end a) < unat ?p + unat bytes"
  proof (cases "?p \<le> ar_end a")
    case True
    then have "unat (ar_end a - ?p) = unat (ar_end a) - unat ?p" "unat ?p \<le> unat (ar_end a)"
      by (simp_all add: unat_sub word_le_nat_alt)
    then show ?thesis using True by (auto simp: word_less_nat_alt)
  next
    case False
    then show ?thesis by (auto simp: word_less_nat_alt not_le)
  qed
  have alloc: "ar_alloc a bytes (2 ^ k) =
      (if ?p > ar_end a \<or> bytes > ar_end a - ?p then Some (None, a) else Some (Some ?p, a\<lparr>ar_cur := ?p + bytes\<rparr>))"
    using max_alignment [OF k] by (simp add: ar_alloc_def outcome_simps Let_def)
  show thesis
  proof (cases "unat (ar_end a) < unat ?p + unat bytes")
    case True
    then show thesis using null alloc oom by simp
  next
    case False
    then have fit: "unat ?p + unat bytes \<le> unat (ar_end a)" by simp
    then have sum: "unat (?p + bytes) = unat ?p + unat bytes"
      using unat_less_exp [of "ar_end a"] by (simp add: unat_word_ariths)
    have "ar_inv (a\<lparr>ar_cur := ?p + bytes\<rparr>)" using inv' up(2) fit sum by (simp add: ar_inv_unat)
    then show thesis using block [of ?p] alloc oom False up fit sum by simp
  qed
qed

lemma ar_alloc_fits:
  assumes inv: "ar_inv a" and k: "k < 64" and top: "unat (ar_end a) + 2 ^ max k 3 \<le> 2 ^ 64"
    and room: "unat (ar_cur a) + (2 ^ max k 3 - 1) + unat bytes \<le> unat (ar_end a)"
  obtains p a' where "ar_alloc a bytes (2 ^ k) = Some (Some p, a')" "ar_inv a'" "ar_end a' = ar_end a"
    "unat (ar_cur a') \<le> unat (ar_cur a) + (2 ^ max k 3 - 1) + unat bytes"
    "2 ^ max k 3 dvd unat p" "unat (ar_cur a) \<le> unat p" "unat p \<le> unat (ar_cur a')"
  using inv k top
proof (cases rule: ar_alloc_cases [where bytes = bytes])
  case null
  have "unat (align_up (ar_cur a) (2 ^ max k 3)) < unat (ar_cur a) + 2 ^ max k 3"
    using align_up_spec(3) [of "max k 3" "ar_cur a"] k top inv by (simp add: ar_inv_unat)
  then show thesis using null(2) room by simp
next
  case (block p)
  then show thesis by (intro that [of p "a\<lparr>ar_cur := p + bytes\<rparr>"]) simp_all
qed

text \<open>A run of allocations, as a parser or a start-up routine makes them.\<close>

fun ar_alloc_all :: "Arena \<Rightarrow> (u64 \<times> nat) list \<Rightarrow> ((u64 \<times> u64) list \<times> Arena) outcome" where
  "ar_alloc_all a [] = Some ([], a)"
| "ar_alloc_all a ((bytes, k) # reqs) = do {
     (p, a) \<leftarrow> ar_alloc a bytes (2 ^ k);
     (blocks, a) \<leftarrow> ar_alloc_all a reqs;
     Some (case p of None \<Rightarrow> blocks | Some p \<Rightarrow> (p, bytes) # blocks, a)
   }"

lemma ar_alloc_all_blocks:
  assumes "ar_inv a" "\<forall>(bytes, k) \<in> set reqs. k < 64 \<and> unat (ar_end a) + 2 ^ max k 3 \<le> 2 ^ 64"
  shows "\<exists>blocks a'. ar_alloc_all a reqs = Some (blocks, a') \<and> ar_inv a' \<and>
    (\<forall>(p, n) \<in> set blocks. unat (ar_cur a) \<le> unat p \<and> unat p + unat n \<le> unat (ar_end a)) \<and>
    sorted_wrt (\<lambda>(p, n) (p', n'). unat p + unat n \<le> unat p') blocks"
  using assms
proof (induction reqs arbitrary: a)
  case (Cons req reqs)
  obtain bytes k where req: "req = (bytes, k)" by (cases req)
  then have k: "k < 64" "unat (ar_end a) + 2 ^ max k 3 \<le> 2 ^ 64" using Cons.prems(2) by auto
  show ?case
    using Cons.prems(1) k
  proof (cases rule: ar_alloc_cases [where bytes = bytes])
    case null
    then show ?thesis using Cons.IH [of a] Cons.prems req by auto
  next
    case (block p)
    let ?a = "a\<lparr>ar_cur := p + bytes\<rparr>"
    obtain blocks a' where IH: "ar_alloc_all ?a reqs = Some (blocks, a')" "ar_inv a'"
      "\<forall>(p', n) \<in> set blocks. unat p + unat bytes \<le> unat p' \<and> unat p' + unat n \<le> unat (ar_end a)"
      "sorted_wrt (\<lambda>(p, n) (p', n'). unat p + unat n \<le> unat p') blocks"
      using Cons.IH [of ?a] Cons.prems(2) block(5,7) by auto
    have "ar_alloc_all a (req # reqs) = Some ((p, bytes) # blocks, a')"
      using block(1) IH(1) req by simp
    moreover have "\<forall>(p', n) \<in> set ((p, bytes) # blocks). unat (ar_cur a) \<le> unat p' \<and> unat p' + unat n \<le> unat (ar_end a)"
      using IH(3) block(3,6) by auto
    moreover have "sorted_wrt (\<lambda>(p, n) (p', n'). unat p + unat n \<le> unat p') ((p, bytes) # blocks)"
      using IH(3,4) by auto
    ultimately show ?thesis using IH(2) by blast
  qed
qed simp

end
