(* ===== verification/OrderBookBind.thy ===== *)
theory OrderBookBind
  imports OrderBookCorrect Arena
begin

text \<open>
  Construction of an order book over a caller-provided buffer: \<^verbatim>\<open>required_buffer_size\<close>,
  \<^verbatim>\<open>bind\<close>, the factory, the constructors and the destructor of
  \<^verbatim>\<open>libs/algo/order_book.hpp\<close>. Sizes and alignments are those of the x86-64 ABI. What
  the uninitialised bytes of the three hash-map regions read as is an argument.
\<close>

section \<open>Layout\<close>

definition sizeof_Order :: nat where "sizeof_Order = 48"
definition sizeof_PriceLevel :: nat where "sizeof_PriceLevel = 56"
definition sizeof_map_slot :: nat where "sizeof_map_slot = 24"

definition kMaxPadding :: nat where "kMaxPadding = 6 * (16 - 1)"

definition ob_required_buffer_size :: "Params \<Rightarrow> u64" where
  "ob_required_buffer_size params =
     of_nat (par_max_orders params * sizeof_Order) + of_nat (par_max_levels params * sizeof_PriceLevel) +
     of_nat (ifs_required_buffer_size (par_max_orders params)) +
     of_nat (ifs_required_buffer_size (par_max_levels params)) +
     of_nat (hm_required_buffer_size sizeof_map_slot (par_order_map_cap params)) +
     of_nat (hm_required_buffer_size sizeof_map_slot (par_level_map_cap params)) +
     of_nat (hm_required_buffer_size sizeof_map_slot (par_level_map_cap params)) + of_nat kMaxPadding"

definition zero_order :: Order where
  "zero_order = \<lparr>order_id = 0, o_price = 0, o_qty = 0, o_side = kBid, o_level = None\<rparr>"

definition fresh_level :: PriceLevel where
  "fresh_level = \<lparr>pl_price = 0, pl_total_qty = 0, pl_side = kBid, pl_orders = []\<rparr>"

text \<open>The default-constructed book: \<^verbatim>\<open>order_slots_\<close> is null, which is the empty pool here.\<close>

definition ob_default :: OrderBook where
  "ob_default = \<lparr>ob_order_slots = [], ob_level_slots = [], ob_max_orders = 0, ob_max_levels = 0,
     ob_order_free = ifs_default, ob_level_free = ifs_default, ob_bids = [], ob_asks = [],
     ob_order_map = hm_default default_hash, ob_level_map = (\<lambda>_. hm_default default_hash)\<rparr>"

type_synonym raw_slots = "(64 word, nat) Slot list"

definition ob_bind ::
  "OrderBook \<Rightarrow> u64 \<Rightarrow> u64 \<Rightarrow> Params \<Rightarrow> raw_slots \<times> raw_slots \<times> raw_slots \<Rightarrow> (bool \<times> OrderBook) outcome" where
  "ob_bind b buf buf_bytes params raw = (case raw of (order_raw, bid_raw, ask_raw) \<Rightarrow>
    if ob_order_slots b \<noteq> [] then Some (False, b)
    else if par_max_orders params = 0 \<or> par_max_levels params = 0 then Some (False, b)
    else if \<not> is_power_of_two (ucast (of_nat (par_order_map_cap params) :: u32)) \<or> par_order_map_cap params < 4
      then Some (False, b)
    else if \<not> is_power_of_two (ucast (of_nat (par_level_map_cap params) :: u32)) \<or> par_level_map_cap params < 4
      then Some (False, b)
    else if par_max_orders params > par_order_map_cap params then Some (False, b)
    else if par_max_levels params > par_level_map_cap params then Some (False, b)
    else if buf = 0 \<or> buf_bytes < ob_required_buffer_size params then Some (False, b)
    else do {
      let b = b\<lparr>ob_max_orders := par_max_orders params, ob_max_levels := par_max_levels params\<rparr>;
      let arena = ar_new buf buf_bytes;
      let fail = (\<lambda>b. Some (False, b\<lparr>ob_order_slots := []\<rparr>));
      (p, arena) \<leftarrow> ar_alloc_n arena (of_nat sizeof_Order) 8 (of_nat (par_max_orders params));
      if p = None then Some (False, b) else do {
      let b = b\<lparr>ob_order_slots := replicate (ob_max_orders b) zero_order\<rparr>;
      (p, arena) \<leftarrow> ar_alloc_n arena (of_nat sizeof_PriceLevel) 8 (of_nat (par_max_levels params));
      if p = None then fail b else do {
      let b = b\<lparr>ob_level_slots := replicate (ob_max_levels b) fresh_level\<rparr>;
      let ofs_size = ifs_required_buffer_size (par_max_orders params);
      (p, arena) \<leftarrow> ar_alloc arena (of_nat ofs_size) 4;
      case p \<bind> (\<lambda>p. ifs_create (unat p) ofs_size (par_max_orders params)) of None \<Rightarrow> fail b | Some f \<Rightarrow> do {
      let b = b\<lparr>ob_order_free := f\<rparr>;
      let lfs_size = ifs_required_buffer_size (par_max_levels params);
      (p, arena) \<leftarrow> ar_alloc arena (of_nat lfs_size) 4;
      case p \<bind> (\<lambda>p. ifs_create (unat p) lfs_size (par_max_levels params)) of None \<Rightarrow> fail b | Some f \<Rightarrow> do {
      let b = b\<lparr>ob_level_free := f\<rparr>;
      let om_size = hm_required_buffer_size sizeof_map_slot (par_order_map_cap params);
      (p, arena) \<leftarrow> ar_alloc arena (of_nat om_size) 8;
      case p \<bind> (\<lambda>p. hm_create default_hash sizeof_map_slot 8 (unat p) order_raw om_size (par_order_map_cap params)) of
        None \<Rightarrow> fail b | Some m \<Rightarrow> do {
      let b = b\<lparr>ob_order_map := m\<rparr>;
      let lm_size = hm_required_buffer_size sizeof_map_slot (par_level_map_cap params);
      (p, arena) \<leftarrow> ar_alloc arena (of_nat lm_size) 8;
      case p \<bind> (\<lambda>p. hm_create default_hash sizeof_map_slot 8 (unat p) bid_raw lm_size (par_level_map_cap params)) of
        None \<Rightarrow> fail b | Some m \<Rightarrow> do {
      let b = set_level_map kBid m b;
      (p, arena) \<leftarrow> ar_alloc arena (of_nat lm_size) 8;
      case p \<bind> (\<lambda>p. hm_create default_hash sizeof_map_slot 8 (unat p) ask_raw lm_size (par_level_map_cap params)) of
        None \<Rightarrow> fail b | Some m \<Rightarrow> Some (True, set_level_map kAsk m b)
      }}}}}}})"

definition ob_create ::
  "u64 \<Rightarrow> u64 \<Rightarrow> Params \<Rightarrow> raw_slots \<times> raw_slots \<times> raw_slots \<Rightarrow> OrderBook option outcome" where
  "ob_create buf buf_bytes params raw = do {
     (ok, b) \<leftarrow> ob_bind ob_default buf buf_bytes params raw;
     Some (if ok then Some b else None)
   }"

definition ob_construct ::
  "u64 \<Rightarrow> u64 \<Rightarrow> Params \<Rightarrow> raw_slots \<times> raw_slots \<times> raw_slots \<Rightarrow> OrderBook outcome" where
  "ob_construct buf buf_bytes params raw = do {
     (ok, b) \<leftarrow> ob_bind ob_default buf buf_bytes params raw;
     cassert ok;
     Some b
   }"

text \<open>The destructor clears the book and destroys the levels, whose queues must be empty.\<close>

definition ob_destroy :: "OrderBook \<Rightarrow> unit outcome" where
  "ob_destroy b = do {
     b \<leftarrow> ob_clear b;
     cassert (list_all (\<lambda>l. pl_orders l = []) (ob_level_slots b))
   }"

section \<open>Seven regions fit\<close>

definition room :: "Arena \<Rightarrow> nat \<Rightarrow> bool" where
  "room a n \<longleftrightarrow> ar_inv a \<and> 0 < unat (ar_cur a) \<and> unat (ar_end a) + 8 \<le> 2 ^ 64 \<and>
     unat (ar_cur a) + n \<le> unat (ar_end a)"

lemma room_alloc:
  assumes "room a (7 + sz + n)" "sz < 2 ^ 64" "al = 4 \<or> al = 8"
  obtains p a' where "ar_alloc a (of_nat sz) al = Some (Some p, a')" "room a' n" "8 dvd unat p" "p \<noteq> 0"
proof -
  have "(4::u64) = 2 ^ 2" "(8::u64) = 2 ^ 3" by simp_all
  then obtain k where k: "al = 2 ^ k" "k \<le> 3" using assms(3) by (metis eval_nat_numeral(3) le_SucI order_refl)
  have sz: "unat (of_nat sz :: u64) = sz" using assms(2) by (simp add: unat_of_nat_eq_small)
  have m: "max k 3 = 3" using k(2) by simp
  obtain p a' where p: "ar_alloc a (of_nat sz) (2 ^ k) = Some (Some p, a')" "ar_inv a'" "ar_end a' = ar_end a"
    "unat (ar_cur a') \<le> unat (ar_cur a) + (2 ^ max k 3 - 1) + sz"
    "2 ^ max k 3 dvd unat p" "unat (ar_cur a) \<le> unat p" "unat p \<le> unat (ar_cur a')"
    by (rule ar_alloc_fits [of a k "of_nat sz"])
       (use assms(1) k(2) sz m in \<open>auto simp: room_def\<close>)
  have "p \<noteq> 0" using p(6) assms(1) by (auto simp: room_def)
  then show thesis
    using that [of p a'] p assms(1) k(1) m by (auto simp: room_def)
qed

definition valid_params :: "Params \<Rightarrow> bool" where
  "valid_params params \<longleftrightarrow> 1 \<le> par_max_orders params \<and> par_max_orders params \<le> par_order_map_cap params \<and>
     1 \<le> par_max_levels params \<and> par_max_levels params \<le> par_level_map_cap params \<and>
     hm_is_valid_capacity (par_order_map_cap params) \<and> hm_is_valid_capacity (par_level_map_cap params)"

definition valid_raw :: "Params \<Rightarrow> raw_slots \<times> raw_slots \<times> raw_slots \<Rightarrow> bool" where
  "valid_raw params raw = (case raw of (o_raw, b_raw, a_raw) \<Rightarrow>
     par_order_map_cap params \<le> length o_raw \<and> par_level_map_cap params \<le> length b_raw \<and>
     par_level_map_cap params \<le> length a_raw)"

lemma ob_required_buffer_size_unat:
  assumes "valid_params params"
  shows "unat (ob_required_buffer_size params) =
    par_max_orders params * 53 + par_max_levels params * 61 + par_order_map_cap params * 24 +
    par_level_map_cap params * 48 + 90"
proof -
  let ?T = "par_max_orders params * 53 + par_max_levels params * 61 + par_order_map_cap params * 24 +
    par_level_map_cap params * 48 + 90"
  have eq: "ob_required_buffer_size params = of_nat ?T"
    by (simp add: ob_required_buffer_size_def sizeof_Order_def sizeof_PriceLevel_def sizeof_map_slot_def
        kMaxPadding_def ifs_required_buffer_size_def hm_required_buffer_size_def algebra_simps)
  have bound: "?T < 2 ^ 64"
    using assms by (auto simp: valid_params_def hm_is_valid_capacity_def)
  show ?thesis unfolding eq by (rule unat_of_nat_eq_small) (use bound in simp)
qed

lemma ifs_create_fits:
  assumes "8 dvd unat p" "p \<noteq> 0" "1 \<le> cap" "cap \<le> 2 ^ 32 - 1"
  shows "ifs_create (unat p) (ifs_required_buffer_size cap) cap = Some (ifs_init_storage cap)"
proof -
  have "4 dvd unat p" by (rule dvd_trans [OF _ assms(1)]) simp
  then show ?thesis
    using assms(2-4) by (simp add: ifs_create_def ifs_is_valid_capacity_def ifs_partition_buffer_def
        unat_eq_0 mod_eq_0_iff_dvd)
qed

lemma hm_create_fits:
  assumes "8 dvd unat p" "p \<noteq> 0" "hm_is_valid_capacity cap" "cap \<le> length raw"
  obtains m where "hm_create hash sizeof_map_slot 8 (unat p) raw (hm_required_buffer_size sizeof_map_slot cap) cap = Some m"
    "hm_inv m" "hm_lookup m = Map.empty" "\<not> hm_full m"
proof -
  obtain m where m: "hm_create hash sizeof_map_slot 8 (unat p) raw (hm_required_buffer_size sizeof_map_slot cap) cap = Some m"
    using assms by (simp add: hm_create_def unat_eq_0 mod_eq_0_iff_dvd hm_required_buffer_size_def)
  have "4 \<le> cap" using assms(3) by (simp add: hm_is_valid_capacity_def)
  then have "0 < cap * 7 div 10" by linarith
  then have "\<not> hm_full m"
    using m by (auto simp: hm_create_def hm_full_def hm_clear_def hm_new_def split: if_splits)
  then show thesis using that m hm_create_correct(1,2) [OF m assms(4)] by blast
qed

text \<open>The seven allocations of \<open>bind\<close>, each with at most seven bytes of padding.\<close>

lemma seven_regions:
  assumes "room a0 (7 + s1 + (7 + s2 + (7 + s3 + (7 + s4 + (7 + s5 + (7 + s6 + (7 + s7 + 0)))))))"
    "\<forall>sz \<in> {s1, s2, s3, s4, s5, s6, s7}. sz < 2 ^ 64"
  obtains p1 a1 p2 a2 p3 a3 p4 a4 p5 a5 p6 a6 p7 a7 where
    "ar_alloc a0 (of_nat s1) 8 = Some (Some p1, a1)" "ar_alloc a1 (of_nat s2) 8 = Some (Some p2, a2)"
    "ar_alloc a2 (of_nat s3) 4 = Some (Some p3, a3)" "ar_alloc a3 (of_nat s4) 4 = Some (Some p4, a4)"
    "ar_alloc a4 (of_nat s5) 8 = Some (Some p5, a5)" "ar_alloc a5 (of_nat s6) 8 = Some (Some p6, a6)"
    "ar_alloc a6 (of_nat s7) 8 = Some (Some p7, a7)"
    "\<forall>p \<in> {p3, p4, p5, p6, p7}. 8 dvd unat p \<and> p \<noteq> 0"
proof -
  obtain p1 a1 where 1: "ar_alloc a0 (of_nat s1) 8 = Some (Some p1, a1)"
    "room a1 (7 + s2 + (7 + s3 + (7 + s4 + (7 + s5 + (7 + s6 + (7 + s7 + 0))))))"
    by (rule room_alloc [OF assms(1), of 8]) (use assms(2) in simp_all)
  obtain p2 a2 where 2: "ar_alloc a1 (of_nat s2) 8 = Some (Some p2, a2)"
    "room a2 (7 + s3 + (7 + s4 + (7 + s5 + (7 + s6 + (7 + s7 + 0)))))"
    by (rule room_alloc [OF 1(2), of 8]) (use assms(2) in simp_all)
  obtain p3 a3 where 3: "ar_alloc a2 (of_nat s3) 4 = Some (Some p3, a3)"
    "room a3 (7 + s4 + (7 + s5 + (7 + s6 + (7 + s7 + 0))))" "8 dvd unat p3" "p3 \<noteq> 0"
    by (rule room_alloc [OF 2(2), of 4]) (use assms(2) in simp_all)
  obtain p4 a4 where 4: "ar_alloc a3 (of_nat s4) 4 = Some (Some p4, a4)"
    "room a4 (7 + s5 + (7 + s6 + (7 + s7 + 0)))" "8 dvd unat p4" "p4 \<noteq> 0"
    by (rule room_alloc [OF 3(2), of 4]) (use assms(2) in simp_all)
  obtain p5 a5 where 5: "ar_alloc a4 (of_nat s5) 8 = Some (Some p5, a5)"
    "room a5 (7 + s6 + (7 + s7 + 0))" "8 dvd unat p5" "p5 \<noteq> 0"
    by (rule room_alloc [OF 4(2), of 8]) (use assms(2) in simp_all)
  obtain p6 a6 where 6: "ar_alloc a5 (of_nat s6) 8 = Some (Some p6, a6)"
    "room a6 (7 + s7 + 0)" "8 dvd unat p6" "p6 \<noteq> 0"
    by (rule room_alloc [OF 5(2), of 8]) (use assms(2) in simp_all)
  obtain p7 a7 where 7: "ar_alloc a6 (of_nat s7) 8 = Some (Some p7, a7)"
    "8 dvd unat p7" "p7 \<noteq> 0"
    by (rule room_alloc [OF 6(2), of 8]) (use assms(2) in simp_all)
  show thesis
    by (rule that [OF 1(1) 2(1) 3(1) 4(1) 5(1) 6(1) 7(1)]) (use 3 4 5 6 7 in blast)
qed

text \<open>A book with free pools and empty maps is well-formed and empty.\<close>

lemma fresh_book_inv:
  assumes "hm_inv om" "hm_lookup om = Map.empty" "hm_inv bm" "hm_lookup bm = Map.empty"
    "hm_inv am" "hm_lookup am = Map.empty"
    and b_def: "b = set_level_map kAsk am (set_level_map kBid bm
    \<lparr>ob_order_slots = replicate M zero_order, ob_level_slots = replicate N fresh_level,
     ob_max_orders = M, ob_max_levels = N, ob_order_free = ifs_init_storage M,
     ob_level_free = ifs_init_storage N, ob_bids = [], ob_asks = [], ob_order_map = om,
     ob_level_map = (\<lambda>_. hm_default default_hash)\<rparr>)"
    and room: "\<not> hm_full om" "\<not> hm_full bm" "\<not> hm_full am" "1 \<le> M" "1 \<le> N"
  shows "book_inv M N b" "book_abs b = (\<lambda>s. [])" "\<forall>s p. s \<noteq> kCount \<longrightarrow> \<not> no_room M N b s p"
proof -
  have lm: "ob_level_map b s = (if s = kAsk then am else bm)" if "s \<noteq> kCount" for s
    using that by (cases s) (simp_all add: b_def set_level_map_def)
  have cap: "ifs_capacity (ifs_init_storage n) = n" "ifs_allocated (ifs_init_storage n) = {}" for n
    unfolding ifs_allocated_def ifs_stack_init by (auto simp: ifs_init_storage_def)
  have sh: "book_shape M N b"
    using assms lm by (simp add: book_shape_def ifs_init_inv cap) (simp add: b_def set_level_map_def ifs_init_inv cap)
  have lad: "v_lad (view b) s = []" for s by (simp add: view_def b_def set_level_map_def ob_ladder_def)
  have al: "v_al (view b) = {}" "v_ao (view b) = {}" "v_om (view b) = Map.empty"
    using assms(2) by (simp_all add: view_def b_def set_level_map_def cap)
  have q: "v_queue (view b) l = []" if "l < N" for l
    using that by (simp add: view_def b_def set_level_map_def fresh_level_def)
  have vlm: "v_lm (view b) s p = None" if "s \<noteq> kCount" for s p
    using that lm assms(4,6) by (simp add: view_sel)
  have "wf_core N {} (view b)" by (rule wf_coreI) (simp_all add: lad al q)
  moreover have "wf_maps (view b)" unfolding wf_maps_def using al lad vlm by simp
  ultimately show "book_inv M N b" using sh by (simp add: book_inv_def)
  show "book_abs b = (\<lambda>s. [])" by (intro ext) (simp add: book_abs_def v_abs_def lad)
  have "ob_order_map b = om" by (simp add: b_def set_level_map_def)
  moreover have "0 \<in> {..<M}" "0 \<in> {..<N}" using room(4,5) by simp_all
  then have "{} \<noteq> {..<M}" "{} \<noteq> {..<N}" by blast+
  ultimately show "\<forall>s p. s \<noteq> kCount \<longrightarrow> \<not> no_room M N b s p"
    using room(1-3) lm by (simp add: no_room_def al)
qed

lemma ob_create_ok:
  assumes P: "valid_params params" and R: "valid_raw params raw" and buf: "buf \<noteq> 0"
    and size: "ob_required_buffer_size params \<le> buf_bytes"
    and top: "unat buf + unat buf_bytes + 8 \<le> 2 ^ 64"
  obtains b where "ob_create buf buf_bytes params raw = Some (Some b)"
    "book_inv (par_max_orders params) (par_max_levels params) b" "book_abs b = (\<lambda>s. [])"
    "\<forall>s p. s \<noteq> kCount \<longrightarrow> \<not> no_room (par_max_orders params) (par_max_levels params) b s p"
proof -
  obtain o_raw b_raw a_raw where raw: "raw = (o_raw, b_raw, a_raw)" by (cases raw)
  let ?M = "par_max_orders params" and ?N = "par_max_levels params"
  let ?C = "par_order_map_cap params" and ?L = "par_level_map_cap params"
  have V: "1 \<le> ?M" "?M \<le> ?C" "1 \<le> ?N" "?N \<le> ?L" "hm_is_valid_capacity ?C" "hm_is_valid_capacity ?L"
    "?C \<le> length o_raw" "?L \<le> length b_raw" "?L \<le> length a_raw"
    using P R raw by (auto simp: valid_params_def valid_raw_def)
  have cap: "?C \<le> 2 ^ 32 - 1" "?L \<le> 2 ^ 32 - 1" "4 \<le> ?C" "4 \<le> ?L"
    "is_power_of_two (ucast (of_nat ?C :: u32))" "is_power_of_two (ucast (of_nat ?L :: u32))"
    using V(5,6) by (simp_all add: hm_is_valid_capacity_def)
  have bytes: "?M * 53 + ?N * 61 + ?C * 24 + ?L * 48 + 90 \<le> unat buf_bytes"
    using size ob_required_buffer_size_unat [OF P] by (simp add: word_le_nat_alt)
  note sz = sizeof_Order_def sizeof_PriceLevel_def sizeof_map_slot_def ifs_required_buffer_size_def hm_required_buffer_size_def
  let ?a0 = "ar_new buf buf_bytes"
  have "unat (buf + buf_bytes) = unat buf + unat buf_bytes"
    using top by (simp add: unat_word_ariths)
  then have r0: "room ?a0 (7 + ?M * sizeof_Order + (7 + ?N * sizeof_PriceLevel + (7 + ifs_required_buffer_size ?M +
      (7 + ifs_required_buffer_size ?N + (7 + hm_required_buffer_size sizeof_map_slot ?C +
      (7 + hm_required_buffer_size sizeof_map_slot ?L + (7 + hm_required_buffer_size sizeof_map_slot ?L + 0)))))))"
    using bytes top buf by (simp add: room_def ar_inv_unat ar_new_def sz unat_gt_0)
  obtain p1 a1 p2 a2 p3 a3 p4 a4 p5 a5 p6 a6 p7 a7 where
    al: "ar_alloc ?a0 (of_nat (?M * sizeof_Order)) 8 = Some (Some p1, a1)"
    "ar_alloc a1 (of_nat (?N * sizeof_PriceLevel)) 8 = Some (Some p2, a2)"
    "ar_alloc a2 (of_nat (ifs_required_buffer_size ?M)) 4 = Some (Some p3, a3)"
    "ar_alloc a3 (of_nat (ifs_required_buffer_size ?N)) 4 = Some (Some p4, a4)"
    "ar_alloc a4 (of_nat (hm_required_buffer_size sizeof_map_slot ?C)) 8 = Some (Some p5, a5)"
    "ar_alloc a5 (of_nat (hm_required_buffer_size sizeof_map_slot ?L)) 8 = Some (Some p6, a6)"
    "ar_alloc a6 (of_nat (hm_required_buffer_size sizeof_map_slot ?L)) 8 = Some (Some p7, a7)"
    and ok: "\<forall>p \<in> {p3, p4, p5, p6, p7}. 8 dvd unat p \<and> p \<noteq> 0"
    by (rule seven_regions [OF r0]) (use V cap in \<open>simp add: sz\<close>)
  have al12: "ar_alloc ?a0 (of_nat ?M * of_nat sizeof_Order) 8 = Some (Some p1, a1)"
    "ar_alloc a1 (of_nat ?N * of_nat sizeof_PriceLevel) 8 = Some (Some p2, a2)"
    using al(1,2) by simp_all
  obtain om where om: "hm_create default_hash sizeof_map_slot 8 (unat p5) o_raw
      (hm_required_buffer_size sizeof_map_slot ?C) ?C = Some om" "hm_inv om" "hm_lookup om = Map.empty" "\<not> hm_full om"
    by (rule hm_create_fits [of p5 ?C o_raw default_hash]) (use ok V in simp_all)
  obtain bm where bm: "hm_create default_hash sizeof_map_slot 8 (unat p6) b_raw
      (hm_required_buffer_size sizeof_map_slot ?L) ?L = Some bm" "hm_inv bm" "hm_lookup bm = Map.empty" "\<not> hm_full bm"
    by (rule hm_create_fits [of p6 ?L b_raw default_hash]) (use ok V in simp_all)
  obtain am where am: "hm_create default_hash sizeof_map_slot 8 (unat p7) a_raw
      (hm_required_buffer_size sizeof_map_slot ?L) ?L = Some am" "hm_inv am" "hm_lookup am = Map.empty" "\<not> hm_full am"
    by (rule hm_create_fits [of p7 ?L a_raw default_hash]) (use ok V in simp_all)
  have fs: "ifs_create (unat p3) (ifs_required_buffer_size ?M) ?M = Some (ifs_init_storage ?M)"
    "ifs_create (unat p4) (ifs_required_buffer_size ?N) ?N = Some (ifs_init_storage ?N)"
    using ok V cap by (auto intro: ifs_create_fits)
  let ?b = "set_level_map kAsk am (set_level_map kBid bm
    \<lparr>ob_order_slots = replicate ?M zero_order, ob_level_slots = replicate ?N fresh_level,
     ob_max_orders = ?M, ob_max_levels = ?N, ob_order_free = ifs_init_storage ?M,
     ob_level_free = ifs_init_storage ?N, ob_bids = [], ob_asks = [], ob_order_map = om,
     ob_level_map = (\<lambda>_. hm_default default_hash)\<rparr>)"
  have "ob_create buf buf_bytes params raw = Some (Some ?b)"
    using V(1-4) cap(3-6) buf size
    by (simp add: ob_create_def ob_bind_def raw ob_default_def ar_alloc_n_def Let_def not_less not_le
        al(3-7) al12 fs om(1) bm(1) am(1))
  moreover have "book_inv ?M ?N ?b" "book_abs ?b = (\<lambda>s. [])" "\<forall>s p. s \<noteq> kCount \<longrightarrow> \<not> no_room ?M ?N ?b s p"
    by (rule fresh_book_inv [OF om(2,3) bm(2,3) am(2,3) refl om(4) bm(4) am(4) V(1,3)])+
  ultimately show thesis by (rule that)
qed

lemma ob_construct_create:
  "ob_construct buf buf_bytes params raw = (case ob_create buf buf_bytes params raw of Some r \<Rightarrow> r | None \<Rightarrow> None)"
  by (cases "ob_bind ob_default buf buf_bytes params raw")
     (auto simp: ob_construct_def ob_create_def outcome_simps)

lemma ob_destroy_ok:
  assumes "book_inv M N b"
  shows "ob_destroy b = Some ()"
  using assms
proof (rule ob_clear_ok)
  fix b' assume b': "ob_clear b = Some b'" "book_inv M N b'" "v_al (view b') = {}"
  then have "pl_orders (ob_level_slots b' ! l) = []" if "l < N" for l
    using wf_coreD(8) [OF book_invD(2) [OF b'(2)] that] by (simp add: view_sel)
  then show ?thesis
    using b'(1) book_shapeD(4) [OF book_invD(1) [OF b'(2)]]
    by (simp add: ob_destroy_def list_all_length outcome_simps)
qed

section \<open>A small book\<close>

text \<open>
  A concrete book over a buffer of 2048 bytes at address 4096, with four order slots, four
  level slots and maps of capacity eight: as created, and after three calls of \<open>add_order\<close>.
\<close>

definition sample_params :: Params where
  "sample_params = \<lparr>par_max_orders = 4, par_max_levels = 4, par_order_map_cap = 8, par_level_map_cap = 8\<rparr>"

definition sample_raw :: "raw_slots \<times> raw_slots \<times> raw_slots" where
  "sample_raw = (let r = replicate 8 \<lparr>slot_key = 0, slot_value = 0, slot_state = kFull\<rparr> in (r, r, r))"

definition sample_book :: OrderBook where
  "sample_book = (case ob_create 4096 2048 sample_params sample_raw of
     Some (Some b) \<Rightarrow> b | _ \<Rightarrow> ob_default)"

definition run_add :: "OrderBook \<Rightarrow> OrderId \<times> Side \<times> Price \<times> Qty \<Rightarrow> OrderBook" where
  "run_add b x = (case x of (oid, side, price, qty) \<Rightarrow>
     (case add_order b oid side price qty of Some (_, b') \<Rightarrow> b' | None \<Rightarrow> b))"

definition sample_book3 :: OrderBook where
  "sample_book3 = run_add (run_add (run_add sample_book (1, kAsk, 100, 5)) (2, kAsk, 101, 7)) (3, kBid, 99, 4)"

lemma sample_params_valid: "valid_params sample_params" "valid_raw sample_params sample_raw"
proof -
  have "is_power_of_two (8::u64)" unfolding is_power_of_two_iff by (intro exI [of _ 3]) simp
  then show "valid_params sample_params"
    by (simp add: valid_params_def sample_params_def hm_is_valid_capacity_def)
  show "valid_raw sample_params sample_raw"
    by (simp add: valid_raw_def sample_params_def sample_raw_def Let_def)
qed

lemma sample_fits: "ob_required_buffer_size sample_params \<le> 2048"
  using ob_required_buffer_size_unat [OF sample_params_valid(1)]
  by (simp add: word_le_nat_alt sample_params_def)

lemma sample_book_inv: "book_inv 4 4 sample_book" "book_abs sample_book = (\<lambda>s. [])"
  "s \<noteq> kCount \<Longrightarrow> \<not> no_room 4 4 sample_book s p"
proof -
  obtain b where "ob_create 4096 2048 sample_params sample_raw = Some (Some b)"
    "book_inv (par_max_orders sample_params) (par_max_levels sample_params) b" "book_abs b = (\<lambda>s. [])"
    "\<forall>s p. s \<noteq> kCount \<longrightarrow> \<not> no_room (par_max_orders sample_params) (par_max_levels sample_params) b s p"
    by (rule ob_create_ok [OF sample_params_valid _ sample_fits, of 4096]) simp_all
  then show "book_inv 4 4 sample_book" "book_abs sample_book = (\<lambda>s. [])"
    "s \<noteq> kCount \<Longrightarrow> \<not> no_room 4 4 sample_book s p"
    by (simp_all add: sample_book_def sample_params_def)
qed

lemma run_add_inv:
  assumes "book_inv M N b" "side \<noteq> kCount"
  shows "book_inv M N (run_add b (oid, side, price, qty))"
  by (rule add_order_ok [OF assms, of oid price qty]) (simp add: run_add_def)

text \<open>The first order into the fresh book is accepted.\<close>

lemma sample_add:
  obtains b where "add_order sample_book 1 kAsk 100 5 = Some (True, b)" "book_inv 4 4 b"
    "book_abs b = (\<lambda>s. [])(kAsk := [(100, [(1, 5)])])"
proof (rule add_order_ok [OF sample_book_inv(1), of kAsk 1 100 5])
  fix r b' assume b': "add_order sample_book 1 kAsk 100 5 = Some (r, b')" "book_inv 4 4 b'"
    "r \<Longrightarrow> (5::Qty) \<noteq> 0 \<and> a_orders (book_abs sample_book) 1 = None \<and>
       book_abs b' = (book_abs sample_book)(kAsk := a_add kAsk 100 (1, 5) (book_abs sample_book kAsk))"
    "\<not> r \<Longrightarrow> book_abs b' = book_abs sample_book \<and>
       ((5::Qty) = 0 \<or> a_orders (book_abs sample_book) 1 \<noteq> None \<or> no_room 4 4 sample_book kAsk 100)"
  have "a_orders (book_abs sample_book) 1 = None" by (simp add: sample_book_inv(2) a_orders_def)
  then have r using b'(4) sample_book_inv(3) [of kAsk 100] by auto
  then show thesis using that b' sample_book_inv(2) by simp
qed simp

lemma sample_book3_inv: "book_inv 4 4 sample_book3"
  unfolding sample_book3_def by (intro run_add_inv sample_book_inv) simp_all

end
