(* ===== verification/OrderBookProps.thy ===== *)
theory OrderBookProps
  imports OrderBookBind
begin

text \<open>The properties of the order book and of the arena its buffer is cut from.\<close>

section \<open>Abstract facts\<close>

lemma a_remove_simps [simp]:
  "a_remove oid [] = []"
  "a_remove oid ((p, es) # r) = (let es' = filter (\<lambda>e. fst e \<noteq> oid) es in
     if es' = [] then a_remove oid r else (p, es') # a_remove oid r)"
  by (simp_all add: a_remove_def Let_def)

lemma a_remove_id:
  assumes "\<forall>(p, es) \<in> set lad. es \<noteq> [] \<and> oid \<notin> fst ` set es"
  shows "a_remove oid lad = lad"
  using assms
proof (induction lad)
  case (Cons e r)
  obtain p es where e: "e = (p, es)" by (cases e)
  have "filter (\<lambda>x. fst x \<noteq> oid) es = es" unfolding filter_id_conv using Cons.prems e by force
  then show ?case using Cons e by simp
qed simp

lemma a_remove_add:
  assumes "\<forall>(p, es) \<in> set lad. es \<noteq> [] \<and> oid \<notin> fst ` set es"
  shows "a_remove oid (a_add s p (oid, q) lad) = lad"
  using assms
proof (induction s p "(oid, q)" lad rule: a_add.induct)
  case (2 s p p' es r)
  have "filter (\<lambda>x. fst x \<noteq> oid) es = es" "es \<noteq> []" unfolding filter_id_conv using 2(2) by force+
  moreover have "a_remove oid r = r" by (rule a_remove_id) (use 2(2) in auto)
  ultimately show ?case using 2 by auto
qed simp

lemma abs_fresh:
  assumes "book_inv M N b" "a_orders (book_abs b) oid = None" "s \<noteq> kCount"
  shows "\<forall>(p, es) \<in> set (book_abs b s). es \<noteq> [] \<and> oid \<notin> fst ` set es"
proof -
  have "oid \<notin> fst ` set (concat (map snd (book_abs b kBid @ book_abs b kAsk)))"
    using assms(2) by (simp only: a_orders_def map_of_eq_None_iff not_False_eq_True)
  then have "oid \<notin> fst ` set es" if "(p, es) \<in> set (book_abs b s)" for p es
    using that assms(3) by (cases s) force+
  then show ?thesis using book_abs_queues(1) [OF assms(1)] by blast
qed

section \<open>Properties\<close>

text \<open>
  C13. Adding an order to a well-formed book returns, keeps it well-formed, and either appends
  the order to the queue of its price (opening the level at its place in the ladder when
  needed) or changes nothing. It is refused only for a zero quantity, a duplicate id, or when
  a pool or a hash map has no room.
\<close>

theorem add_order_refines:
  assumes "book_inv M N b" "s \<noteq> kCount"
  shows "\<exists>r b'. add_order b oid s p q = Some (r, b') \<and> book_inv M N b' \<and>
    (if r then q \<noteq> 0 \<and> a_orders (book_abs b) oid = None \<and>
       book_abs b' = (book_abs b)(s := a_add s p (oid, q) (book_abs b s))
     else book_abs b' = book_abs b \<and> (q = 0 \<or> a_orders (book_abs b) oid \<noteq> None \<or> no_room M N b s p))"
  by (rule add_order_ok [OF assms, of oid p q]) auto

theorem add_order_refines_witness:
  "\<exists>r b'. add_order sample_book 1 kAsk 100 5 = Some (r, b') \<and> book_inv 4 4 b' \<and>
    (if r then book_abs b' = (\<lambda>s. [])(kAsk := [(100, [(1, 5)])]) else no_room 4 4 sample_book kAsk 100)"
proof -
  have "a_orders (book_abs sample_book) 1 = None" by (simp add: sample_book_inv(2) a_orders_def)
  moreover obtain r b' where "add_order sample_book 1 kAsk 100 5 = Some (r, b')" "book_inv 4 4 b'"
    "if r then (5::Qty) \<noteq> 0 \<and> a_orders (book_abs sample_book) 1 = None \<and>
       book_abs b' = (book_abs sample_book)(kAsk := a_add kAsk 100 (1, 5) (book_abs sample_book kAsk))
     else book_abs b' = book_abs sample_book \<and>
       ((5::Qty) = 0 \<or> a_orders (book_abs sample_book) 1 \<noteq> None \<or> no_room 4 4 sample_book kAsk 100)"
    using add_order_refines [OF sample_book_inv(1), of kAsk 1 100 5] by blast
  ultimately show ?thesis using sample_book_inv(2) by (cases r) auto
qed

text \<open>
  C14. Cancelling an order returns, keeps the book well-formed, reports whether the id was
  there, and removes exactly that order, with its level when it was the last one.
\<close>

theorem cancel_order_refines:
  assumes "book_inv M N b"
  shows "\<exists>b'. cancel_order b oid = Some (a_orders (book_abs b) oid \<noteq> None, b') \<and> book_inv M N b' \<and>
    book_abs b' = (\<lambda>s. a_remove oid (book_abs b s))"
  by (rule cancel_order_ok [OF assms, of oid]) auto

theorem cancel_order_refines_witness:
  "book_inv 4 4 sample_book3 \<and> (\<exists>b'. cancel_order sample_book3 1 =
     Some (a_orders (book_abs sample_book3) 1 \<noteq> None, b') \<and> book_inv 4 4 b' \<and>
     book_abs b' = (\<lambda>s. a_remove 1 (book_abs sample_book3 s)))"
  using cancel_order_refines [OF sample_book3_inv, of 1] sample_book3_inv by simp

text \<open>
  C15. Reducing an order keeps its place in the queue: the call succeeds exactly when the id
  is present with a larger quantity, zero cancels, any other value only replaces the quantity.
\<close>

theorem modify_order_refines:
  assumes "book_inv M N b"
  shows "\<exists>r b'. modify_order b oid q = Some (r, b') \<and> book_inv M N b' \<and>
    (r \<longleftrightarrow> (\<exists>q0. a_orders (book_abs b) oid = Some q0 \<and> q < q0)) \<and>
    book_abs b' = (if \<not> r then book_abs b else if q = 0 then (\<lambda>s. a_remove oid (book_abs b s))
                   else (\<lambda>s. a_requant oid q (book_abs b s)))"
  by (rule modify_order_ok [OF assms, of oid q]) (auto split: if_splits)

theorem modify_order_refines_witness:
  "\<exists>r b'. modify_order sample_book3 2 3 = Some (r, b') \<and> book_inv 4 4 b' \<and>
    (r \<longleftrightarrow> (\<exists>q0. a_orders (book_abs sample_book3) 2 = Some q0 \<and> 3 < q0)) \<and>
    book_abs b' = (if \<not> r then book_abs sample_book3
                   else if (3::Qty) = 0 then (\<lambda>s. a_remove 2 (book_abs sample_book3 s))
                   else (\<lambda>s. a_requant 2 3 (book_abs sample_book3 s)))"
  by (rule modify_order_refines [OF sample_book3_inv])

text \<open>
  Cancelling the order just added restores the book: prices, queues and quantities of
  both sides are what they were.
\<close>

theorem add_cancel_round_trip:
  assumes "book_inv M N b" "s \<noteq> kCount" "add_order b oid s p q = Some (True, b1)"
  shows "\<exists>b2. cancel_order b1 oid = Some (True, b2) \<and> book_inv M N b2 \<and> book_abs b2 = book_abs b"
proof -
  have b1: "book_inv M N b1" "a_orders (book_abs b) oid = None"
    "book_abs b1 = (book_abs b)(s := a_add s p (oid, q) (book_abs b s))"
    by (rule add_order_ok [OF assms(1,2), of oid p q], use assms(3) in simp)+
  have valid: "a_remove oid (book_abs b1 t) = book_abs b t" if "t \<noteq> kCount" for t
    using abs_fresh [OF assms(1) b1(2) that] b1(3) a_remove_add a_remove_id by (cases "t = s") simp_all
  have none: "book_abs b1 kCount = []" "book_abs b kCount = []"
    using wf_coreD(2) [OF book_invD(2)] b1(1) assms(1) by (auto simp: book_abs_def v_abs_def)
  have abs: "(\<lambda>t. a_remove oid (book_abs b1 t)) = book_abs b"
  proof (rule ext)
    show "a_remove oid (book_abs b1 t) = book_abs b t" for t
      using valid none by (cases "t = kCount") simp_all
  qed
  have "(oid, q) \<in> set (concat (map snd (a_add s p (oid, q) lad)))" for lad
    by (induction s p "(oid, q)" lad rule: a_add.induct) auto
  then have "(oid, q) \<in> set (concat (map snd (book_abs b1 kBid @ book_abs b1 kAsk)))"
    using b1(3) assms(2) by (cases s) auto
  then have "a_orders (book_abs b1) oid \<noteq> None"
    unfolding a_orders_def map_of_eq_None_iff by force
  then show ?thesis by (rule_tac cancel_order_ok [OF b1(1), of oid]) (use abs in auto)
qed

theorem add_cancel_round_trip_witness:
  "\<exists>b1 b2. add_order sample_book 1 kAsk 100 5 = Some (True, b1) \<and> book_abs b1 kAsk = [(100, [(1, 5)])] \<and>
     cancel_order b1 1 = Some (True, b2) \<and> book_abs b2 = (\<lambda>s. [])"
proof (rule sample_add)
  fix b assume b: "add_order sample_book 1 kAsk 100 5 = Some (True, b)"
    "book_abs b = (\<lambda>s. [])(kAsk := [(100, [(1, 5)])])"
  then show ?thesis
    using add_cancel_round_trip [OF sample_book_inv(1) _ b(1)] sample_book_inv(2) by auto
qed

text \<open>
  Clearing a well-formed book returns (both loops end and all three final assertions
  hold), empties both sides and gives every order slot and every level slot back.
\<close>

theorem ob_clear_refines:
  assumes "book_inv M N b"
  shows "\<exists>b'. ob_clear b = Some b' \<and> book_inv M N b' \<and> book_abs b' = (\<lambda>s. []) \<and>
    free_order_count b' = M \<and> free_level_count b' = N"
  using assms
proof (rule ob_clear_ok)
  fix b' assume b': "ob_clear b = Some b'" "book_inv M N b'" "book_abs b' = (\<lambda>s. [])"
    "v_ao (view b') = {}" "v_al (view b') = {}"
  note sh = book_shapeD [OF book_invD(1) [OF b'(2)]]
  have "ifs_top f = ifs_capacity f" if "ifs_inv f" "ifs_allocated f = {}" for f
    using that ifs_stack_length [OF that(1)] ifs_invD(3-5) [OF that(1)]
    by (metis (no_types, lifting) Diff_eq_empty_iff card_lessThan distinct_card ifs_allocated_def subset_antisym)
  then have "free_order_count b' = M" "free_level_count b' = N"
    using sh b'(4,5) by (simp_all add: free_order_count_def free_level_count_def ifs_available_def view_sel)
  then show ?thesis using b' by blast
qed

theorem ob_clear_refines_witness:
  "\<exists>b'. ob_clear sample_book3 = Some b' \<and> book_inv 4 4 b' \<and> book_abs b' = (\<lambda>s. []) \<and>
    free_order_count b' = 4 \<and> free_level_count b' = 4"
  by (rule ob_clear_refines [OF sample_book3_inv])

text \<open>
  A buffer of \<open>required_buffer_size\<close> bytes is always enough: with valid parameters the
  factory succeeds whatever the buffer's alignment and contents, and the new book is
  well-formed, empty and has room for an order at any price.
\<close>

theorem ob_create_succeeds:
  assumes "valid_params params" "valid_raw params raw" "buf \<noteq> 0"
    "ob_required_buffer_size params \<le> buf_bytes" "unat buf + unat buf_bytes + 8 \<le> 2 ^ 64"
  shows "\<exists>b. ob_create buf buf_bytes params raw = Some (Some b) \<and>
    book_inv (par_max_orders params) (par_max_levels params) b \<and> book_abs b = (\<lambda>s. []) \<and>
    (\<forall>s p. s \<noteq> kCount \<longrightarrow> \<not> no_room (par_max_orders params) (par_max_levels params) b s p)"
  by (rule ob_create_ok [OF assms]) blast

theorem ob_create_succeeds_witness:
  "\<exists>b. ob_create 4099 2048 sample_params sample_raw = Some (Some b) \<and>
    book_inv (par_max_orders sample_params) (par_max_levels sample_params) b \<and> book_abs b = (\<lambda>s. []) \<and>
    (\<forall>s p. s \<noteq> kCount \<longrightarrow> \<not> no_room (par_max_orders sample_params) (par_max_levels sample_params) b s p)"
  by (rule ob_create_succeeds [OF sample_params_valid _ sample_fits]) simp_all

text \<open>
  The front of each ladder is its best price: the best bid is the greatest bid price
  and the best ask the least ask price, and there is none exactly when the side is empty.
\<close>

lemma sorted_head_best:
  assumes "sorted_wrt (better s) (map fst lad)" "lad = e # r" "p \<in> fst ` set lad"
  shows "p = fst e \<or> better s (fst e) p"
  using assms by auto

theorem best_prices_extreme:
  assumes "book_inv M N b"
  shows "(case best_bid b of None \<Rightarrow> book_abs b kBid = []
      | Some p \<Rightarrow> p \<in> fst ` set (book_abs b kBid) \<and> (\<forall>q \<in> fst ` set (book_abs b kBid). sint q \<le> sint p)) \<and>
    (case best_ask b of None \<Rightarrow> book_abs b kAsk = []
      | Some p \<Rightarrow> p \<in> fst ` set (book_abs b kAsk) \<and> (\<forall>q \<in> fst ` set (book_abs b kAsk). sint p \<le> sint q))"
proof -
  note srt = book_abs_sorted [OF assms]
  have "sint q \<le> sint (fst e)" if "book_abs b kBid = e # r" "q \<in> fst ` set (book_abs b kBid)" for e r q
    using sorted_head_best [OF srt that] by (auto simp: better_def)
  moreover have "sint (fst e) \<le> sint q" if "book_abs b kAsk = e # r" "q \<in> fst ` set (book_abs b kAsk)" for e r q
    using sorted_head_best [OF srt that] by (auto simp: better_def)
  ultimately show ?thesis
    by (cases "book_abs b kBid"; cases "book_abs b kAsk") (simp_all add: best_bid_ok best_ask_ok)
qed

theorem best_prices_extreme_witness:
  "book_inv 4 4 sample_book3 \<and>
    (case best_bid sample_book3 of None \<Rightarrow> book_abs sample_book3 kBid = []
      | Some p \<Rightarrow> p \<in> fst ` set (book_abs sample_book3 kBid) \<and>
          (\<forall>q \<in> fst ` set (book_abs sample_book3 kBid). sint q \<le> sint p))"
  using best_prices_extreme [OF sample_book3_inv] sample_book3_inv by blast

text \<open>
  Blocks handed out by an arena never overlap: in any run of allocations, every block lies
  inside the arena and before every later block, and the arena stays well-formed.
\<close>

theorem arena_blocks_disjoint:
  assumes "ar_inv a" "\<forall>(bytes, k) \<in> set reqs. k < 64 \<and> unat (ar_end a) + 2 ^ max k 3 \<le> 2 ^ 64"
  shows "\<exists>blocks a'. ar_alloc_all a reqs = Some (blocks, a') \<and> ar_inv a' \<and>
    (\<forall>(p, n) \<in> set blocks. unat (ar_cur a) \<le> unat p \<and> unat p + unat n \<le> unat (ar_end a)) \<and>
    sorted_wrt (\<lambda>(p, n) (p', n'). unat p + unat n \<le> unat p') blocks"
  by (rule ar_alloc_all_blocks [OF assms])

theorem arena_blocks_disjoint_witness:
  "\<exists>blocks a'. ar_alloc_all (ar_new 4096 256) [(10, 0), (24, 4), (300, 3)] = Some (blocks, a') \<and> ar_inv a' \<and>
    sorted_wrt (\<lambda>(p, n) (p', n'). unat p + unat n \<le> unat p') blocks"
  using arena_blocks_disjoint [of "ar_new 4096 256" "[(10, 0), (24, 4), (300, 3)]"]
  by (simp add: ar_inv_unat ar_new_def) blast

end
