(* ===== verification/MatchingEngine.thy ===== *)
theory MatchingEngine
  imports OrderBookBind
begin

text \<open>
  The price-time priority matching engine of \<^verbatim>\<open>libs/algo/matching_engine.hpp\<close>: it crosses
  an incoming limit order with the opposite ladder, level by level and first in first out
  within a level, and rests the remainder. \<open>MaxFills\<close> is the length of the fill buffer.
\<close>

section \<open>Data\<close>

record Fill =
  maker_id :: OrderId
  taker_id :: OrderId
  f_price :: Price
  f_qty :: Qty

record MatchResult =
  mr_fills :: "Fill list"
  mr_remaining_qty :: Qty
  mr_rested :: bool

record ModifyResult =
  mod_fills :: "Fill list"
  mod_remaining_qty :: Qty
  mod_rested :: bool
  mod_success :: bool

record MatchingEngine =
  me_book :: OrderBook
  me_fills :: "Fill list"
  me_fill_count :: nat

definition has_fills :: "MatchResult \<Rightarrow> bool" where
  "has_fills r \<longleftrightarrow> mr_fills r \<noteq> []"

definition fully_filled :: "MatchResult \<Rightarrow> bool" where
  "fully_filled r \<longleftrightarrow> mr_fills r \<noteq> [] \<and> mr_remaining_qty r = 0 \<and> \<not> mr_rested r"

definition rejected :: "MatchResult \<Rightarrow> bool" where
  "rejected r \<longleftrightarrow> mr_fills r = [] \<and> \<not> mr_rested r"

section \<open>Crossing\<close>

definition opposite_ladder :: "Side \<Rightarrow> OrderBook \<Rightarrow> nat list" where
  "opposite_ladder side b = (if side = kBid then ob_asks b else ob_bids b)"

definition crosses :: "Side \<Rightarrow> Price \<Rightarrow> Price \<Rightarrow> bool" where
  "crosses side price best = (if side = kBid then sint price \<ge> sint best else sint price \<le> sint best)"

text \<open>
  The inner loop, over the orders of the best level \<open>l\<close>. Its state is the book, the fill
  buffer, the fill count and the remaining quantity; \<open>resting\<close> is the front of the queue.
\<close>

function match_level ::
  "OrderId \<Rightarrow> Price \<Rightarrow> nat \<Rightarrow> OrderBook \<Rightarrow> Fill list \<Rightarrow> nat \<Rightarrow> Qty \<Rightarrow>
   (OrderBook \<times> Fill list \<times> nat \<times> Qty) outcome" where
  "match_level oid exec_price l b fills n remaining =
    (if 0 < remaining \<and> pl_orders (ob_level_slots b ! l) \<noteq> [] \<and> n < length fills then
       let resting = hd (pl_orders (ob_level_slots b ! l));
           fill_qty = min remaining (o_qty (ob_order_slots b ! resting));
           fills = fills[n := \<lparr>maker_id = order_id (ob_order_slots b ! resting), taker_id = oid,
                              f_price = exec_price, f_qty = fill_qty\<rparr>];
           remaining = remaining - fill_qty;
           b = set_order resting (\<lambda>x. x\<lparr>o_qty := o_qty x - fill_qty\<rparr>) b;
           b = set_level l (\<lambda>x. x\<lparr>pl_total_qty := pl_total_qty x - fill_qty\<rparr>) b
       in if o_qty (ob_order_slots b ! resting) = 0 then
            remove_filled_order b resting \<bind> (\<lambda>r. case r of (destroyed, b) \<Rightarrow>
              if destroyed then Some (b, fills, n + 1, remaining)
              else match_level oid exec_price l b fills (n + 1) remaining)
          else match_level oid exec_price l b fills (n + 1) remaining
     else Some (b, fills, n, remaining))"
  by pat_completeness auto
termination
  by (relation "measure (\<lambda>(oid, p, l, b, fills, n, r). length fills - n)") auto

declare match_level.simps [simp del]

text \<open>The outer loop, over the levels of the opposite ladder.\<close>

partial_function (option) match_loop ::
  "OrderId \<Rightarrow> Side \<Rightarrow> Price \<Rightarrow> OrderBook \<Rightarrow> Fill list \<Rightarrow> nat \<Rightarrow> Qty \<Rightarrow>
   (OrderBook \<times> Fill list \<times> nat \<times> Qty) outcome" where
  "match_loop oid side price b fills n remaining =
    (if 0 < remaining \<and> opposite_ladder side b \<noteq> [] \<and> n < length fills then
       let best_level = hd (opposite_ladder side b);
           exec_price = pl_price (ob_level_slots b ! best_level)
       in if \<not> crosses side price exec_price then Some (b, fills, n, remaining)
          else match_level oid exec_price best_level b fills n remaining \<bind>
            (\<lambda>(b, fills, n, remaining). match_loop oid side price b fills n remaining)
     else Some (b, fills, n, remaining))"

definition submit_order ::
  "MatchingEngine \<Rightarrow> OrderId \<Rightarrow> Side \<Rightarrow> Price \<Rightarrow> Qty \<Rightarrow> (MatchResult \<times> MatchingEngine) outcome" where
  "submit_order e oid side price qty =
    (if qty = 0 then
       Some (\<lparr>mr_fills = [], mr_remaining_qty = 0, mr_rested = False\<rparr>, e)
     else do {
       dup \<leftarrow> has_order (me_book e) oid;
       if dup then Some (\<lparr>mr_fills = [], mr_remaining_qty = qty, mr_rested = False\<rparr>, e)
       else do {
         (b, fills, n, remaining) \<leftarrow> match_loop oid side price (me_book e) (me_fills e) 0 qty;
         let still_crosses = opposite_ladder side b \<noteq> [] \<and>
           crosses side price (pl_price (ob_level_slots b ! hd (opposite_ladder side b)));
         (rested, b) \<leftarrow> (if 0 < remaining \<and> \<not> still_crosses
                        then rest_order b oid side price remaining else Some (False, b));
         Some (\<lparr>mr_fills = take n fills, mr_remaining_qty = remaining, mr_rested = rested\<rparr>,
               e\<lparr>me_book := b, me_fills := fills, me_fill_count := n\<rparr>)
       }
     })"

definition engine_cancel_order :: "MatchingEngine \<Rightarrow> OrderId \<Rightarrow> (bool \<times> MatchingEngine) outcome" where
  "engine_cancel_order e oid = do {
     (r, b) \<leftarrow> cancel_order (me_book e) oid;
     Some (r, e\<lparr>me_book := b\<rparr>)
   }"

definition engine_modify_order ::
  "MatchingEngine \<Rightarrow> OrderId \<Rightarrow> Side \<Rightarrow> Price \<Rightarrow> Qty \<Rightarrow> OrderId \<Rightarrow> (ModifyResult \<times> MatchingEngine) outcome" where
  "engine_modify_order e old_id side new_price new_qty new_id = do {
     (ok, e) \<leftarrow> engine_cancel_order e old_id;
     if \<not> ok then
       Some (\<lparr>mod_fills = [], mod_remaining_qty = 0, mod_rested = False, mod_success = False\<rparr>, e)
     else do {
       (r, e) \<leftarrow> submit_order e new_id side new_price new_qty;
       Some (\<lparr>mod_fills = mr_fills r, mod_remaining_qty = mr_remaining_qty r, mod_rested = mr_rested r,
              mod_success = True\<rparr>, e)
     }
   }"

section \<open>The specification of crossing\<close>

text \<open>
  Walk the opposite ladder from the best price. While the price crosses, quantity remains
  and fills are left, the front order trades at its own price: fully when its quantity is
  at most the remainder, otherwise for the remainder.
\<close>

function a_match ::
  "(Price \<Rightarrow> bool) \<Rightarrow> nat \<Rightarrow> Qty \<Rightarrow> alevel list \<Rightarrow> (OrderId \<times> Price \<times> Qty) list \<times> Qty \<times> alevel list" where
  "a_match cr k rem [] = ([], rem, [])"
| "a_match cr k rem ((p, []) # r) = a_match cr k rem r"
| "a_match cr k rem ((p, (oid, q) # es) # r) =
     (if k = 0 \<or> rem = 0 \<or> \<not> cr p then ([], rem, (p, (oid, q) # es) # r)
      else if q \<le> rem then
        (case a_match cr (k - 1) (rem - q) ((p, es) # r) of (fs, rem', lad) \<Rightarrow> ((oid, p, q) # fs, rem', lad))
      else ([(oid, p, rem)], 0, (p, (oid, q - rem) # es) # r))"
  by pat_completeness auto
termination
  by (relation "measure (\<lambda>(cr, k, rem, lad). sum_list (map (\<lambda>(p, es). Suc (length es)) lad))") auto

section \<open>One fill\<close>

definition opp :: "Side \<Rightarrow> Side" where
  "opp s = (if s = kBid then kAsk else kBid)"

lemma opp_valid [simp]: "opp s \<noteq> kCount"
  by (simp add: opp_def)

lemma opposite_ladder_view: "opposite_ladder s b = v_lad (view b) (opp s)"
  by (simp add: opposite_ladder_def opp_def view_sel ob_ladder_def)

lemma v_abs_head:
  assumes "v_lad v s = l # ls" "v_queue v l = i # is"
  shows "v_abs v s = (v_price v l, (order_id (v_ord v i), o_qty (v_ord v i)) # map (v_entry v) is) #
    map (\<lambda>l. (v_price v l, map (v_entry v) (v_queue v l))) ls"
  using assms by (simp add: v_abs_def v_entry_def)

lemma head_unique:
  assumes wf: "wf_core N E v" and h: "v_lad v s = l # ls" "v_queue v l = i # is"
  shows "i \<notin> set is" "l \<notin> set ls" "\<And>t m. m \<in> set (v_lad v t) \<Longrightarrow> m \<noteq> l \<Longrightarrow> i \<notin> set (v_queue v m)"
    "\<And>t. t \<noteq> s \<Longrightarrow> l \<notin> set (v_lad v t)"
proof -
  have l: "l \<in> set (v_lad v s)" and i: "i \<in> set (v_queue v l)" using h by simp_all
  show "i \<notin> set is" using level_okD(2) [OF wf_coreD(5) [OF wf l]] h by simp
  show "l \<notin> set ls" using wf_lad_distinct [OF wf, of s] h by simp
  show "i \<notin> set (v_queue v m)" if "m \<in> set (v_lad v t)" "m \<noteq> l" for t m
    using wf_queue_unique [OF wf l i] wf_lad_bound [OF wf that(1)] that(2) by blast
  show "l \<notin> set (v_lad v t)" if "t \<noteq> s" for t using wf_lad_side [OF wf l] that by blast
qed

lemma abs_drop_head:
  assumes wf: "wf_core N {} v" and h: "v_lad v s = l # ls" "v_queue v l = i # is"
  shows "v_abs (v_drop s i l v) = (v_abs v)(s :=
    (if is = [] then tl (v_abs v s) else (v_price v l, map (v_entry v) is) # tl (v_abs v s)))"
proof (rule ext)
  fix t
  note U = head_unique [OF wf h]
  have ent: "v_entry (v_drop s i l v) = v_entry v" by (auto simp: fun_eq_iff v_entry_def v_drop_def)
  have pr: "v_price (v_drop s i l v) m = v_price v m" for m by (simp add: v_drop_def)
  have qu: "v_queue (v_drop s i l v) m = (if m = l then is else v_queue v m)" for m
    using h(2) by (auto simp: v_drop_def)
  have lad: "v_lad (v_drop s i l v) = (v_lad v)(s := (if is = [] then ls else l # ls))"
    using h by (auto simp: v_drop_def)
  show "v_abs (v_drop s i l v) t = ((v_abs v)(s :=
    (if is = [] then tl (v_abs v s) else (v_price v l, map (v_entry v) is) # tl (v_abs v s)))) t"
    unfolding v_abs_def ent pr qu lad using U h by (cases "t = s") auto
qed

lemma abs_requant_head:
  assumes wf: "wf_core N E v" and h: "v_lad v s = l # ls" "v_queue v l = i # is"
  shows "v_abs (v_requant i l q v) = (v_abs v)(s :=
    (v_price v l, (order_id (v_ord v i), q) # map (v_entry v) is) # tl (v_abs v s))"
proof (rule ext)
  fix t
  note U = head_unique [OF wf h]
  let ?w = "v_requant i l q v"
  have ent: "map (v_entry ?w) xs = map (v_entry v) xs" if "i \<notin> set xs" for xs
    using that by (auto simp: v_entry_def)
  have ei: "v_entry ?w i = (order_id (v_ord v i), q)" by (simp add: v_entry_def)
  show "v_abs ?w t = ((v_abs v)(s :=
    (v_price v l, (order_id (v_ord v i), q) # map (v_entry v) is) # tl (v_abs v s))) t"
  proof (cases "t = s")
    case True
    have "map (v_entry ?w) (v_queue v m) = map (v_entry v) (v_queue v m)" if "m \<in> set ls" for m
      using U(2) U(3) [of m s] that h(1) by (intro ent) auto
    then show ?thesis using True h ent [OF U(1)] ei by (simp add: v_abs_def)
  next
    case False
    have "map (v_entry ?w) (v_queue v m) = map (v_entry v) (v_queue v m)" if "m \<in> set (v_lad v t)" for m
      using U(3) [OF that] U(4) [OF False] that by (intro ent) blast
    then show ?thesis using False by (simp add: v_abs_def)
  qed
qed

lemma fill_view:
  assumes "book_shape M N b" "i < M" "l < N"
  shows "view (set_level l (\<lambda>x. x\<lparr>pl_total_qty := pl_total_qty x - f\<rparr>)
                (set_order i (\<lambda>x. x\<lparr>o_qty := o_qty x - f\<rparr>) b)) =
    v_requant i l (o_qty (v_ord (view b) i) - f) (view b)"
  using view_set_level [of M N "set_order i (\<lambda>x. x\<lparr>o_qty := o_qty x - f\<rparr>) b" l]
    view_set_order [OF assms(1,2)] assms
  by (simp add: v_requant_def)

lemma fill_step:
  assumes inv: "book_inv M N b" and h: "v_lad (view b) s = l # ls" "v_queue (view b) l = i # is"
    and f: "0 < f" "f \<le> o_qty (v_ord (view b) i)"
    and b': "b' = set_level l (\<lambda>x. x\<lparr>pl_total_qty := pl_total_qty x - f\<rparr>)
                (set_order i (\<lambda>x. x\<lparr>o_qty := o_qty x - f\<rparr>) b)"
  shows "o_qty (ob_order_slots b' ! i) = o_qty (v_ord (view b) i) - f"
    "f < o_qty (v_ord (view b) i) \<Longrightarrow> book_inv M N b' \<and> v_lad (view b') = v_lad (view b) \<and>
       v_queue (view b') l = i # is \<and> v_price (view b') l = v_price (view b) l \<and>
       book_abs b' = (book_abs b)(s := (v_price (view b) l,
         (order_id (v_ord (view b) i), o_qty (v_ord (view b) i) - f) # map (v_entry (view b)) is) # tl (book_abs b s))"
    "f = o_qty (v_ord (view b) i) \<Longrightarrow> \<exists>b''. remove_filled_order b' i = Some (is = [], b'') \<and> book_inv M N b'' \<and>
       (is \<noteq> [] \<longrightarrow> v_lad (view b'') = v_lad (view b) \<and> v_queue (view b'') l = is \<and> v_price (view b'') l = v_price (view b) l) \<and>
       book_abs b'' = (book_abs b)(s := (if is = [] then tl (book_abs b s)
         else (v_price (view b) l, map (v_entry (view b)) is) # tl (book_abs b s)))"
proof -
  let ?v = "view b" and ?q = "o_qty (v_ord (view b) i)"
  note sh = book_invD(1) [OF inv] and wf = book_invD(2) [OF inv] and wm = book_invD(3) [OF inv]
  have l: "l \<in> set (v_lad ?v s)" and i: "i \<in> set (v_queue ?v l)" using h by simp_all
  have iao: "i \<in> v_ao ?v" by (rule wf_queue_ao [OF wf l i])
  have "i < M" using iao sh by (auto simp: view_sel ifs_allocated_def book_shape_def)
  then have v': "view b' = v_requant i l (?q - f) ?v"
    unfolding b' by (rule fill_view [OF sh _ wf_lad_bound [OF wf l]])
  have sh': "book_shape M N b'" using sh b' by simp
  show "o_qty (ob_order_slots b' ! i) = ?q - f"
    unfolding view_sel(2) [symmetric] v' by simp
  show "book_inv M N b' \<and> v_lad (view b') = v_lad ?v \<and>
       v_queue (view b') l = i # is \<and> v_price (view b') l = v_price ?v l \<and>
       book_abs b' = (book_abs b)(s := (v_price ?v l,
         (order_id (v_ord ?v i), ?q - f) # map (v_entry ?v) is) # tl (book_abs b s))" if "f < ?q"
  proof -
    have "?q - f \<noteq> 0" using that by auto
    then show ?thesis
      using wf_requant [OF wf l i] wf_maps_requant [OF wm] abs_requant_head [OF wf h] sh' v' h(2)
      by (simp add: book_inv_def book_abs_def)
  qed
  show "\<exists>b''. remove_filled_order b' i = Some (is = [], b'') \<and> book_inv M N b'' \<and>
       (is \<noteq> [] \<longrightarrow> v_lad (view b'') = v_lad ?v \<and> v_queue (view b'') l = is \<and> v_price (view b'') l = v_price ?v l) \<and>
       book_abs b'' = (book_abs b)(s := (if is = [] then tl (book_abs b s)
         else (v_price ?v l, map (v_entry ?v) is) # tl (book_abs b s)))" if "f = ?q"
  proof -
    let ?x = "(v_ord ?v i)\<lparr>o_qty := 0, o_level := None\<rparr>"
    have "view b' = v_requant i l 0 ?v" using v' that by simp
    then obtain b'' where b'': "remove_filled_order b' i = Some (v_queue ?v l = [i], b'')" "book_shape M N b''"
      "view b'' = (v_drop s i l ?v)\<lparr>v_ord := (v_ord ?v)(i := ?x)\<rparr>"
      by (rule remove_filled_drop [OF sh' wf _ l i])
    have "(v_ord (v_drop s i l ?v))(i := ?x) = (v_ord ?v)(i := ?x)" by (simp add: v_drop_def)
    moreover have "i \<notin> v_ao (v_drop s i l ?v)" by (simp add: v_drop_def)
    ultimately have "wf_core N {} (view b'')" "wf_maps (view b'')" "v_abs (view b'') = v_abs (v_drop s i l ?v)"
      using wf_dead_order [OF wf_drop [OF wf wm l i], of i ?x] b''(3) by simp_all
    moreover have "is \<noteq> [] \<longrightarrow> v_lad (view b'') = v_lad ?v \<and> v_queue (view b'') l = is \<and> v_price (view b'') l = v_price ?v l"
      using b''(3) h(2) by (simp add: v_drop_def)
    ultimately show ?thesis
      using b''(1,2) h abs_drop_head [OF wf h] by (simp add: book_inv_def book_abs_def)
  qed
qed

section \<open>The loops refine the specification\<close>

definition mk_fill :: "OrderId \<Rightarrow> OrderId \<times> Price \<times> Qty \<Rightarrow> Fill" where
  "mk_fill taker e = (case e of (maker, p, q) \<Rightarrow>
     \<lparr>maker_id = maker, taker_id = taker, f_price = p, f_qty = q\<rparr>)"

text \<open>
  \<open>progress\<close>: a loop went from one state to another, recording the fills \<open>fs\<close>, and what
  the specification has still to do from the first state is \<open>fs\<close> followed by what it has
  to do from the second.
\<close>

definition progress ::
  "nat \<Rightarrow> nat \<Rightarrow> OrderId \<Rightarrow> Side \<Rightarrow> (Price \<Rightarrow> bool) \<Rightarrow> OrderBook \<times> Fill list \<times> nat \<times> Qty \<Rightarrow>
   OrderBook \<times> Fill list \<times> nat \<times> Qty \<Rightarrow> (OrderId \<times> Price \<times> Qty) list \<Rightarrow> bool" where
  "progress M N oid s cr = (\<lambda>(b, fills, n, rem) (b', fills', n', rem') fs.
     book_inv M N b' \<and> length fills' = length fills \<and> n' \<le> length fills \<and> n' = n + length fs \<and>
     take n' fills' = take n fills @ map (mk_fill oid) fs \<and>
     (\<forall>t. t \<noteq> s \<longrightarrow> book_abs b' t = book_abs b t) \<and>
     a_match cr (length fills - n) rem (book_abs b s) =
       (case a_match cr (length fills - n') rem' (book_abs b' s) of (fs', r, lad) \<Rightarrow> (fs @ fs', r, lad)))"

lemma progress_refl:
  "book_inv M N b \<Longrightarrow> n \<le> length fills \<Longrightarrow> progress M N oid s cr (b, fills, n, rem) (b, fills, n, rem) []"
  by (simp add: progress_def split: prod.split)

lemma progress_trans:
  assumes "progress M N oid s cr x y fs" "progress M N oid s cr y z gs"
  shows "progress M N oid s cr x z (fs @ gs)"
  using assms by (auto simp: progress_def split: prod.splits)

text \<open>A recorded fill, for either outcome of the fill.\<close>

lemma progress_full:
  assumes "book_inv M N b'" "n < length fills" "cr p" "0 < q" "q \<le> rem"
    "book_abs b s = (p, (mid, q) # es) # r"
    "book_abs b' = (book_abs b)(s := (if es = [] then r else (p, es) # r))"
  shows "progress M N oid s cr (b, fills, n, rem) (b', fills[n := mk_fill oid (mid, p, q)], n + 1, rem - q) [(mid, p, q)]"
proof -
  have "rem \<noteq> 0" using assms(4,5) by auto
  moreover have "a_match cr k rem' ((p, es) # r) = a_match cr k rem' (if es = [] then r else (p, es) # r)" for k rem'
    by simp
  moreover have "take (Suc n) (fills[n := x]) = take n fills @ [x]" for x
    using assms(2) by (simp add: take_Suc_conv_app_nth)
  ultimately show ?thesis
    using assms by (simp add: progress_def Suc_diff_Suc split: prod.split del: a_match.simps(2))
qed

lemma progress_partial:
  assumes "book_inv M N b'" "n < length fills" "cr p" "0 < rem" "rem < q"
    "book_abs b s = (p, (mid, q) # es) # r"
    "book_abs b' = (book_abs b)(s := (p, (mid, q - rem) # es) # r)"
  shows "progress M N oid s cr (b, fills, n, rem) (b', fills[n := mk_fill oid (mid, p, rem)], n + 1, 0) [(mid, p, rem)]"
proof -
  have "rem \<noteq> 0" "\<not> q \<le> rem" using assms(4,5) by auto
  moreover have "take (Suc n) (fills[n := x]) = take n fills @ [x]" for x
    using assms(2) by (simp add: take_Suc_conv_app_nth)
  ultimately show ?thesis using assms by (simp add: progress_def)
qed

lemma match_level_stop:
  "rem = 0 \<or> length fills \<le> n \<Longrightarrow> match_level oid p l b fills n rem = Some (b, fills, n, rem)"
  by (subst match_level.simps) auto

lemma match_level_step:
  assumes "0 < rem" "n < length fills" "v_queue (view b) l = i # is" "f = min rem (o_qty (v_ord (view b) i))"
    "b' = set_level l (\<lambda>x. x\<lparr>pl_total_qty := pl_total_qty x - f\<rparr>) (set_order i (\<lambda>x. x\<lparr>o_qty := o_qty x - f\<rparr>) b)"
    "fills' = fills[n := mk_fill oid (order_id (v_ord (view b) i), p, f)]"
  shows "match_level oid p l b fills n rem =
    (if o_qty (ob_order_slots b' ! i) = 0 then
       remove_filled_order b' i \<bind> (\<lambda>(destroyed, b).
         if destroyed then Some (b, fills', n + 1, rem - f) else match_level oid p l b fills' (n + 1) (rem - f))
     else match_level oid p l b' fills' (n + 1) (rem - f))"
  using assms(1-3) unfolding assms(4-6) mk_fill_def view_sel prod.case
  by (subst match_level.simps) (simp add: Let_def)

lemma match_level_ok:
  assumes "book_inv M N b" "v_lad (view b) s = l # ls" "p = v_price (view b) l" "cr p" "n \<le> length fills"
  shows "\<exists>st fs. match_level oid p l b fills n rem = Some st \<and> progress M N oid s cr (b, fills, n, rem) st fs \<and>
    (0 < rem \<and> n < length fills \<longrightarrow> fs \<noteq> [])"
  using assms
proof (induction "length fills - n" arbitrary: b fills n rem)
  case 0
  then show ?case
    using progress_refl [of M N b n fills oid s cr rem] match_level_stop [of rem fills n oid p l b] by auto
next
  case (Suc k)
  note inv = Suc.prems(1)
  have n: "n < length fills" using Suc.hyps(2) by simp
  show ?case
  proof (cases "rem = 0")
    case True
    then show ?thesis
      using Suc.prems progress_refl [of M N b n fills oid s cr rem] match_level_stop [of rem fills n oid p l b]
      by auto
  next
    case False
    then have rem: "0 < rem" by (simp add: word_gt_0)
    have l: "l \<in> set (v_lad (view b) s)" using Suc.prems(2) by simp
    obtain i "is" where qu: "v_queue (view b) l = i # is"
      using wf_coreD(6) [OF book_invD(2) [OF inv] l] by (cases "v_queue (view b) l") auto
    let ?v = "view b"
    define q where "q = o_qty (v_ord ?v i)"
    define f where "f = min rem q"
    define mid where "mid = order_id (v_ord ?v i)"
    define fills' where "fills' = fills[n := mk_fill oid (mid, p, f)]"
    define b' where "b' = set_level l (\<lambda>x. x\<lparr>pl_total_qty := pl_total_qty x - f\<rparr>)
                (set_order i (\<lambda>x. x\<lparr>o_qty := o_qty x - f\<rparr>) b)"
    define es where "es = map (v_entry ?v) is"
    define r where "r = tl (book_abs b s)"
    have "q \<noteq> 0"
      using level_okD(7) [OF wf_coreD(5) [OF book_invD(2) [OF inv] l], of i] qu by (simp add: q_def)
    then have f: "0 < f" "f \<le> q" using rem by (auto simp: f_def word_gt_0 min_def)
    have abs: "book_abs b s = (p, (mid, q) # es) # r"
      using v_abs_head [OF Suc.prems(2) qu] Suc.prems(3)
      by (simp add: book_abs_def es_def r_def mid_def q_def)
    note st = fill_step [OF inv Suc.prems(2) qu f [unfolded q_def] b'_def]
    note step = match_level_step [OF rem n qu f_def [unfolded q_def] b'_def fills'_def [unfolded mid_def]]
    show ?thesis
    proof (cases "f = q")
      case True
      then obtain b'' where b'': "remove_filled_order b' i = Some (is = [], b'')" "book_inv M N b''"
        "is \<noteq> [] \<longrightarrow> v_lad (view b'') = v_lad ?v \<and> v_price (view b'') l = v_price ?v l"
        "book_abs b'' = (book_abs b)(s := (if es = [] then r else (p, es) # r))"
        using st(3) Suc.prems(3) by (auto simp: q_def es_def r_def)
      have qr: "q \<le> rem" using True by (simp add: f_def min_def split: if_splits)
      have pr: "progress M N oid s cr (b, fills, n, rem) (b'', fills', n + 1, rem - f) [(mid, p, q)]"
        using progress_full [where cr = cr and p = p, OF b''(2) n Suc.prems(4) _ qr abs b''(4)] f(1) True by (simp add: fills'_def)
      have z: "o_qty (ob_order_slots b' ! i) = 0" using st(1) True by (simp add: q_def)
      show ?thesis
      proof (cases "is = []")
        case True
        then show ?thesis using step z b''(1) pr by auto
      next
        case False
        have "\<exists>st fs. match_level oid p l b'' fills' (n + 1) (rem - f) = Some st \<and>
          progress M N oid s cr (b'', fills', n + 1, rem - f) st fs \<and>
          (0 < rem - f \<and> n + 1 < length fills' \<longrightarrow> fs \<noteq> [])"
          using Suc.hyps(2) b''(2,3) False Suc.prems n by (intro Suc.hyps(1)) (simp_all add: fills'_def)
        then obtain st fs where st: "match_level oid p l b'' fills' (n + 1) (rem - f) = Some st"
          "progress M N oid s cr (b'', fills', n + 1, rem - f) st fs" by blast
        have "match_level oid p l b fills n rem = Some st" using step z b''(1) False st(1) by simp
        then show ?thesis using progress_trans [OF pr st(2)] by auto
      qed
    next
      case False
      then have fr: "f = rem" "rem < q" using f(2) by (auto simp: f_def min_def split: if_splits)
      then have b': "book_inv M N b'" "book_abs b' = (book_abs b)(s := (p, (mid, q - rem) # es) # r)"
        using st(2) Suc.prems(3) by (simp_all add: q_def mid_def es_def r_def)
      have "progress M N oid s cr (b, fills, n, rem) (b', fills', n + 1, 0) [(mid, p, rem)]"
        using progress_partial [where cr = cr and p = p, OF b'(1) n Suc.prems(4) rem fr(2) abs b'(2)] fr(1) by (simp add: fills'_def)
      moreover have "o_qty (ob_order_slots b' ! i) \<noteq> 0" using st(1) fr by (auto simp: q_def)
      ultimately show ?thesis
        using step fr(1) match_level_stop [of 0 fills' "n + 1" oid p l b'] by auto
    qed
  qed
qed

definition a_stuck :: "(Price \<Rightarrow> bool) \<Rightarrow> nat \<Rightarrow> Qty \<Rightarrow> alevel list \<Rightarrow> bool" where
  "a_stuck cr k rem lad \<longleftrightarrow> k = 0 \<or> rem = 0 \<or> lad = [] \<or> \<not> cr (fst (hd lad))"

lemma a_match_stuck:
  assumes "a_stuck cr k rem lad" "\<forall>(p, es) \<in> set lad. es \<noteq> []"
  shows "a_match cr k rem lad = ([], rem, lad)"
proof (cases lad)
  case (Cons e r)
  obtain p oid q es where "e = (p, (oid, q) # es)"
    using assms(2) Cons by (cases e; cases "snd e") auto
  then show ?thesis using assms(1) Cons by (auto simp: a_stuck_def)
qed simp

lemma book_abs_nonempty: "book_inv M N b \<Longrightarrow> \<forall>(p, es) \<in> set (book_abs b s). es \<noteq> []"
  using book_abs_queues(1) by blast

lemma match_loop_stop:
  assumes "a_stuck (crosses side price) (length fills - n) rem (book_abs b (opp side))"
  shows "match_loop oid side price b fills n rem = Some (b, fills, n, rem)"
  using assms unfolding a_stuck_def
  by (subst match_loop.simps)
     (auto simp: opposite_ladder_view book_abs_def v_abs_def view_sel Let_def hd_map)

lemma match_loop_ok:
  assumes "book_inv M N b" "n \<le> length fills"
  shows "\<exists>b' fills' n' rem' fs. match_loop oid side price b fills n rem = Some (b', fills', n', rem') \<and>
    progress M N oid (opp side) (crosses side price) (b, fills, n, rem) (b', fills', n', rem') fs \<and>
    a_stuck (crosses side price) (length fills - n') rem' (book_abs b' (opp side))"
  using assms
proof (induction "length fills - n" arbitrary: b fills n rem rule: less_induct)
  case less
  let ?cr = "crosses side price" and ?s = "opp side"
  show ?case
  proof (cases "a_stuck ?cr (length fills - n) rem (book_abs b ?s)")
    case True
    then show ?thesis using match_loop_stop progress_refl [OF less.prems] by metis
  next
    case False
    then obtain l ls where lad: "v_lad (view b) ?s = l # ls"
      by (cases "v_lad (view b) ?s") (auto simp: a_stuck_def book_abs_def v_abs_def)
    let ?p = "v_price (view b) l"
    have g: "n < length fills" "0 < rem" "?cr ?p"
      using False lad by (auto simp: a_stuck_def book_abs_def v_abs_def word_gt_0)
    obtain b1 fills1 n1 rem1 fs where 1: "match_level oid ?p l b fills n rem = Some (b1, fills1, n1, rem1)"
      "progress M N oid ?s ?cr (b, fills, n, rem) (b1, fills1, n1, rem1) fs" "fs \<noteq> []"
      using match_level_ok [OF less.prems(1) lad refl, of ?cr n fills oid rem, OF g(3) less.prems(2)] g(1,2)
      by (metis prod_cases4)
    have p1: "book_inv M N b1" "length fills1 = length fills" "n1 \<le> length fills1" "n < n1"
      using 1(2,3) by (auto simp: progress_def)
    have unfold: "match_loop oid side price b fills n rem = match_loop oid side price b1 fills1 n1 rem1"
      using g lad 1(1) by (subst match_loop.simps) (simp add: opposite_ladder_view view_sel(1) Let_def)
    have "length fills1 - n1 < length fills - n" using p1 by simp
    from less.hyps [OF this p1(1,3), of rem1]
    obtain b2 fills2 n2 rem2 gs where 2: "match_loop oid side price b1 fills1 n1 rem1 = Some (b2, fills2, n2, rem2)"
      "progress M N oid ?s ?cr (b1, fills1, n1, rem1) (b2, fills2, n2, rem2) gs"
      "a_stuck ?cr (length fills1 - n2) rem2 (book_abs b2 ?s)" by blast
    show ?thesis using unfold 2(1,3) p1(2) progress_trans [OF 1(2) 2(2)] by metis
  qed
qed

text \<open>The loops from the start of \<open>submit_order\<close>.\<close>

lemma match_loop_start:
  assumes inv: "book_inv M N b"
  obtains b' fills' fs rem' where
    "match_loop oid side price b fills 0 rem = Some (b', fills', length fs, rem')"
    "book_inv M N b'" "length fills' = length fills" "take (length fs) fills' = map (mk_fill oid) fs"
    "a_match (crosses side price) (length fills) rem (book_abs b (opp side)) = (fs, rem', book_abs b' (opp side))"
    "\<And>t. t \<noteq> opp side \<Longrightarrow> book_abs b' t = book_abs b t"
    "a_stuck (crosses side price) (length fills - length fs) rem' (book_abs b' (opp side))"
proof -
  obtain b' fills' n' rem' fs where 1: "match_loop oid side price b fills 0 rem = Some (b', fills', n', rem')"
    "progress M N oid (opp side) (crosses side price) (b, fills, 0, rem) (b', fills', n', rem') fs"
    "a_stuck (crosses side price) (length fills - n') rem' (book_abs b' (opp side))"
    using match_loop_ok [OF inv, of 0 fills] by blast
  from 1(2) have 2: "book_inv M N b'" "length fills' = length fills" "n' = length fs"
    "take n' fills' = map (mk_fill oid) fs" "\<forall>t. t \<noteq> opp side \<longrightarrow> book_abs b' t = book_abs b t"
    "a_match (crosses side price) (length fills) rem (book_abs b (opp side)) =
       (case a_match (crosses side price) (length fills - n') rem' (book_abs b' (opp side)) of
          (fs', r, lad) \<Rightarrow> (fs @ fs', r, lad))"
    by (auto simp: progress_def)
  have "a_match (crosses side price) (length fills) rem (book_abs b (opp side)) = (fs, rem', book_abs b' (opp side))"
    unfolding 2(6) a_match_stuck [OF 1(3) book_abs_nonempty [OF 2(1)]] by simp
  then show thesis using that 1(1,3) 2 by simp
qed

section \<open>What crossing does\<close>

text \<open>The orders of a ladder in price-time priority, with the prices they trade at.\<close>

definition a_flat :: "alevel list \<Rightarrow> (OrderId \<times> Price \<times> Qty) list" where
  "a_flat lad = concat (map (\<lambda>(p, es). map (\<lambda>(oid, q). (oid, p, q)) es) lad)"

lemma a_flat_simps [simp]:
  "a_flat [] = []" "a_flat ((p, []) # r) = a_flat r"
  "a_flat ((p, (oid, q) # es) # r) = (oid, p, q) # a_flat ((p, es) # r)"
  by (simp_all add: a_flat_def)

lemma a_match_conserves:
  "a_match cr k rem lad = (fs, rem', lad') \<Longrightarrow> (\<Sum>(_, _, q)\<leftarrow>fs. unat q) + unat rem' = unat rem"
proof (induction cr k rem lad arbitrary: fs rem' lad' rule: a_match.induct)
  case (3 cr k rem p oid q es r)
  show ?case
  proof (cases "k = 0 \<or> rem = 0 \<or> \<not> cr p \<or> \<not> q \<le> rem")
    case True
    then show ?thesis using 3(2) by (auto split: if_splits)
  next
    case False
    obtain fs1 rem1 lad1 where 1: "a_match cr (k - 1) (rem - q) ((p, es) # r) = (fs1, rem1, lad1)"
      by (metis prod_cases3)
    have "(\<Sum>(_, _, q)\<leftarrow>fs1. unat q) + unat rem1 = unat (rem - q)"
      using 3(1) [OF _ _ 1] False by simp
    moreover have "unat (rem - q) = unat rem - unat q" "unat q \<le> unat rem"
      using False by (simp_all add: unat_sub word_le_nat_alt)
    ultimately show ?thesis using 3(2) 1 False by auto
  qed
qed auto

lemma a_match_bound: "a_match cr k rem lad = (fs, rem', lad') \<Longrightarrow> length fs \<le> k"
proof (induction cr k rem lad arbitrary: fs rem' lad' rule: a_match.induct)
  case (3 cr k rem p oid q es r)
  obtain fs1 rem1 lad1 where 1: "a_match cr (k - 1) (rem - q) ((p, es) # r) = (fs1, rem1, lad1)"
    by (metis prod_cases3)
  show ?case using 3 1 by (auto split: if_splits)
qed auto

text \<open>
  Price-time priority: the fills are a prefix of the flattened ladder, each for the full
  quantity of its order but possibly the last, which then leaves no remainder.
\<close>

lemma a_match_priority:
  "a_match cr k rem lad = (fs, rem', lad') \<Longrightarrow>
     a_flat lad = fs @ a_flat lad' \<or>
     (\<exists>gs oid p q f rest. fs = gs @ [(oid, p, f)] \<and> 0 < f \<and> f < q \<and> rem' = 0 \<and>
        a_flat lad = gs @ (oid, p, q) # rest \<and> a_flat lad' = (oid, p, q - f) # rest)"
proof (induction cr k rem lad arbitrary: fs rem' lad' rule: a_match.induct)
  case (3 cr k rem p oid q es r)
  obtain fs1 rem1 lad1 where 1: "a_match cr (k - 1) (rem - q) ((p, es) # r) = (fs1, rem1, lad1)"
    by (metis prod_cases3)
  consider (stop) "k = 0 \<or> rem = 0 \<or> \<not> cr p" | (full) "\<not> (k = 0 \<or> rem = 0 \<or> \<not> cr p)" "q \<le> rem"
    | (part) "\<not> (k = 0 \<or> rem = 0 \<or> \<not> cr p)" "\<not> q \<le> rem" by blast
  then show ?case
  proof cases
    case stop
    then show ?thesis using 3(2) by auto
  next
    case full
    then have fs: "fs = (oid, p, q) # fs1" "rem' = rem1" "lad' = lad1" using 3(2) 1 by auto
    from 3(1) [OF full 1] show ?thesis
    proof
      assume "a_flat ((p, es) # r) = fs1 @ a_flat lad1"
      then show ?thesis using fs by simp
    next
      assume "\<exists>gs oid p' q f rest. fs1 = gs @ [(oid, p', f)] \<and> 0 < f \<and> f < q \<and> rem1 = 0 \<and>
        a_flat ((p, es) # r) = gs @ (oid, p', q) # rest \<and> a_flat lad1 = (oid, p', q - f) # rest"
      then obtain gs oid' p' q' f rest where "fs1 = gs @ [(oid', p', f)]" "0 < f" "f < q'" "rem1 = 0"
        "a_flat ((p, es) # r) = gs @ (oid', p', q') # rest" "a_flat lad1 = (oid', p', q' - f) # rest" by blast
      then show ?thesis
        using fs by (intro disjI2 exI [of _ "(oid, p, q) # gs"] exI [of _ oid'] exI [of _ p'] exI [of _ q']
            exI [of _ f] exI [of _ rest]) simp
    qed
  next
    case part
    then show ?thesis
      using 3(2) by (intro disjI2 exI [of _ "[]"]) (auto simp: word_gt_0)
  qed
qed auto

lemma a_match_prices: "a_match cr k rem lad = (fs, rem', lad') \<Longrightarrow> (oid, p, q) \<in> set fs \<Longrightarrow> cr p"
proof (induction cr k rem lad arbitrary: fs rem' lad' rule: a_match.induct)
  case (3 cr k rem p' oid' q' es r)
  obtain fs1 rem1 lad1 where 1: "a_match cr (k - 1) (rem - q') ((p', es) # r) = (fs1, rem1, lad1)"
    by (metis prod_cases3)
  show ?case using 3 1 by (auto split: if_splits)
qed auto

lemma a_match_levels: "a_match cr k rem lad = (fs, rem', lad') \<Longrightarrow> set (map fst lad') \<subseteq> set (map fst lad)"
proof (induction cr k rem lad arbitrary: fs rem' lad' rule: a_match.induct)
  case (3 cr k rem p' oid' q' es r)
  obtain fs1 rem1 lad1 where 1: "a_match cr (k - 1) (rem - q') ((p', es) # r) = (fs1, rem1, lad1)"
    by (metis prod_cases3)
  show ?case using 3 1 by (auto split: if_splits)
qed auto

lemma a_match_ids:
  assumes "a_match cr k rem lad = (fs, rem', lad')"
  shows "fst ` set (a_flat lad') \<subseteq> fst ` set (a_flat lad)" "fst ` set fs \<subseteq> fst ` set (a_flat lad)"
  using a_match_priority [OF assms] by (elim disjE exE conjE; auto)+

lemma a_orders_None_iff:
  "a_orders A oid = None \<longleftrightarrow> (\<forall>s. s \<noteq> kCount \<longrightarrow> oid \<notin> fst ` set (a_flat (A s)))"
proof -
  have "fst ` set (concat (map snd lad)) = fst ` set (a_flat lad)" for lad :: "alevel list"
  proof (induction lad)
    case (Cons e r)
    obtain p es where e: "e = (p, es)" by (cases e)
    have "a_flat (e # r) = map (\<lambda>(oid, q). (oid, p, q)) es @ a_flat r" by (simp add: a_flat_def e)
    moreover have "fst ` set (map (\<lambda>(oid, q). (oid, p, q)) es) = fst ` set es" by force
    ultimately show ?case using Cons e by (simp add: image_Un)
  qed simp
  then have "a_orders A oid = None \<longleftrightarrow> oid \<notin> fst ` set (a_flat (A kBid)) \<union> fst ` set (a_flat (A kAsk))"
    by (simp only: a_orders_def map_of_eq_None_iff map_append concat_append set_append image_Un)
  moreover have "(\<forall>s. s \<noteq> kCount \<longrightarrow> P s) \<longleftrightarrow> P kBid \<and> P kAsk" for P
  proof
    assume "P kBid \<and> P kAsk"
    then show "\<forall>s. s \<noteq> kCount \<longrightarrow> P s" using Side.exhaust by metis
  qed simp
  ultimately show ?thesis by simp
qed

section \<open>Submitting an order\<close>

abbreviation engine_inv :: "nat \<Rightarrow> nat \<Rightarrow> MatchingEngine \<Rightarrow> bool" where
  "engine_inv M N e \<equiv> book_inv M N (me_book e)"

abbreviation engine_abs :: "MatchingEngine \<Rightarrow> Side \<Rightarrow> alevel list" where
  "engine_abs e \<equiv> book_abs (me_book e)"

lemma still_crosses_abs:
  "opposite_ladder side b \<noteq> [] \<and> crosses side price (pl_price (ob_level_slots b ! hd (opposite_ladder side b)))
   \<longleftrightarrow> book_abs b (opp side) \<noteq> [] \<and> crosses side price (fst (hd (book_abs b (opp side))))"
  by (auto simp: opposite_ladder_view book_abs_def v_abs_def view_sel hd_map)

lemma submit_order_cases:
  assumes inv: "engine_inv M N e" and side: "side \<noteq> kCount"
  obtains (zero) "qty = 0"
      "submit_order e oid side price qty = Some (\<lparr>mr_fills = [], mr_remaining_qty = 0, mr_rested = False\<rparr>, e)"
  | (dup) "qty \<noteq> 0" "a_orders (engine_abs e) oid \<noteq> None"
      "submit_order e oid side price qty = Some (\<lparr>mr_fills = [], mr_remaining_qty = qty, mr_rested = False\<rparr>, e)"
  | (run) fs rem lad rested e' b1 where "qty \<noteq> 0" "a_orders (engine_abs e) oid = None"
      "submit_order e oid side price qty =
         Some (\<lparr>mr_fills = map (mk_fill oid) fs, mr_remaining_qty = rem, mr_rested = rested\<rparr>, e')"
      "engine_inv M N e'" "length (me_fills e') = length (me_fills e)"
      "a_match (crosses side price) (length (me_fills e)) qty (engine_abs e (opp side)) = (fs, rem, lad)"
      "a_stuck (crosses side price) (length (me_fills e) - length fs) rem lad"
      "rested \<Longrightarrow> rem \<noteq> 0 \<and> (lad = [] \<or> \<not> crosses side price (fst (hd lad))) \<and>
         engine_abs e' = (engine_abs e)(opp side := lad, side := a_add side price (oid, rem) (engine_abs e side))"
      "\<not> rested \<Longrightarrow> engine_abs e' = (engine_abs e)(opp side := lad) \<and>
         (rem = 0 \<or> lad \<noteq> [] \<and> crosses side price (fst (hd lad)) \<or>
          book_inv M N b1 \<and> book_abs b1 = (engine_abs e)(opp side := lad) \<and> no_room M N b1 side price)"
proof -
  let ?b = "me_book e" and ?cr = "crosses side price"
  have opp: "opp side \<noteq> side" using side by (cases side) (simp_all add: opp_def)
  consider "qty = 0" | "qty \<noteq> 0" "a_orders (engine_abs e) oid \<noteq> None"
    | "qty \<noteq> 0" "a_orders (engine_abs e) oid = None" by blast
  then show thesis
  proof cases
    case 1
    then show thesis using zero by (simp add: submit_order_def)
  next
    case 2
    then show thesis using dup has_order_ok [OF inv, of oid] by (simp add: submit_order_def)
  next
    case 3
    obtain b1 fills fs rem where m: "match_loop oid side price ?b (me_fills e) 0 qty = Some (b1, fills, length fs, rem)"
      "book_inv M N b1" "length fills = length (me_fills e)" "take (length fs) fills = map (mk_fill oid) fs"
      "a_match ?cr (length (me_fills e)) qty (book_abs ?b (opp side)) = (fs, rem, book_abs b1 (opp side))"
      "\<And>t. t \<noteq> opp side \<Longrightarrow> book_abs b1 t = book_abs ?b t"
      "a_stuck ?cr (length (me_fills e) - length fs) rem (book_abs b1 (opp side))"
      by (rule match_loop_start [OF inv, of oid side price "me_fills e" qty]) blast
    let ?lad = "book_abs b1 (opp side)"
    have abs1: "book_abs b1 = (book_abs ?b)(opp side := ?lad)" using m(6) by auto
    have fresh: "a_orders (book_abs b1) oid = None"
      unfolding a_orders_None_iff
    proof (intro allI impI)
      fix s assume s: "s \<noteq> kCount"
      have "oid \<notin> fst ` set (a_flat (book_abs ?b s))" using 3(2) s unfolding a_orders_None_iff by simp
      then show "oid \<notin> fst ` set (a_flat (book_abs b1 s))"
        using a_match_ids(1) [OF m(5)] m(6) [of s] by (cases "s = opp side") auto
    qed
    have dup: "has_order ?b oid = Some False" using has_order_ok [OF inv, of oid] 3(2) by simp
    let ?still = "?lad \<noteq> [] \<and> ?cr (fst (hd ?lad))"
    show thesis
    proof (cases "0 < rem \<and> \<not> ?still")
      case False
      let ?e = "e\<lparr>me_book := b1, me_fills := fills, me_fill_count := length fs\<rparr>"
      have "submit_order e oid side price qty =
          Some (\<lparr>mr_fills = map (mk_fill oid) fs, mr_remaining_qty = rem, mr_rested = False\<rparr>, ?e)"
        using 3(1) dup m(1,4) False unfolding submit_order_def still_crosses_abs Let_def by auto
      then show thesis
        using 3 m abs1 False by (intro run [of fs rem False ?e ?lad b1]) (auto simp: word_gt_0)
    next
      case True
      obtain r b2 where r: "add_order b1 oid side price rem = Some (r, b2)" "book_inv M N b2"
        "r \<Longrightarrow> rem \<noteq> 0 \<and> a_orders (book_abs b1) oid = None \<and>
           book_abs b2 = (book_abs b1)(side := a_add side price (oid, rem) (book_abs b1 side))"
        "\<not> r \<Longrightarrow> book_abs b2 = book_abs b1 \<and>
           (rem = 0 \<or> a_orders (book_abs b1) oid \<noteq> None \<or> no_room M N b1 side price)"
        by (rule add_order_ok [OF m(2) side, of oid price rem]) blast
      let ?e = "e\<lparr>me_book := b2, me_fills := fills, me_fill_count := length fs\<rparr>"
      have "submit_order e oid side price qty =
          Some (\<lparr>mr_fills = map (mk_fill oid) fs, mr_remaining_qty = rem, mr_rested = r\<rparr>, ?e)"
        using 3(1) dup m(1,4) True r(1) unfolding submit_order_def still_crosses_abs Let_def rest_order_def by auto
      then show thesis
        using 3 m r(2-4) abs1 True opp fresh by (intro run [of fs rem r ?e ?lad b1]) auto
    qed
  qed
qed

section \<open>Properties\<close>

definition fill_entry :: "Fill \<Rightarrow> OrderId \<times> Price \<times> Qty" where
  "fill_entry f = (maker_id f, f_price f, f_qty f)"

lemma fill_entry_mk [simp]: "fill_entry (mk_fill oid e) = e"
  by (cases e) (simp add: fill_entry_def mk_fill_def)

lemma mk_fill_sel [simp]:
  "f_qty (mk_fill oid (m, p, q)) = q" "f_price (mk_fill oid (m, p, q)) = p"
  "maker_id (mk_fill oid (m, p, q)) = m" "taker_id (mk_fill oid (m, p, q)) = oid"
  by (simp_all add: mk_fill_def)

lemma a_flat_mem: "(oid, p, q) \<in> set (a_flat lad) \<longleftrightarrow> (\<exists>es. (p, es) \<in> set lad \<and> (oid, q) \<in> set es)"
  by (force simp: a_flat_def)

lemma a_flat_pos:
  assumes "book_inv M N b" "(oid, p, q) \<in> set (a_flat (book_abs b s))"
  shows "0 < q"
proof -
  obtain es where "(p, es) \<in> set (book_abs b s)" "(oid, q) \<in> set es" using assms(2) by (auto simp: a_flat_mem)
  then have "q \<noteq> 0" by (rule book_abs_queues(2) [OF assms(1)])
  then show ?thesis by (simp add: word_gt_0)
qed

lemma a_match_fills_pos:
  assumes "a_match cr k rem lad = (fs, rem', lad')" "\<And>oid p q. (oid, p, q) \<in> set (a_flat lad) \<Longrightarrow> 0 < q"
    "(oid, p, q) \<in> set fs"
  shows "0 < q"
  using a_match_priority [OF assms(1)] assms(3) by (elim disjE exE conjE) (auto intro: assms(2))

text \<open>The prices of the two sides do not overlap: every bid is below every ask.\<close>

definition below :: "Price set \<Rightarrow> Price set \<Rightarrow> bool" where
  "below S T \<longleftrightarrow> (\<forall>x \<in> S. \<forall>y \<in> T. sint x < sint y)"

lemma below_mono: "below S T \<Longrightarrow> S' \<subseteq> S \<Longrightarrow> T' \<subseteq> T \<Longrightarrow> below S' T'"
  unfolding below_def by blast

lemma below_insert:
  "below (insert p S) T \<longleftrightarrow> (\<forall>y \<in> T. sint p < sint y) \<and> below S T"
  "below S (insert p T) \<longleftrightarrow> (\<forall>x \<in> S. sint x < sint p) \<and> below S T"
  unfolding below_def by blast+

definition uncrossed :: "(Side \<Rightarrow> alevel list) \<Rightarrow> bool" where
  "uncrossed A \<longleftrightarrow> below (set (map fst (A kBid))) (set (map fst (A kAsk)))"

lemma a_add_prices: "set (map fst (a_add s p e lad)) = insert p (set (map fst lad))"
  by (induction s p e lad rule: a_add.induct) auto

lemma no_cross_all:
  assumes "sorted_wrt (better (opp side)) (map fst lad)" "lad = [] \<or> \<not> crosses side price (fst (hd lad))"
    "p \<in> set (map fst lad)" "side \<noteq> kCount"
  shows "\<not> crosses side price p"
  using assms by (cases lad; cases side) (auto simp: better_def opp_def crosses_def)

lemma a_match_sorted:
  "a_match cr k rem lad = (fs, rem', lad') \<Longrightarrow> sorted_wrt P (map fst lad) \<Longrightarrow> sorted_wrt P (map fst lad')"
proof (induction cr k rem lad arbitrary: fs rem' lad' rule: a_match.induct)
  case (3 cr k rem p' oid' q' es r)
  obtain fs1 rem1 lad1 where 1: "a_match cr (k - 1) (rem - q') ((p', es) # r) = (fs1, rem1, lad1)"
    by (metis prod_cases3)
  show ?case using 3 1 by (auto split: if_splits)
qed auto

lemma uncrossed_rest:
  assumes "uncrossed A" "side \<noteq> kCount" "set (map fst lad) \<subseteq> set (map fst (A (opp side)))"
    "\<And>p. p \<in> set (map fst lad) \<Longrightarrow> \<not> crosses side price p"
  shows "uncrossed (A(opp side := lad, side := a_add side price e (A side)))"
proof (cases "side = kBid")
  case True
  then show ?thesis
    using assms(3,4) below_mono [OF assms(1) [unfolded uncrossed_def], OF order_refl, of "set (map fst lad)"]
    by (simp add: uncrossed_def opp_def a_add_prices below_insert crosses_def not_le del: set_map)
next
  case False
  then have "side = kAsk" using assms(2) by (cases side) simp_all
  then show ?thesis
    using assms(3,4) below_mono [OF assms(1) [unfolded uncrossed_def] _ order_refl, of "set (map fst lad)"]
    by (simp add: uncrossed_def opp_def a_add_prices below_insert crosses_def not_le del: set_map)
qed

lemma uncrossed_shrink:
  assumes "uncrossed A" "set (map fst lad) \<subseteq> set (map fst (A s))"
  shows "uncrossed (A(s := lad))"
  using below_mono [OF assms(1) [unfolded uncrossed_def]] assms(1,2)
  by (cases s) (simp_all add: uncrossed_def del: set_map)

definition sample_engine :: MatchingEngine where
  "sample_engine = \<lparr>me_book = sample_book3, me_fills = replicate 4 (mk_fill 0 (0, 0, 0)), me_fill_count = 0\<rparr>"

definition sample_engine0 :: MatchingEngine where
  "sample_engine0 = \<lparr>me_book = sample_book, me_fills = replicate 4 (mk_fill 0 (0, 0, 0)), me_fill_count = 0\<rparr>"

lemma sample_engine_inv: "engine_inv 4 4 sample_engine" "engine_inv 4 4 sample_engine0"
  by (simp_all add: sample_engine_def sample_engine0_def sample_book3_inv sample_book_inv)

text \<open>
  C1. Submitting an order to a well-formed engine always returns: no assertion fails, no abort
  is reached and both crossing loops end. The engine is well-formed afterwards.
\<close>

theorem submit_order_total:
  assumes "engine_inv M N e" "side \<noteq> kCount"
  shows "\<exists>r e'. submit_order e oid side price qty = Some (r, e') \<and> engine_inv M N e' \<and>
    length (me_fills e') = length (me_fills e)"
  using assms by (rule submit_order_cases [where qty = qty and oid = oid and price = price]) (use assms in blast)+

theorem submit_order_total_witness:
  "engine_inv 4 4 sample_engine \<and> (\<exists>r e'. submit_order sample_engine 9 kBid 101 8 = Some (r, e') \<and>
     engine_inv 4 4 e' \<and> length (me_fills e') = 4)"
  using submit_order_total [OF sample_engine_inv(1), of kBid 9 101 8] sample_engine_inv(1)
  by (simp add: sample_engine_def)

text \<open>
  C2. No quantity appears or disappears: the quantities of the fills and the reported
  remainder add up, as integers, to the submitted quantity; and no fill is empty.
\<close>

theorem submit_order_conserves_quantity:
  assumes "engine_inv M N e" "side \<noteq> kCount"
  shows "\<exists>r e'. submit_order e oid side price qty = Some (r, e') \<and>
    (\<Sum>f\<leftarrow>mr_fills r. unat (f_qty f)) + unat (mr_remaining_qty r) = unat qty \<and>
    (\<forall>f \<in> set (mr_fills r). 0 < f_qty f)"
  using assms
proof (cases rule: submit_order_cases [where qty = qty and oid = oid and price = price])
  case (run fs rem lad rested e' b1)
  have "map (\<lambda>f. unat (f_qty f)) (map (mk_fill oid) fs) = map (\<lambda>(_, _, q). unat q) fs" by auto
  moreover have "0 < q" if "(m, p, q) \<in> set fs" for m p q
    by (rule a_match_fills_pos [OF run(6) a_flat_pos [OF assms(1)] that])
  ultimately show ?thesis
    using run(3) a_match_conserves [OF run(6)] by (auto simp del: map_map)
qed auto

theorem submit_order_conserves_quantity_witness:
  "\<exists>r e'. submit_order sample_engine 9 kBid 101 8 = Some (r, e') \<and>
    (\<Sum>f\<leftarrow>mr_fills r. unat (f_qty f)) + unat (mr_remaining_qty r) = 8 \<and> (\<forall>f \<in> set (mr_fills r). 0 < f_qty f)"
  using submit_order_conserves_quantity [OF sample_engine_inv(1), of kBid 9 101 8] by simp

text \<open>
  C3. Price-time priority. The fills are a prefix of the opposite side in priority order (best
  price first, oldest order first within a price), at the price of the resting order, and what
  remains of the opposite side is the rest. Every fill takes the whole resting order, except
  possibly the last one, which then leaves nothing of the incoming order.
\<close>

theorem submit_order_price_time_priority:
  assumes "engine_inv M N e" "side \<noteq> kCount"
  shows "\<exists>r e'. submit_order e oid side price qty = Some (r, e') \<and>
    (a_flat (engine_abs e (opp side)) = map fill_entry (mr_fills r) @ a_flat (engine_abs e' (opp side)) \<or>
     (\<exists>gs m p q f rest. map fill_entry (mr_fills r) = gs @ [(m, p, f)] \<and> 0 < f \<and> f < q \<and> mr_remaining_qty r = 0 \<and>
        a_flat (engine_abs e (opp side)) = gs @ (m, p, q) # rest \<and>
        a_flat (engine_abs e' (opp side)) = (m, p, q - f) # rest))"
  using assms
proof (cases rule: submit_order_cases [where qty = qty and oid = oid and price = price])
  case (run fs rem lad rested e' b1)
  have opp: "opp side \<noteq> side" using assms(2) by (cases side) (simp_all add: opp_def)
  have "engine_abs e' (opp side) = lad" using run(8,9) opp by (cases rested) simp_all
  moreover have "map fill_entry (map (mk_fill oid) fs) = fs" by (simp add: map_idI)
  ultimately show ?thesis using run(3) a_match_priority [OF run(6)] by (simp del: map_map)
qed auto

theorem submit_order_price_time_priority_witness:
  "\<exists>r e'. submit_order sample_engine 9 kBid 101 8 = Some (r, e') \<and>
    (a_flat (engine_abs sample_engine kAsk) = map fill_entry (mr_fills r) @ a_flat (engine_abs e' kAsk) \<or>
     (\<exists>gs m p q f rest. map fill_entry (mr_fills r) = gs @ [(m, p, f)] \<and> 0 < f \<and> f < q \<and> mr_remaining_qty r = 0 \<and>
        a_flat (engine_abs sample_engine kAsk) = gs @ (m, p, q) # rest \<and>
        a_flat (engine_abs e' kAsk) = (m, p, q - f) # rest))"
  using submit_order_price_time_priority [OF sample_engine_inv(1), of kBid 9 101 8] by (simp add: opp_def)



text \<open>
  C5. Submitting an order never leaves a crossed book: if every bid is below every ask
  before, so it is after, even when the fill buffer ran out in the middle of crossing.
\<close>

theorem submit_order_uncrossed:
  assumes "engine_inv M N e" "side \<noteq> kCount" "uncrossed (engine_abs e)"
  shows "\<exists>r e'. submit_order e oid side price qty = Some (r, e') \<and> uncrossed (engine_abs e')"
  using assms(1,2)
proof (cases rule: submit_order_cases [where qty = qty and oid = oid and price = price])
  case (run fs rem lad rested e' b1)
  have lv: "set (map fst lad) \<subseteq> set (map fst (engine_abs e (opp side)))" by (rule a_match_levels [OF run(6)])
  have "uncrossed (engine_abs e')"
  proof (cases rested)
    case True
    have "\<not> crosses side price p" if "p \<in> set (map fst lad)" for p
      by (rule no_cross_all [OF a_match_sorted [OF run(6) book_abs_sorted [OF assms(1)]] _ that assms(2)])
         (use run(8) True in blast)
    then show ?thesis using uncrossed_rest [OF assms(3,2) lv] run(8) True by simp
  next
    case False
    then show ?thesis using uncrossed_shrink [OF assms(3) lv] run(9) by simp
  qed
  then show ?thesis using run(3) by blast
qed (use assms(3) in auto)

theorem submit_order_uncrossed_witness:
  "uncrossed (engine_abs sample_engine0) \<and>
   (\<exists>r e'. submit_order sample_engine0 9 kBid 101 8 = Some (r, e') \<and> uncrossed (engine_abs e'))"
proof -
  have "uncrossed (engine_abs sample_engine0)"
    by (simp add: sample_engine0_def sample_book_inv(2) uncrossed_def below_def)
  then show ?thesis using submit_order_uncrossed [OF sample_engine_inv(2), of kBid 9 101 8] by simp
qed

text \<open>
  C6. The engine implements its specification: for a fresh order id and a positive quantity,
  fills, remainder and opposite ladder are those of the abstract walk \<open>a_match\<close>; the
  remainder is rested only when it is positive and the best opposite price does not cross,
  and then at the back of the queue of its price. Other submissions change nothing.
\<close>

theorem submit_order_refines:
  assumes "engine_inv M N e" "side \<noteq> kCount"
  shows "\<exists>r e'. submit_order e oid side price qty = Some (r, e') \<and>
    (if qty = 0 \<or> a_orders (engine_abs e) oid \<noteq> None then mr_fills r = [] \<and> \<not> mr_rested r \<and> e' = e
     else case a_match (crosses side price) (length (me_fills e)) qty (engine_abs e (opp side)) of (fs, rem, lad) \<Rightarrow>
       mr_fills r = map (mk_fill oid) fs \<and> mr_remaining_qty r = rem \<and>
       engine_abs e' = (if mr_rested r
         then (engine_abs e)(opp side := lad, side := a_add side price (oid, rem) (engine_abs e side))
         else (engine_abs e)(opp side := lad)) \<and>
       (mr_rested r \<longrightarrow> rem \<noteq> 0 \<and> (lad = [] \<or> \<not> crosses side price (fst (hd lad)))))"
  using assms
  by (rule submit_order_cases [where qty = qty and oid = oid and price = price])
     (simp_all split: prod.split)

theorem submit_order_refines_witness:
  "\<exists>r e'. submit_order sample_engine0 9 kBid 101 8 = Some (r, e') \<and> mr_fills r = [] \<and>
    mr_remaining_qty r = 8 \<and> engine_abs e' kAsk = [] \<and>
    engine_abs e' kBid = (if mr_rested r then [(101, [(9, 8)])] else [])"
proof -
  have abs: "engine_abs sample_engine0 = (\<lambda>s. [])" by (simp add: sample_engine0_def sample_book_inv(2))
  then have "a_orders (engine_abs sample_engine0) 9 = None" by (simp add: a_orders_def)
  then show ?thesis
    using submit_order_refines [OF sample_engine_inv(2), of kBid 9 101 8] abs by (auto simp: opp_def)
qed

text \<open>
  Replacing an order is a cancellation followed by a submission under the new id: an
  unknown old id changes nothing and reports failure; otherwise the result is that of the
  submission to the book without the old order.
\<close>

theorem engine_modify_order_spec:
  assumes "engine_inv M N e" "side \<noteq> kCount"
  shows "\<exists>r e'. engine_modify_order e old_id side p q new_id = Some (r, e') \<and> engine_inv M N e' \<and>
    (if a_orders (engine_abs e) old_id = None
     then \<not> mod_success r \<and> mod_fills r = [] \<and> engine_abs e' = engine_abs e
     else mod_success r \<and> (\<exists>e1 s. engine_inv M N e1 \<and>
       engine_abs e1 = (\<lambda>t. a_remove old_id (engine_abs e t)) \<and> submit_order e1 new_id side p q = Some (s, e') \<and>
       mod_fills r = mr_fills s \<and> mod_remaining_qty r = mr_remaining_qty s \<and> mod_rested r = mr_rested s))"
proof -
  obtain b where b: "cancel_order (me_book e) old_id = Some (a_orders (engine_abs e) old_id \<noteq> None, b)"
    "book_inv M N b" "book_abs b = (\<lambda>t. a_remove old_id (engine_abs e t))"
    by (rule cancel_order_ok [OF assms(1)])
  let ?e1 = "e\<lparr>me_book := b\<rparr>"
  have "engine_inv M N ?e1" using b(2) by simp
  obtain s e' where s: "submit_order ?e1 new_id side p q = Some (s, e')" "engine_inv M N e'"
    by (rule submit_order_cases [where e = ?e1 and qty = q and oid = new_id and price = p and side = side and M = M and N = N])
       (use b(2) assms(2) in auto)
  show ?thesis
  proof (cases "a_orders (engine_abs e) old_id")
    case None
    then have "v_om (view (me_book e)) old_id = None"
      using a_orders_view [OF book_invD(2,3) [OF assms(1)]] by (simp add: book_abs_def)
    then have "(\<lambda>t. a_remove old_id (engine_abs e t)) = engine_abs e"
      using a_remove_absent [OF book_invD(2,3) [OF assms(1)]] by (auto simp: book_abs_def)
    then show ?thesis
      using None b by (simp add: engine_modify_order_def engine_cancel_order_def)
  next
    case (Some q0)
    then have "engine_modify_order e old_id side p q new_id =
        Some (\<lparr>mod_fills = mr_fills s, mod_remaining_qty = mr_remaining_qty s, mod_rested = mr_rested s,
               mod_success = True\<rparr>, e')"
      using b(1) s(1) by (simp add: engine_modify_order_def engine_cancel_order_def)
    then show ?thesis using Some s b by (auto intro!: exI [of _ ?e1])
  qed
qed

theorem engine_modify_order_spec_witness:
  "\<exists>r e'. engine_modify_order sample_engine0 1 kBid 100 5 7 = Some (r, e') \<and> \<not> mod_success r \<and>
    engine_abs e' = (\<lambda>s. [])"
proof -
  have abs: "engine_abs sample_engine0 = (\<lambda>s. [])" by (simp add: sample_engine0_def sample_book_inv(2))
  then have "a_orders (engine_abs sample_engine0) 1 = None" by (simp add: a_orders_def)
  then show ?thesis
    using engine_modify_order_spec [OF sample_engine_inv(2), of kBid 1 100 5 7] abs by auto
qed

end
