(* ===== verification/Endian.thy ===== *)
theory Endian
  imports Prelude
begin

text \<open>
  The endian conversions of \<^verbatim>\<open>libs/sys/endian.hpp\<close>. The byte order of the host,
  \<^verbatim>\<open>std::endian::native\<close>, is a parameter of every conversion, and \<^verbatim>\<open>memcpy\<close> between an
  integer and bytes follows it. The main facts: the stored bytes are the big-endian bytes
  on every host, and a load on any host reads back what a store on any host wrote.
\<close>

section \<open>Model\<close>

datatype endian = little | big

definition bswap16 :: "u16 \<Rightarrow> u16" where
  "bswap16 x = drop_bit 8 x OR push_bit 8 x"

definition bswap32 :: "u32 \<Rightarrow> u32" where
  "bswap32 x = push_bit 24 (x AND 0x000000FF) OR push_bit 8 (x AND 0x0000FF00) OR
     drop_bit 8 (x AND 0x00FF0000) OR drop_bit 24 (x AND 0xFF000000)"

definition bswap64 :: "u64 \<Rightarrow> u64" where
  "bswap64 x =
     push_bit 56 (x AND 0x00000000000000FF) OR
     push_bit 40 (x AND 0x000000000000FF00) OR
     push_bit 24 (x AND 0x0000000000FF0000) OR
     push_bit 8 (x AND 0x00000000FF000000) OR
     drop_bit 8 (x AND 0x000000FF00000000) OR
     drop_bit 24 (x AND 0x0000FF0000000000) OR
     drop_bit 40 (x AND 0x00FF000000000000) OR
     drop_bit 56 (x AND 0xFF00000000000000)"

definition host_to_be16 :: "endian \<Rightarrow> u16 \<Rightarrow> u16" where
  "host_to_be16 en x = (if en = little then bswap16 x else x)"

definition host_to_be32 :: "endian \<Rightarrow> u32 \<Rightarrow> u32" where
  "host_to_be32 en x = (if en = little then bswap32 x else x)"

definition host_to_be64 :: "endian \<Rightarrow> u64 \<Rightarrow> u64" where
  "host_to_be64 en x = (if en = little then bswap64 x else x)"

definition be16_to_host :: "endian \<Rightarrow> u16 \<Rightarrow> u16" where
  "be16_to_host en x = host_to_be16 en x"

definition be32_to_host :: "endian \<Rightarrow> u32 \<Rightarrow> u32" where
  "be32_to_host en x = host_to_be32 en x"

definition be64_to_host :: "endian \<Rightarrow> u64 \<Rightarrow> u64" where
  "be64_to_host en x = host_to_be64 en x"

definition host_to_le16 :: "endian \<Rightarrow> u16 \<Rightarrow> u16" where
  "host_to_le16 en x = (if en = big then bswap16 x else x)"

definition host_to_le32 :: "endian \<Rightarrow> u32 \<Rightarrow> u32" where
  "host_to_le32 en x = (if en = big then bswap32 x else x)"

definition host_to_le64 :: "endian \<Rightarrow> u64 \<Rightarrow> u64" where
  "host_to_le64 en x = (if en = big then bswap64 x else x)"

definition le16_to_host :: "endian \<Rightarrow> u16 \<Rightarrow> u16" where
  "le16_to_host en x = host_to_le16 en x"

definition le32_to_host :: "endian \<Rightarrow> u32 \<Rightarrow> u32" where
  "le32_to_host en x = host_to_le32 en x"

definition le64_to_host :: "endian \<Rightarrow> u64 \<Rightarrow> u64" where
  "le64_to_host en x = host_to_le64 en x"

text \<open>The bytes of an integer, least significant first, and the integer they stand for.\<close>

definition le_bytes :: "nat \<Rightarrow> 'a::len word \<Rightarrow> u8 list" where
  "le_bytes k w = map (\<lambda>i. ucast (drop_bit (8 * i) w)) [0..<k]"

fun of_le_bytes :: "u8 list \<Rightarrow> 'a::len word" where
  "of_le_bytes [] = 0"
| "of_le_bytes (b # bs) = ucast b OR push_bit 8 (of_le_bytes bs)"

text \<open>The object representation that \<^verbatim>\<open>memcpy\<close> copies, in memory order.\<close>

definition to_mem :: "endian \<Rightarrow> nat \<Rightarrow> 'a::len word \<Rightarrow> u8 list" where
  "to_mem en k w = (if en = little then le_bytes k w else rev (le_bytes k w))"

definition of_mem :: "endian \<Rightarrow> u8 list \<Rightarrow> 'a::len word" where
  "of_mem en bs = of_le_bytes (if en = little then bs else rev bs)"

text \<open>
  \<^verbatim>\<open>memcpy\<close> from and into a buffer at an offset: reading or writing outside the buffer is
  undefined behaviour, the outcome \<open>None\<close>.
\<close>

definition peek :: "u8 list \<Rightarrow> nat \<Rightarrow> nat \<Rightarrow> u8 list outcome" where
  "peek buf p k = (if p + k \<le> length buf then Some (take k (drop p buf)) else None)"

definition poke :: "u8 list \<Rightarrow> nat \<Rightarrow> u8 list \<Rightarrow> u8 list outcome" where
  "poke buf p bs = (if p + length bs \<le> length buf
     then Some (take p buf @ bs @ drop (p + length bs) buf) else None)"

definition load_be16 :: "endian \<Rightarrow> u8 list \<Rightarrow> nat \<Rightarrow> u16 outcome" where
  "load_be16 en buf p = do { v \<leftarrow> peek buf p 2; Some (be16_to_host en (of_mem en v)) }"

definition load_be32 :: "endian \<Rightarrow> u8 list \<Rightarrow> nat \<Rightarrow> u32 outcome" where
  "load_be32 en buf p = do { v \<leftarrow> peek buf p 4; Some (be32_to_host en (of_mem en v)) }"

definition load_be64 :: "endian \<Rightarrow> u8 list \<Rightarrow> nat \<Rightarrow> u64 outcome" where
  "load_be64 en buf p = do { v \<leftarrow> peek buf p 8; Some (be64_to_host en (of_mem en v)) }"

definition store_be16 :: "endian \<Rightarrow> u8 list \<Rightarrow> nat \<Rightarrow> u16 \<Rightarrow> u8 list outcome" where
  "store_be16 en buf p v = poke buf p (to_mem en 2 (host_to_be16 en v))"

definition store_be32 :: "endian \<Rightarrow> u8 list \<Rightarrow> nat \<Rightarrow> u32 \<Rightarrow> u8 list outcome" where
  "store_be32 en buf p v = poke buf p (to_mem en 4 (host_to_be32 en v))"

definition store_be64 :: "endian \<Rightarrow> u8 list \<Rightarrow> nat \<Rightarrow> u64 \<Rightarrow> u8 list outcome" where
  "store_be64 en buf p v = poke buf p (to_mem en 8 (host_to_be64 en v))"

section \<open>Bytes and words\<close>

lemma length_le_bytes [simp]: "length (le_bytes k w) = k"
  by (simp add: le_bytes_def)

lemma length_to_mem [simp]: "length (to_mem en k w) = k"
  by (simp add: to_mem_def)

lemma bit_of_le_bytes:
  "bit (of_le_bytes bs :: 'a::len word) n \<longleftrightarrow>
     n < LENGTH('a) \<and> n div 8 < length bs \<and> bit (bs ! (n div 8)) (n mod 8)"
proof (induction bs arbitrary: n)
  case (Cons b bs)
  show ?case
  proof (cases "n < 8")
    case True
    then show ?thesis by (auto simp: bit_simps)
  next
    case False
    then obtain m where m: "n = m + 8" using le_Suc_ex by (metis add.commute not_less)
    then show ?thesis using Cons.IH [of m]
      by (auto simp: bit_simps div_add_self2 dest: bit_imp_le_length)
  qed
qed simp

lemma bit_nth_le_bytes:
  assumes "i < k"
  shows "bit (le_bytes k (w::'a::len word) ! i) j \<longleftrightarrow> j < 8 \<and> bit w (8 * i + j)"
  using assms by (auto simp: le_bytes_def bit_simps dest: bit_imp_le_length)

lemma of_le_bytes_le_bytes:
  assumes "LENGTH('a) = 8 * k"
  shows "of_le_bytes (le_bytes k w) = (w :: 'a::len word)"
proof (rule bit_word_eqI)
  fix n assume "n < LENGTH('a)"
  then have "n div 8 < k" using assms by simp
  then show "bit (of_le_bytes (le_bytes k w) :: 'a word) n = bit w n"
    using \<open>n < LENGTH('a)\<close> by (simp add: bit_of_le_bytes bit_nth_le_bytes)
qed

lemma le_bytes_of_le_bytes:
  assumes "LENGTH('a) = 8 * k" "length bs = k"
  shows "le_bytes k (of_le_bytes bs :: 'a::len word) = bs"
proof (rule nth_equalityI)
  fix i assume "i < length (le_bytes k (of_le_bytes bs :: 'a word))"
  then have i: "i < k" by simp
  show "le_bytes k (of_le_bytes bs :: 'a word) ! i = bs ! i"
  proof (rule bit_word_eqI)
    fix j assume j: "j < LENGTH(8)"
    then show "bit (le_bytes k (of_le_bytes bs :: 'a word) ! i) j = bit (bs ! i) j"
      using i assms by (simp add: bit_nth_le_bytes bit_of_le_bytes)
  qed
qed (use assms in simp)

lemma of_mem_to_mem: "LENGTH('a) = 8 * k \<Longrightarrow> of_mem en (to_mem en k w) = (w :: 'a::len word)"
  by (simp add: of_mem_def to_mem_def of_le_bytes_le_bytes)

lemma to_mem_of_mem:
  "LENGTH('a) = 8 * k \<Longrightarrow> length bs = k \<Longrightarrow> to_mem en k (of_mem en bs :: 'a::len word) = bs"
  by (simp add: of_mem_def to_mem_def le_bytes_of_le_bytes)

section \<open>Byte swaps reverse the bytes\<close>

lemma byte_masks:
  "(0xFF :: 'a::len word) = push_bit 0 (mask 8)"
  "(0xFF00 :: 'a word) = push_bit 8 (mask 8)"
  "(0xFF0000 :: 'a word) = push_bit 16 (mask 8)"
  "(0xFF000000 :: 'a word) = push_bit 24 (mask 8)"
  "(0xFF00000000 :: 'a word) = push_bit 32 (mask 8)"
  "(0xFF0000000000 :: 'a word) = push_bit 40 (mask 8)"
  "(0xFF000000000000 :: 'a word) = push_bit 48 (mask 8)"
  "(0xFF00000000000000 :: 'a word) = push_bit 56 (mask 8)"
  by (simp_all add: mask_eq_exp_minus_1 push_bit_eq_mult)

lemma bytes_eqI:
  fixes v w :: "'a::len word"
  assumes "\<And>i j. i < k \<Longrightarrow> j < 8 \<Longrightarrow> bit v (8 * i + j) = bit w (8 * (k - Suc i) + j)"
  shows "le_bytes k v = rev (le_bytes k w)"
proof (rule nth_equalityI)
  fix i assume "i < length (le_bytes k v)"
  then have i: "i < k" by simp
  show "le_bytes k v ! i = rev (le_bytes k w) ! i"
    by (rule bit_word_eqI) (use i assms in \<open>simp add: rev_nth bit_nth_le_bytes\<close>)
qed simp

lemma le_bytes_bswap16: "le_bytes 2 (bswap16 x) = rev (le_bytes 2 x)"
proof (rule bytes_eqI)
  fix i j :: nat assume "i < 2" "j < 8"
  then have "i = 0 \<or> i = 1" by auto
  then show "bit (bswap16 x) (8 * i + j) = bit x (8 * (2 - Suc i) + j)"
    using \<open>j < 8\<close> by (elim disjE) (auto simp: bswap16_def bit_simps dest: bit_imp_le_length)
qed

lemma le_bytes_bswap32: "le_bytes 4 (bswap32 x) = rev (le_bytes 4 x)"
proof (rule bytes_eqI)
  fix i j :: nat assume "i < 4" "j < 8"
  then have "i = 0 \<or> i = 1 \<or> i = 2 \<or> i = 3" by auto
  then show "bit (bswap32 x) (8 * i + j) = bit x (8 * (4 - Suc i) + j)"
    using \<open>j < 8\<close>
    by (elim disjE) (auto simp: bswap32_def byte_masks bit_simps dest: bit_imp_le_length)
qed

lemma le_bytes_bswap64: "le_bytes 8 (bswap64 x) = rev (le_bytes 8 x)"
proof (rule bytes_eqI)
  fix i j :: nat assume "i < 8" "j < 8"
  then have "i = 0 \<or> i = 1 \<or> i = 2 \<or> i = 3 \<or> i = 4 \<or> i = 5 \<or> i = 6 \<or> i = 7" by auto
  then show "bit (bswap64 x) (8 * i + j) = bit x (8 * (8 - Suc i) + j)"
    using \<open>j < 8\<close>
    by (elim disjE) (auto simp: bswap64_def byte_masks bit_simps dest: bit_imp_le_length)
qed

section \<open>The wire representation\<close>

definition be_bytes :: "nat \<Rightarrow> 'a::len word \<Rightarrow> u8 list" where
  "be_bytes k w = rev (le_bytes k w)"

definition of_be_bytes :: "u8 list \<Rightarrow> 'a::len word" where
  "of_be_bytes bs = of_le_bytes (rev bs)"

lemma length_be_bytes [simp]: "length (be_bytes k w) = k"
  by (simp add: be_bytes_def)

lemma of_be_bytes_be_bytes: "LENGTH('a) = 8 * k \<Longrightarrow> of_be_bytes (be_bytes k w) = (w :: 'a::len word)"
  by (simp add: of_be_bytes_def be_bytes_def of_le_bytes_le_bytes)

lemma be_bytes_of_be_bytes:
  "LENGTH('a) = 8 * k \<Longrightarrow> length bs = k \<Longrightarrow> be_bytes k (of_be_bytes bs :: 'a::len word) = bs"
  by (simp add: of_be_bytes_def be_bytes_def le_bytes_of_le_bytes)

lemmas of_be_bytes_sized [simp] =
  of_be_bytes_be_bytes [where 'a = 16 and k = 2, simplified]
  of_be_bytes_be_bytes [where 'a = 32 and k = 4, simplified]
  of_be_bytes_be_bytes [where 'a = 64 and k = 8, simplified]

text \<open>A word is determined by its bytes, so reversing them is what a swap does to the value.\<close>

lemma swap_of_le_bytes:
  fixes f :: "'a::len word \<Rightarrow> 'a word"
  assumes "LENGTH('a) = 8 * k" "length bs = k" "\<And>x. le_bytes k (f x) = rev (le_bytes k x)"
  shows "f (of_le_bytes bs) = of_le_bytes (rev bs)"
  using assms(3) [of "of_le_bytes bs"] of_le_bytes_le_bytes [OF assms(1), of "f (of_le_bytes bs)"]
  by (simp add: le_bytes_of_le_bytes [OF assms(1,2)])

lemma swap_involutive:
  fixes f :: "'a::len word \<Rightarrow> 'a word"
  assumes "LENGTH('a) = 8 * k" "\<And>x. le_bytes k (f x) = rev (le_bytes k x)"
  shows "f (f x) = x"
  using of_le_bytes_le_bytes [OF assms(1), of "f (f x)"] of_le_bytes_le_bytes [OF assms(1), of x]
  by (simp add: assms(2))

lemmas bswap_involutive =
  swap_involutive [where k = 2 and f = bswap16, OF _ le_bytes_bswap16, simplified]
  swap_involutive [where k = 4 and f = bswap32, OF _ le_bytes_bswap32, simplified]
  swap_involutive [where k = 8 and f = bswap64, OF _ le_bytes_bswap64, simplified]

lemma to_mem_host_to_be:
  "to_mem en 2 (host_to_be16 en v) = be_bytes 2 v"
  "to_mem en 4 (host_to_be32 en x) = be_bytes 4 x"
  "to_mem en 8 (host_to_be64 en y) = be_bytes 8 y"
  by (simp_all add: to_mem_def host_to_be16_def host_to_be32_def host_to_be64_def be_bytes_def
      le_bytes_bswap16 le_bytes_bswap32 le_bytes_bswap64)

lemma to_mem_host_to_le:
  "to_mem en 2 (host_to_le16 en v) = le_bytes 2 v"
  "to_mem en 4 (host_to_le32 en x) = le_bytes 4 x"
  "to_mem en 8 (host_to_le64 en y) = le_bytes 8 y"
  by (cases en; simp add: to_mem_def host_to_le16_def host_to_le32_def host_to_le64_def
      le_bytes_bswap16 le_bytes_bswap32 le_bytes_bswap64)+

lemma be_to_host_of_mem:
  "length bs = 2 \<Longrightarrow> be16_to_host en (of_mem en bs) = of_be_bytes bs"
  "length bs = 4 \<Longrightarrow> be32_to_host en (of_mem en bs) = of_be_bytes bs"
  "length bs = 8 \<Longrightarrow> be64_to_host en (of_mem en bs) = of_be_bytes bs"
  by (simp_all add: be16_to_host_def host_to_be16_def be32_to_host_def host_to_be32_def
      be64_to_host_def host_to_be64_def of_mem_def of_be_bytes_def
      swap_of_le_bytes [where f = bswap16, OF _ _ le_bytes_bswap16]
      swap_of_le_bytes [where f = bswap32, OF _ _ le_bytes_bswap32]
      swap_of_le_bytes [where f = bswap64, OF _ _ le_bytes_bswap64])

lemma le_to_host_of_mem:
  "length bs = 2 \<Longrightarrow> le16_to_host en (of_mem en bs) = of_le_bytes bs"
  "length bs = 4 \<Longrightarrow> le32_to_host en (of_mem en bs) = of_le_bytes bs"
  "length bs = 8 \<Longrightarrow> le64_to_host en (of_mem en bs) = of_le_bytes bs"
  by (cases en; simp add: le16_to_host_def host_to_le16_def le32_to_host_def host_to_le32_def
      le64_to_host_def host_to_le64_def of_mem_def
      swap_of_le_bytes [where f = bswap16, OF _ _ le_bytes_bswap16]
      swap_of_le_bytes [where f = bswap32, OF _ _ le_bytes_bswap32]
      swap_of_le_bytes [where f = bswap64, OF _ _ le_bytes_bswap64])+

section \<open>Stores and loads at offsets\<close>

named_theorems wire_simps \<open>rewrite rules for stores and loads on a buffer under construction\<close>

lemma store_be_eq [wire_simps]:
  "store_be16 en buf p v = poke buf p (be_bytes 2 v)"
  "store_be32 en buf p x = poke buf p (be_bytes 4 x)"
  "store_be64 en buf p y = poke buf p (be_bytes 8 y)"
  by (simp_all add: store_be16_def store_be32_def store_be64_def to_mem_host_to_be)

lemma length_peek: "peek buf p k = Some v \<Longrightarrow> length v = k"
  by (auto simp: peek_def split: if_splits)

lemma load_be_eq [wire_simps]:
  "load_be16 en buf p = map_option of_be_bytes (peek buf p 2)"
  "load_be32 en buf p = map_option of_be_bytes (peek buf p 4)"
  "load_be64 en buf p = map_option of_be_bytes (peek buf p 8)"
  by (cases "peek buf p 2"; cases "peek buf p 4"; cases "peek buf p 8";
      simp add: load_be16_def load_be32_def load_be64_def be_to_host_of_mem length_peek)+

lemma poke_append [wire_simps]:
  "length as \<le> p \<Longrightarrow> poke (as @ xs) p bs = map_option ((@) as) (poke xs (p - length as) bs)"
  by (auto simp: poke_def)

lemma poke_Cons [wire_simps]:
  "0 < p \<Longrightarrow> poke (a # xs) p bs = map_option ((#) a) (poke xs (p - 1) bs)"
  by (auto simp: poke_def take_Cons' drop_Cons')

lemma poke_0 [wire_simps]:
  "poke xs 0 bs = (if length bs \<le> length xs then Some (bs @ drop (length bs) xs) else None)"
  by (simp add: poke_def)

lemma peek_append [wire_simps]:
  "length as \<le> p \<Longrightarrow> peek (as @ xs) p k = peek xs (p - length as) k"
  by (auto simp: peek_def)

lemma peek_Cons [wire_simps]: "0 < p \<Longrightarrow> peek (a # xs) p k = peek xs (p - 1) k"
  by (auto simp: peek_def drop_Cons')

lemma peek_prefix [wire_simps]: "length as = k \<Longrightarrow> peek (as @ xs) 0 k = Some as"
  by (simp add: peek_def)

lemma peek_all [wire_simps]: "length as = k \<Longrightarrow> peek as 0 k = Some as"
  by (simp add: peek_def)

text \<open>A byte of the buffer, \<^verbatim>\<open>p[i]\<close>.\<close>

definition load8 :: "u8 list \<Rightarrow> nat \<Rightarrow> u8 outcome" where
  "load8 buf p = (if p < length buf then Some (buf ! p) else None)"

definition store8 :: "u8 list \<Rightarrow> nat \<Rightarrow> u8 \<Rightarrow> u8 list outcome" where
  "store8 buf p b = poke buf p [b]"

lemma store8_eq [wire_simps]: "store8 buf p b = poke buf p [b]"
  by (simp add: store8_def)

lemma load8_append [wire_simps]: "length as \<le> p \<Longrightarrow> load8 (as @ xs) p = load8 xs (p - length as)"
  by (auto simp: load8_def nth_append)

lemma load8_Cons [wire_simps]: "load8 (a # xs) p = (if p = 0 then Some a else load8 xs (p - 1))"
  by (auto simp: load8_def)

section \<open>Properties\<close>

text \<open>
  Wire interoperability: what a store in network byte order writes on a host of either
  endianness, a load on a host of either endianness reads back, at 16, 32 and 64 bits.
\<close>

theorem endian_interoperable:
  assumes "p + 8 \<le> length buf"
  shows "(store_be16 e1 buf p v \<bind> (\<lambda>b. load_be16 e2 b p)) = Some v \<and>
    (store_be32 e1 buf p x \<bind> (\<lambda>b. load_be32 e2 b p)) = Some x \<and>
    (store_be64 e1 buf p y \<bind> (\<lambda>b. load_be64 e2 b p)) = Some y"
  using assms by (simp add: store_be_eq load_be_eq poke_def peek_def)

theorem endian_interoperable_witness:
  "(store_be16 little (replicate 9 0) 1 0x1234 \<bind> (\<lambda>b. load_be16 big b 1)) = Some 0x1234"
  using endian_interoperable [where p = 1 and buf = "replicate 9 0" and ?e1.0 = little and ?e2.0 = big and v = "0x1234"] by simp

end
