(* ===== verification/WireCodec.thy ===== *)
theory WireCodec
  imports Endian
begin

text \<open>
  The wire layer of \<^verbatim>\<open>libs/net\<close>: the bounds-checked cursors \<^verbatim>\<open>WireReader\<close> and
  \<^verbatim>\<open>WireWriter\<close>, the fixed-header message codec and the length-prefix framing. A span is
  the list of its bytes; an access outside it is the outcome \<open>None\<close>, so the round trips below
  also show that the single up-front bounds checks are enough.
\<close>

section \<open>Cursors\<close>

record WireReader =
  rd_buf :: "u8 list"
  rd_pos :: nat

definition read_bytes :: "WireReader \<Rightarrow> nat \<Rightarrow> u8 list option \<times> WireReader" where
  "read_bytes r n =
    (if rd_pos r > length (rd_buf r) \<or> n > length (rd_buf r) - rd_pos r then (None, r)
     else (Some (take n (drop (rd_pos r) (rd_buf r))), r\<lparr>rd_pos := rd_pos r + n\<rparr>))"

definition read_u16_be :: "endian \<Rightarrow> WireReader \<Rightarrow> u16 option \<times> WireReader" where
  "read_u16_be en r = (case read_bytes r 2 of
     (None, r) \<Rightarrow> (None, r) | (Some v, r) \<Rightarrow> (Some (be16_to_host en (of_mem en v)), r))"

definition read_u32_be :: "endian \<Rightarrow> WireReader \<Rightarrow> u32 option \<times> WireReader" where
  "read_u32_be en r = (case read_bytes r 4 of
     (None, r) \<Rightarrow> (None, r) | (Some v, r) \<Rightarrow> (Some (be32_to_host en (of_mem en v)), r))"

definition read_u64_be :: "endian \<Rightarrow> WireReader \<Rightarrow> u64 option \<times> WireReader" where
  "read_u64_be en r = (case read_bytes r 8 of
     (None, r) \<Rightarrow> (None, r) | (Some v, r) \<Rightarrow> (Some (be64_to_host en (of_mem en v)), r))"

definition read_u16_le :: "endian \<Rightarrow> WireReader \<Rightarrow> u16 option \<times> WireReader" where
  "read_u16_le en r = (case read_bytes r 2 of
     (None, r) \<Rightarrow> (None, r) | (Some v, r) \<Rightarrow> (Some (le16_to_host en (of_mem en v)), r))"

definition read_u32_le :: "endian \<Rightarrow> WireReader \<Rightarrow> u32 option \<times> WireReader" where
  "read_u32_le en r = (case read_bytes r 4 of
     (None, r) \<Rightarrow> (None, r) | (Some v, r) \<Rightarrow> (Some (le32_to_host en (of_mem en v)), r))"

definition read_u64_le :: "endian \<Rightarrow> WireReader \<Rightarrow> u64 option \<times> WireReader" where
  "read_u64_le en r = (case read_bytes r 8 of
     (None, r) \<Rightarrow> (None, r) | (Some v, r) \<Rightarrow> (Some (le64_to_host en (of_mem en v)), r))"

definition rd_consumed :: "WireReader \<Rightarrow> nat" where
  "rd_consumed r = rd_pos r"

definition rd_remaining :: "WireReader \<Rightarrow> u64" where
  "rd_remaining r = of_nat (length (rd_buf r)) - of_nat (rd_pos r)"

record WireWriter =
  wr_buf :: "u8 list"
  wr_pos :: nat

definition write_bytes :: "WireWriter \<Rightarrow> u8 list \<Rightarrow> (bool \<times> WireWriter) outcome" where
  "write_bytes w src = do {
     cassert (src \<noteq> []);
     if wr_pos w > length (wr_buf w) \<or> length src > length (wr_buf w) - wr_pos w then Some (False, w)
     else do {
       b \<leftarrow> poke (wr_buf w) (wr_pos w) src;
       Some (True, w\<lparr>wr_buf := b, wr_pos := wr_pos w + length src\<rparr>)
     }
   }"

definition write_u16_be :: "endian \<Rightarrow> WireWriter \<Rightarrow> u16 \<Rightarrow> (bool \<times> WireWriter) outcome" where
  "write_u16_be en w v = write_bytes w (to_mem en 2 (host_to_be16 en v))"

definition write_u32_be :: "endian \<Rightarrow> WireWriter \<Rightarrow> u32 \<Rightarrow> (bool \<times> WireWriter) outcome" where
  "write_u32_be en w v = write_bytes w (to_mem en 4 (host_to_be32 en v))"

definition write_u64_be :: "endian \<Rightarrow> WireWriter \<Rightarrow> u64 \<Rightarrow> (bool \<times> WireWriter) outcome" where
  "write_u64_be en w v = write_bytes w (to_mem en 8 (host_to_be64 en v))"

definition write_u16_le :: "endian \<Rightarrow> WireWriter \<Rightarrow> u16 \<Rightarrow> (bool \<times> WireWriter) outcome" where
  "write_u16_le en w v = write_bytes w (to_mem en 2 (host_to_le16 en v))"

definition write_u32_le :: "endian \<Rightarrow> WireWriter \<Rightarrow> u32 \<Rightarrow> (bool \<times> WireWriter) outcome" where
  "write_u32_le en w v = write_bytes w (to_mem en 4 (host_to_le32 en v))"

definition write_u64_le :: "endian \<Rightarrow> WireWriter \<Rightarrow> u64 \<Rightarrow> (bool \<times> WireWriter) outcome" where
  "write_u64_le en w v = write_bytes w (to_mem en 8 (host_to_le64 en v))"

definition wr_written :: "WireWriter \<Rightarrow> nat" where
  "wr_written w = wr_pos w"

definition wr_remaining :: "WireWriter \<Rightarrow> u64" where
  "wr_remaining w = of_nat (length (wr_buf w)) - of_nat (wr_pos w)"

section \<open>The message codec\<close>

definition kMessageMagic :: u32 where "kMessageMagic = 0x53455231"
definition kMaxPayloadSize :: nat where "kMaxPayloadSize = 65536"
definition kMessageHeaderSize :: nat where "kMessageHeaderSize = 4 + 2 + 2 + 4 + 4"

record MessageHeader =
  mh_magic :: u32
  mh_version :: u16
  mh_msg_type :: u16
  mh_payload_len :: u32
  mh_flags :: u32

record ParsedMessageView =
  pm_header :: MessageHeader
  pm_payload :: "u8 list"

text \<open>Returns the number of bytes written, 0 for a refusal, and the buffer.\<close>

definition pack_message ::
  "endian \<Rightarrow> u8 list \<Rightarrow> u16 \<Rightarrow> u16 \<Rightarrow> u32 \<Rightarrow> u8 list \<Rightarrow> (nat \<times> u8 list) outcome" where
  "pack_message en out version msg_type flags payload =
    (if length payload > kMaxPayloadSize then Some (0, out)
     else let total = kMessageHeaderSize + length payload
          in if length out < total then Some (0, out)
             else do {
               out \<leftarrow> store_be32 en out 0 kMessageMagic;
               out \<leftarrow> store_be16 en out 4 version;
               out \<leftarrow> store_be16 en out 6 msg_type;
               out \<leftarrow> store_be32 en out 8 (of_nat (length payload));
               out \<leftarrow> store_be32 en out 12 flags;
               out \<leftarrow> (if payload \<noteq> [] then poke out kMessageHeaderSize payload else Some out);
               Some (total, out)
             })"

definition unpack_message :: "endian \<Rightarrow> u8 list \<Rightarrow> ParsedMessageView option outcome" where
  "unpack_message en inp =
    (if length inp < kMessageHeaderSize then Some None
     else do {
       magic \<leftarrow> load_be32 en inp 0;
       ver \<leftarrow> load_be16 en inp 4;
       mtype \<leftarrow> load_be16 en inp 6;
       plen \<leftarrow> load_be32 en inp 8;
       fl \<leftarrow> load_be32 en inp 12;
       if magic \<noteq> kMessageMagic then Some None
       else if unat plen > kMaxPayloadSize then Some None
       else if unat plen > length inp - kMessageHeaderSize then Some None
       else do {
         payload \<leftarrow> peek inp kMessageHeaderSize (unat plen);
         Some (Some \<lparr>pm_header = \<lparr>mh_magic = magic, mh_version = ver, mh_msg_type = mtype,
                                  mh_payload_len = plen, mh_flags = fl\<rparr>,
                     pm_payload = payload\<rparr>)
       }
     })"

section \<open>Length-prefix framing\<close>

definition kLengthPrefixSize :: nat where "kLengthPrefixSize = 4"

datatype FrameStatus = kOk | kIncomplete | kError

record FrameDecodeResult =
  fd_status :: FrameStatus
  fd_frame_size :: nat
  fd_payload :: "u8 list"

definition encode_length_prefix_frame ::
  "endian \<Rightarrow> u8 list \<Rightarrow> u8 list \<Rightarrow> nat \<Rightarrow> (nat option \<times> u8 list) outcome" where
  "encode_length_prefix_frame en out payload max_frame_size =
    (let frame_size = kLengthPrefixSize + length payload
     in if frame_size > max_frame_size then Some (None, out)
        else if length out < frame_size then Some (None, out)
        else do {
          out \<leftarrow> store_be32 en out 0 (of_nat frame_size);
          out \<leftarrow> (if payload \<noteq> [] then poke out kLengthPrefixSize payload else Some out);
          Some (Some frame_size, out)
        })"

definition decode_length_prefix_frame :: "endian \<Rightarrow> u8 list \<Rightarrow> nat \<Rightarrow> FrameDecodeResult outcome" where
  "decode_length_prefix_frame en buf max_frame_size =
    (if length buf < kLengthPrefixSize then
       Some \<lparr>fd_status = kIncomplete, fd_frame_size = 0, fd_payload = []\<rparr>
     else do {
       w \<leftarrow> load_be32 en buf 0;
       let total_len = unat w;
       if total_len < kLengthPrefixSize \<or> total_len > max_frame_size then
         Some \<lparr>fd_status = kError, fd_frame_size = 0, fd_payload = []\<rparr>
       else if length buf < total_len then
         Some \<lparr>fd_status = kIncomplete, fd_frame_size = 0, fd_payload = []\<rparr>
       else do {
         payload \<leftarrow> peek buf kLengthPrefixSize (total_len - kLengthPrefixSize);
         Some \<lparr>fd_status = kOk, fd_frame_size = total_len, fd_payload = payload\<rparr>
       }
     })"

section \<open>Correctness of the message codec\<close>

text \<open>The bytes of a message on the wire.\<close>

definition message_bytes :: "u16 \<Rightarrow> u16 \<Rightarrow> u32 \<Rightarrow> u8 list \<Rightarrow> u8 list" where
  "message_bytes version msg_type flags payload =
     be_bytes 4 kMessageMagic @ be_bytes 2 version @ be_bytes 2 msg_type @
     be_bytes 4 (of_nat (length payload) :: u32) @ be_bytes 4 flags @ payload"

lemma length_message_bytes [simp]:
  "length (message_bytes version msg_type flags payload) = 16 + length payload"
  by (simp add: message_bytes_def)

lemma pack_message_eq:
  "pack_message en out version msg_type flags payload =
    (if length payload \<le> kMaxPayloadSize \<and> 16 + length payload \<le> length out
     then Some (16 + length payload,
                message_bytes version msg_type flags payload @ drop (16 + length payload) out)
     else Some (0, out))"
proof (cases "length payload \<le> kMaxPayloadSize \<and> 16 + length payload \<le> length out")
  case True
  then have "16 + length payload \<le> length out" by simp
  with True show ?thesis
    by (cases "payload = []")
       (auto simp: pack_message_def kMessageHeaderSize_def message_bytes_def wire_simps add.commute)
next
  case False
  then show ?thesis by (auto simp: pack_message_def kMessageHeaderSize_def)
qed

lemma unpack_message_bytes:
  assumes "length payload \<le> kMaxPayloadSize"
  shows "unpack_message en (message_bytes version msg_type flags payload @ rest) =
    Some (Some \<lparr>pm_header = \<lparr>mh_magic = kMessageMagic, mh_version = version, mh_msg_type = msg_type,
                  mh_payload_len = of_nat (length payload), mh_flags = flags\<rparr>, pm_payload = payload\<rparr>)"
proof -
  have "unat (of_nat (length payload) :: u32) = length payload"
    using assms by (intro unat_of_nat_eq_small) (simp add: kMaxPayloadSize_def)
  then show ?thesis
    using assms by (simp add: unpack_message_def kMessageHeaderSize_def message_bytes_def wire_simps)
qed

lemma take_drop_pieces:
  assumes "n \<le> length xs"
  obtains as bs where "xs = as @ bs" "length as = n"
  using assms by (metis append_take_drop_id length_take min.absorb2)

lemma header_pieces:
  assumes "16 \<le> length inp"
  obtains a b c d e rest where "inp = a @ b @ c @ d @ e @ rest" "length a = 4" "length b = 2"
    "length c = 2" "length d = 4" "length e = 4"
proof -
  obtain a r1 where 1: "inp = a @ r1" "length a = 4" using assms take_drop_pieces [of 4 inp] by auto
  obtain b r2 where 2: "r1 = b @ r2" "length b = 2" using assms 1 take_drop_pieces [of 2 r1] by auto
  obtain c r3 where 3: "r2 = c @ r3" "length c = 2" using assms 1 2 take_drop_pieces [of 2 r2] by auto
  obtain d r4 where 4: "r3 = d @ r4" "length d = 4" using assms 1 2 3 take_drop_pieces [of 4 r3] by auto
  obtain e r5 where 5: "r4 = e @ r5" "length e = 4" using assms 1 2 3 4 take_drop_pieces [of 4 r4] by auto
  show thesis by (rule that [of a b c d e r5]) (use 1 2 3 4 5 in simp_all)
qed

lemma unpack_message_pieces:
  assumes "length a = 4" "length b = 2" "length c = 2" "length d = 4" "length e = 4"
  shows "unpack_message en (a @ b @ c @ d @ e @ rest) = Some
    (let magic = of_be_bytes a; plen = of_be_bytes d :: u32
     in if magic = kMessageMagic \<and> unat plen \<le> kMaxPayloadSize \<and> unat plen \<le> length rest
        then Some \<lparr>pm_header = \<lparr>mh_magic = magic, mh_version = of_be_bytes b, mh_msg_type = of_be_bytes c,
                    mh_payload_len = plen, mh_flags = of_be_bytes e\<rparr>, pm_payload = take (unat plen) rest\<rparr>
        else None)"
  using assms
  by (auto simp: unpack_message_def kMessageHeaderSize_def wire_simps peek_def Let_def)

lemma unpack_message_total: "\<exists>r. unpack_message en inp = Some r"
proof (cases "16 \<le> length inp")
  case True
  then show ?thesis by (rule header_pieces) (simp add: unpack_message_pieces)
qed (simp add: unpack_message_def kMessageHeaderSize_def)

lemma unpack_message_sound:
  assumes "unpack_message en inp = Some (Some v)"
  shows "length (pm_payload v) \<le> kMaxPayloadSize \<and>
    (\<exists>rest. inp = message_bytes (mh_version (pm_header v)) (mh_msg_type (pm_header v))
                   (mh_flags (pm_header v)) (pm_payload v) @ rest)"
proof -
  have "16 \<le> length inp"
    using assms by (auto simp: unpack_message_def kMessageHeaderSize_def split: if_splits)
  then obtain a b c d e rest where inp: "inp = a @ b @ c @ d @ e @ rest" and
    len: "length a = 4" "length b = 2" "length c = 2" "length d = 4" "length e = 4"
    by (rule header_pieces)
  let ?plen = "of_be_bytes d :: u32"
  have c: "of_be_bytes a = kMessageMagic" "unat ?plen \<le> kMaxPayloadSize" "unat ?plen \<le> length rest"
    and v: "v = \<lparr>pm_header = \<lparr>mh_magic = of_be_bytes a, mh_version = of_be_bytes b, mh_msg_type = of_be_bytes c,
        mh_payload_len = ?plen, mh_flags = of_be_bytes e\<rparr>, pm_payload = take (unat ?plen) rest\<rparr>"
    using assms unfolding inp unpack_message_pieces [OF len] by (auto simp: Let_def split: if_splits)
  have "be_bytes 4 kMessageMagic = a" using c(1) len(1) be_bytes_of_be_bytes [where 'a = 32 and bs = a] by simp
  moreover have "of_nat (length (take (unat ?plen) rest)) = ?plen" using c(3) by simp
  ultimately have "inp = message_bytes (mh_version (pm_header v)) (mh_msg_type (pm_header v))
      (mh_flags (pm_header v)) (pm_payload v) @ drop (unat ?plen) rest"
    using len by (simp add: v inp message_bytes_def be_bytes_of_be_bytes)
  moreover have "length (pm_payload v) \<le> kMaxPayloadSize" using c(2) by (simp add: v)
  ultimately show ?thesis by blast
qed

section \<open>Correctness of the framing\<close>

definition frame_bytes :: "u8 list \<Rightarrow> u8 list" where
  "frame_bytes payload = be_bytes 4 (of_nat (4 + length payload) :: u32) @ payload"

lemma length_frame_bytes [simp]: "length (frame_bytes payload) = 4 + length payload"
  by (simp add: frame_bytes_def)

lemma encode_frame_eq:
  "encode_length_prefix_frame en out payload mx =
    (if 4 + length payload \<le> mx \<and> 4 + length payload \<le> length out
     then Some (Some (4 + length payload), frame_bytes payload @ drop (4 + length payload) out)
     else Some (None, out))"
proof (cases "4 + length payload \<le> mx \<and> 4 + length payload \<le> length out")
  case True
  then have "4 + length payload \<le> length out" by simp
  with True show ?thesis
    by (cases "payload = []")
       (auto simp: encode_length_prefix_frame_def kLengthPrefixSize_def frame_bytes_def wire_simps Let_def add.commute)
next
  case False
  then show ?thesis by (auto simp: encode_length_prefix_frame_def kLengthPrefixSize_def Let_def)
qed

lemma decode_frame_pieces:
  assumes "length a = 4"
  shows "decode_length_prefix_frame en (a @ rest) mx = Some
    (let n = unat (of_be_bytes a :: u32)
     in if n < 4 \<or> mx < n then \<lparr>fd_status = kError, fd_frame_size = 0, fd_payload = []\<rparr>
        else if 4 + length rest < n then \<lparr>fd_status = kIncomplete, fd_frame_size = 0, fd_payload = []\<rparr>
        else \<lparr>fd_status = kOk, fd_frame_size = n, fd_payload = take (n - 4) rest\<rparr>)"
  using assms
  by (auto simp: decode_length_prefix_frame_def kLengthPrefixSize_def wire_simps peek_def Let_def)

lemma decode_frame_short:
  "length buf < 4 \<Longrightarrow> decode_length_prefix_frame en buf mx =
     Some \<lparr>fd_status = kIncomplete, fd_frame_size = 0, fd_payload = []\<rparr>"
  by (simp add: decode_length_prefix_frame_def kLengthPrefixSize_def)

lemma decode_frame_bytes:
  assumes "4 + length payload \<le> mx" "mx < 2 ^ 32"
  shows "decode_length_prefix_frame en (frame_bytes payload @ rest) mx =
    Some \<lparr>fd_status = kOk, fd_frame_size = 4 + length payload, fd_payload = payload\<rparr>"
proof -
  have "unat (of_nat (4 + length payload) :: u32) = 4 + length payload"
    using assms by (intro unat_of_nat_eq_small) simp
  then show ?thesis using assms(1)
    by (simp add: frame_bytes_def decode_frame_pieces Let_def del: of_nat_add)
qed

lemma decode_frame_partial:
  assumes "4 + length payload \<le> mx" "mx < 2 ^ 32" "n < 4 + length payload"
  shows "decode_length_prefix_frame en (take n (frame_bytes payload)) mx =
    Some \<lparr>fd_status = kIncomplete, fd_frame_size = 0, fd_payload = []\<rparr>"
proof (cases "n < 4")
  case False
  have "unat (of_nat (4 + length payload) :: u32) = 4 + length payload"
    using assms by (intro unat_of_nat_eq_small) simp
  then show ?thesis using assms False
    by (simp add: frame_bytes_def decode_frame_pieces Let_def del: of_nat_add)
qed (simp add: decode_frame_short)

section \<open>Correctness of the cursors\<close>

text \<open>A field with its value; reading takes the field's kind from it.\<close>

datatype wire_field = BE16 u16 | BE32 u32 | BE64 u64 | LE16 u16 | LE32 u32 | LE64 u64

fun write_field :: "endian \<Rightarrow> WireWriter \<Rightarrow> wire_field \<Rightarrow> (bool \<times> WireWriter) outcome" where
  "write_field en w (BE16 v) = write_u16_be en w v"
| "write_field en w (BE32 v) = write_u32_be en w v"
| "write_field en w (BE64 v) = write_u64_be en w v"
| "write_field en w (LE16 v) = write_u16_le en w v"
| "write_field en w (LE32 v) = write_u32_le en w v"
| "write_field en w (LE64 v) = write_u64_le en w v"

fun read_field :: "endian \<Rightarrow> WireReader \<Rightarrow> wire_field \<Rightarrow> wire_field option \<times> WireReader" where
  "read_field en r (BE16 _) = apfst (map_option BE16) (read_u16_be en r)"
| "read_field en r (BE32 _) = apfst (map_option BE32) (read_u32_be en r)"
| "read_field en r (BE64 _) = apfst (map_option BE64) (read_u64_be en r)"
| "read_field en r (LE16 _) = apfst (map_option LE16) (read_u16_le en r)"
| "read_field en r (LE32 _) = apfst (map_option LE32) (read_u32_le en r)"
| "read_field en r (LE64 _) = apfst (map_option LE64) (read_u64_le en r)"

fun field_bytes :: "wire_field \<Rightarrow> u8 list" where
  "field_bytes (BE16 v) = be_bytes 2 v"
| "field_bytes (BE32 v) = be_bytes 4 v"
| "field_bytes (BE64 v) = be_bytes 8 v"
| "field_bytes (LE16 v) = le_bytes 2 v"
| "field_bytes (LE32 v) = le_bytes 4 v"
| "field_bytes (LE64 v) = le_bytes 8 v"

fun write_fields :: "endian \<Rightarrow> WireWriter \<Rightarrow> wire_field list \<Rightarrow> (bool \<times> WireWriter) outcome" where
  "write_fields en w [] = Some (True, w)"
| "write_fields en w (f # fs) = do {
     (ok, w) \<leftarrow> write_field en w f;
     if ok then write_fields en w fs else Some (False, w)
   }"

fun read_fields :: "endian \<Rightarrow> WireReader \<Rightarrow> wire_field list \<Rightarrow> wire_field list option \<times> WireReader" where
  "read_fields en r [] = (Some [], r)"
| "read_fields en r (f # fs) = (case read_field en r f of
     (None, r) \<Rightarrow> (None, r)
   | (Some g, r) \<Rightarrow> apfst (map_option ((#) g)) (read_fields en r fs))"

lemma write_bytes_eq:
  assumes "src \<noteq> []" "wr_pos w \<le> length (wr_buf w)"
  shows "write_bytes w src =
    (if wr_pos w + length src \<le> length (wr_buf w)
     then Some (True, w\<lparr>wr_buf := take (wr_pos w) (wr_buf w) @ src @ drop (wr_pos w + length src) (wr_buf w),
                        wr_pos := wr_pos w + length src\<rparr>)
     else Some (False, w))"
  using assms by (auto simp: write_bytes_def poke_def)

lemma field_bytes_ne: "field_bytes f \<noteq> []"
  by (cases f) (simp_all flip: length_0_conv)

lemma to_mem_ne: "0 < k \<Longrightarrow> to_mem en k w \<noteq> []"
  by (simp flip: length_0_conv)

lemma write_field_eq: "write_field en w f = write_bytes w (field_bytes f)"
  by (cases f) (simp_all add: write_u16_be_def write_u32_be_def write_u64_be_def
      write_u16_le_def write_u32_le_def write_u64_le_def to_mem_host_to_be to_mem_host_to_le)

lemma write_fields_eq:
  assumes "wr_pos w + length (concat (map field_bytes fs)) \<le> length (wr_buf w)"
  shows "write_fields en w fs = Some (True,
    w\<lparr>wr_buf := take (wr_pos w) (wr_buf w) @ concat (map field_bytes fs) @
                 drop (wr_pos w + length (concat (map field_bytes fs))) (wr_buf w),
      wr_pos := wr_pos w + length (concat (map field_bytes fs))\<rparr>)"
  using assms
proof (induction fs arbitrary: w)
  case (Cons f fs)
  then show ?case
    by (simp add: write_field_eq write_bytes_eq field_bytes_ne ac_simps)
qed simp

lemma of_le_bytes_sized:
  "of_le_bytes (le_bytes 2 (v :: u16)) = v" "of_le_bytes (le_bytes 4 (x :: u32)) = x"
  "of_le_bytes (le_bytes 8 (y :: u64)) = y"
  by (simp_all add: of_le_bytes_le_bytes)

lemma read_field_at:
  "read_field en \<lparr>rd_buf = pre @ field_bytes f @ post, rd_pos = length pre\<rparr> f =
     (Some f, \<lparr>rd_buf = pre @ field_bytes f @ post, rd_pos = length pre + length (field_bytes f)\<rparr>)"
  by (cases f) (simp_all add: read_bytes_def read_u16_be_def read_u32_be_def read_u64_be_def
      read_u16_le_def read_u32_le_def read_u64_le_def be_to_host_of_mem le_to_host_of_mem of_le_bytes_sized)

lemma read_fields_at:
  "read_fields en \<lparr>rd_buf = pre @ concat (map field_bytes fs) @ post, rd_pos = length pre\<rparr> fs =
     (Some fs, \<lparr>rd_buf = pre @ concat (map field_bytes fs) @ post,
                rd_pos = length pre + length (concat (map field_bytes fs))\<rparr>)"
proof (induction fs arbitrary: pre)
  case (Cons f fs)
  show ?case
    using read_field_at [of en pre f "concat (map field_bytes fs) @ post"] Cons.IH [of "pre @ field_bytes f"]
    by (simp add: add.assoc)
qed simp

section \<open>Properties\<close>

text \<open>
  C19. Packing and unpacking a message are inverse: a packed message, followed by any bytes
  and read on a host of any endianness, unpacks to the same header fields and payload; and
  whatever unpacks successfully is exactly what packing its fields over the input writes. Packing refuses
  only an oversized payload or a short buffer, unpacking always returns, and neither touches
  a byte outside its buffer.
\<close>

theorem message_codec_inverse:
  assumes "length payload \<le> kMaxPayloadSize" "16 + length payload \<le> length out"
  shows "(\<exists>out'. pack_message e1 out version msg_type flags payload = Some (16 + length payload, out') \<and>
      length out' = length out \<and>
      unpack_message e2 (take (16 + length payload) out' @ rest) =
        Some (Some \<lparr>pm_header = \<lparr>mh_magic = kMessageMagic, mh_version = version, mh_msg_type = msg_type,
                  mh_payload_len = of_nat (length payload), mh_flags = flags\<rparr>, pm_payload = payload\<rparr>)) \<and>
    (\<forall>inp v. unpack_message e2 inp = Some (Some v) \<longrightarrow>
      pack_message e1 inp (mh_version (pm_header v)) (mh_msg_type (pm_header v))
         (mh_flags (pm_header v)) (pm_payload v) = Some (16 + length (pm_payload v), inp))"
proof (intro conjI allI impI)
  show "\<exists>out'. pack_message e1 out version msg_type flags payload = Some (16 + length payload, out') \<and>
      length out' = length out \<and>
      unpack_message e2 (take (16 + length payload) out' @ rest) =
        Some (Some \<lparr>pm_header = \<lparr>mh_magic = kMessageMagic, mh_version = version, mh_msg_type = msg_type,
                  mh_payload_len = of_nat (length payload), mh_flags = flags\<rparr>, pm_payload = payload\<rparr>)"
    using assms by (simp add: pack_message_eq unpack_message_bytes)
next
  fix inp v assume "unpack_message e2 inp = Some (Some v)"
  then show "pack_message e1 inp (mh_version (pm_header v)) (mh_msg_type (pm_header v))
         (mh_flags (pm_header v)) (pm_payload v) = Some (16 + length (pm_payload v), inp)"
    using unpack_message_sound [of e2 inp v] by (auto simp: pack_message_eq)
qed

theorem message_codec_inverse_witness:
  "\<exists>out'. pack_message little (replicate 20 0) 2 6 0 [1, 2, 3] = Some (16 + length [1, 2, 3 :: u8], out') \<and>
      length out' = length (replicate 20 (0::u8)) \<and>
      unpack_message big (take (16 + length [1, 2, 3 :: u8]) out' @ [9, 9]) =
        Some (Some \<lparr>pm_header = \<lparr>mh_magic = kMessageMagic, mh_version = 2, mh_msg_type = 6,
                  mh_payload_len = of_nat (length [1, 2, 3 :: u8]), mh_flags = 0\<rparr>, pm_payload = [1, 2, 3]\<rparr>)"
  by (rule message_codec_inverse [THEN conjunct1]) (simp_all add: kMaxPayloadSize_def)

text \<open>
  The cursors are inverse: any sequence of typed fields, big- and little-endian mixed,
  that fits the space left is written completely, and a reader placed where the writer began
  reads the same fields back, on hosts of any endianness.
\<close>

theorem wire_cursors_inverse:
  assumes "wr_pos w + length (concat (map field_bytes fs)) \<le> length (wr_buf w)"
  shows "\<exists>w'. write_fields e1 w fs = Some (True, w') \<and> length (wr_buf w') = length (wr_buf w) \<and>
    read_fields e2 \<lparr>rd_buf = wr_buf w', rd_pos = wr_pos w\<rparr> fs =
      (Some fs, \<lparr>rd_buf = wr_buf w', rd_pos = wr_pos w'\<rparr>)"
proof -
  have "length (take (wr_pos w) (wr_buf w)) = wr_pos w" using assms by simp
  then show ?thesis
    using assms read_fields_at [of e2 "take (wr_pos w) (wr_buf w)" fs]
    by (simp add: write_fields_eq [OF assms])
qed

theorem wire_cursors_inverse_witness:
  "\<exists>w'. write_fields little \<lparr>wr_buf = replicate 16 0, wr_pos = 1\<rparr> [BE32 7, LE64 9] = Some (True, w') \<and>
    length (wr_buf w') = length (wr_buf \<lparr>wr_buf = replicate 16 (0::u8), wr_pos = 1\<rparr>) \<and>
    read_fields big \<lparr>rd_buf = wr_buf w', rd_pos = wr_pos \<lparr>wr_buf = replicate 16 0, wr_pos = 1\<rparr>\<rparr> [BE32 7, LE64 9] =
      (Some [BE32 7, LE64 9], \<lparr>rd_buf = wr_buf w', rd_pos = wr_pos w'\<rparr>)"
  by (rule wire_cursors_inverse) simp

end
