(* ===== verification/Protocol.thy ===== *)
theory Protocol
  imports WireCodec OrderBook
begin

text \<open>
  The wire protocol between the trading pipeline and the simulated exchange: the messages of
  \<^verbatim>\<open>apps/shared/protocol.hpp\<close>, their codecs of \<^verbatim>\<open>apps/shared/protocol_codec.hpp\<close> and the
  stream framer of \<^verbatim>\<open>apps/simulated_exchange/message_codec_framer.hpp\<close>. An enum field of a
  message is the byte it is stored in: the deserializers cast any byte into the enum without
  a range check.
\<close>

section \<open>Constants and enumerations\<close>

definition kProtocolVersion :: u16 where "kProtocolVersion = 2"

datatype MsgType = kMarketDataUpdate | kNewOrder | kCancelOrder | kOrderAck | kOrderReject
  | kFillReport | kCancelAck | kCancelReject | kModifyOrder | kModifyAck | kModifyReject
  | kHeartbeat | kHeartbeatAck

fun MsgType_code :: "MsgType \<Rightarrow> u16" where
  "MsgType_code kMarketDataUpdate = 1"
| "MsgType_code kNewOrder = 2"
| "MsgType_code kCancelOrder = 3"
| "MsgType_code kOrderAck = 4"
| "MsgType_code kOrderReject = 5"
| "MsgType_code kFillReport = 6"
| "MsgType_code kCancelAck = 7"
| "MsgType_code kCancelReject = 8"
| "MsgType_code kModifyOrder = 9"
| "MsgType_code kModifyAck = 10"
| "MsgType_code kModifyReject = 11"
| "MsgType_code kHeartbeat = 12"
| "MsgType_code kHeartbeatAck = 13"

definition verify_protocol_version :: "u16 \<Rightarrow> bool" where
  "verify_protocol_version header_version = (header_version = kProtocolVersion)"

datatype RejectReason = kUnknown | kDuplicateOrderId | kBookFull | kInvalidPrice | kInvalidQty
  | kOrderNotFound | kInvalidOrderId | kUnknownSymbol | kThrottled

fun RejectReason_code :: "RejectReason \<Rightarrow> u8" where
  "RejectReason_code kUnknown = 0"
| "RejectReason_code kDuplicateOrderId = 1"
| "RejectReason_code kBookFull = 2"
| "RejectReason_code kInvalidPrice = 3"
| "RejectReason_code kInvalidQty = 4"
| "RejectReason_code kOrderNotFound = 5"
| "RejectReason_code kInvalidOrderId = 6"
| "RejectReason_code kUnknownSymbol = 7"
| "RejectReason_code kThrottled = 8"

datatype MdMsgType = kBBOUpdate | kTrade

fun MdMsgType_code :: "MdMsgType \<Rightarrow> u8" where
  "MdMsgType_code kBBOUpdate = 0"
| "MdMsgType_code kTrade = 1"

fun Side_code :: "Side \<Rightarrow> u8" where
  "Side_code kBid = 0"
| "Side_code kAsk = 1"
| "Side_code kCount = 2"

section \<open>Messages\<close>

record MarketDataUpdate =
  md_seq_num :: u64
  md_symbol_id :: u32
  md_msg_type :: u8
  md_side :: u8
  md_price :: Price
  md_qty :: Qty
  md_exchange_ts :: i64

definition kMarketDataWireSize :: nat where
  "kMarketDataWireSize = 8 + 4 + 1 + 1 + 8 + 4 + 8"

record NewOrder =
  no_client_order_id :: u64
  no_symbol_id :: u32
  no_side :: u8
  no_price :: Price
  no_qty :: Qty
  no_send_ts :: i64

definition kNewOrderWireSize :: nat where
  "kNewOrderWireSize = 8 + 4 + 1 + 8 + 4 + 8"

record CancelOrder =
  co_client_order_id :: u64
  co_symbol_id :: u32
  co_send_ts :: i64

definition kCancelOrderWireSize :: nat where
  "kCancelOrderWireSize = 8 + 4 + 8"

record OrderAck =
  oa_client_order_id :: u64
  oa_exchange_order_id :: u64
  oa_send_ts :: i64

definition kOrderAckWireSize :: nat where
  "kOrderAckWireSize = 8 + 8 + 8"

record OrderReject =
  orj_client_order_id :: u64
  orj_reason :: u8
  orj_send_ts :: i64

definition kOrderRejectWireSize :: nat where
  "kOrderRejectWireSize = 8 + 1 + 8"

record FillReport =
  fr_client_order_id :: u64
  fr_exchange_order_id :: u64
  fr_fill_price :: Price
  fr_fill_qty :: Qty
  fr_remaining_qty :: Qty
  fr_send_ts :: i64

definition kFillReportWireSize :: nat where
  "kFillReportWireSize = 8 + 8 + 8 + 4 + 4 + 8"

record CancelAck =
  ca_client_order_id :: u64
  ca_send_ts :: i64

definition kCancelAckWireSize :: nat where
  "kCancelAckWireSize = 8 + 8"

record CancelReject =
  crj_client_order_id :: u64
  crj_reason :: u8
  crj_send_ts :: i64

definition kCancelRejectWireSize :: nat where
  "kCancelRejectWireSize = 8 + 1 + 8"

record ModifyOrder =
  mo_client_order_id :: u64
  mo_symbol_id :: u32
  mo_new_price :: Price
  mo_new_qty :: Qty
  mo_send_ts :: i64

definition kModifyOrderWireSize :: nat where
  "kModifyOrderWireSize = 8 + 4 + 8 + 4 + 8"

record ModifyAck =
  mka_client_order_id :: u64
  mka_new_exchange_order_id :: u64
  mka_send_ts :: i64

definition kModifyAckWireSize :: nat where
  "kModifyAckWireSize = 8 + 8 + 8"

record ModifyReject =
  mrj_client_order_id :: u64
  mrj_reason :: u8
  mrj_send_ts :: i64

definition kModifyRejectWireSize :: nat where
  "kModifyRejectWireSize = 8 + 1 + 8"

section \<open>Codecs\<close>

definition serialize_market_data :: "endian \<Rightarrow> u8 list \<Rightarrow> MarketDataUpdate \<Rightarrow> (nat \<times> u8 list) outcome" where
  "serialize_market_data en buf m =
    (if length buf < kMarketDataWireSize then Some (0, buf)
     else do {
       buf \<leftarrow> store_be64 en buf 0 (md_seq_num m);
       buf \<leftarrow> store_be32 en buf 8 (md_symbol_id m);
       buf \<leftarrow> store8 buf 12 (md_msg_type m);
       buf \<leftarrow> store8 buf 13 (md_side m);
       buf \<leftarrow> store_be64 en buf 14 (md_price m);
       buf \<leftarrow> store_be32 en buf 22 (md_qty m);
       buf \<leftarrow> store_be64 en buf 26 (md_exchange_ts m);
       Some (kMarketDataWireSize, buf)
     })"

definition deserialize_market_data :: "endian \<Rightarrow> u8 list \<Rightarrow> MarketDataUpdate option outcome" where
  "deserialize_market_data en buf =
    (if length buf \<noteq> kMarketDataWireSize then Some None
     else do {
       seq_num \<leftarrow> load_be64 en buf 0;
       symbol_id \<leftarrow> load_be32 en buf 8;
       md_msg_type \<leftarrow> load8 buf 12;
       side \<leftarrow> load8 buf 13;
       price \<leftarrow> load_be64 en buf 14;
       qty \<leftarrow> load_be32 en buf 22;
       exchange_ts \<leftarrow> load_be64 en buf 26;
       Some (Some \<lparr>md_seq_num = seq_num, md_symbol_id = symbol_id, md_msg_type = md_msg_type, md_side = side, md_price = price, md_qty = qty, md_exchange_ts = exchange_ts\<rparr>)
     })"

definition serialize_new_order :: "endian \<Rightarrow> u8 list \<Rightarrow> NewOrder \<Rightarrow> (nat \<times> u8 list) outcome" where
  "serialize_new_order en buf m =
    (if length buf < kNewOrderWireSize then Some (0, buf)
     else do {
       buf \<leftarrow> store_be64 en buf 0 (no_client_order_id m);
       buf \<leftarrow> store_be32 en buf 8 (no_symbol_id m);
       buf \<leftarrow> store8 buf 12 (no_side m);
       buf \<leftarrow> store_be64 en buf 13 (no_price m);
       buf \<leftarrow> store_be32 en buf 21 (no_qty m);
       buf \<leftarrow> store_be64 en buf 25 (no_send_ts m);
       Some (kNewOrderWireSize, buf)
     })"

definition deserialize_new_order :: "endian \<Rightarrow> u8 list \<Rightarrow> NewOrder option outcome" where
  "deserialize_new_order en buf =
    (if length buf < kNewOrderWireSize then Some None
     else do {
       client_order_id \<leftarrow> load_be64 en buf 0;
       symbol_id \<leftarrow> load_be32 en buf 8;
       side \<leftarrow> load8 buf 12;
       price \<leftarrow> load_be64 en buf 13;
       qty \<leftarrow> load_be32 en buf 21;
       send_ts \<leftarrow> load_be64 en buf 25;
       Some (Some \<lparr>no_client_order_id = client_order_id, no_symbol_id = symbol_id, no_side = side, no_price = price, no_qty = qty, no_send_ts = send_ts\<rparr>)
     })"

definition serialize_cancel_order :: "endian \<Rightarrow> u8 list \<Rightarrow> CancelOrder \<Rightarrow> (nat \<times> u8 list) outcome" where
  "serialize_cancel_order en buf m =
    (if length buf < kCancelOrderWireSize then Some (0, buf)
     else do {
       buf \<leftarrow> store_be64 en buf 0 (co_client_order_id m);
       buf \<leftarrow> store_be32 en buf 8 (co_symbol_id m);
       buf \<leftarrow> store_be64 en buf 12 (co_send_ts m);
       Some (kCancelOrderWireSize, buf)
     })"

definition deserialize_cancel_order :: "endian \<Rightarrow> u8 list \<Rightarrow> CancelOrder option outcome" where
  "deserialize_cancel_order en buf =
    (if length buf < kCancelOrderWireSize then Some None
     else do {
       client_order_id \<leftarrow> load_be64 en buf 0;
       symbol_id \<leftarrow> load_be32 en buf 8;
       send_ts \<leftarrow> load_be64 en buf 12;
       Some (Some \<lparr>co_client_order_id = client_order_id, co_symbol_id = symbol_id, co_send_ts = send_ts\<rparr>)
     })"

definition serialize_order_ack :: "endian \<Rightarrow> u8 list \<Rightarrow> OrderAck \<Rightarrow> (nat \<times> u8 list) outcome" where
  "serialize_order_ack en buf m =
    (if length buf < kOrderAckWireSize then Some (0, buf)
     else do {
       buf \<leftarrow> store_be64 en buf 0 (oa_client_order_id m);
       buf \<leftarrow> store_be64 en buf 8 (oa_exchange_order_id m);
       buf \<leftarrow> store_be64 en buf 16 (oa_send_ts m);
       Some (kOrderAckWireSize, buf)
     })"

definition deserialize_order_ack :: "endian \<Rightarrow> u8 list \<Rightarrow> OrderAck option outcome" where
  "deserialize_order_ack en buf =
    (if length buf < kOrderAckWireSize then Some None
     else do {
       client_order_id \<leftarrow> load_be64 en buf 0;
       exchange_order_id \<leftarrow> load_be64 en buf 8;
       send_ts \<leftarrow> load_be64 en buf 16;
       Some (Some \<lparr>oa_client_order_id = client_order_id, oa_exchange_order_id = exchange_order_id, oa_send_ts = send_ts\<rparr>)
     })"

definition serialize_order_reject :: "endian \<Rightarrow> u8 list \<Rightarrow> OrderReject \<Rightarrow> (nat \<times> u8 list) outcome" where
  "serialize_order_reject en buf m =
    (if length buf < kOrderRejectWireSize then Some (0, buf)
     else do {
       buf \<leftarrow> store_be64 en buf 0 (orj_client_order_id m);
       buf \<leftarrow> store8 buf 8 (orj_reason m);
       buf \<leftarrow> store_be64 en buf 9 (orj_send_ts m);
       Some (kOrderRejectWireSize, buf)
     })"

definition deserialize_order_reject :: "endian \<Rightarrow> u8 list \<Rightarrow> OrderReject option outcome" where
  "deserialize_order_reject en buf =
    (if length buf < kOrderRejectWireSize then Some None
     else do {
       client_order_id \<leftarrow> load_be64 en buf 0;
       reason \<leftarrow> load8 buf 8;
       send_ts \<leftarrow> load_be64 en buf 9;
       Some (Some \<lparr>orj_client_order_id = client_order_id, orj_reason = reason, orj_send_ts = send_ts\<rparr>)
     })"

definition serialize_fill_report :: "endian \<Rightarrow> u8 list \<Rightarrow> FillReport \<Rightarrow> (nat \<times> u8 list) outcome" where
  "serialize_fill_report en buf m =
    (if length buf < kFillReportWireSize then Some (0, buf)
     else do {
       buf \<leftarrow> store_be64 en buf 0 (fr_client_order_id m);
       buf \<leftarrow> store_be64 en buf 8 (fr_exchange_order_id m);
       buf \<leftarrow> store_be64 en buf 16 (fr_fill_price m);
       buf \<leftarrow> store_be32 en buf 24 (fr_fill_qty m);
       buf \<leftarrow> store_be32 en buf 28 (fr_remaining_qty m);
       buf \<leftarrow> store_be64 en buf 32 (fr_send_ts m);
       Some (kFillReportWireSize, buf)
     })"

definition deserialize_fill_report :: "endian \<Rightarrow> u8 list \<Rightarrow> FillReport option outcome" where
  "deserialize_fill_report en buf =
    (if length buf < kFillReportWireSize then Some None
     else do {
       client_order_id \<leftarrow> load_be64 en buf 0;
       exchange_order_id \<leftarrow> load_be64 en buf 8;
       fill_price \<leftarrow> load_be64 en buf 16;
       fill_qty \<leftarrow> load_be32 en buf 24;
       remaining_qty \<leftarrow> load_be32 en buf 28;
       send_ts \<leftarrow> load_be64 en buf 32;
       Some (Some \<lparr>fr_client_order_id = client_order_id, fr_exchange_order_id = exchange_order_id, fr_fill_price = fill_price, fr_fill_qty = fill_qty, fr_remaining_qty = remaining_qty, fr_send_ts = send_ts\<rparr>)
     })"

definition serialize_cancel_ack :: "endian \<Rightarrow> u8 list \<Rightarrow> CancelAck \<Rightarrow> (nat \<times> u8 list) outcome" where
  "serialize_cancel_ack en buf m =
    (if length buf < kCancelAckWireSize then Some (0, buf)
     else do {
       buf \<leftarrow> store_be64 en buf 0 (ca_client_order_id m);
       buf \<leftarrow> store_be64 en buf 8 (ca_send_ts m);
       Some (kCancelAckWireSize, buf)
     })"

definition deserialize_cancel_ack :: "endian \<Rightarrow> u8 list \<Rightarrow> CancelAck option outcome" where
  "deserialize_cancel_ack en buf =
    (if length buf < kCancelAckWireSize then Some None
     else do {
       client_order_id \<leftarrow> load_be64 en buf 0;
       send_ts \<leftarrow> load_be64 en buf 8;
       Some (Some \<lparr>ca_client_order_id = client_order_id, ca_send_ts = send_ts\<rparr>)
     })"

definition serialize_cancel_reject :: "endian \<Rightarrow> u8 list \<Rightarrow> CancelReject \<Rightarrow> (nat \<times> u8 list) outcome" where
  "serialize_cancel_reject en buf m =
    (if length buf < kCancelRejectWireSize then Some (0, buf)
     else do {
       buf \<leftarrow> store_be64 en buf 0 (crj_client_order_id m);
       buf \<leftarrow> store8 buf 8 (crj_reason m);
       buf \<leftarrow> store_be64 en buf 9 (crj_send_ts m);
       Some (kCancelRejectWireSize, buf)
     })"

definition deserialize_cancel_reject :: "endian \<Rightarrow> u8 list \<Rightarrow> CancelReject option outcome" where
  "deserialize_cancel_reject en buf =
    (if length buf < kCancelRejectWireSize then Some None
     else do {
       client_order_id \<leftarrow> load_be64 en buf 0;
       reason \<leftarrow> load8 buf 8;
       send_ts \<leftarrow> load_be64 en buf 9;
       Some (Some \<lparr>crj_client_order_id = client_order_id, crj_reason = reason, crj_send_ts = send_ts\<rparr>)
     })"

definition serialize_modify_order :: "endian \<Rightarrow> u8 list \<Rightarrow> ModifyOrder \<Rightarrow> (nat \<times> u8 list) outcome" where
  "serialize_modify_order en buf m =
    (if length buf < kModifyOrderWireSize then Some (0, buf)
     else do {
       buf \<leftarrow> store_be64 en buf 0 (mo_client_order_id m);
       buf \<leftarrow> store_be32 en buf 8 (mo_symbol_id m);
       buf \<leftarrow> store_be64 en buf 12 (mo_new_price m);
       buf \<leftarrow> store_be32 en buf 20 (mo_new_qty m);
       buf \<leftarrow> store_be64 en buf 24 (mo_send_ts m);
       Some (kModifyOrderWireSize, buf)
     })"

definition deserialize_modify_order :: "endian \<Rightarrow> u8 list \<Rightarrow> ModifyOrder option outcome" where
  "deserialize_modify_order en buf =
    (if length buf < kModifyOrderWireSize then Some None
     else do {
       client_order_id \<leftarrow> load_be64 en buf 0;
       symbol_id \<leftarrow> load_be32 en buf 8;
       new_price \<leftarrow> load_be64 en buf 12;
       new_qty \<leftarrow> load_be32 en buf 20;
       send_ts \<leftarrow> load_be64 en buf 24;
       Some (Some \<lparr>mo_client_order_id = client_order_id, mo_symbol_id = symbol_id, mo_new_price = new_price, mo_new_qty = new_qty, mo_send_ts = send_ts\<rparr>)
     })"

definition serialize_modify_ack :: "endian \<Rightarrow> u8 list \<Rightarrow> ModifyAck \<Rightarrow> (nat \<times> u8 list) outcome" where
  "serialize_modify_ack en buf m =
    (if length buf < kModifyAckWireSize then Some (0, buf)
     else do {
       buf \<leftarrow> store_be64 en buf 0 (mka_client_order_id m);
       buf \<leftarrow> store_be64 en buf 8 (mka_new_exchange_order_id m);
       buf \<leftarrow> store_be64 en buf 16 (mka_send_ts m);
       Some (kModifyAckWireSize, buf)
     })"

definition deserialize_modify_ack :: "endian \<Rightarrow> u8 list \<Rightarrow> ModifyAck option outcome" where
  "deserialize_modify_ack en buf =
    (if length buf < kModifyAckWireSize then Some None
     else do {
       client_order_id \<leftarrow> load_be64 en buf 0;
       new_exchange_order_id \<leftarrow> load_be64 en buf 8;
       send_ts \<leftarrow> load_be64 en buf 16;
       Some (Some \<lparr>mka_client_order_id = client_order_id, mka_new_exchange_order_id = new_exchange_order_id, mka_send_ts = send_ts\<rparr>)
     })"

definition serialize_modify_reject :: "endian \<Rightarrow> u8 list \<Rightarrow> ModifyReject \<Rightarrow> (nat \<times> u8 list) outcome" where
  "serialize_modify_reject en buf m =
    (if length buf < kModifyRejectWireSize then Some (0, buf)
     else do {
       buf \<leftarrow> store_be64 en buf 0 (mrj_client_order_id m);
       buf \<leftarrow> store8 buf 8 (mrj_reason m);
       buf \<leftarrow> store_be64 en buf 9 (mrj_send_ts m);
       Some (kModifyRejectWireSize, buf)
     })"

definition deserialize_modify_reject :: "endian \<Rightarrow> u8 list \<Rightarrow> ModifyReject option outcome" where
  "deserialize_modify_reject en buf =
    (if length buf < kModifyRejectWireSize then Some None
     else do {
       client_order_id \<leftarrow> load_be64 en buf 0;
       reason \<leftarrow> load8 buf 8;
       send_ts \<leftarrow> load_be64 en buf 9;
       Some (Some \<lparr>mrj_client_order_id = client_order_id, mrj_reason = reason, mrj_send_ts = send_ts\<rparr>)
     })"

definition pack_tcp_message :: "endian \<Rightarrow> u8 list \<Rightarrow> MsgType \<Rightarrow> u8 list \<Rightarrow> (nat \<times> u8 list) outcome" where
  "pack_tcp_message en out msg_type payload =
     pack_message en out kProtocolVersion (MsgType_code msg_type) 0 payload"

text \<open>\<^verbatim>\<open>MessageCodecFramer::decode\<close> and \<^verbatim>\<open>encode\<close>.\<close>

definition framer_decode :: "endian \<Rightarrow> u8 list \<Rightarrow> FrameDecodeResult outcome" where
  "framer_decode en buf =
    (if length buf < kMessageHeaderSize then
       Some \<lparr>fd_status = kIncomplete, fd_frame_size = 0, fd_payload = []\<rparr>
     else do {
       magic \<leftarrow> load_be32 en buf 0;
       if magic \<noteq> kMessageMagic then Some \<lparr>fd_status = kError, fd_frame_size = 0, fd_payload = []\<rparr>
       else do {
         w \<leftarrow> load_be32 en buf 8;
         let plen = unat w;
         if plen > kMaxPayloadSize then Some \<lparr>fd_status = kError, fd_frame_size = 0, fd_payload = []\<rparr>
         else let frame_size = kMessageHeaderSize + plen
              in if length buf < frame_size then
                   Some \<lparr>fd_status = kIncomplete, fd_frame_size = 0, fd_payload = []\<rparr>
                 else Some \<lparr>fd_status = kOk, fd_frame_size = frame_size, fd_payload = take frame_size buf\<rparr>
       }
     })"

definition framer_encode :: "u8 list \<Rightarrow> u8 list \<Rightarrow> (nat \<times> u8 list) outcome" where
  "framer_encode tx_buf payload =
    (if length payload > length tx_buf then Some (0, tx_buf)
     else do { tx_buf \<leftarrow> poke tx_buf 0 payload; Some (length payload, tx_buf) })"

section \<open>Wire layouts\<close>

definition wire_market_data :: "MarketDataUpdate \<Rightarrow> u8 list" where
  "wire_market_data m = be_bytes 8 (md_seq_num m) @ be_bytes 4 (md_symbol_id m) @ [md_msg_type m] @ [md_side m] @ be_bytes 8 (md_price m) @ be_bytes 4 (md_qty m) @ be_bytes 8 (md_exchange_ts m)"

definition wire_new_order :: "NewOrder \<Rightarrow> u8 list" where
  "wire_new_order m = be_bytes 8 (no_client_order_id m) @ be_bytes 4 (no_symbol_id m) @ [no_side m] @ be_bytes 8 (no_price m) @ be_bytes 4 (no_qty m) @ be_bytes 8 (no_send_ts m)"

definition wire_cancel_order :: "CancelOrder \<Rightarrow> u8 list" where
  "wire_cancel_order m = be_bytes 8 (co_client_order_id m) @ be_bytes 4 (co_symbol_id m) @ be_bytes 8 (co_send_ts m)"

definition wire_order_ack :: "OrderAck \<Rightarrow> u8 list" where
  "wire_order_ack m = be_bytes 8 (oa_client_order_id m) @ be_bytes 8 (oa_exchange_order_id m) @ be_bytes 8 (oa_send_ts m)"

definition wire_order_reject :: "OrderReject \<Rightarrow> u8 list" where
  "wire_order_reject m = be_bytes 8 (orj_client_order_id m) @ [orj_reason m] @ be_bytes 8 (orj_send_ts m)"

definition wire_fill_report :: "FillReport \<Rightarrow> u8 list" where
  "wire_fill_report m = be_bytes 8 (fr_client_order_id m) @ be_bytes 8 (fr_exchange_order_id m) @ be_bytes 8 (fr_fill_price m) @ be_bytes 4 (fr_fill_qty m) @ be_bytes 4 (fr_remaining_qty m) @ be_bytes 8 (fr_send_ts m)"

definition wire_cancel_ack :: "CancelAck \<Rightarrow> u8 list" where
  "wire_cancel_ack m = be_bytes 8 (ca_client_order_id m) @ be_bytes 8 (ca_send_ts m)"

definition wire_cancel_reject :: "CancelReject \<Rightarrow> u8 list" where
  "wire_cancel_reject m = be_bytes 8 (crj_client_order_id m) @ [crj_reason m] @ be_bytes 8 (crj_send_ts m)"

definition wire_modify_order :: "ModifyOrder \<Rightarrow> u8 list" where
  "wire_modify_order m = be_bytes 8 (mo_client_order_id m) @ be_bytes 4 (mo_symbol_id m) @ be_bytes 8 (mo_new_price m) @ be_bytes 4 (mo_new_qty m) @ be_bytes 8 (mo_send_ts m)"

definition wire_modify_ack :: "ModifyAck \<Rightarrow> u8 list" where
  "wire_modify_ack m = be_bytes 8 (mka_client_order_id m) @ be_bytes 8 (mka_new_exchange_order_id m) @ be_bytes 8 (mka_send_ts m)"

definition wire_modify_reject :: "ModifyReject \<Rightarrow> u8 list" where
  "wire_modify_reject m = be_bytes 8 (mrj_client_order_id m) @ [mrj_reason m] @ be_bytes 8 (mrj_send_ts m)"

section \<open>The contract of a payload codec\<close>

text \<open>
  What the order path relies on for every message type: serialization writes a fixed layout
  of \<open>n\<close> bytes or refuses a short buffer, deserialization inverts it, and every byte string
  of that length is the layout of exactly one message.
\<close>

locale payload_codec =
  fixes ser :: "endian \<Rightarrow> u8 list \<Rightarrow> 'm \<Rightarrow> (nat \<times> u8 list) outcome"
    and des :: "endian \<Rightarrow> u8 list \<Rightarrow> 'm option outcome"
    and wire :: "'m \<Rightarrow> u8 list"
    and n :: nat
  assumes size_ok: "n \<le> kMaxPayloadSize"
    and wire_length: "length (wire m) = n"
    and ser_eq: "ser en buf m = Some (if length buf < n then (0, buf) else (n, wire m @ drop n buf))"
    and des_short: "length buf < n \<Longrightarrow> des en buf = Some None"
    and des_wire: "des en (wire m) = Some (Some m)"
    and wire_onto: "length buf = n \<Longrightarrow> \<exists>m. buf = wire m"
begin

lemma wire_inj: "wire m = wire m' \<Longrightarrow> m = m'"
  using des_wire by (metis option.inject)

lemma des_exact:
  assumes "length buf = n"
  shows "\<exists>m. des en buf = Some (Some m) \<and> ser en buf m = Some (n, buf)"
  using wire_onto [OF assms] des_wire ser_eq by (auto simp: wire_length)

text \<open>
  The order path: serialize into the scratch buffer, wrap into the transmit buffer, and on
  the other side unwrap the front of the received bytes and deserialize the payload.
\<close>

lemma tcp_round_trip:
  assumes "n \<le> length scratch" "16 + n \<le> length tx"
  shows "\<exists>scratch' tx' v. ser e1 scratch m = Some (n, scratch') \<and>
    pack_tcp_message e1 tx ty (take n scratch') = Some (16 + n, tx') \<and>
    unpack_message e2 (take (16 + n) tx' @ rest) = Some (Some v) \<and>
    verify_protocol_version (mh_version (pm_header v)) \<and>
    mh_msg_type (pm_header v) = MsgType_code ty \<and> des e2 (pm_payload v) = Some (Some m)"
proof -
  have s: "ser e1 scratch m = Some (n, wire m @ drop n scratch)" using assms(1) by (simp add: ser_eq)
  have p: "pack_tcp_message e1 tx ty (wire m) =
      Some (16 + n, message_bytes kProtocolVersion (MsgType_code ty) 0 (wire m) @ drop (16 + n) tx)"
    using assms(2) size_ok by (simp add: pack_tcp_message_def pack_message_eq wire_length)
  have "length (wire m) \<le> kMaxPayloadSize" using size_ok by (simp add: wire_length)
  from unpack_message_bytes [OF this, of e2 kProtocolVersion "MsgType_code ty" 0 rest]
  show ?thesis using s p by (simp add: wire_length verify_protocol_version_def des_wire)
qed

end

text \<open>A byte string cut into pieces of given lengths.\<close>

lemma cut_pieces:
  "length buf = sum_list ns \<Longrightarrow> \<exists>ps. map length ps = ns \<and> buf = concat ps"
proof (induction ns arbitrary: buf)
  case (Cons n ns)
  then have "length (drop n buf) = sum_list ns" by simp
  from Cons.IH [OF this] obtain ps where ps: "map length ps = ns" "drop n buf = concat ps" by blast
  have a: "map length (take n buf # ps) = n # ns" using Cons.prems ps(1) by simp
  have b: "buf = concat (take n buf # ps)" by (simp flip: ps(2))
  show ?case by (rule exI, rule conjI [OF a b])
qed simp

lemmas be_bytes_onto =
  be_bytes_of_be_bytes [where 'a = 32 and k = 4, simplified]
  be_bytes_of_be_bytes [where 'a = 64 and k = 8, simplified]

lemma wire_market_data_onto:
  assumes "length buf = 34"
  shows "\<exists>m. buf = wire_market_data m"
proof -
  have "length buf = sum_list [8, 4, 1, 1, 8, 4, 8]" using assms by simp
  from cut_pieces [OF this] obtain a b c d e f g where "buf = a @ b @ c @ d @ e @ f @ g" "length a = 8" "length b = 4" "length c = 1" "length d = 1" "length e = 8" "length f = 4" "length g = 8"
    by (auto simp: map_eq_Cons_conv)
  then have "buf = wire_market_data \<lparr>md_seq_num = of_be_bytes a, md_symbol_id = of_be_bytes b, md_msg_type = hd c, md_side = hd d, md_price = of_be_bytes e, md_qty = of_be_bytes f, md_exchange_ts = of_be_bytes g\<rparr>"
    by (auto simp: wire_market_data_def be_bytes_onto length_Suc_conv)
  then show ?thesis by blast
qed

interpretation market_data_codec: payload_codec serialize_market_data deserialize_market_data wire_market_data 34
proof unfold_locales
  fix en buf m
  show "serialize_market_data en buf m = Some (if length buf < 34 then (0, buf) else (34, wire_market_data m @ drop 34 buf))"
    by (cases "length buf < 34") (auto simp: serialize_market_data_def wire_market_data_def kMarketDataWireSize_def wire_simps)
  show "\<exists>m. buf = wire_market_data m" if "length buf = 34" using wire_market_data_onto [OF that] .
qed (simp_all add: kMaxPayloadSize_def deserialize_market_data_def wire_market_data_def kMarketDataWireSize_def wire_simps)

lemma wire_new_order_onto:
  assumes "length buf = 33"
  shows "\<exists>m. buf = wire_new_order m"
proof -
  have "length buf = sum_list [8, 4, 1, 8, 4, 8]" using assms by simp
  from cut_pieces [OF this] obtain a b c d e f where "buf = a @ b @ c @ d @ e @ f" "length a = 8" "length b = 4" "length c = 1" "length d = 8" "length e = 4" "length f = 8"
    by (auto simp: map_eq_Cons_conv)
  then have "buf = wire_new_order \<lparr>no_client_order_id = of_be_bytes a, no_symbol_id = of_be_bytes b, no_side = hd c, no_price = of_be_bytes d, no_qty = of_be_bytes e, no_send_ts = of_be_bytes f\<rparr>"
    by (auto simp: wire_new_order_def be_bytes_onto length_Suc_conv)
  then show ?thesis by blast
qed

interpretation new_order_codec: payload_codec serialize_new_order deserialize_new_order wire_new_order 33
proof unfold_locales
  fix en buf m
  show "serialize_new_order en buf m = Some (if length buf < 33 then (0, buf) else (33, wire_new_order m @ drop 33 buf))"
    by (cases "length buf < 33") (auto simp: serialize_new_order_def wire_new_order_def kNewOrderWireSize_def wire_simps)
  show "\<exists>m. buf = wire_new_order m" if "length buf = 33" using wire_new_order_onto [OF that] .
qed (simp_all add: kMaxPayloadSize_def deserialize_new_order_def wire_new_order_def kNewOrderWireSize_def wire_simps)

lemma wire_cancel_order_onto:
  assumes "length buf = 20"
  shows "\<exists>m. buf = wire_cancel_order m"
proof -
  have "length buf = sum_list [8, 4, 8]" using assms by simp
  from cut_pieces [OF this] obtain a b c where "buf = a @ b @ c" "length a = 8" "length b = 4" "length c = 8"
    by (auto simp: map_eq_Cons_conv)
  then have "buf = wire_cancel_order \<lparr>co_client_order_id = of_be_bytes a, co_symbol_id = of_be_bytes b, co_send_ts = of_be_bytes c\<rparr>"
    by (auto simp: wire_cancel_order_def be_bytes_onto length_Suc_conv)
  then show ?thesis by blast
qed

interpretation cancel_order_codec: payload_codec serialize_cancel_order deserialize_cancel_order wire_cancel_order 20
proof unfold_locales
  fix en buf m
  show "serialize_cancel_order en buf m = Some (if length buf < 20 then (0, buf) else (20, wire_cancel_order m @ drop 20 buf))"
    by (cases "length buf < 20") (auto simp: serialize_cancel_order_def wire_cancel_order_def kCancelOrderWireSize_def wire_simps)
  show "\<exists>m. buf = wire_cancel_order m" if "length buf = 20" using wire_cancel_order_onto [OF that] .
qed (simp_all add: kMaxPayloadSize_def deserialize_cancel_order_def wire_cancel_order_def kCancelOrderWireSize_def wire_simps)

lemma wire_order_ack_onto:
  assumes "length buf = 24"
  shows "\<exists>m. buf = wire_order_ack m"
proof -
  have "length buf = sum_list [8, 8, 8]" using assms by simp
  from cut_pieces [OF this] obtain a b c where "buf = a @ b @ c" "length a = 8" "length b = 8" "length c = 8"
    by (auto simp: map_eq_Cons_conv)
  then have "buf = wire_order_ack \<lparr>oa_client_order_id = of_be_bytes a, oa_exchange_order_id = of_be_bytes b, oa_send_ts = of_be_bytes c\<rparr>"
    by (auto simp: wire_order_ack_def be_bytes_onto length_Suc_conv)
  then show ?thesis by blast
qed

interpretation order_ack_codec: payload_codec serialize_order_ack deserialize_order_ack wire_order_ack 24
proof unfold_locales
  fix en buf m
  show "serialize_order_ack en buf m = Some (if length buf < 24 then (0, buf) else (24, wire_order_ack m @ drop 24 buf))"
    by (cases "length buf < 24") (auto simp: serialize_order_ack_def wire_order_ack_def kOrderAckWireSize_def wire_simps)
  show "\<exists>m. buf = wire_order_ack m" if "length buf = 24" using wire_order_ack_onto [OF that] .
qed (simp_all add: kMaxPayloadSize_def deserialize_order_ack_def wire_order_ack_def kOrderAckWireSize_def wire_simps)

lemma wire_order_reject_onto:
  assumes "length buf = 17"
  shows "\<exists>m. buf = wire_order_reject m"
proof -
  have "length buf = sum_list [8, 1, 8]" using assms by simp
  from cut_pieces [OF this] obtain a b c where "buf = a @ b @ c" "length a = 8" "length b = 1" "length c = 8"
    by (auto simp: map_eq_Cons_conv)
  then have "buf = wire_order_reject \<lparr>orj_client_order_id = of_be_bytes a, orj_reason = hd b, orj_send_ts = of_be_bytes c\<rparr>"
    by (auto simp: wire_order_reject_def be_bytes_onto length_Suc_conv)
  then show ?thesis by blast
qed

interpretation order_reject_codec: payload_codec serialize_order_reject deserialize_order_reject wire_order_reject 17
proof unfold_locales
  fix en buf m
  show "serialize_order_reject en buf m = Some (if length buf < 17 then (0, buf) else (17, wire_order_reject m @ drop 17 buf))"
    by (cases "length buf < 17") (auto simp: serialize_order_reject_def wire_order_reject_def kOrderRejectWireSize_def wire_simps)
  show "\<exists>m. buf = wire_order_reject m" if "length buf = 17" using wire_order_reject_onto [OF that] .
qed (simp_all add: kMaxPayloadSize_def deserialize_order_reject_def wire_order_reject_def kOrderRejectWireSize_def wire_simps)

lemma wire_fill_report_onto:
  assumes "length buf = 40"
  shows "\<exists>m. buf = wire_fill_report m"
proof -
  have "length buf = sum_list [8, 8, 8, 4, 4, 8]" using assms by simp
  from cut_pieces [OF this] obtain a b c d e f where "buf = a @ b @ c @ d @ e @ f" "length a = 8" "length b = 8" "length c = 8" "length d = 4" "length e = 4" "length f = 8"
    by (auto simp: map_eq_Cons_conv)
  then have "buf = wire_fill_report \<lparr>fr_client_order_id = of_be_bytes a, fr_exchange_order_id = of_be_bytes b, fr_fill_price = of_be_bytes c, fr_fill_qty = of_be_bytes d, fr_remaining_qty = of_be_bytes e, fr_send_ts = of_be_bytes f\<rparr>"
    by (auto simp: wire_fill_report_def be_bytes_onto length_Suc_conv)
  then show ?thesis by blast
qed

interpretation fill_report_codec: payload_codec serialize_fill_report deserialize_fill_report wire_fill_report 40
proof unfold_locales
  fix en buf m
  show "serialize_fill_report en buf m = Some (if length buf < 40 then (0, buf) else (40, wire_fill_report m @ drop 40 buf))"
    by (cases "length buf < 40") (auto simp: serialize_fill_report_def wire_fill_report_def kFillReportWireSize_def wire_simps)
  show "\<exists>m. buf = wire_fill_report m" if "length buf = 40" using wire_fill_report_onto [OF that] .
qed (simp_all add: kMaxPayloadSize_def deserialize_fill_report_def wire_fill_report_def kFillReportWireSize_def wire_simps)

lemma wire_cancel_ack_onto:
  assumes "length buf = 16"
  shows "\<exists>m. buf = wire_cancel_ack m"
proof -
  have "length buf = sum_list [8, 8]" using assms by simp
  from cut_pieces [OF this] obtain a b where "buf = a @ b" "length a = 8" "length b = 8"
    by (auto simp: map_eq_Cons_conv)
  then have "buf = wire_cancel_ack \<lparr>ca_client_order_id = of_be_bytes a, ca_send_ts = of_be_bytes b\<rparr>"
    by (auto simp: wire_cancel_ack_def be_bytes_onto length_Suc_conv)
  then show ?thesis by blast
qed

interpretation cancel_ack_codec: payload_codec serialize_cancel_ack deserialize_cancel_ack wire_cancel_ack 16
proof unfold_locales
  fix en buf m
  show "serialize_cancel_ack en buf m = Some (if length buf < 16 then (0, buf) else (16, wire_cancel_ack m @ drop 16 buf))"
    by (cases "length buf < 16") (auto simp: serialize_cancel_ack_def wire_cancel_ack_def kCancelAckWireSize_def wire_simps)
  show "\<exists>m. buf = wire_cancel_ack m" if "length buf = 16" using wire_cancel_ack_onto [OF that] .
qed (simp_all add: kMaxPayloadSize_def deserialize_cancel_ack_def wire_cancel_ack_def kCancelAckWireSize_def wire_simps)

lemma wire_cancel_reject_onto:
  assumes "length buf = 17"
  shows "\<exists>m. buf = wire_cancel_reject m"
proof -
  have "length buf = sum_list [8, 1, 8]" using assms by simp
  from cut_pieces [OF this] obtain a b c where "buf = a @ b @ c" "length a = 8" "length b = 1" "length c = 8"
    by (auto simp: map_eq_Cons_conv)
  then have "buf = wire_cancel_reject \<lparr>crj_client_order_id = of_be_bytes a, crj_reason = hd b, crj_send_ts = of_be_bytes c\<rparr>"
    by (auto simp: wire_cancel_reject_def be_bytes_onto length_Suc_conv)
  then show ?thesis by blast
qed

interpretation cancel_reject_codec: payload_codec serialize_cancel_reject deserialize_cancel_reject wire_cancel_reject 17
proof unfold_locales
  fix en buf m
  show "serialize_cancel_reject en buf m = Some (if length buf < 17 then (0, buf) else (17, wire_cancel_reject m @ drop 17 buf))"
    by (cases "length buf < 17") (auto simp: serialize_cancel_reject_def wire_cancel_reject_def kCancelRejectWireSize_def wire_simps)
  show "\<exists>m. buf = wire_cancel_reject m" if "length buf = 17" using wire_cancel_reject_onto [OF that] .
qed (simp_all add: kMaxPayloadSize_def deserialize_cancel_reject_def wire_cancel_reject_def kCancelRejectWireSize_def wire_simps)

lemma wire_modify_order_onto:
  assumes "length buf = 32"
  shows "\<exists>m. buf = wire_modify_order m"
proof -
  have "length buf = sum_list [8, 4, 8, 4, 8]" using assms by simp
  from cut_pieces [OF this] obtain a b c d e where "buf = a @ b @ c @ d @ e" "length a = 8" "length b = 4" "length c = 8" "length d = 4" "length e = 8"
    by (auto simp: map_eq_Cons_conv)
  then have "buf = wire_modify_order \<lparr>mo_client_order_id = of_be_bytes a, mo_symbol_id = of_be_bytes b, mo_new_price = of_be_bytes c, mo_new_qty = of_be_bytes d, mo_send_ts = of_be_bytes e\<rparr>"
    by (auto simp: wire_modify_order_def be_bytes_onto length_Suc_conv)
  then show ?thesis by blast
qed

interpretation modify_order_codec: payload_codec serialize_modify_order deserialize_modify_order wire_modify_order 32
proof unfold_locales
  fix en buf m
  show "serialize_modify_order en buf m = Some (if length buf < 32 then (0, buf) else (32, wire_modify_order m @ drop 32 buf))"
    by (cases "length buf < 32") (auto simp: serialize_modify_order_def wire_modify_order_def kModifyOrderWireSize_def wire_simps)
  show "\<exists>m. buf = wire_modify_order m" if "length buf = 32" using wire_modify_order_onto [OF that] .
qed (simp_all add: kMaxPayloadSize_def deserialize_modify_order_def wire_modify_order_def kModifyOrderWireSize_def wire_simps)

lemma wire_modify_ack_onto:
  assumes "length buf = 24"
  shows "\<exists>m. buf = wire_modify_ack m"
proof -
  have "length buf = sum_list [8, 8, 8]" using assms by simp
  from cut_pieces [OF this] obtain a b c where "buf = a @ b @ c" "length a = 8" "length b = 8" "length c = 8"
    by (auto simp: map_eq_Cons_conv)
  then have "buf = wire_modify_ack \<lparr>mka_client_order_id = of_be_bytes a, mka_new_exchange_order_id = of_be_bytes b, mka_send_ts = of_be_bytes c\<rparr>"
    by (auto simp: wire_modify_ack_def be_bytes_onto length_Suc_conv)
  then show ?thesis by blast
qed

interpretation modify_ack_codec: payload_codec serialize_modify_ack deserialize_modify_ack wire_modify_ack 24
proof unfold_locales
  fix en buf m
  show "serialize_modify_ack en buf m = Some (if length buf < 24 then (0, buf) else (24, wire_modify_ack m @ drop 24 buf))"
    by (cases "length buf < 24") (auto simp: serialize_modify_ack_def wire_modify_ack_def kModifyAckWireSize_def wire_simps)
  show "\<exists>m. buf = wire_modify_ack m" if "length buf = 24" using wire_modify_ack_onto [OF that] .
qed (simp_all add: kMaxPayloadSize_def deserialize_modify_ack_def wire_modify_ack_def kModifyAckWireSize_def wire_simps)

lemma wire_modify_reject_onto:
  assumes "length buf = 17"
  shows "\<exists>m. buf = wire_modify_reject m"
proof -
  have "length buf = sum_list [8, 1, 8]" using assms by simp
  from cut_pieces [OF this] obtain a b c where "buf = a @ b @ c" "length a = 8" "length b = 1" "length c = 8"
    by (auto simp: map_eq_Cons_conv)
  then have "buf = wire_modify_reject \<lparr>mrj_client_order_id = of_be_bytes a, mrj_reason = hd b, mrj_send_ts = of_be_bytes c\<rparr>"
    by (auto simp: wire_modify_reject_def be_bytes_onto length_Suc_conv)
  then show ?thesis by blast
qed

interpretation modify_reject_codec: payload_codec serialize_modify_reject deserialize_modify_reject wire_modify_reject 17
proof unfold_locales
  fix en buf m
  show "serialize_modify_reject en buf m = Some (if length buf < 17 then (0, buf) else (17, wire_modify_reject m @ drop 17 buf))"
    by (cases "length buf < 17") (auto simp: serialize_modify_reject_def wire_modify_reject_def kModifyRejectWireSize_def wire_simps)
  show "\<exists>m. buf = wire_modify_reject m" if "length buf = 17" using wire_modify_reject_onto [OF that] .
qed (simp_all add: kMaxPayloadSize_def deserialize_modify_reject_def wire_modify_reject_def kModifyRejectWireSize_def wire_simps)

section \<open>All messages of the TCP channel\<close>

datatype tcp_msg = MNewOrder NewOrder
  | MCancelOrder CancelOrder
  | MOrderAck OrderAck
  | MOrderReject OrderReject
  | MFillReport FillReport
  | MCancelAck CancelAck
  | MCancelReject CancelReject
  | MModifyOrder ModifyOrder
  | MModifyAck ModifyAck
  | MModifyReject ModifyReject

fun tcp_type :: "tcp_msg \<Rightarrow> MsgType" where
  "tcp_type (MNewOrder _) = kNewOrder"
| "tcp_type (MCancelOrder _) = kCancelOrder"
| "tcp_type (MOrderAck _) = kOrderAck"
| "tcp_type (MOrderReject _) = kOrderReject"
| "tcp_type (MFillReport _) = kFillReport"
| "tcp_type (MCancelAck _) = kCancelAck"
| "tcp_type (MCancelReject _) = kCancelReject"
| "tcp_type (MModifyOrder _) = kModifyOrder"
| "tcp_type (MModifyAck _) = kModifyAck"
| "tcp_type (MModifyReject _) = kModifyReject"

fun tcp_size :: "tcp_msg \<Rightarrow> nat" where
  "tcp_size (MNewOrder _) = kNewOrderWireSize"
| "tcp_size (MCancelOrder _) = kCancelOrderWireSize"
| "tcp_size (MOrderAck _) = kOrderAckWireSize"
| "tcp_size (MOrderReject _) = kOrderRejectWireSize"
| "tcp_size (MFillReport _) = kFillReportWireSize"
| "tcp_size (MCancelAck _) = kCancelAckWireSize"
| "tcp_size (MCancelReject _) = kCancelRejectWireSize"
| "tcp_size (MModifyOrder _) = kModifyOrderWireSize"
| "tcp_size (MModifyAck _) = kModifyAckWireSize"
| "tcp_size (MModifyReject _) = kModifyRejectWireSize"

fun tcp_serialize :: "endian \<Rightarrow> u8 list \<Rightarrow> tcp_msg \<Rightarrow> (nat \<times> u8 list) outcome" where
  "tcp_serialize en buf (MNewOrder m) = serialize_new_order en buf m"
| "tcp_serialize en buf (MCancelOrder m) = serialize_cancel_order en buf m"
| "tcp_serialize en buf (MOrderAck m) = serialize_order_ack en buf m"
| "tcp_serialize en buf (MOrderReject m) = serialize_order_reject en buf m"
| "tcp_serialize en buf (MFillReport m) = serialize_fill_report en buf m"
| "tcp_serialize en buf (MCancelAck m) = serialize_cancel_ack en buf m"
| "tcp_serialize en buf (MCancelReject m) = serialize_cancel_reject en buf m"
| "tcp_serialize en buf (MModifyOrder m) = serialize_modify_order en buf m"
| "tcp_serialize en buf (MModifyAck m) = serialize_modify_ack en buf m"
| "tcp_serialize en buf (MModifyReject m) = serialize_modify_reject en buf m"

text \<open>The receiver chooses the deserializer by the type code of the header.\<close>

definition tcp_deserialize :: "endian \<Rightarrow> u16 \<Rightarrow> u8 list \<Rightarrow> tcp_msg option outcome" where
  "tcp_deserialize en ty payload =
    (if ty = MsgType_code kNewOrder then map_option (map_option MNewOrder) (deserialize_new_order en payload)
     else if ty = MsgType_code kCancelOrder then map_option (map_option MCancelOrder) (deserialize_cancel_order en payload)
     else if ty = MsgType_code kOrderAck then map_option (map_option MOrderAck) (deserialize_order_ack en payload)
     else if ty = MsgType_code kOrderReject then map_option (map_option MOrderReject) (deserialize_order_reject en payload)
     else if ty = MsgType_code kFillReport then map_option (map_option MFillReport) (deserialize_fill_report en payload)
     else if ty = MsgType_code kCancelAck then map_option (map_option MCancelAck) (deserialize_cancel_ack en payload)
     else if ty = MsgType_code kCancelReject then map_option (map_option MCancelReject) (deserialize_cancel_reject en payload)
     else if ty = MsgType_code kModifyOrder then map_option (map_option MModifyOrder) (deserialize_modify_order en payload)
     else if ty = MsgType_code kModifyAck then map_option (map_option MModifyAck) (deserialize_modify_ack en payload)
     else if ty = MsgType_code kModifyReject then map_option (map_option MModifyReject) (deserialize_modify_reject en payload)
     else Some None)"

section \<open>Properties\<close>

text \<open>
  C20. The TCP channel transports every order-entry message unchanged: serialized into a
  scratch buffer that is large enough, wrapped, and read from the front of the receiver's
  bytes on a host of any endianness, the frame passes the version check and dispatches to the
  deserializer that returns the same message.
\<close>

theorem tcp_messages_round_trip:
  assumes "tcp_size m \<le> length scratch" "16 + tcp_size m \<le> length tx"
  shows "\<exists>scratch' tx' v. tcp_serialize e1 scratch m = Some (tcp_size m, scratch') \<and>
    pack_tcp_message e1 tx (tcp_type m) (take (tcp_size m) scratch') = Some (16 + tcp_size m, tx') \<and>
    unpack_message e2 (take (16 + tcp_size m) tx' @ rest) = Some (Some v) \<and>
    verify_protocol_version (mh_version (pm_header v)) \<and>
    tcp_deserialize e2 (mh_msg_type (pm_header v)) (pm_payload v) = Some (Some m)"
proof (cases m)
  case (MNewOrder x)
  then show ?thesis
    using assms new_order_codec.tcp_round_trip [of scratch tx e1 x kNewOrder e2 rest]
    by (fastforce simp: kNewOrderWireSize_def tcp_deserialize_def)
next
  case (MCancelOrder x)
  then show ?thesis
    using assms cancel_order_codec.tcp_round_trip [of scratch tx e1 x kCancelOrder e2 rest]
    by (fastforce simp: kCancelOrderWireSize_def tcp_deserialize_def)
next
  case (MOrderAck x)
  then show ?thesis
    using assms order_ack_codec.tcp_round_trip [of scratch tx e1 x kOrderAck e2 rest]
    by (fastforce simp: kOrderAckWireSize_def tcp_deserialize_def)
next
  case (MOrderReject x)
  then show ?thesis
    using assms order_reject_codec.tcp_round_trip [of scratch tx e1 x kOrderReject e2 rest]
    by (fastforce simp: kOrderRejectWireSize_def tcp_deserialize_def)
next
  case (MFillReport x)
  then show ?thesis
    using assms fill_report_codec.tcp_round_trip [of scratch tx e1 x kFillReport e2 rest]
    by (fastforce simp: kFillReportWireSize_def tcp_deserialize_def)
next
  case (MCancelAck x)
  then show ?thesis
    using assms cancel_ack_codec.tcp_round_trip [of scratch tx e1 x kCancelAck e2 rest]
    by (fastforce simp: kCancelAckWireSize_def tcp_deserialize_def)
next
  case (MCancelReject x)
  then show ?thesis
    using assms cancel_reject_codec.tcp_round_trip [of scratch tx e1 x kCancelReject e2 rest]
    by (fastforce simp: kCancelRejectWireSize_def tcp_deserialize_def)
next
  case (MModifyOrder x)
  then show ?thesis
    using assms modify_order_codec.tcp_round_trip [of scratch tx e1 x kModifyOrder e2 rest]
    by (fastforce simp: kModifyOrderWireSize_def tcp_deserialize_def)
next
  case (MModifyAck x)
  then show ?thesis
    using assms modify_ack_codec.tcp_round_trip [of scratch tx e1 x kModifyAck e2 rest]
    by (fastforce simp: kModifyAckWireSize_def tcp_deserialize_def)
next
  case (MModifyReject x)
  then show ?thesis
    using assms modify_reject_codec.tcp_round_trip [of scratch tx e1 x kModifyReject e2 rest]
    by (fastforce simp: kModifyRejectWireSize_def tcp_deserialize_def)
qed

theorem tcp_messages_round_trip_witness:
  "\<exists>scratch' tx' v.
    tcp_serialize little (replicate 64 0) (MCancelAck \<lparr>ca_client_order_id = 7, ca_send_ts = 9\<rparr>) =
      Some (tcp_size (MCancelAck \<lparr>ca_client_order_id = 7, ca_send_ts = 9\<rparr>), scratch') \<and>
    pack_tcp_message little (replicate 64 0) (tcp_type (MCancelAck \<lparr>ca_client_order_id = 7, ca_send_ts = 9\<rparr>))
      (take (tcp_size (MCancelAck \<lparr>ca_client_order_id = 7, ca_send_ts = 9\<rparr>)) scratch') =
      Some (16 + tcp_size (MCancelAck \<lparr>ca_client_order_id = 7, ca_send_ts = 9\<rparr>), tx') \<and>
    unpack_message big (take (16 + tcp_size (MCancelAck \<lparr>ca_client_order_id = 7, ca_send_ts = 9\<rparr>)) tx' @ [1]) =
      Some (Some v) \<and>
    verify_protocol_version (mh_version (pm_header v)) \<and>
    tcp_deserialize big (mh_msg_type (pm_header v)) (pm_payload v) =
      Some (Some (MCancelAck \<lparr>ca_client_order_id = 7, ca_send_ts = 9\<rparr>))"
  by (rule tcp_messages_round_trip) (simp_all add: kCancelAckWireSize_def)

text \<open>
  A market data datagram is accepted exactly when it has the wire size, and then it is
  the serialization of the message it was read as; serializing and deserializing a message
  gives it back on hosts of any endianness.
\<close>

theorem market_data_exact:
  "(deserialize_market_data en buf = Some None) = (length buf \<noteq> kMarketDataWireSize) \<and>
   (\<exists>r. deserialize_market_data en buf = Some r) \<and>
   (deserialize_market_data en buf = Some (Some m)) = (serialize_market_data e2 (replicate 34 0) m = Some (34, buf))"
proof -
  have "\<exists>m. buf = wire_market_data m" if "length buf = 34" using wire_market_data_onto [OF that] .
  moreover have "deserialize_market_data en buf = Some None" if "length buf \<noteq> 34"
    using that by (simp add: deserialize_market_data_def kMarketDataWireSize_def)
  ultimately show ?thesis
    by (cases "length buf = 34")
       (auto simp: kMarketDataWireSize_def market_data_codec.des_wire market_data_codec.ser_eq
         market_data_codec.wire_length
         dest: market_data_codec.wire_inj)
qed

end
