(* ===== verification/TcpServer.thy ===== *)
theory TcpServer
  imports Protocol
begin

text \<open>
  The connection layer of \<^verbatim>\<open>libs/net/tcp_server.hpp\<close>: the framers, the per-connection
  slot, frame processing, the edge-triggered read and write handlers, the event dispatcher
  with its stale-event defence, and the send and close calls. System calls are inputs: the
  list of what successive calls of \<^verbatim>\<open>recv\<close> or \<^verbatim>\<open>send\<close> return. The application handler is a
  parameter that answers through the buffer it is given. A slot carries the contents of the
  receive and transmit regions its pointers denote.
\<close>

section \<open>Framers\<close>

definition lp_decode :: "endian \<Rightarrow> u8 list \<Rightarrow> FrameDecodeResult outcome" where
  "lp_decode en buf = decode_length_prefix_frame en buf (64 * 1024)"

definition lp_encode :: "endian \<Rightarrow> u8 list \<Rightarrow> u8 list \<Rightarrow> (nat \<times> u8 list) outcome" where
  "lp_encode en tx_buf payload = do {
     (r, tx_buf) \<leftarrow> encode_length_prefix_frame en tx_buf payload (64 * 1024);
     Some (case r of None \<Rightarrow> 0 | Some n \<Rightarrow> n, tx_buf)
   }"

definition raw_decode :: "u8 list \<Rightarrow> FrameDecodeResult outcome" where
  "raw_decode buf =
    (if buf = [] then Some \<lparr>fd_status = kIncomplete, fd_frame_size = 0, fd_payload = []\<rparr>
     else Some \<lparr>fd_status = kOk, fd_frame_size = length buf, fd_payload = buf\<rparr>)"

definition raw_encode :: "u8 list \<Rightarrow> u8 list \<Rightarrow> (nat \<times> u8 list) outcome" where
  "raw_encode tx_buf payload =
    (if length payload > length tx_buf then Some (0, tx_buf)
     else do { tx_buf \<leftarrow> poke tx_buf 0 payload; Some (length payload, tx_buf) })"

section \<open>System calls\<close>

text \<open>
  What successive calls of \<^verbatim>\<open>recv\<close> meet: bytes in the socket (a call takes at most the space
  it offers and leaves the others there; no bytes at all is the end of the stream), or an
  error number. For \<^verbatim>\<open>send\<close>, the bytes the kernel has room for, or an error number.
\<close>

datatype errno = EINTR | EAGAIN | EWOULDBLOCK | EPIPE | ECONNRESET | EOTHER

datatype IoStatus = IoOk | IoWouldBlock | IoPeerClosed | IoError

datatype recv_ret = Received "u8 list" | RecvFailed errno

fun raw_recv :: "recv_ret list \<Rightarrow> nat \<Rightarrow> (IoStatus \<times> u8 list \<times> recv_ret list) outcome" where
  "raw_recv [] len = None"
| "raw_recv (Received bs # env) len =
    (if bs = [] then Some (IoPeerClosed, [], env)
     else if len < length bs then Some (IoOk, take len bs, Received (drop len bs) # env)
     else Some (IoOk, bs, env))"
| "raw_recv (RecvFailed e # env) len =
    (if e = EINTR then raw_recv env len
     else if e = EAGAIN \<or> e = EWOULDBLOCK then Some (IoWouldBlock, [], env)
     else Some (IoError, [], env))"

datatype send_ret = Sent nat | SendFailed errno

fun raw_send :: "send_ret list \<Rightarrow> nat \<Rightarrow> (IoStatus \<times> nat \<times> send_ret list) outcome" where
  "raw_send [] len = None"
| "raw_send (Sent n # env) len =
    (if n > 0 then Some (IoOk, min n len, env) else Some (IoError, 0, env))"
| "raw_send (SendFailed e # env) len =
    (if e = EINTR then raw_send env len
     else if e = EAGAIN \<or> e = EWOULDBLOCK then Some (IoWouldBlock, 0, env)
     else if e = EPIPE \<or> e = ECONNRESET then Some (IoPeerClosed, 0, env)
     else Some (IoError, 0, env))"

section \<open>Connections\<close>

record ConnSlot =
  s_fd :: int
  s_generation :: u32
  rx_fill :: nat
  tx_size :: nat
  tx_sent :: nat
  peer_rd_closed :: bool
  rx_buf :: "u8 list"
  tx_buf :: "u8 list"

definition tx_pending :: "ConnSlot \<Rightarrow> nat" where
  "tx_pending s = tx_size s - tx_sent s"

definition rx_space :: "ConnSlot \<Rightarrow> nat" where
  "rx_space s = length (rx_buf s) - rx_fill s"

definition kListenerSentinel :: u64 where "kListenerSentinel = - 1"

definition encode_u64 :: "ConnSlot \<Rightarrow> u64" where
  "encode_u64 s = push_bit 32 (ucast (s_generation s)) OR ucast (word_of_int (s_fd s) :: u32)"

definition alloc_slot :: "ConnSlot list \<Rightarrow> nat \<Rightarrow> ConnSlot list" where
  "alloc_slot slots fd = slots[fd := (slots ! fd)\<lparr>s_fd := int fd, rx_fill := 0, tx_size := 0,
     tx_sent := 0, peer_rd_closed := False\<rparr>]"

definition release_slot :: "ConnSlot list \<Rightarrow> nat \<Rightarrow> ConnSlot list" where
  "release_slot slots fd = slots[fd := (slots ! fd)\<lparr>s_fd := - 1, s_generation := s_generation (slots ! fd) + 1\<rparr>]"

text \<open>
  The state one connection's handlers work on: its slot, the scratch buffer of the server
  and the state of the application handler.
\<close>

type_synonym 'h conn = "ConnSlot \<times> u8 list \<times> 'h"
type_synonym 'h on_data = "'h \<Rightarrow> int \<Rightarrow> u8 list \<Rightarrow> u8 list \<Rightarrow> nat \<times> u8 list \<times> 'h"
type_synonym decoder = "u8 list \<Rightarrow> FrameDecodeResult outcome"
type_synonym encoder = "u8 list \<Rightarrow> u8 list \<Rightarrow> (nat \<times> u8 list) outcome"

text \<open>
  The part of \<^verbatim>\<open>process_frames\<close> that handles one decoded payload: call the handler, encode its
  response into the transmit buffer. The flag is false for a return of \<^verbatim>\<open>kFrameError\<close>.
\<close>

definition answer_frame :: "encoder \<Rightarrow> 'h on_data \<Rightarrow> u8 list \<Rightarrow> 'h conn \<Rightarrow> (bool \<times> 'h conn) outcome" where
  "answer_frame enc on_data payload = (\<lambda>(s, scratch, h).
     let (resp_len, scratch, h) = on_data h (s_fd s) payload scratch
     in if resp_len > 0 then
          if resp_len > length scratch then Some (False, s, scratch, h)
          else do {
            (encoded, out) \<leftarrow> enc (drop (tx_size s) (tx_buf s)) (take resp_len scratch);
            if encoded = 0 then Some (False, s, scratch, h)
            else Some (True, s\<lparr>tx_buf := take (tx_size s) (tx_buf s) @ out, tx_size := tx_size s + encoded\<rparr>,
                       scratch, h)
          }
        else Some (True, s, scratch, h))"

text \<open>Returns the bytes consumed, \<open>None\<close> for \<^verbatim>\<open>kFrameError\<close>.\<close>

partial_function (option) process_loop ::
  "decoder \<Rightarrow> encoder \<Rightarrow> 'h on_data \<Rightarrow> nat \<Rightarrow> 'h conn \<Rightarrow> (nat option \<times> 'h conn) outcome" where
  "process_loop dec enc on_data consumed c = do {
     result \<leftarrow> dec (drop consumed (take (rx_fill (fst c)) (rx_buf (fst c))));
     if fd_status result = kError then Some (None, c)
     else if fd_status result = kIncomplete then Some (Some consumed, c)
     else do {
       (ok, c) \<leftarrow> answer_frame enc on_data (fd_payload result) c;
       if ok then process_loop dec enc on_data (consumed + fd_frame_size result) c
       else Some (None, c)
     }
   }"

definition process_frames ::
  "decoder \<Rightarrow> encoder \<Rightarrow> 'h on_data \<Rightarrow> 'h conn \<Rightarrow> (nat option \<times> 'h conn) outcome" where
  "process_frames dec enc on_data c = process_loop dec enc on_data 0 c"

definition compact_rx_buf :: "ConnSlot \<Rightarrow> nat \<Rightarrow> ConnSlot" where
  "compact_rx_buf s consumed =
    (if consumed = 0 then s
     else let remaining = rx_fill s - consumed
          in s\<lparr>rx_buf := take remaining (drop consumed (rx_buf s)) @ drop remaining (rx_buf s),
               rx_fill := remaining\<rparr>)"

partial_function (option) handle_write_et ::
  "send_ret list \<Rightarrow> ConnSlot \<Rightarrow> (bool \<times> ConnSlot \<times> send_ret list) outcome" where
  "handle_write_et env s =
    (if tx_pending s > 0 then do {
       (status, bytes, env) \<leftarrow> raw_send env (tx_pending s);
       if status = IoWouldBlock then Some (True, s, env)
       else if status = IoPeerClosed \<or> status = IoError then Some (False, s, env)
       else handle_write_et env (s\<lparr>tx_sent := tx_sent s + bytes\<rparr>)
     } else Some (True, s\<lparr>tx_size := 0, tx_sent := 0\<rparr>, env))"

text \<open>
  The read handler; the flag says whether the connection stays open (otherwise the caller's
  slot is closed). The receive buffer is written at its fill level.
\<close>

definition append_rx :: "u8 list \<Rightarrow> ConnSlot \<Rightarrow> ConnSlot" where
  "append_rx bs s = s\<lparr>rx_buf := take (rx_fill s) (rx_buf s) @ bs @ drop (rx_fill s + length bs) (rx_buf s),
     rx_fill := rx_fill s + length bs\<rparr>"

definition make_space ::
  "decoder \<Rightarrow> encoder \<Rightarrow> 'h on_data \<Rightarrow> 'h conn \<Rightarrow> (bool \<times> 'h conn) outcome" where
  "make_space dec enc on_data c =
    (if rx_space (fst c) = 0 then do {
       (consumed, c) \<leftarrow> process_frames dec enc on_data c;
       case consumed of
         None \<Rightarrow> Some (False, c)
       | Some n \<Rightarrow> let c = apfst (\<lambda>s. compact_rx_buf s n) c in Some (rx_space (fst c) \<noteq> 0, c)
     } else Some (True, c))"

partial_function (option) read_loop ::
  "decoder \<Rightarrow> encoder \<Rightarrow> 'h on_data \<Rightarrow> recv_ret list \<Rightarrow> 'h conn \<Rightarrow> (bool \<times> 'h conn \<times> recv_ret list) outcome" where
  "read_loop dec enc on_data env c = do {
     (ok, c) \<leftarrow> make_space dec enc on_data c;
     if \<not> ok then Some (False, c, env)
     else do {
       (status, bs, env) \<leftarrow> raw_recv env (rx_space (fst c));
       if status = IoWouldBlock then Some (True, c, env)
       else if status = IoPeerClosed then Some (True, apfst (\<lambda>s. s\<lparr>peer_rd_closed := True\<rparr>) c, env)
       else if status = IoError then Some (False, c, env)
       else read_loop dec enc on_data env (apfst (append_rx bs) c)
     }
   }"

definition handle_read_et ::
  "decoder \<Rightarrow> encoder \<Rightarrow> 'h on_data \<Rightarrow> recv_ret list \<Rightarrow> 'h conn \<Rightarrow> (bool \<times> 'h conn \<times> recv_ret list) outcome" where
  "handle_read_et dec enc on_data env c = do {
     (ok, c, env) \<leftarrow> read_loop dec enc on_data env c;
     if \<not> ok then Some (False, c, env)
     else do {
       (consumed, c) \<leftarrow> process_frames dec enc on_data c;
       case consumed of
         None \<Rightarrow> Some (False, c, env)
       | Some n \<Rightarrow> Some (True, apfst (\<lambda>s. compact_rx_buf s n) c, env)
     }
   }"

section \<open>The server\<close>

record 'h TcpServer =
  sv_slots :: "ConnSlot list"
  sv_scratch :: "u8 list"
  sv_handler :: 'h

text \<open>Deregistering from epoll and closing the descriptor have no effect on this state.\<close>

definition close_connection :: "('h \<Rightarrow> int \<Rightarrow> 'h) \<Rightarrow> 'h TcpServer \<Rightarrow> nat \<Rightarrow> 'h TcpServer" where
  "close_connection on_disconnect v fd =
     v\<lparr>sv_handler := on_disconnect (sv_handler v) (int fd), sv_slots := release_slot (sv_slots v) fd\<rparr>"

definition put_conn :: "nat \<Rightarrow> 'h conn \<Rightarrow> 'h TcpServer \<Rightarrow> 'h TcpServer" where
  "put_conn i = (\<lambda>(s, scratch, h) v.
     v\<lparr>sv_slots := (sv_slots v)[i := s], sv_scratch := scratch, sv_handler := h\<rparr>)"

record EpollFlags =
  ev_in :: bool
  ev_rdhup :: bool
  ev_hup_err :: bool
  ev_out :: bool

text \<open>The slot an event designates, with the stale-event defence.\<close>

definition event_slot :: "'h TcpServer \<Rightarrow> u64 \<Rightarrow> nat option" where
  "event_slot v u =
    (let slot_idx = sint (ucast u :: 32 word); gen = ucast (drop_bit 32 u) :: u32
     in if slot_idx < 0 \<or> slot_idx \<ge> int (length (sv_slots v)) then None
        else let i = nat slot_idx
             in if s_fd (sv_slots v ! i) = - 1 \<or> s_generation (sv_slots v ! i) \<noteq> gen then None else Some i)"

text \<open>
  \<^verbatim>\<open>dispatch_event\<close> for a connection event, the listener event being \<^verbatim>\<open>handle_accept\<close>. The
  steps after reading, in the order of the code; toggling EPOLLOUT does not change this state.
\<close>

definition dispatch_out ::
  "('h \<Rightarrow> int \<Rightarrow> 'h) \<Rightarrow> EpollFlags \<Rightarrow> send_ret list \<Rightarrow> 'h TcpServer \<Rightarrow> nat \<Rightarrow> ('h TcpServer \<times> send_ret list) outcome" where
  "dispatch_out on_disconnect flags senv v i =
    (if ev_out flags then do {
       (ok, s, senv) \<leftarrow> handle_write_et senv (sv_slots v ! i);
       let v = v\<lparr>sv_slots := (sv_slots v)[i := s]\<rparr>;
       if \<not> ok then Some (close_connection on_disconnect v i, senv)
       else if peer_rd_closed s \<and> tx_pending s = 0 then Some (close_connection on_disconnect v i, senv)
       else Some (v, senv)
     } else if peer_rd_closed (sv_slots v ! i) \<and> tx_pending (sv_slots v ! i) = 0
            then Some (close_connection on_disconnect v i, senv)
            else Some (v, senv))"

definition dispatch_event ::
  "decoder \<Rightarrow> encoder \<Rightarrow> 'h on_data \<Rightarrow> ('h \<Rightarrow> int \<Rightarrow> 'h) \<Rightarrow> u64 \<Rightarrow> EpollFlags \<Rightarrow>
   recv_ret list \<Rightarrow> send_ret list \<Rightarrow> 'h TcpServer \<Rightarrow> ('h TcpServer \<times> recv_ret list \<times> send_ret list) outcome" where
  "dispatch_event dec enc on_data on_disconnect u flags renv senv v =
    (case event_slot v u of
       None \<Rightarrow> Some (v, renv, senv)
     | Some i \<Rightarrow> do {
         (ok, v, renv) \<leftarrow>
           (if ev_in flags then do {
              (ok, c, renv) \<leftarrow> handle_read_et dec enc on_data renv (sv_slots v ! i, sv_scratch v, sv_handler v);
              Some (ok, put_conn i c v, renv)
            } else Some (True, v, renv));
         if \<not> ok then Some (close_connection on_disconnect v i, renv, senv)
         else do {
           let v = (if ev_rdhup flags
                    then v\<lparr>sv_slots := (sv_slots v)[i := (sv_slots v ! i)\<lparr>peer_rd_closed := True\<rparr>]\<rparr> else v);
           if ev_hup_err flags then Some (close_connection on_disconnect v i, renv, senv)
           else do {
             (v, senv) \<leftarrow> dispatch_out on_disconnect flags senv v i;
             Some (v, renv, senv)
           }
         }
       })"

definition sv_send :: "encoder \<Rightarrow> 'h TcpServer \<Rightarrow> nat \<Rightarrow> u8 list \<Rightarrow> (bool \<times> 'h TcpServer) outcome" where
  "sv_send enc v i payload = do {
     cassert (i < length (sv_slots v));
     let s = sv_slots v ! i;
     cassert (s_fd s = int i);
     (written, out) \<leftarrow> enc (drop (tx_size s) (tx_buf s)) payload;
     if written = 0 then Some (False, v)
     else Some (True, v\<lparr>sv_slots := (sv_slots v)[i :=
       s\<lparr>tx_buf := take (tx_size s) (tx_buf s) @ out, tx_size := tx_size s + written\<rparr>]\<rparr>)
   }"

definition sv_close :: "('h \<Rightarrow> int \<Rightarrow> 'h) \<Rightarrow> 'h TcpServer \<Rightarrow> nat \<Rightarrow> 'h TcpServer outcome" where
  "sv_close on_disconnect v i = do {
     cassert (i < length (sv_slots v));
     Some (if s_fd (sv_slots v ! i) = int i then close_connection on_disconnect v i else v)
   }"

section \<open>Parsing a byte stream\<close>

text \<open>
  The payloads at the front of a byte string, the bytes that remain, and whether the parse
  stopped for lack of bytes or at a protocol violation.
\<close>

inductive parses :: "decoder \<Rightarrow> u8 list \<Rightarrow> u8 list list \<Rightarrow> u8 list \<Rightarrow> FrameStatus \<Rightarrow> bool" for dec where
  more: "dec b = Some r \<Longrightarrow> fd_status r = kIncomplete \<Longrightarrow> parses dec b [] b kIncomplete"
| bad: "dec b = Some r \<Longrightarrow> fd_status r = kError \<Longrightarrow> parses dec b [] b kError"
| frame: "dec b = Some r \<Longrightarrow> fd_status r = kOk \<Longrightarrow> parses dec (drop (fd_frame_size r) b) ps rest st \<Longrightarrow>
    parses dec b (fd_payload r # ps) rest st"

lemma parses_deterministic:
  "parses dec b ps rest st \<Longrightarrow> parses dec b ps' rest' st' \<Longrightarrow> ps = ps' \<and> rest = rest' \<and> st = st'"
proof (induction arbitrary: ps' rest' st' rule: parses.induct)
  case (more b r)
  from more.prems show ?case by cases (use more.hyps in simp_all)
next
  case (bad b r)
  from bad.prems show ?case by cases (use bad.hyps in simp_all)
next
  case (frame b r ps rest st)
  from frame.prems show ?case by cases (use frame.hyps(1,2) frame.IH in auto)
qed

text \<open>
  The contract of a framer that delimits messages: every byte string is decoded, a complete
  frame is non-empty and lies within the bytes, and neither a frame nor a violation is
  revised when more bytes arrive.
\<close>

locale stream_framer =
  fixes dec :: decoder
  assumes total: "\<exists>r. dec b = Some r"
    and ok_size: "dec b = Some r \<Longrightarrow> fd_status r = kOk \<Longrightarrow> 0 < fd_frame_size r \<and> fd_frame_size r \<le> length b"
    and settled: "dec b = Some r \<Longrightarrow> fd_status r \<noteq> kIncomplete \<Longrightarrow> dec (b @ c) = Some r"
begin

lemma parses_total: "\<exists>ps rest st. parses dec b ps rest st"
proof (induction "length b" arbitrary: b rule: less_induct)
  case less
  obtain r where r: "dec b = Some r" using total by blast
  show ?case
  proof (cases "fd_status r")
    case kOk
    then have "length (drop (fd_frame_size r) b) < length b" using ok_size [OF r] by auto
    then show ?thesis using less r kOk parses.frame by meson
  next
    case kIncomplete
    then show ?thesis using r parses.more by blast
  next
    case kError
    then show ?thesis using r parses.bad by blast
  qed
qed

lemma parses_suffix: "parses dec b ps rest st \<Longrightarrow> \<exists>pre. b = pre @ rest"
proof (induction rule: parses.induct)
  case (frame b r ps rest st)
  then show ?case by (metis append.assoc append_take_drop_id)
qed auto

lemma parses_status: "parses dec b ps rest st \<Longrightarrow> st \<noteq> kOk"
  by (induction rule: parses.induct) auto

lemma parses_append:
  assumes "parses dec b ps rest st" "st = kIncomplete" "parses dec (rest @ c) qs rest' st'"
  shows "parses dec (b @ c) (ps @ qs) rest' st'"
  using assms
proof (induction rule: parses.induct)
  case (frame b r ps rest st)
  have "fd_frame_size r \<le> length b" using ok_size [OF frame.hyps(1,2)] by simp
  moreover have "dec (b @ c) = Some r" using settled [OF frame.hyps(1)] frame.hyps(2) by simp
  ultimately show ?case
    using frame.IH [OF frame.prems] frame.hyps(2) parses.frame [of dec "b @ c" r] by simp
qed auto

lemma parses_append_bad:
  assumes "parses dec b ps rest st" "st = kError"
  shows "parses dec (b @ c) ps (rest @ c) kError"
  using assms
proof (induction rule: parses.induct)
  case (frame b r ps rest st)
  have "fd_frame_size r \<le> length b" using ok_size [OF frame.hyps(1,2)] by simp
  moreover have "dec (b @ c) = Some r" using settled [OF frame.hyps(1)] frame.hyps(2) by simp
  ultimately show ?case
    using frame.IH [OF frame.prems] frame.hyps(2) parses.frame [of dec "b @ c" r] by simp
next
  case (bad b r)
  then show ?case using settled [OF bad.hyps(1)] parses.bad by simp
qed auto

end

lemma lp_decode_cases:
  "lp_decode en b = Some
    (if length b < 4 then \<lparr>fd_status = kIncomplete, fd_frame_size = 0, fd_payload = []\<rparr>
     else let n = unat (of_be_bytes (take 4 b) :: u32)
          in if n < 4 \<or> 65536 < n then \<lparr>fd_status = kError, fd_frame_size = 0, fd_payload = []\<rparr>
             else if length b < n then \<lparr>fd_status = kIncomplete, fd_frame_size = 0, fd_payload = []\<rparr>
             else \<lparr>fd_status = kOk, fd_frame_size = n, fd_payload = take (n - 4) (drop 4 b)\<rparr>)"
  using decode_frame_short [of b en 65536] decode_frame_pieces [of "take 4 b" en "drop 4 b" 65536]
  by (auto simp: lp_decode_def Let_def)

interpretation lp: stream_framer "lp_decode en"
proof unfold_locales
  fix b c r
  show "\<exists>r. lp_decode en b = Some r" by (simp add: lp_decode_cases)
  assume r: "lp_decode en b = Some r"
  show "0 < fd_frame_size r \<and> fd_frame_size r \<le> length b" if "fd_status r = kOk"
    using r that by (auto simp: lp_decode_cases Let_def split: if_splits)
  show "lp_decode en (b @ c) = Some r" if "fd_status r \<noteq> kIncomplete"
    using r that by (auto simp: lp_decode_cases Let_def split: if_splits)
qed

lemma framer_decode_cases:
  "framer_decode en b = Some
    (if length b < 16 then \<lparr>fd_status = kIncomplete, fd_frame_size = 0, fd_payload = []\<rparr>
     else if of_be_bytes (take 4 b) \<noteq> kMessageMagic then \<lparr>fd_status = kError, fd_frame_size = 0, fd_payload = []\<rparr>
     else let n = unat (of_be_bytes (take 4 (drop 8 b)) :: u32)
          in if kMaxPayloadSize < n then \<lparr>fd_status = kError, fd_frame_size = 0, fd_payload = []\<rparr>
             else if length b < 16 + n then \<lparr>fd_status = kIncomplete, fd_frame_size = 0, fd_payload = []\<rparr>
             else \<lparr>fd_status = kOk, fd_frame_size = 16 + n, fd_payload = take (16 + n) b\<rparr>)"
  by (auto simp: framer_decode_def kMessageHeaderSize_def load_be_eq peek_def Let_def)

interpretation tlv: stream_framer "framer_decode en"
proof unfold_locales
  fix b c r
  show "\<exists>r. framer_decode en b = Some r" by (simp add: framer_decode_cases)
  assume r: "framer_decode en b = Some r"
  show "0 < fd_frame_size r \<and> fd_frame_size r \<le> length b" if "fd_status r = kOk"
    using r that by (auto simp: framer_decode_cases Let_def split: if_splits)
  show "framer_decode en (b @ c) = Some r" if "fd_status r \<noteq> kIncomplete"
    using r that by (auto simp: framer_decode_cases Let_def split: if_splits)
qed

section \<open>Processing a connection's bytes\<close>

definition received :: "ConnSlot \<Rightarrow> u8 list" where
  "received s = take (rx_fill s) (rx_buf s)"

definition conn_ok :: "ConnSlot \<Rightarrow> bool" where
  "conn_ok s \<longleftrightarrow> rx_fill s \<le> length (rx_buf s) \<and> tx_sent s \<le> tx_size s \<and> tx_size s \<le> length (tx_buf s)"

text \<open>The answers to a sequence of payloads.\<close>

fun answers :: "encoder \<Rightarrow> 'h on_data \<Rightarrow> u8 list list \<Rightarrow> 'h conn \<Rightarrow> (bool \<times> 'h conn) outcome" where
  "answers enc on_data [] c = Some (True, c)"
| "answers enc on_data (p # ps) c = do {
     (ok, c) \<leftarrow> answer_frame enc on_data p c;
     if ok then answers enc on_data ps c else Some (False, c)
   }"

text \<open>The fields that reading changes.\<close>

definition rx_upd :: "u8 list \<Rightarrow> nat \<Rightarrow> bool \<Rightarrow> ConnSlot \<Rightarrow> ConnSlot" where
  "rx_upd b n f s = s\<lparr>rx_buf := b, rx_fill := n, peer_rd_closed := f\<rparr>"

lemma rx_upd_self: "rx_upd (rx_buf s) (rx_fill s) (peer_rd_closed s) s = s"
  by (simp add: rx_upd_def)

lemma rx_upd_rx_upd [simp]: "rx_upd b n f (rx_upd b' n' f' s) = rx_upd b n f s"
  by (simp add: rx_upd_def)

lemma answer_frame_rx:
  "answer_frame enc on_data p (rx_upd b n f s, sc, h) =
     map_option (apsnd (apfst (rx_upd b n f))) (answer_frame enc on_data p (s, sc, h))"
proof (cases "on_data h (s_fd s) p sc")
  case (fields resp_len sc' h')
  show ?thesis
    by (cases "enc (drop (tx_size s) (tx_buf s)) (take resp_len sc')")
       (auto simp: answer_frame_def rx_upd_def fields split: prod.splits)
qed

lemma answers_append:
  "answers enc on_data (ps @ qs) c = do {
     (ok, c) \<leftarrow> answers enc on_data ps c;
     if ok then answers enc on_data qs c else Some (False, c)
   }"
proof (induction ps arbitrary: c)
  case (Cons p ps)
  then show ?case by (cases "answer_frame enc on_data p c") auto
qed simp

lemma answers_rx:
  "answers enc on_data ps (rx_upd b n f s, sc, h) =
     map_option (apsnd (apfst (rx_upd b n f))) (answers enc on_data ps (s, sc, h))"
proof (induction ps arbitrary: s sc h)
  case (Cons p ps)
  then show ?case
    by (cases "answer_frame enc on_data p (s, sc, h)") (auto simp: answer_frame_rx)
qed simp

locale conn_io = stream_framer +
  fixes enc :: encoder and on_data :: "'h on_data"
  assumes enc_fits: "\<exists>n out'. enc out p = Some (n, out') \<and> n \<le> length out \<and> length out' = length out"
begin

lemma answer_frame_ok:
  assumes "conn_ok s"
  shows "\<exists>ok s' sc' h'. answer_frame enc on_data p (s, sc, h) = Some (ok, s', sc', h') \<and> conn_ok s' \<and>
    rx_buf s' = rx_buf s \<and> rx_fill s' = rx_fill s \<and> peer_rd_closed s' = peer_rd_closed s"
proof (cases "on_data h (s_fd s) p sc")
  case (fields resp_len sc' h')
  obtain n out' where "enc (drop (tx_size s) (tx_buf s)) (take resp_len sc') = Some (n, out')"
    "n \<le> length (drop (tx_size s) (tx_buf s))" "length out' = length (drop (tx_size s) (tx_buf s))"
    using enc_fits by blast
  then show ?thesis using assms by (auto simp: answer_frame_def fields conn_ok_def)
qed

lemma answers_ok:
  assumes "conn_ok s"
  shows "\<exists>ok s' sc' h'. answers enc on_data ps (s, sc, h) = Some (ok, s', sc', h') \<and> conn_ok s' \<and>
    rx_buf s' = rx_buf s \<and> rx_fill s' = rx_fill s \<and> peer_rd_closed s' = peer_rd_closed s"
  using assms
proof (induction ps arbitrary: s sc h)
  case (Cons p ps)
  obtain ok s1 sc1 h1 where 1: "answer_frame enc on_data p (s, sc, h) = Some (ok, s1, sc1, h1)" "conn_ok s1"
    "rx_buf s1 = rx_buf s" "rx_fill s1 = rx_fill s" "peer_rd_closed s1 = peer_rd_closed s"
    using answer_frame_ok [OF Cons.prems] by blast
  then show ?case using Cons.IH [OF 1(2), of sc1 h1] by (cases ok) auto
qed auto

lemma process_loop_spec:
  assumes "parses dec b ps rest st" "b = drop consumed (received s)" "consumed \<le> rx_fill s" "conn_ok s"
  shows "\<exists>ok c'. answers enc on_data ps (s, sc, h) = Some (ok, c') \<and>
    process_loop dec enc on_data consumed (s, sc, h) =
      Some (if ok \<and> st = kIncomplete then Some (rx_fill s - length rest) else None, c')"
  using assms
proof (induction arbitrary: consumed s sc h rule: parses.induct)
  case (more b r)
  then show ?case by (subst process_loop.simps) (auto simp: received_def conn_ok_def)
next
  case (bad b r)
  then show ?case by (subst process_loop.simps) (auto simp: received_def conn_ok_def)
next
  case (frame b r ps rest st)
  obtain ok s1 sc1 h1 where 1: "answer_frame enc on_data (fd_payload r) (s, sc, h) = Some (ok, s1, sc1, h1)"
    "conn_ok s1" "rx_buf s1 = rx_buf s" "rx_fill s1 = rx_fill s"
    using answer_frame_ok [OF frame.prems(3)] by blast
  have sz: "fd_frame_size r \<le> rx_fill s - consumed"
    using ok_size [OF frame.hyps(1,2)] frame.prems(1,3) by (simp add: received_def conn_ok_def)
  have "drop (fd_frame_size r) b = drop (consumed + fd_frame_size r) (received s1)"
    using frame.prems(1) 1 by (simp add: received_def add.commute)
  from frame.IH [OF this _ 1(2), of sc1 h1] sz frame.prems(2) 1(4)
  have IH: "\<exists>ok c'. answers enc on_data ps (s1, sc1, h1) = Some (ok, c') \<and>
    process_loop dec enc on_data (consumed + fd_frame_size r) (s1, sc1, h1) =
      Some (if ok \<and> st = kIncomplete then Some (rx_fill s1 - length rest) else None, c')"
    by simp
  show ?case
    using IH 1 frame.hyps(1,2) frame.prems(1)
    by (subst process_loop.simps) (auto simp: received_def)
qed

lemma process_frames_spec:
  assumes "conn_ok s"
  obtains ps rest st ok c' where "parses dec (received s) ps rest st"
    "answers enc on_data ps (s, sc, h) = Some (ok, c')"
    "process_frames dec enc on_data (s, sc, h) =
      Some (if ok \<and> st = kIncomplete then Some (rx_fill s - length rest) else None, c')"
proof -
  obtain ps rest st where p: "parses dec (received s) ps rest st" using parses_total by blast
  from process_loop_spec [OF p, of 0 s sc h] assms show thesis
    by (auto intro!: that [OF p] simp: process_frames_def)
qed

lemma compact_rx:
  assumes "conn_ok s" "received s = pre @ rest"
  shows "compact_rx_buf s (rx_fill s - length rest) =
      rx_upd (rx_buf (compact_rx_buf s (rx_fill s - length rest))) (length rest) (peer_rd_closed s) s"
    "received (compact_rx_buf s (rx_fill s - length rest)) = rest"
    "conn_ok (compact_rx_buf s (rx_fill s - length rest))"
proof -
  have n: "rx_fill s = length pre + length rest"
    using assms by (metis conn_ok_def length_append length_take min.absorb2 received_def)
  have d: "take (length rest) (drop (length pre) (rx_buf s)) = rest"
    using assms(2) n by (metis append_eq_conv_conj drop_take add_diff_cancel_left' received_def)
  have l: "length pre + length rest \<le> length (rx_buf s)" using assms(1) n by (simp add: conn_ok_def)
  show "compact_rx_buf s (rx_fill s - length rest) =
      rx_upd (rx_buf (compact_rx_buf s (rx_fill s - length rest))) (length rest) (peer_rd_closed s) s"
    using n by (auto simp: compact_rx_buf_def rx_upd_def Let_def)
  show "received (compact_rx_buf s (rx_fill s - length rest)) = rest"
    using n d l assms(2) by (auto simp: compact_rx_buf_def received_def Let_def)
  show "conn_ok (compact_rx_buf s (rx_fill s - length rest))"
    using n l assms(1) by (auto simp: compact_rx_buf_def conn_ok_def Let_def)
qed

end

text \<open>The bytes a run of \<^verbatim>\<open>recv\<close> calls delivers, and whether it comes to a stop.\<close>

fun stream :: "recv_ret list \<Rightarrow> u8 list" where
  "stream [] = []"
| "stream (Received bs # env) = (if bs = [] then [] else bs @ stream env)"
| "stream (RecvFailed e # env) = (if e = EINTR then stream env else [])"

fun settles :: "recv_ret list \<Rightarrow> bool" where
  "settles [] = False"
| "settles (Received bs # env) = (bs = [] \<or> settles env)"
| "settles (RecvFailed e # env) = (e \<noteq> EINTR \<or> settles env)"

fun pending :: "recv_ret list \<Rightarrow> nat" where
  "pending [] = 0"
| "pending (Received bs # env) = Suc (length bs + pending env)"
| "pending (RecvFailed e # env) = Suc (pending env)"

lemma raw_recv_spec:
  assumes "settles env" "0 < len"
  shows "\<exists>st bs env'. raw_recv env len = Some (st, bs, env') \<and>
    (st = IoOk \<longrightarrow> bs \<noteq> [] \<and> length bs \<le> len \<and> settles env' \<and> stream env = bs @ stream env' \<and> pending env' < pending env) \<and>
    (st \<noteq> IoOk \<longrightarrow> bs = [] \<and> stream env = [])"
  using assms
proof (induction env)
  case (Cons e env)
  then show ?case by (cases e) (auto split: if_splits)
qed simp

context conn_io
begin

lemma parses_rest: "parses dec b ps rest st \<Longrightarrow> parses dec rest [] rest st"
  by (induction rule: parses.induct) (auto intro: parses.intros)

text \<open>
  The state \<open>c\<close> that reading reaches from \<open>c0\<close> after \<open>d\<close> was delivered: some payloads of
  the stream have been answered, and what is still held parses to the others.
\<close>

definition read_inv :: "'h conn \<Rightarrow> u8 list \<Rightarrow> 'h conn \<Rightarrow> bool" where
  "read_inv c0 d c \<longleftrightarrow> conn_ok (fst c) \<and> (\<exists>ps ca b n f.
     (\<forall>qs rest st. parses dec (received (fst c)) qs rest st \<longrightarrow>
        parses dec (received (fst c0) @ d) (ps @ qs) rest st) \<and>
     answers enc on_data ps c0 = Some (True, ca) \<and> c = apfst (rx_upd b n f) ca)"

lemma read_invI:
  assumes "conn_ok (fst c)" "answers enc on_data ps c0 = Some (True, ca)" "c = apfst (rx_upd b n f) ca"
    "\<forall>qs rest st. parses dec (received (fst c)) qs rest st \<longrightarrow>
        parses dec (received (fst c0) @ d) (ps @ qs) rest st"
  shows "read_inv c0 d c"
  unfolding read_inv_def using assms by blast

lemma read_inv_start: "conn_ok (fst c) \<Longrightarrow> read_inv c [] c"
  unfolding read_inv_def
  by (intro conjI exI [of _ "[]"] exI [of _ c] exI [of _ "rx_buf (fst c)"] exI [of _ "rx_fill (fst c)"]
      exI [of _ "peer_rd_closed (fst c)"]) (auto simp: rx_upd_self apfst_def map_prod_def split: prod.splits)

lemma parses_extend:
  assumes "\<forall>qs rest st. parses dec b qs rest st \<longrightarrow> parses dec b' (ps @ qs) rest st"
    "parses dec (b @ bs) qs rest st"
  shows "parses dec (b' @ bs) (ps @ qs) rest st"
proof -
  obtain qs0 rest0 st0 where p0: "parses dec b qs0 rest0 st0" using parses_total by blast
  then have p1: "parses dec b' (ps @ qs0) rest0 st0" using assms(1) by blast
  show ?thesis
  proof (cases st0)
    case kIncomplete
    obtain q1 rest1 st1 where q: "parses dec (rest0 @ bs) q1 rest1 st1" using parses_total by blast
    have "qs = qs0 @ q1 \<and> rest = rest1 \<and> st = st1"
      using parses_deterministic [OF assms(2) parses_append [OF p0 kIncomplete q]] .
    then show ?thesis using parses_append [OF p1 kIncomplete q] by simp
  next
    case kError
    have "qs = qs0 \<and> rest = rest0 @ bs \<and> st = kError"
      using parses_deterministic [OF assms(2) parses_append_bad [OF p0 kError]] .
    then show ?thesis using parses_append_bad [OF p1 kError] by simp
  qed (use parses_status [OF p0] in simp)
qed

lemma apfst_rx_upd: "apfst (rx_upd b n f) (apfst (rx_upd b' n' f') c) = apfst (rx_upd b n f) c"
  by (cases c) simp

lemma read_inv_append:
  assumes "read_inv c0 d c" "length bs \<le> rx_space (fst c)"
  shows "read_inv c0 (d @ bs) (apfst (append_rx bs) c)"
proof -
  obtain ps ca b n f where I: "conn_ok (fst c)"
    "\<forall>qs rest st. parses dec (received (fst c)) qs rest st \<longrightarrow> parses dec (received (fst c0) @ d) (ps @ qs) rest st"
    "answers enc on_data ps c0 = Some (True, ca)" "c = apfst (rx_upd b n f) ca"
    using assms(1) unfolding read_inv_def by blast
  have ok: "conn_ok (append_rx bs (fst c))" and r: "received (append_rx bs (fst c)) = received (fst c) @ bs"
    using I(1) assms(2) by (auto simp: conn_ok_def append_rx_def received_def rx_space_def)
  have eq: "apfst (append_rx bs) c = apfst (rx_upd (rx_buf (append_rx bs (fst c)))
      (rx_fill (append_rx bs (fst c))) (peer_rd_closed (fst c))) ca"
    by (cases ca) (simp add: I(4) append_rx_def rx_upd_def)
  show ?thesis
  proof (rule read_invI [OF _ I(3) eq])
    show "conn_ok (fst (apfst (append_rx bs) c))" using ok by (cases c) simp
    show "\<forall>qs rest st. parses dec (received (fst (apfst (append_rx bs) c))) qs rest st \<longrightarrow>
        parses dec (received (fst c0) @ d @ bs) (ps @ qs) rest st"
      using parses_extend [OF I(2)] r by (cases c) simp
  qed
qed

lemma read_inv_process:
  assumes "read_inv c0 d c" "process_frames dec enc on_data c = Some (Some n, c1)"
  shows "read_inv c0 d (apfst (\<lambda>s. compact_rx_buf s n) c1) \<and>
    (\<exists>ps ca b n' f. parses dec (received (fst c0) @ d) ps (received (compact_rx_buf (fst c1) n)) kIncomplete \<and>
      answers enc on_data ps c0 = Some (True, ca) \<and> apfst (\<lambda>s. compact_rx_buf s n) c1 = apfst (rx_upd b n' f) ca)"
proof -
  obtain ps ca b m f where I: "conn_ok (fst c)"
    "\<forall>qs rest st. parses dec (received (fst c)) qs rest st \<longrightarrow> parses dec (received (fst c0) @ d) (ps @ qs) rest st"
    "answers enc on_data ps c0 = Some (True, ca)" "c = apfst (rx_upd b m f) ca"
    using assms(1) unfolding read_inv_def by blast
  obtain s sc h where c: "c = (s, sc, h)" by (cases c)
  have oks: "conn_ok s" using I(1) c by simp
  obtain qs rest where q: "parses dec (received s) qs rest kIncomplete"
    "answers enc on_data qs c = Some (True, c1)" "n = rx_fill s - length rest"
    by (rule process_frames_spec [OF oks, of sc h]) (use assms(2) c in \<open>auto split: if_splits\<close>)
  obtain s1 sc1 h1 where c1: "c1 = (s1, sc1, h1)" by (cases c1)
  have s1: "conn_ok s1" "rx_buf s1 = rx_buf s" "rx_fill s1 = rx_fill s"
    using answers_ok [OF oks, of qs sc h] q(2) c c1 by auto
  obtain pre where pre: "received s = pre @ rest" using parses_suffix [OF q(1)] by blast
  have rs: "received s1 = pre @ rest" using s1 pre by (simp add: received_def)
  note C = compact_rx [OF s1(1) rs, unfolded s1(3) q(3) [symmetric]]
  let ?cb = "compact_rx_buf s1 n"
  have all: "answers enc on_data (ps @ qs) c0 = answers enc on_data qs ca"
    using I(3) by (simp add: answers_append)
  obtain sa sca ha where ca: "ca = (sa, sca, ha)" by (cases ca)
  have "answers enc on_data qs (rx_upd b m f sa, sca, ha) = Some (True, c1)" using q(2) I(4) ca by simp
  then obtain cb where cb: "answers enc on_data qs ca = Some (True, cb)" "c1 = apfst (rx_upd b m f) cb"
    unfolding answers_rx ca by auto
  have eq: "apfst (\<lambda>s. compact_rx_buf s n) c1 =
      apfst (rx_upd (rx_buf ?cb) (length rest) (peer_rd_closed s1)) cb"
    using C(1) cb(2) c1 by (cases cb) auto
  have parse: "parses dec (received (fst c0) @ d) (ps @ qs) rest kIncomplete"
    using I(2) q(1) c by simp
  have "\<forall>q' r' st'. parses dec (received ?cb) q' r' st' \<longrightarrow>
      parses dec (received (fst c0) @ d) ((ps @ qs) @ q') r' st'"
  proof (intro allI impI)
    fix q' r' st' assume "parses dec (received ?cb) q' r' st'"
    then have "[] = q' \<and> rest = r' \<and> kIncomplete = st'"
      using parses_deterministic [OF parses_rest [OF q(1)]] C(2) by simp
    then show "parses dec (received (fst c0) @ d) ((ps @ qs) @ q') r' st'" using parse by auto
  qed
  then have "read_inv c0 d (apfst (\<lambda>s. compact_rx_buf s n) c1)"
    using C(3) all cb(1) c1 by (intro read_invI [OF _ _ eq, where ps = "ps @ qs"]) simp_all
  moreover have "parses dec (received (fst c0) @ d) (ps @ qs) (received (compact_rx_buf (fst c1) n)) kIncomplete"
    using parse c1 C(2) by simp
  moreover have "answers enc on_data (ps @ qs) c0 = Some (True, cb)" using all cb(1) by simp
  ultimately show ?thesis using eq by blast
qed

lemma read_inv_flag:
  assumes "read_inv c0 d c"
  shows "read_inv c0 d (apfst (\<lambda>s. s\<lparr>peer_rd_closed := True\<rparr>) c)"
proof -
  obtain ps ca b m f where I: "conn_ok (fst c)"
    "\<forall>qs rest st. parses dec (received (fst c)) qs rest st \<longrightarrow> parses dec (received (fst c0) @ d) (ps @ qs) rest st"
    "answers enc on_data ps c0 = Some (True, ca)" "c = apfst (rx_upd b m f) ca"
    using assms unfolding read_inv_def by blast
  have eq: "apfst (\<lambda>s. s\<lparr>peer_rd_closed := True\<rparr>) c = apfst (rx_upd b m True) ca"
    by (cases ca) (simp add: I(4) rx_upd_def)
  show ?thesis
    by (rule read_invI [OF _ I(3) eq]) (use I(1,2) in \<open>cases c; simp add: conn_ok_def received_def\<close>)+
qed

lemma make_space_spec:
  assumes "read_inv c0 d c"
  shows "\<exists>ok c'. make_space dec enc on_data c = Some (ok, c') \<and>
    (ok \<longrightarrow> read_inv c0 d c' \<and> 0 < rx_space (fst c'))"
proof (cases "rx_space (fst c) = 0")
  case True
  have "conn_ok (fst c)" using assms by (simp add: read_inv_def)
  then obtain r c1 where p: "process_frames dec enc on_data c = Some (r, c1)"
    by (cases c) (metis fst_conv process_frames_spec)
  show ?thesis
  proof (cases r)
    case None
    then show ?thesis using True p by (auto simp: make_space_def)
  next
    case (Some n)
    then show ?thesis using True p read_inv_process [OF assms, of n c1] by (auto simp: make_space_def Let_def)
  qed
qed (use assms in \<open>auto simp: make_space_def\<close>)

lemma read_loop_spec:
  assumes "settles env" "read_inv c0 d c"
  shows "\<exists>ok c' env'. read_loop dec enc on_data env c = Some (ok, c', env') \<and>
    (ok \<longrightarrow> read_inv c0 (d @ stream env) c')"
  using assms
proof (induction "pending env" arbitrary: env d c rule: less_induct)
  case less
  obtain ok1 c1 where ms: "make_space dec enc on_data c = Some (ok1, c1)"
    "ok1 \<longrightarrow> read_inv c0 d c1 \<and> 0 < rx_space (fst c1)"
    using make_space_spec [OF less.prems(2)] by blast
  show ?case
  proof (cases ok1)
    case True
    then have c1: "read_inv c0 d c1" "0 < rx_space (fst c1)" using ms(2) by simp_all
    obtain st bs env1 where rr: "raw_recv env (rx_space (fst c1)) = Some (st, bs, env1)"
      "st = IoOk \<longrightarrow> bs \<noteq> [] \<and> length bs \<le> rx_space (fst c1) \<and> settles env1 \<and>
         stream env = bs @ stream env1 \<and> pending env1 < pending env"
      "st \<noteq> IoOk \<longrightarrow> bs = [] \<and> stream env = []"
      using raw_recv_spec [OF less.prems(1) c1(2)] by blast
    show ?thesis
    proof (cases st)
      case IoOk
      then have "read_inv c0 (d @ bs) (apfst (append_rx bs) c1)"
        using read_inv_append [OF c1(1)] rr(2) by simp
      from less.hyps [OF _ _ this, of env1] IoOk rr(2) show ?thesis
        using ms(1) True rr(1) by (subst read_loop.simps) auto
    next
      case IoWouldBlock
      then show ?thesis using ms(1) True rr c1(1) by (subst read_loop.simps) auto
    next
      case IoPeerClosed
      then show ?thesis using ms(1) True rr read_inv_flag [OF c1(1)] by (subst read_loop.simps) auto
    next
      case IoError
      then show ?thesis using ms(1) True rr by (subst read_loop.simps) auto
    qed
  qed (use ms(1) in \<open>subst read_loop.simps, auto\<close>)
qed

lemma handle_read_spec:
  assumes "settles env" "conn_ok (fst c)"
  shows "\<exists>ok c' env'. handle_read_et dec enc on_data env c = Some (ok, c', env') \<and>
    (ok \<longrightarrow> conn_ok (fst c') \<and> (\<exists>ps ca b n f.
       parses dec (received (fst c) @ stream env) ps (received (fst c')) kIncomplete \<and>
       answers enc on_data ps c = Some (True, ca) \<and> c' = apfst (rx_upd b n f) ca))"
proof -
  obtain ok1 c1 env1 where rl: "read_loop dec enc on_data env c = Some (ok1, c1, env1)"
    "ok1 \<longrightarrow> read_inv c (stream env) c1"
    using read_loop_spec [OF assms(1) read_inv_start [OF assms(2)]] by auto
  show ?thesis
  proof (cases ok1)
    case True
    then have I: "read_inv c (stream env) c1" using rl(2) by simp
    then have "conn_ok (fst c1)" by (simp add: read_inv_def)
    then obtain r c2 where p: "process_frames dec enc on_data c1 = Some (r, c2)"
      by (cases c1) (metis fst_conv process_frames_spec)
    show ?thesis
    proof (cases r)
      case None
      then show ?thesis using rl(1) True p by (auto simp: handle_read_et_def)
    next
      case (Some n)
      note P = read_inv_process [OF I p [unfolded Some]]
      have h: "handle_read_et dec enc on_data env c = Some (True, apfst (\<lambda>s. compact_rx_buf s n) c2, env1)"
        using rl(1) True p Some by (simp add: handle_read_et_def)
      have "fst (apfst (\<lambda>s. compact_rx_buf s n) c2) = compact_rx_buf (fst c2) n" by (cases c2) simp
      moreover have "conn_ok (fst (apfst (\<lambda>s. compact_rx_buf s n) c2))" using P by (simp add: read_inv_def)
      ultimately show ?thesis using h P by metis
    qed
  qed (use rl(1) in \<open>auto simp: handle_read_et_def\<close>)
qed

end

lemma framer_encode_fits:
  "\<exists>n out'. framer_encode out p = Some (n, out') \<and> n \<le> length out \<and> length out' = length out"
  by (auto simp: framer_encode_def poke_def)

lemma lp_encode_fits:
  "\<exists>n out'. lp_encode en out p = Some (n, out') \<and> n \<le> length out \<and> length out' = length out"
  by (auto simp: lp_encode_def encode_frame_eq)

interpretation gateway_io: conn_io "framer_decode en" framer_encode on_data
  for en and on_data :: "'h on_data"
  by unfold_locales (rule framer_encode_fits)

interpretation lp_io: conn_io "lp_decode en" "lp_encode en" on_data
  for en and on_data :: "'h on_data"
  by unfold_locales (rule lp_encode_fits)

section \<open>Event words\<close>

lemma event_word_parts:
  "ucast (encode_u64 s) = (word_of_int (s_fd s) :: u32)"
  "ucast (drop_bit 32 (encode_u64 s)) = s_generation s"
  by (rule bit_word_eqI; auto simp: encode_u64_def bit_simps dest: bit_imp_le_length)+

lemma event_slot_encode:
  assumes "i < length slots" "length slots \<le> 2 ^ 31" "s_fd (slots ! i) = int i"
  shows "event_slot v (encode_u64 (slots ! i)) =
    (if i < length (sv_slots v) \<and> s_fd (sv_slots v ! i) \<noteq> - 1 \<and> s_generation (sv_slots v ! i) = s_generation (slots ! i)
     then Some i else None)"
proof -
  have "sint (word_of_int (int i) :: u32) = int i"
    using assms(1,2) by (simp add: signed_of_int signed_take_bit_int_eq_self del: of_int_of_nat_eq)
  then show ?thesis using assms(3) by (simp add: event_slot_def event_word_parts Let_def)
qed

section \<open>Properties\<close>

definition echo :: "nat on_data" where
  "echo h fd payload scratch = (length payload, payload @ drop (length payload) scratch, Suc h)"

definition idle_slot :: ConnSlot where
  "idle_slot = \<lparr>s_fd = 0, s_generation = 0, rx_fill = 0, tx_size = 0, tx_sent = 0, peer_rd_closed = False,
     rx_buf = replicate 64 0, tx_buf = replicate 64 0\<rparr>"

lemma idle_slot_ok: "conn_ok idle_slot" "received idle_slot = []"
  by (simp_all add: idle_slot_def conn_ok_def received_def)

text \<open>
  C21. Reading from a connection of the exchange gateway always comes to a result once the
  socket reports that it is drained, closed or failed. When the connection stays open, the
  handler has been given exactly the complete messages at the front of the bytes held before
  followed by the bytes received, in order, its answers are queued for sending, and the
  incomplete rest is held for the next call.
\<close>

theorem gateway_read_complete:
  assumes "settles env" "conn_ok (fst c)"
  shows "\<exists>ok c' env'. handle_read_et (framer_decode en) framer_encode on_data env c = Some (ok, c', env') \<and>
    (ok \<longrightarrow> conn_ok (fst c') \<and> (\<exists>ps ca b n f.
       parses (framer_decode en) (received (fst c) @ stream env) ps (received (fst c')) kIncomplete \<and>
       answers framer_encode on_data ps c = Some (True, ca) \<and> c' = apfst (rx_upd b n f) ca))"
  by (rule gateway_io.handle_read_spec [OF assms])

theorem gateway_read_complete_witness:
  "\<exists>ok c' env'. handle_read_et (framer_decode little) framer_encode echo
      [Received [1, 2], RecvFailed EINTR, Received [3], RecvFailed EAGAIN] (idle_slot, replicate 64 0, 0) = Some (ok, c', env')"
  using gateway_read_complete [of "[Received [1, 2], RecvFailed EINTR, Received [3], RecvFailed EAGAIN]"
      "(idle_slot, replicate 64 0, 0)" little echo]
  by (auto simp: idle_slot_ok)

text \<open>
  How TCP splits the byte stream does not matter: two runs of system calls that deliver
  the same bytes in different pieces, and keep the connection open, leave the same handler
  state, the same queued responses and the same bytes waiting.
\<close>

theorem gateway_chunking_irrelevant:
  assumes "settles env1" "settles env2" "stream env1 = stream env2" "conn_ok (fst c)"
    "handle_read_et (framer_decode en) framer_encode on_data env1 c = Some (True, (s1, sc1, h1), r1)"
    "handle_read_et (framer_decode en) framer_encode on_data env2 c = Some (True, (s2, sc2, h2), r2)"
  shows "sc1 = sc2 \<and> h1 = h2 \<and> tx_buf s1 = tx_buf s2 \<and> tx_size s1 = tx_size s2 \<and> received s1 = received s2"
proof -
  obtain ps1 ca1 b1 n1 f1 where 1:
    "parses (framer_decode en) (received (fst c) @ stream env1) ps1 (received s1) kIncomplete"
    "answers framer_encode on_data ps1 c = Some (True, ca1)" "(s1, sc1, h1) = apfst (rx_upd b1 n1 f1) ca1"
    using gateway_io.handle_read_spec [OF assms(1,4), of en on_data] assms(5) by auto
  obtain ps2 ca2 b2 n2 f2 where 2:
    "parses (framer_decode en) (received (fst c) @ stream env2) ps2 (received s2) kIncomplete"
    "answers framer_encode on_data ps2 c = Some (True, ca2)" "(s2, sc2, h2) = apfst (rx_upd b2 n2 f2) ca2"
    using gateway_io.handle_read_spec [OF assms(2,4), of en on_data] assms(6) by auto
  have "ps1 = ps2" "received s1 = received s2"
    using parses_deterministic [OF 1(1) 2(1) [folded assms(3)]] by simp_all
  then have "ca1 = ca2" using 1(2) 2(2) by simp
  then show ?thesis using 1(3) 2(3) \<open>received s1 = received s2\<close> by (cases ca2) (auto simp: rx_upd_def)
qed

lemma idle_slot_reads:
  "handle_read_et (framer_decode little) framer_encode echo [Received [1, 2], RecvFailed EAGAIN] (idle_slot, [], 0) =
     Some (True, (append_rx [1, 2] idle_slot, [], 0), [])"
  "handle_read_et (framer_decode little) framer_encode echo [Received [1], Received [2], RecvFailed EAGAIN] (idle_slot, [], 0) =
     Some (True, (append_rx [2] (append_rx [1] idle_slot), [], 0), [])"
  by (simp_all add: handle_read_et_def read_loop.simps make_space_def rx_space_def idle_slot_def append_rx_def
      process_frames_def process_loop.simps framer_decode_cases compact_rx_buf_def)

theorem gateway_chunking_irrelevant_witness:
  "received (append_rx [1, 2] idle_slot) = received (append_rx [2] (append_rx [1] idle_slot))"
  using gateway_chunking_irrelevant [OF _ _ _ _ idle_slot_reads] idle_slot_ok by simp

text \<open>
  C22. Stale events are harmless: an event word made for a connection is recognised while
  that connection lives, and once its slot has been released, or reused for a new connection
  on the same descriptor, dispatching the event changes nothing.
\<close>

theorem stale_events_ignored:
  assumes "i < length (sv_slots v)" "length (sv_slots v) \<le> 2 ^ 31" "s_fd (sv_slots v ! i) = int i"
  shows "event_slot v (encode_u64 (sv_slots v ! i)) = Some i \<and>
    (let v1 = close_connection on_disconnect v i;
         v2 = v1\<lparr>sv_slots := alloc_slot (sv_slots v1) i\<rparr>
     in dispatch_event dec enc on_data on_disconnect (encode_u64 (sv_slots v ! i)) flags renv senv v1 =
          Some (v1, renv, senv) \<and>
        dispatch_event dec enc on_data on_disconnect (encode_u64 (sv_slots v ! i)) flags renv senv v2 =
          Some (v2, renv, senv))"
proof -
  have "(g :: u32) + 1 \<noteq> g" for g by simp
  then show ?thesis using assms
    by (simp add: event_slot_encode [OF assms] dispatch_event_def close_connection_def release_slot_def
        alloc_slot_def Let_def)
qed

theorem stale_events_ignored_witness:
  "event_slot \<lparr>sv_slots = [idle_slot], sv_scratch = [], sv_handler = 0 :: nat\<rparr> (encode_u64 idle_slot) = Some 0"
  using stale_events_ignored [of 0 "\<lparr>sv_slots = [idle_slot], sv_scratch = [], sv_handler = 0 :: nat\<rparr>"]
  by (simp add: idle_slot_def)

end
