(* ===== verification/TimingWheel.thy ===== *)
theory TimingWheel
  imports IndexFreeStack BitUtils
begin

text \<open>
  The single-level timing wheel of \<^verbatim>\<open>libs/ds/timing_wheel.hpp\<close>: an array of buckets, each a
  doubly linked chain through a pool of timer nodes, with generation-counted handles. The
  null index of a link is \<open>None\<close>. A callback is a value of type \<open>'c\<close>; what calling it does
  to the wheel and to the rest of the program is a parameter of \<open>tw_tick\<close>.
\<close>

section \<open>Data\<close>

record ('c, 'x) TimerNode =
  tn_next :: "nat option"
  tn_cb :: "'c option"
  tn_ctx :: "'x option"
  tn_gen :: u32
  tn_prev :: "nat option"
  tn_slot :: nat

record ('c, 'x) TimingWheel =
  tw_heads :: "nat option list"
  tw_nodes :: "('c, 'x) TimerNode list"
  tw_free :: IndexFreeStack
  tw_wheel_size :: nat
  tw_mask :: nat
  tw_max_timers :: nat
  tw_current_tick :: u64
  tw_active :: u32
  tw_in_walk :: bool

definition kInvalidHandle :: u64 where "kInvalidHandle = 0"

definition is_valid_wheel_size :: "nat \<Rightarrow> bool" where
  "is_valid_wheel_size ws \<longleftrightarrow> ws \<ge> 2 \<and> ws \<le> 2 ^ 32 - 1 \<and> is_power_of_two (of_nat ws)"

definition is_valid_max_timers :: "nat \<Rightarrow> bool" where
  "is_valid_max_timers mt \<longleftrightarrow> mt \<ge> 1 \<and> mt \<le> 2 ^ 32 - 1 \<and> is_power_of_two (of_nat mt)"

text \<open>\<^verbatim>\<open>sizeof(TimerNode)\<close> and \<^verbatim>\<open>alignof(TimerNode)\<close> on x86-64.\<close>

definition sizeof_TimerNode :: nat where "sizeof_TimerNode = 40"
definition alignof_TimerNode :: nat where "alignof_TimerNode = 8"

definition nodes_offset :: "nat \<Rightarrow> nat" where
  "nodes_offset ws = unat (align_up (of_nat (ws * 4)) (of_nat alignof_TimerNode))"

definition free_list_offset :: "nat \<Rightarrow> nat \<Rightarrow> nat" where
  "free_list_offset ws mt = nodes_offset ws + mt * sizeof_TimerNode"

definition tw_required_buffer_size :: "nat \<Rightarrow> nat \<Rightarrow> nat" where
  "tw_required_buffer_size ws mt = free_list_offset ws mt + ifs_required_buffer_size mt"

text \<open>The address and size of the free-list region, \<open>None\<close> when the buffer is refused.\<close>

definition tw_partition_buffer :: "nat \<Rightarrow> nat \<Rightarrow> nat \<Rightarrow> nat \<Rightarrow> (nat \<times> nat) option" where
  "tw_partition_buffer buf buf_bytes ws mt =
    (if buf = 0 then None
     else if buf mod alignof_TimerNode \<noteq> 0 then None
     else if buf_bytes < tw_required_buffer_size ws mt then None
     else Some (buf + free_list_offset ws mt, ifs_required_buffer_size mt))"

definition fresh_node :: "('c, 'x) TimerNode" where
  "fresh_node = \<lparr>tn_next = None, tn_cb = None, tn_ctx = None, tn_gen = 1, tn_prev = None, tn_slot = 0\<rparr>"

definition tw_round_up_capacity :: "nat \<Rightarrow> nat outcome" where
  "tw_round_up_capacity n =
    (if n = 0 then Some 0 else if n \<le> 2 then Some 2 else if n > 2 ^ 32 - 1 then Some 0
     else map_option unat (round_up_pow2 (of_nat n)))"

definition init_nodes :: "('c, 'x) TimingWheel \<Rightarrow> ('c, 'x) TimingWheel" where
  "init_nodes w = w\<lparr>tw_heads := replicate (tw_wheel_size w) None,
     tw_nodes := replicate (tw_max_timers w) fresh_node\<rparr>"

definition tw_default :: "('c, 'x) TimingWheel" where
  "tw_default = \<lparr>tw_heads = [], tw_nodes = [], tw_free = ifs_default, tw_wheel_size = 0, tw_mask = 0,
     tw_max_timers = 0, tw_current_tick = 0, tw_active = 0, tw_in_walk = False\<rparr>"

definition tw_create :: "nat \<Rightarrow> nat \<Rightarrow> nat \<Rightarrow> nat \<Rightarrow> ('c, 'x) TimingWheel option" where
  "tw_create external_buf buf_size_bytes ws mt =
    (if \<not> is_valid_wheel_size ws \<or> \<not> is_valid_max_timers mt then None
     else case tw_partition_buffer external_buf buf_size_bytes ws mt of
       None \<Rightarrow> None
     | Some (free_buf, free_buf_bytes) \<Rightarrow>
        (case ifs_create free_buf free_buf_bytes mt of
           None \<Rightarrow> None
         | Some free_list \<Rightarrow>
             Some (init_nodes (tw_default\<lparr>tw_free := free_list, tw_wheel_size := ws, tw_mask := ws - 1,
                                          tw_max_timers := mt\<rparr>))))"

definition tw_construct :: "nat \<Rightarrow> nat \<Rightarrow> nat \<Rightarrow> nat \<Rightarrow> ('c, 'x) TimingWheel outcome" where
  "tw_construct external_buf buf_size_bytes ws mt = do {
     cassert (is_valid_wheel_size ws \<and> is_valid_max_timers mt);
     (free_buf, free_buf_bytes) \<leftarrow> tw_partition_buffer external_buf buf_size_bytes ws mt;
     free_list \<leftarrow> ifs_construct free_buf free_buf_bytes mt;
     Some (init_nodes (tw_default\<lparr>tw_free := free_list, tw_wheel_size := ws, tw_mask := ws - 1,
                                  tw_max_timers := mt\<rparr>))
   }"

section \<open>Operations\<close>

definition pack_handle :: "nat \<Rightarrow> u32 \<Rightarrow> u64" where
  "pack_handle idx gen = push_bit 32 (ucast gen) OR of_nat idx"

definition unpack_handle :: "u64 \<Rightarrow> nat \<times> u32" where
  "unpack_handle h = (unat (ucast (h AND 0xFFFFFFFF) :: u32), ucast (drop_bit 32 h))"

definition is_armed :: "('c, 'x) TimerNode \<Rightarrow> bool" where
  "is_armed node \<longleftrightarrow> tn_cb node \<noteq> None"

definition set_node ::
  "nat \<Rightarrow> (('c, 'x) TimerNode \<Rightarrow> ('c, 'x) TimerNode) \<Rightarrow> ('c, 'x) TimingWheel \<Rightarrow> ('c, 'x) TimingWheel" where
  "set_node i f w = w\<lparr>tw_nodes := (tw_nodes w)[i := f (tw_nodes w ! i)]\<rparr>"

definition tw_push_front :: "('c, 'x) TimingWheel \<Rightarrow> nat \<Rightarrow> nat \<Rightarrow> ('c, 'x) TimingWheel" where
  "tw_push_front w slot idx =
    (let old_head = tw_heads w ! slot;
         w = set_node idx (\<lambda>n. n\<lparr>tn_prev := None, tn_next := old_head\<rparr>) w;
         w = (case old_head of None \<Rightarrow> w | Some p \<Rightarrow> set_node p (\<lambda>n. n\<lparr>tn_prev := Some idx\<rparr>) w)
     in w\<lparr>tw_heads := (tw_heads w)[slot := Some idx]\<rparr>)"

definition tw_unlink :: "('c, 'x) TimingWheel \<Rightarrow> nat \<Rightarrow> ('c, 'x) TimingWheel" where
  "tw_unlink w idx =
    (let node = tw_nodes w ! idx; slot = tn_slot node;
         w = (case tn_prev node of
                Some p \<Rightarrow> set_node p (\<lambda>n. n\<lparr>tn_next := tn_next node\<rparr>) w
              | None \<Rightarrow> w\<lparr>tw_heads := (tw_heads w)[slot := tn_next node]\<rparr>);
         w = (case tn_next node of
                Some x \<Rightarrow> set_node x (\<lambda>n. n\<lparr>tn_prev := tn_prev node\<rparr>) w
              | None \<Rightarrow> w)
     in set_node idx (\<lambda>n. n\<lparr>tn_prev := None, tn_next := None\<rparr>) w)"

definition free_node :: "('c, 'x) TimingWheel \<Rightarrow> nat \<Rightarrow> ('c, 'x) TimingWheel outcome" where
  "free_node w idx = do {
     let w = set_node idx (\<lambda>n. n\<lparr>tn_gen := (if tn_gen n + 1 = 0 then 1 else tn_gen n + 1),
                                 tn_cb := None, tn_ctx := None\<rparr>) w;
     free_list \<leftarrow> ifs_push (tw_free w) idx;
     Some (w\<lparr>tw_free := free_list\<rparr>)
   }"

definition tw_schedule ::
  "('c, 'x) TimingWheel \<Rightarrow> 'c option \<Rightarrow> 'x option \<Rightarrow> u64 \<Rightarrow> (u64 \<times> ('c, 'x) TimingWheel) outcome" where
  "tw_schedule w cb ctx delay = do {
     cassert (\<not> (delay = 0 \<or> delay \<ge> of_nat (tw_wheel_size w) \<or> cb = None));
     case ifs_pop (tw_free w) of
       (None, _) \<Rightarrow> Some (kInvalidHandle, w)
     | (Some idx, free_list) \<Rightarrow>
         let slot = unat ((tw_current_tick w + delay) AND of_nat (tw_mask w));
             w = w\<lparr>tw_free := free_list\<rparr>;
             w = set_node idx (\<lambda>n. n\<lparr>tn_cb := cb, tn_ctx := ctx, tn_slot := slot\<rparr>) w;
             w = tw_push_front w slot idx
         in Some (pack_handle idx (tn_gen (tw_nodes w ! idx)), w\<lparr>tw_active := tw_active w + 1\<rparr>)
   }"

definition tw_cancel :: "('c, 'x) TimingWheel \<Rightarrow> u64 \<Rightarrow> (bool \<times> ('c, 'x) TimingWheel) outcome" where
  "tw_cancel w h =
    (if h = kInvalidHandle then Some (False, w)
     else let (idx, gen) = unpack_handle h
          in if idx \<ge> tw_max_timers w then Some (False, w)
             else if tn_gen (tw_nodes w ! idx) \<noteq> gen then Some (False, w)
             else if \<not> is_armed (tw_nodes w ! idx) then Some (False, w)
             else if tw_in_walk w then
               (let w = set_node idx (\<lambda>n. n\<lparr>tn_cb := None, tn_ctx := None\<rparr>) w
                in Some (True, w\<lparr>tw_active := tw_active w - 1\<rparr>))
             else do {
               w \<leftarrow> free_node (tw_unlink w idx) idx;
               Some (True, w\<lparr>tw_active := tw_active w - 1\<rparr>)
             })"

text \<open>The walk over the detached bucket.\<close>

partial_function (option) tick_walk ::
  "('c \<Rightarrow> 'x option \<Rightarrow> ('c, 'x) TimingWheel \<times> 's \<Rightarrow> (('c, 'x) TimingWheel \<times> 's) outcome) \<Rightarrow>
   nat option \<Rightarrow> nat \<Rightarrow> ('c, 'x) TimingWheel \<times> 's \<Rightarrow> (nat \<times> ('c, 'x) TimingWheel \<times> 's) outcome" where
  "tick_walk call head_idx fired ws =
    (case head_idx of
       None \<Rightarrow> Some (fired, ws)
     | Some cur_idx \<Rightarrow>
        (let cur = tw_nodes (fst ws) ! cur_idx in
         case tn_cb cur of
           None \<Rightarrow> do {
             w \<leftarrow> free_node (set_node cur_idx (\<lambda>n. n\<lparr>tn_prev := None, tn_next := None\<rparr>) (fst ws)) cur_idx;
             tick_walk call (tn_next cur) fired (w, snd ws)
           }
         | Some cb \<Rightarrow> do {
             let w = set_node cur_idx (\<lambda>n. n\<lparr>tn_prev := None, tn_next := None, tn_cb := None, tn_ctx := None\<rparr>) (fst ws);
             ws \<leftarrow> call cb (tn_ctx cur) (w, snd ws);
             w \<leftarrow> (if tn_gen (tw_nodes (fst ws) ! cur_idx) = tn_gen cur then free_node (fst ws) cur_idx
                    else Some (fst ws));
             tick_walk call (tn_next cur) (Suc fired) (w, snd ws)
           }))"

definition tw_tick ::
  "('c \<Rightarrow> 'x option \<Rightarrow> ('c, 'x) TimingWheel \<times> 's \<Rightarrow> (('c, 'x) TimingWheel \<times> 's) outcome) \<Rightarrow>
   ('c, 'x) TimingWheel \<times> 's \<Rightarrow> (nat \<times> ('c, 'x) TimingWheel \<times> 's) outcome" where
  "tw_tick call = (\<lambda>(w, s). do {
     let w = w\<lparr>tw_current_tick := tw_current_tick w + 1\<rparr>;
     let slot = unat (tw_current_tick w AND of_nat (tw_mask w));
     let head_idx = tw_heads w ! slot;
     let w = w\<lparr>tw_heads := (tw_heads w)[slot := None], tw_in_walk := True\<rparr>;
     (fired, w, s) \<leftarrow> tick_walk call head_idx 0 (w, s);
     Some (fired, w\<lparr>tw_in_walk := False, tw_active := tw_active w - of_nat fired\<rparr>, s)
   })"

partial_function (option) reset_bucket ::
  "nat option \<Rightarrow> nat \<Rightarrow> ('c, 'x) TimingWheel \<Rightarrow> (nat \<times> ('c, 'x) TimingWheel) outcome" where
  "reset_bucket idx freed w =
    (case idx of
       None \<Rightarrow> Some (freed, w)
     | Some i \<Rightarrow> do {
         let next_idx = tn_next (tw_nodes w ! i);
         w \<leftarrow> free_node (set_node i (\<lambda>n. n\<lparr>tn_prev := None, tn_next := None\<rparr>) w) i;
         reset_bucket next_idx (Suc freed) w
       })"

fun reset_buckets :: "nat list \<Rightarrow> nat \<Rightarrow> ('c, 'x) TimingWheel \<Rightarrow> (nat \<times> ('c, 'x) TimingWheel) outcome" where
  "reset_buckets [] freed w = Some (freed, w)"
| "reset_buckets (slot # slots) freed w = do {
     (freed, w) \<leftarrow> reset_bucket (tw_heads w ! slot) freed w;
     reset_buckets slots freed (w\<lparr>tw_heads := (tw_heads w)[slot := None]\<rparr>)
   }"

definition tw_reset :: "('c, 'x) TimingWheel \<Rightarrow> ('c, 'x) TimingWheel outcome" where
  "tw_reset w = do {
     (freed, w) \<leftarrow> reset_buckets [0..<tw_wheel_size w] 0 w;
     cassert (of_nat freed = tw_active w);
     Some (w\<lparr>tw_active := 0, tw_current_tick := 0\<rparr>)
   }"

declare tick_walk.simps [code] reset_bucket.simps [code]

section \<open>Chains\<close>

definition opt_hd :: "'a list \<Rightarrow> 'a option" where
  "opt_hd xs = (case xs of [] \<Rightarrow> None | x # _ \<Rightarrow> Some x)"

definition opt_last :: "'a list \<Rightarrow> 'a option" where
  "opt_last xs = (if xs = [] then None else Some (last xs))"

lemma opt_hd_simps [simp]: "opt_hd [] = None" "opt_hd (x # xs) = Some x"
  by (simp_all add: opt_hd_def)

lemma opt_last_simps [simp]: "opt_last [] = None" "opt_last [x] = Some x" "opt_last (xs @ [x]) = Some x"
  by (simp_all add: opt_last_def)

lemma opt_hd_append: "opt_hd (xs @ ys) = (if xs = [] then opt_hd ys else opt_hd xs)"
  by (cases xs) auto

lemma opt_last_append: "opt_last (xs @ ys) = (if ys = [] then opt_last xs else opt_last ys)"
  by (simp add: opt_last_def)

lemma opt_last_Cons: "opt_last (x # xs) = (if xs = [] then Some x else opt_last xs)"
  by (simp add: opt_last_def)

lemma opt_hd_in: "opt_hd xs = Some x \<Longrightarrow> x \<in> set xs"
  by (cases xs) auto

lemma opt_last_in: "opt_last xs = Some x \<Longrightarrow> x \<in> set xs"
  by (auto simp: opt_last_def split: if_splits)

text \<open>The links of the nodes follow the sequence \<open>xs\<close> in both directions.\<close>

definition links :: "('c, 'x) TimerNode list \<Rightarrow> nat list \<Rightarrow> bool" where
  "links ns xs \<longleftrightarrow> (\<forall>us x vs. xs = us @ x # vs \<longrightarrow>
     x < length ns \<and> tn_prev (ns ! x) = opt_last us \<and> tn_next (ns ! x) = opt_hd vs)"

lemma linksD:
  assumes "links ns (us @ x # vs)"
  shows "x < length ns" "tn_prev (ns ! x) = opt_last us" "tn_next (ns ! x) = opt_hd vs"
  using assms by (auto simp: links_def)

lemma links_bound: "links ns xs \<Longrightarrow> x \<in> set xs \<Longrightarrow> x < length ns"
  by (metis linksD(1) split_list)

lemma links_Nil [simp]: "links ns []"
  by (simp add: links_def)

lemma links_cong:
  assumes "links ns xs" "length ns' = length ns"
    "\<And>x. x \<in> set xs \<Longrightarrow> tn_prev (ns' ! x) = tn_prev (ns ! x) \<and> tn_next (ns' ! x) = tn_next (ns ! x)"
  shows "links ns' xs"
  using assms unfolding links_def by (metis in_set_conv_decomp)

lemma links_push:
  assumes xs: "links ns xs" and d: "distinct (i # xs)" and i: "i < length ns"
    and len: "length ns' = length ns"
    and ni: "tn_prev (ns' ! i) = None" "tn_next (ns' ! i) = opt_hd xs"
    and nh: "\<And>x. opt_hd xs = Some x \<Longrightarrow> tn_prev (ns' ! x) = Some i \<and> tn_next (ns' ! x) = tn_next (ns ! x)"
    and nx: "\<And>x. x \<in> set xs \<Longrightarrow> opt_hd xs \<noteq> Some x \<Longrightarrow>
      tn_prev (ns' ! x) = tn_prev (ns ! x) \<and> tn_next (ns' ! x) = tn_next (ns ! x)"
  shows "links ns' (i # xs)"
  unfolding links_def
proof (intro allI impI)
  fix us x vs assume eq: "i # xs = us @ x # vs"
  show "x < length ns' \<and> tn_prev (ns' ! x) = opt_last us \<and> tn_next (ns' ! x) = opt_hd vs"
  proof (cases us)
    case Nil
    then show ?thesis using eq i len ni by simp
  next
    case (Cons u us')
    then have xs_eq: "xs = us' @ x # vs" and u: "u = i" using eq by simp_all
    note D = linksD [OF xs [unfolded xs_eq]]
    show ?thesis
    proof (cases us')
      case Nil
      then show ?thesis using nh [of x] D len Cons u xs_eq by simp
    next
      case (Cons v vs')
      then have "opt_hd xs \<noteq> Some x" using d xs_eq by auto
      then show ?thesis using nx [of x] D len \<open>us = u # us'\<close> Cons xs_eq by (simp add: opt_last_Cons)
    qed
  qed
qed

lemma append_split:
  "us @ vs = as @ x # bs \<Longrightarrow>
    (\<exists>b1. us = as @ x # b1 \<and> bs = b1 @ vs) \<or> (\<exists>a1. as = us @ a1 \<and> vs = a1 @ x # bs)"
proof (induction us arbitrary: as)
  case (Cons u us)
  then show ?case by (cases as) auto
qed simp

lemma links_remove:
  assumes xs: "links ns (us @ i # vs)" and d: "distinct (us @ i # vs)" and len: "length ns' = length ns"
    and np: "\<And>x. x \<in> set us \<Longrightarrow> tn_prev (ns' ! x) = tn_prev (ns ! x) \<and>
      tn_next (ns' ! x) = (if opt_last us = Some x then opt_hd vs else tn_next (ns ! x))"
    and nn: "\<And>x. x \<in> set vs \<Longrightarrow> tn_next (ns' ! x) = tn_next (ns ! x) \<and>
      tn_prev (ns' ! x) = (if opt_hd vs = Some x then opt_last us else tn_prev (ns ! x))"
  shows "links ns' (us @ vs)"
  unfolding links_def
proof (intro allI impI)
  fix as x bs assume eq: "us @ vs = as @ x # bs"
  then consider (left) b1 where "us = as @ x # b1" "bs = b1 @ vs" | (right) a1 where "as = us @ a1" "vs = a1 @ x # bs"
    using append_split by metis
  then show "x < length ns' \<and> tn_prev (ns' ! x) = opt_last as \<and> tn_next (ns' ! x) = opt_hd bs"
  proof cases
    case left
    have "us @ i # vs = as @ x # (b1 @ i # vs)" using left by simp
    note D = linksD [OF xs [unfolded this]]
    have "opt_last us = Some x \<longleftrightarrow> b1 = []" using left(1) d by (auto simp: opt_last_def split: if_splits)
    then show ?thesis using np [of x] D len left by (auto simp: opt_hd_append)
  next
    case right
    have "us @ i # vs = (us @ i # a1) @ x # bs" using right by simp
    note D = linksD [OF xs [unfolded this]]
    have "opt_hd vs = Some x \<longleftrightarrow> a1 = []" using right(2) d by (cases a1) auto
    then show ?thesis using nn [of x] D len right by (auto simp: opt_last_append opt_last_Cons)
  qed
qed

text \<open>Only the forward links, which is what the walks follow.\<close>

fun nexts :: "('c, 'x) TimerNode list \<Rightarrow> nat list \<Rightarrow> bool" where
  "nexts ns [] = True"
| "nexts ns (x # xs) \<longleftrightarrow> x < length ns \<and> tn_next (ns ! x) = opt_hd xs \<and> nexts ns xs"

lemma links_nexts: "links ns (us @ xs) \<Longrightarrow> nexts ns xs"
proof (induction xs arbitrary: us)
  case (Cons x xs)
  then show ?case using linksD [OF Cons.prems] Cons.IH [of "us @ [x]"] by simp
qed simp

lemma nexts_cong:
  "nexts ns xs \<Longrightarrow> length ns' = length ns \<Longrightarrow> (\<And>x. x \<in> set xs \<Longrightarrow> tn_next (ns' ! x) = tn_next (ns ! x)) \<Longrightarrow>
   nexts ns' xs"
  by (induction xs) auto

section \<open>The invariant\<close>

definition tw_shape :: "('c, 'x) TimingWheel \<Rightarrow> bool" where
  "tw_shape w \<longleftrightarrow> (\<exists>k. 1 \<le> k \<and> k \<le> 31 \<and> tw_wheel_size w = 2 ^ k) \<and> tw_mask w = tw_wheel_size w - 1 \<and>
     length (tw_heads w) = tw_wheel_size w \<and> length (tw_nodes w) = tw_max_timers w \<and>
     tw_max_timers w < 2 ^ 32 \<and> ifs_inv (tw_free w) \<and> ifs_capacity (tw_free w) = tw_max_timers w \<and>
     (\<forall>i < tw_max_timers w. tn_gen (tw_nodes w ! i) \<noteq> 0)"

text \<open>
  The nodes of the chains \<open>f\<close> and of the detached nodes \<open>xs\<close> are exactly the allocated ones;
  a chain holds the nodes of its slot, linked in order.
\<close>

definition tw_chains :: "(nat \<Rightarrow> nat list) \<Rightarrow> nat set \<Rightarrow> ('c, 'x) TimingWheel \<Rightarrow> bool" where
  "tw_chains f X w \<longleftrightarrow>
     (\<forall>sl < tw_wheel_size w. tw_heads w ! sl = opt_hd (f sl) \<and> links (tw_nodes w) (f sl) \<and> distinct (f sl) \<and>
        (\<forall>i \<in> set (f sl). tn_slot (tw_nodes w ! i) = sl \<and> tn_cb (tw_nodes w ! i) \<noteq> None \<and> i \<notin> X)) \<and>
     ifs_allocated (tw_free w) = (\<Union>sl < tw_wheel_size w. set (f sl)) \<union> X \<and>
     (\<forall>i < tw_max_timers w. i \<notin> ifs_allocated (tw_free w) \<longrightarrow> tn_cb (tw_nodes w ! i) = None)"

definition cur_slot :: "('c, 'x) TimingWheel \<Rightarrow> nat" where
  "cur_slot w = unat (tw_current_tick w) mod tw_wheel_size w"

definition tw_inv :: "('c, 'x) TimingWheel \<Rightarrow> bool" where
  "tw_inv w \<longleftrightarrow> tw_shape w \<and> \<not> tw_in_walk w \<and> unat (tw_active w) = card (ifs_allocated (tw_free w)) \<and>
     (\<exists>f. tw_chains f {} w \<and> f (cur_slot w) = [])"

text \<open>The ticks left until a slot is reached.\<close>

definition ticks_left :: "('c, 'x) TimingWheel \<Rightarrow> nat \<Rightarrow> nat" where
  "ticks_left w sl = (sl + tw_wheel_size w - cur_slot w) mod tw_wheel_size w"

text \<open>The armed timers: ticks left, callback and context.\<close>

definition tw_timers :: "('c, 'x) TimingWheel \<Rightarrow> nat \<Rightarrow> (nat \<times> 'c \<times> 'x option) option" where
  "tw_timers w i =
    (if i < tw_max_timers w then
       map_option (\<lambda>cb. (ticks_left w (tn_slot (tw_nodes w ! i)), cb, tn_ctx (tw_nodes w ! i)))
         (tn_cb (tw_nodes w ! i))
     else None)"

definition tw_handle :: "('c, 'x) TimingWheel \<Rightarrow> nat \<Rightarrow> u64" where
  "tw_handle w i = pack_handle i (tn_gen (tw_nodes w ! i))"

lemma slot_of_tick:
  assumes "tw_shape w"
  shows "unat ((t :: u64) AND of_nat (tw_mask w)) = unat t mod tw_wheel_size w"
proof -
  obtain k where k: "k \<le> 31" "tw_wheel_size w = 2 ^ k" "tw_mask w = tw_wheel_size w - 1"
    using assms unfolding tw_shape_def by blast
  have "(of_nat (tw_mask w) :: u64) = 2 ^ k - 1" using k by (simp add: of_nat_diff)
  then show ?thesis using k(2) by (simp add: unat_and_mask_mod)
qed

lemma slot_after:
  assumes "tw_shape w"
  shows "unat (tw_current_tick w + d) mod tw_wheel_size w = (cur_slot w + unat d) mod tw_wheel_size w"
proof -
  obtain k where k: "k \<le> 31" "tw_wheel_size w = 2 ^ k" using assms unfolding tw_shape_def by blast
  have "(2 :: nat) ^ k dvd 2 ^ 64" using k(1) by (intro le_imp_power_dvd) simp
  then have "((unat (tw_current_tick w) + unat d) mod 2 ^ 64) mod 2 ^ k =
      (unat (tw_current_tick w) + unat d) mod 2 ^ k"
    by (rule mod_mod_cancel)
  then show ?thesis using k(2) by (simp add: unat_word_ariths cur_slot_def mod_add_left_eq)
qed

lemma ticks_left_slot:
  assumes "d < tw_wheel_size w"
  shows "ticks_left w ((cur_slot w + d) mod tw_wheel_size w) = d"
proof -
  let ?n = "tw_wheel_size w"
  have n: "0 < ?n" using assms by simp
  have c: "cur_slot w < ?n" using n by (simp add: cur_slot_def)
  have "((cur_slot w + d) mod ?n + ?n - cur_slot w) mod ?n = d"
  proof (cases "cur_slot w + d < ?n")
    case True
    then show ?thesis using assms by simp
  next
    case False
    then have "(cur_slot w + d) mod ?n = cur_slot w + d - ?n" using c assms by (simp add: mod_if)
    then show ?thesis using False c assms by simp
  qed
  then show ?thesis by (simp add: ticks_left_def)
qed

lemma ticks_left_less: "0 < tw_wheel_size w \<Longrightarrow> ticks_left w sl < tw_wheel_size w"
  by (simp add: ticks_left_def)

section \<open>Effects of the link operations\<close>

lemma set_node_fields [simp]:
  "tw_heads (set_node i g w) = tw_heads w" "tw_free (set_node i g w) = tw_free w"
  "tw_wheel_size (set_node i g w) = tw_wheel_size w" "tw_mask (set_node i g w) = tw_mask w"
  "tw_max_timers (set_node i g w) = tw_max_timers w" "tw_current_tick (set_node i g w) = tw_current_tick w"
  "tw_active (set_node i g w) = tw_active w" "tw_in_walk (set_node i g w) = tw_in_walk w"
  "length (tw_nodes (set_node i g w)) = length (tw_nodes w)"
  by (simp_all add: set_node_def)

lemma set_node_nth:
  "i < length (tw_nodes w) \<Longrightarrow> tw_nodes (set_node i g w) ! x = (if x = i then g (tw_nodes w ! i) else tw_nodes w ! x)"
  by (simp add: set_node_def)

lemma push_front_fields:
  "tw_heads (tw_push_front w slot idx) = (tw_heads w)[slot := Some idx]"
  "tw_free (tw_push_front w slot idx) = tw_free w" "tw_wheel_size (tw_push_front w slot idx) = tw_wheel_size w"
  "tw_mask (tw_push_front w slot idx) = tw_mask w" "tw_max_timers (tw_push_front w slot idx) = tw_max_timers w"
  "tw_current_tick (tw_push_front w slot idx) = tw_current_tick w"
  "tw_active (tw_push_front w slot idx) = tw_active w" "tw_in_walk (tw_push_front w slot idx) = tw_in_walk w"
  "length (tw_nodes (tw_push_front w slot idx)) = length (tw_nodes w)"
  by (simp_all add: tw_push_front_def Let_def split: option.splits)

lemma push_front_nth:
  assumes "idx < length (tw_nodes w)" "tw_heads w ! slot \<noteq> Some idx"
    "\<And>p. tw_heads w ! slot = Some p \<Longrightarrow> p < length (tw_nodes w)"
  shows "tw_nodes (tw_push_front w slot idx) ! x =
    (if x = idx then (tw_nodes w ! idx)\<lparr>tn_prev := None, tn_next := tw_heads w ! slot\<rparr>
     else if tw_heads w ! slot = Some x then (tw_nodes w ! x)\<lparr>tn_prev := Some idx\<rparr> else tw_nodes w ! x)"
  using assms by (auto simp: tw_push_front_def Let_def set_node_nth split: option.splits)

lemma unlink_fields:
  "tw_heads (tw_unlink w idx) = (if tn_prev (tw_nodes w ! idx) = None
     then (tw_heads w)[tn_slot (tw_nodes w ! idx) := tn_next (tw_nodes w ! idx)] else tw_heads w)"
  "tw_free (tw_unlink w idx) = tw_free w" "tw_wheel_size (tw_unlink w idx) = tw_wheel_size w"
  "tw_mask (tw_unlink w idx) = tw_mask w" "tw_max_timers (tw_unlink w idx) = tw_max_timers w"
  "tw_current_tick (tw_unlink w idx) = tw_current_tick w"
  "tw_active (tw_unlink w idx) = tw_active w" "tw_in_walk (tw_unlink w idx) = tw_in_walk w"
  "length (tw_nodes (tw_unlink w idx)) = length (tw_nodes w)"
  by (simp_all add: tw_unlink_def Let_def split: option.splits)

lemma unlink_nth:
  assumes "idx < length (tw_nodes w)" "tn_prev (tw_nodes w ! idx) \<noteq> Some idx" "tn_next (tw_nodes w ! idx) \<noteq> Some idx"
    "\<And>p. tn_prev (tw_nodes w ! idx) = Some p \<Longrightarrow> p < length (tw_nodes w)"
    "\<And>p. tn_next (tw_nodes w ! idx) = Some p \<Longrightarrow> p < length (tw_nodes w)"
    "\<And>p. tn_prev (tw_nodes w ! idx) = Some p \<Longrightarrow> tn_next (tw_nodes w ! idx) \<noteq> Some p"
  shows "tw_nodes (tw_unlink w idx) ! x =
    (if x = idx then (tw_nodes w ! idx)\<lparr>tn_prev := None, tn_next := None\<rparr>
     else if tn_prev (tw_nodes w ! idx) = Some x then (tw_nodes w ! x)\<lparr>tn_next := tn_next (tw_nodes w ! idx)\<rparr>
     else if tn_next (tw_nodes w ! idx) = Some x then (tw_nodes w ! x)\<lparr>tn_prev := tn_prev (tw_nodes w ! idx)\<rparr>
     else tw_nodes w ! x)"
  using assms by (auto simp: tw_unlink_def Let_def set_node_nth split: option.splits)

definition freed_node :: "('c, 'x) TimerNode \<Rightarrow> ('c, 'x) TimerNode" where
  "freed_node n = n\<lparr>tn_gen := (if tn_gen n + 1 = 0 then 1 else tn_gen n + 1), tn_cb := None, tn_ctx := None\<rparr>"

lemma freed_node_fields [simp]:
  "tn_gen (freed_node n) \<noteq> 0" "tn_cb (freed_node n) = None" "tn_next (freed_node n) = tn_next n"
  "tn_prev (freed_node n) = tn_prev n" "tn_slot (freed_node n) = tn_slot n"
  by (simp_all add: freed_node_def)

lemma freed_gen [simp]: "tn_gen (freed_node n) \<noteq> tn_gen n"
  by (auto simp: freed_node_def)

lemma free_node_spec:
  assumes "tw_shape w" "idx \<in> ifs_allocated (tw_free w)"
  shows "\<exists>fl. free_node w idx = Some (set_node idx freed_node w\<lparr>tw_free := fl\<rparr>) \<and>
    ifs_inv fl \<and> ifs_capacity fl = tw_max_timers w \<and> ifs_allocated fl = ifs_allocated (tw_free w) - {idx} \<and>
    tw_shape (set_node idx freed_node w\<lparr>tw_free := fl\<rparr>)"
proof -
  have inv: "ifs_inv (tw_free w)" "ifs_capacity (tw_free w) = tw_max_timers w" "length (tw_nodes w) = tw_max_timers w"
    using assms(1) by (simp_all add: tw_shape_def)
  obtain fl where fl: "ifs_push (tw_free w) idx = Some fl" "ifs_inv fl" "ifs_stack fl = idx # ifs_stack (tw_free w)"
    "ifs_capacity fl = ifs_capacity (tw_free w)"
    using ifs_push_refines [OF inv(1) assms(2)] by blast
  have e: "free_node w idx = Some (set_node idx freed_node w\<lparr>tw_free := fl\<rparr>)"
    using fl(1) by (simp add: free_node_def freed_node_def [abs_def] Let_def)
  have i: "idx < tw_max_timers w" using assms(2) inv(2) by (simp add: ifs_allocated_def)
  have a: "ifs_allocated fl = ifs_allocated (tw_free w) - {idx}"
    using fl(3,4) by (auto simp: ifs_allocated_def)
  have "tw_shape (set_node idx freed_node w\<lparr>tw_free := fl\<rparr>)"
    using assms(1) fl inv i by (auto simp: tw_shape_def set_node_nth)
  then show ?thesis using e a fl(2,4) inv(2) by auto
qed

section \<open>Scheduling and cancelling\<close>

lemma tw_chains_disjoint:
  assumes "tw_chains f X w" "sl < tw_wheel_size w" "sl' < tw_wheel_size w" "i \<in> set (f sl)" "i \<in> set (f sl')"
  shows "sl = sl'"
  using assms unfolding tw_chains_def by metis

lemma tw_chains_alloc:
  assumes "tw_chains f X w" "sl < tw_wheel_size w" "i \<in> set (f sl)"
  shows "i \<in> ifs_allocated (tw_free w)"
  using assms unfolding tw_chains_def by blast

lemma tw_chainsD:
  assumes "tw_chains f X w" "sl < tw_wheel_size w"
  shows "tw_heads w ! sl = opt_hd (f sl)" "links (tw_nodes w) (f sl)" "distinct (f sl)"
    "\<And>i. i \<in> set (f sl) \<Longrightarrow> tn_slot (tw_nodes w ! i) = sl \<and> tn_cb (tw_nodes w ! i) \<noteq> None \<and> i \<notin> X"
  using assms unfolding tw_chains_def by blast+

lemma push_front_chains:
  assumes sh: "tw_shape w" and ch: "tw_chains f {} w" and idx: "idx < tw_max_timers w"
    and fr: "idx \<notin> ifs_allocated (tw_free w)" and slot: "slot < tw_wheel_size w"
    and fl: "ifs_allocated fl = insert idx (ifs_allocated (tw_free w))"
    and w1_def: "w1 = set_node idx (\<lambda>n. n\<lparr>tn_cb := Some cb, tn_ctx := ctx, tn_slot := slot\<rparr>) (w\<lparr>tw_free := fl\<rparr>)"
  shows "tw_chains (f(slot := idx # f slot)) {} (tw_push_front w1 slot idx)"
    "tw_nodes (tw_push_front w1 slot idx) ! x =
      (if x = idx then (tw_nodes w ! idx)\<lparr>tn_cb := Some cb, tn_ctx := ctx, tn_slot := slot, tn_prev := None,
                          tn_next := opt_hd (f slot)\<rparr>
       else if opt_hd (f slot) = Some x then (tw_nodes w ! x)\<lparr>tn_prev := Some idx\<rparr> else tw_nodes w ! x)"
proof -
  have len: "length (tw_nodes w) = tw_max_timers w" "length (tw_heads w) = tw_wheel_size w"
    using sh by (simp_all add: tw_shape_def)
  note D = tw_chainsD [OF ch slot]
  have nin: "idx \<notin> set (f sl)" if "sl < tw_wheel_size w" for sl
    using tw_chains_alloc [OF ch that] fr by blast
  have w1: "tw_heads w1 = tw_heads w" "length (tw_nodes w1) = length (tw_nodes w)"
    "tw_nodes w1 ! x = (if x = idx then (tw_nodes w ! idx)\<lparr>tn_cb := Some cb, tn_ctx := ctx, tn_slot := slot\<rparr>
       else tw_nodes w ! x)" for x
    using idx len by (simp_all add: w1_def set_node_nth)
  have hd: "tw_heads w1 ! slot = opt_hd (f slot)" using D(1) w1(1) by simp
  have nth: "tw_nodes (tw_push_front w1 slot idx) ! x =
      (if x = idx then (tw_nodes w ! idx)\<lparr>tn_cb := Some cb, tn_ctx := ctx, tn_slot := slot, tn_prev := None,
                          tn_next := opt_hd (f slot)\<rparr>
       else if opt_hd (f slot) = Some x then (tw_nodes w ! x)\<lparr>tn_prev := Some idx\<rparr> else tw_nodes w ! x)" for x
    using idx len w1 hd nin [OF slot] links_bound [OF D(2)]
    by (subst push_front_nth) (auto dest!: opt_hd_in)
  then show "tw_nodes (tw_push_front w1 slot idx) ! x =
      (if x = idx then (tw_nodes w ! idx)\<lparr>tn_cb := Some cb, tn_ctx := ctx, tn_slot := slot, tn_prev := None,
                          tn_next := opt_hd (f slot)\<rparr>
       else if opt_hd (f slot) = Some x then (tw_nodes w ! x)\<lparr>tn_prev := Some idx\<rparr> else tw_nodes w ! x)" .
  have other: "tn_cb (tw_nodes (tw_push_front w1 slot idx) ! x) = tn_cb (tw_nodes w ! x)"
    "tn_slot (tw_nodes (tw_push_front w1 slot idx) ! x) = tn_slot (tw_nodes w ! x)" if "x \<noteq> idx" for x
    using that by (simp_all add: nth)
  have links: "links (tw_nodes (tw_push_front w1 slot idx)) ((f(slot := idx # f slot)) sl)"
    if sl: "sl < tw_wheel_size w" for sl
  proof (cases "sl = slot")
    case True
    have "links (tw_nodes (tw_push_front w1 slot idx)) (idx # f slot)"
      by (rule links_push [OF D(2)]) (use D(3) nin [OF slot] idx len w1(2) in \<open>auto simp: nth push_front_fields dest: opt_hd_in\<close>)
    then show ?thesis using True by simp
  next
    case False
    have "opt_hd (f slot) \<noteq> Some x" if "x \<in> set (f sl)" for x
      using tw_chains_disjoint [OF ch sl slot that] False opt_hd_in by fastforce
    then have "links (tw_nodes (tw_push_front w1 slot idx)) (f sl)"
      by (intro links_cong [OF tw_chainsD(2) [OF ch sl]])
         (use nin [OF sl] len w1(2) in \<open>auto simp: nth push_front_fields\<close>)
    then show ?thesis using False by simp
  qed
  have w1': "tw_wheel_size w1 = tw_wheel_size w" "tw_max_timers w1 = tw_max_timers w" "tw_free w1 = fl"
    by (simp_all add: w1_def)
  show "tw_chains (f(slot := idx # f slot)) {} (tw_push_front w1 slot idx)"
    unfolding tw_chains_def push_front_fields w1'
  proof (intro conjI allI impI ballI)
    fix sl assume sl: "sl < tw_wheel_size w"
    show "(tw_heads w1)[slot := Some idx] ! sl = opt_hd ((f(slot := idx # f slot)) sl)"
      using tw_chainsD(1) [OF ch sl] slot len w1(1) by (simp add: nth_list_update)
    show "links (tw_nodes (tw_push_front w1 slot idx)) ((f(slot := idx # f slot)) sl)" by (rule links [OF sl])
    show "distinct ((f(slot := idx # f slot)) sl)" using tw_chainsD(3) [OF ch sl] nin [OF sl] by auto
    fix i assume i: "i \<in> set ((f(slot := idx # f slot)) sl)"
    have "i = idx \<and> sl = slot \<or> i \<noteq> idx \<and> i \<in> set (f sl)"
      using i nin [OF sl] by (auto split: if_splits)
    then have "tn_slot (tw_nodes (tw_push_front w1 slot idx) ! i) = sl \<and>
        tn_cb (tw_nodes (tw_push_front w1 slot idx) ! i) \<noteq> None"
    proof (elim disjE conjE)
      assume "i \<noteq> idx" "i \<in> set (f sl)"
      then show ?thesis using other [of i] tw_chainsD(4) [OF ch sl, of i] by simp
    qed (simp add: nth)
    then show "tn_slot (tw_nodes (tw_push_front w1 slot idx) ! i) = sl"
      "tn_cb (tw_nodes (tw_push_front w1 slot idx) ! i) \<noteq> None" by simp_all
    show "i \<notin> {}" by simp
  next
    show "ifs_allocated fl = (\<Union>sl<tw_wheel_size w. set ((f(slot := idx # f slot)) sl)) \<union> {}"
      using ch slot unfolding fl tw_chains_def by (auto split: if_splits)
  next
    fix i assume "i < tw_max_timers w" "i \<notin> ifs_allocated fl"
    then show "tn_cb (tw_nodes (tw_push_front w1 slot idx) ! i) = None"
      using ch other [of i] unfolding fl tw_chains_def by auto
  qed
qed

lemma alloc_finite: "finite (ifs_allocated s)"
  by (simp add: ifs_allocated_def)

lemma alloc_card:
  assumes "tw_shape w" shows "card (ifs_allocated (tw_free w)) \<le> tw_max_timers w"
proof -
  have "ifs_allocated (tw_free w) \<subseteq> {..<tw_max_timers w}"
    using assms by (auto simp: ifs_allocated_def tw_shape_def)
  then show ?thesis using card_mono [of "{..<tw_max_timers w}"] by fastforce
qed

lemma pop_alloc:
  assumes "ifs_inv s" "ifs_pop s = (Some i, s')"
  shows "ifs_inv s'" "i < ifs_capacity s" "i \<notin> ifs_allocated s" "ifs_capacity s' = ifs_capacity s"
    "ifs_allocated s' = insert i (ifs_allocated s)"
  using assms(1) by (cases rule: ifs.popE; use assms(2) in \<open>auto simp: ifs_allocated_def\<close>)+

lemma tw_chains_slot:
  assumes "tw_chains f X w" "i \<in> ifs_allocated (tw_free w)" "i \<notin> X"
  obtains sl where "sl < tw_wheel_size w" "i \<in> set (f sl)" "tn_slot (tw_nodes w ! i) = sl" "tn_cb (tw_nodes w ! i) \<noteq> None"
proof -
  obtain sl where "sl < tw_wheel_size w" "i \<in> set (f sl)" using assms unfolding tw_chains_def by auto
  then show thesis using that tw_chainsD(4) [OF assms(1)] by blast
qed

lemma timers_alloc:
  assumes "tw_inv w"
  shows "tw_timers w i = None \<longleftrightarrow> i \<notin> ifs_allocated (tw_free w)"
proof -
  obtain f where ch: "tw_chains f {} w" and sh: "tw_shape w" using assms unfolding tw_inv_def by blast
  have "ifs_allocated (tw_free w) \<subseteq> {..<tw_max_timers w}"
    using sh by (auto simp: tw_shape_def ifs_allocated_def)
  then have "i < tw_max_timers w \<and> tn_cb (tw_nodes w ! i) \<noteq> None" if "i \<in> ifs_allocated (tw_free w)"
    using that tw_chains_slot [OF ch that] by blast
  moreover have "tn_cb (tw_nodes w ! i) = None" if "i < tw_max_timers w" "i \<notin> ifs_allocated (tw_free w)"
    using ch that unfolding tw_chains_def by blast
  ultimately show ?thesis unfolding tw_timers_def by auto
qed

lemma schedule_spec:
  assumes inv: "tw_inv w" and d: "0 < delay" "unat delay < tw_wheel_size w"
  obtains (full) "tw_schedule w (Some cb) ctx delay = Some (kInvalidHandle, w)"
      "ifs_allocated (tw_free w) = {..<tw_max_timers w}"
  | (ok) i w' where "tw_schedule w (Some cb) ctx delay = Some (tw_handle w' i, w')" "tw_inv w'"
      "i < tw_max_timers w" "tw_timers w i = None" "tw_timers w' = (tw_timers w)(i \<mapsto> (unat delay, cb, ctx))"
      "\<forall>j < tw_max_timers w. tn_gen (tw_nodes w' ! j) = tn_gen (tw_nodes w ! j)"
      "tw_wheel_size w' = tw_wheel_size w" "tw_max_timers w' = tw_max_timers w"
proof -
  obtain f where sh: "tw_shape w" and nw: "\<not> tw_in_walk w" and ac: "unat (tw_active w) = card (ifs_allocated (tw_free w))"
    and ch: "tw_chains f {} w" and cur: "f (cur_slot w) = []"
    using inv unfolding tw_inv_def by blast
  have ws: "tw_wheel_size w < 2 ^ 32" "0 < tw_wheel_size w"
    using sh power_strict_increasing_iff [of "2::nat" _ 32] unfolding tw_shape_def by auto
  have "unat (of_nat (tw_wheel_size w) :: u64) = tw_wheel_size w"
    using ws(1) by (intro unat_of_nat_eq_small) simp
  then have guard: "\<not> (delay = 0 \<or> delay \<ge> of_nat (tw_wheel_size w) \<or> Some cb = None)"
    using d by (auto simp: word_le_nat_alt)
  have ifs: "ifs_inv (tw_free w)" "ifs_capacity (tw_free w) = tw_max_timers w"
    using sh by (simp_all add: tw_shape_def)
  show thesis
  proof (cases "ifs_pop (tw_free w)")
    case (Pair r fl)
    show thesis
    proof (cases r)
      case None
      have "ifs_stack (tw_free w) = []"
        using ifs(1) by (cases rule: ifs.popE) (use Pair None in auto)
      then have "ifs_allocated (tw_free w) = {..<tw_max_timers w}" using ifs(2) by (simp add: ifs_allocated_def)
      then show thesis using full guard Pair None by (simp add: tw_schedule_def)
    next
      case (Some idx)
      note P = pop_alloc [OF ifs(1) Pair [unfolded Some]]
      let ?slot = "(cur_slot w + unat delay) mod tw_wheel_size w"
      define w1 where "w1 = set_node idx (\<lambda>n. n\<lparr>tn_cb := Some cb, tn_ctx := ctx, tn_slot := ?slot\<rparr>) (w\<lparr>tw_free := fl\<rparr>)"
      define w2 where "w2 = tw_push_front w1 ?slot idx"
      define w3 where "w3 = w2\<lparr>tw_active := tw_active w2 + 1\<rparr>"
      have slot: "?slot < tw_wheel_size w" using ws(2) by simp
      have idx: "idx < tw_max_timers w" using P(2) ifs(2) by simp
      note C = push_front_chains [OF sh ch idx P(3) slot P(5) w1_def]
      have fields: "tw_wheel_size w3 = tw_wheel_size w" "tw_max_timers w3 = tw_max_timers w" "tw_mask w3 = tw_mask w"
        "tw_current_tick w3 = tw_current_tick w" "tw_in_walk w3 = tw_in_walk w" "tw_free w3 = fl"
        "tw_nodes w3 = tw_nodes w2" "tw_active w3 = tw_active w + 1" "length (tw_nodes w3) = length (tw_nodes w)"
        "length (tw_heads w3) = length (tw_heads w)"
        by (simp_all add: w3_def w2_def push_front_fields w1_def)
      have sched: "tw_schedule w (Some cb) ctx delay = Some (tw_handle w3 idx, w3)"
        using guard Pair Some slot_of_tick [OF sh] slot_after [OF sh, of delay]
        by (simp add: tw_schedule_def Let_def w1_def w2_def w3_def tw_handle_def)
      have gens2: "tn_gen (tw_nodes w2 ! j) = tn_gen (tw_nodes w ! j)" for j
        unfolding w2_def C(2) by simp
      then have gens: "tn_gen (tw_nodes w3 ! j) = tn_gen (tw_nodes w ! j)" for j by (simp add: fields)
      have sh3: "tw_shape w3" using sh P fields ifs(2) by (simp add: tw_shape_def gens2)
      have "card (ifs_allocated fl) = card (ifs_allocated (tw_free w)) + 1"
        using P(3,5) alloc_finite by simp
      moreover have "card (ifs_allocated fl) \<le> tw_max_timers w" using alloc_card [OF sh3] fields by simp
      moreover have "tw_max_timers w < 2 ^ 32" using sh by (simp add: tw_shape_def)
      ultimately have "unat (tw_active w3) = card (ifs_allocated (tw_free w3))"
        using ac fields by (simp add: unat_word_ariths)
      moreover have cs: "cur_slot w3 = cur_slot w" by (simp add: cur_slot_def fields)
      moreover have "?slot \<noteq> cur_slot w"
        using ticks_left_slot [OF d(2)] ticks_left_slot [OF ws(2)] d(1)
        by (auto simp: unat_eq_zero cur_slot_def)
      moreover have "tw_chains (f(?slot := idx # f ?slot)) {} w3"
        using C(1) unfolding tw_chains_def w3_def w2_def by simp
      ultimately have inv3: "tw_inv w3" unfolding tw_inv_def using sh3 fields nw cur by auto
      have "ticks_left w3 sl = ticks_left w sl" for sl by (simp add: ticks_left_def cs fields)
      then have "tw_timers w3 = (tw_timers w)(idx \<mapsto> (unat delay, cb, ctx))"
        using ticks_left_slot [OF d(2)] idx
        by (intro ext) (simp add: tw_timers_def fields w2_def C(2))
      moreover have "tw_timers w idx = None" using timers_alloc [OF inv] P(3) by blast
      ultimately show thesis using ok [OF sched inv3 idx] gens fields by blast
    qed
  qed
qed

lemma unat_u32_u64: "unat (ucast (x :: u32) :: u64) = unat x"
  using unat_less_exp [of x] by (simp add: unsigned_ucast_eq take_bit_nat_eq_self)

lemma of_nat_unat_u32: "(of_nat (unat (x :: u32)) :: u64) = ucast x"
  using unat_less_exp [of x] by (simp add: word_unat_eq_iff unat_u32_u64 unat_of_nat_eq_small)

lemma unpack_pack:
  assumes "i < 2 ^ 32"
  shows "unpack_handle (pack_handle i g) = (i, g)"
proof -
  have m: "(0xFFFFFFFF :: u64) = mask 32" by (simp add: mask_eq_exp_minus_1)
  have i: "(of_nat i :: u64) = ucast (of_nat i :: u32)"
    using assms by (simp add: unat_of_nat_eq_small flip: of_nat_unat_u32)
  have "ucast (pack_handle i g AND 0xFFFFFFFF) = (of_nat i :: u32)"
    unfolding pack_handle_def m i by (rule bit_word_eqI) (auto simp: bit_simps dest: bit_imp_le_length)
  moreover have "ucast (drop_bit 32 (pack_handle i g)) = g"
    unfolding pack_handle_def i by (rule bit_word_eqI) (auto simp: bit_simps dest: bit_imp_le_length)
  moreover have "unat (of_nat i :: u32) = i" using assms by (intro unat_of_nat_eq_small) simp
  ultimately show ?thesis by (simp add: unpack_handle_def)
qed

lemma pack_unpack: "pack_handle (fst (unpack_handle h)) (snd (unpack_handle h)) = h"
proof -
  have m: "(0xFFFFFFFF :: u64) = mask 32" by (simp add: mask_eq_exp_minus_1)
  have "pack_handle (fst (unpack_handle h)) (snd (unpack_handle h)) =
      push_bit 32 (ucast (ucast (drop_bit 32 h) :: u32)) OR ucast (ucast (h AND mask 32) :: u32)"
    by (simp add: pack_handle_def unpack_handle_def m of_nat_unat_u32)
  also have "\<dots> = h" by (rule bit_word_eqI) (auto simp: bit_simps)
  finally show ?thesis .
qed

lemma pack_handle_valid: "i < 2 ^ 32 \<Longrightarrow> g \<noteq> 0 \<Longrightarrow> pack_handle i g \<noteq> kInvalidHandle"
  using unpack_pack [of i g] unpack_pack [of 0 0] by (auto simp: kInvalidHandle_def pack_handle_def)

lemma unlink_chains:
  assumes sh: "tw_shape w" and ch: "tw_chains f {} w" and sl: "sl < tw_wheel_size w" and fsl: "f sl = us @ i # vs"
  shows "tw_nodes (tw_unlink w i) ! x =
      (if x = i then (tw_nodes w ! i)\<lparr>tn_prev := None, tn_next := None\<rparr>
       else if opt_last us = Some x then (tw_nodes w ! x)\<lparr>tn_next := opt_hd vs\<rparr>
       else if opt_hd vs = Some x then (tw_nodes w ! x)\<lparr>tn_prev := opt_last us\<rparr>
       else tw_nodes w ! x)"
    "sl' < tw_wheel_size w \<Longrightarrow> links (tw_nodes (tw_unlink w i)) ((f(sl := us @ vs)) sl')"
    "sl' < tw_wheel_size w \<Longrightarrow> tw_heads (tw_unlink w i) ! sl' = opt_hd ((f(sl := us @ vs)) sl')"
proof -
  have len: "length (tw_nodes w) = tw_max_timers w" "length (tw_heads w) = tw_wheel_size w"
    using sh by (simp_all add: tw_shape_def)
  note D = tw_chainsD [OF ch sl, unfolded fsl]
  note L = linksD [OF D(2)]
  have slot: "tn_slot (tw_nodes w ! i) = sl" using D(4) by simp
  have nth: "tw_nodes (tw_unlink w i) ! x =
      (if x = i then (tw_nodes w ! i)\<lparr>tn_prev := None, tn_next := None\<rparr>
       else if opt_last us = Some x then (tw_nodes w ! x)\<lparr>tn_next := opt_hd vs\<rparr>
       else if opt_hd vs = Some x then (tw_nodes w ! x)\<lparr>tn_prev := opt_last us\<rparr>
       else tw_nodes w ! x)" for x
    using L D(3) links_bound [OF D(2)]
    by (subst unlink_nth) (auto dest!: opt_last_in opt_hd_in dest: opt_last_in [OF sym] opt_hd_in [OF sym],
        metis disjoint_iff opt_hd_in opt_last_in)
  then show "tw_nodes (tw_unlink w i) ! x =
      (if x = i then (tw_nodes w ! i)\<lparr>tn_prev := None, tn_next := None\<rparr>
       else if opt_last us = Some x then (tw_nodes w ! x)\<lparr>tn_next := opt_hd vs\<rparr>
       else if opt_hd vs = Some x then (tw_nodes w ! x)\<lparr>tn_prev := opt_last us\<rparr>
       else tw_nodes w ! x)" .
  have this_chain: "links (tw_nodes (tw_unlink w i)) (us @ vs)"
    by (rule links_remove [OF D(2,3)])
       (use D(3) in \<open>auto simp: nth unlink_fields dest: opt_last_in opt_hd_in\<close>)
  have other: "links (tw_nodes (tw_unlink w i)) (f sl')" if "sl' < tw_wheel_size w" "sl' \<noteq> sl"
  proof (rule links_cong [OF tw_chainsD(2) [OF ch that(1)]])
    fix x assume "x \<in> set (f sl')"
    then have "x \<notin> set (us @ i # vs)" using tw_chains_disjoint [OF ch that(1) sl] that(2) fsl by metis
    then have "x \<noteq> i \<and> opt_last us \<noteq> Some x \<and> opt_hd vs \<noteq> Some x" by (auto dest: opt_last_in opt_hd_in)
    then show "tn_prev (tw_nodes (tw_unlink w i) ! x) = tn_prev (tw_nodes w ! x) \<and>
        tn_next (tw_nodes (tw_unlink w i) ! x) = tn_next (tw_nodes w ! x)" by (simp add: nth)
  qed (simp add: unlink_fields)
  show "links (tw_nodes (tw_unlink w i)) ((f(sl := us @ vs)) sl')" if "sl' < tw_wheel_size w"
    using this_chain other [OF that] by simp
  show "tw_heads (tw_unlink w i) ! sl' = opt_hd ((f(sl := us @ vs)) sl')" if "sl' < tw_wheel_size w"
    using tw_chainsD(1) [OF ch that] L(2,3) slot len that fsl
    by (auto simp: unlink_fields nth_list_update opt_last_def opt_hd_append)
qed

lemma cancel_armed:
  assumes inv: "tw_inv w" and i: "tw_timers w i \<noteq> None"
  shows "\<exists>w1 w'. free_node (tw_unlink w i) i = Some w1 \<and> w' = w1\<lparr>tw_active := tw_active w1 - 1\<rparr> \<and>
    tw_inv w' \<and> tw_timers w' = (tw_timers w)(i := None) \<and>
    (\<forall>j. tn_gen (tw_nodes w' ! j) = tn_gen (tw_nodes w ! j) \<longleftrightarrow> j \<noteq> i) \<and>
    tw_wheel_size w' = tw_wheel_size w \<and> tw_max_timers w' = tw_max_timers w"
proof -
  obtain f where sh: "tw_shape w" and nw: "\<not> tw_in_walk w" and ac: "unat (tw_active w) = card (ifs_allocated (tw_free w))"
    and ch: "tw_chains f {} w" and cur: "f (cur_slot w) = []"
    using inv unfolding tw_inv_def by blast
  have al: "i \<in> ifs_allocated (tw_free w)" using timers_alloc [OF inv, of i] i by simp
  obtain sl where sl: "sl < tw_wheel_size w" "i \<in> set (f sl)" by (rule tw_chains_slot [OF ch al]) simp
  obtain us vs where fsl: "f sl = us @ i # vs" using sl(2) by (meson split_list)
  note U = unlink_chains [OF sh ch sl(1) fsl]
  have same: "tn_gen (tw_nodes (tw_unlink w i) ! x) = tn_gen (tw_nodes w ! x)"
    "tn_cb (tw_nodes (tw_unlink w i) ! x) = tn_cb (tw_nodes w ! x)"
    "tn_ctx (tw_nodes (tw_unlink w i) ! x) = tn_ctx (tw_nodes w ! x)"
    "tn_slot (tw_nodes (tw_unlink w i) ! x) = tn_slot (tw_nodes w ! x)" for x
    by (simp_all add: U(1))
  have sh1: "tw_shape (tw_unlink w i)" using sh unfolding tw_shape_def by (simp add: unlink_fields same)
  obtain fl where fl: "free_node (tw_unlink w i) i = Some (set_node i freed_node (tw_unlink w i)\<lparr>tw_free := fl\<rparr>)"
    "ifs_inv fl" "ifs_capacity fl = tw_max_timers w" "ifs_allocated fl = ifs_allocated (tw_free w) - {i}"
    "tw_shape (set_node i freed_node (tw_unlink w i)\<lparr>tw_free := fl\<rparr>)"
    using free_node_spec [OF sh1, of i] al by (auto simp: unlink_fields)
  let ?w1 = "set_node i freed_node (tw_unlink w i)\<lparr>tw_free := fl\<rparr>"
  define w2 where "w2 = ?w1\<lparr>tw_active := tw_active ?w1 - 1\<rparr>"
  have il: "i < length (tw_nodes (tw_unlink w i))" using linksD(1) tw_chainsD(2) [OF ch sl(1)] fsl
    by (metis unlink_fields(9))
  have nth: "tw_nodes w2 ! x = (if x = i then freed_node (tw_nodes (tw_unlink w i) ! i) else tw_nodes (tw_unlink w i) ! x)" for x
    using il by (simp add: w2_def set_node_nth)
  have fields: "tw_heads w2 = tw_heads (tw_unlink w i)" "tw_wheel_size w2 = tw_wheel_size w" "tw_max_timers w2 = tw_max_timers w"
    "tw_free w2 = fl" "tw_in_walk w2 = tw_in_walk w" "tw_current_tick w2 = tw_current_tick w"
    "tw_active w2 = tw_active w - 1" "cur_slot w2 = cur_slot w" "length (tw_nodes w2) = length (tw_nodes (tw_unlink w i))"
    by (simp_all add: w2_def unlink_fields cur_slot_def)
  have sh2: "tw_shape w2" using fl(5) by (simp add: w2_def tw_shape_def)
  have d: "distinct (us @ i # vs)" using tw_chainsD(3) [OF ch sl(1)] fsl by simp
  have nin: "i \<notin> set ((f(sl := us @ vs)) sl')" if "sl' < tw_wheel_size w" for sl'
    using d tw_chains_disjoint [OF ch that sl(1) _ sl(2)] by (cases "sl' = sl") auto
  have sub: "set ((f(sl := us @ vs)) sl') \<subseteq> set (f sl')" for sl' using fsl by auto
  have ch2: "tw_chains (f(sl := us @ vs)) {} w2"
    unfolding tw_chains_def fields
  proof (intro conjI allI impI ballI)
    fix sl' assume sl': "sl' < tw_wheel_size w"
    show "tw_heads (tw_unlink w i) ! sl' = opt_hd ((f(sl := us @ vs)) sl')" by (rule U(3) [OF sl'])
    show "links (tw_nodes w2) ((f(sl := us @ vs)) sl')"
      by (rule links_cong [OF U(2) [OF sl'] fields(9)]) (use nin [OF sl'] in \<open>simp add: nth del: fun_upd_apply\<close>)
    show "distinct ((f(sl := us @ vs)) sl')" using tw_chainsD(3) [OF ch sl'] d by simp
    fix j assume "j \<in> set ((f(sl := us @ vs)) sl')"
    then have "j \<noteq> i" "j \<in> set (f sl')" using nin [OF sl'] sub by auto
    then show "tn_slot (tw_nodes w2 ! j) = sl'" "tn_cb (tw_nodes w2 ! j) \<noteq> None"
      using tw_chainsD(4) [OF ch sl', of j] by (simp_all only: nth if_False same) simp_all
    show "j \<notin> {}" by simp
  next
    show "ifs_allocated fl = (\<Union>sl'<tw_wheel_size w. set ((f(sl := us @ vs)) sl')) \<union> {}"
    proof -
      have "ifs_allocated (tw_free w) = (\<Union>sl'<tw_wheel_size w. set (f sl'))" using ch unfolding tw_chains_def by simp
      moreover have "set (f sl') - {i} = set ((f(sl := us @ vs)) sl')" if "sl' < tw_wheel_size w" for sl'
        using nin [OF that] sub fsl by (cases "sl' = sl") auto
      ultimately show ?thesis unfolding fl(4) by (simp add: UN_extend_simps(6) del: fun_upd_apply)
    qed
  next
    fix j assume "j < tw_max_timers w" "j \<notin> ifs_allocated fl"
    then show "tn_cb (tw_nodes w2 ! j) = None"
      using ch unfolding fl(4) tw_chains_def nth by (cases "j = i") (simp_all add: same)
  qed
  have "card (ifs_allocated fl) = card (ifs_allocated (tw_free w)) - 1" "0 < card (ifs_allocated (tw_free w))"
    using fl(4) al alloc_finite card_gt_0_iff by (simp, blast)
  then have "unat (tw_active w2) = card (ifs_allocated (tw_free w2))"
    using ac fields by (simp add: unat_sub word_le_nat_alt)
  moreover have "(f(sl := us @ vs)) (cur_slot w2) = []" using cur fields(8) fsl by auto
  ultimately have inv2: "tw_inv w2" unfolding tw_inv_def using sh2 ch2 fields nw by blast
  have "tw_timers w2 = (tw_timers w)(i := None)"
  proof
    fix x
    have t: "ticks_left w2 s = ticks_left w s" for s by (simp add: ticks_left_def fields)
    show "tw_timers w2 x = ((tw_timers w)(i := None)) x"
      by (cases "x = i") (simp_all add: tw_timers_def fields nth t same)
  qed
  moreover have "tn_gen (tw_nodes w2 ! j) = tn_gen (tw_nodes w ! j) \<longleftrightarrow> j \<noteq> i" for j
    using freed_gen [of "tw_nodes (tw_unlink w i) ! i"] by (simp add: nth same)
  ultimately show ?thesis using fl(1) inv2 fields w2_def by blast
qed

lemma cancel_spec:
  assumes inv: "tw_inv w"
  obtains (hit) i w' where "tw_timers w i \<noteq> None" "h = tw_handle w i" "tw_cancel w h = Some (True, w')" "tw_inv w'"
      "tw_timers w' = (tw_timers w)(i := None)" "\<forall>j. tn_gen (tw_nodes w' ! j) = tn_gen (tw_nodes w ! j) \<longleftrightarrow> j \<noteq> i"
      "tw_wheel_size w' = tw_wheel_size w" "tw_max_timers w' = tw_max_timers w"
  | (miss) "\<forall>i. tw_timers w i \<noteq> None \<longrightarrow> h \<noteq> tw_handle w i" "tw_cancel w h = Some (False, w)"
proof (cases "\<exists>i. tw_timers w i \<noteq> None \<and> h = tw_handle w i")
  case True
  then obtain i where i: "tw_timers w i \<noteq> None" "h = tw_handle w i" by blast
  have sh: "tw_shape w" "\<not> tw_in_walk w" using inv by (simp_all add: tw_inv_def)
  have b: "i < tw_max_timers w" "tn_cb (tw_nodes w ! i) \<noteq> None"
    using i(1) by (auto simp: tw_timers_def split: if_splits)
  then have "i < 2 ^ 32" "tn_gen (tw_nodes w ! i) \<noteq> 0" using sh(1) by (auto simp: tw_shape_def)
  then have h: "unpack_handle h = (i, tn_gen (tw_nodes w ! i))" "h \<noteq> kInvalidHandle"
    using i(2) unpack_pack pack_handle_valid by (simp_all add: tw_handle_def)
  obtain w1 where "free_node (tw_unlink w i) i = Some w1"
    "tw_inv (w1\<lparr>tw_active := tw_active w1 - 1\<rparr>)" "tw_timers (w1\<lparr>tw_active := tw_active w1 - 1\<rparr>) = (tw_timers w)(i := None)"
    "\<forall>j. tn_gen (tw_nodes (w1\<lparr>tw_active := tw_active w1 - 1\<rparr>) ! j) = tn_gen (tw_nodes w ! j) \<longleftrightarrow> j \<noteq> i"
    "tw_wheel_size (w1\<lparr>tw_active := tw_active w1 - 1\<rparr>) = tw_wheel_size w"
    "tw_max_timers (w1\<lparr>tw_active := tw_active w1 - 1\<rparr>) = tw_max_timers w"
    using cancel_armed [OF inv i(1)] by blast
  moreover from this(1) have "tw_cancel w h = Some (True, w1\<lparr>tw_active := tw_active w1 - 1\<rparr>)"
    using h b sh(2) by (simp add: tw_cancel_def is_armed_def)
  ultimately show thesis using hit i by blast
next
  case False
  have "tw_cancel w h = Some (False, w)"
  proof (rule ccontr)
    assume c: "tw_cancel w h \<noteq> Some (False, w)"
    obtain i g where ig: "unpack_handle h = (i, g)" by fastforce
    from c ig have b: "i < tw_max_timers w" "tn_gen (tw_nodes w ! i) = g" "tn_cb (tw_nodes w ! i) \<noteq> None"
      by (auto simp: tw_cancel_def is_armed_def split: if_splits)
    then have "h = tw_handle w i" using pack_unpack [of h] ig by (simp add: tw_handle_def)
    moreover have "tw_timers w i \<noteq> None" using b by (simp add: tw_timers_def)
    ultimately show False using False by blast
  qed
  then show thesis using miss False by blast
qed

section \<open>The walks\<close>

definition same_frame :: "('c, 'x) TimingWheel \<Rightarrow> ('c, 'x) TimingWheel \<Rightarrow> bool" where
  "same_frame w w' \<longleftrightarrow> tw_heads w' = tw_heads w \<and> tw_wheel_size w' = tw_wheel_size w \<and> tw_mask w' = tw_mask w \<and>
     tw_max_timers w' = tw_max_timers w \<and> tw_current_tick w' = tw_current_tick w \<and> tw_active w' = tw_active w \<and>
     tw_in_walk w' = tw_in_walk w"

text \<open>Freeing a node that no chain holds.\<close>

lemma detached_free:
  assumes sh: "tw_shape w" and ch: "tw_chains f X (w\<lparr>tw_heads := hs\<rparr>)" and i: "i \<in> X"
    and g: "\<And>n. tn_gen (g n) = tn_gen n"
  shows "\<exists>w2. free_node (set_node i g w) i = Some w2 \<and> tw_shape w2 \<and> tw_chains f (X - {i}) (w2\<lparr>tw_heads := hs\<rparr>) \<and>
    (\<forall>j. j \<noteq> i \<longrightarrow> tw_nodes w2 ! j = tw_nodes w ! j) \<and> length (tw_nodes w2) = length (tw_nodes w) \<and> same_frame w w2"
proof -
  have al: "i \<in> ifs_allocated (tw_free w)" using ch i unfolding tw_chains_def by simp
  then have il: "i < length (tw_nodes w)" using sh by (simp add: tw_shape_def ifs_allocated_def)
  have sh1: "tw_shape (set_node i g w)" using sh il by (simp add: tw_shape_def set_node_nth g)
  obtain fl where fl: "free_node (set_node i g w) i = Some (set_node i freed_node (set_node i g w)\<lparr>tw_free := fl\<rparr>)"
    "ifs_allocated fl = ifs_allocated (tw_free w) - {i}"
    "tw_shape (set_node i freed_node (set_node i g w)\<lparr>tw_free := fl\<rparr>)"
    using free_node_spec [OF sh1, of i] al by auto
  define w2 where "w2 = set_node i freed_node (set_node i g w)\<lparr>tw_free := fl\<rparr>"
  have nth: "tw_nodes w2 ! j = (if j = i then freed_node (g (tw_nodes w ! i)) else tw_nodes w ! j)" for j
    using il by (simp add: w2_def set_node_nth)
  have fields: "length (tw_nodes w2) = length (tw_nodes w)" "tw_wheel_size w2 = tw_wheel_size w"
    "tw_max_timers w2 = tw_max_timers w" "tw_free w2 = fl"
    by (simp_all add: w2_def)
  have nin: "i \<notin> set (f sl)" if "sl < tw_wheel_size w" for sl
    using tw_chainsD(4) [OF ch] that i by auto
  have "tw_chains f (X - {i}) (w2\<lparr>tw_heads := hs\<rparr>)"
    unfolding tw_chains_def
  proof (intro conjI allI impI ballI)
    fix sl assume "sl < tw_wheel_size (w2\<lparr>tw_heads := hs\<rparr>)"
    then have sl: "sl < tw_wheel_size w" by (simp add: fields)
    note D = tw_chainsD [OF ch, of sl, simplified, OF sl]
    show "tw_heads (w2\<lparr>tw_heads := hs\<rparr>) ! sl = opt_hd (f sl)" "distinct (f sl)" using D by simp_all
    show "links (tw_nodes (w2\<lparr>tw_heads := hs\<rparr>)) (f sl)"
      using nin [OF sl] fields by (intro links_cong [OF D(2)]) (auto simp: nth)
    fix j assume "j \<in> set (f sl)"
    then show "tn_slot (tw_nodes (w2\<lparr>tw_heads := hs\<rparr>) ! j) = sl" "tn_cb (tw_nodes (w2\<lparr>tw_heads := hs\<rparr>) ! j) \<noteq> None" "j \<notin> X - {i}"
      using D(4) [of j] nin [OF sl] by (auto simp: nth)
  next
    have "ifs_allocated (tw_free w) = (\<Union>sl<tw_wheel_size w. set (f sl)) \<union> X" using ch unfolding tw_chains_def by simp
    then show "ifs_allocated (tw_free (w2\<lparr>tw_heads := hs\<rparr>)) =
        (\<Union>sl<tw_wheel_size (w2\<lparr>tw_heads := hs\<rparr>). set (f sl)) \<union> (X - {i})"
      using nin by (auto simp: fields fl(2))
  next
    fix j assume "j < tw_max_timers (w2\<lparr>tw_heads := hs\<rparr>)" "j \<notin> ifs_allocated (tw_free (w2\<lparr>tw_heads := hs\<rparr>))"
    then show "tn_cb (tw_nodes (w2\<lparr>tw_heads := hs\<rparr>) ! j) = None"
      using ch unfolding tw_chains_def by (cases "j = i") (simp_all add: fields fl(2) nth)
  qed
  moreover have "same_frame w w2" by (simp add: same_frame_def w2_def)
  moreover have "free_node (set_node i g w) i = Some w2" "tw_shape w2" using fl(1,3) by (simp_all add: w2_def)
  moreover have "\<forall>j. j \<noteq> i \<longrightarrow> tw_nodes w2 ! j = tw_nodes w ! j" by (simp add: nth)
  ultimately show ?thesis using fields(1) by blast
qed

text \<open>A callback that leaves the wheel alone; it may abort.\<close>

definition passive_call ::
  "('c \<Rightarrow> 'x option \<Rightarrow> ('c, 'x) TimingWheel \<times> 's \<Rightarrow> (('c, 'x) TimingWheel \<times> 's) outcome) \<Rightarrow>
   ('c \<Rightarrow> 'x option \<Rightarrow> 's \<Rightarrow> 's outcome) \<Rightarrow> bool" where
  "passive_call call run \<longleftrightarrow> (\<forall>cb ctx w s. call cb ctx (w, s) = map_option (Pair w) (run cb ctx s))"

definition run_node ::
  "('c \<Rightarrow> 'x option \<Rightarrow> 's \<Rightarrow> 's outcome) \<Rightarrow> ('c, 'x) TimerNode \<Rightarrow> 's \<Rightarrow> 's outcome" where
  "run_node run n = (case tn_cb n of Some cb \<Rightarrow> run cb (tn_ctx n) | None \<Rightarrow> Some)"

text \<open>Running one action after the other.\<close>

primrec run_all :: "('i \<Rightarrow> 's \<Rightarrow> 's outcome) \<Rightarrow> 'i list \<Rightarrow> 's \<Rightarrow> 's outcome" where
  "run_all g [] s = Some s"
| "run_all g (x # xs) s = g x s \<bind> run_all g xs"

lemma run_all_append: "run_all g (xs @ ys) s = run_all g xs s \<bind> run_all g ys"
  by (induction xs arbitrary: s) (auto split: Option.bind_splits)

lemma run_all_cong:
  "xs = ys \<Longrightarrow> (\<And>x. x \<in> set ys \<Longrightarrow> g x = h x) \<Longrightarrow> run_all g xs s = run_all h ys s"
  by (induction ys arbitrary: s xs) (auto split: Option.bind_splits)

lemma tick_walk_passive:
  assumes call: "passive_call call run"
  shows "tw_shape w \<Longrightarrow> tw_chains f (set xs) w \<Longrightarrow> distinct xs \<Longrightarrow> nexts (tw_nodes w) xs \<Longrightarrow>
    (\<forall>x \<in> set xs. tn_cb (tw_nodes w ! x) \<noteq> None) \<Longrightarrow>
    \<exists>w'. (\<forall>n s. tick_walk call (opt_hd xs) n (w, s) =
        map_option (\<lambda>s'. (n + length xs, w', s')) (run_all (\<lambda>x. run_node run (tw_nodes w ! x)) xs s)) \<and>
      tw_shape w' \<and> tw_chains f {} w' \<and> same_frame w w' \<and> (\<forall>j. j \<notin> set xs \<longrightarrow> tw_nodes w' ! j = tw_nodes w ! j)"
proof (induction xs arbitrary: w)
  case Nil
  then show ?case by (intro exI [of _ w]) (simp add: same_frame_def tick_walk.simps)
next
  case (Cons x xs)
  let ?g = "\<lambda>n. n\<lparr>tn_prev := None, tn_next := None, tn_cb := None, tn_ctx := None\<rparr>"
  obtain cb where cb: "tn_cb (tw_nodes w ! x) = Some cb" using Cons.prems(5) by auto
  have x: "x < length (tw_nodes w)" using Cons.prems(4) by simp
  have ch: "tw_chains f (set (x # xs)) (w\<lparr>tw_heads := tw_heads w\<rparr>)" using Cons.prems(2) by simp
  obtain w2 where w2: "free_node (set_node x ?g w) x = Some w2" "tw_shape w2"
    "tw_chains f (set (x # xs) - {x}) (w2\<lparr>tw_heads := tw_heads w\<rparr>)" "\<forall>j. j \<noteq> x \<longrightarrow> tw_nodes w2 ! j = tw_nodes w ! j"
    "length (tw_nodes w2) = length (tw_nodes w)" "same_frame w w2"
    using detached_free [OF Cons.prems(1) ch, of x ?g] by auto
  have w2h: "w2\<lparr>tw_heads := tw_heads w\<rparr> = w2" using w2(6) by (simp add: same_frame_def)
  have d: "set (x # xs) - {x} = set xs" "x \<notin> set xs" using Cons.prems(3) by auto
  have ns: "\<forall>y \<in> set xs. tw_nodes w2 ! y = tw_nodes w ! y" using w2(4) d(2) by auto
  then have "nexts (tw_nodes w2) xs" using Cons.prems(4) w2(5) by (auto intro: nexts_cong)
  moreover have "\<forall>y \<in> set xs. tn_cb (tw_nodes w2 ! y) \<noteq> None" using Cons.prems(5) ns by simp
  ultimately obtain w' where w': "\<forall>n s. tick_walk call (opt_hd xs) n (w2, s) =
        map_option (\<lambda>s'. (n + length xs, w', s')) (run_all (\<lambda>y. run_node run (tw_nodes w2 ! y)) xs s)"
      "tw_shape w'" "tw_chains f {} w'" "same_frame w2 w'" "\<forall>j. j \<notin> set xs \<longrightarrow> tw_nodes w' ! j = tw_nodes w2 ! j"
    using Cons.IH [OF w2(2) w2(3) [unfolded w2h d(1)]] Cons.prems(3) by fastforce
  have same: "run_all (\<lambda>y. run_node run (tw_nodes w2 ! y)) xs t = run_all (\<lambda>y. run_node run (tw_nodes w ! y)) xs t" for t
    using ns by (intro run_all_cong) auto
  have "tick_walk call (opt_hd (x # xs)) n (w, s) = map_option (\<lambda>s'. (n + length (x # xs), w', s'))
      (run_all (\<lambda>x. run_node run (tw_nodes w ! x)) (x # xs) s)" for n s
  proof (cases "run cb (tn_ctx (tw_nodes w ! x)) s")
    case None
    then show ?thesis using cb call by (subst tick_walk.simps) (simp add: passive_call_def Let_def run_node_def)
  next
    case (Some s1)
    then have "tick_walk call (opt_hd (x # xs)) n (w, s) = tick_walk call (opt_hd xs) (Suc n) (w2, s1)"
      using cb call Cons.prems(4) x w2(1)
      by (subst tick_walk.simps) (simp add: passive_call_def set_node_nth Let_def)
    then show ?thesis using w'(1) same Some cb by (simp add: run_node_def)
  qed
  then show ?case using w' w2(4,6) by (intro exI [of _ w']) (auto simp: same_frame_def)
qed

end
