(* ===== verification/StrategyCtx.thy ===== *)
theory StrategyCtx
  imports HashMap TimingWheel Protocol
begin

text \<open>
  \<^verbatim>\<open>apps/tick_to_trade/order_types.hpp\<close> and \<^verbatim>\<open>strategy_ctx.hpp\<close>: the types of the order
  management state and the layout of the one buffer that holds it. Pointers are byte
  addresses. The sizes and alignments of the element types are those of x86-64.
\<close>

section \<open>Order types\<close>

record OrderInfo =
  oi_side :: Side
  oi_price :: Price
  oi_qty :: Qty
  oi_symbol_id :: u32
  oi_send_ts :: i64
  oi_timer_handle :: u64

record ActiveOrder =
  ao_client_order_id :: u64
  ao_price :: Price
  ao_qty :: Qty
  ao_resting :: bool

type_synonym OutstandingMap = "(u64, OrderInfo) HashMap"

definition order_ctx_map_capacity :: "u32 \<Rightarrow> nat outcome" where
  "order_ctx_map_capacity max_outstanding = hm_round_up_capacity (unat max_outstanding * 4)"

definition sizeof_ActiveOrder :: nat where "sizeof_ActiveOrder = 24"
definition alignof_ActiveOrder :: nat where "alignof_ActiveOrder = 8"
definition sizeof_CancelOrder :: nat where "sizeof_CancelOrder = 24"
definition alignof_CancelOrder :: nat where "alignof_CancelOrder = 8"
definition sizeof_map_slot :: nat where "sizeof_map_slot = 56"
definition alignof_map_slot :: nat where "alignof_map_slot = 8"
definition alignof_max_align :: nat where "alignof_max_align = 16"
definition kCacheLineSize :: nat where "kCacheLineSize = 64"
definition kSideCount :: nat where "kSideCount = 2"

section \<open>Layout\<close>

record StrategyCtx =
  sc_tcp_rx :: nat
  sc_tcp_rx_size :: nat
  sc_tcp_tx :: nat
  sc_tcp_tx_size :: nat
  sc_scratch :: nat
  sc_scratch_size :: nat
  sc_net_position :: nat
  sc_outstanding_per_symbol :: nat
  sc_active_orders :: nat
  sc_map_buf :: nat
  sc_map_buf_size :: nat
  sc_map_capacity :: nat
  sc_cancel_buf :: nat
  sc_timeout_wheel_buf :: nat
  sc_timeout_wheel_buf_size :: nat
  sc_timeout_wheel_size :: nat
  sc_timeout_max_timers :: nat
  sc_timeout_ids :: nat
  sc_max_symbols :: u32
  sc_max_outstanding :: u32
  sc_max_outstanding_per_symbol :: u32

text \<open>\<^verbatim>\<open>sys::align_up\<close> on \<^verbatim>\<open>std::size_t\<close> offsets.\<close>

definition up :: "nat \<Rightarrow> nat \<Rightarrow> nat" where
  "up x a = unat (align_up (of_nat x) (of_nat a))"

definition strategy_ctx_buf_size :: "u32 \<Rightarrow> nat \<Rightarrow> nat \<Rightarrow> nat \<Rightarrow> u32 \<Rightarrow> nat \<Rightarrow> nat \<Rightarrow> nat outcome" where
  "strategy_ctx_buf_size kMaxSymbols tcp_rx_size tcp_tx_size scratch_size max_outstanding
      timeout_wheel_size timeout_max_timers = do {
     let offset = up tcp_rx_size kCacheLineSize + up tcp_tx_size kCacheLineSize + scratch_size;
     let offset = up offset alignof_max_align;
     let offset = offset + unat kMaxSymbols * 8;
     let offset = up offset 4;
     let offset = offset + unat kMaxSymbols * 4;
     let offset = up offset alignof_ActiveOrder;
     let offset = offset + unat kMaxSymbols * kSideCount * sizeof_ActiveOrder;
     let offset = up offset alignof_CancelOrder;
     let offset = offset + unat max_outstanding * sizeof_CancelOrder;
     map_cap \<leftarrow> order_ctx_map_capacity max_outstanding;
     let offset = up offset alignof_map_slot;
     let offset = offset + hm_required_buffer_size sizeof_map_slot map_cap;
     let offset = up offset 8;
     let offset = offset + unat max_outstanding * 8;
     let offset = up offset alignof_max_align;
     let offset = offset + tw_required_buffer_size timeout_wheel_size timeout_max_timers;
     Some offset
   }"

definition make_strategy_ctx ::
  "u32 \<Rightarrow> nat \<Rightarrow> nat \<Rightarrow> nat \<Rightarrow> nat \<Rightarrow> u32 \<Rightarrow> u32 \<Rightarrow> nat \<Rightarrow> nat \<Rightarrow> StrategyCtx outcome" where
  "make_strategy_ctx kMaxSymbols base tcp_rx_size tcp_tx_size scratch_size max_outstanding
      max_outstanding_per_symbol timeout_wheel_size timeout_max_timers = do {
     let offset = 0;
     let tcp_rx = base + offset;
     let offset = up (offset + tcp_rx_size) kCacheLineSize;
     let tcp_tx = base + offset;
     let offset = up (offset + tcp_tx_size) kCacheLineSize;
     let scratch = base + offset;
     let offset = offset + scratch_size;
     let offset = up offset alignof_max_align;
     let net_pos = base + offset;
     let offset = offset + unat kMaxSymbols * 8;
     let offset = up offset 4;
     let os_per_sym = base + offset;
     let offset = offset + unat kMaxSymbols * 4;
     let offset = up offset alignof_ActiveOrder;
     let active = base + offset;
     let active_bytes = unat kMaxSymbols * kSideCount * sizeof_ActiveOrder;
     let offset = offset + active_bytes;
     let offset = up offset alignof_CancelOrder;
     let cancel = base + offset;
     let offset = offset + unat max_outstanding * sizeof_CancelOrder;
     map_cap \<leftarrow> order_ctx_map_capacity max_outstanding;
     let offset = up offset alignof_map_slot;
     let slots = base + offset;
     let map_size = hm_required_buffer_size sizeof_map_slot map_cap;
     let offset = offset + map_size;
     let offset = up offset 8;
     let tids = base + offset;
     let offset = offset + unat max_outstanding * 8;
     let offset = up offset alignof_max_align;
     let wheel_buf = base + offset;
     let wheel_buf_size = tw_required_buffer_size timeout_wheel_size timeout_max_timers;
     Some \<lparr>sc_tcp_rx = tcp_rx, sc_tcp_rx_size = tcp_rx_size, sc_tcp_tx = tcp_tx, sc_tcp_tx_size = tcp_tx_size,
       sc_scratch = scratch, sc_scratch_size = scratch_size, sc_net_position = net_pos,
       sc_outstanding_per_symbol = os_per_sym, sc_active_orders = active, sc_map_buf = slots,
       sc_map_buf_size = map_size, sc_map_capacity = map_cap, sc_cancel_buf = cancel,
       sc_timeout_wheel_buf = wheel_buf, sc_timeout_wheel_buf_size = wheel_buf_size,
       sc_timeout_wheel_size = timeout_wheel_size, sc_timeout_max_timers = timeout_max_timers,
       sc_timeout_ids = tids, sc_max_symbols = kMaxSymbols, sc_max_outstanding = max_outstanding,
       sc_max_outstanding_per_symbol = max_outstanding_per_symbol\<rparr>
   }"

end
