(* ===== verification/TimingWheelProps.thy ===== *)
theory TimingWheelProps
  imports TimingWheel
begin

text \<open>
  What the timing wheel promises: the armed timers form a map from node indices to remaining
  ticks, which scheduling extends, cancelling and firing shrink and a tick counts down.
\<close>

lemma tw_invI:
  "tw_shape w \<Longrightarrow> \<not> tw_in_walk w \<Longrightarrow> unat (tw_active w) = card (ifs_allocated (tw_free w)) \<Longrightarrow>
   tw_chains f {} w \<Longrightarrow> f (cur_slot w) = [] \<Longrightarrow> tw_inv w"
  unfolding tw_inv_def by blast

section \<open>One tick\<close>

lemma ticks_left_zero:
  assumes "sl < tw_wheel_size w"
  shows "ticks_left w sl = 0 \<longleftrightarrow> sl = cur_slot w"
proof -
  have "cur_slot w < tw_wheel_size w" using assms by (simp add: cur_slot_def)
  then show ?thesis using assms
    by (cases "sl < cur_slot w") (auto simp: ticks_left_def mod_if)
qed

lemma ticks_left_step:
  assumes n: "2 \<le> tw_wheel_size w" and w': "tw_wheel_size w' = tw_wheel_size w"
    "cur_slot w' = (cur_slot w + 1) mod tw_wheel_size w"
    and sl: "sl < tw_wheel_size w" "sl \<noteq> cur_slot w"
  shows "ticks_left w sl = Suc (ticks_left w' sl)"
proof -
  have c: "cur_slot w < tw_wheel_size w" using n by (simp add: cur_slot_def)
  show ?thesis
  proof (cases "cur_slot w + 1 = tw_wheel_size w")
    case True
    then have "cur_slot w' = 0" using w'(2) by simp
    then show ?thesis using sl c True by (auto simp: ticks_left_def w'(1) mod_if)
  next
    case False
    then have c': "cur_slot w' = cur_slot w + 1" using w'(2) c by simp
    show ?thesis using sl c c' by (cases "sl < cur_slot w") (auto simp: ticks_left_def w'(1) mod_if)
  qed
qed

text \<open>The reference semantics of a tick.\<close>

definition timers_tick ::
  "(nat \<Rightarrow> (nat \<times> 'c \<times> 'x option) option) \<Rightarrow> nat \<Rightarrow> (nat \<times> 'c \<times> 'x option) option" where
  "timers_tick T i = (case T i of Some (Suc n, cb, ctx) \<Rightarrow> if n = 0 then None else Some (n, cb, ctx) | _ \<Rightarrow> None)"

definition run_timer ::
  "('c \<Rightarrow> 'x option \<Rightarrow> 's \<Rightarrow> 's outcome) \<Rightarrow> (nat \<times> 'c \<times> 'x option) option \<Rightarrow> 's \<Rightarrow> 's outcome" where
  "run_timer run t = (case t of Some (_, cb, ctx) \<Rightarrow> run cb ctx | None \<Rightarrow> Some)"

lemma detach_chains:
  assumes ch: "tw_chains f {} w" and sl: "sl < tw_wheel_size w" and len: "length (tw_heads w) = tw_wheel_size w"
    and w1: "w1 = w\<lparr>tw_heads := (tw_heads w)[sl := None]\<rparr>"
  shows "tw_chains (f(sl := [])) (set (f sl)) w1"
  unfolding tw_chains_def
proof (intro conjI allI impI ballI)
  fix sl' assume "sl' < tw_wheel_size w1"
  then have sl': "sl' < tw_wheel_size w" by (simp add: w1)
  note D = tw_chainsD [OF ch sl']
  show "tw_heads w1 ! sl' = opt_hd ((f(sl := [])) sl')" "links (tw_nodes w1) ((f(sl := [])) sl')"
    "distinct ((f(sl := [])) sl')"
    using D sl len by (simp_all add: w1 nth_list_update)
  fix j assume "j \<in> set ((f(sl := [])) sl')"
  then have "j \<in> set (f sl')" "sl' \<noteq> sl" by (auto split: if_splits)
  then show "tn_slot (tw_nodes w1 ! j) = sl'" "tn_cb (tw_nodes w1 ! j) \<noteq> None" "j \<notin> set (f sl)"
    using D(4) [of j] tw_chains_disjoint [OF ch sl' sl, of j] by (auto simp: w1)
next
  have "ifs_allocated (tw_free w) = (\<Union>sl<tw_wheel_size w. set (f sl))" using ch unfolding tw_chains_def by simp
  then show "ifs_allocated (tw_free w1) = (\<Union>sl'<tw_wheel_size w1. set ((f(sl := [])) sl')) \<union> set (f sl)"
    using sl by (auto simp: w1 split: if_splits)
next
  fix j assume "j < tw_max_timers w1" "j \<notin> ifs_allocated (tw_free w1)"
  then show "tn_cb (tw_nodes w1 ! j) = None" using ch unfolding tw_chains_def by (simp add: w1)
qed

lemma tick_chains:
  assumes sh: "tw_shape w" and ch: "tw_chains f {} w" and call: "passive_call call run"
    and sl: "sl = (cur_slot w + 1) mod tw_wheel_size w" "sl < tw_wheel_size w"
  obtains w' where "\<And>s. tw_tick call (w, s) =
      map_option (\<lambda>s'. (length (f sl), w', s')) (run_all (\<lambda>x. run_node run (tw_nodes w ! x)) (f sl) s)"
    "tw_shape w'" "tw_chains (f(sl := [])) {} w'" "cur_slot w' = sl" "\<not> tw_in_walk w'"
    "tw_active w' = tw_active w - of_nat (length (f sl))" "tw_wheel_size w' = tw_wheel_size w"
    "tw_max_timers w' = tw_max_timers w" "\<And>j. j \<notin> set (f sl) \<Longrightarrow> tw_nodes w' ! j = tw_nodes w ! j"
proof -
  have len: "length (tw_heads w) = tw_wheel_size w" using sh by (simp add: tw_shape_def)
  define w0 where "w0 = w\<lparr>tw_current_tick := tw_current_tick w + 1, tw_in_walk := True\<rparr>"
  define w1 where "w1 = w0\<lparr>tw_heads := (tw_heads w0)[sl := None]\<rparr>"
  have slot: "unat ((tw_current_tick w + 1) AND of_nat (tw_mask w)) = sl"
    using slot_of_tick [OF sh] slot_after [OF sh, of 1] by (simp add: sl(1))
  have "tw_chains f {} w0" using ch unfolding tw_chains_def w0_def by simp
  then have ch1: "tw_chains (f(sl := [])) (set (f sl)) w1"
    by (rule detach_chains [OF _ _ _ w1_def]) (use sl len in \<open>simp_all add: w0_def\<close>)
  have sh1: "tw_shape w1" using sh by (simp add: tw_shape_def w1_def w0_def)
  note D = tw_chainsD [OF ch sl(2)]
  have nodes1: "tw_nodes w1 = tw_nodes w" by (simp add: w1_def w0_def)
  have nx: "nexts (tw_nodes w1) (f sl)" using links_nexts [of _ "[]"] D(2) nodes1 by simp
  have cbs: "\<forall>x \<in> set (f sl). tn_cb (tw_nodes w1 ! x) \<noteq> None" using D(4) nodes1 by auto
  obtain w2 where w2: "\<forall>n s. tick_walk call (opt_hd (f sl)) n (w1, s) =
        map_option (\<lambda>s'. (n + length (f sl), w2, s')) (run_all (\<lambda>x. run_node run (tw_nodes w1 ! x)) (f sl) s)"
      "tw_shape w2" "tw_chains (f(sl := [])) {} w2" "same_frame w1 w2"
      "\<forall>j. j \<notin> set (f sl) \<longrightarrow> tw_nodes w2 ! j = tw_nodes w1 ! j"
    using tick_walk_passive [OF call sh1 ch1 D(3) nx cbs] by blast
  define w' where "w' = w2\<lparr>tw_in_walk := False, tw_active := tw_active w2 - of_nat (length (f sl))\<rparr>"
  have "w1 = w\<lparr>tw_current_tick := tw_current_tick w + 1, tw_heads := (tw_heads w)[sl := None], tw_in_walk := True\<rparr>"
    by (simp add: w1_def w0_def)
  moreover have "tw_heads w ! sl = opt_hd (f sl)" by (rule D(1))
  ultimately have "tw_tick call (w, s) =
      map_option (\<lambda>s'. (length (f sl), w', s')) (run_all (\<lambda>x. run_node run (tw_nodes w ! x)) (f sl) s)" for s
    using w2(1) slot nodes1
    by (cases "run_all (\<lambda>x. run_node run (tw_nodes w ! x)) (f sl) s") (simp_all add: tw_tick_def Let_def w'_def)
  moreover have "cur_slot w' = sl"
    using slot_after [OF sh, of 1] w2(4) by (simp add: cur_slot_def sl(1) same_frame_def w'_def w1_def w0_def)
  moreover have "tw_chains (f(sl := [])) {} w'" using w2(3) unfolding tw_chains_def w'_def by simp
  moreover have "tw_shape w'" using w2(2) by (simp add: tw_shape_def w'_def)
  ultimately show thesis
    using that [of w'] w2(4,5) nodes1 by (simp add: same_frame_def w'_def w1_def w0_def)
qed

lemma chains_drop_alloc:
  assumes ch: "tw_chains f {} w" and ch': "tw_chains (f(sl := [])) {} w'" and sl: "sl < tw_wheel_size w"
    and ws: "tw_wheel_size w' = tw_wheel_size w"
  shows "ifs_allocated (tw_free w') = ifs_allocated (tw_free w) - set (f sl)"
    "card (ifs_allocated (tw_free w')) = card (ifs_allocated (tw_free w)) - length (f sl)"
    "length (f sl) \<le> card (ifs_allocated (tw_free w))"
proof -
  have a: "ifs_allocated (tw_free w) = (\<Union>sl<tw_wheel_size w. set (f sl))" using ch unfolding tw_chains_def by simp
  have "ifs_allocated (tw_free w') = (\<Union>sl'<tw_wheel_size w. set ((f(sl := [])) sl'))"
    using ch' unfolding tw_chains_def ws by simp
  also have "\<dots> = (\<Union>sl'<tw_wheel_size w. set (f sl') - set (f sl))"
    using tw_chains_disjoint [OF ch _ sl] by (intro SUP_cong) auto
  finally show e: "ifs_allocated (tw_free w') = ifs_allocated (tw_free w) - set (f sl)" using a by auto
  have sub: "set (f sl) \<subseteq> ifs_allocated (tw_free w)" using a sl by auto
  show "card (ifs_allocated (tw_free w')) = card (ifs_allocated (tw_free w)) - length (f sl)"
    "length (f sl) \<le> card (ifs_allocated (tw_free w))"
    using e distinct_card [OF tw_chainsD(3) [OF ch sl]] card_mono [OF alloc_finite sub] card_Diff_subset [OF _ sub]
    by simp_all
qed

lemma chain_timer:
  assumes "tw_inv w" "tw_chains f {} w" "sl < tw_wheel_size w" "x \<in> set (f sl)"
  shows "tw_timers w x = Some (ticks_left w sl, the (tn_cb (tw_nodes w ! x)), tn_ctx (tw_nodes w ! x))"
  using timers_alloc [OF assms(1), of x] tw_chainsD(4) [OF assms(2,3,4)] tw_chains_alloc [OF assms(2,3,4)]
  by (auto simp: tw_timers_def split: if_splits)

lemma tick_spec:
  assumes inv: "tw_inv w" and call: "passive_call call run"
  obtains xs w' where "\<And>s. tw_tick call (w, s) =
      map_option (\<lambda>s'. (length xs, w', s')) (run_all (\<lambda>i. run_timer run (tw_timers w i)) xs s)" "distinct xs" "set xs = {i. \<exists>cb ctx. tw_timers w i = Some (1, cb, ctx)}" "tw_inv w'"
    "tw_timers w' = timers_tick (tw_timers w)" "\<forall>j. j \<notin> set xs \<longrightarrow> tn_gen (tw_nodes w' ! j) = tn_gen (tw_nodes w ! j)"
    "tw_wheel_size w' = tw_wheel_size w" "tw_max_timers w' = tw_max_timers w"
proof -
  obtain f where sh: "tw_shape w" and ac: "unat (tw_active w) = card (ifs_allocated (tw_free w))"
    and ch: "tw_chains f {} w" and cur: "f (cur_slot w) = []"
    using inv unfolding tw_inv_def by blast
  have n: "2 \<le> tw_wheel_size w" using sh self_le_power [of "2::nat"] unfolding tw_shape_def by fastforce
  define sl where "sl = (cur_slot w + 1) mod tw_wheel_size w"
  have sl: "sl < tw_wheel_size w" using n by (simp add: sl_def)
  obtain w' where w': "\<And>s. tw_tick call (w, s) =
      map_option (\<lambda>s'. (length (f sl), w', s')) (run_all (\<lambda>x. run_node run (tw_nodes w ! x)) (f sl) s)"
    "tw_shape w'" "tw_chains (f(sl := [])) {} w'" "cur_slot w' = sl" "\<not> tw_in_walk w'"
    "tw_active w' = tw_active w - of_nat (length (f sl))" "tw_wheel_size w' = tw_wheel_size w"
    "tw_max_timers w' = tw_max_timers w" "\<And>j. j \<notin> set (f sl) \<Longrightarrow> tw_nodes w' ! j = tw_nodes w ! j"
    using tick_chains [OF sh ch call sl_def sl] by blast
  note A = chains_drop_alloc [OF ch w'(3) sl w'(7)]
  have "card (ifs_allocated (tw_free w)) < 2 ^ 32" using alloc_card [OF sh] sh by (simp add: tw_shape_def)
  then have "unat (tw_active w') = card (ifs_allocated (tw_free w'))"
    using ac A(2,3) by (simp add: w'(6) unat_sub word_le_nat_alt unat_of_nat_eq_small)
  then have inv': "tw_inv w'" unfolding tw_inv_def using w' by auto
  note T = chain_timer [OF inv ch]
  have step: "ticks_left w sl' = Suc (ticks_left w' sl')" if "sl' < tw_wheel_size w" "sl' \<noteq> cur_slot w" for sl'
    using ticks_left_step [OF n w'(7) _ that] w'(4) by (simp add: sl_def)
  have one: "ticks_left w sl' = 1 \<longleftrightarrow> sl' = sl" if "sl' < tw_wheel_size w" for sl'
    using step [OF that] ticks_left_zero [of sl' w'] ticks_left_zero [OF that] that w'(4,7) n
    by (cases "sl' = cur_slot w") (auto simp: sl_def mod_if split: if_splits)
  have chain: "\<exists>sl' < tw_wheel_size w. i \<in> set (f sl') \<and> sl' \<noteq> cur_slot w" if i: "i \<in> ifs_allocated (tw_free w)" for i
  proof -
    obtain sl' where sl': "sl' < tw_wheel_size w" "i \<in> set (f sl')" by (rule tw_chains_slot [OF ch i]) auto
    then have "sl' \<noteq> cur_slot w" using cur by (metis empty_iff empty_set)
    then show ?thesis using sl' by blast
  qed
  have fired: "set (f sl) = {i. \<exists>cb ctx. tw_timers w i = Some (1, cb, ctx)}"
  proof (intro set_eqI iffI)
    fix i assume i: "i \<in> {i. \<exists>cb ctx. tw_timers w i = Some (1, cb, ctx)}"
    then have "i \<in> ifs_allocated (tw_free w)" using timers_alloc [OF inv, of i] by auto
    then obtain sl' where "sl' < tw_wheel_size w" "i \<in> set (f sl')" using chain by blast
    then show "i \<in> set (f sl)" using T [of sl' i] i one [of sl'] by auto
  qed (use T [OF sl] one [OF sl] in simp)
  have "tw_timers w' i = timers_tick (tw_timers w) i" for i
  proof (cases "i \<in> ifs_allocated (tw_free w')")
    case True
    then have "i \<in> ifs_allocated (tw_free w)" "i \<notin> set (f sl)" using A(1) by auto
    then obtain sl' where sl': "sl' < tw_wheel_size w" "i \<in> set (f sl')" "sl' \<noteq> cur_slot w" "sl' \<noteq> sl" using chain by metis
    then have "tw_timers w' i = Some (ticks_left w' sl', the (tn_cb (tw_nodes w ! i)), tn_ctx (tw_nodes w ! i))"
      using chain_timer [OF inv' w'(3), of sl' i] w'(7,9) \<open>i \<notin> set (f sl)\<close> by simp
    then show ?thesis using T [OF sl'(1,2)] step [OF sl'(1,3)] one [OF sl'(1)] sl'(4) by (auto simp: timers_tick_def)
  next
    case False
    then have "tw_timers w i = None \<or> i \<in> set (f sl)" using A(1) timers_alloc [OF inv, of i] by auto
    then have "timers_tick (tw_timers w) i = None" using T [OF sl, of i] one [OF sl] by (auto simp: timers_tick_def)
    then show ?thesis using timers_alloc [OF inv', of i] False by simp
  qed
  moreover have "run_all (\<lambda>x. run_node run (tw_nodes w ! x)) (f sl) s = run_all (\<lambda>i. run_timer run (tw_timers w i)) (f sl) s" for s
    using T [OF sl] tw_chainsD(4) [OF ch sl] by (intro run_all_cong) (fastforce simp: run_node_def run_timer_def)+
  ultimately show thesis
    using that [of "f sl" w'] w' tw_chainsD(3) [OF ch sl] fired inv' by (simp add: ext)
qed

section \<open>Reset and construction\<close>

lemma reset_bucket_spec:
  "tw_shape w \<Longrightarrow> tw_chains f (set xs) (w\<lparr>tw_heads := hs\<rparr>) \<Longrightarrow> distinct xs \<Longrightarrow> nexts (tw_nodes w) xs \<Longrightarrow>
    \<exists>w'. reset_bucket (opt_hd xs) n w = Some (n + length xs, w') \<and> tw_shape w' \<and>
      tw_chains f {} (w'\<lparr>tw_heads := hs\<rparr>) \<and> same_frame w w'"
proof (induction xs arbitrary: w n)
  case Nil
  then show ?case by (subst reset_bucket.simps) (simp add: same_frame_def)
next
  case (Cons x xs)
  let ?g = "\<lambda>n. n\<lparr>tn_prev := None, tn_next := None\<rparr>"
  obtain w2 where w2: "free_node (set_node x ?g w) x = Some w2" "tw_shape w2"
    "tw_chains f (set (x # xs) - {x}) (w2\<lparr>tw_heads := hs\<rparr>)" "\<forall>j. j \<noteq> x \<longrightarrow> tw_nodes w2 ! j = tw_nodes w ! j"
    "length (tw_nodes w2) = length (tw_nodes w)" "same_frame w w2"
    using detached_free [OF Cons.prems(1,2), of x ?g] by auto
  have d: "set (x # xs) - {x} = set xs" "x \<notin> set xs" using Cons.prems(3) by auto
  have "nexts (tw_nodes w2) xs"
    by (rule nexts_cong [of "tw_nodes w"]) (use Cons.prems(4) w2(4,5) d(2) in auto)
  then obtain w' where "reset_bucket (opt_hd xs) (Suc n) w2 = Some (Suc n + length xs, w')" "tw_shape w'"
      "tw_chains f {} (w'\<lparr>tw_heads := hs\<rparr>)" "same_frame w2 w'"
    using Cons.IH [OF w2(2) w2(3) [unfolded d(1)]] Cons.prems(3) by fastforce
  moreover have "reset_bucket (opt_hd (x # xs)) n w = reset_bucket (opt_hd xs) (Suc n) w2"
    using Cons.prems(4) w2(1) by (subst reset_bucket.simps) (simp add: Let_def)
  ultimately show ?case using w2(6) by (auto simp: same_frame_def)
qed

lemma reset_buckets_spec:
  "tw_shape w \<Longrightarrow> tw_chains f {} w \<Longrightarrow> set slots \<subseteq> {..<tw_wheel_size w} \<Longrightarrow>
    \<exists>n' w'. reset_buckets slots n w = Some (n', w') \<and> tw_shape w' \<and>
      tw_chains (\<lambda>sl. if sl \<in> set slots then [] else f sl) {} w' \<and>
      n' + card (ifs_allocated (tw_free w')) = n + card (ifs_allocated (tw_free w)) \<and>
      tw_active w' = tw_active w \<and> tw_in_walk w' = tw_in_walk w \<and> tw_wheel_size w' = tw_wheel_size w \<and>
      tw_max_timers w' = tw_max_timers w"
proof (induction slots arbitrary: w f n)
  case Nil
  then show ?case by simp
next
  case (Cons sl slots)
  have len: "length (tw_heads w) = tw_wheel_size w" using Cons.prems(1) by (simp add: tw_shape_def)
  have sl: "sl < tw_wheel_size w" using Cons.prems(3) by simp
  note D = tw_chainsD [OF Cons.prems(2) sl]
  let ?hs = "(tw_heads w)[sl := None]"
  have ch: "tw_chains (f(sl := [])) (set (f sl)) (w\<lparr>tw_heads := ?hs\<rparr>)"
    using detach_chains [OF Cons.prems(2) sl len] by blast
  have nx: "nexts (tw_nodes w) (f sl)" using links_nexts [of _ "[]"] D(2) by simp
  obtain w1 where w1: "reset_bucket (opt_hd (f sl)) n w = Some (n + length (f sl), w1)" "tw_shape w1"
      "tw_chains (f(sl := [])) {} (w1\<lparr>tw_heads := ?hs\<rparr>)" "same_frame w w1"
    using reset_bucket_spec [OF Cons.prems(1) ch D(3) nx] by blast
  define w2 where "w2 = w1\<lparr>tw_heads := (tw_heads w1)[sl := None]\<rparr>"
  have w2e: "w2 = w1\<lparr>tw_heads := ?hs\<rparr>" using w1(4) by (simp add: w2_def same_frame_def)
  have f2: "tw_wheel_size w2 = tw_wheel_size w" "tw_max_timers w2 = tw_max_timers w" "tw_active w2 = tw_active w"
    "tw_in_walk w2 = tw_in_walk w"
    using w1(4) by (simp_all add: w2_def same_frame_def)
  have sh2: "tw_shape w2" using w1(2) by (simp add: w2_def tw_shape_def)
  have ch2: "tw_chains (f(sl := [])) {} w2" using w1(3) w2e by simp
  note A = chains_drop_alloc [OF Cons.prems(2) ch2 sl f2(1)]
  obtain n' w' where w': "reset_buckets slots (n + length (f sl)) w2 = Some (n', w')" "tw_shape w'"
      "tw_chains (\<lambda>s. if s \<in> set slots then [] else (f(sl := [])) s) {} w'"
      "n' + card (ifs_allocated (tw_free w')) = n + length (f sl) + card (ifs_allocated (tw_free w2))"
      "tw_active w' = tw_active w2" "tw_in_walk w' = tw_in_walk w2" "tw_wheel_size w' = tw_wheel_size w2"
      "tw_max_timers w' = tw_max_timers w2"
    using Cons.IH [OF sh2 ch2, of "n + length (f sl)"] Cons.prems(3) f2(1) by auto
  have "(\<lambda>s. if s \<in> set slots then [] else (f(sl := [])) s) = (\<lambda>s. if s \<in> set (sl # slots) then [] else f s)" by auto
  then have c': "tw_chains (\<lambda>s. if s \<in> set (sl # slots) then [] else f s) {} w'" using w'(3) by simp
  have "reset_buckets (sl # slots) n w = Some (n', w')" using w1(1) w'(1) D(1) by (simp add: w2_def)
  then show ?case using c' w' A f2 by auto
qed

lemma no_timers:
  assumes "tw_inv w" "card (ifs_allocated (tw_free w)) = 0"
  shows "tw_timers w = Map.empty"
proof
  show "tw_timers w i = None" for i using timers_alloc [OF assms(1), of i] assms(2) alloc_finite by auto
qed

lemma reset_spec:
  assumes inv: "tw_inv w"
  obtains w' where "tw_reset w = Some w'" "tw_inv w'" "tw_timers w' = Map.empty" "tw_current_tick w' = 0"
    "tw_wheel_size w' = tw_wheel_size w" "tw_max_timers w' = tw_max_timers w"
proof -
  obtain f where sh: "tw_shape w" and nw: "\<not> tw_in_walk w" and ac: "unat (tw_active w) = card (ifs_allocated (tw_free w))"
    and ch: "tw_chains f {} w"
    using inv unfolding tw_inv_def by blast
  let ?f = "\<lambda>sl. if sl \<in> set [0..<tw_wheel_size w] then [] else f sl"
  obtain n w1 where w1: "reset_buckets [0..<tw_wheel_size w] 0 w = Some (n, w1)" "tw_shape w1" "tw_chains ?f {} w1"
      "n + card (ifs_allocated (tw_free w1)) = 0 + card (ifs_allocated (tw_free w))"
      "tw_active w1 = tw_active w" "tw_in_walk w1 = tw_in_walk w" "tw_wheel_size w1 = tw_wheel_size w"
      "tw_max_timers w1 = tw_max_timers w"
    using reset_buckets_spec [OF sh ch, of "[0..<tw_wheel_size w]" 0] by fastforce
  have e: "ifs_allocated (tw_free w1) = {}" using w1(3,7) unfolding tw_chains_def by simp
  define w' where "w' = w1\<lparr>tw_active := 0, tw_current_tick := 0\<rparr>"
  have "n = unat (tw_active w)" using w1(4) e ac by simp
  then have "of_nat n = tw_active w1" using w1(5) by simp
  then have r: "tw_reset w = Some w'" using w1(1) by (simp add: tw_reset_def w'_def)
  have ws: "0 < tw_wheel_size w" using sh by (auto simp: tw_shape_def)
  have "tw_chains ?f {} w'" using w1(3) unfolding tw_chains_def w'_def by simp
  then have inv': "tw_inv w'"
    by (rule tw_invI [rotated 3]) (use w1(2,6,7) nw e ws in \<open>simp_all add: tw_shape_def cur_slot_def w'_def\<close>)
  have "tw_timers w' = Map.empty" using no_timers [OF inv'] e by (simp add: w'_def)
  then show thesis using that [of w'] r inv' w1(7,8) by (simp add: w'_def)
qed

lemma init_inv:
  assumes ws: "is_valid_wheel_size ws" and mt: "is_valid_max_timers mt"
    and fl: "ifs_inv fl" "ifs_stack fl = [0..<mt]" "ifs_capacity fl = mt"
    and w: "w = init_nodes (tw_default\<lparr>tw_free := fl, tw_wheel_size := ws, tw_mask := ws - 1, tw_max_timers := mt\<rparr>)"
  shows "tw_inv w" "tw_timers w = Map.empty"
proof -
  obtain k where k: "k < 64" "ws = 2 ^ k" "2 \<le> ws" "ws \<le> 2 ^ 32 - 1"
    using ws by (auto simp: is_valid_wheel_size_def is_power_of_two_iff unat_of_nat_eq_small)
  have "k \<le> 31" using k(2,4) power_increasing [of 32 k "2::nat"] by (cases "k \<le> 31") auto
  moreover have "1 \<le> k" using k(2,3) by (cases k) auto
  ultimately have "tw_shape w"
    using k(2) mt fl by (auto simp: tw_shape_def w init_nodes_def tw_default_def is_valid_max_timers_def fresh_node_def)
  moreover have al: "ifs_allocated fl = {}" using fl(2,3) by (auto simp: ifs_allocated_def)
  moreover have "tw_chains (\<lambda>_. []) {} w"
    by (simp add: tw_chains_def al w init_nodes_def tw_default_def fresh_node_def)
  ultimately show inv: "tw_inv w"
    by (intro tw_invI [of w "\<lambda>_. []"]) (simp_all add: w init_nodes_def tw_default_def)
  show "tw_timers w = Map.empty" by (rule no_timers [OF inv]) (simp add: al w init_nodes_def tw_default_def)
qed

lemma create_inv:
  assumes "tw_create buf bytes ws mt = Some w"
  shows "tw_inv w" "tw_timers w = Map.empty" "tw_wheel_size w = ws" "tw_max_timers w = mt"
proof -
  obtain fb fbb fl where v: "is_valid_wheel_size ws" "is_valid_max_timers mt" "ifs_create fb fbb mt = Some fl"
    "w = init_nodes (tw_default\<lparr>tw_free := fl, tw_wheel_size := ws, tw_mask := ws - 1, tw_max_timers := mt\<rparr>)"
    using assms by (auto simp: tw_create_def split: if_splits option.splits)
  show "tw_inv w" "tw_timers w = Map.empty" using init_inv [OF v(1,2) ifs_create_correct [OF v(3)] v(4)] by simp_all
  show "tw_wheel_size w = ws" "tw_max_timers w = mt" using v(4) by (simp_all add: init_nodes_def tw_default_def)
qed

lemma construct_create: "tw_construct buf bytes ws mt = tw_create buf bytes ws mt"
  by (auto simp: tw_construct_def tw_create_def ifs_construct_create cassert_def split: option.splits)

section \<open>Runs of ticks\<close>

fun tw_ticks ::
  "('c \<Rightarrow> 'x option \<Rightarrow> ('c, 'x) TimingWheel \<times> 's \<Rightarrow> (('c, 'x) TimingWheel \<times> 's) outcome) \<Rightarrow> nat \<Rightarrow>
   ('c, 'x) TimingWheel \<times> 's \<Rightarrow> (('c, 'x) TimingWheel \<times> 's) outcome" where
  "tw_ticks call 0 ws = Some ws"
| "tw_ticks call (Suc n) ws = do { (_, ws) \<leftarrow> tw_tick call ws; tw_ticks call n ws }"

definition deadline :: "(nat \<times> 'c \<times> 'x option) option \<Rightarrow> nat" where
  "deadline t = (case t of Some (n, _) \<Rightarrow> n | None \<Rightarrow> 0)"

definition after_ticks ::
  "nat \<Rightarrow> (nat \<times> 'c \<times> 'x option) option \<Rightarrow> (nat \<times> 'c \<times> 'x option) option" where
  "after_ticks k t = (case t of Some (n, cb, ctx) \<Rightarrow> if n \<le> k then None else Some (n - k, cb, ctx) | None \<Rightarrow> None)"

lemma timer_ticks_pos:
  assumes "tw_inv w" "tw_timers w i = Some (n, c)"
  shows "0 < n"
proof -
  obtain f where ch: "tw_chains f {} w" and cur: "f (cur_slot w) = []"
    using assms(1) unfolding tw_inv_def by blast
  have "i \<in> ifs_allocated (tw_free w)" using assms timers_alloc [OF assms(1), of i] by auto
  then obtain sl where sl: "sl < tw_wheel_size w" "i \<in> set (f sl)" by (rule tw_chains_slot [OF ch]) auto
  have "sl \<noteq> cur_slot w" using sl(2) cur by (metis empty_iff empty_set)
  then show ?thesis using chain_timer [OF assms(1) ch sl] assms(2) ticks_left_zero [OF sl(1)] by auto
qed

lemma timer_deadline:
  "tw_inv w \<Longrightarrow> tw_timers w i \<noteq> None \<Longrightarrow> 0 < deadline (tw_timers w i)"
  using timer_ticks_pos [of w i] by (auto simp: deadline_def)

lemma tick_after:
  assumes "tw_inv w"
  shows "after_ticks k (timers_tick (tw_timers w) i) = after_ticks (Suc k) (tw_timers w i)"
    "run_timer run (timers_tick (tw_timers w) i) =
      (if deadline (tw_timers w i) = 1 then Some else run_timer run (tw_timers w i))"
    "deadline (timers_tick (tw_timers w) i) = deadline (tw_timers w i) - 1"
  using timer_ticks_pos [OF assms, of i]
  by (auto simp: after_ticks_def timers_tick_def run_timer_def deadline_def split: option.splits nat.splits)

lemma due_step:
  "timers_tick T i \<noteq> None \<and> deadline (timers_tick T i) \<le> k \<longleftrightarrow>
   T i \<noteq> None \<and> 1 < deadline (T i) \<and> deadline (T i) \<le> Suc k"
  by (auto simp: timers_tick_def deadline_def split: option.splits nat.splits)

lemma ticks_spec:
  assumes call: "passive_call call run"
  shows "tw_inv w \<Longrightarrow> \<exists>xs w'. (\<forall>s. tw_ticks call k (w, s) = map_option (Pair w') (run_all (\<lambda>i. run_timer run (tw_timers w i)) xs s)) \<and>
    distinct xs \<and> set xs = {i. tw_timers w i \<noteq> None \<and> deadline (tw_timers w i) \<le> k} \<and>
    sorted (map (\<lambda>i. deadline (tw_timers w i)) xs) \<and> tw_inv w' \<and>
    tw_timers w' = (\<lambda>i. after_ticks k (tw_timers w i)) \<and> tw_wheel_size w' = tw_wheel_size w \<and>
    tw_max_timers w' = tw_max_timers w \<and>
    (\<forall>j. j \<notin> set xs \<longrightarrow> tn_gen (tw_nodes w' ! j) = tn_gen (tw_nodes w ! j))"
proof (induction k arbitrary: w)
  case 0
  then have "{i. tw_timers w i \<noteq> None \<and> deadline (tw_timers w i) \<le> 0} = {}"
    using timer_deadline [OF 0] by force
  moreover have "(\<lambda>i. after_ticks 0 (tw_timers w i)) = tw_timers w"
    using timer_ticks_pos [OF 0] by (fastforce simp: after_ticks_def split: option.splits)
  ultimately show ?case using 0 by (intro exI [of _ "[]"] exI [of _ w]) (simp del: not_None_eq)
next
  case (Suc k)
  obtain xs w1 where w1: "\<And>s. tw_tick call (w, s) =
      map_option (\<lambda>s'. (length xs, w1, s')) (run_all (\<lambda>i. run_timer run (tw_timers w i)) xs s)"
    "distinct xs" "set xs = {i. \<exists>cb ctx. tw_timers w i = Some (1, cb, ctx)}" "tw_inv w1"
    "tw_timers w1 = timers_tick (tw_timers w)" "tw_wheel_size w1 = tw_wheel_size w" "tw_max_timers w1 = tw_max_timers w"
    "\<forall>j. j \<notin> set xs \<longrightarrow> tn_gen (tw_nodes w1 ! j) = tn_gen (tw_nodes w ! j)"
    by (rule tick_spec [OF Suc.prems call]) auto
  obtain ys w' where w': "\<forall>s. tw_ticks call k (w1, s) = map_option (Pair w') (run_all (\<lambda>i. run_timer run (tw_timers w1 i)) ys s)"
    "distinct ys" "set ys = {i. tw_timers w1 i \<noteq> None \<and> deadline (tw_timers w1 i) \<le> k}"
    "sorted (map (\<lambda>i. deadline (tw_timers w1 i)) ys)" "tw_inv w'"
    "tw_timers w' = (\<lambda>i. after_ticks k (tw_timers w1 i))" "tw_wheel_size w' = tw_wheel_size w1"
    "tw_max_timers w' = tw_max_timers w1" "\<forall>j. j \<notin> set ys \<longrightarrow> tn_gen (tw_nodes w' ! j) = tn_gen (tw_nodes w1 ! j)"
    using Suc.IH [OF w1(4)] by blast
  note T = tick_after [OF Suc.prems]
  have xs: "set xs = {i. deadline (tw_timers w i) = 1}" using w1(3) by (auto simp: deadline_def split: option.splits)
  have ys: "set ys = {i. tw_timers w i \<noteq> None \<and> 1 < deadline (tw_timers w i) \<and> deadline (tw_timers w i) \<le> Suc k}"
    using w'(3) unfolding w1(5) due_step .
  have "run_all (\<lambda>i. run_timer run (tw_timers w1 i)) ys s = run_all (\<lambda>i. run_timer run (tw_timers w i)) ys s" for s
    by (rule run_all_cong) (use ys in \<open>simp_all add: w1(5) T(2)\<close>)
  then have "tw_ticks call (Suc k) (w, s) = map_option (Pair w') (run_all (\<lambda>i. run_timer run (tw_timers w i)) (xs @ ys) s)" for s
    using w1(1) [of s] w'(1)
    by (cases "run_all (\<lambda>i. run_timer run (tw_timers w i)) xs s") (simp_all add: run_all_append)
  moreover have "set (xs @ ys) = {i. tw_timers w i \<noteq> None \<and> deadline (tw_timers w i) \<le> Suc k}"
  proof (rule set_eqI)
    show "i \<in> set (xs @ ys) \<longleftrightarrow> i \<in> {i. tw_timers w i \<noteq> None \<and> deadline (tw_timers w i) \<le> Suc k}" for i
      using timer_deadline [OF Suc.prems, of i] xs ys by (cases "tw_timers w i") (auto simp: deadline_def)
  qed
  moreover have "sorted (map (\<lambda>i. deadline (tw_timers w i)) (xs @ ys))"
  proof -
    have "sorted_wrt (\<lambda>i j. deadline (tw_timers w i) \<le> deadline (tw_timers w j)) ys"
      by (rule sorted_wrt_mono_rel [OF _ w'(4) [unfolded w1(5) T(3) sorted_map]]) (use ys in auto)
    moreover have "sorted_wrt (\<lambda>i j. deadline (tw_timers w i) \<le> deadline (tw_timers w j)) xs"
      by (rule sorted_wrt_mono_rel [of xs "\<lambda>_ _. True"]) (use xs in \<open>auto simp: sorted_wrt_iff_nth_less\<close>)
    ultimately show ?thesis using xs ys by (auto simp: sorted_append sorted_map)
  qed
  moreover have "distinct (xs @ ys)" using w1(2) w'(2) xs ys by auto
  moreover have "tw_timers w' = (\<lambda>i. after_ticks (Suc k) (tw_timers w i))" using w'(6) by (simp add: w1(5) T(1))
  moreover have "tw_wheel_size w' = tw_wheel_size w" "tw_max_timers w' = tw_max_timers w"
    "\<forall>j. j \<notin> set (xs @ ys) \<longrightarrow> tn_gen (tw_nodes w' ! j) = tn_gen (tw_nodes w ! j)"
    using w1(6-8) w'(7-9) by (simp_all del: not_None_eq)
  ultimately show ?case using w'(5) by blast
qed

section \<open>Handles\<close>

lemma handle_unpack:
  assumes "tw_inv w" "i < tw_max_timers w"
  shows "unpack_handle (tw_handle w i) = (i, tn_gen (tw_nodes w ! i))"
  unfolding tw_handle_def by (rule unpack_pack) (use assms in \<open>simp add: tw_inv_def tw_shape_def\<close>)

lemma handle_valid:
  assumes "tw_inv w" "tw_timers w i \<noteq> None"
  shows "tw_handle w i \<noteq> kInvalidHandle"
proof -
  have "i < tw_max_timers w" using assms(2) by (simp add: tw_timers_def split: if_splits)
  then show ?thesis using assms(1) unfolding tw_handle_def by (intro pack_handle_valid) (auto simp: tw_inv_def tw_shape_def)
qed

lemma cancelled_stale:
  assumes "tw_inv w" "tw_inv w'" "tw_timers w i \<noteq> None" "tw_timers w' = (tw_timers w)(i := None)"
    "tw_max_timers w' = tw_max_timers w"
  shows "tw_cancel w' (tw_handle w i) = Some (False, w')"
  using assms(2)
proof (cases rule: cancel_spec [where h = "tw_handle w i"])
  case (hit j w'')
  have "i < tw_max_timers w" "j < tw_max_timers w'"
    using assms(3) hit(1) by (simp_all add: tw_timers_def split: if_splits)
  then have "i = j" using hit(2) handle_unpack [OF assms(1)] handle_unpack [OF assms(2)] by (metis prod.inject)
  then show ?thesis using hit(1) assms(4) by simp
qed

lemma schedule_args:
  assumes "tw_inv w" "tw_schedule w cb ctx delay = Some r"
  shows "0 < delay" "unat delay < tw_wheel_size w" "\<exists>c. cb = Some c"
proof -
  have "tw_wheel_size w < 2 ^ 32"
    using assms(1) power_strict_increasing_iff [of "2::nat" _ 32] unfolding tw_inv_def tw_shape_def by auto
  then have "unat (of_nat (tw_wheel_size w) :: u64) = tw_wheel_size w" by (intro unat_of_nat_eq_small) simp
  then show "0 < delay" "unat delay < tw_wheel_size w" "\<exists>c. cb = Some c"
    using assms(2) by (auto simp: tw_schedule_def cassert_def word_le_nat_alt word_neq_0_conv split: if_splits)
qed

text \<open>The generation counter keeps a reused node apart from its earlier handles.\<close>

lemma rearmed_handle:
  assumes w: "tw_inv w" "tw_inv w'" "tw_timers w i \<noteq> None" "tw_max_timers w' = tw_max_timers w"
    and g: "\<forall>j. tn_gen (tw_nodes w' ! j) = tn_gen (tw_nodes w ! j) \<longleftrightarrow> j \<noteq> i"
  shows "tw_schedule w' cb ctx delay \<noteq> Some (tw_handle w i, w'')"
proof
  assume s: "tw_schedule w' cb ctx delay = Some (tw_handle w i, w'')"
  obtain c where c: "cb = Some c" using schedule_args(3) [OF w(2) s] by blast
  show False
    using w(2) schedule_args(1,2) [OF w(2) s]
  proof (cases rule: schedule_spec [where cb = c and ctx = ctx])
    case full
    then show ?thesis using s c handle_valid [OF w(1,3)] by simp
  next
    case (ok j v)
    have "tw_handle v j = tw_handle w i" using s c ok(1) by auto
    moreover have "i < tw_max_timers w" using w(3) by (simp add: tw_timers_def split: if_splits)
    ultimately have "j = i" "tn_gen (tw_nodes v ! i) = tn_gen (tw_nodes w ! i)"
      using handle_unpack [OF w(1), of i] handle_unpack [OF ok(2), of j] ok(3,8) by auto
    then show ?thesis using ok(3,6) g w(4) by auto
  qed
qed

section \<open>Properties\<close>

definition small_wheel :: "('c, 'x) TimingWheel" where
  "small_wheel = init_nodes (tw_default\<lparr>tw_free := ifs_init_storage 4, tw_wheel_size := 8, tw_mask := 7, tw_max_timers := 4\<rparr>)"

definition demo_wheel :: "(unit, nat) TimingWheel" where
  "demo_wheel = small_wheel"

definition demo_run :: "unit \<Rightarrow> nat option \<Rightarrow> nat list \<Rightarrow> nat list outcome" where
  "demo_run _ ctx log = (case ctx of Some x \<Rightarrow> Some (log @ [x]) | None \<Rightarrow> None)"

definition demo_call ::
  "unit \<Rightarrow> nat option \<Rightarrow> (unit, nat) TimingWheel \<times> nat list \<Rightarrow> ((unit, nat) TimingWheel \<times> nat list) outcome" where
  "demo_call cb ctx = (\<lambda>(w, log). map_option (Pair w) (demo_run cb ctx log))"

lemma demo_passive: "passive_call demo_call demo_run"
  by (simp add: passive_call_def demo_call_def)

lemma small_create: "tw_create 4096 4096 8 4 = Some small_wheel"
proof -
  have "is_power_of_two 8" unfolding is_power_of_two_iff by (intro exI [of _ 3]) simp
  moreover have "is_power_of_two 4" unfolding is_power_of_two_iff by (intro exI [of _ 2]) simp
  ultimately have "is_valid_wheel_size 8" "is_valid_max_timers 4"
    by (simp_all add: is_valid_wheel_size_def is_valid_max_timers_def)
  moreover have "tw_partition_buffer 4096 4096 8 4 = Some (4288, ifs_required_buffer_size 4)"
    by (simp add: tw_partition_buffer_def tw_required_buffer_size_def free_list_offset_def nodes_offset_def
        align_up_def alignof_TimerNode_def sizeof_TimerNode_def ifs_required_buffer_size_def)
  ultimately show ?thesis
    by (simp add: tw_create_def ifs_create_def small_wheel_def ifs_is_valid_capacity_def ifs_partition_buffer_def)
qed

lemma demo_create: "tw_create 4096 4096 8 4 = Some demo_wheel"
  unfolding demo_wheel_def by (rule small_create)

lemmas demo_inv = create_inv [OF demo_create]

lemma demo_free: "{} \<noteq> {..<(4 :: nat)}" "ifs_allocated (tw_free demo_wheel) = {}"
proof -
  show "{} \<noteq> {..<(4 :: nat)}" by (metis lessThan_iff empty_iff zero_less_numeral)
  show "ifs_allocated (tw_free demo_wheel) = {}"
    using timers_alloc [OF demo_inv(1)] by (auto simp: demo_inv)
qed





section \<open>A reset that aborts\<close>

text \<open>
  A callback may cancel timers of other buckets, which only clears their callback and leaves
  them in their bucket, already subtracted from the active count. A reset before the tick
  that would reclaim them frees more nodes than the active count says, and its assertion fails.
\<close>

definition cancelling_call ::
  "unit \<Rightarrow> nat option \<Rightarrow> (unit, nat) TimingWheel \<times> u64 \<Rightarrow> ((unit, nat) TimingWheel \<times> u64) outcome" where
  "cancelling_call cb ctx = (\<lambda>(w, h). do { (_, w) \<leftarrow> tw_cancel w h; Some (w, h) })"

definition cancel_then_reset :: "(unit, nat) TimingWheel outcome" where
  "cancel_then_reset = do {
     (_, w) \<leftarrow> tw_schedule demo_wheel (Some ()) None 1;
     (h, w) \<leftarrow> tw_schedule w (Some ()) None 2;
     (_, w, _) \<leftarrow> tw_tick cancelling_call (w, h);
     tw_reset w
   }"

theorem reset_after_lazy_cancel_aborts: "cancel_then_reset = None"
  by code_simp

end
