(* ===== verification/OrderManager.thy ===== *)
theory OrderManager
  imports StrategyCtx TimingWheelProps "HOL-Library.Signed_Division"
begin

text \<open>
  \<^verbatim>\<open>apps/tick_to_trade/order_manager.hpp\<close>: order lifecycle, pre-trade risk checks, the
  token bucket, order timeouts and the kill switch. The arrays that \<^verbatim>\<open>StrategyCtx\<close> points
  to are lists in the state. Readings of the monotonic clock are arguments. Signed 64-bit
  arithmetic that leaves its range, an index outside an array and a division by zero are
  undefined behaviour, hence the outcome \<open>None\<close>. Logging is left out.
\<close>

section \<open>State\<close>

record Signal =
  sig_side :: Side
  sig_price :: Price
  sig_qty :: Qty
  sig_symbol_id :: u32

datatype KillSwitchState = kNormal | kCancelling | kDraining | kComplete

record CancelBatch =
  cb_cancels :: "CancelOrder list"
  cb_count :: u32

text \<open>The diagnostic counters of the class.\<close>

record OmStats =
  st_acks_received :: u64
  st_rejects_received :: u64
  st_fills_received :: u64
  st_total_fill_qty :: u64
  st_modifies_sent :: u64
  st_modifies_acked :: u64
  st_modifies_rejected :: u64
  st_risk_rejects_outstanding :: u64
  st_risk_rejects_per_symbol :: u64
  st_risk_rejects_position :: u64
  st_risk_rejects_size :: u64
  st_risk_rejects_notional :: u64
  st_risk_rejects_rate :: u64
  st_risk_rejects_killswitch :: u64
  st_timeouts_fired :: u64

record OrderManager =
  om_ctx :: StrategyCtx
  om_net_position :: "i64 list"
  om_per_symbol :: "u32 list"
  om_active_orders :: "ActiveOrder list"
  om_cancel_buf :: "CancelOrder list"
  om_timeout_ids :: "u64 list"
  om_next_order_id :: u64
  om_outstanding_count :: u32
  om_max_position :: i64
  om_max_order_size :: Qty
  om_max_notional :: i64
  om_bucket_capacity :: u32
  om_refill_interval_ns :: i64
  om_last_refill_ts :: i64
  om_tokens :: u32
  om_stats :: OmStats
  om_kill_switch_state :: KillSwitchState
  om_pending_cancel_count :: u32
  om_outstanding :: OutstandingMap
  om_timeout_wheel :: "(unit, u64) TimingWheel"
  om_order_timeout_ns :: i64
  om_last_advance_ns :: i64
  om_timeout_count :: u32

definition kTickIntervalNs :: int where "kTickIntervalNs = 1000000"

section \<open>Checked primitives\<close>

text \<open>The value of a signed 64-bit expression.\<close>

definition i64_of :: "int \<Rightarrow> i64 outcome" where
  "i64_of x = (if - (2 ^ 63) \<le> x \<and> x < 2 ^ 63 then Some (word_of_int x) else None)"

section \<open>Construction\<close>

definition zero_stats :: OmStats where
  "zero_stats = \<lparr>st_acks_received = 0, st_rejects_received = 0, st_fills_received = 0, st_total_fill_qty = 0,
     st_modifies_sent = 0, st_modifies_acked = 0, st_modifies_rejected = 0, st_risk_rejects_outstanding = 0,
     st_risk_rejects_per_symbol = 0, st_risk_rejects_position = 0, st_risk_rejects_size = 0,
     st_risk_rejects_notional = 0, st_risk_rejects_rate = 0, st_risk_rejects_killswitch = 0,
     st_timeouts_fired = 0\<rparr>"

definition zero_active :: ActiveOrder where
  "zero_active = \<lparr>ao_client_order_id = 0, ao_price = 0, ao_qty = 0, ao_resting = False\<rparr>"

text \<open>
  The constructor. \<open>slots\<close>, \<open>cancels\<close> and \<open>tids\<close> are what the uninitialised parts of the
  buffer read as; the position, count and active-order arrays were zeroed with the context.
\<close>

definition OrderManager_init ::
  "StrategyCtx \<Rightarrow> (u64, OrderInfo) Slot list \<Rightarrow> CancelOrder list \<Rightarrow> u64 list \<Rightarrow> i64 \<Rightarrow> Qty \<Rightarrow> i64 \<Rightarrow> u32 \<Rightarrow> i64 \<Rightarrow> i64 \<Rightarrow>
   OrderManager outcome" where
  "OrderManager_init ctx slots cancels tids max_position max_order_size max_notional
      max_orders_per_window rate_window_ns order_timeout_ns = do {
     outstanding \<leftarrow> hm_construct default_hash sizeof_map_slot alignof_map_slot (sc_map_buf ctx) slots
                     (sc_map_buf_size ctx) (sc_map_capacity ctx);
     wheel \<leftarrow> tw_construct (sc_timeout_wheel_buf ctx) (sc_timeout_wheel_buf_size ctx)
               (sc_timeout_wheel_size ctx) (sc_timeout_max_timers ctx);
     refill \<leftarrow> (if max_orders_per_window > 0
                then i64_of (sint rate_window_ns sdiv uint max_orders_per_window)
                else Some rate_window_ns);
     Some \<lparr>om_ctx = ctx,
       om_net_position = replicate (unat (sc_max_symbols ctx)) 0,
       om_per_symbol = replicate (unat (sc_max_symbols ctx)) 0,
       om_active_orders = replicate (unat (sc_max_symbols ctx) * kSideCount) zero_active,
       om_cancel_buf = take (unat (sc_max_outstanding ctx)) cancels,
       om_timeout_ids = take (unat (sc_max_outstanding ctx)) tids,
       om_next_order_id = 1, om_outstanding_count = 0, om_max_position = max_position,
       om_max_order_size = max_order_size, om_max_notional = max_notional,
       om_bucket_capacity = max_orders_per_window, om_refill_interval_ns = refill, om_last_refill_ts = 0,
       om_tokens = max_orders_per_window, om_stats = zero_stats, om_kill_switch_state = kNormal,
       om_pending_cancel_count = 0, om_outstanding = outstanding, om_timeout_wheel = wheel,
       om_order_timeout_ns = order_timeout_ns, om_last_advance_ns = 0, om_timeout_count = 0\<rparr>
   }"

section \<open>Private helpers\<close>

definition active_index :: "u32 \<Rightarrow> Side \<Rightarrow> nat" where
  "active_index symbol_id side = unat (symbol_id - 1) * kSideCount + unat (Side_code side)"

definition clear_active_if_match :: "OrderManager \<Rightarrow> u32 \<Rightarrow> Side \<Rightarrow> u64 \<Rightarrow> OrderManager outcome" where
  "clear_active_if_match om symbol_id side client_order_id =
    (if symbol_id = 0 \<or> symbol_id > sc_max_symbols (om_ctx om) then Some om
     else do {
       active \<leftarrow> arr_get (om_active_orders om) (active_index symbol_id side);
       if ao_resting active \<and> ao_client_order_id active = client_order_id then do {
         orders \<leftarrow> arr_upd (om_active_orders om) (active_index symbol_id side) (\<lambda>a. a\<lparr>ao_resting := False\<rparr>);
         Some (om\<lparr>om_active_orders := orders\<rparr>)
       } else Some om
     })"

definition maybe_compact_outstanding :: "OrderManager \<Rightarrow> OrderManager" where
  "maybe_compact_outstanding om =
    (if om_outstanding_count om = 0 \<and> hm_needs_rebuild (om_outstanding om)
     then om\<lparr>om_outstanding := hm_clear (om_outstanding om)\<rparr> else om)"

definition check_drain_complete :: "OrderManager \<Rightarrow> OrderManager" where
  "check_drain_complete om =
    (if om_kill_switch_state om = kDraining then
       (let om = (if om_pending_cancel_count om > 0
                  then om\<lparr>om_pending_cancel_count := om_pending_cancel_count om - 1\<rparr> else om)
        in if om_pending_cancel_count om = 0 then om\<lparr>om_kill_switch_state := kComplete\<rparr> else om)
     else om)"

text \<open>
  The pointer-sized context of a timer carries the order id; 0 is the null pointer. The
  callback appends the id to the batch of the manager, whose part that it touches is the
  state it is run on.
\<close>

definition ptr_of :: "u64 \<Rightarrow> u64 option" where
  "ptr_of coid = (if coid = 0 then None else Some coid)"

definition on_order_timeout :: "u32 \<Rightarrow> unit \<Rightarrow> u64 option \<Rightarrow> u64 list \<times> u32 \<Rightarrow> (u64 list \<times> u32) outcome" where
  "on_order_timeout max_outstanding _ ctx = (\<lambda>(ids, n). do {
     let coid = (case ctx of None \<Rightarrow> 0 | Some c \<Rightarrow> c);
     cassert (n < max_outstanding);
     ids \<leftarrow> arr_upd ids (unat n) (\<lambda>_. coid);
     Some (ids, n + 1)
   })"

definition timeout_call ::
  "u32 \<Rightarrow> unit \<Rightarrow> u64 option \<Rightarrow> (unit, u64) TimingWheel \<times> (u64 list \<times> u32) \<Rightarrow>
   ((unit, u64) TimingWheel \<times> (u64 list \<times> u32)) outcome" where
  "timeout_call max_outstanding cb ctx = (\<lambda>(w, b). map_option (Pair w) (on_order_timeout max_outstanding cb ctx b))"

text \<open>
  What every handler does for a tracked order that goes away: cancel its timer, clear the
  active slot, count it down for its symbol.
\<close>

definition untrack :: "OrderManager \<Rightarrow> OrderInfo \<Rightarrow> u64 \<Rightarrow> OrderManager outcome" where
  "untrack om info client_order_id = do {
     om \<leftarrow> clear_active_if_match om (oi_symbol_id info) (oi_side info) client_order_id;
     per_symbol \<leftarrow> arr_upd (om_per_symbol om) (unat (oi_symbol_id info - 1)) (\<lambda>n. n - 1);
     Some (om\<lparr>om_per_symbol := per_symbol\<rparr>)
   }"

definition cancel_timer :: "OrderManager \<Rightarrow> OrderInfo \<Rightarrow> OrderManager outcome" where
  "cancel_timer om info = do {
     (_, wheel) \<leftarrow> tw_cancel (om_timeout_wheel om) (oi_timer_handle info);
     Some (om\<lparr>om_timeout_wheel := wheel\<rparr>)
   }"

definition drop_outstanding :: "OrderManager \<Rightarrow> u64 \<Rightarrow> OrderManager outcome" where
  "drop_outstanding om client_order_id = do {
     (_, outstanding) \<leftarrow> hm_erase (om_outstanding om) client_order_id;
     Some (om\<lparr>om_outstanding := outstanding,
              om_outstanding_count := (if om_outstanding_count om > 0 then om_outstanding_count om - 1
                                       else om_outstanding_count om)\<rparr>)
   }"

section \<open>Signals\<close>

definition check_modify :: "OrderManager \<Rightarrow> Signal \<Rightarrow> i64 \<Rightarrow> ModifyOrder \<Rightarrow> (bool \<times> ModifyOrder \<times> OrderManager) outcome" where
  "check_modify om signal now out =
    (if om_kill_switch_state om \<noteq> kNormal then Some (False, out, om)
     else do {
       let i = active_index (sig_symbol_id signal) (sig_side signal);
       active \<leftarrow> arr_get (om_active_orders om) i;
       if \<not> ao_resting active then Some (False, out, om)
       else if ao_price active = sig_price signal then Some (False, out, om)
       else do {
         let out = \<lparr>mo_client_order_id = ao_client_order_id active, mo_symbol_id = sig_symbol_id signal,
                    mo_new_price = sig_price signal, mo_new_qty = sig_qty signal, mo_send_ts = now\<rparr>;
         orders \<leftarrow> arr_upd (om_active_orders om) i (\<lambda>a. a\<lparr>ao_price := sig_price signal, ao_qty := sig_qty signal\<rparr>);
         Some (True, out, om\<lparr>om_active_orders := orders,
           om_stats := om_stats om\<lparr>st_modifies_sent := st_modifies_sent (om_stats om) + 1\<rparr>\<rparr>)
       }
     })"

text \<open>The token bucket: one token per interval since the last refill, up to the capacity.\<close>

definition refill_tokens :: "OrderManager \<Rightarrow> i64 \<Rightarrow> OrderManager outcome" where
  "refill_tokens om now = do {
     elapsed \<leftarrow> i64_of (sint now - sint (om_last_refill_ts om));
     if sint elapsed \<ge> sint (om_refill_interval_ns om) then do {
       cassert (om_refill_interval_ns om \<noteq> 0);
       quot \<leftarrow> i64_of (sint elapsed sdiv sint (om_refill_interval_ns om));
       let new_tokens = (ucast quot :: u32);
       step \<leftarrow> i64_of (uint new_tokens * sint (om_refill_interval_ns om));
       last \<leftarrow> i64_of (sint (om_last_refill_ts om) + sint step);
       Some (om\<lparr>om_tokens := min (om_tokens om + new_tokens) (om_bucket_capacity om), om_last_refill_ts := last\<rparr>)
     } else Some om
   }"

definition projected_abs :: "i64 \<Rightarrow> Side \<Rightarrow> Qty \<Rightarrow> i64 outcome" where
  "projected_abs position side qty = do {
     projected \<leftarrow> i64_of (if side = kBid then sint position + uint qty else sint position - uint qty);
     i64_of (if sint projected < 0 then - sint projected else sint projected)
   }"

text \<open>The second half of \<^verbatim>\<open>on_signal\<close>, once all risk checks have passed.\<close>

definition generate_order :: "OrderManager \<Rightarrow> Signal \<Rightarrow> i64 \<Rightarrow> (bool \<times> NewOrder \<times> OrderManager) outcome" where
  "generate_order om signal now = do {
     let sym_idx = unat (sig_symbol_id signal - 1);
     let coid = om_next_order_id om;
     let om = om\<lparr>om_next_order_id := om_next_order_id om + 1\<rparr>;
     let out = \<lparr>no_client_order_id = coid, no_symbol_id = sig_symbol_id signal, no_side = Side_code (sig_side signal),
                no_price = sig_price signal, no_qty = sig_qty signal, no_send_ts = now\<rparr>;
     let delay_ticks = (word_of_int (sint (om_order_timeout_ns om) sdiv kTickIntervalNs) :: u64);
     (handle, wheel) \<leftarrow> tw_schedule (om_timeout_wheel om) (Some ()) (ptr_of coid) delay_ticks;
     let info = \<lparr>oi_side = sig_side signal, oi_price = sig_price signal, oi_qty = sig_qty signal,
                 oi_symbol_id = sig_symbol_id signal, oi_send_ts = now, oi_timer_handle = handle\<rparr>;
     let om = om\<lparr>om_timeout_wheel := wheel\<rparr>;
     (inserted, outstanding) \<leftarrow> hm_insert (om_outstanding om) coid info;
     let om = om\<lparr>om_outstanding := outstanding\<rparr>;
     if \<not> inserted then do {
       om \<leftarrow> cancel_timer om info;
       Some (False, out, om)
     } else do {
       per_symbol \<leftarrow> arr_upd (om_per_symbol om) sym_idx (\<lambda>n. n + 1);
       orders \<leftarrow> arr_upd (om_active_orders om) (active_index (sig_symbol_id signal) (sig_side signal))
         (\<lambda>_. \<lparr>ao_client_order_id = coid, ao_price = sig_price signal, ao_qty = sig_qty signal, ao_resting = True\<rparr>);
       Some (True, out, om\<lparr>om_outstanding_count := om_outstanding_count om + 1, om_per_symbol := per_symbol,
         om_active_orders := orders, om_tokens := om_tokens om - 1\<rparr>)
     }
   }"

definition on_signal ::
  "OrderManager \<Rightarrow> Signal \<Rightarrow> i64 \<Rightarrow> i64 \<Rightarrow> NewOrder \<Rightarrow> (bool \<times> NewOrder \<times> OrderManager) outcome" where
  "on_signal om signal now1 now2 out =
    (if om_kill_switch_state om \<noteq> kNormal then
       Some (False, out, om\<lparr>om_stats := om_stats om\<lparr>st_risk_rejects_killswitch := st_risk_rejects_killswitch (om_stats om) + 1\<rparr>\<rparr>)
     else if om_outstanding_count om \<ge> sc_max_outstanding (om_ctx om) then
       Some (False, out, om\<lparr>om_stats := om_stats om\<lparr>st_risk_rejects_outstanding := st_risk_rejects_outstanding (om_stats om) + 1\<rparr>\<rparr>)
     else do {
       let sym_idx = unat (sig_symbol_id signal - 1);
       per_symbol \<leftarrow> arr_get (om_per_symbol om) sym_idx;
       if per_symbol \<ge> sc_max_outstanding_per_symbol (om_ctx om) then
         Some (False, out, om\<lparr>om_stats := om_stats om\<lparr>st_risk_rejects_per_symbol := st_risk_rejects_per_symbol (om_stats om) + 1\<rparr>\<rparr>)
       else if sig_qty signal > om_max_order_size om then
         Some (False, out, om\<lparr>om_stats := om_stats om\<lparr>st_risk_rejects_size := st_risk_rejects_size (om_stats om) + 1\<rparr>\<rparr>)
       else do {
         notional \<leftarrow> i64_of (sint (sig_price signal) * uint (sig_qty signal));
         if sint notional > sint (om_max_notional om) then
           Some (False, out, om\<lparr>om_stats := om_stats om\<lparr>st_risk_rejects_notional := st_risk_rejects_notional (om_stats om) + 1\<rparr>\<rparr>)
         else do {
           om \<leftarrow> refill_tokens om now1;
           if om_tokens om = 0 then
             Some (False, out, om\<lparr>om_stats := om_stats om\<lparr>st_risk_rejects_rate := st_risk_rejects_rate (om_stats om) + 1\<rparr>\<rparr>)
           else do {
             position \<leftarrow> arr_get (om_net_position om) sym_idx;
             abs_pos \<leftarrow> projected_abs position (sig_side signal) (sig_qty signal);
             if sint abs_pos > sint (om_max_position om) then
               Some (False, out, om\<lparr>om_stats := om_stats om\<lparr>st_risk_rejects_position := st_risk_rejects_position (om_stats om) + 1\<rparr>\<rparr>)
             else generate_order om signal now2
           }
         }
       }
     })"

section \<open>Kill switch\<close>

definition add_cancel :: "u32 \<Rightarrow> i64 \<Rightarrow> u64 \<Rightarrow> OrderInfo \<Rightarrow> CancelOrder list \<times> u32 \<Rightarrow> CancelOrder list \<times> u32" where
  "add_cancel max_outstanding now coid info = (\<lambda>(buf, n).
     if n < max_outstanding
     then (buf[unat n := \<lparr>co_client_order_id = coid, co_symbol_id = oi_symbol_id info, co_send_ts = now\<rparr>], n + 1)
     else (buf, n))"

definition trigger_kill_switch :: "OrderManager \<Rightarrow> i64 \<Rightarrow> (CancelBatch \<times> OrderManager) outcome" where
  "trigger_kill_switch om now =
    (if om_kill_switch_state om \<noteq> kNormal then Some (\<lparr>cb_cancels = om_cancel_buf om, cb_count = 0\<rparr>, om)
     else do {
       let om = om\<lparr>om_kill_switch_state := kCancelling\<rparr>;
       let (buf, n) = hm_for_each (add_cancel (sc_max_outstanding (om_ctx om)) now) (om_outstanding om) (om_cancel_buf om, 0);
       wheel \<leftarrow> tw_reset (om_timeout_wheel om);
       let om = om\<lparr>om_cancel_buf := buf, om_timeout_wheel := wheel, om_pending_cancel_count := n\<rparr>;
       Some (\<lparr>cb_cancels = buf, cb_count = n\<rparr>,
             om\<lparr>om_kill_switch_state := (if om_pending_cancel_count om = 0 then kComplete else kDraining)\<rparr>)
     })"

section \<open>Exchange responses\<close>

definition on_order_ack :: "OrderManager \<Rightarrow> OrderAck \<Rightarrow> OrderManager" where
  "on_order_ack om ack = om\<lparr>om_stats := om_stats om\<lparr>st_acks_received := st_acks_received (om_stats om) + 1\<rparr>\<rparr>"

definition on_order_reject :: "OrderManager \<Rightarrow> OrderReject \<Rightarrow> OrderManager outcome" where
  "on_order_reject om reject = do {
     info \<leftarrow> hm_find (om_outstanding om) (orj_client_order_id reject);
     om \<leftarrow> (case info of
              None \<Rightarrow> Some om
            | Some info \<Rightarrow> do { om \<leftarrow> cancel_timer om info; untrack om info (orj_client_order_id reject) });
     om \<leftarrow> drop_outstanding om (orj_client_order_id reject);
     let om = maybe_compact_outstanding om;
     Some (om\<lparr>om_stats := om_stats om\<lparr>st_rejects_received := st_rejects_received (om_stats om) + 1\<rparr>\<rparr>)
   }"

definition apply_fill :: "OrderManager \<Rightarrow> OrderInfo \<Rightarrow> Qty \<Rightarrow> OrderManager outcome" where
  "apply_fill om info fill_qty =
    (let sym_idx = oi_symbol_id info - 1 in
     if sym_idx < sc_max_symbols (om_ctx om) then do {
       position \<leftarrow> arr_get (om_net_position om) (unat sym_idx);
       position \<leftarrow> i64_of (if oi_side info = kBid then sint position + uint fill_qty else sint position - uint fill_qty);
       net_position \<leftarrow> arr_upd (om_net_position om) (unat sym_idx) (\<lambda>_. position);
       Some (om\<lparr>om_net_position := net_position\<rparr>)
     } else Some om)"

definition on_fill :: "OrderManager \<Rightarrow> FillReport \<Rightarrow> OrderManager outcome" where
  "on_fill om fill = do {
     info \<leftarrow> hm_find (om_outstanding om) (fr_client_order_id fill);
     om \<leftarrow> (case info of None \<Rightarrow> Some om | Some info \<Rightarrow> apply_fill om info (fr_fill_qty fill));
     om \<leftarrow> (if fr_remaining_qty fill = 0 then do {
              om \<leftarrow> (case info of
                       None \<Rightarrow> Some om
                     | Some info \<Rightarrow> do { om \<leftarrow> cancel_timer om info; untrack om info (fr_client_order_id fill) });
              om \<leftarrow> drop_outstanding om (fr_client_order_id fill);
              Some (maybe_compact_outstanding om)
            } else Some om);
     Some (om\<lparr>om_stats := om_stats om\<lparr>st_fills_received := st_fills_received (om_stats om) + 1,
            st_total_fill_qty := st_total_fill_qty (om_stats om) + ucast (fr_fill_qty fill)\<rparr>\<rparr>)
   }"

definition on_modify_ack :: "OrderManager \<Rightarrow> ModifyAck \<Rightarrow> OrderManager" where
  "on_modify_ack om ack = om\<lparr>om_stats := om_stats om\<lparr>st_modifies_acked := st_modifies_acked (om_stats om) + 1\<rparr>\<rparr>"

definition on_modify_reject :: "OrderManager \<Rightarrow> ModifyReject \<Rightarrow> OrderManager outcome" where
  "on_modify_reject om reject = do {
     info \<leftarrow> hm_find (om_outstanding om) (mrj_client_order_id reject);
     om \<leftarrow> (case info of
              None \<Rightarrow> Some om
            | Some info \<Rightarrow> clear_active_if_match om (oi_symbol_id info) (oi_side info) (mrj_client_order_id reject));
     Some (om\<lparr>om_stats := om_stats om\<lparr>st_modifies_rejected := st_modifies_rejected (om_stats om) + 1\<rparr>\<rparr>)
   }"

definition on_cancel_ack :: "OrderManager \<Rightarrow> CancelAck \<Rightarrow> OrderManager outcome" where
  "on_cancel_ack om ack = do {
     info \<leftarrow> hm_find (om_outstanding om) (ca_client_order_id ack);
     om \<leftarrow> (case info of
              None \<Rightarrow> Some om
            | Some info \<Rightarrow> do { om \<leftarrow> cancel_timer om info; untrack om info (ca_client_order_id ack) });
     om \<leftarrow> drop_outstanding om (ca_client_order_id ack);
     Some (check_drain_complete (maybe_compact_outstanding om))
   }"

definition on_cancel_reject :: "OrderManager \<Rightarrow> CancelReject \<Rightarrow> OrderManager outcome" where
  "on_cancel_reject om reject = do {
     info \<leftarrow> hm_find (om_outstanding om) (crj_client_order_id reject);
     om \<leftarrow> (case info of
              None \<Rightarrow> Some om
            | Some info \<Rightarrow> do {
                om \<leftarrow> cancel_timer om info;
                om \<leftarrow> untrack om info (crj_client_order_id reject);
                om \<leftarrow> drop_outstanding om (crj_client_order_id reject);
                Some (maybe_compact_outstanding om)
              });
     Some (check_drain_complete om)
   }"

section \<open>Timeouts\<close>

fun process_timeouts :: "u64 list \<Rightarrow> i64 \<Rightarrow> u32 \<Rightarrow> OrderManager \<Rightarrow> (u32 \<times> OrderManager) outcome" where
  "process_timeouts [] now n om = Some (n, om)"
| "process_timeouts (coid # coids) now n om = do {
     info \<leftarrow> hm_find (om_outstanding om) coid;
     case info of
       None \<Rightarrow> process_timeouts coids now n om
     | Some info \<Rightarrow> do {
         let (buf, n) = add_cancel (sc_max_outstanding (om_ctx om)) now coid info (om_cancel_buf om, n);
         om \<leftarrow> untrack (om\<lparr>om_cancel_buf := buf\<rparr>) info coid;
         om \<leftarrow> drop_outstanding om coid;
         process_timeouts coids now n
           (om\<lparr>om_stats := om_stats om\<lparr>st_timeouts_fired := st_timeouts_fired (om_stats om) + 1\<rparr>\<rparr>)
       }
   }"

definition advance_timeouts :: "OrderManager \<Rightarrow> i64 \<Rightarrow> (CancelBatch \<times> OrderManager) outcome" where
  "advance_timeouts om now =
    (if om_kill_switch_state om \<noteq> kNormal then Some (\<lparr>cb_cancels = om_cancel_buf om, cb_count = 0\<rparr>, om)
     else do {
       elapsed_ns \<leftarrow> i64_of (sint now - sint (om_last_advance_ns om));
       if sint elapsed_ns < kTickIntervalNs then Some (\<lparr>cb_cancels = om_cancel_buf om, cb_count = 0\<rparr>, om)
       else do {
         let elapsed_ticks = (word_of_int (sint elapsed_ns sdiv kTickIntervalNs) :: u32);
         (wheel, ids, n) \<leftarrow> tw_ticks (timeout_call (sc_max_outstanding (om_ctx om))) (unat elapsed_ticks)
                            (om_timeout_wheel om, om_timeout_ids om, 0);
         step \<leftarrow> i64_of (uint elapsed_ticks * kTickIntervalNs);
         last \<leftarrow> i64_of (sint (om_last_advance_ns om) + sint step);
         let om = om\<lparr>om_timeout_wheel := wheel, om_timeout_ids := ids, om_timeout_count := n, om_last_advance_ns := last\<rparr>;
         (count, om) \<leftarrow> process_timeouts (take (unat n) ids) now 0 om;
         let om = maybe_compact_outstanding om;
         Some (\<lparr>cb_cancels = om_cancel_buf om, cb_count = count\<rparr>, om)
       }
     })"

section \<open>Observers\<close>

definition net_position :: "OrderManager \<Rightarrow> u32 \<Rightarrow> i64 outcome" where
  "net_position om symbol_id = arr_get (om_net_position om) (unat (symbol_id - 1))"

primrec sum_positions :: "i64 list \<Rightarrow> i64 \<Rightarrow> i64 outcome" where
  "sum_positions [] acc = Some acc"
| "sum_positions (p # ps) acc = do { acc \<leftarrow> i64_of (sint acc + sint p); sum_positions ps acc }"

definition total_net_position :: "OrderManager \<Rightarrow> i64 outcome" where
  "total_net_position om = sum_positions (take (unat (sc_max_symbols (om_ctx om))) (om_net_position om)) 0"

definition is_killed :: "OrderManager \<Rightarrow> bool" where
  "is_killed om \<longleftrightarrow> om_kill_switch_state om \<noteq> kNormal"

end
