(* ===== verification/OrderManagerInv.thy ===== *)
theory OrderManagerInv
  imports OrderManager
begin

text \<open>
  The invariant of the order manager and that its operations keep it. The invariant ties the
  outstanding map, the outstanding counters, the active-order slots and the timers together.
\<close>

section \<open>Invariant\<close>

abbreviation om_orders :: "OrderManager \<Rightarrow> u64 \<Rightarrow> OrderInfo option" where
  "om_orders om \<equiv> hm_lookup (om_outstanding om)"

definition valid_symbol :: "StrategyCtx \<Rightarrow> u32 \<Rightarrow> bool" where
  "valid_symbol ctx s \<longleftrightarrow> s \<noteq> 0 \<and> s \<le> sc_max_symbols ctx"

definition om_arrays :: "OrderManager \<Rightarrow> bool" where
  "om_arrays om \<longleftrightarrow> length (om_net_position om) = unat (sc_max_symbols (om_ctx om)) \<and>
     length (om_per_symbol om) = unat (sc_max_symbols (om_ctx om)) \<and>
     length (om_active_orders om) = unat (sc_max_symbols (om_ctx om)) * kSideCount \<and>
     length (om_cancel_buf om) = unat (sc_max_outstanding (om_ctx om)) \<and>
     length (om_timeout_ids om) = unat (sc_max_outstanding (om_ctx om))"

text \<open>The delay of an order's timer fits the wheel, which has a timer for every order.\<close>

definition order_delay :: "OrderManager \<Rightarrow> u64" where
  "order_delay om = word_of_int (sint (om_order_timeout_ns om) sdiv kTickIntervalNs)"

definition om_config :: "OrderManager \<Rightarrow> bool" where
  "om_config om \<longleftrightarrow> 0 < order_delay om \<and> unat (order_delay om) < tw_wheel_size (om_timeout_wheel om) \<and>
     unat (sc_max_outstanding (om_ctx om)) \<le> tw_max_timers (om_timeout_wheel om)"

definition orders_ok :: "StrategyCtx \<Rightarrow> (u64 \<Rightarrow> OrderInfo option) \<Rightarrow> u64 \<Rightarrow> bool" where
  "orders_ok ctx M next \<longleftrightarrow> 0 < next \<and>
     (\<forall>k i. M k = Some i \<longrightarrow> 0 < k \<and> k < next \<and> valid_symbol ctx (oi_symbol_id i) \<and> oi_side i \<noteq> kCount)"

definition counted :: "(u64 \<Rightarrow> OrderInfo option) \<Rightarrow> u32 list \<Rightarrow> bool" where
  "counted M P \<longleftrightarrow> (\<forall>s < length P. unat (P ! s) = card {k. \<exists>i. M k = Some i \<and> unat (oi_symbol_id i - 1) = s})"

text \<open>A resting active order is a tracked order of that symbol and side.\<close>

definition active_ok :: "StrategyCtx \<Rightarrow> (u64 \<Rightarrow> OrderInfo option) \<Rightarrow> ActiveOrder list \<Rightarrow> bool" where
  "active_ok ctx M A \<longleftrightarrow> (\<forall>s d. valid_symbol ctx s \<longrightarrow> d \<noteq> kCount \<longrightarrow> ao_resting (A ! active_index s d) \<longrightarrow>
     (\<exists>i. M (ao_client_order_id (A ! active_index s d)) = Some i \<and> oi_symbol_id i = s \<and> oi_side i = d))"

text \<open>The armed timers are exactly those of the tracked orders.\<close>

definition timers_ok :: "(u64 \<Rightarrow> OrderInfo option) \<Rightarrow> (unit, u64) TimingWheel \<Rightarrow> bool" where
  "timers_ok M w \<longleftrightarrow>
     (\<forall>j n cb c. tw_timers w j = Some (n, cb, c) \<longrightarrow> (\<exists>k i. c = Some k \<and> M k = Some i \<and> oi_timer_handle i = tw_handle w j)) \<and>
     (\<forall>k i. M k = Some i \<longrightarrow> (\<exists>j n cb. oi_timer_handle i = tw_handle w j \<and> tw_timers w j = Some (n, cb, Some k)))"

definition om_core :: "OrderManager \<Rightarrow> bool" where
  "om_core om \<longleftrightarrow> om_arrays om \<and> om_config om \<and> hm_inv (om_outstanding om) \<and> tw_inv (om_timeout_wheel om) \<and>
     unat (om_outstanding_count om) = card (dom (om_orders om)) \<and>
     om_outstanding_count om \<le> sc_max_outstanding (om_ctx om) \<and>
     orders_ok (om_ctx om) (om_orders om) (om_next_order_id om) \<and> counted (om_orders om) (om_per_symbol om) \<and>
     active_ok (om_ctx om) (om_orders om) (om_active_orders om) \<and> om_kill_switch_state om \<noteq> kCancelling"

definition om_inv :: "OrderManager \<Rightarrow> bool" where
  "om_inv om \<longleftrightarrow> om_core om \<and>
     (if om_kill_switch_state om = kNormal then timers_ok (om_orders om) (om_timeout_wheel om)
      else tw_timers (om_timeout_wheel om) = Map.empty)"

lemma finite_lookup: "finite (dom (hm_lookup m))"
  by (simp add: hm_lookup_def finite_dom_map_of)

section \<open>Parts of the invariant under updates of the map\<close>

lemma valid_symbol_index:
  assumes "valid_symbol ctx s"
  shows "unat (s - 1) < unat (sc_max_symbols ctx)"
proof -
  have "unat (s - 1) = unat s - 1" using assms by (simp add: valid_symbol_def unat_minus_one)
  moreover have "0 < unat s" "unat s \<le> unat (sc_max_symbols ctx)"
    using assms by (auto simp: valid_symbol_def word_le_nat_alt unat_gt_0)
  ultimately show ?thesis by linarith
qed

lemma symbol_index_inj:
  fixes s t :: u32
  shows "unat (s - 1) = unat (t - 1) \<longleftrightarrow> s = t"
  by (metis diff_eq_eq word_unat_eq_iff)

lemma side_code_less: "d \<noteq> kCount \<Longrightarrow> unat (Side_code d) < 2"
  by (cases d) auto

lemma side_code_inj: "Side_code d = Side_code e \<Longrightarrow> d = e"
  by (cases d; cases e) auto

lemma active_index_less:
  assumes "valid_symbol ctx s" "d \<noteq> kCount"
  shows "active_index s d < unat (sc_max_symbols ctx) * kSideCount"
  using valid_symbol_index [OF assms(1)] side_code_less [OF assms(2)]
  by (simp add: active_index_def kSideCount_def)

lemma active_index_inj:
  assumes "d \<noteq> kCount" "e \<noteq> kCount"
  shows "active_index s d = active_index t e \<longleftrightarrow> s = t \<and> d = e"
proof
  assume "active_index s d = active_index t e"
  then have e: "unat (s - 1) * 2 + unat (Side_code d) = unat (t - 1) * 2 + unat (Side_code e)"
    by (simp add: active_index_def kSideCount_def)
  then have "unat (s - 1) = unat (t - 1) \<and> unat (Side_code d) = unat (Side_code e)"
    using side_code_less [OF assms(1)] side_code_less [OF assms(2)] by presburger
  then show "s = t \<and> d = e" using symbol_index_inj side_code_inj by (metis word_unat_eq_iff)
qed simp

lemma counted_remove:
  assumes c: "counted M P" and k: "M k = Some i" and fin: "finite (dom M)" and s: "unat (oi_symbol_id i - 1) < length P"
  shows "counted (M(k := None)) (P[unat (oi_symbol_id i - 1) := P ! unat (oi_symbol_id i - 1) - 1])"
  unfolding counted_def
proof (intro allI impI)
  fix t assume t: "t < length (P[unat (oi_symbol_id i - 1) := P ! unat (oi_symbol_id i - 1) - 1])"
  let ?S = "\<lambda>M. {k. \<exists>i. M k = Some i \<and> unat (oi_symbol_id i - 1) = t}"
  have c': "unat (P ! t) = card (?S M)" using c t by (simp add: counted_def)
  have fin': "finite (?S M)" by (rule finite_subset [OF _ fin]) auto
  show "unat (P[unat (oi_symbol_id i - 1) := P ! unat (oi_symbol_id i - 1) - 1] ! t) = card (?S (M(k := None)))"
  proof (cases "t = unat (oi_symbol_id i - 1)")
    case True
    then have e: "?S (M(k := None)) = ?S M - {k}" "k \<in> ?S M" using k by (auto split: if_splits)
    then have "card (?S (M(k := None))) = card (?S M) - 1" using fin' by simp
    moreover have "0 < card (?S M)" using e(2) fin' card_gt_0_iff by blast
    moreover have "unat (P ! t - 1) = unat (P ! t) - 1" using c' \<open>0 < card (?S M)\<close> by (intro unat_minus_one) (metis less_numeral_extra(3) unat_0)
    ultimately show ?thesis using c' True s by (metis nth_list_update_eq)
  next
    case False
    then have "?S (M(k := None)) = ?S M" using k by (auto split: if_splits)
    then show ?thesis using c' False by simp
  qed
qed

lemma counted_insert:
  assumes c: "counted M P" and k: "M k = None" and fin: "finite (dom M)" and n: "card (dom M) < 2 ^ 32 - 1"
    and s: "unat (oi_symbol_id i - 1) < length P"
  shows "counted (M(k \<mapsto> i)) (P[unat (oi_symbol_id i - 1) := P ! unat (oi_symbol_id i - 1) + 1])"
  unfolding counted_def
proof (intro allI impI)
  fix t assume t: "t < length (P[unat (oi_symbol_id i - 1) := P ! unat (oi_symbol_id i - 1) + 1])"
  let ?S = "\<lambda>M. {k. \<exists>i. M k = Some i \<and> unat (oi_symbol_id i - 1) = t}"
  have c': "unat (P ! t) = card (?S M)" using c t by (simp add: counted_def)
  have sub: "?S M \<subseteq> dom M" by auto
  then have fin': "finite (?S M)" and le: "card (?S M) \<le> card (dom M)"
    using fin finite_subset card_mono by blast+
  show "unat (P[unat (oi_symbol_id i - 1) := P ! unat (oi_symbol_id i - 1) + 1] ! t) = card (?S (M(k \<mapsto> i)))"
  proof (cases "t = unat (oi_symbol_id i - 1)")
    case True
    then have e: "?S (M(k \<mapsto> i)) = insert k (?S M)" "k \<notin> ?S M" using k by (auto split: if_splits)
    then show ?thesis using c' True s fin' le n by (simp add: unat_word_ariths)
  next
    case False
    then have "?S (M(k \<mapsto> i)) = ?S M" using k by (auto split: if_splits)
    then show ?thesis using c' False by simp
  qed
qed

text \<open>Clearing the active slot of an order, as \<^verbatim>\<open>clear_active_if_match\<close> does.\<close>

definition cleared :: "ActiveOrder list \<Rightarrow> u32 \<Rightarrow> Side \<Rightarrow> u64 \<Rightarrow> ActiveOrder list" where
  "cleared A s d k = (if ao_resting (A ! active_index s d) \<and> ao_client_order_id (A ! active_index s d) = k
     then A[active_index s d := (A ! active_index s d)\<lparr>ao_resting := False\<rparr>] else A)"

lemma clear_active_eq:
  assumes "om_arrays om" "valid_symbol (om_ctx om) s" "d \<noteq> kCount"
  shows "clear_active_if_match om s d k = Some (om\<lparr>om_active_orders := cleared (om_active_orders om) s d k\<rparr>)"
proof -
  have "active_index s d < length (om_active_orders om)"
    using assms active_index_less [OF assms(2,3)] by (simp add: om_arrays_def)
  moreover have "\<not> (s = 0 \<or> s > sc_max_symbols (om_ctx om))" using assms(2) by (auto simp: valid_symbol_def)
  ultimately show ?thesis
    by (simp add: clear_active_if_match_def arr_get_def arr_upd_def cleared_def)
qed

lemma length_cleared [simp]: "length (cleared A s d k) = length A"
  by (simp add: cleared_def)

lemma active_remove:
  assumes a: "active_ok ctx M A" and k: "M k = Some i" and i: "valid_symbol ctx (oi_symbol_id i)" "oi_side i \<noteq> kCount"
    and len: "length A = unat (sc_max_symbols ctx) * kSideCount"
  shows "active_ok ctx (M(k := None)) (cleared A (oi_symbol_id i) (oi_side i) k)"
  unfolding active_ok_def
proof (intro allI impI)
  fix s d assume s: "valid_symbol ctx s" "d \<noteq> kCount"
    and r: "ao_resting (cleared A (oi_symbol_id i) (oi_side i) k ! active_index s d)"
  let ?C = "cleared A (oi_symbol_id i) (oi_side i) k"
  have b: "active_index (oi_symbol_id i) (oi_side i) < length A" using active_index_less [OF i] len by simp
  have A: "?C ! active_index s d = A ! active_index s d" "\<not> (active_index s d = active_index (oi_symbol_id i) (oi_side i) \<and>
      ao_client_order_id (A ! active_index s d) = k)"
    using r b by (cases "active_index s d = active_index (oi_symbol_id i) (oi_side i)"; simp add: cleared_def split: if_splits)+
  then have "ao_resting (A ! active_index s d)" using r by simp
  then obtain x where x: "M (ao_client_order_id (A ! active_index s d)) = Some x" "oi_symbol_id x = s" "oi_side x = d"
    using a s unfolding active_ok_def by blast
  have "ao_client_order_id (A ! active_index s d) \<noteq> k" using x k A(2) by auto
  then show "\<exists>x. (M(k := None)) (ao_client_order_id (?C ! active_index s d)) = Some x \<and> oi_symbol_id x = s \<and> oi_side x = d"
    using x A(1) by simp
qed

lemma active_insert:
  assumes a: "active_ok ctx M A" and k: "M k = None" and i: "valid_symbol ctx (oi_symbol_id i)" "oi_side i \<noteq> kCount"
    and len: "length A = unat (sc_max_symbols ctx) * kSideCount" and x: "ao_client_order_id x = k"
  shows "active_ok ctx (M(k \<mapsto> i)) (A[active_index (oi_symbol_id i) (oi_side i) := x])"
  unfolding active_ok_def
proof (intro allI impI)
  fix s d assume s: "valid_symbol ctx s" "d \<noteq> kCount"
    and r: "ao_resting (A[active_index (oi_symbol_id i) (oi_side i) := x] ! active_index s d)"
  let ?j = "active_index (oi_symbol_id i) (oi_side i)"
  have b: "?j < length A" using active_index_less [OF i] len by simp
  show "\<exists>y. (M(k \<mapsto> i)) (ao_client_order_id (A[?j := x] ! active_index s d)) = Some y \<and> oi_symbol_id y = s \<and> oi_side y = d"
  proof (cases "active_index s d = ?j")
    case True
    then have "s = oi_symbol_id i" "d = oi_side i" using active_index_inj s(2) i(2) by blast+
    then show ?thesis using True b x by simp
  next
    case False
    then obtain y where "M (ao_client_order_id (A ! active_index s d)) = Some y" "oi_symbol_id y = s" "oi_side y = d"
      using a s r unfolding active_ok_def by auto
    then show ?thesis using False k by (intro exI [of _ y]) auto
  qed
qed

section \<open>Timers\<close>

lemma armed_less: "tw_timers w i \<noteq> None \<Longrightarrow> i < tw_max_timers w"
  by (simp add: tw_timers_def split: if_splits)

lemma handle_inj:
  assumes "tw_inv w" "tw_timers w i \<noteq> None" "tw_timers w j \<noteq> None" "tw_handle w i = tw_handle w j"
  shows "i = j"
  using handle_unpack [OF assms(1) armed_less [OF assms(2)]] handle_unpack [OF assms(1) armed_less [OF assms(3)]] assms(4)
  by (metis fst_conv)

lemma timers_remove:
  assumes inv: "tw_inv w" and ok: "timers_ok M w" and k: "M k = Some i"
  obtains w' where "tw_cancel w (oi_timer_handle i) = Some (True, w')" "tw_inv w'" "timers_ok (M(k := None)) w'"
    "tw_wheel_size w' = tw_wheel_size w" "tw_max_timers w' = tw_max_timers w"
proof -
  obtain j n cb where j: "oi_timer_handle i = tw_handle w j" "tw_timers w j = Some (n, cb, Some k)"
    using ok k unfolding timers_ok_def by blast
  have jn: "tw_timers w j \<noteq> None" using j(2) by simp
  show thesis
    using inv
  proof (cases rule: cancel_spec [where h = "oi_timer_handle i"])
    case (hit j' w')
    have e: "j' = j" using handle_inj [OF inv hit(1) jn] hit(2) j(1) by simp
    have h: "tw_handle w' x = tw_handle w x" if "x \<noteq> j" for x using hit(6) e that unfolding tw_handle_def by metis
    have "timers_ok (M(k := None)) w'"
      unfolding timers_ok_def
    proof (intro conjI allI impI)
      fix x n cb c assume x: "tw_timers w' x = Some (n, cb, c)"
      then have x': "x \<noteq> j" "tw_timers w x = Some (n, cb, c)" using hit(5) e by (auto split: if_splits)
      then obtain k' i' where k': "c = Some k'" "M k' = Some i'" "oi_timer_handle i' = tw_handle w x"
        using ok unfolding timers_ok_def by blast
      have xn: "tw_timers w x \<noteq> None" using x'(2) by simp
      have "k' \<noteq> k" using k' k j(1) handle_inj [OF inv xn jn] x'(1) by auto
      then show "\<exists>k' i'. c = Some k' \<and> (M(k := None)) k' = Some i' \<and> oi_timer_handle i' = tw_handle w' x"
        using k' h x'(1) by simp
    next
      fix k' i' assume "(M(k := None)) k' = Some i'"
      then have k': "k' \<noteq> k" "M k' = Some i'" by (auto split: if_splits)
      then obtain x n cb where x: "oi_timer_handle i' = tw_handle w x" "tw_timers w x = Some (n, cb, Some k')"
        using ok unfolding timers_ok_def by blast
      have "x \<noteq> j" using x(2) j(2) k'(1) by auto
      then show "\<exists>x n cb. oi_timer_handle i' = tw_handle w' x \<and> tw_timers w' x = Some (n, cb, Some k')"
        using x h hit(5) e by auto
    qed
    then show thesis using that hit(3,4,7,8) by blast
  next
    case miss
    then show thesis using j(1) jn by blast
  qed
qed

lemma timers_insert:
  assumes inv: "tw_inv w" "tw_inv w'" and ok: "timers_ok M w" and k: "M k = None"
    and w': "tw_timers w j = None" "tw_timers w' = (tw_timers w)(j \<mapsto> (n, cb, Some k))"
      "\<forall>x < tw_max_timers w. tn_gen (tw_nodes w' ! x) = tn_gen (tw_nodes w ! x)" and i: "oi_timer_handle i = tw_handle w' j"
  shows "timers_ok (M(k \<mapsto> i)) w'"
  unfolding timers_ok_def
proof (intro conjI allI impI)
  have h: "tw_handle w' x = tw_handle w x" if "tw_timers w x \<noteq> None" for x
    using w'(3) armed_less [OF that] by (simp add: tw_handle_def)
  fix x n' cb' c assume x: "tw_timers w' x = Some (n', cb', c)"
  show "\<exists>k' i'. c = Some k' \<and> (M(k \<mapsto> i)) k' = Some i' \<and> oi_timer_handle i' = tw_handle w' x"
  proof (cases "x = j")
    case True
    then show ?thesis using x w'(2) i by auto
  next
    case False
    then have x': "tw_timers w x = Some (n', cb', c)" using x w'(2) by simp
    then obtain k' i' where "c = Some k'" "M k' = Some i'" "oi_timer_handle i' = tw_handle w x"
      using ok unfolding timers_ok_def by blast
    then show ?thesis using h [of x] x' k by (intro exI [of _ k'] exI [of _ i']) auto
  qed
next
  have h: "tw_handle w' x = tw_handle w x" if "tw_timers w x \<noteq> None" for x
    using w'(3) armed_less [OF that] by (simp add: tw_handle_def)
  fix k' i' assume k': "(M(k \<mapsto> i)) k' = Some i'"
  show "\<exists>x n cb. oi_timer_handle i' = tw_handle w' x \<and> tw_timers w' x = Some (n, cb, Some k')"
  proof (cases "k' = k")
    case True
    then show ?thesis using k' i w'(2) by auto
  next
    case False
    then have "M k' = Some i'" using k' by simp
    then obtain x n'' cb'' where x: "oi_timer_handle i' = tw_handle w x" "tw_timers w x = Some (n'', cb'', Some k')"
      using ok unfolding timers_ok_def by blast
    then have "x \<noteq> j" using w'(1) by auto
    then show ?thesis using x h [of x] w'(2) by (intro exI [of _ x] exI [of _ n''] exI [of _ cb'']) auto
  qed
qed

section \<open>Removing an order\<close>

lemma om_coreD:
  assumes "om_core om"
  shows "om_arrays om" "om_config om" "hm_inv (om_outstanding om)" "tw_inv (om_timeout_wheel om)"
    "unat (om_outstanding_count om) = card (dom (om_orders om))"
    "om_outstanding_count om \<le> sc_max_outstanding (om_ctx om)"
    "orders_ok (om_ctx om) (om_orders om) (om_next_order_id om)" "counted (om_orders om) (om_per_symbol om)"
    "active_ok (om_ctx om) (om_orders om) (om_active_orders om)" "om_kill_switch_state om \<noteq> kCancelling"
  using assms by (simp_all add: om_core_def)

lemma orders_okD:
  assumes "om_core om" "om_orders om k = Some i"
  shows "0 < k" "k < om_next_order_id om" "valid_symbol (om_ctx om) (oi_symbol_id i)" "oi_side i \<noteq> kCount"
  using om_coreD(7) [OF assms(1)] assms(2) by (auto simp: orders_ok_def)

lemma orders_ok_remove: "orders_ok ctx M next \<Longrightarrow> orders_ok ctx (M(k := None)) next"
  by (auto simp: orders_ok_def)

lemma drop_core:
  assumes core: "om_core om" and k: "om_orders om k = Some i"
  obtains m A P where "untrack om i k = Some (om\<lparr>om_active_orders := A, om_per_symbol := P\<rparr>)"
    "drop_outstanding (om\<lparr>om_active_orders := A, om_per_symbol := P\<rparr>) k =
       Some (om\<lparr>om_active_orders := A, om_per_symbol := P, om_outstanding := m, om_outstanding_count := om_outstanding_count om - 1\<rparr>)"
    "hm_lookup m = (om_orders om)(k := None)"
    "om_core (om\<lparr>om_active_orders := A, om_per_symbol := P, om_outstanding := m, om_outstanding_count := om_outstanding_count om - 1\<rparr>)"
proof -
  note C = om_coreD [OF core] and K = orders_okD [OF core k]
  let ?A = "cleared (om_active_orders om) (oi_symbol_id i) (oi_side i) k"
  let ?s = "unat (oi_symbol_id i - 1)"
  let ?P = "(om_per_symbol om)[?s := om_per_symbol om ! ?s - 1]"
  have s: "?s < length (om_per_symbol om)" using valid_symbol_index [OF K(3)] C(1) by (simp add: om_arrays_def)
  have u: "untrack om i k = Some (om\<lparr>om_active_orders := ?A, om_per_symbol := ?P\<rparr>)"
    using s by (simp add: untrack_def clear_active_eq [OF C(1) K(3,4)] arr_upd_def)
  obtain m where m: "hm_erase (om_outstanding om) k = Some (True, m)" "hm_inv m" "hm_lookup m = (om_orders om)(k := None)"
    using hmap.eraseE [OF C(3), of k] k by auto
  have fin: "finite (dom (om_orders om))" by (rule finite_lookup)
  have kd: "k \<in> dom (om_orders om)" using k by blast
  have card: "card (dom (hm_lookup m)) = card (dom (om_orders om)) - 1" "0 < card (dom (om_orders om))"
    using m(3) fin kd card_gt_0_iff by (simp, blast)
  then have pos: "om_outstanding_count om \<noteq> 0" using C(5) by auto
  then have c: "unat (om_outstanding_count om - 1) = unat (om_outstanding_count om) - 1" by (rule unat_minus_one)
  have d: "drop_outstanding (om\<lparr>om_active_orders := ?A, om_per_symbol := ?P\<rparr>) k =
      Some (om\<lparr>om_active_orders := ?A, om_per_symbol := ?P, om_outstanding := m, om_outstanding_count := om_outstanding_count om - 1\<rparr>)"
    using m(1) pos by (simp add: drop_outstanding_def word_neq_0_conv)
  have "om_core (om\<lparr>om_active_orders := ?A, om_per_symbol := ?P, om_outstanding := m, om_outstanding_count := om_outstanding_count om - 1\<rparr>)"
    unfolding om_core_def
    using C m(2,3) c card orders_ok_remove [OF C(7)] counted_remove [OF C(8) k fin s]
      active_remove [OF C(9) k K(3,4)]
    by (simp add: om_arrays_def om_config_def order_delay_def word_le_nat_alt)
  then show thesis using that u d m(3) by blast
qed

lemma compact_core:
  assumes "om_core om"
  obtains m where "maybe_compact_outstanding om = om\<lparr>om_outstanding := m\<rparr>" "hm_lookup m = om_orders om"
    "om_core (om\<lparr>om_outstanding := m\<rparr>)"
proof (cases "om_outstanding_count om = 0 \<and> hm_needs_rebuild (om_outstanding om)")
  case True
  note C = om_coreD [OF assms]
  have "om_orders om = Map.empty" using True C(5) finite_lookup [of "om_outstanding om"] by simp
  then have l: "hm_lookup (hm_clear (om_outstanding om)) = om_orders om" using hmap.clear(2) [OF C(3)] by simp
  have "om_core (om\<lparr>om_outstanding := hm_clear (om_outstanding om)\<rparr>)"
    unfolding om_core_def using C hmap.clear(1) [OF C(3)] l
    by (simp add: om_arrays_def om_config_def order_delay_def)
  moreover have "maybe_compact_outstanding om = om\<lparr>om_outstanding := hm_clear (om_outstanding om)\<rparr>"
    using True by (simp add: maybe_compact_outstanding_def)
  ultimately show thesis using that l by blast
next
  case False
  then have "maybe_compact_outstanding om = om\<lparr>om_outstanding := om_outstanding om\<rparr>"
    unfolding maybe_compact_outstanding_def by (simp only: if_False) simp
  then show thesis by (rule that) (use assms in simp_all)
qed

end
