(* ===== verification/OrderManagerOps.thy ===== *)
theory OrderManagerOps
  imports OrderManagerInv
begin

text \<open>
  What each operation of the order manager does to a state that satisfies the invariant.
\<close>

section \<open>Fields outside the invariant\<close>

lemma om_core_frame [simp]:
  "om_core (om\<lparr>om_stats := x\<rparr>) = om_core om" "om_core (om\<lparr>om_tokens := t\<rparr>) = om_core om"
  "om_core (om\<lparr>om_last_refill_ts := r\<rparr>) = om_core om" "om_core (om\<lparr>om_pending_cancel_count := p\<rparr>) = om_core om"
  by (simp_all add: om_core_def om_arrays_def om_config_def order_delay_def)

lemma om_inv_frame [simp]:
  "om_inv (om\<lparr>om_stats := x\<rparr>) = om_inv om" "om_inv (om\<lparr>om_tokens := t\<rparr>) = om_inv om"
  "om_inv (om\<lparr>om_last_refill_ts := r\<rparr>) = om_inv om" "om_inv (om\<lparr>om_pending_cancel_count := p\<rparr>) = om_inv om"
  by (simp_all add: om_inv_def)

lemma om_inv_position:
  assumes "om_inv om" "length np = length (om_net_position om)"
  shows "om_inv (om\<lparr>om_net_position := np\<rparr>)"
  using assms by (simp add: om_inv_def om_core_def om_arrays_def om_config_def order_delay_def)

lemma om_inv_core: "om_inv om \<Longrightarrow> om_core om"
  by (simp add: om_inv_def)

lemma om_core_wheel:
  assumes "om_core om" "tw_inv w" "tw_wheel_size w = tw_wheel_size (om_timeout_wheel om)"
    "tw_max_timers w = tw_max_timers (om_timeout_wheel om)"
  shows "om_core (om\<lparr>om_timeout_wheel := w\<rparr>)"
  using assms by (simp add: om_core_def om_arrays_def om_config_def order_delay_def)

section \<open>Removing a tracked order\<close>

lemma cancel_timer_spec:
  assumes inv: "om_inv om" and k: "om_orders om k = Some i"
  obtains w where "cancel_timer om i = Some (om\<lparr>om_timeout_wheel := w\<rparr>)" "om_core (om\<lparr>om_timeout_wheel := w\<rparr>)"
    "if om_kill_switch_state om = kNormal then timers_ok ((om_orders om)(k := None)) w else tw_timers w = Map.empty"
proof (cases "om_kill_switch_state om = kNormal")
  case True
  note C = om_coreD [OF om_inv_core [OF inv]]
  have ok: "timers_ok (om_orders om) (om_timeout_wheel om)" using inv True by (simp add: om_inv_def)
  obtain w where "tw_cancel (om_timeout_wheel om) (oi_timer_handle i) = Some (True, w)" "tw_inv w"
    "timers_ok ((om_orders om)(k := None)) w" "tw_wheel_size w = tw_wheel_size (om_timeout_wheel om)"
    "tw_max_timers w = tw_max_timers (om_timeout_wheel om)"
    by (rule timers_remove [where M = "om_orders om", OF C(4) ok k])
  then show thesis using that om_core_wheel [OF om_inv_core [OF inv]] True by (simp add: cancel_timer_def)
next
  case False
  note C = om_coreD [OF om_inv_core [OF inv]]
  have e: "tw_timers (om_timeout_wheel om) = Map.empty" using inv False by (simp add: om_inv_def)
  have "tw_cancel (om_timeout_wheel om) (oi_timer_handle i) = Some (False, om_timeout_wheel om)"
    using C(4) by (cases rule: cancel_spec [where h = "oi_timer_handle i"]) (use e in auto)
  then show thesis using that [of "om_timeout_wheel om"] om_inv_core [OF inv] False e by (simp add: cancel_timer_def)
qed

text \<open>The four fields that change when an order goes away, besides the wheel.\<close>

definition released :: "OrderManager \<Rightarrow> u64 \<Rightarrow> OrderManager \<Rightarrow> bool" where
  "released om k om' \<longleftrightarrow> om_inv om' \<and> om_orders om' = (om_orders om)(k := None) \<and>
     (\<exists>w m A P. om' = om\<lparr>om_timeout_wheel := w, om_outstanding := m, om_active_orders := A, om_per_symbol := P,
        om_outstanding_count := om_outstanding_count om - 1\<rparr>)"

lemma release_order:
  assumes inv: "om_inv om" and k: "om_orders om k = Some i"
  obtains om1 om2 om3 where "cancel_timer om i = Some om1" "untrack om1 i k = Some om2" "drop_outstanding om2 k = Some om3"
    "released om k (maybe_compact_outstanding om3)"
proof -
  obtain w where w: "cancel_timer om i = Some (om\<lparr>om_timeout_wheel := w\<rparr>)" "om_core (om\<lparr>om_timeout_wheel := w\<rparr>)"
    "if om_kill_switch_state om = kNormal then timers_ok ((om_orders om)(k := None)) w else tw_timers w = Map.empty"
    using cancel_timer_spec [OF inv k] by blast
  let ?om1 = "om\<lparr>om_timeout_wheel := w\<rparr>"
  have k1: "om_orders ?om1 k = Some i" using k by simp
  obtain m A P where d: "untrack ?om1 i k = Some (?om1\<lparr>om_active_orders := A, om_per_symbol := P\<rparr>)"
    "drop_outstanding (?om1\<lparr>om_active_orders := A, om_per_symbol := P\<rparr>) k =
       Some (?om1\<lparr>om_active_orders := A, om_per_symbol := P, om_outstanding := m, om_outstanding_count := om_outstanding_count ?om1 - 1\<rparr>)"
    "hm_lookup m = (om_orders ?om1)(k := None)"
    "om_core (?om1\<lparr>om_active_orders := A, om_per_symbol := P, om_outstanding := m, om_outstanding_count := om_outstanding_count ?om1 - 1\<rparr>)"
    by (rule drop_core [OF w(2) k1])
  let ?om3 = "?om1\<lparr>om_active_orders := A, om_per_symbol := P, om_outstanding := m, om_outstanding_count := om_outstanding_count ?om1 - 1\<rparr>"
  obtain m' where m': "maybe_compact_outstanding ?om3 = ?om3\<lparr>om_outstanding := m'\<rparr>" "hm_lookup m' = om_orders ?om3"
    "om_core (?om3\<lparr>om_outstanding := m'\<rparr>)"
    by (rule compact_core [OF d(4)])
  have "om_inv (?om3\<lparr>om_outstanding := m'\<rparr>)"
    unfolding om_inv_def using m'(2,3) d(3) w(3) by (simp split: if_splits)
  moreover have "om_orders (?om3\<lparr>om_outstanding := m'\<rparr>) = (om_orders om)(k := None)" using m'(2) d(3) by simp
  moreover have "?om3\<lparr>om_outstanding := m'\<rparr> = om\<lparr>om_timeout_wheel := w, om_outstanding := m', om_active_orders := A,
      om_per_symbol := P, om_outstanding_count := om_outstanding_count om - 1\<rparr>"
    by simp
  ultimately have "released om k (maybe_compact_outstanding ?om3)" unfolding released_def m'(1) by blast
  then show thesis using that w(1) d(1,2) by blast
qed

lemma released_normal: "released om k om' \<Longrightarrow> om_kill_switch_state om' = om_kill_switch_state om"
  by (auto simp: released_def)

lemma find_tracked: "om_inv om \<Longrightarrow> hm_find (om_outstanding om) k = Some (om_orders om k)"
  by (rule hmap.find [OF om_coreD(3) [OF om_inv_core]])

section \<open>Responses for tracked orders\<close>

lemma on_order_reject_tracked:
  assumes inv: "om_inv om" and k: "om_orders om (orj_client_order_id r) \<noteq> None"
  obtains om' where "on_order_reject om r = Some (om'\<lparr>om_stats := om_stats om\<lparr>st_rejects_received := st_rejects_received (om_stats om) + 1\<rparr>\<rparr>)"
    "released om (orj_client_order_id r) om'"
proof -
  obtain i where i: "om_orders om (orj_client_order_id r) = Some i" using k by blast
  obtain om1 om2 om3 where o: "cancel_timer om i = Some om1" "untrack om1 i (orj_client_order_id r) = Some om2"
    "drop_outstanding om2 (orj_client_order_id r) = Some om3" "released om (orj_client_order_id r) (maybe_compact_outstanding om3)"
    by (rule release_order [OF inv i])
  moreover have "om_stats (maybe_compact_outstanding om3) = om_stats om" using o(4) by (auto simp: released_def)
  ultimately show thesis using that [of "maybe_compact_outstanding om3"] find_tracked [OF inv] i
    by (simp add: on_order_reject_def Let_def)
qed

lemma drain_inv: "om_inv om \<Longrightarrow> om_inv (check_drain_complete om)"
  by (auto simp: check_drain_complete_def Let_def om_inv_def om_core_def om_arrays_def om_config_def order_delay_def)

lemma on_cancel_ack_tracked:
  assumes inv: "om_inv om" and k: "om_orders om (ca_client_order_id a) \<noteq> None"
  obtains om' where "on_cancel_ack om a = Some (check_drain_complete om')" "released om (ca_client_order_id a) om'"
proof -
  obtain i where i: "om_orders om (ca_client_order_id a) = Some i" using k by blast
  obtain om1 om2 om3 where "cancel_timer om i = Some om1" "untrack om1 i (ca_client_order_id a) = Some om2"
    "drop_outstanding om2 (ca_client_order_id a) = Some om3" "released om (ca_client_order_id a) (maybe_compact_outstanding om3)"
    by (rule release_order [OF inv i])
  then show thesis using that [of "maybe_compact_outstanding om3"] find_tracked [OF inv] i by (simp add: on_cancel_ack_def)
qed

lemma on_cancel_reject_spec:
  assumes inv: "om_inv om"
  obtains (tracked) om' where "on_cancel_reject om r = Some (check_drain_complete om')" "released om (crj_client_order_id r) om'"
  | (unknown) "on_cancel_reject om r = Some (check_drain_complete om)" "om_orders om (crj_client_order_id r) = None"
proof (cases "om_orders om (crj_client_order_id r)")
  case None
  then show thesis using unknown find_tracked [OF inv] by (simp add: on_cancel_reject_def)
next
  case (Some i)
  obtain om1 om2 om3 where "cancel_timer om i = Some om1" "untrack om1 i (crj_client_order_id r) = Some om2"
    "drop_outstanding om2 (crj_client_order_id r) = Some om3" "released om (crj_client_order_id r) (maybe_compact_outstanding om3)"
    by (rule release_order [OF inv Some])
  then show thesis using tracked [of "maybe_compact_outstanding om3"] find_tracked [OF inv] Some
    by (simp add: on_cancel_reject_def)
qed

lemma apply_fill_spec:
  assumes inv: "om_inv om" and k: "om_orders om k = Some i"
    and p: "i64_of (if oi_side i = kBid then sint (om_net_position om ! unat (oi_symbol_id i - 1)) + uint q
                    else sint (om_net_position om ! unat (oi_symbol_id i - 1)) - uint q) = Some p"
  shows "apply_fill om i q = Some (om\<lparr>om_net_position := (om_net_position om)[unat (oi_symbol_id i - 1) := p]\<rparr>)"
proof -
  note C = om_coreD [OF om_inv_core [OF inv]]
  have s: "unat (oi_symbol_id i - 1) < unat (sc_max_symbols (om_ctx om))"
    using valid_symbol_index orders_okD(3) [OF om_inv_core [OF inv] k] by blast
  then have "oi_symbol_id i - 1 < sc_max_symbols (om_ctx om)" by (simp add: word_less_nat_alt)
  moreover have "unat (oi_symbol_id i - 1) < length (om_net_position om)" using s C(1) by (simp add: om_arrays_def)
  ultimately show ?thesis using p by (simp add: apply_fill_def Let_def arr_get_def arr_upd_def)
qed

definition fill_stats :: "OmStats \<Rightarrow> FillReport \<Rightarrow> OmStats" where
  "fill_stats st f = st\<lparr>st_fills_received := st_fills_received st + 1,
     st_total_fill_qty := st_total_fill_qty st + ucast (fr_fill_qty f)\<rparr>"

lemma on_fill_tracked:
  assumes inv: "om_inv om" and k: "om_orders om (fr_client_order_id f) = Some i"
    and p: "i64_of (if oi_side i = kBid then sint (om_net_position om ! unat (oi_symbol_id i - 1)) + uint (fr_fill_qty f)
                    else sint (om_net_position om ! unat (oi_symbol_id i - 1)) - uint (fr_fill_qty f)) = Some p"
    and om1: "om1 = om\<lparr>om_net_position := (om_net_position om)[unat (oi_symbol_id i - 1) := p]\<rparr>"
  obtains (partial) "fr_remaining_qty f \<noteq> 0" "on_fill om f = Some (om1\<lparr>om_stats := fill_stats (om_stats om) f\<rparr>)" "om_inv om1"
  | (full) om' where "fr_remaining_qty f = 0" "on_fill om f = Some (om'\<lparr>om_stats := fill_stats (om_stats om) f\<rparr>)"
      "released om1 (fr_client_order_id f) om'"
proof (cases "fr_remaining_qty f = 0")
  case False
  have "om_inv om1" unfolding om1 by (rule om_inv_position [OF inv]) simp
  then show thesis using partial False find_tracked [OF inv] k apply_fill_spec [OF inv k p] om1
    by (simp add: on_fill_def fill_stats_def)
next
  case True
  have inv1: "om_inv om1" unfolding om1 by (rule om_inv_position [OF inv]) simp
  have k1: "om_orders om1 (fr_client_order_id f) = Some i" using k om1 by simp
  obtain om2 om3 om4 where o: "cancel_timer om1 i = Some om2" "untrack om2 i (fr_client_order_id f) = Some om3"
    "drop_outstanding om3 (fr_client_order_id f) = Some om4" "released om1 (fr_client_order_id f) (maybe_compact_outstanding om4)"
    by (rule release_order [OF inv1 k1])
  moreover have "om_stats (maybe_compact_outstanding om4) = om_stats om" using o(4) om1 by (auto simp: released_def)
  ultimately show thesis
    using full [of "maybe_compact_outstanding om4"] True find_tracked [OF inv] k apply_fill_spec [OF inv k p] om1
    by (simp add: on_fill_def fill_stats_def)
qed

lemma on_modify_reject_spec:
  assumes inv: "om_inv om"
  obtains A where "on_modify_reject om r = Some (om\<lparr>om_active_orders := A,
      om_stats := om_stats om\<lparr>st_modifies_rejected := st_modifies_rejected (om_stats om) + 1\<rparr>\<rparr>)"
    "om_inv (om\<lparr>om_active_orders := A\<rparr>)"
proof (cases "om_orders om (mrj_client_order_id r)")
  case None
  then show thesis using that [of "om_active_orders om"] find_tracked [OF inv] inv by (simp add: on_modify_reject_def)
next
  case (Some i)
  note C = om_coreD [OF om_inv_core [OF inv]] and K = orders_okD [OF om_inv_core [OF inv] Some]
  let ?A = "cleared (om_active_orders om) (oi_symbol_id i) (oi_side i) (mrj_client_order_id r)"
  have len: "length (om_active_orders om) = unat (sc_max_symbols (om_ctx om)) * kSideCount" using C(1) by (simp add: om_arrays_def)
  have "active_ok (om_ctx om) ((om_orders om)(mrj_client_order_id r := None)) ?A"
    by (rule active_remove [where M = "om_orders om", OF C(9) Some K(3,4) len])
  then have "active_ok (om_ctx om) (om_orders om) ?A"
    unfolding active_ok_def by (metis fun_upd_apply option.distinct(1))
  then have "om_inv (om\<lparr>om_active_orders := ?A\<rparr>)"
    using inv by (simp add: om_inv_def om_core_def om_arrays_def om_config_def order_delay_def)
  then show thesis using that [of ?A] find_tracked [OF inv] Some clear_active_eq [OF C(1) K(3,4)]
    by (simp add: on_modify_reject_def)
qed

section \<open>Signals\<close>

lemma check_modify_spec:
  assumes inv: "om_inv om" and v: "valid_symbol (om_ctx om) (sig_symbol_id sg)" "sig_side sg \<noteq> kCount"
  obtains (no) "check_modify om sg now out = Some (False, out, om)"
  | (yes) om' i out' where "check_modify om sg now out = Some (True, out', om')" "om_inv om'" "om_kill_switch_state om = kNormal"
      "om_orders om (mo_client_order_id out') = Some i" "oi_symbol_id i = sig_symbol_id sg" "oi_side i = sig_side sg"
      "mo_symbol_id out' = sig_symbol_id sg" "mo_new_price out' = sig_price sg" "mo_new_qty out' = sig_qty sg"
      "om_orders om' = om_orders om" "om_kill_switch_state om' = om_kill_switch_state om"
proof -
  note C = om_coreD [OF om_inv_core [OF inv]]
  let ?j = "active_index (sig_symbol_id sg) (sig_side sg)"
  let ?a = "om_active_orders om ! ?j"
  have len: "length (om_active_orders om) = unat (sc_max_symbols (om_ctx om)) * kSideCount" using C(1) by (simp add: om_arrays_def)
  have j: "?j < length (om_active_orders om)" using active_index_less [OF v] len by simp
  show thesis
  proof (cases "om_kill_switch_state om = kNormal \<and> ao_resting ?a \<and> ao_price ?a \<noteq> sig_price sg")
    case False
    then have "check_modify om sg now out = Some (False, out, om)"
      using j by (auto simp: check_modify_def arr_get_def Let_def)
    then show thesis by (rule no)
  next
    case True
    let ?A = "(om_active_orders om)[?j := ?a\<lparr>ao_price := sig_price sg, ao_qty := sig_qty sg\<rparr>]"
    let ?om = "om\<lparr>om_active_orders := ?A, om_stats := om_stats om\<lparr>st_modifies_sent := st_modifies_sent (om_stats om) + 1\<rparr>\<rparr>"
    obtain i where i: "om_orders om (ao_client_order_id ?a) = Some i" "oi_symbol_id i = sig_symbol_id sg" "oi_side i = sig_side sg"
      using C(9) v True unfolding active_ok_def by blast
    have same: "ao_resting (?A ! x) = ao_resting (om_active_orders om ! x)"
      "ao_client_order_id (?A ! x) = ao_client_order_id (om_active_orders om ! x)" for x
      using j by (simp_all add: nth_list_update)
    have "active_ok (om_ctx om) (om_orders om) ?A" using C(9) unfolding active_ok_def same .
    then have "om_inv ?om" using inv by (simp add: om_inv_def om_core_def om_arrays_def om_config_def order_delay_def)
    moreover have "check_modify om sg now out = Some (True, \<lparr>mo_client_order_id = ao_client_order_id ?a,
        mo_symbol_id = sig_symbol_id sg, mo_new_price = sig_price sg, mo_new_qty = sig_qty sg, mo_send_ts = now\<rparr>, ?om)"
      using True j by (simp add: check_modify_def arr_get_def arr_upd_def Let_def)
    ultimately show thesis using yes i True by simp
  qed
qed

lemma refill_spec:
  assumes "refill_tokens om now = Some om1"
  obtains t r where "om1 = om\<lparr>om_tokens := t, om_last_refill_ts := r\<rparr>"
proof -
  have "\<exists>t r. om1 = om\<lparr>om_tokens := t, om_last_refill_ts := r\<rparr>"
  proof (cases "om1 = om")
    case True
    then show ?thesis by (intro exI [of _ "om_tokens om"] exI [of _ "om_last_refill_ts om"]) simp
  next
    case False
    then show ?thesis using assms
      by (auto simp: refill_tokens_def Let_def elim!: bind_eq_SomeE split: if_splits) (intro exI, rule refl)
  qed
  then show thesis using that by blast
qed

text \<open>There are at most as many armed timers as tracked orders.\<close>

lemma armed_card:
  fixes w :: "(unit, u64) TimingWheel"
  assumes inv: "tw_inv w" and ok: "timers_ok M w" and fin: "finite (dom M)"
  shows "card (dom (tw_timers w)) \<le> card (dom M)"
proof -
  define g where "g j = (case tw_timers w j of Some (_, _, Some k) \<Rightarrow> k | _ \<Rightarrow> 0)" for j
  have g: "\<exists>i. M (g j) = Some i \<and> oi_timer_handle i = tw_handle w j" if d: "j \<in> dom (tw_timers w)" for j
  proof -
    obtain t where "tw_timers w j = Some t" using d by blast
    moreover obtain n cb c where "t = (n, cb, c)" by (rule prod_cases3)
    ultimately have j: "tw_timers w j = Some (n, cb, c)" by simp
    then obtain k i where "c = Some k" "M k = Some i" "oi_timer_handle i = tw_handle w j"
      using ok unfolding timers_ok_def by blast
    then show ?thesis using j by (simp add: g_def)
  qed
  have "inj_on g (dom (tw_timers w))"
  proof (rule inj_onI)
    fix x y assume xy: "x \<in> dom (tw_timers w)" "y \<in> dom (tw_timers w)" "g x = g y"
    then have "tw_handle w x = tw_handle w y" using g [OF xy(1)] g [OF xy(2)] by auto
    then show "x = y" by (rule handle_inj [OF inv, rotated 2]) (use xy in auto)
  qed
  moreover have "g ` dom (tw_timers w) \<subseteq> dom M" using g by blast
  ultimately show ?thesis using card_inj_on_le fin by blast
qed

lemma schedule_order:
  assumes inv: "om_inv om" and n: "om_kill_switch_state om = kNormal" and c: "om_outstanding_count om < sc_max_outstanding (om_ctx om)"
  obtains j w where "tw_schedule (om_timeout_wheel om) (Some ()) (Some k) (order_delay om) = Some (tw_handle w j, w)" "tw_inv w"
    "tw_timers (om_timeout_wheel om) j = None" "tw_timers w = (tw_timers (om_timeout_wheel om))(j \<mapsto> (unat (order_delay om), (), Some k))"
    "\<forall>x < tw_max_timers (om_timeout_wheel om). tn_gen (tw_nodes w ! x) = tn_gen (tw_nodes (om_timeout_wheel om) ! x)"
    "tw_wheel_size w = tw_wheel_size (om_timeout_wheel om)" "tw_max_timers w = tw_max_timers (om_timeout_wheel om)"
proof -
  note C = om_coreD [OF om_inv_core [OF inv]]
  have ok: "timers_ok (om_orders om) (om_timeout_wheel om)" using inv n by (simp add: om_inv_def)
  have d: "0 < order_delay om" "unat (order_delay om) < tw_wheel_size (om_timeout_wheel om)"
    "unat (sc_max_outstanding (om_ctx om)) \<le> tw_max_timers (om_timeout_wheel om)"
    using C(2) by (simp_all add: om_config_def)
  show thesis
    using C(4) d(1,2)
  proof (cases rule: schedule_spec [where cb = "()" and ctx = "Some k"])
    case full
    have "dom (tw_timers (om_timeout_wheel om)) = {..<tw_max_timers (om_timeout_wheel om)}"
      using timers_alloc [OF C(4)] full(2) by (auto simp: dom_def)
    then have "tw_max_timers (om_timeout_wheel om) \<le> card (dom (om_orders om))"
      using armed_card [OF C(4) ok finite_lookup] by simp
    then show thesis using c C(5) d(3) by (simp add: word_less_nat_alt)
  next
    case (ok j w)
    then show thesis using that by blast
  qed
qed

definition signal_order :: "OrderManager \<Rightarrow> Signal \<Rightarrow> i64 \<Rightarrow> NewOrder" where
  "signal_order om sg now = \<lparr>no_client_order_id = om_next_order_id om, no_symbol_id = sig_symbol_id sg,
     no_side = Side_code (sig_side sg), no_price = sig_price sg, no_qty = sig_qty sg, no_send_ts = now\<rparr>"

lemma next_fresh:
  assumes "om_core om"
  shows "om_orders om (om_next_order_id om) = None" "ptr_of (om_next_order_id om) = Some (om_next_order_id om)"
proof -
  have "\<not> om_next_order_id om < om_next_order_id om" by simp
  then show "om_orders om (om_next_order_id om) = None"
    using om_coreD(7) [OF assms] unfolding orders_ok_def by (meson not_None_eq)
  show "ptr_of (om_next_order_id om) = Some (om_next_order_id om)"
    using om_coreD(7) [OF assms] by (auto simp: orders_ok_def ptr_of_def)
qed

lemma orders_ok_insert:
  assumes "orders_ok ctx M k" "k + 1 \<noteq> 0" "valid_symbol ctx (oi_symbol_id i)" "oi_side i \<noteq> kCount"
  shows "orders_ok ctx (M(k \<mapsto> i)) (k + 1)" "orders_ok ctx M (k + 1)"
proof -
  have "unat (k + 1) = unat k + 1" using unatSuc [of k] assms(2) by (simp add: add.commute)
  moreover have "0 < k" using assms(1) by (simp add: orders_ok_def)
  ultimately have k: "0 < k" "k < k + 1" "0 < k + 1" by (simp_all add: word_less_nat_alt)
  then show "orders_ok ctx (M(k \<mapsto> i)) (k + 1)" "orders_ok ctx M (k + 1)"
    using assms unfolding orders_ok_def by (auto intro: less_trans)
qed

lemma generate_order_spec:
  assumes inv: "om_inv om" and n: "om_kill_switch_state om = kNormal" and c: "om_outstanding_count om < sc_max_outstanding (om_ctx om)"
    and v: "valid_symbol (om_ctx om) (sig_symbol_id sg)" "sig_side sg \<noteq> kCount" and nx: "om_next_order_id om + 1 \<noteq> 0"
  obtains (sent) i w m P A where "generate_order om sg now = Some (True, signal_order om sg now,
      om\<lparr>om_next_order_id := om_next_order_id om + 1, om_timeout_wheel := w, om_outstanding := m,
         om_outstanding_count := om_outstanding_count om + 1, om_per_symbol := P, om_active_orders := A, om_tokens := om_tokens om - 1\<rparr>)"
    "om_inv (om\<lparr>om_next_order_id := om_next_order_id om + 1, om_timeout_wheel := w, om_outstanding := m,
         om_outstanding_count := om_outstanding_count om + 1, om_per_symbol := P, om_active_orders := A, om_tokens := om_tokens om - 1\<rparr>)"
    "hm_lookup m = (om_orders om)(om_next_order_id om \<mapsto> i)" "oi_symbol_id i = sig_symbol_id sg" "oi_side i = sig_side sg"
    "oi_price i = sig_price sg" "oi_qty i = sig_qty sg"
    "\<exists>j cb. tw_timers w j = Some (unat (order_delay om), cb, Some (om_next_order_id om))"
  | (refused) w where "generate_order om sg now = Some (False, signal_order om sg now,
      om\<lparr>om_next_order_id := om_next_order_id om + 1, om_timeout_wheel := w\<rparr>)"
    "om_inv (om\<lparr>om_next_order_id := om_next_order_id om + 1, om_timeout_wheel := w\<rparr>)" "hm_full (om_outstanding om)"
proof -
  note C = om_coreD [OF om_inv_core [OF inv]]
  note F = next_fresh [OF om_inv_core [OF inv]]
  let ?k = "om_next_order_id om" and ?M = "om_orders om" and ?w0 = "om_timeout_wheel om"
  have ok0: "timers_ok ?M ?w0" using inv n by (simp add: om_inv_def)
  obtain j w where w: "tw_schedule ?w0 (Some ()) (Some ?k) (order_delay om) = Some (tw_handle w j, w)" "tw_inv w"
    "tw_timers ?w0 j = None" "tw_timers w = (tw_timers ?w0)(j \<mapsto> (unat (order_delay om), (), Some ?k))"
    "\<forall>x < tw_max_timers ?w0. tn_gen (tw_nodes w ! x) = tn_gen (tw_nodes ?w0 ! x)"
    "tw_wheel_size w = tw_wheel_size ?w0" "tw_max_timers w = tw_max_timers ?w0"
    by (rule schedule_order [OF inv n c, of ?k])
  define i where "i = \<lparr>oi_side = sig_side sg, oi_price = sig_price sg, oi_qty = sig_qty sg,
                 oi_symbol_id = sig_symbol_id sg, oi_send_ts = now, oi_timer_handle = tw_handle w j\<rparr>"
  have i: "valid_symbol (om_ctx om) (oi_symbol_id i)" "oi_side i \<noteq> kCount" using v by (simp_all add: i_def)
  have ok1: "timers_ok (?M(?k \<mapsto> i)) w"
    by (rule timers_insert [OF C(4) w(2) ok0 F(1) w(3,4,5)]) (simp add: i_def)
  have O: "orders_ok (om_ctx om) (?M(?k \<mapsto> i)) (?k + 1)" "orders_ok (om_ctx om) ?M (?k + 1)"
    by (rule orders_ok_insert [OF C(7) nx i])+
  note gen = generate_order_def Let_def F(2) w(1) [unfolded order_delay_def] signal_order_def
  show thesis
    using C(3)
  proof (rule hmap.insertE [of "om_outstanding om" ?k i])
    fix m assume m: "hm_insert (om_outstanding om) ?k i = Some (True, m)" "hm_inv m" "hm_lookup m = ?M(?k \<mapsto> i)"
    let ?s = "unat (oi_symbol_id i - 1)"
    define P where "P = (om_per_symbol om)[?s := om_per_symbol om ! ?s + 1]"
    define A where "A = (om_active_orders om)[active_index (oi_symbol_id i) (oi_side i) :=
      \<lparr>ao_client_order_id = ?k, ao_price = sig_price sg, ao_qty = sig_qty sg, ao_resting = True\<rparr>]"
    have len: "length (om_active_orders om) = unat (sc_max_symbols (om_ctx om)) * kSideCount"
      "length (om_per_symbol om) = unat (sc_max_symbols (om_ctx om))" using C(1) by (simp_all add: om_arrays_def)
    have s: "?s < length (om_per_symbol om)" using valid_symbol_index [OF i(1)] len(2) by simp
    have a: "active_index (oi_symbol_id i) (oi_side i) < length (om_active_orders om)" using active_index_less [OF i] len(1) by simp
    let ?om = "om\<lparr>om_next_order_id := ?k + 1, om_timeout_wheel := w, om_outstanding := m,
         om_outstanding_count := om_outstanding_count om + 1, om_per_symbol := P, om_active_orders := A, om_tokens := om_tokens om - 1\<rparr>"
    have g: "generate_order om sg now = Some (True, signal_order om sg now, ?om)"
      using s a m(1) by (simp add: gen arr_upd_def i_def P_def A_def)
    have card: "card (dom (hm_lookup m)) = card (dom ?M) + 1" using F(1) finite_lookup m(3) by (simp add: domIff)
    have lt: "card (dom ?M) < 2 ^ 32 - 1" "card (dom ?M) < unat (sc_max_outstanding (om_ctx om))"
      using c C(5) unat_less_exp [of "sc_max_outstanding (om_ctx om)"] by (simp_all add: word_less_nat_alt)
    have cnt: "unat (om_outstanding_count om + 1) = card (dom ?M) + 1" using C(5) lt(1) by (simp add: unat_word_ariths)
    have "om_core ?om"
      unfolding om_core_def
      using C m(2,3) card cnt lt O(1) counted_insert [OF C(8) F(1) finite_lookup lt(1) s]
        active_insert [OF C(9) F(1) i len(1)] w(2,6,7)
      by (simp add: om_arrays_def om_config_def order_delay_def word_le_nat_alt P_def A_def)
    then have inv': "om_inv ?om" using ok1 m(3) n by (simp add: om_inv_def)
    have "\<exists>j cb. tw_timers w j = Some (unat (order_delay om), cb, Some ?k)" using w(4) by auto
    then show thesis by (intro sent [OF g inv' m(3)]) (simp_all add: i_def)
  next
    assume m: "hm_insert (om_outstanding om) ?k i = Some (False, om_outstanding om)" "?M ?k \<noteq> None \<or> hm_full (om_outstanding om)"
    obtain w' where w': "tw_cancel w (oi_timer_handle i) = Some (True, w')" "tw_inv w'" "timers_ok ((?M(?k \<mapsto> i))(?k := None)) w'"
      "tw_wheel_size w' = tw_wheel_size w" "tw_max_timers w' = tw_max_timers w"
      by (rule timers_remove [where M = "?M(?k \<mapsto> i)" and k = ?k and i = i, OF w(2) ok1]) auto
    let ?om = "om\<lparr>om_next_order_id := ?k + 1, om_timeout_wheel := w'\<rparr>"
    have g: "generate_order om sg now = Some (False, signal_order om sg now, ?om)"
      using w'(1) m(1) by (simp add: gen cancel_timer_def i_def)
    have M: "(?M(?k \<mapsto> i))(?k := None) = ?M" using F(1) by auto
    have "om_core ?om"
      using C O(2) w'(2,4,5) w(6,7) by (simp add: om_core_def om_arrays_def om_config_def order_delay_def)
    then have "om_inv ?om" using w'(3) M n by (simp add: om_inv_def)
    then show thesis using refused g m(2) F(1) by blast
  qed
qed

lemma i64_ofD:
  assumes "i64_of x = Some v"
  shows "sint v = x"
  using assms by (auto simp: i64_of_def signed_of_int signed_take_bit_int_eq_self split: if_splits)

text \<open>The signal names a known symbol and side, and its checks compute without overflow.\<close>

definition signal_ok :: "OrderManager \<Rightarrow> Signal \<Rightarrow> i64 \<Rightarrow> bool" where
  "signal_ok om sg now \<longleftrightarrow> valid_symbol (om_ctx om) (sig_symbol_id sg) \<and> sig_side sg \<noteq> kCount \<and>
     om_next_order_id om + 1 \<noteq> 0 \<and> i64_of (sint (sig_price sg) * uint (sig_qty sg)) \<noteq> None \<and>
     refill_tokens om now \<noteq> None \<and>
     projected_abs (om_net_position om ! unat (sig_symbol_id sg - 1)) (sig_side sg) (sig_qty sg) \<noteq> None"

lemma on_signal_spec:
  assumes inv: "om_inv om" and ok: "signal_ok om sg now1"
  obtains (sent) om' i where "on_signal om sg now1 now2 out = Some (True, signal_order om sg now2, om')" "om_inv om'"
      "om_kill_switch_state om = kNormal" "om_orders om' = (om_orders om)(om_next_order_id om \<mapsto> i)"
      "oi_symbol_id i = sig_symbol_id sg" "oi_side i = sig_side sg" "om_net_position om' = om_net_position om"
      "om_kill_switch_state om' = om_kill_switch_state om"
      "\<exists>j cb. tw_timers (om_timeout_wheel om') j = Some (unat (order_delay om), cb, Some (om_next_order_id om))"
  | (rejected) out' om' where "on_signal om sg now1 now2 out = Some (False, out', om')" "om_inv om'"
      "om_orders om' = om_orders om" "om_net_position om' = om_net_position om" "om_kill_switch_state om' = om_kill_switch_state om"
proof -
  note C = om_coreD [OF om_inv_core [OF inv]]
  let ?s = "unat (sig_symbol_id sg - 1)"
  have v: "valid_symbol (om_ctx om) (sig_symbol_id sg)" "sig_side sg \<noteq> kCount" "om_next_order_id om + 1 \<noteq> 0"
    using ok by (simp_all add: signal_ok_def)
  have s: "?s < length (om_per_symbol om)" "?s < length (om_net_position om)"
    using valid_symbol_index [OF v(1)] C(1) by (simp_all add: om_arrays_def)
  obtain nt where nt: "i64_of (sint (sig_price sg) * uint (sig_qty sg)) = Some nt" using ok by (auto simp: signal_ok_def)
  obtain om1 where om1: "refill_tokens om now1 = Some om1" using ok by (auto simp: signal_ok_def)
  obtain ap where ap: "projected_abs (om_net_position om ! ?s) (sig_side sg) (sig_qty sg) = Some ap"
    using ok by (auto simp: signal_ok_def)
  obtain t r where tr: "om1 = om\<lparr>om_tokens := t, om_last_refill_ts := r\<rparr>" by (rule refill_spec [OF om1])
  show thesis
  proof (cases "om_kill_switch_state om = kNormal \<and> \<not> om_outstanding_count om \<ge> sc_max_outstanding (om_ctx om) \<and>
      \<not> om_per_symbol om ! ?s \<ge> sc_max_outstanding_per_symbol (om_ctx om) \<and> \<not> sig_qty sg > om_max_order_size om \<and>
      \<not> sint nt > sint (om_max_notional om) \<and> om_tokens om1 \<noteq> 0 \<and> \<not> sint ap > sint (om_max_position om)")
    case False
    have "\<exists>x o1. on_signal om sg now1 now2 out = Some (False, out, o1\<lparr>om_stats := x\<rparr>) \<and> (o1 = om \<or> o1 = om1)"
      using False s nt om1 ap tr by (auto simp: on_signal_def Let_def arr_get_def)
    then obtain x o1 where "on_signal om sg now1 now2 out = Some (False, out, o1\<lparr>om_stats := x\<rparr>)" "o1 = om \<or> o1 = om1" by blast
    then show thesis by (intro rejected [of out "o1\<lparr>om_stats := x\<rparr>"]) (use inv tr in auto)
  next
    case True
    have inv1: "om_inv om1" using inv tr by simp
    have eq: "on_signal om sg now1 now2 out = generate_order om1 sg now2"
      using True s nt om1 ap tr by (simp add: on_signal_def Let_def arr_get_def)
    have so: "signal_order om1 sg now2 = signal_order om sg now2" "order_delay om1 = order_delay om"
      using tr by (simp_all add: signal_order_def order_delay_def)
    have p: "om_kill_switch_state om1 = kNormal" "om_outstanding_count om1 < sc_max_outstanding (om_ctx om1)"
      "valid_symbol (om_ctx om1) (sig_symbol_id sg)" "om_next_order_id om1 + 1 \<noteq> 0"
      using True v tr by (simp_all add: not_le)
    show thesis
      using inv1 p(1,2,3) v(2) p(4)
    proof (cases rule: generate_order_spec [where now = now2])
      case (sent i w m P A)
      then show thesis by (intro that(1) [OF eq [unfolded sent(1) so]]) (use tr True so in simp_all)
    next
      case (refused w)
      then show thesis by (intro that(2) [OF eq [unfolded refused(1)]]) (use tr in simp_all)
    qed
  qed
qed

end
