(* ===== verification/OrderManagerHalt.thy ===== *)
theory OrderManagerHalt
  imports OrderManagerOps
begin

text \<open>The two operations that cancel many orders at once: timeouts and the kill switch.\<close>

section \<open>Batches\<close>

definition cancel_of :: "(u64 \<Rightarrow> OrderInfo option) \<Rightarrow> i64 \<Rightarrow> u64 \<Rightarrow> CancelOrder" where
  "cancel_of M now k = \<lparr>co_client_order_id = k, co_symbol_id = oi_symbol_id (the (M k)), co_send_ts = now\<rparr>"

lemma unat_add_one:
  assumes "unat (n :: u32) + Suc m \<le> unat (mx :: u32)"
  shows "unat (n + 1) = unat n + 1" "n < mx"
  using assms unat_less_exp [of mx] by (simp_all add: unat_word_ariths word_less_nat_alt)

lemma take_update_next:
  "n < length xs \<Longrightarrow> take (Suc n) (xs[n := x]) = take n xs @ [x]"
  by (simp add: take_Suc_conv_app_nth)

lemma fold_add_cancel:
  assumes "length buf = unat mx" "unat n + length es \<le> unat mx" "\<forall>(k, i) \<in> set es. M k = Some i"
  shows "\<exists>buf'. fold (\<lambda>(k, v). add_cancel mx now k v) es (buf, n) = (buf', n + of_nat (length es)) \<and> length buf' = length buf \<and>
    take (unat n + length es) buf' = take (unat n) buf @ map (cancel_of M now) (map fst es)"
  using assms
proof (induction es arbitrary: buf n)
  case Nil
  then show ?case by simp
next
  case (Cons e es)
  obtain k i where e: "e = (k, i)" by (cases e)
  have k: "M k = Some i" using Cons.prems(3) e by simp
  have le: "unat n + Suc (length es) \<le> unat mx" using Cons.prems(2) by simp
  note n = unat_add_one [OF le]
  let ?buf = "buf[unat n := cancel_of M now k]"
  have "\<exists>buf'. fold (\<lambda>(k, v). add_cancel mx now k v) es (?buf, n + 1) = (buf', n + 1 + of_nat (length es)) \<and> length buf' = length ?buf \<and>
    take (unat (n + 1) + length es) buf' = take (unat (n + 1)) ?buf @ map (cancel_of M now) (map fst es)"
    by (rule Cons.IH) (use Cons.prems n in auto)
  then obtain buf' where b: "fold (\<lambda>(k, v). add_cancel mx now k v) es (?buf, n + 1) = (buf', n + 1 + of_nat (length es))"
    "length buf' = length ?buf" "take (unat (n + 1) + length es) buf' = take (unat (n + 1)) ?buf @ map (cancel_of M now) (map fst es)"
    by blast
  have "unat n < length buf" using le Cons.prems(1) by simp
  then have "take (unat (n + 1)) ?buf = take (unat n) buf @ [cancel_of M now k]"
    using n(1) take_update_next by simp
  then show ?case using b n e k by (intro exI [of _ buf']) (simp add: add_cancel_def cancel_of_def add.assoc)
qed

section \<open>Kill switch\<close>

lemma trigger_spec:
  assumes inv: "om_inv om" and n: "om_kill_switch_state om = kNormal"
  obtains ks buf w om' where "trigger_kill_switch om now = Some (\<lparr>cb_cancels = buf, cb_count = of_nat (length ks)\<rparr>, om')"
    "distinct ks" "set ks = dom (om_orders om)" "length ks = unat (om_outstanding_count om)"
    "take (length ks) buf = map (cancel_of (om_orders om) now) ks"
    "om' = om\<lparr>om_cancel_buf := buf, om_timeout_wheel := w, om_pending_cancel_count := of_nat (length ks),
       om_kill_switch_state := (if ks = [] then kComplete else kDraining)\<rparr>" "om_inv om'"
proof -
  note C = om_coreD [OF om_inv_core [OF inv]]
  let ?es = "hm_entries (om_outstanding om)" and ?mx = "sc_max_outstanding (om_ctx om)"
  have d: "distinct (map fst ?es)" using C(3) by (intro hm_entries_distinct) (simp_all add: hm_inv_def)
  have ks: "set (map fst ?es) = dom (om_orders om)" by (simp add: hm_lookup_def dom_map_of_conv_image_fst)
  have len: "length ?es = unat (om_outstanding_count om)" using C(5) ks distinct_card [OF d] by simp
  have es: "\<forall>(k, i) \<in> set ?es. om_orders om k = Some i" using d by (auto simp: hm_lookup_def)
  have "unat (0 :: u32) + length ?es \<le> unat ?mx" using len C(6) by (simp add: word_le_nat_alt)
  moreover have "length (om_cancel_buf om) = unat ?mx" using C(1) by (simp add: om_arrays_def)
  ultimately obtain buf where buf: "fold (\<lambda>(k, v). add_cancel ?mx now k v) ?es (om_cancel_buf om, 0) = (buf, of_nat (length ?es))"
    "length buf = length (om_cancel_buf om)" "take (length ?es) buf = map (cancel_of (om_orders om) now) (map fst ?es)"
    using fold_add_cancel [of "om_cancel_buf om" ?mx 0 ?es "om_orders om" now] es by auto
  obtain w where w: "tw_reset (om_timeout_wheel om) = Some w" "tw_inv w" "tw_timers w = Map.empty"
    "tw_wheel_size w = tw_wheel_size (om_timeout_wheel om)" "tw_max_timers w = tw_max_timers (om_timeout_wheel om)"
    by (rule reset_spec [OF C(4)])
  have "(of_nat (length ?es) :: u32) = om_outstanding_count om" using len by simp
  then have z: "(of_nat (length ?es) :: u32) = 0 \<longleftrightarrow> ?es = []"
    using len by (metis length_0_conv unat_eq_zero)
  let ?om' = "om\<lparr>om_cancel_buf := buf, om_timeout_wheel := w, om_pending_cancel_count := of_nat (length ?es),
       om_kill_switch_state := (if map fst ?es = [] then kComplete else kDraining)\<rparr>"
  have "om_inv ?om'"
    using C buf(2) w by (simp add: om_inv_def om_core_def om_arrays_def om_config_def order_delay_def)
  moreover have "trigger_kill_switch om now = Some (\<lparr>cb_cancels = buf, cb_count = of_nat (length (map fst ?es))\<rparr>, ?om')"
    using n buf(1) w(1) z by (simp add: trigger_kill_switch_def hm_for_each_def Let_def)
  ultimately show thesis using that [of buf "map fst ?es" ?om' w] d ks len buf(3) by simp
qed

section \<open>Timeouts\<close>

lemma run_timeouts:
  assumes "length ids = unat mx" "unat n + length xs \<le> unat mx" "\<forall>x \<in> set xs. \<exists>d cb. T x = Some (d, cb, Some (c x))"
  shows "\<exists>ids'. run_all (\<lambda>i. run_timer (on_order_timeout mx) (T i)) xs (ids, n) = Some (ids', n + of_nat (length xs)) \<and>
    length ids' = length ids \<and> take (unat n + length xs) ids' = take (unat n) ids @ map c xs"
  using assms
proof (induction xs arbitrary: ids n)
  case Nil
  then show ?case by simp
next
  case (Cons x xs)
  obtain d cb where x: "T x = Some (d, cb, Some (c x))" using Cons.prems(3) by auto
  have le: "unat n + Suc (length xs) \<le> unat mx" using Cons.prems(2) by simp
  note n = unat_add_one [OF le]
  let ?ids = "ids[unat n := c x]"
  have "\<exists>ids'. run_all (\<lambda>i. run_timer (on_order_timeout mx) (T i)) xs (?ids, n + 1) = Some (ids', n + 1 + of_nat (length xs)) \<and>
    length ids' = length ?ids \<and> take (unat (n + 1) + length xs) ids' = take (unat (n + 1)) ?ids @ map c xs"
    by (rule Cons.IH) (use Cons.prems n in auto)
  then obtain ids' where b: "run_all (\<lambda>i. run_timer (on_order_timeout mx) (T i)) xs (?ids, n + 1) = Some (ids', n + 1 + of_nat (length xs))"
    "length ids' = length ?ids" "take (unat (n + 1) + length xs) ids' = take (unat (n + 1)) ?ids @ map c xs" by blast
  have l: "unat n < length ids" using le Cons.prems(1) by simp
  then have "take (unat (n + 1)) ?ids = take (unat n) ids @ [c x]" using n(1) take_update_next by simp
  moreover have "run_timer (on_order_timeout mx) (T x) (ids, n) = Some (?ids, n + 1)"
    using x n(2) l by (simp add: run_timer_def on_order_timeout_def arr_upd_def)
  ultimately show ?case using b n(1) by (intro exI [of _ ids']) (simp add: add.assoc)
qed

lemma process_timeouts_spec:
  assumes "om_core om" "distinct cs" "set cs \<subseteq> dom (om_orders om)"
    "unat n + length cs \<le> unat (sc_max_outstanding (om_ctx om))" "\<forall>k \<in> set cs. M k = om_orders om k"
  shows "\<exists>m A P c st buf. let om' = om\<lparr>om_outstanding := m, om_active_orders := A, om_per_symbol := P,
        om_outstanding_count := c, om_stats := st, om_cancel_buf := buf\<rparr> in
      process_timeouts cs now n om = Some (n + of_nat (length cs), om') \<and> om_core om' \<and>
      hm_lookup m = om_orders om |` (- set cs) \<and>
      take (unat n + length cs) buf = take (unat n) (om_cancel_buf om) @ map (cancel_of M now) cs"
  using assms
proof (induction cs arbitrary: om n)
  case Nil
  have "om = om\<lparr>om_outstanding := om_outstanding om, om_active_orders := om_active_orders om, om_per_symbol := om_per_symbol om,
      om_outstanding_count := om_outstanding_count om, om_stats := om_stats om, om_cancel_buf := om_cancel_buf om\<rparr>" by simp
  then show ?case using Nil unfolding Let_def
    by (intro exI [of _ "om_outstanding om"] exI [of _ "om_active_orders om"] exI [of _ "om_per_symbol om"]
        exI [of _ "om_outstanding_count om"] exI [of _ "om_stats om"] exI [of _ "om_cancel_buf om"]) (simp add: restrict_map_def)
next
  case (Cons k cs)
  note C = om_coreD [OF Cons.prems(1)]
  obtain i where k: "om_orders om k = Some i" using Cons.prems(3) by auto
  have le: "unat n + Suc (length cs) \<le> unat (sc_max_outstanding (om_ctx om))" using Cons.prems(4) by simp
  note n = unat_add_one [OF le]
  let ?buf = "(om_cancel_buf om)[unat n := cancel_of M now k]"
  have ac: "add_cancel (sc_max_outstanding (om_ctx om)) now k i (om_cancel_buf om, n) = (?buf, n + 1)"
    using n(2) k Cons.prems(5) by (simp add: add_cancel_def cancel_of_def)
  let ?om1 = "om\<lparr>om_cancel_buf := ?buf\<rparr>"
  have core1: "om_core ?om1" using Cons.prems(1) by (simp add: om_core_def om_arrays_def om_config_def order_delay_def)
  have k1: "om_orders ?om1 k = Some i" using k by simp
  obtain m A P where d: "untrack ?om1 i k = Some (?om1\<lparr>om_active_orders := A, om_per_symbol := P\<rparr>)"
    "drop_outstanding (?om1\<lparr>om_active_orders := A, om_per_symbol := P\<rparr>) k =
       Some (?om1\<lparr>om_active_orders := A, om_per_symbol := P, om_outstanding := m, om_outstanding_count := om_outstanding_count ?om1 - 1\<rparr>)"
    "hm_lookup m = (om_orders ?om1)(k := None)"
    "om_core (?om1\<lparr>om_active_orders := A, om_per_symbol := P, om_outstanding := m, om_outstanding_count := om_outstanding_count ?om1 - 1\<rparr>)"
    by (rule drop_core [OF core1 k1])
  define om2 where "om2 = ?om1\<lparr>om_active_orders := A, om_per_symbol := P, om_outstanding := m,
    om_outstanding_count := om_outstanding_count om - 1, om_stats := om_stats om\<lparr>st_timeouts_fired := st_timeouts_fired (om_stats om) + 1\<rparr>\<rparr>"
  have core2: "om_core om2" using d(4) by (simp add: om2_def)
  have lk: "om_orders om2 = (om_orders om)(k := None)" using d(3) by (simp add: om2_def)
  have step: "process_timeouts (k # cs) now n om = process_timeouts cs now (n + 1) om2"
    using hmap.find [OF C(3)] k ac d(1,2) by (simp add: Let_def om2_def)
  have "\<exists>m A P c st buf. let om' = om2\<lparr>om_outstanding := m, om_active_orders := A, om_per_symbol := P,
        om_outstanding_count := c, om_stats := st, om_cancel_buf := buf\<rparr> in
      process_timeouts cs now (n + 1) om2 = Some (n + 1 + of_nat (length cs), om') \<and> om_core om' \<and>
      hm_lookup m = om_orders om2 |` (- set cs) \<and>
      take (unat (n + 1) + length cs) buf = take (unat (n + 1)) (om_cancel_buf om2) @ map (cancel_of M now) cs"
    by (rule Cons.IH [OF core2]) (use Cons.prems lk n(1) in \<open>auto simp: om2_def\<close>)
  then obtain m' A' P' c' st' buf' where r: "process_timeouts cs now (n + 1) om2 = Some (n + 1 + of_nat (length cs),
      om2\<lparr>om_outstanding := m', om_active_orders := A', om_per_symbol := P', om_outstanding_count := c', om_stats := st', om_cancel_buf := buf'\<rparr>)"
    "om_core (om2\<lparr>om_outstanding := m', om_active_orders := A', om_per_symbol := P', om_outstanding_count := c', om_stats := st', om_cancel_buf := buf'\<rparr>)"
    "hm_lookup m' = om_orders om2 |` (- set cs)"
    "take (unat (n + 1) + length cs) buf' = take (unat (n + 1)) (om_cancel_buf om2) @ map (cancel_of M now) cs"
    unfolding Let_def by blast
  have eq: "om2\<lparr>om_outstanding := m', om_active_orders := A', om_per_symbol := P', om_outstanding_count := c', om_stats := st', om_cancel_buf := buf'\<rparr>
      = om\<lparr>om_outstanding := m', om_active_orders := A', om_per_symbol := P', om_outstanding_count := c', om_stats := st', om_cancel_buf := buf'\<rparr>"
    by (simp add: om2_def)
  have len: "unat n < length (om_cancel_buf om)" using le C(1) by (simp add: om_arrays_def)
  have "take (unat (n + 1)) (om_cancel_buf om2) = take (unat n) (om_cancel_buf om) @ [cancel_of M now k]"
    using take_update_next [OF len] n(1) by (simp add: om2_def)
  then have "take (unat n + length (k # cs)) buf' = take (unat n) (om_cancel_buf om) @ map (cancel_of M now) (k # cs)"
    using r(4) n(1) by simp
  moreover have "hm_lookup m' = om_orders om |` (- set (k # cs))"
    unfolding r(3) lk by (auto simp: restrict_map_def)
  moreover have "n + 1 + of_nat (length cs) = n + of_nat (length (k # cs))" by simp
  ultimately show ?case using r(1,2) unfolding step eq Let_def by metis
qed

text \<open>The orders whose timers are due within the given number of ticks.\<close>

definition due_orders :: "(unit, u64) TimingWheel \<Rightarrow> nat \<Rightarrow> u64 set" where
  "due_orders w t = {k. \<exists>j n cb. tw_timers w j = Some (n, cb, Some k) \<and> n \<le> t}"

lemma timeout_passive: "passive_call (timeout_call mx) (on_order_timeout mx)"
  by (simp add: passive_call_def timeout_call_def)

lemma timer_order_unique:
  assumes "tw_inv w" "timers_ok M w" "tw_timers w j = Some (n, cb, Some k)" "tw_timers w j' = Some (n', cb', Some k)"
  shows "j = j'"
proof -
  obtain i where "M k = Some i" "oi_timer_handle i = tw_handle w j"
    using assms(2,3) unfolding timers_ok_def by blast
  moreover obtain i' where "M k = Some i'" "oi_timer_handle i' = tw_handle w j'"
    using assms(2,4) unfolding timers_ok_def by blast
  ultimately show ?thesis using handle_inj [OF assms(1), of j j'] assms(3,4) by simp
qed

text \<open>Running the ticks collects the due orders and keeps the timers of the others.\<close>

lemma collect_timeouts:
  assumes inv: "tw_inv w" and ok: "timers_ok M w" and fin: "finite (dom M)"
    and mx: "card (dom M) \<le> unat mx" and ids: "length ids = unat mx"
  obtains w' ids' cs where "tw_ticks (timeout_call mx) t (w, ids, 0) = Some (w', ids', of_nat (length cs))"
    "take (length cs) ids' = cs" "length ids' = length ids" "distinct cs" "set cs = due_orders w t" "set cs \<subseteq> dom M"
    "length cs \<le> card (dom M)" "tw_inv w'" "timers_ok (M |` (- set cs)) w'"
    "tw_wheel_size w' = tw_wheel_size w" "tw_max_timers w' = tw_max_timers w"
proof -
  obtain xs w' where x: "\<forall>s. tw_ticks (timeout_call mx) t (w, s) = map_option (Pair w') (run_all (\<lambda>i. run_timer (on_order_timeout mx) (tw_timers w i)) xs s)"
    "distinct xs" "set xs = {i. tw_timers w i \<noteq> None \<and> deadline (tw_timers w i) \<le> t}" "tw_inv w'"
    "tw_timers w' = (\<lambda>i. after_ticks t (tw_timers w i))" "tw_wheel_size w' = tw_wheel_size w" "tw_max_timers w' = tw_max_timers w"
    "\<forall>j. j \<notin> set xs \<longrightarrow> tn_gen (tw_nodes w' ! j) = tn_gen (tw_nodes w ! j)"
    using ticks_spec [OF timeout_passive inv] by blast
  define c where "c j = (case tw_timers w j of Some (_, _, Some k) \<Rightarrow> k | _ \<Rightarrow> 0)" for j
  have armed: "\<exists>n cb. tw_timers w j = Some (n, cb, Some (c j)) \<and> c j \<in> dom M" if a: "tw_timers w j \<noteq> None" for j
  proof -
    obtain n cb ctx where j: "tw_timers w j = Some (n, cb, ctx)" using a by auto
    then show ?thesis using ok unfolding timers_ok_def by (fastforce simp: c_def)
  qed
  have inX: "j \<in> set xs \<longleftrightarrow> (\<exists>n cb. tw_timers w j = Some (n, cb, Some (c j)) \<and> n \<le> t)" for j
    using armed [of j] unfolding x(3) by (auto simp: deadline_def)
  have inj: "inj_on c (set xs)"
    using timer_order_unique [OF inv ok] inX by (intro inj_onI) metis
  let ?cs = "map c xs"
  have due: "set ?cs = due_orders w t"
  proof (intro set_eqI iffI)
    fix k assume "k \<in> due_orders w t"
    then obtain j n cb where j: "tw_timers w j = Some (n, cb, Some k)" "n \<le> t" unfolding due_orders_def by blast
    then have "c j = k" by (simp add: c_def)
    then show "k \<in> set ?cs" using j inX [of j] by auto
  qed (use inX in \<open>auto simp: due_orders_def\<close>)
  have sub: "set ?cs \<subseteq> dom M" using armed x(3) by auto
  have d: "distinct ?cs" using x(2) inj by (simp add: distinct_map)
  have len: "length ?cs \<le> card (dom M)" using card_mono [OF fin sub] distinct_card [OF d] by simp
  obtain ids' where r: "run_all (\<lambda>i. run_timer (on_order_timeout mx) (tw_timers w i)) xs (ids, 0) = Some (ids', of_nat (length xs))"
    "length ids' = length ids" "take (length xs) ids' = ?cs"
    using run_timeouts [OF ids, of 0 xs "tw_timers w" c] len mx inX by auto
  have "timers_ok (M |` (- set ?cs)) w'"
    unfolding timers_ok_def
  proof (intro conjI allI impI)
    fix j n cb ctx assume "tw_timers w' j = Some (n, cb, ctx)"
    then obtain n' where j: "tw_timers w j = Some (n', cb, ctx)" "t < n'"
      unfolding x(5) by (auto simp: after_ticks_def split: option.splits if_splits)
    then obtain k i where k: "ctx = Some k" "M k = Some i" "oi_timer_handle i = tw_handle w j"
      using ok unfolding timers_ok_def by blast
    have jx: "j \<notin> set xs" using inX [of j] j by auto
    have "k \<notin> set ?cs" using due j timer_order_unique [OF inv ok] k(1) unfolding due_orders_def by fastforce
    then show "\<exists>k i. ctx = Some k \<and> (M |` (- set ?cs)) k = Some i \<and> oi_timer_handle i = tw_handle w' j"
      using k jx x(8) by (intro exI [of _ k] exI [of _ i]) (auto simp: tw_handle_def)
  next
    fix k i assume "(M |` (- set ?cs)) k = Some i"
    then have k: "M k = Some i" "k \<notin> set ?cs" by (auto simp: restrict_map_def split: if_splits)
    then obtain j n cb where j: "oi_timer_handle i = tw_handle w j" "tw_timers w j = Some (n, cb, Some k)"
      using ok unfolding timers_ok_def by blast
    have n: "t < n" using k(2) j(2) unfolding due due_orders_def by (metis (mono_tags, lifting) mem_Collect_eq not_le)
    have "j \<notin> set xs" using inX [of j] j(2) n by auto
    then show "\<exists>j n cb. oi_timer_handle i = tw_handle w' j \<and> tw_timers w' j = Some (n, cb, Some k)"
      using j n x(8) unfolding x(5) by (intro exI [of _ j] exI [of _ "n - t"] exI [of _ cb]) (auto simp: after_ticks_def tw_handle_def)
  qed
  then show thesis using that [of w' ids' ?cs] x(1,4,6,7) r d due sub len by simp
qed

definition elapsed_ticks :: "OrderManager \<Rightarrow> i64 \<Rightarrow> u32" where
  "elapsed_ticks om now = word_of_int ((sint now - sint (om_last_advance_ns om)) div kTickIntervalNs)"

lemma i64_of_range: "i64_of x \<noteq> None \<longleftrightarrow> - (2 ^ 63) \<le> x \<and> x < 2 ^ 63"
  by (auto simp: i64_of_def)

lemma elapsed_step:
  fixes now last_ns :: i64
  assumes e: "kTickIntervalNs \<le> sint now - sint last_ns" and t: "t = (word_of_int ((sint now - sint last_ns) div kTickIntervalNs) :: u32)"
  shows "i64_of (uint t * kTickIntervalNs) \<noteq> None" "i64_of (sint last_ns + uint t * kTickIntervalNs) \<noteq> None"
proof -
  let ?e = "sint now - sint last_ns"
  have k: "0 < kTickIntervalNs" "kTickIntervalNs = 1000000" by (simp_all add: kTickIntervalNs_def)
  have "uint t = (?e div kTickIntervalNs) mod 2 ^ 32" unfolding t by (simp add: uint_word_of_int)
  also have "\<dots> \<le> ?e div kTickIntervalNs" using e k by (intro zmod_le_nonneg_dividend pos_imp_zdiv_nonneg_iff [THEN iffD2]) auto
  finally have "uint t * kTickIntervalNs \<le> ?e div kTickIntervalNs * kTickIntervalNs" using k(1) by (intro mult_right_mono) auto
  also have "\<dots> \<le> ?e" using k(1) by (simp add: minus_mod_eq_div_mult [symmetric])
  finally have le: "uint t * kTickIntervalNs \<le> ?e" .
  have t': "0 \<le> uint t" "uint t < 2 ^ 32" using uint_lt2p [of t] by simp_all
  then have b: "0 \<le> uint t * kTickIntervalNs" "uint t * kTickIntervalNs < 2 ^ 32 * 1000000"
    unfolding k(2) by (simp, linarith)
  show "i64_of (uint t * kTickIntervalNs) \<noteq> None" unfolding i64_of_range using b by simp
  have "sint now < 2 ^ 63" "- (2 ^ 63) \<le> sint last_ns" using sint_lt [of now] sint_ge [of last_ns] by simp_all
  then show "i64_of (sint last_ns + uint t * kTickIntervalNs) \<noteq> None" unfolding i64_of_range using b le by (intro conjI) linarith+
qed

lemma advance_spec:
  assumes inv: "om_inv om" and n: "om_kill_switch_state om = kNormal"
    and e: "i64_of (sint now - sint (om_last_advance_ns om)) \<noteq> None"
  obtains (idle) "sint now - sint (om_last_advance_ns om) < kTickIntervalNs"
      "advance_timeouts om now = Some (\<lparr>cb_cancels = om_cancel_buf om, cb_count = 0\<rparr>, om)"
  | (ran) cs buf om' where "kTickIntervalNs \<le> sint now - sint (om_last_advance_ns om)"
      "advance_timeouts om now = Some (\<lparr>cb_cancels = buf, cb_count = of_nat (length cs)\<rparr>, om')" "distinct cs"
      "set cs = due_orders (om_timeout_wheel om) (unat (elapsed_ticks om now))" "length cs \<le> unat (om_outstanding_count om)"
      "take (length cs) buf = map (cancel_of (om_orders om) now) cs" "om_inv om'"
      "om_orders om' = om_orders om |` (- set cs)" "om_net_position om' = om_net_position om"
      "om_kill_switch_state om' = om_kill_switch_state om"
proof -
  note C = om_coreD [OF om_inv_core [OF inv]]
  let ?d = "sint now - sint (om_last_advance_ns om)" and ?t = "elapsed_ticks om now" and ?mx = "sc_max_outstanding (om_ctx om)"
  obtain el where el: "i64_of ?d = Some el" "sint el = ?d" using e i64_ofD by (metis not_None_eq)
  show thesis
  proof (cases "?d < kTickIntervalNs")
    case True
    then show thesis using idle n el by (simp add: advance_timeouts_def)
  next
    case False
    then have ge: "kTickIntervalNs \<le> ?d" by simp
    have k: "0 < kTickIntervalNs" by (simp add: kTickIntervalNs_def)
    then have sd: "?d sdiv kTickIntervalNs = ?d div kTickIntervalNs" using ge by (simp add: signed_divide_int_def)
    obtain st where st: "i64_of (uint ?t * kTickIntervalNs) = Some st" "sint st = uint ?t * kTickIntervalNs"
      using elapsed_step(1) [OF ge elapsed_ticks_def] i64_ofD by (metis not_None_eq)
    obtain last where last: "i64_of (sint (om_last_advance_ns om) + sint st) = Some last"
      using elapsed_step(2) [OF ge elapsed_ticks_def] st(2) by auto
    have ok: "timers_ok (om_orders om) (om_timeout_wheel om)" using inv n by (simp add: om_inv_def)
    have mx: "card (dom (om_orders om)) \<le> unat ?mx" using C(5,6) by (simp add: word_le_nat_alt)
    have ids: "length (om_timeout_ids om) = unat ?mx" using C(1) by (simp add: om_arrays_def)
    obtain w ids' cs where c: "tw_ticks (timeout_call ?mx) (unat ?t) (om_timeout_wheel om, om_timeout_ids om, 0) = Some (w, ids', of_nat (length cs))"
      "take (length cs) ids' = cs" "length ids' = length (om_timeout_ids om)" "distinct cs" "set cs = due_orders (om_timeout_wheel om) (unat ?t)"
      "set cs \<subseteq> dom (om_orders om)" "length cs \<le> card (dom (om_orders om))" "tw_inv w" "timers_ok (om_orders om |` (- set cs)) w"
      "tw_wheel_size w = tw_wheel_size (om_timeout_wheel om)" "tw_max_timers w = tw_max_timers (om_timeout_wheel om)"
      by (rule collect_timeouts [OF C(4) ok finite_lookup mx ids, of "unat ?t"])
    have lc: "unat (of_nat (length cs) :: u32) = length cs"
      using c(7) mx unat_less_exp [of ?mx] by (intro unat_of_nat_eq_small) simp
    define om1 where "om1 = om\<lparr>om_timeout_wheel := w, om_timeout_ids := ids', om_timeout_count := of_nat (length cs), om_last_advance_ns := last\<rparr>"
    have core1: "om_core om1"
      using C c(3,8,10,11) by (simp add: om1_def om_core_def om_arrays_def om_config_def order_delay_def)
    have "\<exists>m A P cnt st buf. let om' = om1\<lparr>om_outstanding := m, om_active_orders := A, om_per_symbol := P,
        om_outstanding_count := cnt, om_stats := st, om_cancel_buf := buf\<rparr> in
      process_timeouts cs now 0 om1 = Some (0 + of_nat (length cs), om') \<and> om_core om' \<and>
      hm_lookup m = om_orders om1 |` (- set cs) \<and>
      take (unat (0 :: u32) + length cs) buf = take (unat (0 :: u32)) (om_cancel_buf om1) @ map (cancel_of (om_orders om) now) cs"
      by (rule process_timeouts_spec [OF core1 c(4)]) (use c(6,7) mx in \<open>auto simp: om1_def\<close>)
    then obtain m A P cnt st' buf where p: "process_timeouts cs now 0 om1 = Some (of_nat (length cs), om1\<lparr>om_outstanding := m,
        om_active_orders := A, om_per_symbol := P, om_outstanding_count := cnt, om_stats := st', om_cancel_buf := buf\<rparr>)"
      "om_core (om1\<lparr>om_outstanding := m, om_active_orders := A, om_per_symbol := P, om_outstanding_count := cnt, om_stats := st', om_cancel_buf := buf\<rparr>)"
      "hm_lookup m = om_orders om |` (- set cs)" "take (length cs) buf = map (cancel_of (om_orders om) now) cs"
      unfolding Let_def by (auto simp: om1_def)
    let ?om2 = "om1\<lparr>om_outstanding := m, om_active_orders := A, om_per_symbol := P, om_outstanding_count := cnt, om_stats := st', om_cancel_buf := buf\<rparr>"
    obtain m' where m': "maybe_compact_outstanding ?om2 = ?om2\<lparr>om_outstanding := m'\<rparr>" "hm_lookup m' = om_orders ?om2" "om_core (?om2\<lparr>om_outstanding := m'\<rparr>)"
      by (rule compact_core [OF p(2)])
    have "om_inv (?om2\<lparr>om_outstanding := m'\<rparr>)"
      using m'(2,3) p(3) c(9) n by (simp add: om_inv_def om1_def)
    moreover have "advance_timeouts om now = Some (\<lparr>cb_cancels = buf, cb_count = of_nat (length cs)\<rparr>, ?om2\<lparr>om_outstanding := m'\<rparr>)"
      using n el False sd c(1,2) st(1) last lc p(1) m'(1)
      by (simp add: advance_timeouts_def Let_def elapsed_ticks_def om1_def)
    ultimately show thesis
      using ran [OF ge _ c(4,5)] c(7) C(5) p(3,4) m'(2) by (simp add: om1_def)
  qed
qed

end
