(* ===== verification/OrderManagerRuns.thy ===== *)
theory OrderManagerRuns
  imports OrderManagerHalt
begin

text \<open>
  Runs of the order manager: sequences of signals, exchange responses, timeouts and
  kill-switch triggers in any order. Every event keeps the invariant, and the token bucket
  bounds the orders of any window.
\<close>

section \<open>Events\<close>

datatype om_event =
    ESignal Signal i64 i64
  | EModify Signal i64
  | EAck OrderAck
  | EReject OrderReject
  | EFill FillReport
  | EModifyAck ModifyAck
  | EModifyReject ModifyReject
  | ECancelAck CancelAck
  | ECancelReject CancelReject
  | ETimeout i64
  | EKill i64

text \<open>The state after an event and whether it generated a new order.\<close>

fun om_step :: "om_event \<Rightarrow> OrderManager \<Rightarrow> (bool \<times> OrderManager) outcome" where
  "om_step (ESignal sg t1 t2) om = do {
     (sent, _, om) \<leftarrow> on_signal om sg t1 t2 (signal_order om sg t2);
     Some (sent, om)
   }"
| "om_step (EModify sg t) om = do {
     (_, _, om) \<leftarrow> check_modify om sg t \<lparr>mo_client_order_id = 0, mo_symbol_id = 0, mo_new_price = 0, mo_new_qty = 0, mo_send_ts = 0\<rparr>;
     Some (False, om)
   }"
| "om_step (EAck a) om = Some (False, on_order_ack om a)"
| "om_step (EReject r) om = map_option (Pair False) (on_order_reject om r)"
| "om_step (EFill f) om = map_option (Pair False) (on_fill om f)"
| "om_step (EModifyAck a) om = Some (False, on_modify_ack om a)"
| "om_step (EModifyReject r) om = map_option (Pair False) (on_modify_reject om r)"
| "om_step (ECancelAck a) om = map_option (Pair False) (on_cancel_ack om a)"
| "om_step (ECancelReject r) om = map_option (Pair False) (on_cancel_reject om r)"
| "om_step (ETimeout t) om = do { (_, om) \<leftarrow> advance_timeouts om t; Some (False, om) }"
| "om_step (EKill t) om = do { (_, om) \<leftarrow> trigger_kill_switch om t; Some (False, om) }"

text \<open>A run and the number of orders it generated.\<close>

fun om_run :: "om_event list \<Rightarrow> OrderManager \<Rightarrow> (nat \<times> OrderManager) outcome" where
  "om_run [] om = Some (0, om)"
| "om_run (e # es) om = do {
     (sent, om) \<leftarrow> om_step e om;
     (n, om) \<leftarrow> om_run es om;
     Some (of_bool sent + n, om)
   }"

text \<open>
  What the handlers rely on: signals name a known symbol and their arithmetic does not
  overflow; rejects, cancel acks and complete fills are for tracked orders; positions and
  clock differences fit 64 bits.
\<close>

fun expected :: "OrderManager \<Rightarrow> om_event \<Rightarrow> bool" where
  "expected om (ESignal sg t1 t2) = signal_ok om sg t1"
| "expected om (EModify sg t) \<longleftrightarrow> valid_symbol (om_ctx om) (sig_symbol_id sg) \<and> sig_side sg \<noteq> kCount"
| "expected om (EReject r) \<longleftrightarrow> om_orders om (orj_client_order_id r) \<noteq> None"
| "expected om (EFill f) \<longleftrightarrow> (case om_orders om (fr_client_order_id f) of
     None \<Rightarrow> fr_remaining_qty f \<noteq> 0
   | Some i \<Rightarrow> i64_of (if oi_side i = kBid then sint (om_net_position om ! unat (oi_symbol_id i - 1)) + uint (fr_fill_qty f)
                       else sint (om_net_position om ! unat (oi_symbol_id i - 1)) - uint (fr_fill_qty f)) \<noteq> None)"
| "expected om (ECancelAck a) \<longleftrightarrow> om_orders om (ca_client_order_id a) \<noteq> None"
| "expected om (ETimeout t) \<longleftrightarrow> i64_of (sint t - sint (om_last_advance_ns om)) \<noteq> None"
| "expected om _ \<longleftrightarrow> True"

fun expected_run :: "om_event list \<Rightarrow> OrderManager \<Rightarrow> bool" where
  "expected_run [] om = True"
| "expected_run (e # es) om \<longleftrightarrow> expected om e \<and> (case om_step e om of None \<Rightarrow> True | Some (_, om') \<Rightarrow> expected_run es om')"

section \<open>Every event keeps the invariant\<close>

lemma released_inv: "released om k om' \<Longrightarrow> om_inv om'"
  by (simp add: released_def)

lemma step_fill:
  assumes "om_inv om" "expected om (EFill f)"
  shows "\<exists>om'. on_fill om f = Some om' \<and> om_inv om'"
proof (cases "om_orders om (fr_client_order_id f)")
  case None
  then have "on_fill om f = Some (om\<lparr>om_stats := fill_stats (om_stats om) f\<rparr>)"
    using assms find_tracked [OF assms(1)] by (simp add: on_fill_def fill_stats_def)
  then show ?thesis using assms(1) by simp
next
  case (Some i)
  then obtain p where p: "i64_of (if oi_side i = kBid then sint (om_net_position om ! unat (oi_symbol_id i - 1)) + uint (fr_fill_qty f)
      else sint (om_net_position om ! unat (oi_symbol_id i - 1)) - uint (fr_fill_qty f)) = Some p"
    using assms(2) by auto
  show ?thesis
    using assms(1) Some p refl
    by (cases rule: on_fill_tracked) (auto dest: released_inv)
qed

lemma om_step_inv:
  assumes inv: "om_inv om" and ex: "expected om e"
  shows "\<exists>b om'. om_step e om = Some (b, om') \<and> om_inv om'"
proof (cases e)
  case (ESignal sg t1 t2)
  then have "signal_ok om sg t1" using ex by simp
  with inv show ?thesis
    by (cases rule: on_signal_spec [where ?now2.0 = t2 and out = "signal_order om sg t2"]) (auto simp: ESignal)
next
  case (EModify sg t)
  then show ?thesis using ex
    by (cases rule: check_modify_spec [OF inv, where sg = sg and now = t and
        out = "\<lparr>mo_client_order_id = 0, mo_symbol_id = 0, mo_new_price = 0, mo_new_qty = 0, mo_send_ts = 0\<rparr>"])
       (use inv in auto)
next
  case (EReject r)
  then have k: "om_orders om (orj_client_order_id r) \<noteq> None" using ex by simp
  show ?thesis by (rule on_order_reject_tracked [OF inv k]) (auto simp: EReject dest: released_inv)
next
  case (EFill f)
  then show ?thesis using step_fill [OF inv, of f] ex by auto
next
  case (EModifyReject r)
  show ?thesis by (rule on_modify_reject_spec [OF inv, of r]) (auto simp: EModifyReject)
next
  case (ECancelAck a)
  then have k: "om_orders om (ca_client_order_id a) \<noteq> None" using ex by simp
  show ?thesis by (rule on_cancel_ack_tracked [OF inv k]) (auto simp: ECancelAck dest: released_inv intro: drain_inv)
next
  case (ECancelReject r)
  show ?thesis
    by (rule on_cancel_reject_spec [OF inv, of r]) (use inv in \<open>auto simp: ECancelReject dest: released_inv intro: drain_inv\<close>)
next
  case (ETimeout t)
  show ?thesis
  proof (cases "om_kill_switch_state om = kNormal")
    case True
    have e: "i64_of (sint t - sint (om_last_advance_ns om)) \<noteq> None" using ex ETimeout by simp
    show ?thesis by (rule advance_spec [OF inv True e]) (use inv in \<open>auto simp: ETimeout\<close>)
  next
    case False
    then show ?thesis using inv by (auto simp: ETimeout advance_timeouts_def)
  qed
next
  case (EKill t)
  show ?thesis
  proof (cases "om_kill_switch_state om = kNormal")
    case True
    show ?thesis by (rule trigger_spec [OF inv True, of t]) (auto simp: EKill)
  next
    case False
    then show ?thesis using inv by (auto simp: EKill trigger_kill_switch_def)
  qed
qed (use inv in \<open>auto simp: on_order_ack_def on_modify_ack_def\<close>)

lemma om_run_inv:
  "om_inv om \<Longrightarrow> expected_run es om \<Longrightarrow> \<exists>n om'. om_run es om = Some (n, om') \<and> om_inv om'"
proof (induction es arbitrary: om)
  case (Cons e es)
  obtain b om1 where s: "om_step e om = Some (b, om1)" "om_inv om1"
    using om_step_inv [OF Cons.prems(1), of e] Cons.prems(2) by auto
  have "expected_run es om1" using Cons.prems(2) s(1) by simp
  then obtain n om' where "om_run es om1 = Some (n, om')" "om_inv om'" using Cons.IH [OF s(2)] by blast
  then show ?case using s by simp
qed simp

text \<open>The constructor establishes the invariant.\<close>

lemma om_init_inv:
  assumes i: "OrderManager_init ctx slots cancels tids max_position max_order_size max_notional
      max_orders_per_window rate_window_ns order_timeout_ns = Some om"
    and l: "sc_map_capacity ctx \<le> length slots" "unat (sc_max_outstanding ctx) \<le> length cancels"
      "unat (sc_max_outstanding ctx) \<le> length tids"
    and c: "om_config om"
  shows "om_inv om"
proof -
  obtain m w r where m: "hm_create default_hash sizeof_map_slot alignof_map_slot (sc_map_buf ctx) slots
        (sc_map_buf_size ctx) (sc_map_capacity ctx) = Some m"
    and w: "tw_create (sc_timeout_wheel_buf ctx) (sc_timeout_wheel_buf_size ctx) (sc_timeout_wheel_size ctx) (sc_timeout_max_timers ctx) = Some w"
    and om: "om = \<lparr>om_ctx = ctx,
       om_net_position = replicate (unat (sc_max_symbols ctx)) 0,
       om_per_symbol = replicate (unat (sc_max_symbols ctx)) 0,
       om_active_orders = replicate (unat (sc_max_symbols ctx) * kSideCount) zero_active,
       om_cancel_buf = take (unat (sc_max_outstanding ctx)) cancels,
       om_timeout_ids = take (unat (sc_max_outstanding ctx)) tids,
       om_next_order_id = 1, om_outstanding_count = 0, om_max_position = max_position,
       om_max_order_size = max_order_size, om_max_notional = max_notional,
       om_bucket_capacity = max_orders_per_window, om_refill_interval_ns = r, om_last_refill_ts = 0,
       om_tokens = max_orders_per_window, om_stats = zero_stats, om_kill_switch_state = kNormal,
       om_pending_cancel_count = 0, om_outstanding = m, om_timeout_wheel = w,
       om_order_timeout_ns = order_timeout_ns, om_last_advance_ns = 0, om_timeout_count = 0\<rparr>"
    using i by (auto simp: OrderManager_init_def hm_construct_create construct_create elim!: bind_eq_SomeE)
  note M = hm_create_correct [OF m l(1)]
  note W = create_inv [OF w]
  have a: "\<not> ao_resting (om_active_orders om ! active_index s d)" if "valid_symbol ctx s" "d \<noteq> kCount" for s d
    using active_index_less [OF that] by (simp add: om zero_active_def)
  have "om_core om"
    unfolding om_core_def om_arrays_def orders_ok_def counted_def active_ok_def
    using M W c a l by (auto simp: om)
  then show ?thesis using M W by (simp add: om_inv_def om timers_ok_def)
qed

section \<open>The token bucket over a run\<close>

definition bucket :: "OrderManager \<Rightarrow> u32 \<times> i64 \<times> u32 \<times> i64" where
  "bucket om = (om_bucket_capacity om, om_refill_interval_ns om, om_tokens om, om_last_refill_ts om)"

lemma helper_bucket:
  "clear_active_if_match om s d k = Some om' \<Longrightarrow> bucket om' = bucket om"
  "cancel_timer om i = Some om' \<Longrightarrow> bucket om' = bucket om"
  "drop_outstanding om k = Some om' \<Longrightarrow> bucket om' = bucket om"
  "apply_fill om i q = Some om' \<Longrightarrow> bucket om' = bucket om"
  by (auto simp: bucket_def clear_active_if_match_def cancel_timer_def drop_outstanding_def apply_fill_def
      Let_def elim!: bind_eq_SomeE split: if_splits)

lemma bucket_upd [simp]:
  "bucket (maybe_compact_outstanding om) = bucket om" "bucket (check_drain_complete om) = bucket om"
  "bucket (om\<lparr>om_stats := st\<rparr>) = bucket om" "bucket (om\<lparr>om_per_symbol := ps\<rparr>) = bucket om"
  "bucket (om\<lparr>om_cancel_buf := cb\<rparr>) = bucket om" "bucket (om\<lparr>om_active_orders := ao\<rparr>) = bucket om"
  by (simp_all add: bucket_def maybe_compact_outstanding_def check_drain_complete_def Let_def)

lemma untrack_bucket: "untrack om i k = Some om' \<Longrightarrow> bucket om' = bucket om"
  by (auto simp: untrack_def dest: helper_bucket elim!: bind_eq_SomeE)

lemma process_timeouts_bucket: "process_timeouts ks now n om = Some (n', om') \<Longrightarrow> bucket om' = bucket om"
proof (induction ks arbitrary: n om)
  case (Cons k ks)
  then show ?case
    by (fastforce dest: untrack_bucket helper_bucket elim!: bind_eq_SomeE split: option.splits prod.splits)
qed simp

fun is_signal :: "om_event \<Rightarrow> bool" where
  "is_signal (ESignal _ _ _) = True"
| "is_signal _ = False"

lemma step_bucket:
  assumes "om_step e om = Some (b, om')" "\<not> is_signal e"
  shows "bucket om' = bucket om \<and> \<not> b"
proof (cases e)
  case (EModify sg t)
  then show ?thesis using assms
    by (auto simp: check_modify_def Let_def elim!: bind_eq_SomeE split: if_splits)
next
  case (ETimeout t)
  then obtain bt where a: "advance_timeouts om t = Some (bt, om')" "\<not> b" using assms(1) by (auto elim!: bind_eq_SomeE)
  then show ?thesis
    by (auto simp: advance_timeouts_def Let_def elim!: bind_eq_SomeE split: if_splits prod.splits
        dest!: process_timeouts_bucket) (simp_all add: bucket_def)
next
  case (EKill t)
  then show ?thesis using assms
    by (auto simp: trigger_kill_switch_def Let_def bucket_def elim!: bind_eq_SomeE split: if_splits prod.splits)
qed (use assms in \<open>auto simp: on_order_ack_def on_modify_ack_def on_order_reject_def on_fill_def on_modify_reject_def
      on_cancel_ack_def on_cancel_reject_def Let_def elim!: bind_eq_SomeE dest!: untrack_bucket helper_bucket
      split: option.splits if_splits\<close>)

lemma generate_bucket:
  "generate_order om sg t = Some (b, out, om') \<Longrightarrow> bucket om' = bucket (om\<lparr>om_tokens := om_tokens om - of_bool b\<rparr>)"
  by (auto simp: generate_order_def Let_def bucket_def cancel_timer_def elim!: bind_eq_SomeE split: if_splits)

text \<open>A signal refills at most once and takes a token only for an order.\<close>

lemma on_signal_bucket:
  assumes "on_signal om sg t1 t2 out = Some (b, out', om')"
  obtains (early) "\<not> b" "bucket om' = bucket om"
  | (refilled) om1 where "refill_tokens om t1 = Some om1" "b \<Longrightarrow> om_tokens om1 \<noteq> 0"
      "bucket om' = bucket (om1\<lparr>om_tokens := om_tokens om1 - of_bool b\<rparr>)"
proof -
  have "(\<not> b \<and> bucket om' = bucket om) \<or> (\<exists>om1. refill_tokens om t1 = Some om1 \<and> (b \<longrightarrow> om_tokens om1 \<noteq> 0) \<and>
      bucket om' = bucket (om1\<lparr>om_tokens := om_tokens om1 - of_bool b\<rparr>))"
    using assms by (auto simp: on_signal_def Let_def elim!: bind_eq_SomeE split: if_splits dest!: generate_bucket)
  then show thesis using early refilled by blast
qed

lemma refill_bucket:
  assumes r: "refill_tokens om now = Some om1" and b: "bucket om = (C, I, k, L)" and I: "0 < sint I" and t: "sint L \<le> sint now"
  obtains c k1 L1 where "c = (sint now - sint L) div sint I mod 2 ^ 32" "bucket om1 = (C, I, k1, L1)"
    "sint L1 = sint L + c * sint I" "uint k1 \<le> uint k + c" "k \<le> C \<Longrightarrow> k1 \<le> C"
proof -
  let ?q = "(sint now - sint L) div sint I"
  obtain el where el: "i64_of (sint now - sint L) = Some el" "sint el = sint now - sint L"
    using r b by (auto simp: refill_tokens_def bucket_def dest: i64_ofD elim!: bind_eq_SomeE)
  show thesis
  proof (cases "sint I \<le> sint el")
    case False
    then have "?q = 0" using el t by simp
    moreover have "om1 = om" using r b el False by (auto simp: refill_tokens_def bucket_def)
    ultimately show thesis using that [of 0 k L] b by simp
  next
    case True
    have "sint el sdiv sint I = ?q" using I True el(2) by (simp add: signed_divide_int_def)
    then obtain qt st lt where q: "i64_of ?q = Some qt" "i64_of (uint (ucast qt :: u32) * sint I) = Some st"
      "i64_of (sint L + sint st) = Some lt" "om1 = om\<lparr>om_tokens := min (k + ucast qt) C, om_last_refill_ts := lt\<rparr>"
      using r b el True by (auto simp: refill_tokens_def bucket_def Let_def elim!: bind_eq_SomeE split: if_splits)
    have "0 \<le> ?q" using I t by (simp add: pos_imp_zdiv_nonneg_iff)
    moreover have sq: "sint qt = ?q" using q(1) i64_ofD by blast
    moreover have "?q < 2 ^ 63" using sint_lt [of qt] sq by simp
    ultimately have "uint qt = ?q" by (simp add: uint_sint take_bit_int_eq_self)
    then have c: "uint (ucast qt :: u32) = ?q mod 2 ^ 32" by (simp add: unsigned_ucast_eq take_bit_eq_mod)
    have "bucket om1 = (C, I, min (k + ucast qt) C, lt)" using q(4) b by (simp add: bucket_def)
    moreover have "sint lt = sint L + ?q mod 2 ^ 32 * sint I"
      using i64_ofD [OF q(2)] i64_ofD [OF q(3)] c by simp
    moreover have "uint (min (k + ucast qt) C) \<le> uint k + ?q mod 2 ^ 32"
      using uint_add_le [of k "ucast qt"] c by (simp add: min_def word_le_def)
    ultimately show thesis using that by simp
  qed
qed

fun signal_time :: "om_event \<Rightarrow> int list" where
  "signal_time (ESignal _ t _) = [sint t]"
| "signal_time _ = []"

definition signal_times :: "om_event list \<Rightarrow> int list" where
  "signal_times es = concat (map signal_time es)"

lemma signal_times_simps [simp]:
  "signal_times [] = []" "signal_times (e # es) = signal_time e @ signal_times es"
  by (simp_all add: signal_times_def)

lemma not_signal_time [simp]: "\<not> is_signal e \<Longrightarrow> signal_time e = []"
  by (cases e) simp_all

text \<open>The quotient arithmetic of one refill.\<close>

lemma refill_arith:
  fixes x L I c :: int
  assumes "0 < I" "L' = L + c * I"
  shows "(x - L') div I = (x - L) div I - c"
proof -
  have "x - L' = (x - L) + (- c) * I" using assms(2) by simp
  then show ?thesis using assms(1) by (simp only: div_mult_self1)
qed

lemma refill_aligned:
  fixes t now L I q :: int
  assumes "0 < I" "q = (now - L) div I" "c = q mod 2 ^ 32" "(t - L) div I = 2 ^ 32 * m" "t \<le> now"
  shows "q - c = 2 ^ 32 * (q div 2 ^ 32)" "c \<le> q - 2 ^ 32 * m"
proof -
  show e: "q - c = 2 ^ 32 * (q div 2 ^ 32)" using assms(3) by (simp add: minus_mod_eq_mult_div)
  have "2 ^ 32 * m \<le> q" using zdiv_mono1 [of "t - L" "now - L" I] assms by simp
  then have "m \<le> q div 2 ^ 32" by simp
  then have "2 ^ 32 * m \<le> 2 ^ 32 * (q div 2 ^ 32)" by simp
  then show "c \<le> q - 2 ^ 32 * m" using e by linarith
qed

lemma uint_dec:
  fixes k :: u32
  assumes "k \<noteq> 0"
  shows "uint (k - 1) = uint k - 1"
proof -
  have "0 < unat k" using assms by (simp add: unat_gt_0)
  then have "int (unat (k - 1)) = int (unat k) - 1" using unat_minus_one [OF assms] by linarith
  then show ?thesis by simp
qed

lemma bucket_run:
  assumes "om_run es om = Some (n, om')" "bucket om = (C, I, k, L)" "0 < sint I" "sint L \<le> t"
    "(t - sint L) div sint I = 2 ^ 32 * m" "sorted (t # signal_times es)" "\<forall>x \<in> set (t # signal_times es). x \<le> T"
  shows "int n \<le> uint k + (T - sint L) div sint I - 2 ^ 32 * m"
  using assms
proof (induction es arbitrary: om n k L t m)
  case Nil
  have "(t - sint L) div sint I \<le> (T - sint L) div sint I" using Nil by (intro zdiv_mono1) auto
  then show ?case using Nil by (simp add: add_increasing)
next
  case (Cons e es)
  obtain b om1 n1 where s: "om_step e om = Some (b, om1)" "om_run es om1 = Some (n1, om')" "n = of_bool b + n1"
    using Cons.prems(1) by (auto elim!: bind_eq_SomeE)
  note prems = Cons.prems(2-)
  show ?case
  proof (cases "is_signal e")
    case False
    then have "bucket om1 = (C, I, k, L)" "n = n1" using step_bucket [OF s(1)] prems(1) s(3) by simp_all
    moreover have "sorted (t # signal_times es)" "\<forall>x \<in> set (t # signal_times es). x \<le> T" using prems(5,6) False by simp_all
    ultimately show ?thesis using Cons.IH [OF s(2) _ prems(2-4)] by simp
  next
    case True
    then obtain sg t1 t2 where ESignal: "e = ESignal sg t1 t2" by (cases e) simp_all
    then obtain out where os: "on_signal om sg t1 t2 (signal_order om sg t2) = Some (b, out, om1)"
      using s(1) by (auto elim!: bind_eq_SomeE)
    have srt: "sorted (t # signal_times es)" "sorted (sint t1 # signal_times es)" "t \<le> sint t1"
      "\<forall>x \<in> set (t # signal_times es). x \<le> T" "\<forall>x \<in> set (sint t1 # signal_times es). x \<le> T"
      using prems(5,6) ESignal by auto
    from os show ?thesis
    proof (cases rule: on_signal_bucket)
      case early
      then show ?thesis using Cons.IH [OF s(2) _ prems(2-4) srt(1,4)] prems(1) s(3) by simp
    next
      case (refilled om2)
      have Lt: "sint L \<le> sint t1" using prems(3) srt(3) by simp
      obtain c k1 L1 where c: "c = (sint t1 - sint L) div sint I mod 2 ^ 32" "bucket om2 = (C, I, k1, L1)"
        "sint L1 = sint L + c * sint I" "uint k1 \<le> uint k + c"
        by (rule refill_bucket [OF refilled(1) prems(1,2) Lt])
      let ?q = "(sint t1 - sint L) div sint I"
      note A = refill_aligned [OF prems(2) refl c(1) prems(4) srt(3)]
      have b1: "bucket om1 = (C, I, k1 - of_bool b, L1)" using refilled(3) c(2) by (simp add: bucket_def)
      have "uint (k1 - of_bool b) = uint k1 - of_bool b"
        using refilled(2) c(2) by (cases b) (auto simp: bucket_def uint_dec)
      moreover have "int n1 \<le> uint (k1 - of_bool b) + (T - sint L1) div sint I - 2 ^ 32 * (?q div 2 ^ 32)"
      proof (rule Cons.IH [OF s(2) b1 prems(2) _ _ srt(2,5)])
        show "(sint t1 - sint L1) div sint I = 2 ^ 32 * (?q div 2 ^ 32)"
          using refill_arith [OF prems(2) c(3)] A(1) by simp
        then have "0 \<le> (sint t1 - sint L1) div sint I" using prems(2) Lt by (simp add: pos_imp_zdiv_nonneg_iff)
        then show "sint L1 \<le> sint t1" using prems(2) by (simp add: pos_imp_zdiv_nonneg_iff)
      qed
      moreover have "int n = of_bool b + int n1" using s(3) by simp
      ultimately show ?thesis using A c(4) refill_arith [OF prems(2) c(3), of T] by linarith
    qed
  qed
qed

text \<open>
  The bound for a window: from the first refill in the window on, every token comes from the
  capacity or from the time that passed in the window.
\<close>

lemma window_arith:
  fixes a b I :: int
  assumes "0 < I"
  shows "(a + b) div I \<le> a div I + b div I + 1"
proof -
  have "(a + b) div I = a div I + b div I + (a mod I + b mod I) div I"
    by (metis div_add1_eq)
  moreover have "(a mod I + b mod I) div I \<le> (2 * I - 1) div I"
    using pos_mod_bound [OF assms, of a] pos_mod_bound [OF assms, of b] assms by (intro zdiv_mono1) linarith+
  moreover have "(2 * I - 1) div I = 1" using assms by (intro int_div_pos_eq [of _ _ _ "I - 1"]) auto
  ultimately show ?thesis by linarith
qed

definition bucket_ok :: "OrderManager \<Rightarrow> bool" where
  "bucket_ok om \<longleftrightarrow> om_tokens om \<le> om_bucket_capacity om \<and> 0 < sint (om_refill_interval_ns om)"

lemma uint_dec_le: "uint (k - of_bool b) \<le> uint (k :: u32)" if "b \<Longrightarrow> k \<noteq> 0"
  using that by (cases b) (simp_all add: uint_dec)

lemma refilled_signal:
  assumes r: "refill_tokens om t1 = Some om1" and b: "bucket om' = bucket (om1\<lparr>om_tokens := om_tokens om1 - of_bool b\<rparr>)"
    and k: "b \<Longrightarrow> om_tokens om1 \<noteq> 0" and ok: "bucket_ok om" and t: "sint (om_last_refill_ts om) \<le> sint t1"
  shows "bucket_ok om' \<and> sint (om_last_refill_ts om') \<le> sint t1 \<and> om_bucket_capacity om' = om_bucket_capacity om \<and>
    om_refill_interval_ns om' = om_refill_interval_ns om \<and> om_tokens om1 \<le> om_bucket_capacity om \<and>
    (\<exists>m. (sint t1 - sint (om_last_refill_ts om')) div sint (om_refill_interval_ns om) = 2 ^ 32 * m)"
proof -
  let ?I = "om_refill_interval_ns om" and ?L = "om_last_refill_ts om" and ?C = "om_bucket_capacity om"
  let ?q = "(sint t1 - sint ?L) div sint ?I"
  have I: "0 < sint ?I" using ok by (simp add: bucket_ok_def)
  obtain c k1 L1 where c: "c = ?q mod 2 ^ 32" "bucket om1 = (?C, ?I, k1, L1)" "sint L1 = sint ?L + c * sint ?I" "om_tokens om \<le> ?C \<Longrightarrow> k1 \<le> ?C"
    by (rule refill_bucket [OF r _ I t]) (auto simp: bucket_def)
  then have om1: "om_tokens om1 = k1" "bucket om' = (?C, ?I, k1 - of_bool b, L1)" using b by (simp_all add: bucket_def)
  have k1: "k1 \<le> ?C" using c(4) ok by (simp add: bucket_ok_def)
  then have le: "k1 - of_bool b \<le> ?C" using uint_dec_le [of b k1] k om1(1) by (auto simp: word_le_def)
  have A: "(sint t1 - sint L1) div sint ?I = 2 ^ 32 * (?q div 2 ^ 32)"
    using refill_arith [OF I c(3)] c(1) by (simp add: minus_mod_eq_mult_div)
  moreover have "0 \<le> ?q" using I t by (simp add: pos_imp_zdiv_nonneg_iff)
  ultimately have "0 \<le> (sint t1 - sint L1) div sint ?I" by simp
  then have "sint L1 \<le> sint t1" using I by (simp add: pos_imp_zdiv_nonneg_iff)
  then show ?thesis using om1 k1 le A I by (auto simp: bucket_def bucket_ok_def)
qed

lemma bucket_okI: "bucket om' = bucket om \<Longrightarrow> bucket_ok om' = bucket_ok om"
  by (simp add: bucket_def bucket_ok_def)

lemma window_run:
  assumes "om_run es om = Some (n, om')" "bucket_ok om" "sorted (signal_times es)"
    "\<forall>x \<in> set (signal_times es). sint (om_last_refill_ts om) \<le> x \<and> t0 \<le> x \<and> x \<le> T" "t0 \<le> T"
  shows "int n \<le> uint (om_bucket_capacity om) + (T - t0) div sint (om_refill_interval_ns om) + 1"
  using assms
proof (induction es arbitrary: om n)
  case Nil
  then have "0 \<le> (T - t0) div sint (om_refill_interval_ns om)" by (simp add: bucket_ok_def pos_imp_zdiv_nonneg_iff)
  then show ?case using Nil by (simp add: add_nonneg_nonneg)
next
  case (Cons e es)
  obtain b om1 n1 where s: "om_step e om = Some (b, om1)" "om_run es om1 = Some (n1, om')" "n = of_bool b + n1"
    using Cons.prems(1) by (auto elim!: bind_eq_SomeE)
  have same: ?case if "bucket om1 = bucket om" "\<not> b"
  proof -
    have eq: "om_bucket_capacity om1 = om_bucket_capacity om" "om_refill_interval_ns om1 = om_refill_interval_ns om"
      "om_last_refill_ts om1 = om_last_refill_ts om" using that(1) by (simp_all add: bucket_def)
    show ?thesis using Cons.IH [OF s(2)] Cons.prems that(2) s(3) bucket_okI [OF that(1)]
      unfolding eq by (simp add: sorted_append)
  qed
  show ?case
  proof (cases "is_signal e")
    case False
    then show ?thesis using same step_bucket [OF s(1)] by blast
  next
    case True
    then obtain sg t1 t2 where e: "e = ESignal sg t1 t2" by (cases e) simp_all
    then obtain out where os: "on_signal om sg t1 t2 (signal_order om sg t2) = Some (b, out, om1)"
      using s(1) by (auto elim!: bind_eq_SomeE)
    have t: "sint (om_last_refill_ts om) \<le> sint t1" "t0 \<le> sint t1" "sint t1 \<le> T"
      "sorted (sint t1 # signal_times es)" "\<forall>x \<in> set (sint t1 # signal_times es). x \<le> T"
      using Cons.prems(3,4) e by auto
    from os show ?thesis
    proof (cases rule: on_signal_bucket)
      case early
      then show ?thesis by (intro same)
    next
      case (refilled om2)
      let ?I = "sint (om_refill_interval_ns om)" and ?L = "sint (om_last_refill_ts om1)"
      obtain m where R: "bucket_ok om1" "?L \<le> sint t1" "om_refill_interval_ns om1 = om_refill_interval_ns om"
        "om_tokens om2 \<le> om_bucket_capacity om" "(sint t1 - ?L) div ?I = 2 ^ 32 * m"
        using refilled_signal [OF refilled(1,3,2) Cons.prems(2) t(1)] by blast
      have I: "0 < ?I" using Cons.prems(2) by (simp add: bucket_ok_def)
      have "om_tokens om1 = om_tokens om2 - of_bool b" using refilled(3) by (simp add: bucket_def)
      then have k: "uint (om_tokens om1) = uint (om_tokens om2) - of_bool b"
        using refilled(2) by (cases b) (simp_all add: uint_dec)
      have "int n1 \<le> uint (om_tokens om1) + (T - ?L) div ?I - 2 ^ 32 * m"
        by (rule bucket_run [OF s(2) _ I R(2,5) t(4,5)]) (simp add: bucket_def R(3))
      moreover have "(T - ?L) div ?I \<le> (T - sint t1) div ?I + (sint t1 - ?L) div ?I + 1"
        using window_arith [OF I, of "T - sint t1" "sint t1 - ?L"] by simp
      moreover have "(T - sint t1) div ?I \<le> (T - t0) div ?I" using I t(2) by (intro zdiv_mono1) auto
      moreover have "uint (om_tokens om2) \<le> uint (om_bucket_capacity om)" using R(4) by (simp add: word_le_def)
      moreover have "int n = of_bool b + int n1" using s(3) by simp
      ultimately show ?thesis using k R(5) by linarith
    qed
  qed
qed

text \<open>The state of the bucket between two parts of a run.\<close>

lemma bucket_after:
  assumes "om_run es om = Some (n, om')" "bucket_ok om" "sorted (signal_times es)"
    "\<forall>x \<in> set (signal_times es). sint (om_last_refill_ts om) \<le> x \<and> x \<le> T" "sint (om_last_refill_ts om) \<le> T"
  shows "bucket_ok om' \<and> sint (om_last_refill_ts om') \<le> T \<and> om_bucket_capacity om' = om_bucket_capacity om \<and>
    om_refill_interval_ns om' = om_refill_interval_ns om"
  using assms
proof (induction es arbitrary: om n)
  case (Cons e es)
  obtain b om1 n1 where s: "om_step e om = Some (b, om1)" "om_run es om1 = Some (n1, om')" "n = of_bool b + n1"
    using Cons.prems(1) by (auto elim!: bind_eq_SomeE)
  have same: ?case if "bucket om1 = bucket om"
  proof -
    have eq: "om_bucket_capacity om1 = om_bucket_capacity om" "om_refill_interval_ns om1 = om_refill_interval_ns om"
      "om_last_refill_ts om1 = om_last_refill_ts om" using that(1) by (simp_all add: bucket_def)
    show ?thesis using Cons.IH [OF s(2)] Cons.prems bucket_okI [OF that(1)] unfolding eq by (simp add: sorted_append)
  qed
  show ?case
  proof (cases "is_signal e")
    case False
    then show ?thesis using same step_bucket [OF s(1)] by blast
  next
    case True
    then obtain sg t1 t2 where e: "e = ESignal sg t1 t2" by (cases e) simp_all
    then obtain out where os: "on_signal om sg t1 t2 (signal_order om sg t2) = Some (b, out, om1)"
      using s(1) by (auto elim!: bind_eq_SomeE)
    from os show ?thesis
    proof (cases rule: on_signal_bucket)
      case early
      then show ?thesis by (intro same)
    next
      case (refilled om2)
      have t: "sint (om_last_refill_ts om) \<le> sint t1" "sint t1 \<le> T" "sorted (signal_times es)"
        "\<forall>x \<in> set (signal_times es). sint t1 \<le> x \<and> x \<le> T"
        using Cons.prems(3,4) e by auto
      note R = refilled_signal [OF refilled(1,3,2) Cons.prems(2) t(1)]
      have "\<forall>x \<in> set (signal_times es). sint (om_last_refill_ts om1) \<le> x \<and> x \<le> T" using R t(4) by force
      moreover have "sint (om_last_refill_ts om1) \<le> T" using R t(2) by linarith
      ultimately show ?thesis using Cons.IH [OF s(2)] R t(3) by simp
    qed
  qed
qed simp

section \<open>Positions over a run\<close>

lemma helper_position:
  "clear_active_if_match om s d k = Some om' \<Longrightarrow> om_net_position om' = om_net_position om"
  "cancel_timer om i = Some om' \<Longrightarrow> om_net_position om' = om_net_position om"
  "drop_outstanding om k = Some om' \<Longrightarrow> om_net_position om' = om_net_position om"
  "refill_tokens om t = Some om' \<Longrightarrow> om_net_position om' = om_net_position om"
  by (auto simp: clear_active_if_match_def cancel_timer_def drop_outstanding_def refill_tokens_def
      Let_def elim!: bind_eq_SomeE split: if_splits)

lemma position_upd [simp]:
  "om_net_position (maybe_compact_outstanding om) = om_net_position om"
  "om_net_position (check_drain_complete om) = om_net_position om"
  by (simp_all add: maybe_compact_outstanding_def check_drain_complete_def Let_def)

lemma untrack_position: "untrack om i k = Some om' \<Longrightarrow> om_net_position om' = om_net_position om"
  by (auto simp: untrack_def dest: helper_position elim!: bind_eq_SomeE)

lemma process_timeouts_position: "process_timeouts ks now n om = Some (n', om') \<Longrightarrow> om_net_position om' = om_net_position om"
proof (induction ks arbitrary: n om)
  case (Cons k ks)
  then show ?case
    by (fastforce dest: untrack_position helper_position elim!: bind_eq_SomeE split: option.splits prod.splits)
qed simp

lemma generate_position: "generate_order om sg t = Some (b, out, om') \<Longrightarrow> om_net_position om' = om_net_position om"
  by (auto simp: generate_order_def Let_def elim!: bind_eq_SomeE split: if_splits dest!: helper_position)

lemma on_signal_position: "on_signal om sg t1 t2 out = Some (b, out', om') \<Longrightarrow> om_net_position om' = om_net_position om"
  by (auto simp: on_signal_def Let_def elim!: bind_eq_SomeE split: if_splits dest!: generate_position helper_position)

fun is_fill :: "om_event \<Rightarrow> bool" where
  "is_fill (EFill _) = True"
| "is_fill _ = False"

lemma step_position:
  assumes "om_step e om = Some (b, om')" "\<not> is_fill e"
  shows "om_net_position om' = om_net_position om"
proof (cases e)
  case (ESignal sg t1 t2)
  then show ?thesis using assms by (auto elim!: bind_eq_SomeE dest: on_signal_position)
next
  case (EModify sg t)
  then show ?thesis using assms
    by (auto simp: check_modify_def Let_def elim!: bind_eq_SomeE split: if_splits)
next
  case (ETimeout t)
  then obtain bt where "advance_timeouts om t = Some (bt, om')" using assms(1) by (auto elim!: bind_eq_SomeE)
  then show ?thesis
    by (auto simp: advance_timeouts_def Let_def elim!: bind_eq_SomeE split: if_splits prod.splits
        dest!: process_timeouts_position)
next
  case (EKill t)
  then show ?thesis using assms
    by (auto simp: trigger_kill_switch_def Let_def elim!: bind_eq_SomeE split: if_splits prod.splits)
qed (use assms in \<open>auto simp: on_order_ack_def on_modify_ack_def on_order_reject_def on_modify_reject_def
      on_cancel_ack_def on_cancel_reject_def Let_def elim!: bind_eq_SomeE dest!: untrack_position helper_position
      split: option.splits if_splits\<close>)

text \<open>What an event books, and what a run books: symbol and signed quantity.\<close>

fun booked :: "OrderManager \<Rightarrow> om_event \<Rightarrow> (u32 \<times> int) list" where
  "booked om (EFill f) = (case hm_find (om_outstanding om) (fr_client_order_id f) of
     Some (Some i) \<Rightarrow> [(oi_symbol_id i, if oi_side i = kBid then uint (fr_fill_qty f) else - uint (fr_fill_qty f))]
   | _ \<Rightarrow> [])"
| "booked om _ = []"

fun booked_run :: "om_event list \<Rightarrow> OrderManager \<Rightarrow> (u32 \<times> int) list" where
  "booked_run [] om = []"
| "booked_run (e # es) om = booked om e @ (case om_step e om of None \<Rightarrow> [] | Some (_, om') \<Rightarrow> booked_run es om')"

definition booked_total :: "u32 \<Rightarrow> (u32 \<times> int) list \<Rightarrow> int" where
  "booked_total s bs = sum_list (map snd (filter (\<lambda>b. fst b = s) bs))"

lemma booked_total_simps [simp]:
  "booked_total s [] = 0" "booked_total s (xs @ ys) = booked_total s xs + booked_total s ys"
  "booked_total s [(s', q)] = (if s = s' then q else 0)"
  by (auto simp: booked_total_def)

lemma fill_position:
  assumes inv: "om_inv om" and f: "on_fill om f = Some om'"
  shows "sint (om_net_position om' ! unat (s - 1)) = sint (om_net_position om ! unat (s - 1)) + booked_total s (booked om (EFill f))"
proof (cases "om_orders om (fr_client_order_id f)")
  case None
  then have "om_net_position om' = om_net_position om"
    using f find_tracked [OF inv] by (auto simp: on_fill_def elim!: bind_eq_SomeE split: if_splits dest!: helper_position)
  then show ?thesis using find_tracked [OF inv, of "fr_client_order_id f"] None by simp
next
  case (Some i)
  note C = om_coreD [OF om_inv_core [OF inv]]
  let ?k = "unat (oi_symbol_id i - 1)"
  have v: "valid_symbol (om_ctx om) (oi_symbol_id i)" using Some C(7) by (auto simp: orders_ok_def)
  have len: "?k < length (om_net_position om)" "oi_symbol_id i - 1 < sc_max_symbols (om_ctx om)"
    using valid_symbol_index [OF v] C(1) by (simp_all add: om_arrays_def word_less_nat_alt)
  obtain p where p: "i64_of (if oi_side i = kBid then sint (om_net_position om ! ?k) + uint (fr_fill_qty f)
      else sint (om_net_position om ! ?k) - uint (fr_fill_qty f)) = Some p"
    "om_net_position om' = (om_net_position om)[?k := p]"
    using f find_tracked [OF inv, of "fr_client_order_id f"] Some len
    by (auto simp: on_fill_def apply_fill_def Let_def arr_get_def arr_upd_def elim!: bind_eq_SomeE split: if_splits
        dest!: helper_position untrack_position)
  have "?k = unat (s - 1) \<longleftrightarrow> s = oi_symbol_id i" using symbol_index_inj by metis
  then show ?thesis
    using i64_ofD [OF p(1)] p(2) len(1) find_tracked [OF inv, of "fr_client_order_id f"] Some by (cases "s = oi_symbol_id i") auto
qed

lemma apply_fill_length: "apply_fill om i q = Some om' \<Longrightarrow> length (om_net_position om') = length (om_net_position om)"
  by (auto simp: apply_fill_def Let_def arr_upd_def elim!: bind_eq_SomeE split: if_splits)

lemma run_position:
  assumes "om_inv om" "expected_run es om" "om_run es om = Some (n, om')"
  shows "length (om_net_position om') = length (om_net_position om) \<and>
    sint (om_net_position om' ! unat (s - 1)) = sint (om_net_position om ! unat (s - 1)) + booked_total s (booked_run es om)"
  using assms
proof (induction es arbitrary: om n)
  case (Cons e es)
  obtain b om1 n1 where s: "om_step e om = Some (b, om1)" "om_run es om1 = Some (n1, om')"
    using Cons.prems(3) by (auto elim!: bind_eq_SomeE)
  have inv1: "om_inv om1" "expected_run es om1"
    using om_step_inv [OF Cons.prems(1), of e] Cons.prems(2) s(1) by auto
  have "length (om_net_position om1) = length (om_net_position om) \<and>
    sint (om_net_position om1 ! unat (s - 1)) = sint (om_net_position om ! unat (s - 1)) + booked_total s (booked om e)"
  proof (cases "is_fill e")
    case False
    then show ?thesis using step_position [OF s(1)] by (cases e) simp_all
  next
    case True
    then obtain f where "e = EFill f" by (cases e) simp_all
    moreover from this have f: "on_fill om f = Some om1" using s(1) by auto
    moreover have "length (om_net_position om1) = length (om_net_position om)"
      using f by (auto simp: on_fill_def elim!: bind_eq_SomeE
          dest!: helper_position untrack_position apply_fill_length split: if_splits option.splits)
    ultimately show ?thesis using fill_position [OF Cons.prems(1) f] by simp
  qed
  then show ?case using Cons.IH [OF inv1 s(2)] s(1) by simp
qed simp

section \<open>Runs after the kill switch\<close>

lemma helper_killed:
  "clear_active_if_match om s d k = Some om' \<Longrightarrow> om_kill_switch_state om' = om_kill_switch_state om"
  "cancel_timer om i = Some om' \<Longrightarrow> om_kill_switch_state om' = om_kill_switch_state om"
  "drop_outstanding om k = Some om' \<Longrightarrow> om_kill_switch_state om' = om_kill_switch_state om"
  "apply_fill om i q = Some om' \<Longrightarrow> om_kill_switch_state om' = om_kill_switch_state om"
  by (auto simp: clear_active_if_match_def cancel_timer_def drop_outstanding_def apply_fill_def
      Let_def elim!: bind_eq_SomeE split: if_splits)

lemma killed_upd [simp]:
  "om_kill_switch_state (maybe_compact_outstanding om) = om_kill_switch_state om"
  "is_killed om \<Longrightarrow> is_killed (check_drain_complete om)"
  "is_killed (om\<lparr>om_stats := st\<rparr>) = is_killed om"
  by (simp_all add: maybe_compact_outstanding_def check_drain_complete_def is_killed_def Let_def)

lemma untrack_killed: "untrack om i k = Some om' \<Longrightarrow> om_kill_switch_state om' = om_kill_switch_state om"
  by (auto simp: untrack_def dest: helper_killed elim!: bind_eq_SomeE)

lemma step_killed:
  assumes "om_step e om = Some (b, om')" "is_killed om"
  shows "\<not> b \<and> is_killed om' \<and> (\<forall>sg t m. check_modify om' sg t m = Some (False, m, om'))"
proof -
  have "\<not> b \<and> is_killed om'"
  proof (cases e)
    case (ECancelAck a)
    then show ?thesis using assms
      by (auto simp: on_cancel_ack_def elim!: bind_eq_SomeE dest!: untrack_killed helper_killed split: option.splits)
         (auto simp: is_killed_def intro!: killed_upd(2) [unfolded is_killed_def])
  next
    case (ECancelReject a)
    then show ?thesis using assms
      by (auto simp: on_cancel_reject_def elim!: bind_eq_SomeE dest!: untrack_killed helper_killed split: option.splits)
         (auto simp: is_killed_def intro!: killed_upd(2) [unfolded is_killed_def])
  qed (use assms in \<open>auto simp: is_killed_def on_signal_def check_modify_def advance_timeouts_def trigger_kill_switch_def
      on_order_ack_def on_modify_ack_def on_order_reject_def on_modify_reject_def on_fill_def Let_def
      elim!: bind_eq_SomeE dest!: untrack_killed helper_killed split: option.splits if_splits\<close>)
  then show ?thesis by (simp add: check_modify_def is_killed_def)
qed

lemma run_killed: "om_run es om = Some (n, om') \<Longrightarrow> is_killed om \<Longrightarrow> n = 0 \<and> is_killed om'"
proof (induction es arbitrary: om n)
  case (Cons e es)
  obtain b om1 n1 where s: "om_step e om = Some (b, om1)" "om_run es om1 = Some (n1, om')" "n = of_bool b + n1"
    using Cons.prems(1) by (auto elim!: bind_eq_SomeE)
  then show ?case using Cons.IH [OF s(2)] step_killed [OF s(1) Cons.prems(2)] by simp
qed simp

text \<open>The events that answer the cancel of an order.\<close>

fun answers :: "u64 \<Rightarrow> om_event \<Rightarrow> bool" where
  "answers k (ECancelAck a) \<longleftrightarrow> ca_client_order_id a = k"
| "answers k (ECancelReject r) \<longleftrightarrow> crj_client_order_id r = k"
| "answers k _ \<longleftrightarrow> False"

lemma answer_step:
  assumes inv: "om_inv om" and k: "om_orders om k \<noteq> None" and e: "answers k e"
  obtains om1 where "om_step e om = Some (False, check_drain_complete om1)" "released om k om1"
proof (cases e)
  case (ECancelAck a)
  then have k': "om_orders om (ca_client_order_id a) \<noteq> None" "ca_client_order_id a = k" using k e by simp_all
  show thesis by (rule on_cancel_ack_tracked [OF inv k'(1)]) (use that k'(2) ECancelAck in auto)
next
  case (ECancelReject r)
  then have k': "crj_client_order_id r = k" using e by simp
  show thesis by (rule on_cancel_reject_spec [OF inv, of r]) (use that k k' ECancelReject in auto)
qed (use e in simp_all)

lemma drain_run:
  assumes "om_inv om" "om_kill_switch_state om = kDraining" "unat (om_pending_cancel_count om) = length ks" "ks \<noteq> []"
    "distinct ks" "set ks = dom (om_orders om)" "list_all2 answers ks es"
  shows "\<exists>om'. om_run es om = Some (0, om') \<and> om_kill_switch_state om' = kComplete \<and> om_orders om' = Map.empty \<and> om_inv om'"
  using assms
proof (induction ks arbitrary: om es)
  case (Cons k ks)
  obtain e es' where es: "es = e # es'" "answers k e" "list_all2 answers ks es'" using Cons.prems(7) by (auto simp: list_all2_Cons1)
  have k: "om_orders om k \<noteq> None" using Cons.prems(6) by (metis domIff list.set_intros(1))
  obtain om1 where om1: "om_step e om = Some (False, check_drain_complete om1)" "released om k om1"
    by (rule answer_step [OF Cons.prems(1) k es(2)])
  let ?om = "check_drain_complete om1"
  have r: "om_kill_switch_state om1 = kDraining" "om_pending_cancel_count om1 = om_pending_cancel_count om"
    "om_orders om1 = (om_orders om)(k := None)" "om_inv om1"
    using om1(2) Cons.prems(2) by (auto simp: released_def)
  have p: "om_pending_cancel_count om \<noteq> 0" "0 < om_pending_cancel_count om" using Cons.prems(3) by (auto simp: word_gt_0)
  have pc: "unat (om_pending_cancel_count om - 1) = length ks" using unat_minus_one [OF p(1)] Cons.prems(3) by simp
  have inv: "om_inv ?om" by (rule drain_inv [OF r(4)])
  have d: "?om = om1\<lparr>om_pending_cancel_count := om_pending_cancel_count om - 1,
      om_kill_switch_state := (if ks = [] then kComplete else kDraining)\<rparr>"
    using r(1,2) p pc by (auto simp: check_drain_complete_def Let_def unat_eq_0 [symmetric])
  have dom: "set ks = dom (om_orders ?om)" using Cons.prems(5,6) d r(3) by auto
  show ?case
  proof (cases "ks = []")
    case True
    then have "om_orders ?om = Map.empty" using dom by (metis dom_eq_empty_conv empty_set)
    then show ?thesis using True es om1(1) inv d by simp
  next
    case False
    then obtain om' where "om_run es' ?om = Some (0, om')" "om_kill_switch_state om' = kComplete"
      "om_orders om' = Map.empty" "om_inv om'"
      using Cons.IH [OF inv _ _ False _ dom es(3)] Cons.prems(5) d pc by auto
    then show ?thesis using es(1) om1(1) by simp
  qed
qed simp

end
