(* ===== verification/OrderManagerDemo.thy ===== *)
theory OrderManagerDemo
  imports OrderManagerRuns
begin

text \<open>A small order manager, for the examples that apply the properties.\<close>

section \<open>A small order manager\<close>

definition demo_ctx :: StrategyCtx where
  "demo_ctx = \<lparr>sc_tcp_rx = 0, sc_tcp_rx_size = 0, sc_tcp_tx = 0, sc_tcp_tx_size = 0, sc_scratch = 0,
     sc_scratch_size = 0, sc_net_position = 0, sc_outstanding_per_symbol = 16, sc_active_orders = 32,
     sc_map_buf = 128, sc_map_buf_size = 896, sc_map_capacity = 16, sc_cancel_buf = 1024,
     sc_timeout_wheel_buf = 4096, sc_timeout_wheel_buf_size = 4096, sc_timeout_wheel_size = 8,
     sc_timeout_max_timers = 4, sc_timeout_ids = 2048, sc_max_symbols = 2, sc_max_outstanding = 4,
     sc_max_outstanding_per_symbol = 2\<rparr>"

definition demo_info :: OrderInfo where
  "demo_info = \<lparr>oi_side = kBid, oi_price = 0, oi_qty = 0, oi_symbol_id = 0, oi_send_ts = 0, oi_timer_handle = 0\<rparr>"

definition demo_om :: OrderManager where
  "demo_om = \<lparr>om_ctx = demo_ctx, om_net_position = [0, 0], om_per_symbol = [0, 0],
     om_active_orders = [zero_active, zero_active, zero_active, zero_active],
     om_cancel_buf = replicate 4 \<lparr>co_client_order_id = 0, co_symbol_id = 0, co_send_ts = 0\<rparr>,
     om_timeout_ids = replicate 4 0, om_next_order_id = 1, om_outstanding_count = 0, om_max_position = 1000,
     om_max_order_size = 100, om_max_notional = 1000000, om_bucket_capacity = 2, om_refill_interval_ns = 500000000,
     om_last_refill_ts = 0, om_tokens = 2, om_stats = zero_stats, om_kill_switch_state = kNormal,
     om_pending_cancel_count = 0,
     om_outstanding = hm_new default_hash (replicate 16 \<lparr>slot_key = 0, slot_value = demo_info, slot_state = kEmpty\<rparr>) 16,
     om_timeout_wheel = small_wheel, om_order_timeout_ns = 5000000, om_last_advance_ns = 0, om_timeout_count = 0\<rparr>"

definition demo_slots :: "(u64, OrderInfo) Slot list" where
  "demo_slots = replicate 16 \<lparr>slot_key = 0, slot_value = demo_info, slot_state = kEmpty\<rparr>"

definition demo_cancels :: "CancelOrder list" where
  "demo_cancels = replicate 4 \<lparr>co_client_order_id = 0, co_symbol_id = 0, co_send_ts = 0\<rparr>"

lemma replicate_2_4: "replicate 2 x = [x, x]" "replicate 4 x = [x, x, x, x]"
  by (simp_all add: numeral_eq_Suc)

lemma demo_init: "OrderManager_init demo_ctx demo_slots demo_cancels (replicate 4 0) 1000 100 1000000 2 1000000000 5000000 = Some demo_om"
proof -
  have "is_power_of_two 16" unfolding is_power_of_two_iff by (intro exI [of _ 4]) simp
  then have "hm_construct default_hash sizeof_map_slot alignof_map_slot (sc_map_buf demo_ctx) demo_slots
      (sc_map_buf_size demo_ctx) (sc_map_capacity demo_ctx) = Some (om_outstanding demo_om)"
    by (simp add: hm_construct_create hm_create_def hm_is_valid_capacity_def sizeof_map_slot_def alignof_map_slot_def
        demo_ctx_def demo_slots_def demo_om_def hm_clear_def hm_new_def)
  moreover have "tw_construct (sc_timeout_wheel_buf demo_ctx) (sc_timeout_wheel_buf_size demo_ctx)
      (sc_timeout_wheel_size demo_ctx) (sc_timeout_max_timers demo_ctx) = Some (om_timeout_wheel demo_om)"
    by (simp add: construct_create small_create demo_ctx_def demo_om_def)
  moreover have "i64_of (sint (1000000000 :: i64) sdiv uint (2 :: u32)) = Some 500000000"
    by (simp add: i64_of_def signed_divide_int_def)
  ultimately show ?thesis
    by (simp add: OrderManager_init_def demo_om_def demo_ctx_def demo_cancels_def kSideCount_def replicate_2_4)
qed

lemma demo_config: "om_config demo_om"
  using create_inv(3,4) [OF small_create, where 'a = unit and 'b = u64]
  by (simp add: om_config_def order_delay_def demo_om_def demo_ctx_def kTickIntervalNs_def signed_divide_int_def)

lemma demo_sizes: "sc_map_capacity demo_ctx \<le> length demo_slots" "unat (sc_max_outstanding demo_ctx) \<le> length demo_cancels"
  "unat (sc_max_outstanding demo_ctx) \<le> length (replicate 4 (0 :: u64))"
  by (simp_all add: demo_ctx_def demo_slots_def demo_cancels_def)

lemmas demo_om_inv = om_init_inv [OF demo_init demo_sizes demo_config]

definition demo_signal :: Signal where
  "demo_signal = \<lparr>sig_side = kBid, sig_price = 100, sig_qty = 10, sig_symbol_id = 1\<rparr>"

lemma demo_signal_ok: "signal_ok demo_om demo_signal 0"
  by code_simp

lemma demo_signal_sent: "case on_signal demo_om demo_signal 0 0 (signal_order demo_om demo_signal 0) of
    Some (b, _, _) \<Rightarrow> b | None \<Rightarrow> False"
  by code_simp

text \<open>The order manager after one accepted signal.\<close>

lemma demo_sent:
  obtains om1 i where "on_signal demo_om demo_signal 0 0 (signal_order demo_om demo_signal 0) = Some (True, signal_order demo_om demo_signal 0, om1)"
    "om_run [ESignal demo_signal 0 0] demo_om = Some (1, om1)" "om_inv om1" "\<not> is_killed om1" "om_orders om1 = [1 \<mapsto> i]"
    "oi_symbol_id i = 1" "oi_side i = kBid" "om_net_position om1 = [0, 0]"
  using demo_om_inv demo_signal_ok
proof (cases rule: on_signal_spec [where ?now2.0 = 0 and out = "signal_order demo_om demo_signal 0"])
  case (sent om' i)
  have "om_orders demo_om = Map.empty" "om_next_order_id demo_om = 1"
    by (simp_all add: demo_om_def hm_lookup_def hm_new_def hm_entries_def)
  then show thesis using sent that by (simp add: is_killed_def demo_signal_def demo_om_def)
next
  case (rejected out' om')
  then show thesis using demo_signal_sent by simp
qed

end
