(* ===== verification/OrderManagerProps.thy ===== *)
theory OrderManagerProps
  imports OrderManagerDemo
begin

text \<open>
  The properties of the order manager: risk limits, the invariant over runs, positions, the
  rate limit, timeouts and the kill switch.
\<close>

section \<open>Properties\<close>



text \<open>
  C26. From construction on, any run of expected events returns, and in the state it reaches
  the outstanding map, the global and per-symbol counts, the active orders and the timers
  agree, and the limit on outstanding orders holds.
\<close>

theorem order_manager_runs_safely:
  assumes "OrderManager_init ctx slots cancels tids max_position max_order_size max_notional
      max_orders_per_window rate_window_ns order_timeout_ns = Some om"
    and "sc_map_capacity ctx \<le> length slots" "unat (sc_max_outstanding ctx) \<le> length cancels"
      "unat (sc_max_outstanding ctx) \<le> length tids" "om_config om" and "expected_run es om"
  shows "\<exists>n om'. om_run es om = Some (n, om') \<and> om_inv om'"
  by (rule om_run_inv [OF om_init_inv [OF assms(1-5)] assms(6)])

theorem order_manager_runs_safely_witness:
  "\<exists>n om'. om_run [ESignal demo_signal 0 0, EKill 0, ESignal demo_signal 5 5] demo_om = Some (n, om') \<and> om_inv om'"
proof -
  have "expected_run [ESignal demo_signal 0 0, EKill 0, ESignal demo_signal 5 5] demo_om" by code_simp
  then show ?thesis using order_manager_runs_safely [OF demo_init demo_sizes demo_config] by blast
qed

text \<open>
  C27. The net position of a symbol moves by exactly the fills of its tracked orders, bought
  quantities up and sold quantities down, whatever else happens in between.
\<close>

theorem positions_follow_fills:
  assumes "om_inv om" "expected_run es om" "om_run es om = Some (n, om')" "net_position om s = Some p"
  shows "\<exists>p'. net_position om' s = Some p' \<and> sint p' = sint p + booked_total s (booked_run es om)"
  using run_position [OF assms(1-3), of s] assms(4) by (auto simp: net_position_def arr_get_def split: if_splits)

definition demo_fill :: FillReport where
  "demo_fill = \<lparr>fr_client_order_id = 1, fr_exchange_order_id = 7, fr_fill_price = 100, fr_fill_qty = 4,
     fr_remaining_qty = 6, fr_send_ts = 0\<rparr>"

theorem positions_follow_fills_witness:
  "case om_run [ESignal demo_signal 0 0, EFill demo_fill] demo_om of
     Some (n, om') \<Rightarrow> (\<exists>p'. net_position om' 1 = Some p' \<and> sint p' = 4) | None \<Rightarrow> False"
proof -
  let ?es = "[ESignal demo_signal 0 0, EFill demo_fill]"
  have e: "expected_run ?es demo_om" by code_simp
  have b: "booked_total 1 (booked_run ?es demo_om) = 4" by code_simp
  obtain n om' where r: "om_run ?es demo_om = Some (n, om')" using om_run_inv [OF demo_om_inv e] by blast
  have "net_position demo_om 1 = Some 0" by (simp add: net_position_def arr_get_def demo_om_def)
  then have "\<exists>p'. net_position om' 1 = Some p' \<and> sint p' = sint (0 :: i64) + booked_total 1 (booked_run ?es demo_om)"
    by (rule positions_follow_fills [OF demo_om_inv e r])
  then show ?thesis unfolding b r by simp
qed

text \<open>
  C28. The token bucket: when clock readings never go back, the signals in any window of a
  run generate at most as many orders as the capacity of the bucket, one more for every
  refill interval in the window, and one.
\<close>

theorem rate_limit:
  assumes "OrderManager_init ctx slots cancels tids max_position max_order_size max_notional
      max_orders_per_window rate_window_ns order_timeout_ns = Some om0"
    and "om_run es0 om0 = Some (n0, om)" "om_run es om = Some (n, om')" "sorted (0 # signal_times (es0 @ es))"
    and "\<forall>x \<in> set (signal_times es). t0 \<le> x \<and> x \<le> T" "t0 \<le> T" "0 < sint (om_refill_interval_ns om0)"
  shows "int n \<le> uint max_orders_per_window + (T - t0) div sint (om_refill_interval_ns om0) + 1"
proof -
  have i: "om_last_refill_ts om0 = 0" "om_bucket_capacity om0 = max_orders_per_window" "bucket_ok om0"
    using assms(1,7) by (auto simp: OrderManager_init_def bucket_ok_def elim!: bind_eq_SomeE)
  let ?T = "Max (set (0 # signal_times es0))"
  have s: "sorted (signal_times es0)" "sorted (signal_times es)"
    "\<forall>x \<in> set (signal_times es0). 0 \<le> x" "\<forall>x \<in> set (signal_times es). 0 \<le> x"
    "\<forall>x \<in> set (signal_times es0). \<forall>y \<in> set (signal_times es). x \<le> y"
    using assms(4) by (auto simp: signal_times_def sorted_append)
  have b: "bucket_ok om" "sint (om_last_refill_ts om) \<le> ?T" "om_bucket_capacity om = om_bucket_capacity om0"
    "om_refill_interval_ns om = om_refill_interval_ns om0"
    using bucket_after [OF assms(2) i(3) s(1), of ?T] i(1) s(3) by auto
  have "sint (om_last_refill_ts om) \<le> x" if "x \<in> set (signal_times es)" for x
  proof -
    have "?T \<le> x" using that s(4,5) by auto
    then show ?thesis using b(2) by linarith
  qed
  then have "\<forall>x \<in> set (signal_times es). sint (om_last_refill_ts om) \<le> x \<and> t0 \<le> x \<and> x \<le> T"
    using assms(5) by blast
  then show ?thesis using window_run [OF assms(3) b(1) s(2) _ assms(6)] b(3,4) i(2) by metis
qed

theorem rate_limit_witness:
  "case om_run [ESignal demo_signal 0 0] demo_om of
     Some (n, _) \<Rightarrow> int n \<le> uint (2 :: u32) + (0 - 0) div sint (om_refill_interval_ns demo_om) + 1 | None \<Rightarrow> False"
proof -
  obtain om1 where r: "om_run [ESignal demo_signal 0 0] demo_om = Some (1, om1)" using demo_sent by blast
  have "int 1 \<le> uint (2 :: u32) + (0 - 0) div sint (om_refill_interval_ns demo_om) + 1"
    by (rule rate_limit [OF demo_init _ r, where ?es0.0 = "[]"]) (simp_all add: demo_om_def)
  then show ?thesis unfolding r by simp
qed

text \<open>
  C29. The kill switch cancels every outstanding order exactly once, and whatever arrives
  afterwards, no order and no modify is generated any more.
\<close>

theorem kill_switch_stops:
  assumes "om_inv om" "\<not> is_killed om"
  shows "\<exists>ks buf om'. trigger_kill_switch om now = Some (\<lparr>cb_cancels = buf, cb_count = of_nat (length ks)\<rparr>, om') \<and>
    distinct ks \<and> set ks = dom (om_orders om) \<and> take (length ks) buf = map (cancel_of (om_orders om) now) ks \<and>
    (case om_run es om' of None \<Rightarrow> True | Some (n, om'') \<Rightarrow> n = 0 \<and> is_killed om'' \<and>
       check_modify om'' sg now m = Some (False, m, om''))"
proof -
  have n: "om_kill_switch_state om = kNormal" using assms(2) by (simp add: is_killed_def)
  obtain ks buf w om' where t: "trigger_kill_switch om now = Some (\<lparr>cb_cancels = buf, cb_count = of_nat (length ks)\<rparr>, om')"
    "distinct ks" "set ks = dom (om_orders om)" "take (length ks) buf = map (cancel_of (om_orders om) now) ks"
    "om' = om\<lparr>om_cancel_buf := buf, om_timeout_wheel := w, om_pending_cancel_count := of_nat (length ks),
       om_kill_switch_state := (if ks = [] then kComplete else kDraining)\<rparr>"
    by (rule trigger_spec [OF assms(1) n])
  have k: "is_killed om'" using t(5) by (simp add: is_killed_def)
  have "case om_run es om' of None \<Rightarrow> True | Some (n, om'') \<Rightarrow> n = 0 \<and> is_killed om'' \<and>
      check_modify om'' sg now m = Some (False, m, om'')"
    using run_killed [OF _ k, of es] by (auto simp: check_modify_def is_killed_def split: option.splits)
  then show ?thesis using t(1-4) by blast
qed

theorem kill_switch_stops_witness:
  "case om_run [ESignal demo_signal 0 0] demo_om of
     Some (_, om) \<Rightarrow> \<exists>ks buf om'. trigger_kill_switch om 3 = Some (\<lparr>cb_cancels = buf, cb_count = of_nat (length ks)\<rparr>, om') \<and>
       distinct ks \<and> set ks = {1} \<and> take (length ks) buf = map (cancel_of (om_orders om) 3) ks \<and>
       (case om_run [ESignal demo_signal 5 5] om' of None \<Rightarrow> True | Some (n, _) \<Rightarrow> n = 0)
   | None \<Rightarrow> False"
proof -
  obtain om1 i where d: "om_run [ESignal demo_signal 0 0] demo_om = Some (1, om1)" "om_inv om1" "\<not> is_killed om1" "om_orders om1 = [1 \<mapsto> i]"
    using demo_sent by metis
  have "\<exists>ks buf om'. trigger_kill_switch om1 3 = Some (\<lparr>cb_cancels = buf, cb_count = of_nat (length ks)\<rparr>, om') \<and>
    distinct ks \<and> set ks = dom (om_orders om1) \<and> take (length ks) buf = map (cancel_of (om_orders om1) 3) ks \<and>
    (case om_run [ESignal demo_signal 5 5] om' of None \<Rightarrow> True | Some (n, om'') \<Rightarrow> n = 0 \<and> is_killed om'' \<and>
       check_modify om'' demo_signal 3 undefined = Some (False, undefined, om''))"
    by (rule kill_switch_stops [OF d(2,3)])
  then obtain ks buf om' where t: "trigger_kill_switch om1 3 = Some (\<lparr>cb_cancels = buf, cb_count = of_nat (length ks)\<rparr>, om')"
    "distinct ks" "set ks = {1}" "take (length ks) buf = map (cancel_of (om_orders om1) 3) ks"
    "case om_run [ESignal demo_signal 5 5] om' of None \<Rightarrow> True | Some (n, om'') \<Rightarrow> n = 0 \<and> is_killed om'' \<and>
       check_modify om'' demo_signal 3 undefined = Some (False, undefined, om'')"
    unfolding d(4) by auto
  then have "case om_run [ESignal demo_signal 5 5] om' of None \<Rightarrow> True | Some (n, _) \<Rightarrow> n = 0" by (auto split: option.splits)
  then show ?thesis unfolding d(1) option.case prod.case using t(1-4) by blast
qed

text \<open>
  C30. Once every cancel of the kill switch has been answered by an ack or a reject, in any
  order, the drain is complete and no order is outstanding.
\<close>

theorem kill_switch_completes:
  assumes "om_inv om" "\<not> is_killed om" "trigger_kill_switch om now = Some (batch, om')"
    and "distinct ks" "set ks = dom (om_orders om)" "list_all2 answers ks es"
  shows "\<exists>om''. om_run es om' = Some (0, om'') \<and> om_kill_switch_state om'' = kComplete \<and> om_orders om'' = Map.empty"
proof -
  have n: "om_kill_switch_state om = kNormal" using assms(2) by (simp add: is_killed_def)
  obtain ks' buf w where t: "distinct ks'" "set ks' = dom (om_orders om)" "length ks' = unat (om_outstanding_count om)" "om_inv om'"
    "om' = om\<lparr>om_cancel_buf := buf, om_timeout_wheel := w, om_pending_cancel_count := of_nat (length ks'),
       om_kill_switch_state := (if ks' = [] then kComplete else kDraining)\<rparr>"
    by (rule trigger_spec [OF assms(1) n, of now]) (use assms(3) in auto)
  have l: "length ks' = length ks" using assms(4,5) t(1,2) distinct_card by metis
  have p: "unat (of_nat (length ks') :: u32) = length ks" using t(3) l by simp
  show ?thesis
  proof (cases "ks = []")
    case True
    then have "es = []" "ks' = []" "om_orders om = Map.empty" using assms(5,6) l by auto
    then show ?thesis using t(5) by simp
  next
    case False
    then have "ks' \<noteq> []" using l by auto
    then have d: "om_kill_switch_state om' = kDraining" "unat (om_pending_cancel_count om') = length ks" "set ks = dom (om_orders om')"
      using t(5) p assms(5) by simp_all
    show ?thesis using drain_run [OF t(4) d(1,2) False assms(4) d(3) assms(6)] by blast
  qed
qed

definition demo_cancel_ack :: CancelAck where
  "demo_cancel_ack = \<lparr>ca_client_order_id = 1, ca_send_ts = 0\<rparr>"

theorem kill_switch_completes_witness:
  "case om_run [ESignal demo_signal 0 0, EKill 3, ECancelAck demo_cancel_ack] demo_om of
     Some (_, om') \<Rightarrow> om_kill_switch_state om' = kComplete \<and> om_orders om' = Map.empty | None \<Rightarrow> False"
proof -
  obtain om1 i where d: "om_run [ESignal demo_signal 0 0] demo_om = Some (1, om1)" "om_inv om1" "\<not> is_killed om1" "om_orders om1 = [1 \<mapsto> i]"
    using demo_sent by metis
  then have s: "om_step (ESignal demo_signal 0 0) demo_om = Some (True, om1)" by (auto elim!: bind_eq_SomeE simp: of_bool_def split: if_splits)
  have n: "om_kill_switch_state om1 = kNormal" using d(3) by (simp add: is_killed_def)
  obtain batch om2 where t: "trigger_kill_switch om1 3 = Some (batch, om2)" by (rule trigger_spec [OF d(2) n])
  have "\<exists>om''. om_run [ECancelAck demo_cancel_ack] om2 = Some (0, om'') \<and> om_kill_switch_state om'' = kComplete \<and> om_orders om'' = Map.empty"
    by (rule kill_switch_completes [OF d(2,3) t, of "[1]"]) (use d(4) in \<open>simp_all add: demo_cancel_ack_def\<close>)
  then show ?thesis using s t by (auto elim!: bind_eq_SomeE)
qed

text \<open>
  C31. An advance of the timeouts cancels exactly the orders whose timers fall due in the whole
  ticks that have passed, each once, and stops tracking them; the other orders and the
  positions stay. Before a whole tick has passed it does nothing.
\<close>

theorem timeouts_exact:
  assumes "om_inv om" "\<not> is_killed om" "i64_of (sint now - sint (om_last_advance_ns om)) \<noteq> None"
  shows "if sint now - sint (om_last_advance_ns om) < kTickIntervalNs
    then advance_timeouts om now = Some (\<lparr>cb_cancels = om_cancel_buf om, cb_count = 0\<rparr>, om)
    else \<exists>cs buf om'. advance_timeouts om now = Some (\<lparr>cb_cancels = buf, cb_count = of_nat (length cs)\<rparr>, om') \<and> distinct cs \<and>
      set cs = due_orders (om_timeout_wheel om) (unat (elapsed_ticks om now)) \<and>
      take (length cs) buf = map (cancel_of (om_orders om) now) cs \<and> om_inv om' \<and>
      om_orders om' = om_orders om |` (- set cs) \<and> om_net_position om' = om_net_position om"
proof -
  have n: "om_kill_switch_state om = kNormal" using assms(2) by (simp add: is_killed_def)
  show ?thesis
    using assms(1) n assms(3)
  proof (cases rule: advance_spec)
    case idle
    then show ?thesis by simp
  next
    case (ran cs buf om')
    then show ?thesis by (intro if_not_P [THEN iffD2] exI [of _ cs] exI [of _ buf] exI [of _ om']) simp_all
  qed
qed

theorem timeouts_exact_witness:
  "case om_run [ESignal demo_signal 0 0] demo_om of
     Some (_, om) \<Rightarrow> \<exists>cs buf om'. advance_timeouts om 6000000 = Some (\<lparr>cb_cancels = buf, cb_count = of_nat (length cs)\<rparr>, om') \<and>
       set cs = due_orders (om_timeout_wheel om) (unat (elapsed_ticks om 6000000)) \<and> om_orders om' = om_orders om |` (- set cs)
   | None \<Rightarrow> False"
proof -
  obtain om1 i where d: "on_signal demo_om demo_signal 0 0 (signal_order demo_om demo_signal 0) = Some (True, signal_order demo_om demo_signal 0, om1)"
    "om_run [ESignal demo_signal 0 0] demo_om = Some (1, om1)" "om_inv om1" "\<not> is_killed om1"
    using demo_sent by metis
  have l: "om_last_advance_ns om1 = 0"
    using d(1) by (auto simp: on_signal_def generate_order_def refill_tokens_def cancel_timer_def demo_om_def Let_def elim!: bind_eq_SomeE split: if_splits)
  have e: "i64_of (sint (6000000 :: i64) - sint (om_last_advance_ns om1)) \<noteq> None" by (simp add: l i64_of_def)
  show ?thesis using timeouts_exact [OF d(3,4) e] unfolding d(2) by (auto simp: l kTickIntervalNs_def)
qed

text \<open>
  A cancel ack for an order that is no longer tracked, such as the answer to the cancel of a
  timed-out order, still counts an outstanding order down: here the second order is tracked
  but the count is 0.
\<close>

theorem late_cancel_ack_miscounts:
  "case om_run [ESignal demo_signal 0 0, ETimeout 6000000, ESignal demo_signal 7000000 7000000, ECancelAck demo_cancel_ack] demo_om of
     Some (n, om) \<Rightarrow> n = 2 \<and> om_outstanding_count om = 0 \<and> om_orders om 2 \<noteq> None | None \<Rightarrow> False"
  by code_simp

end
