(* ===== verification/StrategyCtxProps.thy ===== *)
theory StrategyCtxProps
  imports StrategyCtx
begin

text \<open>The layout of the strategy buffer: ordered, disjoint and aligned regions that fill it.\<close>

section \<open>Aligned offsets\<close>

lemma up_bounds:
  assumes a: "a \<in> {4, 8, 16, 64}" and x: "x + 64 \<le> 2 ^ 64"
  shows "x \<le> up x a" "up x a < x + a" "a dvd up x a"
proof -
  obtain k where k: "a = 2 ^ k" "k < 64" using a by (auto intro: that [of 2] that [of 3] that [of 4] that [of 6])
  have v: "unat (of_nat x :: u64) = x" using x by (simp add: unat_of_nat)
  have "unat (of_nat x :: u64) + 2 ^ k \<le> 2 ^ 64" using a x v k(1) by auto
  from align_up_spec [OF k(2) this] show "x \<le> up x a" "up x a < x + a" "a dvd up x a"
    unfolding up_def k(1) of_nat_power of_nat_numeral v by simp_all
qed

lemma multiple_unique:
  fixes a x y :: nat
  assumes "a dvd x" "a dvd y" "z \<le> x" "x < z + a" "z \<le> y" "y < z + a"
  shows "x = y"
proof (rule ccontr)
  assume "x \<noteq> y"
  then consider "x < y" | "y < x" by linarith
  then show False
  proof cases
    case 1
    then have "a \<le> y - x" using assms(1,2) by (intro dvd_imp_le) auto
    then show False using assms 1 by linarith
  next
    case 2
    then have "a \<le> x - y" using assms(1,2) by (intro dvd_imp_le) auto
    then show False using assms 2 by linarith
  qed
qed

lemma up_add:
  assumes "a \<in> {4, 8, 16, 64}" "a dvd x" "x + y + 64 \<le> 2 ^ 64"
  shows "up (x + y) a = x + up y a"
proof -
  have y: "y + 64 \<le> 2 ^ 64" using assms(3) by simp
  note A = up_bounds [OF assms(1,3)] and B = up_bounds [OF assms(1) y]
  show ?thesis by (rule multiple_unique [of a _ _ "x + y"]) (use A B assms(2) in auto)
qed

section \<open>Regions\<close>

text \<open>The regions of the buffer, in the order of their addresses: start and size in bytes.\<close>

definition ctx_regions :: "StrategyCtx \<Rightarrow> (nat \<times> nat) list" where
  "ctx_regions c =
    (let ms = unat (sc_max_symbols c); mo = unat (sc_max_outstanding c) in
     [(sc_tcp_rx c, sc_tcp_rx_size c), (sc_tcp_tx c, sc_tcp_tx_size c), (sc_scratch c, sc_scratch_size c),
      (sc_net_position c, ms * 8), (sc_outstanding_per_symbol c, ms * 4),
      (sc_active_orders c, ms * kSideCount * sizeof_ActiveOrder), (sc_cancel_buf c, mo * sizeof_CancelOrder),
      (sc_map_buf c, sc_map_buf_size c), (sc_timeout_ids c, mo * 8),
      (sc_timeout_wheel_buf c, sc_timeout_wheel_buf_size c)])"

definition ctx_aligns :: "nat list" where
  "ctx_aligns = [64, 64, 64, alignof_max_align, 4, alignof_ActiveOrder, alignof_CancelOrder, alignof_map_slot, 8, alignof_max_align]"

lemmas ctx_sizes = kSideCount_def sizeof_ActiveOrder_def sizeof_CancelOrder_def alignof_max_align_def alignof_ActiveOrder_def
  alignof_CancelOrder_def alignof_map_slot_def kCacheLineSize_def

text \<open>
  The strategy context cuts its buffer into ten regions, in address order without overlap,
  each aligned for its element type when the buffer is aligned to a cache line, and the last
  region ends exactly at the size that \<^verbatim>\<open>strategy_ctx_buf_size\<close> reports.
\<close>

theorem strategy_ctx_layout:
  assumes m: "make_strategy_ctx kMaxSymbols base rx tx scr mo mops ws mt = Some ctx"
    and b: "strategy_ctx_buf_size kMaxSymbols rx tx scr mo ws mt = Some bytes"
    and fits: "sum_list (map snd (ctx_regions ctx)) + 1024 \<le> 2 ^ 64" and "64 dvd base"
  shows "sorted_wrt (\<lambda>(a, n) (b, m). a + n \<le> b) (ctx_regions ctx) \<and> fst (hd (ctx_regions ctx)) = base \<and>
    fst (last (ctx_regions ctx)) + snd (last (ctx_regions ctx)) = base + bytes \<and>
    list_all2 (\<lambda>a (s, n). a dvd s) ctx_aligns (ctx_regions ctx)"
proof -
  let ?ms = "unat kMaxSymbols" and ?mo = "unat mo"
  define o1 where "o1 = up rx 64"
  define o2 where "o2 = up (o1 + tx) 64"
  define o3 where "o3 = up (o2 + scr) 16"
  define o4 where "o4 = up (o3 + ?ms * 8) 4"
  define o5 where "o5 = up (o4 + ?ms * 4) 8"
  define o6 where "o6 = up (o5 + ?ms * 48) 8"
  define o7 where "o7 = up (o6 + ?mo * 24) 8"
  obtain cap where cap: "order_ctx_map_capacity mo = Some cap"
    using m by (auto simp: make_strategy_ctx_def Let_def elim!: bind_eq_SomeE)
  define o8 where "o8 = up (o7 + hm_required_buffer_size sizeof_map_slot cap) 8"
  define o9 where "o9 = up (o8 + ?mo * 8) 16"
  note defs = o1_def o2_def o3_def o4_def o5_def o6_def o7_def o8_def o9_def
  have ctx: "ctx_regions ctx = [(base, rx), (base + o1, tx), (base + o2, scr), (base + o3, ?ms * 8), (base + o4, ?ms * 4),
      (base + o5, ?ms * 48), (base + o6, ?mo * 24), (base + o7, hm_required_buffer_size sizeof_map_slot cap),
      (base + o8, ?mo * 8), (base + o9, tw_required_buffer_size ws mt)]"
    using m cap by (auto simp: make_strategy_ctx_def ctx_regions_def Let_def ctx_sizes defs mult.assoc)
  note S = fits [unfolded ctx, simplified]
  have 1: "rx \<le> o1" "o1 < rx + 64" "64 dvd o1" using up_bounds [of 64 rx] S by (simp_all add: o1_def)
  have 2: "o1 + tx \<le> o2" "o2 < o1 + tx + 64" "64 dvd o2" using up_bounds [of 64 "o1 + tx"] S 1 by (simp_all add: o2_def)
  have 3: "o2 + scr \<le> o3" "o3 < o2 + scr + 16" "16 dvd o3" using up_bounds [of 16 "o2 + scr"] S 1 2 by (simp_all add: o3_def)
  have 4: "o3 + ?ms * 8 \<le> o4" "o4 < o3 + ?ms * 8 + 4" "4 dvd o4" using up_bounds [of 4 "o3 + ?ms * 8"] S 1 2 3 by (simp_all add: o4_def)
  have 5: "o4 + ?ms * 4 \<le> o5" "o5 < o4 + ?ms * 4 + 8" "8 dvd o5" using up_bounds [of 8 "o4 + ?ms * 4"] S 1 2 3 4 by (simp_all add: o5_def)
  have 6: "o5 + ?ms * 48 \<le> o6" "o6 < o5 + ?ms * 48 + 8" "8 dvd o6"
    using up_bounds [of 8 "o5 + ?ms * 48"] S 1 2 3 4 5 by (simp_all add: o6_def)
  have 7: "o6 + ?mo * 24 \<le> o7" "o7 < o6 + ?mo * 24 + 8" "8 dvd o7"
    using up_bounds [of 8 "o6 + ?mo * 24"] S 1 2 3 4 5 6 by (simp_all add: o7_def)
  have 8: "o7 + hm_required_buffer_size sizeof_map_slot cap \<le> o8" "o8 < o7 + hm_required_buffer_size sizeof_map_slot cap + 8" "8 dvd o8"
    using up_bounds [of 8 "o7 + hm_required_buffer_size sizeof_map_slot cap"] S 1 2 3 4 5 6 7 by (simp_all add: o8_def)
  have 9: "o8 + ?mo * 8 \<le> o9" "o9 < o8 + ?mo * 8 + 16" "16 dvd o9"
    using up_bounds [of 16 "o8 + ?mo * 8"] S 1 2 3 4 5 6 7 8 by (simp_all add: o9_def)
  have "up rx 64 + up tx 64 = o2" using up_add [of 64 o1 tx] 1 S by (simp add: o1_def o2_def)
  then have bytes: "bytes = o9 + tw_required_buffer_size ws mt"
    using b cap by (simp add: strategy_ctx_buf_size_def Let_def ctx_sizes defs mult.assoc)
  have dvd: "64 dvd base" "16 dvd base" "8 dvd base" "4 dvd base" using assms(4) by (auto elim: dvd_trans [rotated])
  show ?thesis unfolding ctx ctx_aligns_def ctx_sizes bytes
    using 1 2 3 4 5 6 7 8 9 dvd by simp
qed

lemma demo_capacity: "order_ctx_map_capacity 4 = Some 16"
proof -
  have "round_up_pow2 16 = Some 16" by code_simp
  then show ?thesis by (simp add: order_ctx_map_capacity_def hm_round_up_capacity_def)
qed

theorem strategy_ctx_layout_witness:
  "case (make_strategy_ctx 2 4096 100 100 50 4 2 8 4, strategy_ctx_buf_size 2 100 100 50 4 8 4) of
     (Some ctx, Some bytes) \<Rightarrow> sorted_wrt (\<lambda>(a, n) (b, m). a + n \<le> b) (ctx_regions ctx) \<and>
       fst (last (ctx_regions ctx)) + snd (last (ctx_regions ctx)) = 4096 + bytes
   | _ \<Rightarrow> False"
proof -
  obtain ctx where c: "make_strategy_ctx 2 4096 100 100 50 4 2 8 4 = Some ctx" by (simp add: make_strategy_ctx_def demo_capacity Let_def)
  obtain bytes where b: "strategy_ctx_buf_size 2 100 100 50 4 8 4 = Some bytes" by (simp add: strategy_ctx_buf_size_def demo_capacity Let_def)
  have "sum_list (map snd (ctx_regions ctx)) + 1024 \<le> 2 ^ 64"
    using c by (auto simp: make_strategy_ctx_def demo_capacity Let_def ctx_regions_def ctx_sizes sizeof_map_slot_def hm_required_buffer_size_def
        tw_required_buffer_size_def free_list_offset_def nodes_offset_def align_up_def alignof_TimerNode_def sizeof_TimerNode_def ifs_required_buffer_size_def)
  then show ?thesis using strategy_ctx_layout [OF c b] c b by simp
qed

end
