(* ===== verification/RingBuffer.thy ===== *)
theory RingBuffer
  imports BitUtils
begin

text \<open>
  \<^verbatim>\<open>libs/ds/ring_buffer.hpp\<close>: the sliding-window ring buffer that overwrites its oldest
  element when full. The element buffer is a list; index arithmetic is on 32-bit words and
  wraps. The lemmas on slots also serve the queue of \<^verbatim>\<open>libs/sys/memory\<close>.
\<close>

unbundle bit_operations_syntax

section \<open>Slots of a power-of-two ring\<close>

lemma pow2_exponent:
  fixes cap :: u32
  assumes "unat cap = 2 ^ k"
  shows "k < 32" "cap = 2 ^ k"
proof -
  have "(2 :: nat) ^ k < 2 ^ 32" using assms unat_less_exp [of cap] by simp
  then show k: "k < 32" by (rule power_less_imp_less_exp [rotated]) simp
  have "cap = of_nat (unat cap)" by simp
  then show "cap = 2 ^ k" unfolding assms by simp
qed

lemma unat_mask_mod:
  fixes x cap :: u32
  assumes "unat cap = 2 ^ k"
  shows "unat (x AND (cap - 1)) = unat x mod unat cap"
proof -
  have "cap - 1 = mask k" using pow2_exponent [OF assms] by (simp add: mask_eq_decr_exp)
  then have "unat (x AND (cap - 1)) = take_bit k (unat x)" by (simp add: take_bit_eq_mask [symmetric] unsigned_take_bit_eq)
  then show ?thesis using assms by (simp add: take_bit_eq_mod)
qed

lemma pow2_dvd:
  fixes cap :: u32
  assumes "unat cap = 2 ^ k"
  shows "unat cap dvd 2 ^ 32"
  unfolding assms by (rule le_imp_power_dvd) (use pow2_exponent(1) [OF assms] in simp)

text \<open>The slot of an absolute position: the counter wraps at $2^{32}$, a multiple of the capacity.\<close>

lemma slot_of_nat:
  fixes cap :: u32
  assumes "unat cap = 2 ^ k"
  shows "unat (of_nat j AND (cap - 1)) = j mod unat cap"
  using pow2_dvd [OF assms] by (simp add: unat_mask_mod [OF assms] unat_of_nat mod_mod_cancel)

lemma slots_distinct:
  fixes i j :: nat
  assumes "i < j" "j < i + c"
  shows "i mod c \<noteq> j mod c"
proof
  assume "i mod c = j mod c"
  then have "c dvd j - i" using assms(1) mod_eq_dvd_iff_nat [of i j c] by simp
  then have "c \<le> j - i" using assms(1) by (intro dvd_imp_le) auto
  then show False using assms by linarith
qed

section \<open>Definitions\<close>

record 'a RingBuffer =
  rb_buf :: "'a list"
  rb_capacity :: u32
  rb_mask :: u32
  rb_write_idx :: u32
  rb_count :: u32

definition head_physical :: "'a RingBuffer \<Rightarrow> u32" where
  "head_physical r = (rb_write_idx r - rb_count r) AND rb_mask r"

definition rb_is_valid_capacity :: "nat \<Rightarrow> bool" where
  "rb_is_valid_capacity c \<longleftrightarrow> 2 \<le> c \<and> is_power_of_two (ucast (of_nat c :: u32)) \<and> c \<le> 2 ^ 32 - 1"

definition rb_round_up_capacity :: "nat \<Rightarrow> nat outcome" where
  "rb_round_up_capacity n =
    (if n = 0 then Some 0
     else if n \<le> 2 then Some 2
     else if n > 2 ^ 32 - 1 then Some 0
     else map_option unat (round_up_pow2 (of_nat n)))"

definition rb_required_buffer_size :: "nat \<Rightarrow> nat \<Rightarrow> nat" where
  "rb_required_buffer_size sizeof_T capacity = capacity * sizeof_T"

definition rb_new :: "'a list \<Rightarrow> u32 \<Rightarrow> 'a RingBuffer" where
  "rb_new raw cap = \<lparr>rb_buf = raw, rb_capacity = cap, rb_mask = cap - 1, rb_write_idx = 0, rb_count = 0\<rparr>"

text \<open>As for the hash map, the external buffer is an address, a size and what its bytes read as.\<close>

definition rb_create :: "nat \<Rightarrow> nat \<Rightarrow> nat \<Rightarrow> 'a list \<Rightarrow> nat \<Rightarrow> nat \<Rightarrow> 'a RingBuffer option" where
  "rb_create sizeof_T alignof_T external_buf contents buf_size_bytes capacity =
    (if \<not> rb_is_valid_capacity capacity \<or> external_buf = 0 then None
     else if external_buf mod alignof_T \<noteq> 0 then None
     else if buf_size_bytes < capacity * sizeof_T then None
     else Some (rb_new (take capacity contents) (of_nat capacity)))"

definition rb_construct :: "nat \<Rightarrow> nat \<Rightarrow> nat \<Rightarrow> 'a list \<Rightarrow> nat \<Rightarrow> nat \<Rightarrow> 'a RingBuffer outcome" where
  "rb_construct sizeof_T alignof_T external_buf contents buf_size_bytes capacity = do {
     cassert (rb_is_valid_capacity capacity);
     cassert (\<not> (external_buf = 0 \<or> buf_size_bytes < capacity * sizeof_T \<or> external_buf mod alignof_T \<noteq> 0));
     Some (rb_new (take capacity contents) (of_nat capacity))
   }"

definition rb_default :: "'a RingBuffer" where
  "rb_default = \<lparr>rb_buf = [], rb_capacity = 0, rb_mask = 0, rb_write_idx = 0, rb_count = 0\<rparr>"

definition rb_swap :: "'a RingBuffer \<times> 'a RingBuffer \<Rightarrow> 'a RingBuffer \<times> 'a RingBuffer" where
  "rb_swap = (\<lambda>(a, b). (b, a))"

text \<open>A move leaves the source with the state of a default-constructed buffer.\<close>

definition rb_move_assign :: "'a RingBuffer \<Rightarrow> 'a RingBuffer \<Rightarrow> 'a RingBuffer \<times> 'a RingBuffer" where
  "rb_move_assign this other =
    (let (tmp, other) = rb_swap (rb_default, other); (this, tmp) = rb_swap (this, tmp) in (this, other))"

definition rb_size :: "'a RingBuffer \<Rightarrow> nat" where
  "rb_size r = unat (rb_count r)"

definition rb_empty :: "'a RingBuffer \<Rightarrow> bool" where
  "rb_empty r \<longleftrightarrow> rb_count r = 0"

definition rb_full :: "'a RingBuffer \<Rightarrow> bool" where
  "rb_full r \<longleftrightarrow> rb_count r = rb_capacity r"

definition rb_front :: "'a RingBuffer \<Rightarrow> 'a outcome" where
  "rb_front r = do { cassert (rb_count r > 0); arr_get (rb_buf r) (unat (head_physical r)) }"

definition rb_back :: "'a RingBuffer \<Rightarrow> 'a outcome" where
  "rb_back r = do { cassert (rb_count r > 0); arr_get (rb_buf r) (unat ((rb_write_idx r - 1) AND rb_mask r)) }"

definition rb_get :: "'a RingBuffer \<Rightarrow> nat \<Rightarrow> 'a outcome" where
  "rb_get r i = do {
     cassert (i < unat (rb_count r));
     arr_get (rb_buf r) (unat ((head_physical r + of_nat i) AND rb_mask r))
   }"

definition rb_push :: "'a RingBuffer \<Rightarrow> 'a \<Rightarrow> 'a RingBuffer outcome" where
  "rb_push r value =
    (if rb_capacity r = 0 then Some r
     else do {
       buf \<leftarrow> arr_upd (rb_buf r) (unat (rb_write_idx r AND rb_mask r)) (\<lambda>_. value);
       Some (r\<lparr>rb_buf := buf, rb_write_idx := rb_write_idx r + 1,
         rb_count := (if rb_count r < rb_capacity r then rb_count r + 1 else rb_count r)\<rparr>)
     })"

definition rb_pop_front :: "'a RingBuffer \<Rightarrow> 'a RingBuffer outcome" where
  "rb_pop_front r = do { cassert (rb_count r > 0); Some (r\<lparr>rb_count := rb_count r - 1\<rparr>) }"

definition rb_clear :: "'a RingBuffer \<Rightarrow> 'a RingBuffer" where
  "rb_clear r = r\<lparr>rb_write_idx := 0, rb_count := 0\<rparr>"

text \<open>A traversal from \<^verbatim>\<open>begin()\<close> to \<^verbatim>\<open>end()\<close>: the elements by logical index.\<close>

definition rb_iterate :: "'a RingBuffer \<Rightarrow> 'a list outcome" where
  "rb_iterate r = those (map (rb_get r) [0..<rb_size r])"

section \<open>The window\<close>

definition rb_inv :: "'a RingBuffer \<Rightarrow> bool" where
  "rb_inv r \<longleftrightarrow> 2 \<le> rb_capacity r \<and> (\<exists>k. unat (rb_capacity r) = 2 ^ k) \<and> rb_mask r = rb_capacity r - 1 \<and>
     length (rb_buf r) = unat (rb_capacity r) \<and> rb_count r \<le> rb_capacity r"

text \<open>The element at logical index \<open>i\<close>, oldest first.\<close>

definition rb_slot :: "'a RingBuffer \<Rightarrow> nat \<Rightarrow> nat" where
  "rb_slot r i = unat (rb_write_idx r - rb_count r + of_nat i) mod unat (rb_capacity r)"

definition rb_list :: "'a RingBuffer \<Rightarrow> 'a list" where
  "rb_list r = map (\<lambda>i. rb_buf r ! rb_slot r i) [0..<rb_size r]"

lemma rb_invD:
  assumes "rb_inv r"
  obtains k where "unat (rb_capacity r) = 2 ^ k" "rb_mask r = rb_capacity r - 1" "length (rb_buf r) = unat (rb_capacity r)"
    "unat (rb_count r) \<le> unat (rb_capacity r)" "2 \<le> unat (rb_capacity r)" "unat (rb_capacity r) \<le> 2 ^ 31"
proof -
  obtain k where k: "unat (rb_capacity r) = 2 ^ k" using assms by (auto simp: rb_inv_def)
  have "k \<le> 31" using pow2_exponent(1) [OF k] by simp
  then have "(2 :: nat) ^ k \<le> 2 ^ 31" by (rule power_increasing) simp
  then show thesis using that k assms by (simp add: rb_inv_def word_le_nat_alt)
qed

lemma rb_slot_less: "rb_inv r \<Longrightarrow> rb_slot r i < length (rb_buf r)"
  by (elim rb_invD) (simp add: rb_slot_def)

lemma rb_get_spec:
  assumes inv: "rb_inv r"
  shows "rb_get r i = (if i < rb_size r then Some (rb_list r ! i) else None)"
proof -
  obtain k where k: "unat (rb_capacity r) = 2 ^ k" "rb_mask r = rb_capacity r - 1" using inv by (auto simp: rb_inv_def)
  have d: "unat (rb_capacity r) dvd 2 ^ 32" by (rule pow2_dvd [OF k(1)])
  let ?x = "rb_write_idx r - rb_count r"
  have "unat ((?x AND rb_mask r) + of_nat i) mod unat (rb_capacity r) = (unat ?x + i) mod unat (rb_capacity r)"
    using d by (simp add: k(2) unat_word_ariths unat_of_nat mod_mod_cancel unat_mask_mod [OF k(1)] mod_simps)
  also have "\<dots> = rb_slot r i" using d by (simp add: rb_slot_def unat_word_ariths unat_of_nat mod_mod_cancel mod_simps)
  finally have "unat ((head_physical r + of_nat i) AND rb_mask r) = rb_slot r i"
    by (simp add: head_physical_def k(2) unat_mask_mod [OF k(1)])
  then show ?thesis using rb_slot_less [OF inv, of i] by (simp add: rb_get_def rb_list_def rb_size_def arr_get_def)
qed

lemma word_add_mod:
  fixes x :: u32
  assumes "c dvd 2 ^ 32"
  shows "unat (x + of_nat i) mod c = (unat x + i) mod c"
  using assms by (simp add: unat_word_ariths unat_of_nat mod_mod_cancel mod_simps)

lemma rb_slot_mod:
  assumes "rb_inv r"
  shows "rb_slot r i = (unat (rb_write_idx r - rb_count r) + i) mod unat (rb_capacity r)"
proof -
  obtain k where "unat (rb_capacity r) = 2 ^ k" by (rule rb_invD [OF assms])
  from word_add_mod [OF pow2_dvd [OF this]] show ?thesis by (simp add: rb_slot_def)
qed

lemma rb_list_length [simp]: "length (rb_list r) = rb_size r"
  by (simp add: rb_list_def)

lemma rb_push_spec:
  assumes inv: "rb_inv r"
  obtains r' where "rb_push r v = Some r'" "rb_inv r'"
    "rb_list r' = (if rb_full r then tl (rb_list r) else rb_list r) @ [v]" "rb_capacity r' = rb_capacity r"
proof -
  let ?c = "unat (rb_capacity r)" and ?n = "unat (rb_count r)" and ?x = "rb_write_idx r - rb_count r"
  obtain k where k: "?c = 2 ^ k" "rb_mask r = rb_capacity r - 1" "length (rb_buf r) = ?c" "?n \<le> ?c" "2 \<le> ?c" "?c \<le> 2 ^ 31"
    by (rule rb_invD [OF inv])
  note d = pow2_dvd [OF k(1)]
  let ?w = "unat (rb_write_idx r AND rb_mask r)"
  have w: "?w = (unat ?x + ?n) mod ?c"
    using word_add_mod [OF d, of ?x ?n] by (simp add: k(2) unat_mask_mod [OF k(1)])
  have wl: "?w < length (rb_buf r)" using k(3,5) w by simp
  define r' where "r' = r\<lparr>rb_buf := (rb_buf r)[?w := v], rb_write_idx := rb_write_idx r + 1,
      rb_count := (if rb_count r < rb_capacity r then rb_count r + 1 else rb_count r)\<rparr>"
  have ne: "rb_capacity r \<noteq> 0" using k(5) by auto
  have p: "rb_push r v = Some r'" using ne wl by (simp add: rb_push_def arr_upd_def r'_def)
  have cnt: "unat (rb_count r') = (if rb_full r then ?n else ?n + 1)"
  proof (cases "rb_full r")
    case True
    then show ?thesis by (simp add: r'_def rb_full_def)
  next
    case False
    then have "?n < ?c" using k(4) by (metis le_neq_implies_less rb_full_def word_unat_eq_iff)
    then show ?thesis using False k(6) by (simp add: r'_def word_less_nat_alt unat_word_ariths)
  qed
  have full: "rb_full r \<longleftrightarrow> ?n = ?c" by (simp add: rb_full_def word_unat_eq_iff)
  have inv': "rb_inv r'"
    using inv cnt full k(4) wl by (auto simp: rb_inv_def r'_def word_le_nat_alt split: if_splits)
  have base: "unat (rb_write_idx r' - rb_count r') mod ?c = (if rb_full r then (unat ?x + 1) mod ?c else unat ?x mod ?c)"
  proof (cases "rb_full r")
    case True
    then have "rb_write_idx r' - rb_count r' = ?x + of_nat 1" by (simp add: r'_def rb_full_def)
    then show ?thesis using True word_add_mod [OF d, of ?x 1] by simp
  next
    case False
    then have "rb_count r < rb_capacity r" using k(4) full by (simp add: word_less_nat_alt)
    then show ?thesis using False by (simp add: r'_def)
  qed
  have cap: "rb_capacity r' = rb_capacity r" by (simp add: r'_def)
  have slot: "rb_slot r' i = (unat ?x + (if rb_full r then i + 1 else i)) mod ?c" for i
  proof -
    have "rb_slot r' i = (unat (rb_write_idx r' - rb_count r') mod ?c + i) mod ?c"
      unfolding rb_slot_mod [OF inv'] cap by (rule mod_add_left_eq [symmetric])
    then show ?thesis unfolding base by (simp add: mod_simps)
  qed
  have eq: "rb_buf r' ! ((unat ?x + j) mod ?c) = rb_list r ! j" if "j < ?n" "j > 0 \<or> \<not> rb_full r" for j
  proof -
    have "(unat ?x + j) mod ?c \<noteq> (unat ?x + ?n) mod ?c"
      by (rule slots_distinct) (use that k(4) full in auto)
    then show ?thesis using that(1) w by (simp add: r'_def rb_list_def rb_size_def rb_slot_mod [OF inv])
  qed
  have last: "rb_buf r' ! ((unat ?x + ?n) mod ?c) = v" using w wl by (simp add: r'_def)
  have "rb_list r' = (if rb_full r then tl (rb_list r) else rb_list r) @ [v]"
  proof (rule nth_equalityI)
    show len: "length (rb_list r') = length ((if rb_full r then tl (rb_list r) else rb_list r) @ [v])"
      using cnt k(5) full by (simp add: rb_size_def)
    fix i assume "i < length (rb_list r')"
    then have i: "i < rb_size r'" by simp
    then have e: "rb_list r' ! i = rb_buf r' ! ((unat ?x + (if rb_full r then i + 1 else i)) mod ?c)"
      by (simp add: rb_list_def slot)
    define j where "j = (if rb_full r then i + 1 else i)"
    have j: "j \<le> ?n" "j > 0 \<or> \<not> rb_full r" using i cnt by (auto simp: j_def rb_size_def split: if_splits)
    show "rb_list r' ! i = ((if rb_full r then tl (rb_list r) else rb_list r) @ [v]) ! i"
    proof (cases "j = ?n")
      case True
      have "rb_list r' ! i = v" unfolding e using last True by (simp add: j_def [symmetric])
      moreover have "i = length (if rb_full r then tl (rb_list r) else rb_list r)"
        using True by (auto simp: j_def rb_size_def split: if_splits)
      ultimately show ?thesis by (metis nth_append_length)
    next
      case False
      then have "rb_list r' ! i = rb_list r ! j" unfolding e j_def [symmetric] using j by (intro eq) auto
      moreover have "i < length (if rb_full r then tl (rb_list r) else rb_list r)"
        using False j(1) by (auto simp: j_def rb_size_def split: if_splits)
      ultimately show ?thesis by (auto simp: nth_append j_def nth_tl split: if_splits)
    qed
  qed
  then show thesis using that p inv' cap by blast
qed

lemma rb_pop_spec:
  assumes inv: "rb_inv r"
  shows "rb_pop_front r = (if rb_list r = [] then None else Some (r\<lparr>rb_count := rb_count r - 1\<rparr>))"
    and "rb_list r \<noteq> [] \<Longrightarrow> rb_inv (r\<lparr>rb_count := rb_count r - 1\<rparr>) \<and> rb_list (r\<lparr>rb_count := rb_count r - 1\<rparr>) = tl (rb_list r)"
proof -
  have e: "rb_list r = [] \<longleftrightarrow> rb_count r = 0"
    by (metis length_0_conv rb_list_length rb_size_def unat_eq_zero)
  then show "rb_pop_front r = (if rb_list r = [] then None else Some (r\<lparr>rb_count := rb_count r - 1\<rparr>))"
    by (auto simp: rb_pop_front_def word_gt_0)
  assume "rb_list r \<noteq> []"
  then have n: "rb_count r \<noteq> 0" using e by simp
  let ?r = "r\<lparr>rb_count := rb_count r - 1\<rparr>"
  have u: "unat (rb_count r - 1) = unat (rb_count r) - 1" by (rule unat_minus_one [OF n])
  have inv': "rb_inv ?r" using inv u by (auto simp: rb_inv_def word_le_nat_alt)
  obtain k where k: "unat (rb_capacity r) = 2 ^ k" by (rule rb_invD [OF inv])
  have "unat (rb_write_idx r - (rb_count r - 1)) mod unat (rb_capacity r) = (unat (rb_write_idx r - rb_count r) + 1) mod unat (rb_capacity r)"
    using word_add_mod [OF pow2_dvd [OF k], of "rb_write_idx r - rb_count r" 1] by (simp add: algebra_simps)
  then have "rb_slot ?r i = rb_slot r (i + 1)" for i
    unfolding rb_slot_mod [OF inv] rb_slot_mod [OF inv'] by (simp add: mod_add_cong)
  then have "rb_list ?r = tl (rb_list r)"
    using u by (intro nth_equalityI) (auto simp: rb_list_def rb_size_def nth_tl)
  then show "rb_inv ?r \<and> rb_list ?r = tl (rb_list r)" using inv' by simp
qed

lemma rb_clear_spec: "rb_inv r \<Longrightarrow> rb_inv (rb_clear r) \<and> rb_list (rb_clear r) = []"
  by (auto simp: rb_inv_def rb_clear_def rb_list_def rb_size_def)

lemma rb_create_spec:
  assumes "rb_create sz al buf contents bytes cap = Some r" "cap \<le> length contents"
  shows "rb_inv r \<and> rb_list r = [] \<and> unat (rb_capacity r) = cap"
proof -
  have r: "r = rb_new (take cap contents) (of_nat cap)" and v: "rb_is_valid_capacity cap"
    using assms(1) by (auto simp: rb_create_def split: if_splits)
  have u: "unat (of_nat cap :: u32) = cap" using v by (simp add: rb_is_valid_capacity_def unat_of_nat)
  have "unat (ucast (of_nat cap :: u32) :: u64) = unat (of_nat cap :: u32)"
    by (simp add: unsigned_ucast_eq take_bit_nat_eq_self unat_less_exp order_less_le_trans [OF unat_less_exp])
  then obtain k where "cap = 2 ^ k" using v u by (auto simp: rb_is_valid_capacity_def is_power_of_two_iff)
  then show ?thesis using r u v assms(2) by (auto simp: rb_inv_def rb_new_def rb_list_def rb_size_def rb_is_valid_capacity_def word_le_nat_alt)
qed

lemma rb_front_spec: "rb_inv r \<Longrightarrow> rb_front r = (if rb_list r = [] then None else Some (hd (rb_list r)))"
proof -
  assume inv: "rb_inv r"
  have e: "rb_list r = [] \<longleftrightarrow> rb_count r = 0" by (metis length_0_conv rb_list_length rb_size_def unat_eq_zero)
  have "rb_front r = rb_get r 0" using inv
    by (auto simp: rb_front_def rb_get_def head_physical_def word_gt_0 unat_gt_0)
  then show ?thesis unfolding rb_get_spec [OF inv] using e by (auto simp: rb_size_def hd_conv_nth unat_gt_0)
qed

lemma rb_back_spec: "rb_inv r \<Longrightarrow> rb_back r = (if rb_list r = [] then None else Some (last (rb_list r)))"
proof -
  assume inv: "rb_inv r"
  have e: "rb_list r = [] \<longleftrightarrow> rb_count r = 0" by (metis length_0_conv rb_list_length rb_size_def unat_eq_zero)
  obtain k where k: "unat (rb_capacity r) = 2 ^ k" "rb_mask r = rb_capacity r - 1" by (rule rb_invD [OF inv])
  show ?thesis
  proof (cases "rb_count r = 0")
    case True
    then show ?thesis using e by (simp add: rb_back_def)
  next
    case False
    have cnt: "of_nat (unat (rb_count r) - 1) = rb_count r - 1" unfolding unat_minus_one [OF False, symmetric] by simp
    have "unat ((rb_write_idx r - 1) AND rb_mask r) = rb_slot r (unat (rb_count r) - 1)"
      unfolding rb_slot_def k(2) unat_mask_mod [OF k(1)] cnt by simp
    then show ?thesis using False e rb_slot_less [OF inv, of "unat (rb_count r) - 1"]
      by (simp add: rb_back_def arr_get_def word_gt_0 last_conv_nth rb_size_def rb_list_def unat_gt_0)
  qed
qed

lemma rb_iterate_spec: "rb_inv r \<Longrightarrow> rb_iterate r = Some (rb_list r)"
proof -
  assume inv: "rb_inv r"
  have "map (rb_get r) [0..<rb_size r] = map Some (rb_list r)"
    by (intro nth_equalityI) (simp_all add: rb_get_spec [OF inv])
  moreover have "those (map Some xs) = Some xs" for xs :: "'a list" by (induction xs) simp_all
  ultimately show ?thesis by (simp add: rb_iterate_def)
qed

section \<open>Runs\<close>

datatype 'a rb_op = RPush 'a | RPopFront | RClear

fun rb_exec :: "'a rb_op \<Rightarrow> 'a RingBuffer \<Rightarrow> 'a RingBuffer outcome" where
  "rb_exec (RPush v) r = rb_push r v"
| "rb_exec RPopFront r = rb_pop_front r"
| "rb_exec RClear r = Some (rb_clear r)"

fun rb_run :: "'a rb_op list \<Rightarrow> 'a RingBuffer \<Rightarrow> 'a RingBuffer outcome" where
  "rb_run [] r = Some r"
| "rb_run (p # ps) r = rb_exec p r \<bind> rb_run ps"

text \<open>The specification: a window of at most \<open>cap\<close> elements.\<close>

fun win_exec :: "nat \<Rightarrow> 'a rb_op \<Rightarrow> 'a list \<Rightarrow> 'a list option" where
  "win_exec cap (RPush v) xs = Some ((if length xs = cap then tl xs else xs) @ [v])"
| "win_exec cap RPopFront xs = (if xs = [] then None else Some (tl xs))"
| "win_exec cap RClear xs = Some []"

fun win_run :: "nat \<Rightarrow> 'a rb_op list \<Rightarrow> 'a list \<Rightarrow> 'a list option" where
  "win_run cap [] xs = Some xs"
| "win_run cap (p # ps) xs = win_exec cap p xs \<bind> win_run cap ps"

lemma rb_run_window:
  "rb_inv r \<Longrightarrow> (case rb_run ps r of
      None \<Rightarrow> win_run (unat (rb_capacity r)) ps (rb_list r) = None
    | Some r' \<Rightarrow> win_run (unat (rb_capacity r)) ps (rb_list r) = Some (rb_list r') \<and> rb_inv r')"
proof (induction ps arbitrary: r)
  case (Cons p ps)
  have full: "rb_full r \<longleftrightarrow> rb_size r = unat (rb_capacity r)" by (simp add: rb_full_def rb_size_def word_unat_eq_iff)
  show ?case
  proof (cases p)
    case (RPush v)
    obtain r' where r': "rb_push r v = Some r'" "rb_inv r'" "rb_list r' = (if rb_full r then tl (rb_list r) else rb_list r) @ [v]"
      "rb_capacity r' = rb_capacity r" by (rule rb_push_spec [OF Cons.prems])
    then show ?thesis using Cons.IH [OF r'(2)] full RPush by (simp split: option.splits if_splits)
  next
    case RPopFront
    note P = rb_pop_spec [OF Cons.prems]
    show ?thesis
    proof (cases "rb_list r = []")
      case False
      then show ?thesis using P RPopFront Cons.IH [of "r\<lparr>rb_count := rb_count r - 1\<rparr>"] by (simp split: option.splits)
    qed (use P RPopFront in simp)
  next
    case RClear
    then show ?thesis using rb_clear_spec [OF Cons.prems] Cons.IH [of "rb_clear r"] by (simp add: rb_clear_def split: option.splits)
  qed
qed simp

text \<open>
  C32. Whatever sequence of pushes, pops and clears it goes through, however often its indices
  wrap, a ring buffer holds the window of the latest elements: pushing onto a full buffer
  drops the oldest, popping an empty one fails the assertion, and the accessors and the
  iteration read the window in order.
\<close>

theorem ring_buffer_window:
  assumes "rb_create sz al buf contents bytes cap = Some r" "cap \<le> length contents"
  shows "case rb_run ps r of
      None \<Rightarrow> win_run cap ps [] = None
    | Some r' \<Rightarrow> win_run cap ps [] = Some (rb_list r') \<and> rb_iterate r' = Some (rb_list r') \<and>
        rb_front r' = (if rb_list r' = [] then None else Some (hd (rb_list r'))) \<and>
        rb_back r' = (if rb_list r' = [] then None else Some (last (rb_list r')))"
proof -
  have r: "rb_inv r" "rb_list r = []" "unat (rb_capacity r) = cap" using rb_create_spec [OF assms] by simp_all
  show ?thesis using rb_run_window [OF r(1), of ps] r(2,3)
    by (cases "rb_run ps r") (simp_all add: rb_iterate_spec rb_front_spec rb_back_spec)
qed

theorem ring_buffer_window_witness:
  "case rb_create 8 8 4096 [0, 0, 0, 0 :: nat] 32 4 of None \<Rightarrow> False
   | Some r \<Rightarrow> (case rb_run [RPush 1, RPush 2, RPush 3, RPush 4, RPush 5, RPopFront] r of
       None \<Rightarrow> False | Some r' \<Rightarrow> rb_iterate r' = Some [3, 4, 5])"
proof -
  have "is_power_of_two 4" unfolding is_power_of_two_iff by (intro exI [of _ 2]) simp
  then obtain r where r: "rb_create 8 8 4096 [0, 0, 0, 0 :: nat] 32 4 = Some r"
    by (simp add: rb_create_def rb_is_valid_capacity_def)
  have "win_run 4 [RPush 1, RPush 2, RPush 3, RPush 4, RPush 5, RPopFront] [] = Some [3, 4, 5 :: nat]" by simp
  then show ?thesis
    using ring_buffer_window [OF r, of "[RPush 1, RPush 2, RPush 3, RPush 4, RPush 5, RPopFront]"] r
    by (auto split: option.splits)
qed

end
