(* ===== verification/SpscQueue.thy ===== *)
theory SpscQueue
  imports RingBuffer
begin

text \<open>
  \<^verbatim>\<open>libs/sys/memory/spsc_queue.hpp\<close>: the lock-free queue between one producer and one
  consumer thread. First the operations as one thread runs them, then the two threads in
  any interleaving: every load, every element copy and every store is a step of its own, and
  a thread may see an old value of the index the other thread writes.
\<close>

unbundle bit_operations_syntax

section \<open>Definitions\<close>

record 'a SPSCQueue =
  sq_head :: u32
  sq_tail :: u32
  sq_capacity :: u32
  sq_mask :: u32
  sq_buf :: "'a list"

definition sq_is_valid_capacity :: "u32 \<Rightarrow> bool" where
  "sq_is_valid_capacity c \<longleftrightarrow> 2 \<le> c \<and> is_power_of_two (ucast c)"

definition sq_round_up_capacity :: "u32 \<Rightarrow> u32 outcome" where
  "sq_round_up_capacity n = (if n = 0 then Some 0 else if n \<le> 2 then Some 2 else round_up_pow2 n)"

definition sq_required_buffer_size :: "nat \<Rightarrow> u32 \<Rightarrow> nat" where
  "sq_required_buffer_size sizeof_T capacity = unat capacity * sizeof_T"

definition sq_construct :: "nat \<Rightarrow> nat \<Rightarrow> nat \<Rightarrow> 'a list \<Rightarrow> nat \<Rightarrow> u32 \<Rightarrow> 'a SPSCQueue outcome" where
  "sq_construct sizeof_T alignof_T external_buf contents buf_bytes capacity = do {
     cassert (sq_is_valid_capacity capacity);
     cassert (\<not> (external_buf = 0 \<or> buf_bytes < sq_required_buffer_size sizeof_T capacity \<or> external_buf mod alignof_T \<noteq> 0));
     Some \<lparr>sq_head = 0, sq_tail = 0, sq_capacity = capacity, sq_mask = capacity - 1,
           sq_buf = take (unat capacity) contents\<rparr>
   }"

text \<open>\<open>Some None\<close> is \<^verbatim>\<open>std::nullopt\<close>.\<close>

definition sq_create :: "nat \<Rightarrow> nat \<Rightarrow> nat \<Rightarrow> 'a list \<Rightarrow> nat \<Rightarrow> u32 \<Rightarrow> 'a SPSCQueue option outcome" where
  "sq_create sizeof_T alignof_T external_buf contents buf_bytes capacity =
    (if \<not> sq_is_valid_capacity capacity \<or> external_buf = 0 then Some None
     else if external_buf mod alignof_T \<noteq> 0 then Some None
     else if buf_bytes < sq_required_buffer_size sizeof_T capacity then Some None
     else map_option Some (sq_construct sizeof_T alignof_T external_buf contents buf_bytes capacity))"

definition try_push :: "'a SPSCQueue \<Rightarrow> 'a \<Rightarrow> (bool \<times> 'a SPSCQueue) outcome" where
  "try_push q v = do {
     let t = sq_tail q;
     let h = sq_head q;
     if t - h = sq_capacity q then Some (False, q)
     else do {
       buf \<leftarrow> arr_upd (sq_buf q) (unat (t AND sq_mask q)) (\<lambda>_. v);
       Some (True, q\<lparr>sq_buf := buf, sq_tail := t + 1\<rparr>)
     }
   }"

text \<open>The copy loop of the batch push, from round \<open>i\<close> on.\<close>

fun push_loop :: "u32 \<Rightarrow> u32 \<Rightarrow> u32 \<Rightarrow> 'a list \<Rightarrow> 'a list \<Rightarrow> 'a list outcome" where
  "push_loop t m i [] buf = Some buf"
| "push_loop t m i (x # xs) buf = do {
     buf \<leftarrow> arr_upd buf (unat ((t + i) AND m)) (\<lambda>_. x);
     push_loop t m (i + 1) xs buf
   }"

definition try_push_batch :: "'a SPSCQueue \<Rightarrow> 'a list \<Rightarrow> (nat \<times> 'a SPSCQueue) outcome" where
  "try_push_batch q items = do {
     let t = sq_tail q;
     let h = sq_head q;
     let available = sq_capacity q - (t - h);
     let n = (of_nat (min (length items) (unat available)) :: u32);
     buf \<leftarrow> push_loop t (sq_mask q) 0 (take (unat n) items) (sq_buf q);
     Some (unat n, if n > 0 then q\<lparr>sq_buf := buf, sq_tail := t + n\<rparr> else q\<lparr>sq_buf := buf\<rparr>)
   }"

definition try_pop :: "'a SPSCQueue \<Rightarrow> ('a option \<times> 'a SPSCQueue) outcome" where
  "try_pop q = do {
     let h = sq_head q;
     let t = sq_tail q;
     if h = t then Some (None, q)
     else do {
       v \<leftarrow> arr_get (sq_buf q) (unat (h AND sq_mask q));
       Some (Some v, q\<lparr>sq_head := h + 1\<rparr>)
     }
   }"

text \<open>\<^verbatim>\<open>memcpy\<close> of \<open>n\<close> elements from index \<open>i\<close>.\<close>

definition copy_out :: "'a list \<Rightarrow> nat \<Rightarrow> nat \<Rightarrow> 'a list outcome" where
  "copy_out buf i n = (if i + n \<le> length buf then Some (take n (drop i buf)) else None)"

definition drain :: "'a SPSCQueue \<Rightarrow> nat \<Rightarrow> ('a list \<times> 'a SPSCQueue) outcome" where
  "drain q max_count = do {
     cassert (max_count > 0);
     let h = sq_head q;
     let t = sq_tail q;
     if h = t then Some ([], q)
     else do {
       let available = unat (t - h);
       let n = min available max_count;
       let start = h AND sq_mask q;
       let first = min (of_nat n) (sq_capacity q - start);
       out1 \<leftarrow> copy_out (sq_buf q) (unat start) (unat first);
       let second = of_nat n - first;
       out2 \<leftarrow> (if second > 0 then copy_out (sq_buf q) 0 (unat second) else Some []);
       Some (out1 @ out2, q\<lparr>sq_head := h + of_nat n\<rparr>)
     }
   }"

section \<open>The two threads\<close>

text \<open>
  The producer is idle or copies the items it found room for; \<open>i\<close> of them are written. The
  consumer is idle or has decided to take \<open>n\<close> items and has copied some. \<open>sp_seen_head\<close> is the
  value of \<^verbatim>\<open>head_\<close> that an acquire load of the producer returns next, \<open>sp_seen_tail\<close> that of
  \<^verbatim>\<open>tail_\<close> for the consumer. \<open>sp_pushed\<close> and \<open>sp_popped\<close> record all items published and taken.
\<close>

datatype 'a producer = PIdle | PCopy "'a list" nat
datatype 'a consumer = CIdle | CCopy nat "'a list"

record 'a spsc =
  sp_queue :: "'a SPSCQueue"
  sp_producer :: "'a producer"
  sp_consumer :: "'a consumer"
  sp_seen_head :: u32
  sp_seen_tail :: u32
  sp_pushed :: "'a list"
  sp_popped :: "'a list"

definition copy_in :: "'a SPSCQueue \<Rightarrow> nat \<Rightarrow> 'a \<Rightarrow> 'a SPSCQueue" where
  "copy_in q i v = q\<lparr>sq_buf := (sq_buf q)[unat ((sq_tail q + of_nat i) AND sq_mask q) := v]\<rparr>"

definition slot_read :: "'a SPSCQueue \<Rightarrow> nat \<Rightarrow> 'a" where
  "slot_read q i = sq_buf q ! unat ((sq_head q + of_nat i) AND sq_mask q)"

inductive spsc_step :: "'a spsc \<Rightarrow> 'a spsc \<Rightarrow> bool" where
  push_begin: "sp_producer s = PIdle \<Longrightarrow> sq_tail (sp_queue s) - sp_seen_head s \<noteq> sq_capacity (sp_queue s) \<Longrightarrow>
    spsc_step s (s\<lparr>sp_producer := PCopy [v] 0\<rparr>)"
| batch_begin: "sp_producer s = PIdle \<Longrightarrow>
    n = min (length items) (unat (sq_capacity (sp_queue s) - (sq_tail (sp_queue s) - sp_seen_head s))) \<Longrightarrow>
    spsc_step s (s\<lparr>sp_producer := PCopy (take n items) 0\<rparr>)"
| push_copy: "sp_producer s = PCopy ys i \<Longrightarrow> i < length ys \<Longrightarrow>
    spsc_step s (s\<lparr>sp_queue := copy_in (sp_queue s) i (ys ! i), sp_producer := PCopy ys (i + 1)\<rparr>)"
| push_publish: "sp_producer s = PCopy ys (length ys) \<Longrightarrow>
    spsc_step s (s\<lparr>sp_queue := sp_queue s\<lparr>sq_tail := sq_tail (sp_queue s) + of_nat (length ys)\<rparr>,
      sp_producer := PIdle, sp_pushed := sp_pushed s @ ys\<rparr>)"
| pop_begin: "sp_consumer s = CIdle \<Longrightarrow> sq_head (sp_queue s) \<noteq> sp_seen_tail s \<Longrightarrow> spsc_step s (s\<lparr>sp_consumer := CCopy 1 []\<rparr>)"
| drain_begin: "sp_consumer s = CIdle \<Longrightarrow> n = min (unat (sp_seen_tail s - sq_head (sp_queue s))) max_count \<Longrightarrow>
    spsc_step s (s\<lparr>sp_consumer := CCopy n []\<rparr>)"
| pop_copy: "sp_consumer s = CCopy n xs \<Longrightarrow> length xs < n \<Longrightarrow>
    spsc_step s (s\<lparr>sp_consumer := CCopy n (xs @ [slot_read (sp_queue s) (length xs)])\<rparr>)"
| pop_release: "sp_consumer s = CCopy n xs \<Longrightarrow> length xs = n \<Longrightarrow>
    spsc_step s (s\<lparr>sp_queue := sp_queue s\<lparr>sq_head := sq_head (sp_queue s) + of_nat n\<rparr>,
      sp_consumer := CIdle, sp_popped := sp_popped s @ xs\<rparr>)"
| producer_sees: "spsc_step s (s\<lparr>sp_seen_head := sq_head (sp_queue s)\<rparr>)"
| consumer_sees: "spsc_step s (s\<lparr>sp_seen_tail := sq_tail (sp_queue s)\<rparr>)"

inductive_cases spsc_stepE: "spsc_step s s'"

definition spsc_start :: "'a SPSCQueue \<Rightarrow> 'a spsc" where
  "spsc_start q = \<lparr>sp_queue = q, sp_producer = PIdle, sp_consumer = CIdle, sp_seen_head = 0, sp_seen_tail = 0,
     sp_pushed = [], sp_popped = []\<rparr>"

text \<open>Both threads access the element buffer at the same slot.\<close>

definition spsc_race :: "'a spsc \<Rightarrow> bool" where
  "spsc_race s \<longleftrightarrow> (case (sp_producer s, sp_consumer s) of
     (PCopy ys i, CCopy n xs) \<Rightarrow> i < length ys \<and> length xs < n \<and>
       (sq_tail (sp_queue s) + of_nat i) AND sq_mask (sp_queue s) = (sq_head (sp_queue s) + of_nat (length xs)) AND sq_mask (sp_queue s)
   | _ \<Rightarrow> False)"

section \<open>Invariant of the interleaving\<close>

text \<open>\<open>PH\<close> and \<open>CT\<close> are the unwrapped values of the indices the threads see.\<close>

definition cap_of :: "'a spsc \<Rightarrow> nat" where
  "cap_of s = unat (sq_capacity (sp_queue s))"

definition shape_ok :: "'a spsc \<Rightarrow> bool" where
  "shape_ok s \<longleftrightarrow> 2 \<le> cap_of s \<and> (\<exists>k. cap_of s = 2 ^ k) \<and> sq_mask (sp_queue s) = sq_capacity (sp_queue s) - 1 \<and>
     length (sq_buf (sp_queue s)) = cap_of s"

definition indices_ok :: "'a spsc \<Rightarrow> nat \<Rightarrow> nat \<Rightarrow> bool" where
  "indices_ok s PH CT \<longleftrightarrow> sq_head (sp_queue s) = of_nat (length (sp_popped s)) \<and>
     sq_tail (sp_queue s) = of_nat (length (sp_pushed s)) \<and> sp_seen_head s = of_nat PH \<and> sp_seen_tail s = of_nat CT \<and>
     PH \<le> length (sp_popped s) \<and> length (sp_popped s) \<le> CT \<and> CT \<le> length (sp_pushed s) \<and> length (sp_pushed s) \<le> PH + cap_of s"

definition items_ok :: "'a spsc \<Rightarrow> bool" where
  "items_ok s \<longleftrightarrow> sp_popped s = take (length (sp_popped s)) (sp_pushed s) \<and>
     (\<forall>j. length (sp_popped s) \<le> j \<longrightarrow> j < length (sp_pushed s) \<longrightarrow> sq_buf (sp_queue s) ! (j mod cap_of s) = sp_pushed s ! j)"

definition producer_ok :: "'a spsc \<Rightarrow> nat \<Rightarrow> bool" where
  "producer_ok s PH \<longleftrightarrow> (\<forall>ys i. sp_producer s = PCopy ys i \<longrightarrow> i \<le> length ys \<and> length (sp_pushed s) + length ys \<le> PH + cap_of s \<and>
      (\<forall>j < i. sq_buf (sp_queue s) ! ((length (sp_pushed s) + j) mod cap_of s) = ys ! j))"

definition consumer_ok :: "'a spsc \<Rightarrow> nat \<Rightarrow> bool" where
  "consumer_ok s CT \<longleftrightarrow> (\<forall>n xs. sp_consumer s = CCopy n xs \<longrightarrow> length xs \<le> n \<and> length (sp_popped s) + n \<le> CT \<and>
      xs = take (length xs) (drop (length (sp_popped s)) (sp_pushed s)))"

definition spsc_inv :: "'a spsc \<Rightarrow> bool" where
  "spsc_inv s \<longleftrightarrow> shape_ok s \<and> items_ok s \<and> (\<exists>PH CT. indices_ok s PH CT \<and> producer_ok s PH \<and> consumer_ok s CT)"

lemmas spsc_parts = shape_ok_def indices_ok_def items_ok_def producer_ok_def consumer_ok_def cap_of_def

lemma spsc_start_inv:
  assumes "sq_construct sz al buf contents bytes cap = Some q" "unat cap \<le> length contents"
  shows "spsc_inv (spsc_start q)"
proof -
  have q: "q = \<lparr>sq_head = 0, sq_tail = 0, sq_capacity = cap, sq_mask = cap - 1, sq_buf = take (unat cap) contents\<rparr>"
    and v: "sq_is_valid_capacity cap"
    using assms(1) by (auto simp: sq_construct_def cassert_def split: if_splits)
  have "unat (ucast cap :: u64) = unat cap"
    by (simp add: unsigned_ucast_eq take_bit_nat_eq_self order_less_le_trans [OF unat_less_exp])
  then obtain k where "unat cap = 2 ^ k" using v by (auto simp: sq_is_valid_capacity_def is_power_of_two_iff)
  then show ?thesis using v assms(2)
    by (auto simp: spsc_inv_def spsc_parts q spsc_start_def sq_is_valid_capacity_def word_le_nat_alt intro!: exI [of _ 0])
qed

lemma push_room:
  assumes "shape_ok s" "indices_ok s PH CT"
  shows "unat (sq_tail (sp_queue s) - sp_seen_head s) = length (sp_pushed s) - PH"
    "unat (sq_capacity (sp_queue s) - (sq_tail (sp_queue s) - sp_seen_head s)) = PH + cap_of s - length (sp_pushed s)"
proof -
  have le: "PH \<le> length (sp_pushed s)" "length (sp_pushed s) - PH \<le> cap_of s" using assms(2) by (auto simp: indices_ok_def)
  have c: "cap_of s < 2 ^ 32" unfolding cap_of_def using unat_less_exp [of "sq_capacity (sp_queue s)"] by simp
  have t: "sq_tail (sp_queue s) - sp_seen_head s = of_nat (length (sp_pushed s) - PH)"
    using assms(2) le(1) by (simp add: indices_ok_def of_nat_diff)
  then show u: "unat (sq_tail (sp_queue s) - sp_seen_head s) = length (sp_pushed s) - PH"
    using le(2) c by (simp add: unat_of_nat)
  then show "unat (sq_capacity (sp_queue s) - (sq_tail (sp_queue s) - sp_seen_head s)) = PH + cap_of s - length (sp_pushed s)"
    using le unat_sub [of "sq_tail (sp_queue s) - sp_seen_head s" "sq_capacity (sp_queue s)"] by (simp add: word_le_nat_alt cap_of_def)
qed

lemma pop_room:
  assumes "shape_ok s" "indices_ok s PH CT"
  shows "unat (sp_seen_tail s - sq_head (sp_queue s)) = CT - length (sp_popped s)"
proof -
  have le: "length (sp_popped s) \<le> CT" "CT - length (sp_popped s) \<le> cap_of s" using assms(2) by (auto simp: indices_ok_def)
  have c: "cap_of s < 2 ^ 32" unfolding cap_of_def using unat_less_exp [of "sq_capacity (sp_queue s)"] by simp
  have "sp_seen_tail s - sq_head (sp_queue s) = of_nat (CT - length (sp_popped s))"
    using assms(2) le(1) by (simp add: indices_ok_def of_nat_diff)
  then show ?thesis using le(2) c by (simp add: unat_of_nat)
qed

lemma queue_slot:
  assumes "shape_ok s"
  shows "unat ((of_nat j :: u32) AND sq_mask (sp_queue s)) = j mod cap_of s"
  using assms slot_of_nat by (auto simp: shape_ok_def cap_of_def)

lemma copy_in_spec:
  assumes "shape_ok s" "indices_ok s PH CT"
  shows "copy_in (sp_queue s) i v = sp_queue s\<lparr>sq_buf := (sq_buf (sp_queue s))[(length (sp_pushed s) + i) mod cap_of s := v]\<rparr>"
  using queue_slot [OF assms(1), of "length (sp_pushed s) + i"] assms(2) by (simp add: copy_in_def indices_ok_def)

lemma slot_read_spec:
  assumes "shape_ok s" "indices_ok s PH CT"
  shows "slot_read (sp_queue s) i = sq_buf (sp_queue s) ! ((length (sp_popped s) + i) mod cap_of s)"
  using queue_slot [OF assms(1), of "length (sp_popped s) + i"] assms(2) by (simp add: slot_read_def indices_ok_def)

lemma cap_of_upd [simp]:
  "cap_of (s\<lparr>sp_producer := p\<rparr>) = cap_of s" "cap_of (s\<lparr>sp_consumer := d\<rparr>) = cap_of s"
  "cap_of (s\<lparr>sp_pushed := xs\<rparr>) = cap_of s" "cap_of (s\<lparr>sp_popped := xs\<rparr>) = cap_of s"
  "cap_of (s\<lparr>sp_seen_head := x\<rparr>) = cap_of s" "cap_of (s\<lparr>sp_seen_tail := x\<rparr>) = cap_of s"
  "sq_capacity q = sq_capacity (sp_queue s) \<Longrightarrow> cap_of (s\<lparr>sp_queue := q\<rparr>) = cap_of s"
  by (simp_all add: cap_of_def)

lemma write_keeps:
  fixes L :: nat
  assumes "length buf = c" "j < L" "L < j + c"
  shows "buf[L mod c := v] ! (j mod c) = buf ! (j mod c)"
  using slots_distinct [OF assms(2,3)] by simp

lemma push_copy_inv:
  assumes S: "shape_ok s" and I: "indices_ok s PH CT" and items: "items_ok s" and P: "producer_ok s PH" and C: "consumer_ok s CT"
    and p: "sp_producer s = PCopy ys i" "i < length ys"
  shows "spsc_inv (s\<lparr>sp_queue := copy_in (sp_queue s) i (ys ! i), sp_producer := PCopy ys (i + 1)\<rparr>)"
proof -
  let ?c = "cap_of s" and ?T = "length (sp_pushed s)" and ?b = "sq_buf (sp_queue s)"
  let ?s = "s\<lparr>sp_queue := copy_in (sp_queue s) i (ys ! i), sp_producer := PCopy ys (i + 1)\<rparr>"
  note ci = copy_in_spec [OF S I, of i "ys ! i"]
  have len: "length ?b = ?c" "0 < ?c" using S by (auto simp: shape_ok_def)
  have T: "?T + length ys \<le> PH + ?c" "PH \<le> length (sp_popped s)" using P p I by (auto simp: producer_ok_def indices_ok_def)
  have "shape_ok ?s" using S by (simp add: shape_ok_def ci)
  moreover have "items_ok ?s"
  proof -
    have "?b[(?T + i) mod ?c := ys ! i] ! (j mod ?c) = ?b ! (j mod ?c)" if "length (sp_popped s) \<le> j" "j < ?T" for j
      by (rule write_keeps [OF len(1)]) (use that T p in auto)
    then show ?thesis using items by (simp add: items_ok_def ci)
  qed
  moreover have "indices_ok ?s PH CT" using I by (simp add: indices_ok_def ci)
  moreover have "producer_ok ?s PH"
  proof -
    have "?b[(?T + i) mod ?c := ys ! i] ! ((?T + j) mod ?c) = ys ! j" if j: "j < i + 1" for j
    proof (cases "j = i")
      case True
      then show ?thesis using len by simp
    next
      case False
      then have "j < i" using j by simp
      then have "?b ! ((?T + j) mod ?c) = ys ! j" using P p(1) by (simp add: producer_ok_def)
      moreover have "?b[(?T + i) mod ?c := ys ! i] ! ((?T + j) mod ?c) = ?b ! ((?T + j) mod ?c)"
        by (rule write_keeps [OF len(1)]) (use \<open>j < i\<close> T I p in \<open>auto simp: indices_ok_def\<close>)
      ultimately show ?thesis by simp
    qed
    then show ?thesis using T p by (simp add: producer_ok_def ci)
  qed
  moreover have "consumer_ok ?s CT" using C by (simp add: consumer_ok_def)
  ultimately show ?thesis unfolding spsc_inv_def by blast
qed

lemma publish_inv:
  assumes S: "shape_ok s" and I: "indices_ok s PH CT" and items: "items_ok s" and P: "producer_ok s PH" and C: "consumer_ok s CT"
    and p: "sp_producer s = PCopy ys (length ys)"
  shows "spsc_inv (s\<lparr>sp_queue := sp_queue s\<lparr>sq_tail := sq_tail (sp_queue s) + of_nat (length ys)\<rparr>,
      sp_producer := PIdle, sp_pushed := sp_pushed s @ ys\<rparr>)" (is "spsc_inv ?s")
proof -
  let ?T = "length (sp_pushed s)"
  have T: "?T + length ys \<le> PH + cap_of s" "\<forall>j < length ys. sq_buf (sp_queue s) ! ((?T + j) mod cap_of s) = ys ! j"
    using P p by (auto simp: producer_ok_def)
  have le: "length (sp_popped s) \<le> ?T" "CT \<le> ?T" using I by (auto simp: indices_ok_def)
  have "shape_ok ?s" using S by (simp add: shape_ok_def)
  moreover have "items_ok ?s"
  proof -
    have "sq_buf (sp_queue s) ! (j mod cap_of s) = (sp_pushed s @ ys) ! j" if "length (sp_popped s) \<le> j" "j < ?T + length ys" for j
    proof (cases "j < ?T")
      case True
      then show ?thesis using items that(1) by (simp add: items_ok_def nth_append)
    next
      case False
      then have "j - ?T < length ys" "?T + (j - ?T) = j" using that(2) by auto
      then show ?thesis using T(2) False by (metis nth_append)
    qed
    then show ?thesis using items le(1) by (simp add: items_ok_def)
  qed
  moreover have "indices_ok ?s PH CT" using I T(1) by (simp add: indices_ok_def)
  moreover have "producer_ok ?s PH" by (simp add: producer_ok_def)
  moreover have "consumer_ok ?s CT" using C le by (auto simp: consumer_ok_def)
  ultimately show ?thesis unfolding spsc_inv_def by blast
qed

lemma pop_copy_inv:
  assumes S: "shape_ok s" and I: "indices_ok s PH CT" and items: "items_ok s" and P: "producer_ok s PH" and C: "consumer_ok s CT"
    and p: "sp_consumer s = CCopy n xs" "length xs < n"
  shows "spsc_inv (s\<lparr>sp_consumer := CCopy n (xs @ [slot_read (sp_queue s) (length xs)])\<rparr>)" (is "spsc_inv ?s")
proof -
  let ?H = "length (sp_popped s)" and ?k = "length xs"
  have n: "?H + n \<le> CT" "CT \<le> length (sp_pushed s)" "xs = take ?k (drop ?H (sp_pushed s))"
    using C I p by (auto simp: consumer_ok_def indices_ok_def)
  have "slot_read (sp_queue s) ?k = sp_pushed s ! (?H + ?k)"
    unfolding slot_read_spec [OF S I] using items n(1,2) p(2) by (simp add: items_ok_def)
  then have "xs @ [slot_read (sp_queue s) ?k] = take (Suc ?k) (drop ?H (sp_pushed s))"
    using n p(2) by (simp add: take_Suc_conv_app_nth)
  then have "consumer_ok ?s CT" using n p(2) by (simp add: consumer_ok_def)
  then show ?thesis using S I items P unfolding spsc_inv_def
    by (auto simp: shape_ok_def indices_ok_def items_ok_def producer_ok_def)
qed

lemma release_inv:
  assumes S: "shape_ok s" and I: "indices_ok s PH CT" and items: "items_ok s" and P: "producer_ok s PH" and C: "consumer_ok s CT"
    and p: "sp_consumer s = CCopy n xs" "length xs = n"
  shows "spsc_inv (s\<lparr>sp_queue := sp_queue s\<lparr>sq_head := sq_head (sp_queue s) + of_nat n\<rparr>,
      sp_consumer := CIdle, sp_popped := sp_popped s @ xs\<rparr>)" (is "spsc_inv ?s")
proof -
  let ?H = "length (sp_popped s)"
  have n: "?H + n \<le> CT" "CT \<le> length (sp_pushed s)" "xs = take n (drop ?H (sp_pushed s))"
    using C I p by (auto simp: consumer_ok_def indices_ok_def)
  have "sp_popped s @ xs = take (?H + n) (sp_pushed s)"
    using items n(3) unfolding items_ok_def by (metis take_add)
  then have "items_ok ?s" using items p(2) n(1,2) by (simp add: items_ok_def min_absorb2)
  moreover have "indices_ok ?s PH CT" using I n p(2) by (simp add: indices_ok_def)
  moreover have "consumer_ok ?s CT" by (simp add: consumer_ok_def)
  moreover have "shape_ok ?s" "producer_ok ?s PH" using S P by (simp_all add: shape_ok_def producer_ok_def)
  ultimately show ?thesis unfolding spsc_inv_def by blast
qed

lemma spsc_frames [simp]:
  "shape_ok (s\<lparr>sp_producer := p\<rparr>) = shape_ok s" "shape_ok (s\<lparr>sp_consumer := d\<rparr>) = shape_ok s"
  "shape_ok (s\<lparr>sp_seen_head := x\<rparr>) = shape_ok s" "shape_ok (s\<lparr>sp_seen_tail := x\<rparr>) = shape_ok s"
  "items_ok (s\<lparr>sp_producer := p\<rparr>) = items_ok s" "items_ok (s\<lparr>sp_consumer := d\<rparr>) = items_ok s"
  "items_ok (s\<lparr>sp_seen_head := x\<rparr>) = items_ok s" "items_ok (s\<lparr>sp_seen_tail := x\<rparr>) = items_ok s"
  "indices_ok (s\<lparr>sp_producer := p\<rparr>) = indices_ok s" "indices_ok (s\<lparr>sp_consumer := d\<rparr>) = indices_ok s"
  "producer_ok (s\<lparr>sp_consumer := d\<rparr>) = producer_ok s" "producer_ok (s\<lparr>sp_seen_head := x\<rparr>) = producer_ok s"
  "producer_ok (s\<lparr>sp_seen_tail := x\<rparr>) = producer_ok s" "consumer_ok (s\<lparr>sp_producer := p\<rparr>) = consumer_ok s"
  "consumer_ok (s\<lparr>sp_seen_head := x\<rparr>) = consumer_ok s" "consumer_ok (s\<lparr>sp_seen_tail := x\<rparr>) = consumer_ok s"
  by (simp_all add: fun_eq_iff shape_ok_def items_ok_def indices_ok_def producer_ok_def consumer_ok_def)

lemma spsc_step_inv:
  assumes "spsc_step s s'" "spsc_inv s"
  shows "spsc_inv s'"
proof -
  obtain PH CT where S: "shape_ok s" and items: "items_ok s" and I: "indices_ok s PH CT" and P: "producer_ok s PH" and C: "consumer_ok s CT"
    using assms(2) by (auto simp: spsc_inv_def)
  from assms(1) show ?thesis
  proof cases
    case (push_begin v)
    have "length (sp_pushed s) - PH \<noteq> cap_of s"
      using push_room(1) [OF S I] push_begin(3) by (metis cap_of_def word_unat_eq_iff)
    then have "producer_ok s' PH" using I push_begin(1) by (auto simp: producer_ok_def indices_ok_def)
    then show ?thesis unfolding spsc_inv_def using S items I C push_begin(1) by auto
  next
    case (batch_begin n items')
    have "n \<le> PH + cap_of s - length (sp_pushed s)" "length (sp_pushed s) \<le> PH + cap_of s"
      using push_room(2) [OF S I] batch_begin(3) I by (auto simp: indices_ok_def)
    then have "producer_ok s' PH" using batch_begin(1) by (auto simp: producer_ok_def)
    then show ?thesis unfolding spsc_inv_def using S items I C batch_begin(1) by auto
  next
    case (push_copy ys i)
    then show ?thesis using push_copy_inv [OF S I items P C] by simp
  next
    case (push_publish ys)
    then show ?thesis using publish_inv [OF S I items P C] by simp
  next
    case pop_begin
    have "length (sp_popped s) \<noteq> CT" using pop_begin(3) I by (auto simp: indices_ok_def)
    then have "consumer_ok s' CT" using I pop_begin(1) by (auto simp: consumer_ok_def indices_ok_def)
    then show ?thesis unfolding spsc_inv_def using S items I P pop_begin(1) by auto
  next
    case (drain_begin n max_count)
    have "length (sp_popped s) + n \<le> CT" using pop_room [OF S I] drain_begin(3) I by (auto simp: indices_ok_def)
    then have "consumer_ok s' CT" using drain_begin(1) by (auto simp: consumer_ok_def)
    then show ?thesis unfolding spsc_inv_def using S items I P drain_begin(1) by auto
  next
    case (pop_copy n xs)
    then show ?thesis using pop_copy_inv [OF S I items P C] by simp
  next
    case (pop_release n xs)
    then show ?thesis using release_inv [OF S I items P C] by simp
  next
    case producer_sees
    have "indices_ok s' (length (sp_popped s)) CT" "producer_ok s' (length (sp_popped s))"
      using I P producer_sees by (auto simp: indices_ok_def producer_ok_def intro: le_trans)
    then show ?thesis unfolding spsc_inv_def using S items C producer_sees by auto
  next
    case consumer_sees
    have "indices_ok s' PH (length (sp_pushed s))" "consumer_ok s' (length (sp_pushed s))"
      using I C consumer_sees by (auto simp: indices_ok_def consumer_ok_def)
    then show ?thesis unfolding spsc_inv_def using S items P consumer_sees by auto
  qed
qed

abbreviation spsc_steps :: "'a spsc \<Rightarrow> 'a spsc \<Rightarrow> bool" where
  "spsc_steps \<equiv> spsc_step\<^sup>*\<^sup>*"

lemma spsc_steps_inv: "spsc_steps s s' \<Longrightarrow> spsc_inv s \<Longrightarrow> spsc_inv s'"
  by (induction rule: rtranclp_induct) (auto intro: spsc_step_inv)

lemma spsc_no_race: "spsc_inv s \<Longrightarrow> \<not> spsc_race s"
proof
  assume inv: "spsc_inv s" and "spsc_race s"
  then obtain ys i n xs where p: "sp_producer s = PCopy ys i" "sp_consumer s = CCopy n xs" "i < length ys" "length xs < n"
    "(sq_tail (sp_queue s) + of_nat i) AND sq_mask (sp_queue s) = (sq_head (sp_queue s) + of_nat (length xs)) AND sq_mask (sp_queue s)"
    by (auto simp: spsc_race_def split: producer.splits consumer.splits)
  obtain PH CT where S: "shape_ok s" and I: "indices_ok s PH CT" and P: "producer_ok s PH" and C: "consumer_ok s CT"
    using inv by (auto simp: spsc_inv_def)
  have "(length (sp_popped s) + length xs) mod cap_of s \<noteq> (length (sp_pushed s) + i) mod cap_of s"
    by (rule slots_distinct) (use p P C I in \<open>auto simp: producer_ok_def consumer_ok_def indices_ok_def\<close>)
  moreover have "(sq_tail (sp_queue s) + of_nat i) AND sq_mask (sp_queue s) = of_nat (length (sp_pushed s) + i) AND sq_mask (sp_queue s)"
    "(sq_head (sp_queue s) + of_nat (length xs)) AND sq_mask (sp_queue s) = of_nat (length (sp_popped s) + length xs) AND sq_mask (sp_queue s)"
    using I by (simp_all add: indices_ok_def)
  ultimately show False using p(5) queue_slot [OF S] by metis
qed

section \<open>The operations run through the steps\<close>

lemma head_slot_less:
  assumes "spsc_inv s"
  shows "unat (x AND sq_mask (sp_queue s)) < length (sq_buf (sp_queue s))"
proof -
  obtain k where "cap_of s = 2 ^ k" "sq_mask (sp_queue s) = sq_capacity (sp_queue s) - 1" "length (sq_buf (sp_queue s)) = cap_of s" "2 \<le> cap_of s"
    using assms by (auto simp: spsc_inv_def shape_ok_def)
  then show ?thesis using unat_mask_mod [of "sq_capacity (sp_queue s)" k x] by (simp add: cap_of_def)
qed

lemma try_push_runs:
  assumes inv: "spsc_inv s" and idle: "sp_producer s = PIdle"
  obtains (full) "try_push (sp_queue s) v = Some (False, sp_queue s)"
      "length (sp_pushed s) = length (sp_popped s) + cap_of s"
  | (pushed) q where "try_push (sp_queue s) v = Some (True, q)" "length (sp_pushed s) < length (sp_popped s) + cap_of s"
      "spsc_steps s (s\<lparr>sp_seen_head := sq_head (sp_queue s), sp_queue := q, sp_producer := PIdle, sp_pushed := sp_pushed s @ [v]\<rparr>)"
proof -
  let ?q = "sp_queue s"
  let ?s1 = "s\<lparr>sp_seen_head := sq_head ?q\<rparr>"
  have s1: "spsc_step s ?s1" by (rule spsc_step.producer_sees)
  have inv1: "spsc_inv ?s1" by (rule spsc_step_inv [OF s1 inv])
  obtain PH CT where S: "shape_ok s" and I: "indices_ok s PH CT" using inv by (auto simp: spsc_inv_def)
  have I': "indices_ok ?s1 (length (sp_popped s)) CT" and S': "shape_ok ?s1" using I S by (auto simp: indices_ok_def)
  have le: "length (sp_pushed s) \<le> length (sp_popped s) + cap_of s" using I by (auto simp: indices_ok_def)
  have room: "sq_tail ?q - sq_head ?q = sq_capacity ?q \<longleftrightarrow> length (sp_pushed s) - length (sp_popped s) = cap_of s"
    using push_room(1) [OF S' I'] by (simp add: word_unat_eq_iff cap_of_def)
  have gt: "length (sp_popped s) \<le> length (sp_pushed s)" using I by (auto simp: indices_ok_def)
  show thesis
  proof (cases "sq_tail ?q - sq_head ?q = sq_capacity ?q")
    case True
    then show thesis using full gt room by (simp add: try_push_def Let_def)
  next
    case False
    let ?q2 = "(copy_in ?q 0 v)\<lparr>sq_tail := sq_tail ?q + 1\<rparr>"
    have t: "try_push ?q v = Some (True, ?q2)"
      using False head_slot_less [OF inv, of "sq_tail ?q"] by (simp add: try_push_def Let_def arr_upd_def copy_in_def)
    let ?s2 = "?s1\<lparr>sp_producer := PCopy [v] 0\<rparr>" and ?s3 = "?s1\<lparr>sp_queue := copy_in ?q 0 v, sp_producer := PCopy [v] 1\<rparr>"
    have "spsc_step ?s1 ?s2" by (rule spsc_step.push_begin) (use False idle in simp_all)
    moreover have "spsc_step ?s2 ?s3" using spsc_step.push_copy [of ?s2 "[v]" 0] by simp
    moreover have "spsc_step ?s3 (s\<lparr>sp_seen_head := sq_head ?q, sp_queue := ?q2, sp_producer := PIdle, sp_pushed := sp_pushed s @ [v]\<rparr>)"
      using spsc_step.push_publish [of ?s3 "[v]"] idle by (simp add: copy_in_def)
    ultimately have "spsc_steps s (s\<lparr>sp_seen_head := sq_head ?q, sp_queue := ?q2, sp_producer := PIdle, sp_pushed := sp_pushed s @ [v]\<rparr>)"
      using s1 by (meson converse_rtranclp_into_rtranclp r_into_rtranclp)
    then show thesis using pushed t False room le by force
  qed
qed

lemma drain_copies:
  assumes S: "shape_ok s" and n: "n \<le> cap_of s"
  defines "q \<equiv> sp_queue s"
  defines "start \<equiv> sq_head q AND sq_mask q"
  defines "first \<equiv> min (of_nat n) (sq_capacity q - start)"
  shows "\<exists>out1 out2. copy_out (sq_buf q) (unat start) (unat first) = Some out1 \<and>
    (if of_nat n - first > 0 then copy_out (sq_buf q) 0 (unat (of_nat n - first)) else Some []) = Some out2 \<and>
    out1 @ out2 = map (slot_read q) [0..<n]"
proof -
  obtain k where k: "unat (sq_capacity q) = 2 ^ k" "sq_mask q = sq_capacity q - 1" "length (sq_buf q) = cap_of s" "2 \<le> cap_of s"
    using S by (auto simp: shape_ok_def q_def cap_of_def)
  let ?c = "cap_of s" and ?a = "unat start"
  have c: "?c = unat (sq_capacity q)" by (simp add: cap_of_def q_def)
  have a: "?a = unat (sq_head q) mod ?c" unfolding start_def k(2) c by (rule unat_mask_mod [OF k(1)])
  then have al: "?a < ?c" using k(4) by simp
  have n32: "unat (of_nat n :: u32) = n" using n c unat_less_exp [of "sq_capacity q"] by (simp add: unat_of_nat)
  have cs: "unat (sq_capacity q - start) = ?c - ?a" using al c by (simp add: unat_sub word_le_nat_alt)
  have f: "unat first = min n (?c - ?a)" unfolding first_def using n32 cs by (simp add: min_def word_le_nat_alt)
  have le: "first \<le> of_nat n" by (simp add: first_def)
  have s2: "unat (of_nat n - first) = n - unat first" using unat_sub [OF le] n32 by simp
  have rd: "slot_read q i = sq_buf q ! ((?a + i) mod ?c)" for i
    unfolding slot_read_def k(2) unat_mask_mod [OF k(1)] c [symmetric]
    using word_add_mod [OF pow2_dvd [OF k(1)], of "sq_head q" i] a c by (simp add: mod_simps)
  define out1 where "out1 = take (unat first) (drop ?a (sq_buf q))"
  define out2 where "out2 = take (n - unat first) (sq_buf q)"
  have "copy_out (sq_buf q) ?a (unat first) = Some out1" using f k(3) al by (simp add: copy_out_def out1_def)
  moreover have "(if of_nat n - first > 0 then copy_out (sq_buf q) 0 (unat (of_nat n - first)) else Some []) = Some out2"
    using s2 n k(3) by (auto simp: copy_out_def out2_def word_gt_0 unat_gt_0 [symmetric])
  moreover have l1: "length out1 = unat first" and l2: "length out2 = n - unat first"
    using f k(3) al n by (simp_all add: out1_def out2_def)
  have "out1 @ out2 = map (slot_read q) [0..<n]"
  proof (rule nth_equalityI)
    show "length (out1 @ out2) = length (map (slot_read q) [0..<n])"
      using l1 l2 f by simp
    fix i assume "i < length (out1 @ out2)"
    then have i: "i < n" using l1 l2 f by simp
    show "(out1 @ out2) ! i = map (slot_read q) [0..<n] ! i"
    proof (cases "i < unat first")
      case True
      then have "?a + i < ?c" using f by linarith
      then show ?thesis using True l1 i k(3) by (simp add: nth_append rd out1_def)
    next
      case False
      then have g: "?c \<le> ?a + i" "unat first = ?c - ?a" "?a + i - ?c < ?c" using f i n al by (auto simp: min_def split: if_splits)
      then have "(?a + i) mod ?c = i - unat first" using al by (simp add: le_mod_geq)
      then show ?thesis using False l1 i k(3) n by (simp add: nth_append rd out2_def)
    qed
  qed
  ultimately show ?thesis by blast
qed

lemma copy_steps:
  assumes "sp_consumer s = CCopy n []" "j \<le> n"
  shows "spsc_steps s (s\<lparr>sp_consumer := CCopy n (map (slot_read (sp_queue s)) [0..<j])\<rparr>)"
  using assms(2)
proof (induction j)
  case 0
  have "s\<lparr>sp_consumer := CCopy n []\<rparr> = s" using assms(1) by (cases s) simp
  then show ?case by simp
next
  case (Suc j)
  let ?s = "s\<lparr>sp_consumer := CCopy n (map (slot_read (sp_queue s)) [0..<j])\<rparr>"
  have "spsc_step ?s (?s\<lparr>sp_consumer := CCopy n (map (slot_read (sp_queue s)) [0..<j] @ [slot_read (sp_queue s) j])\<rparr>)"
    using spsc_step.pop_copy [of ?s n "map (slot_read (sp_queue s)) [0..<j]"] Suc.prems by simp
  then show ?case using Suc by (auto intro: rtranclp.rtrancl_into_rtrancl)
qed

lemma drain_runs:
  assumes inv: "spsc_inv s" and idle: "sp_consumer s = CIdle" and m: "0 < max_count"
  obtains q where "drain (sp_queue s) max_count = Some (take max_count (drop (length (sp_popped s)) (sp_pushed s)), q)"
    "spsc_steps s (s\<lparr>sp_seen_tail := sq_tail (sp_queue s), sp_queue := q, sp_consumer := CIdle,
       sp_popped := sp_popped s @ take max_count (drop (length (sp_popped s)) (sp_pushed s))\<rparr>)"
proof -
  let ?q = "sp_queue s"
  let ?s1 = "s\<lparr>sp_seen_tail := sq_tail ?q\<rparr>"
  have s1: "spsc_step s ?s1" by (rule spsc_step.consumer_sees)
  obtain PH CT where S: "shape_ok s" and I: "indices_ok s PH CT" and items: "items_ok s" using inv by (auto simp: spsc_inv_def)
  have I': "indices_ok ?s1 PH (length (sp_pushed s))" and S': "shape_ok ?s1" using I S by (auto simp: indices_ok_def)
  have le: "length (sp_popped s) \<le> length (sp_pushed s)" "length (sp_pushed s) \<le> length (sp_popped s) + cap_of s" using I by (auto simp: indices_ok_def)
  have av: "unat (sq_tail ?q - sq_head ?q) = length (sp_pushed s) - length (sp_popped s)" using pop_room [OF S' I'] by simp
  define n where "n = min (unat (sq_tail ?q - sq_head ?q)) max_count"
  let ?xs = "take max_count (drop (length (sp_popped s)) (sp_pushed s))"
  have nc: "n \<le> cap_of s" using av le by (simp add: n_def)
  have xs: "map (slot_read ?q) [0..<n] = ?xs"
  proof (rule nth_equalityI)
    show "length (map (slot_read ?q) [0..<n]) = length ?xs" using av by (simp add: n_def)
    fix i assume "i < length (map (slot_read ?q) [0..<n])"
    then have i: "i < n" by simp
    then have "length (sp_popped s) + i < length (sp_pushed s)" using av le by (auto simp: n_def)
    then have "slot_read ?q i = sp_pushed s ! (length (sp_popped s) + i)"
      unfolding slot_read_spec [OF S I] using items av by (simp add: items_ok_def n_def)
    then show "map (slot_read ?q) [0..<n] ! i = ?xs ! i" using i av le by (simp add: n_def)
  qed
  let ?q2 = "?q\<lparr>sq_head := sq_head ?q + of_nat n\<rparr>"
  have d: "drain ?q max_count = Some (?xs, ?q2)"
  proof (cases "sq_head ?q = sq_tail ?q")
    case True
    then have "n = 0" by (simp add: n_def)
    then show ?thesis using True m xs by (simp add: drain_def Let_def)
  next
    case False
    then show ?thesis using drain_copies [OF S nc] m by (auto simp: drain_def Let_def n_def [symmetric] xs)
  qed
  have "spsc_step ?s1 (?s1\<lparr>sp_consumer := CCopy n []\<rparr>)" by (rule spsc_step.drain_begin [where max_count = max_count]) (use idle in \<open>simp_all add: n_def\<close>)
  moreover have "spsc_steps (?s1\<lparr>sp_consumer := CCopy n []\<rparr>) (?s1\<lparr>sp_consumer := CCopy n ?xs\<rparr>)"
    using copy_steps [of "?s1\<lparr>sp_consumer := CCopy n []\<rparr>" n n] xs by simp
  moreover have "spsc_step (?s1\<lparr>sp_consumer := CCopy n ?xs\<rparr>)
      (s\<lparr>sp_seen_tail := sq_tail ?q, sp_queue := ?q2, sp_consumer := CIdle, sp_popped := sp_popped s @ ?xs\<rparr>)"
    using spsc_step.pop_release [of "?s1\<lparr>sp_consumer := CCopy n ?xs\<rparr>" n ?xs] av by (simp add: n_def)
  ultimately have "spsc_steps s (s\<lparr>sp_seen_tail := sq_tail ?q, sp_queue := ?q2, sp_consumer := CIdle, sp_popped := sp_popped s @ ?xs\<rparr>)"
    using s1 by (meson converse_rtranclp_into_rtranclp rtranclp.rtrancl_into_rtrancl rtranclp_trans)
  then show thesis using that d by blast
qed

lemma try_pop_runs:
  assumes inv: "spsc_inv s" and idle: "sp_consumer s = CIdle"
  obtains (empty) "try_pop (sp_queue s) = Some (None, sp_queue s)" "sp_popped s = sp_pushed s"
  | (popped) v q where "try_pop (sp_queue s) = Some (Some v, q)" "length (sp_popped s) < length (sp_pushed s)"
      "v = sp_pushed s ! length (sp_popped s)"
      "spsc_steps s (s\<lparr>sp_seen_tail := sq_tail (sp_queue s), sp_queue := q, sp_consumer := CIdle, sp_popped := sp_popped s @ [v]\<rparr>)"
proof -
  let ?q = "sp_queue s" and ?s1 = "s\<lparr>sp_seen_tail := sq_tail (sp_queue s)\<rparr>"
  have s1: "spsc_step s ?s1" by (rule spsc_step.consumer_sees)
  obtain PH CT where S: "shape_ok s" and I: "indices_ok s PH CT" and items: "items_ok s" using inv by (auto simp: spsc_inv_def)
  have I': "indices_ok ?s1 PH (length (sp_pushed s))" and S': "shape_ok ?s1" using I S by (auto simp: indices_ok_def)
  have le: "length (sp_popped s) \<le> length (sp_pushed s)" using I by (auto simp: indices_ok_def)
  have av: "unat (sq_tail ?q - sq_head ?q) = length (sp_pushed s) - length (sp_popped s)" using pop_room [OF S' I'] by simp
  show thesis
  proof (cases "sq_head ?q = sq_tail ?q")
    case True
    then have "length (sp_popped s) = length (sp_pushed s)" using av le by simp
    then have "sp_popped s = sp_pushed s" using items by (simp add: items_ok_def)
    then show thesis using empty True by (simp add: try_pop_def Let_def)
  next
    case False
    then have lt: "length (sp_popped s) < length (sp_pushed s)" using av le by (metis eq_iff_diff_eq_0 le_neq_implies_less cancel_comm_monoid_add_class.diff_cancel unat_eq_zero)
    let ?v = "slot_read ?q 0" and ?q2 = "?q\<lparr>sq_head := sq_head ?q + 1\<rparr>"
    have v: "?v = sp_pushed s ! length (sp_popped s)"
      unfolding slot_read_spec [OF S I] using items lt by (simp add: items_ok_def)
    have t: "try_pop ?q = Some (Some ?v, ?q2)"
      using False head_slot_less [OF inv, of "sq_head ?q"] by (simp add: try_pop_def Let_def arr_get_def slot_read_def)
    let ?s2 = "?s1\<lparr>sp_consumer := CCopy 1 []\<rparr>" and ?s3 = "?s1\<lparr>sp_consumer := CCopy 1 [?v]\<rparr>"
    have "spsc_step ?s1 ?s2" by (rule spsc_step.pop_begin) (use False idle in simp_all)
    moreover have "spsc_step ?s2 ?s3" using spsc_step.pop_copy [of ?s2 1 "[]"] by simp
    moreover have "spsc_step ?s3 (s\<lparr>sp_seen_tail := sq_tail ?q, sp_queue := ?q2, sp_consumer := CIdle, sp_popped := sp_popped s @ [?v]\<rparr>)"
      using spsc_step.pop_release [of ?s3 1 "[?v]"] by simp
    ultimately have "spsc_steps s (s\<lparr>sp_seen_tail := sq_tail ?q, sp_queue := ?q2, sp_consumer := CIdle, sp_popped := sp_popped s @ [?v]\<rparr>)"
      using s1 by (meson converse_rtranclp_into_rtranclp r_into_rtranclp)
    then show thesis using popped t lt v by blast
  qed
qed

text \<open>The queue after \<open>i\<close> rounds of the copy loop of a batch.\<close>

primrec copied :: "'a list \<Rightarrow> nat \<Rightarrow> 'a SPSCQueue \<Rightarrow> 'a SPSCQueue" where
  "copied ys 0 q = q"
| "copied ys (Suc i) q = copy_in (copied ys i q) i (ys ! i)"

lemma copied_shape:
  "sq_mask (copied ys i q) = sq_mask q" "sq_tail (copied ys i q) = sq_tail q" "sq_head (copied ys i q) = sq_head q"
  "sq_capacity (copied ys i q) = sq_capacity q" "length (sq_buf (copied ys i q)) = length (sq_buf q)"
  by (induction i) (simp_all add: copy_in_def)

lemma batch_steps:
  assumes "sp_producer s = PCopy ys 0" "i \<le> length ys"
  shows "spsc_steps s (s\<lparr>sp_queue := copied ys i (sp_queue s), sp_producer := PCopy ys i\<rparr>)"
  using assms(2)
proof (induction i)
  case 0
  have "s\<lparr>sp_queue := sp_queue s, sp_producer := PCopy ys 0\<rparr> = s" using assms(1) by (cases s) simp
  then show ?case by simp
next
  case (Suc i)
  let ?s = "s\<lparr>sp_queue := copied ys i (sp_queue s), sp_producer := PCopy ys i\<rparr>"
  have "spsc_step ?s (s\<lparr>sp_queue := copied ys (Suc i) (sp_queue s), sp_producer := PCopy ys (Suc i)\<rparr>)"
    using spsc_step.push_copy [of ?s ys i] Suc.prems by simp
  then show ?case using Suc by (auto intro: rtranclp.rtrancl_into_rtrancl)
qed

lemma push_loop_copied:
  assumes "\<And>x. unat (x AND sq_mask q) < length (sq_buf q)" "i \<le> length ys"
  shows "push_loop (sq_tail q) (sq_mask q) (of_nat i) (drop i ys) (sq_buf (copied ys i q)) = Some (sq_buf (copied ys (length ys) q))"
  using assms(2)
proof (induction rule: inc_induct)
  case base
  then show ?case by simp
next
  case (step i)
  have d: "drop i ys = ys ! i # drop (Suc i) ys" using step.hyps by (simp add: Cons_nth_drop_Suc)
  have "sq_buf (copied ys (Suc i) q) = (sq_buf (copied ys i q))[unat ((sq_tail q + of_nat i) AND sq_mask q) := ys ! i]"
    by (simp add: copy_in_def copied_shape)
  then show ?case using step.IH assms(1) [of "sq_tail q + of_nat i"] unfolding d
    by (simp add: arr_upd_def copied_shape add.commute [of _ 1])
qed

lemma try_push_batch_runs:
  assumes inv: "spsc_inv s" and idle: "sp_producer s = PIdle"
  obtains q n where "n = min (length items) (length (sp_popped s) + cap_of s - length (sp_pushed s))"
    "try_push_batch (sp_queue s) items = Some (n, q)"
    "spsc_steps s (s\<lparr>sp_seen_head := sq_head (sp_queue s), sp_queue := q, sp_producer := PIdle, sp_pushed := sp_pushed s @ take n items\<rparr>)"
proof -
  let ?q = "sp_queue s"
  let ?s1 = "s\<lparr>sp_seen_head := sq_head ?q\<rparr>"
  have s1: "spsc_step s ?s1" by (rule spsc_step.producer_sees)
  obtain PH CT where S: "shape_ok s" and I: "indices_ok s PH CT" using inv by (auto simp: spsc_inv_def)
  have I': "indices_ok ?s1 (length (sp_popped s)) CT" and S': "shape_ok ?s1" using I S by (auto simp: indices_ok_def)
  define n where "n = min (length items) (unat (sq_capacity ?q - (sq_tail ?q - sq_head ?q)))"
  have n: "n = min (length items) (length (sp_popped s) + cap_of s - length (sp_pushed s))"
    using push_room(2) [OF S' I'] by (simp add: n_def)
  have n32: "unat (of_nat n :: u32) = n"
    using unat_less_exp [of "sq_capacity ?q - (sq_tail ?q - sq_head ?q)"] by (simp add: n_def unat_of_nat)
  let ?ys = "take n items"
  have len: "length ?ys = n" by (simp add: n_def)
  let ?q2 = "(copied ?ys n ?q)\<lparr>sq_tail := sq_tail ?q + of_nat n\<rparr>"
  have loop: "push_loop (sq_tail ?q) (sq_mask ?q) 0 ?ys (sq_buf ?q) = Some (sq_buf (copied ?ys n ?q))"
    using push_loop_copied [of ?q 0 ?ys] head_slot_less [OF inv] len by simp
  have q2: "?q\<lparr>sq_buf := sq_buf (copied ?ys n ?q), sq_tail := sq_tail ?q + of_nat n\<rparr> = ?q2"
    by (rule SPSCQueue.equality) (simp_all add: copied_shape)
  have q0: "?q\<lparr>sq_buf := sq_buf (copied ?ys n ?q)\<rparr> = ?q2" if "n = 0" using that by simp
  have t: "try_push_batch ?q items = Some (n, ?q2)"
  proof (cases "n = 0")
    case True
    then show ?thesis using loop q0 n32 by (simp add: try_push_batch_def Let_def n_def [symmetric])
  next
    case False
    then have "(of_nat n :: u32) > 0" using n32 by (simp add: word_gt_0 word_unat_eq_iff)
    then show ?thesis using loop q2 n32 by (simp add: try_push_batch_def Let_def n_def [symmetric])
  qed
  let ?s2 = "?s1\<lparr>sp_producer := PCopy ?ys 0\<rparr>" and ?s3 = "?s1\<lparr>sp_queue := copied ?ys n ?q, sp_producer := PCopy ?ys n\<rparr>"
  have "spsc_step ?s1 ?s2" by (rule spsc_step.batch_begin) (use idle in \<open>simp_all add: n_def\<close>)
  moreover have "spsc_steps ?s2 ?s3" using batch_steps [of ?s2 ?ys n] len by simp
  moreover have "spsc_step ?s3 (s\<lparr>sp_seen_head := sq_head ?q, sp_queue := ?q2, sp_producer := PIdle, sp_pushed := sp_pushed s @ ?ys\<rparr>)"
    using spsc_step.push_publish [of ?s3 ?ys] len by (simp add: copied_shape)
  ultimately have "spsc_steps s (s\<lparr>sp_seen_head := sq_head ?q, sp_queue := ?q2, sp_producer := PIdle, sp_pushed := sp_pushed s @ ?ys\<rparr>)"
    using s1 by (meson converse_rtranclp_into_rtranclp rtranclp.rtrancl_into_rtrancl rtranclp_trans)
  then show thesis using that n t by blast
qed

section \<open>Properties\<close>

lemma reachable_inv:
  assumes "sq_create sz al buf contents bytes cap = Some (Some q)" "unat cap \<le> length contents" "spsc_steps (spsc_start q) s"
  shows "spsc_inv s" "cap_of s = unat cap"
proof -
  have c: "sq_construct sz al buf contents bytes cap = Some q"
    using assms(1) by (auto simp: sq_create_def split: if_splits)
  show "spsc_inv s" by (rule spsc_steps_inv [OF assms(3) spsc_start_inv [OF c assms(2)]])
  have "sq_capacity (sp_queue s) = sq_capacity q"
    using assms(3)
  proof (induction rule: rtranclp_induct)
    case base
    then show ?case by (simp add: spsc_start_def)
  next
    case (step y z)
    then show ?case by (auto elim!: spsc_stepE simp: copy_in_def)
  qed
  then show "cap_of s = unat cap" using c by (auto simp: cap_of_def sq_construct_def elim!: bind_eq_SomeE)
qed

text \<open>
  C33. In every interleaving of a producer and a consumer, with indices that wrap and with
  stale views of the other thread's index, the items taken are the items published, in order
  and without loss or repetition; at most the capacity is in flight; and the two threads
  never access the same slot of the element buffer at once.
\<close>

theorem spsc_queue_concurrent:
  assumes "sq_create sz al buf contents bytes cap = Some (Some q)" "unat cap \<le> length contents" "spsc_steps (spsc_start q) s"
  shows "sp_popped s = take (length (sp_popped s)) (sp_pushed s) \<and>
    length (sp_popped s) \<le> length (sp_pushed s) \<and> length (sp_pushed s) \<le> length (sp_popped s) + unat cap \<and> \<not> spsc_race s"
proof -
  note R = reachable_inv [OF assms]
  show ?thesis using R spsc_no_race [OF R(1)] by (auto simp: spsc_inv_def items_ok_def indices_ok_def)
qed

lemma small_queue:
  obtains q where "sq_create 8 8 4096 [0, 0 :: nat] 16 2 = Some (Some q)" "spsc_inv (spsc_start q)" "cap_of (spsc_start q) = 2"
proof -
  have "is_power_of_two 2" unfolding is_power_of_two_iff by (intro exI [of _ 1]) simp
  then have v: "sq_is_valid_capacity 2" by (simp add: sq_is_valid_capacity_def)
  then obtain q where c: "sq_construct 8 8 4096 [0, 0 :: nat] 16 2 = Some q" "sq_create 8 8 4096 [0, 0 :: nat] 16 2 = Some (Some q)"
    by (simp add: sq_create_def sq_construct_def sq_required_buffer_size_def)
  have "spsc_inv (spsc_start q)" by (rule spsc_start_inv [OF c(1)]) simp
  moreover have "cap_of (spsc_start q) = 2"
    using c(1) by (auto simp: cap_of_def spsc_start_def sq_construct_def elim!: bind_eq_SomeE)
  ultimately show thesis using that c(2) by blast
qed

theorem spsc_queue_concurrent_witness:
  "\<exists>q s. sq_create 8 8 4096 [0, 0 :: nat] 16 2 = Some (Some q) \<and> spsc_steps (spsc_start q) s \<and> sp_pushed s = [7] \<and>
     sp_popped s = take (length (sp_popped s)) [7] \<and> \<not> spsc_race s"
proof -
  obtain q where q: "sq_create 8 8 4096 [0, 0 :: nat] 16 2 = Some (Some q)" "spsc_inv (spsc_start q)" "cap_of (spsc_start q) = 2"
    by (rule small_queue)
  have idle: "sp_producer (spsc_start q) = PIdle" by (simp add: spsc_start_def)
  obtain q2 where st: "spsc_steps (spsc_start q) ((spsc_start q)\<lparr>sp_seen_head := sq_head (sp_queue (spsc_start q)), sp_queue := q2,
      sp_producer := PIdle, sp_pushed := sp_pushed (spsc_start q) @ [7]\<rparr>)"
    using q(2) idle
  proof (cases rule: try_push_runs [where v = 7])
    case full
    then show ?thesis using q(3) by (simp add: spsc_start_def)
  next
    case (pushed q2)
    then show ?thesis using that by blast
  qed
  let ?s = "(spsc_start q)\<lparr>sp_seen_head := sq_head (sp_queue (spsc_start q)), sp_queue := q2,
      sp_producer := PIdle, sp_pushed := sp_pushed (spsc_start q) @ [7]\<rparr>"
  have p: "sp_pushed ?s = [7]" by (simp add: spsc_start_def)
  have "sp_popped ?s = take (length (sp_popped ?s)) (sp_pushed ?s) \<and> length (sp_popped ?s) \<le> length (sp_pushed ?s) \<and>
      length (sp_pushed ?s) \<le> length (sp_popped ?s) + unat (2 :: u32) \<and> \<not> spsc_race ?s"
    by (rule spsc_queue_concurrent [OF q(1) _ st]) simp
  then have "sp_popped ?s = take (length (sp_popped ?s)) [7] \<and> \<not> spsc_race ?s" unfolding p by blast
  then show ?thesis using q(1) st p by blast
qed

text \<open>
  Between operations, a push succeeds exactly while fewer items than the capacity are in
  flight, a batch push takes as many items as fit, a pop returns the oldest item in flight if
  there is one, and a drain the oldest ones in order up to its limit.
\<close>

theorem spsc_operations:
  assumes "sq_create sz al buf contents bytes cap = Some (Some q)" "unat cap \<le> length contents" "spsc_steps (spsc_start q) s"
    and "sp_producer s = PIdle" "sp_consumer s = CIdle" "flight = drop (length (sp_popped s)) (sp_pushed s)"
  shows "(\<exists>q'. try_push (sp_queue s) v = Some (length flight < unat cap, q')) \<and>
    (\<exists>q'. try_push_batch (sp_queue s) items = Some (min (length items) (unat cap - length flight), q')) \<and>
    (\<exists>q'. try_pop (sp_queue s) = Some (if flight = [] then None else Some (hd flight), q')) \<and>
    (\<exists>q'. drain (sp_queue s) (Suc m) = Some (take (Suc m) flight, q'))"
proof -
  note R = reachable_inv [OF assms(1-3)]
  have le: "length (sp_popped s) \<le> length (sp_pushed s)" using R(1) by (auto simp: spsc_inv_def indices_ok_def)
  have push: "\<exists>q'. try_push (sp_queue s) v = Some (length flight < unat cap, q')"
    using R(1) assms(4) by (cases rule: try_push_runs [where v = v]) (use R(2) le assms(6) in auto)
  have batch: "\<exists>q'. try_push_batch (sp_queue s) items = Some (min (length items) (unat cap - length flight), q')"
    by (rule try_push_batch_runs [OF R(1) assms(4), of items]) (use R(2) le assms(6) in \<open>auto simp: add.commute\<close>)
  have pop: "\<exists>q'. try_pop (sp_queue s) = Some (if flight = [] then None else Some (hd flight), q')"
    using R(1) assms(5) by (cases rule: try_pop_runs) (use assms(6) in \<open>auto simp: hd_drop_conv_nth\<close>)
  have drn: "\<exists>q'. drain (sp_queue s) (Suc m) = Some (take (Suc m) flight, q')"
    by (rule drain_runs [OF R(1) assms(5) zero_less_Suc, of m]) (use assms(6) in auto)
  show ?thesis using push batch pop drn by blast
qed

theorem spsc_operations_witness:
  "\<exists>q. sq_create 8 8 4096 [0, 0 :: nat] 16 2 = Some (Some q) \<and> (\<exists>q'. try_push q 7 = Some (True, q')) \<and>
     (\<exists>q'. try_push_batch q [1, 2, 3] = Some (Suc (Suc 0), q')) \<and> (\<exists>q'. try_pop q = Some (None, q'))"
proof -
  obtain q where q: "sq_create 8 8 4096 [0, 0 :: nat] 16 2 = Some (Some q)" by (rule small_queue)
  have s: "sp_producer (spsc_start q) = PIdle" "sp_consumer (spsc_start q) = CIdle" "sp_queue (spsc_start q) = q"
    "[] = drop (length (sp_popped (spsc_start q))) (sp_pushed (spsc_start q))"
    by (simp_all add: spsc_start_def)
  show ?thesis
    using spsc_operations [OF q _ rtranclp.rtrancl_refl s(1,2,4), of 7 "[1, 2, 3]" 0] q s(3) by simp
qed

end
