(* ===== verification/Feed.thy ===== *)
theory Feed
  imports OrderManagerOps SpscQueue
begin

text \<open>
  The market data side of \<^verbatim>\<open>apps/tick_to_trade\<close>: the feed handler with its sequence check
  (\<^verbatim>\<open>feed_handler.hpp\<close>), the spread strategy (\<^verbatim>\<open>spread_strategy.hpp\<close>) and the receive loop
  that pushes parsed updates to the strategy thread (\<^verbatim>\<open>md_feed_thread.hpp\<close>). Clock readings
  and datagrams are arguments; logging and latency recording are left out.
\<close>

section \<open>Feed handler\<close>

record FeedHandler =
  fh_initialized :: bool
  fh_expected_seq :: u64
  fh_gap_count :: u64
  fh_duplicate_count :: u64
  fh_parse_errors :: u64
  fh_total_updates :: u64

definition FeedHandler_init :: FeedHandler where
  "FeedHandler_init = \<lparr>fh_initialized = False, fh_expected_seq = 0, fh_gap_count = 0, fh_duplicate_count = 0,
     fh_parse_errors = 0, fh_total_updates = 0\<rparr>"

text \<open>The update is the output argument, present when the call returns true.\<close>

definition on_udp_data :: "endian \<Rightarrow> FeedHandler \<Rightarrow> u8 list \<Rightarrow> (MarketDataUpdate option \<times> FeedHandler) outcome" where
  "on_udp_data en f buf = do {
     parsed \<leftarrow> deserialize_market_data en buf;
     case parsed of
       None \<Rightarrow> Some (None, f\<lparr>fh_parse_errors := fh_parse_errors f + 1\<rparr>)
     | Some out \<Rightarrow>
         if \<not> fh_initialized f then
           Some (Some out, f\<lparr>fh_initialized := True, fh_expected_seq := md_seq_num out + 1, fh_total_updates := fh_total_updates f + 1\<rparr>)
         else do {
           let f = (if md_seq_num out \<noteq> fh_expected_seq f \<and> md_seq_num out > fh_expected_seq f
                    then f\<lparr>fh_gap_count := fh_gap_count f + (md_seq_num out - fh_expected_seq f)\<rparr> else f);
           if md_seq_num out \<noteq> fh_expected_seq f \<and> md_seq_num out < fh_expected_seq f
           then Some (None, f\<lparr>fh_duplicate_count := fh_duplicate_count f + 1\<rparr>)
           else Some (Some out, f\<lparr>fh_expected_seq := md_seq_num out + 1, fh_total_updates := fh_total_updates f + 1\<rparr>)
         }
   }"

section \<open>Spread strategy\<close>

record SymbolBBO =
  bbo_best_bid :: Price
  bbo_best_ask :: Price
  bbo_has_bid :: bool
  bbo_has_ask :: bool
  bbo_buy_next :: bool

record SpreadStrategy =
  ss_spread_threshold :: Price
  ss_default_qty :: Qty
  ss_bbo :: "SymbolBBO list"
  ss_signals_generated :: u64

definition SymbolBBO_init :: SymbolBBO where
  "SymbolBBO_init = \<lparr>bbo_best_bid = 0, bbo_best_ask = 0, bbo_has_bid = False, bbo_has_ask = False, bbo_buy_next = True\<rparr>"

text \<open>\<open>NSymbols\<close> is the template argument.\<close>

definition SpreadStrategy_init :: "u32 \<Rightarrow> Price \<Rightarrow> Qty \<Rightarrow> SpreadStrategy" where
  "SpreadStrategy_init NSymbols spread_threshold default_qty =
     \<lparr>ss_spread_threshold = spread_threshold, ss_default_qty = default_qty,
      ss_bbo = replicate (unat NSymbols) SymbolBBO_init, ss_signals_generated = 0\<rparr>"

definition update_bbo :: "SymbolBBO \<Rightarrow> MarketDataUpdate \<Rightarrow> SymbolBBO" where
  "update_bbo bbo update =
    (if md_side update = Side_code kBid then bbo\<lparr>bbo_best_bid := md_price update, bbo_has_bid := True\<rparr>
     else bbo\<lparr>bbo_best_ask := md_price update, bbo_has_ask := True\<rparr>)"

definition on_market_data :: "u32 \<Rightarrow> SpreadStrategy \<Rightarrow> MarketDataUpdate \<Rightarrow> (Signal option \<times> SpreadStrategy) outcome" where
  "on_market_data NSymbols st update =
    (if md_msg_type update \<noteq> MdMsgType_code kBBOUpdate then Some (None, st)
     else if md_symbol_id update = 0 \<or> md_symbol_id update > NSymbols then Some (None, st)
     else do {
       let idx = unat (md_symbol_id update - 1);
       bbos \<leftarrow> arr_upd (ss_bbo st) idx (\<lambda>bbo. update_bbo bbo update);
       let st = st\<lparr>ss_bbo := bbos\<rparr>;
       let bbo = bbos ! idx;
       if \<not> bbo_has_bid bbo \<or> \<not> bbo_has_ask bbo then Some (None, st)
       else if sint (bbo_best_ask bbo) \<le> sint (bbo_best_bid bbo) then Some (None, st)
       else do {
         spread \<leftarrow> i64_of (sint (bbo_best_ask bbo) - sint (bbo_best_bid bbo));
         if sint spread > sint (ss_spread_threshold st) then do {
           let side = (if bbo_buy_next bbo then kBid else kAsk);
           Some (Some \<lparr>sig_side = side, sig_price = (if side = kBid then bbo_best_ask bbo else bbo_best_bid bbo),
                       sig_qty = ss_default_qty st, sig_symbol_id = md_symbol_id update\<rparr>,
                 st\<lparr>ss_bbo := bbos[idx := bbo\<lparr>bbo_buy_next := \<not> bbo_buy_next bbo\<rparr>],
                    ss_signals_generated := ss_signals_generated st + 1\<rparr>)
         } else Some (None, st)
       }
     })"

definition strategy_best_bid :: "SpreadStrategy \<Rightarrow> u32 \<Rightarrow> Price outcome" where
  "strategy_best_bid st symbol_id = map_option bbo_best_bid (arr_get (ss_bbo st) (unat (symbol_id - 1)))"

definition strategy_best_ask :: "SpreadStrategy \<Rightarrow> u32 \<Rightarrow> Price outcome" where
  "strategy_best_ask st symbol_id = map_option bbo_best_ask (arr_get (ss_bbo st) (unat (symbol_id - 1)))"

definition strategy_spread :: "SpreadStrategy \<Rightarrow> u32 \<Rightarrow> Price outcome" where
  "strategy_spread st symbol_id = do {
     bbo \<leftarrow> arr_get (ss_bbo st) (unat (symbol_id - 1));
     if \<not> bbo_has_bid bbo \<or> \<not> bbo_has_ask bbo then Some 0
     else i64_of (sint (bbo_best_ask bbo) - sint (bbo_best_bid bbo))
   }"

section \<open>Receive loop\<close>

record QueuedUpdate =
  qu_update :: MarketDataUpdate
  qu_recv_tsc :: u64
  qu_kernel_recv_ns :: i64

type_synonym MdToStrategyQueue = "QueuedUpdate SPSCQueue"

record MdStats =
  ms_packets :: u64
  ms_bytes :: u64
  ms_recv_batch_full :: u64
  ms_queue_drops :: u64

text \<open>A datagram as \<^verbatim>\<open>recvmmsg\<close> delivers it, with the two time stamps taken for it.\<close>

record Datagram =
  dg_bytes :: "u8 list"
  dg_tsc :: u64
  dg_kernel_recv_ns :: i64

record MdFeed =
  mf_feed_handler :: FeedHandler
  mf_queue :: MdToStrategyQueue
  mf_stats :: MdStats

definition md_datagram :: "endian \<Rightarrow> u32 \<Rightarrow> MdFeed \<Rightarrow> Datagram \<Rightarrow> MdFeed outcome" where
  "md_datagram en max_symbols m d = do {
     (parsed, f) \<leftarrow> on_udp_data en (mf_feed_handler m) (dg_bytes d);
     let m = m\<lparr>mf_feed_handler := f\<rparr>;
     case parsed of
       None \<Rightarrow> Some m
     | Some update \<Rightarrow>
         if md_symbol_id update = 0 \<or> md_symbol_id update > max_symbols then Some m
         else do {
           (pushed, q) \<leftarrow> try_push (mf_queue m)
             \<lparr>qu_update = update, qu_recv_tsc = dg_tsc d, qu_kernel_recv_ns = dg_kernel_recv_ns d\<rparr>;
           let m = m\<lparr>mf_queue := q\<rparr>;
           Some (if pushed then m
                 else m\<lparr>mf_stats := mf_stats m\<lparr>ms_queue_drops := ms_queue_drops (mf_stats m) + 1\<rparr>\<rparr>)
         }
   }"

fun md_datagrams :: "endian \<Rightarrow> u32 \<Rightarrow> MdFeed \<Rightarrow> Datagram list \<Rightarrow> MdFeed outcome" where
  "md_datagrams en max_symbols m [] = Some m"
| "md_datagrams en max_symbols m (d # ds) = do { m \<leftarrow> md_datagram en max_symbols m d; md_datagrams en max_symbols m ds }"

definition md_batch :: "endian \<Rightarrow> u32 \<Rightarrow> nat \<Rightarrow> MdFeed \<Rightarrow> Datagram list \<Rightarrow> MdFeed outcome" where
  "md_batch en max_symbols batch_size m ds =
    (let st = mf_stats m;
         st = st\<lparr>ms_packets := ms_packets st + of_nat (length ds)\<rparr>;
         st = (if length ds = batch_size then st\<lparr>ms_recv_batch_full := ms_recv_batch_full st + 1\<rparr> else st);
         st = st\<lparr>ms_bytes := ms_bytes st + of_nat (sum_list (map (length \<circ> dg_bytes) ds))\<rparr>
     in md_datagrams en max_symbols (m\<lparr>mf_stats := st\<rparr>) ds)"

text \<open>
  The drain of a readable socket: the list holds what successive calls of \<^verbatim>\<open>recvmmsg\<close> return,
  an empty batch (nothing left, or an error) ends it.
\<close>

fun md_drain :: "endian \<Rightarrow> u32 \<Rightarrow> nat \<Rightarrow> MdFeed \<Rightarrow> Datagram list list \<Rightarrow> (MdFeed \<times> Datagram list list) outcome" where
  "md_drain en max_symbols batch_size m [] = None"
| "md_drain en max_symbols batch_size m (b # bs) =
    (if b = [] then Some (m, bs)
     else do { m \<leftarrow> md_batch en max_symbols batch_size m b; md_drain en max_symbols batch_size m bs })"

section \<open>Sequence accounting\<close>

text \<open>The updates that a sequence of datagrams delivers.\<close>

fun feed_run :: "endian \<Rightarrow> u8 list list \<Rightarrow> FeedHandler \<Rightarrow> (MarketDataUpdate list \<times> FeedHandler) outcome" where
  "feed_run en [] f = Some ([], f)"
| "feed_run en (b # bs) f = do {
     (r, f) \<leftarrow> on_udp_data en f b;
     (us, f) \<leftarrow> feed_run en bs f;
     Some ((case r of None \<Rightarrow> us | Some u \<Rightarrow> u # us), f)
   }"

text \<open>The datagram does not carry the last sequence number, after which the counter wraps.\<close>

definition seq_in_range :: "endian \<Rightarrow> u8 list \<Rightarrow> bool" where
  "seq_in_range en b \<longleftrightarrow> (case deserialize_market_data en b of Some (Some m) \<Rightarrow> md_seq_num m + 1 \<noteq> 0 | _ \<Rightarrow> True)"

lemma deserialize_market_data_total: "\<exists>r. deserialize_market_data en b = Some r"
proof (cases "length b = 34")
  case True
  then obtain m where "b = wire_market_data m" using wire_market_data_onto by blast
  then show ?thesis using market_data_codec.des_wire by metis
qed (simp add: deserialize_market_data_def kMarketDataWireSize_def)

text \<open>What the counters say after the updates \<open>us\<close> were delivered.\<close>

definition feed_ok :: "MarketDataUpdate list \<Rightarrow> FeedHandler \<Rightarrow> bool" where
  "feed_ok us f \<longleftrightarrow> sorted_wrt (<) (map md_seq_num us) \<and> fh_initialized f = (us \<noteq> []) \<and> unat (fh_total_updates f) = length us \<and>
     (if us = [] then fh_gap_count f = 0
      else fh_expected_seq f = md_seq_num (last us) + 1 \<and> md_seq_num (last us) + 1 \<noteq> 0 \<and>
        unat (fh_expected_seq f) = unat (md_seq_num (hd us)) + unat (fh_gap_count f) + length us)"

lemma feed_ok_frame [simp]:
  "feed_ok us (f\<lparr>fh_parse_errors := x\<rparr>) = feed_ok us f" "feed_ok us (f\<lparr>fh_duplicate_count := x\<rparr>) = feed_ok us f"
  by (simp_all add: feed_ok_def)

lemma unat_succ: "x + 1 \<noteq> 0 \<Longrightarrow> unat (x + 1) = unat x + 1" for x :: u64
  using unatSuc [of x] by (simp add: add.commute)

lemma on_udp_data_ok:
  assumes ok: "feed_ok us f" and b: "seq_in_range en b"
  obtains r f' where "on_udp_data en f b = Some (r, f')" "feed_ok (us @ (case r of None \<Rightarrow> [] | Some u \<Rightarrow> [u])) f'"
    "fh_parse_errors f' + fh_duplicate_count f' + fh_total_updates f' = fh_parse_errors f + fh_duplicate_count f + fh_total_updates f + 1"
proof -
  obtain d where d: "deserialize_market_data en b = Some d" using deserialize_market_data_total by blast
  show thesis
  proof (cases d)
    case None
    then show thesis using that [of None "f\<lparr>fh_parse_errors := fh_parse_errors f + 1\<rparr>"] d ok
      by (simp add: on_udp_data_def)
  next
    case (Some m)
    have m: "md_seq_num m + 1 \<noteq> 0" using b d Some by (simp add: seq_in_range_def)
    note mu = unat_succ [OF m]
    show thesis
    proof (cases "us = []")
      case True
      then have "fh_total_updates f = 0" "\<not> fh_initialized f" "fh_gap_count f = 0" using ok by (auto simp: feed_ok_def unat_eq_zero)
      then show thesis using that [of "Some m" "f\<lparr>fh_initialized := True, fh_expected_seq := md_seq_num m + 1, fh_total_updates := 1\<rparr>"]
          d Some True m mu by (simp add: on_udp_data_def feed_ok_def)
    next
      case False
      let ?e = "fh_expected_seq f" and ?q = "md_seq_num m"
      have f: "fh_initialized f" "?e = md_seq_num (last us) + 1" "md_seq_num (last us) + 1 \<noteq> 0" "unat (fh_total_updates f) = length us"
        "unat ?e = unat (md_seq_num (hd us)) + unat (fh_gap_count f) + length us" "sorted_wrt (<) (map md_seq_num us)"
        using ok False unfolding feed_ok_def by meson+
      show thesis
      proof (cases "?q < ?e")
        case True
        then have "on_udp_data en f b = Some (None, f\<lparr>fh_duplicate_count := fh_duplicate_count f + 1\<rparr>)"
          using d Some f(1) by (auto simp: on_udp_data_def Let_def)
        then show thesis using that ok by simp
      next
        case ge: False
        define f' where "f' = f\<lparr>fh_gap_count := fh_gap_count f + (?q - ?e), fh_expected_seq := ?q + 1, fh_total_updates := fh_total_updates f + 1\<rparr>"
        have r: "on_udp_data en f b = Some (Some m, f')"
          using d Some f(1) ge by (auto simp: on_udp_data_def Let_def f'_def not_less)
        have lt: "unat ?q < 2 ^ 64 - 1" using mu unat_less_exp [of "?q + 1"] by simp
        have sub: "unat (?q - ?e) = unat ?q - unat ?e" using ge by (intro unat_sub) simp
        have le: "unat ?e \<le> unat ?q" using ge by (simp add: word_le_nat_alt not_less)
        have gap: "unat (fh_gap_count f + (?q - ?e)) = unat (fh_gap_count f) + unat (?q - ?e)"
          by (rule unat_add_lem [THEN iffD1]) (use sub le f(5) lt in simp)
        have tot: "unat (fh_total_updates f + 1) = length us + 1"
        proof -
          have "length us < 2 ^ 64 - 1" using f(5) le lt by linarith
          then show ?thesis using f(4) by (simp add: unat_word_ariths)
        qed
        have "x < ?q" if "x \<in> set (map md_seq_num us)" for x
        proof -
          have "x \<le> md_seq_num (last us)"
            using f(6) that False by (induction us) (auto simp: less_imp_le split: if_splits)
          moreover have "md_seq_num (last us) < ?e" using f(2) unat_succ [OF f(3)] by (simp add: word_less_nat_alt)
          ultimately show ?thesis using ge by (meson leI le_less_trans less_le_trans)
        qed
        then have "sorted_wrt (<) (map md_seq_num (us @ [m]))" using f(6) by (auto simp: sorted_wrt_append)
        moreover have "unat (?q + 1) = unat (md_seq_num (hd (us @ [m]))) + unat (fh_gap_count f + (?q - ?e)) + length (us @ [m])"
          using mu gap sub le f(5) False by simp
        ultimately have "feed_ok (us @ [m]) f'"
          using f(1) tot m by (simp add: feed_ok_def f'_def)
        then show thesis using that [OF r] by (simp add: f'_def)
      qed
    qed
  qed
qed

lemma feed_run_ok:
  "feed_ok us0 f \<Longrightarrow> \<forall>b \<in> set ds. seq_in_range en b \<Longrightarrow>
   \<exists>us f'. feed_run en ds f = Some (us, f') \<and> feed_ok (us0 @ us) f' \<and>
     fh_parse_errors f' + fh_duplicate_count f' + fh_total_updates f' =
     fh_parse_errors f + fh_duplicate_count f + fh_total_updates f + of_nat (length ds)"
proof (induction ds arbitrary: us0 f)
  case (Cons b ds)
  have b: "seq_in_range en b" using Cons.prems(2) by simp
  obtain r f1 where r: "on_udp_data en f b = Some (r, f1)" "feed_ok (us0 @ (case r of None \<Rightarrow> [] | Some u \<Rightarrow> [u])) f1"
    "fh_parse_errors f1 + fh_duplicate_count f1 + fh_total_updates f1 = fh_parse_errors f + fh_duplicate_count f + fh_total_updates f + 1"
    by (rule on_udp_data_ok [OF Cons.prems(1) b])
  from Cons.IH [OF r(2)] Cons.prems(2) show ?case using r(1,3) by (cases r) (auto simp: algebra_simps)
qed simp

text \<open>
  C34. The feed handler never delivers an update twice or out of order, and its counters
  account for everything: from the first sequence number to the last, each number was either
  delivered or counted as a gap, and every datagram was delivered, a duplicate or an error.
\<close>

theorem feed_accounting:
  assumes "\<forall>b \<in> set ds. seq_in_range en b"
  shows "\<exists>us f. feed_run en ds FeedHandler_init = Some (us, f) \<and> sorted_wrt (<) (map md_seq_num us) \<and>
    unat (fh_total_updates f) = length us \<and>
    (if us = [] then fh_gap_count f = 0
     else unat (md_seq_num (last us)) + 1 - unat (md_seq_num (hd us)) = unat (fh_gap_count f) + length us) \<and>
    fh_parse_errors f + fh_duplicate_count f + fh_total_updates f = of_nat (length ds)"
proof -
  have "feed_ok [] FeedHandler_init" by (simp add: feed_ok_def FeedHandler_init_def)
  from feed_run_ok [OF this assms] obtain us f where r: "feed_run en ds FeedHandler_init = Some (us, f)" "feed_ok us f"
    "fh_parse_errors f + fh_duplicate_count f + fh_total_updates f = of_nat (length ds)"
    by (auto simp: FeedHandler_init_def)
  have "unat (md_seq_num (last us)) + 1 - unat (md_seq_num (hd us)) = unat (fh_gap_count f) + length us" if "us \<noteq> []"
  proof -
    have e: "fh_expected_seq f = md_seq_num (last us) + 1" "md_seq_num (last us) + 1 \<noteq> 0"
      "unat (fh_expected_seq f) = unat (md_seq_num (hd us)) + unat (fh_gap_count f) + length us"
      using r(2) that unfolding feed_ok_def by meson+
    then show ?thesis using unat_succ [OF e(2)] by simp
  qed
  moreover have "fh_gap_count f = 0" if "us = []" using r(2) that by (simp add: feed_ok_def)
  ultimately show ?thesis using r unfolding feed_ok_def by auto
qed

definition demo_update :: "u64 \<Rightarrow> u8 \<Rightarrow> Price \<Rightarrow> MarketDataUpdate" where
  "demo_update seq_num side price = \<lparr>md_seq_num = seq_num, md_symbol_id = 1, md_msg_type = MdMsgType_code kBBOUpdate, md_side = side,
     md_price = price, md_qty = 10, md_exchange_ts = 0\<rparr>"

theorem feed_accounting_witness:
  "\<exists>us f. feed_run little (map wire_market_data [demo_update 5 0 100, demo_update 5 0 100, demo_update 8 0 100]) FeedHandler_init = Some (us, f) \<and>
     unat (fh_total_updates f) = length us \<and> fh_parse_errors f + fh_duplicate_count f + fh_total_updates f = of_nat 3"
proof -
  let ?ds = "map wire_market_data [demo_update 5 0 100, demo_update 5 0 100, demo_update 8 0 100]"
  have d: "deserialize_market_data little (wire_market_data m) = Some (Some m)" for m by (rule market_data_codec.des_wire)
  have "\<forall>b \<in> set ?ds. seq_in_range little b" by (simp add: seq_in_range_def d) (simp add: demo_update_def)
  from feed_accounting [OF this] show ?thesis by fastforce
qed

section \<open>Signals from the quote history\<close>

fun strategy_run :: "u32 \<Rightarrow> MarketDataUpdate list \<Rightarrow> SpreadStrategy \<Rightarrow> (Signal list \<times> SpreadStrategy) outcome" where
  "strategy_run n [] st = Some ([], st)"
| "strategy_run n (u # us) st = do {
     (r, st) \<leftarrow> on_market_data n st u;
     (gs, st) \<leftarrow> strategy_run n us st;
     Some ((case r of None \<Rightarrow> gs | Some g \<Rightarrow> g # gs), st)
   }"

text \<open>The quotes of a symbol on the bid or the ask side, and the signals of a symbol.\<close>

definition quotes :: "MarketDataUpdate list \<Rightarrow> u32 \<Rightarrow> bool \<Rightarrow> MarketDataUpdate list" where
  "quotes us s bid = filter (\<lambda>u. md_msg_type u = MdMsgType_code kBBOUpdate \<and> md_symbol_id u = s \<and>
     (md_side u = Side_code kBid) = bid) us"

definition signals_of :: "Signal list \<Rightarrow> u32 \<Rightarrow> Signal list" where
  "signals_of gs s = filter (\<lambda>g. sig_symbol_id g = s) gs"

definition bbo_rep :: "MarketDataUpdate list \<Rightarrow> Signal list \<Rightarrow> u32 \<Rightarrow> SymbolBBO \<Rightarrow> bool" where
  "bbo_rep us gs s b \<longleftrightarrow> bbo_has_bid b = (quotes us s True \<noteq> []) \<and> bbo_has_ask b = (quotes us s False \<noteq> []) \<and>
     (bbo_has_bid b \<longrightarrow> bbo_best_bid b = md_price (last (quotes us s True))) \<and>
     (bbo_has_ask b \<longrightarrow> bbo_best_ask b = md_price (last (quotes us s False))) \<and>
     bbo_buy_next b = even (length (signals_of gs s))"

definition strategy_rep :: "u32 \<Rightarrow> Price \<Rightarrow> Qty \<Rightarrow> MarketDataUpdate list \<Rightarrow> Signal list \<Rightarrow> SpreadStrategy \<Rightarrow> bool" where
  "strategy_rep n thr q us gs st \<longleftrightarrow> length (ss_bbo st) = unat n \<and> ss_spread_threshold st = thr \<and> ss_default_qty st = q \<and>
     (\<forall>s. s \<noteq> 0 \<longrightarrow> s \<le> n \<longrightarrow> bbo_rep us gs s (ss_bbo st ! unat (s - 1)))"

lemma index_below: "s \<noteq> 0 \<Longrightarrow> s \<le> n \<Longrightarrow> unat (s - 1) < unat n" for s n :: u32
proof -
  assume "s \<noteq> 0" "s \<le> n"
  then have "unat (s - 1) = unat s - 1" "0 < unat s" "unat s \<le> unat n"
    by (simp_all add: unat_minus_one unat_gt_0 word_le_nat_alt)
  then show ?thesis by linarith
qed

lemma bbo_rep_other:
  "md_msg_type u \<noteq> MdMsgType_code kBBOUpdate \<or> md_symbol_id u \<noteq> s \<Longrightarrow> bbo_rep (us @ [u]) gs s b = bbo_rep us gs s b"
  by (auto simp: bbo_rep_def quotes_def)

lemma bbo_rep_update:
  "md_msg_type u = MdMsgType_code kBBOUpdate \<Longrightarrow> md_symbol_id u = s \<Longrightarrow> bbo_rep us gs s b \<Longrightarrow> bbo_rep (us @ [u]) gs s (update_bbo b u)"
  by (auto simp: bbo_rep_def quotes_def update_bbo_def)

lemma bbo_rep_signal:
  "bbo_rep us gs s b \<Longrightarrow> sig_symbol_id g = s \<Longrightarrow> bbo_rep us (gs @ [g]) s (b\<lparr>bbo_buy_next := \<not> bbo_buy_next b\<rparr>)"
  "bbo_rep us gs s b \<Longrightarrow> sig_symbol_id g \<noteq> s \<Longrightarrow> bbo_rep us (gs @ [g]) s b"
  by (auto simp: bbo_rep_def signals_of_def)

text \<open>What the history says about a signal raised by the latest update.\<close>

definition signal_justified :: "u32 \<Rightarrow> Price \<Rightarrow> Qty \<Rightarrow> MarketDataUpdate list \<Rightarrow> Signal list \<Rightarrow> Signal \<Rightarrow> bool" where
  "signal_justified n thr q us gs g \<longleftrightarrow>
     (let s = sig_symbol_id g; bid = md_price (last (quotes us s True)); ask = md_price (last (quotes us s False)) in
      s \<noteq> 0 \<and> s \<le> n \<and> quotes us s True \<noteq> [] \<and> quotes us s False \<noteq> [] \<and> sint bid < sint ask \<and>
      sint thr < sint ask - sint bid \<and> sig_qty g = q \<and>
      sig_side g = (if even (length (signals_of gs s)) then kBid else kAsk) \<and>
      sig_price g = (if sig_side g = kBid then ask else bid))"

lemma on_market_data_rep:
  assumes rep: "strategy_rep n thr q us gs st" and r: "on_market_data n st u = Some (r, st')"
  shows "strategy_rep n thr q (us @ [u]) (gs @ (case r of None \<Rightarrow> [] | Some g \<Rightarrow> [g])) st' \<and>
    (case r of None \<Rightarrow> True | Some g \<Rightarrow> signal_justified n thr q (us @ [u]) gs g)"
proof (cases "md_msg_type u = MdMsgType_code kBBOUpdate \<and> md_symbol_id u \<noteq> 0 \<and> md_symbol_id u \<le> n")
  case False
  then have e: "r = None" "st' = st" using r by (auto simp: on_market_data_def not_le split: if_splits)
  have "bbo_rep (us @ [u]) gs s b = bbo_rep us gs s b" if "s \<noteq> 0" "s \<le> n" for s b
    by (rule bbo_rep_other) (use False that in auto)
  then show ?thesis using rep e by (simp add: strategy_rep_def)
next
  case True
  let ?s = "md_symbol_id u" and ?i = "unat (md_symbol_id u - 1)"
  let ?b = "update_bbo (ss_bbo st ! ?i) u"
  have L: "length (ss_bbo st) = unat n" "ss_spread_threshold st = thr" "ss_default_qty st = q"
    and B: "\<And>s. s \<noteq> 0 \<Longrightarrow> s \<le> n \<Longrightarrow> bbo_rep us gs s (ss_bbo st ! unat (s - 1))"
    using rep by (auto simp: strategy_rep_def)
  have il: "?i < length (ss_bbo st)" using index_below True L(1) by metis
  have b: "bbo_rep (us @ [u]) gs ?s ?b" by (rule bbo_rep_update) (use True B in auto)
  have other: "bbo_rep (us @ [u]) gs s (ss_bbo st ! unat (s - 1))" if "s \<noteq> 0" "s \<le> n" "s \<noteq> ?s" for s
    using B [OF that(1,2)] bbo_rep_other [of u s us gs] that(3) by simp
  consider (quiet) "r = None" "st' = st\<lparr>ss_bbo := (ss_bbo st)[?i := ?b]\<rparr>"
    | (fire) spread where "bbo_has_bid ?b" "bbo_has_ask ?b" "sint (bbo_best_bid ?b) < sint (bbo_best_ask ?b)"
      "i64_of (sint (bbo_best_ask ?b) - sint (bbo_best_bid ?b)) = Some spread" "sint thr < sint spread"
      "r = Some \<lparr>sig_side = (if bbo_buy_next ?b then kBid else kAsk),
          sig_price = (if bbo_buy_next ?b then bbo_best_ask ?b else bbo_best_bid ?b), sig_qty = q, sig_symbol_id = ?s\<rparr>"
      "st' = st\<lparr>ss_bbo := (ss_bbo st)[?i := ?b\<lparr>bbo_buy_next := \<not> bbo_buy_next ?b\<rparr>], ss_signals_generated := ss_signals_generated st + 1\<rparr>"
    using r True il L by (auto simp: on_market_data_def Let_def arr_upd_def elim!: bind_eq_SomeE split: if_splits)
  then show ?thesis
  proof cases
    case quiet
    have "bbo_rep (us @ [u]) gs s ((ss_bbo st)[?i := ?b] ! unat (s - 1))" if "s \<noteq> 0" "s \<le> n" for s
      using b other [OF that] il symbol_index_inj [of s ?s] by (cases "s = ?s") (auto simp: nth_list_update)
    then show ?thesis using quiet L by (simp add: strategy_rep_def)
  next
    case fire
    let ?g = "\<lparr>sig_side = (if bbo_buy_next ?b then kBid else kAsk),
          sig_price = (if bbo_buy_next ?b then bbo_best_ask ?b else bbo_best_bid ?b), sig_qty = q, sig_symbol_id = ?s\<rparr>"
    have "bbo_rep (us @ [u]) (gs @ [?g]) s ((ss_bbo st)[?i := ?b\<lparr>bbo_buy_next := \<not> bbo_buy_next ?b\<rparr>] ! unat (s - 1))"
      if "s \<noteq> 0" "s \<le> n" for s
    proof (cases "s = ?s")
      case True
      then show ?thesis using bbo_rep_signal(1) [OF b, of ?g] il by simp
    next
      case False
      then show ?thesis using bbo_rep_signal(2) [OF other [OF that False], of ?g] symbol_index_inj [of s ?s] by simp
    qed
    then have "strategy_rep n thr q (us @ [u]) (gs @ [?g]) st'" using fire(7) L by (simp add: strategy_rep_def)
    moreover have "signal_justified n thr q (us @ [u]) gs ?g"
      using b fire(1,2,3,5) i64_ofD [OF fire(4)] True by (simp add: signal_justified_def bbo_rep_def Let_def)
    ultimately show ?thesis using fire(6) by simp
  qed
qed

lemma strategy_run_rep:
  "strategy_run n us st = Some (gs, st') \<Longrightarrow> strategy_rep n thr q us0 gs0 st \<Longrightarrow> strategy_rep n thr q (us0 @ us) (gs0 @ gs) st'"
proof (induction us arbitrary: us0 gs0 st gs)
  case (Cons u us)
  obtain r st1 gs1 where s: "on_market_data n st u = Some (r, st1)" "strategy_run n us st1 = Some (gs1, st')"
    "gs = (case r of None \<Rightarrow> gs1 | Some g \<Rightarrow> g # gs1)"
    using Cons.prems(1) by (auto elim!: bind_eq_SomeE)
  have "strategy_rep n thr q (us0 @ [u]) (gs0 @ (case r of None \<Rightarrow> [] | Some g \<Rightarrow> [g])) st1"
    using on_market_data_rep [OF Cons.prems(2) s(1)] by blast
  from Cons.IH [OF s(2) this] show ?case using s(3) by (cases r) simp_all
qed simp

lemma strategy_init_rep: "strategy_rep n thr q [] [] (SpreadStrategy_init n thr q)"
  unfolding strategy_rep_def SpreadStrategy_init_def
  using index_below by (auto simp: bbo_rep_def quotes_def signals_of_def SymbolBBO_init_def)

text \<open>
  C35. A signal depends on the quote history alone: the strategy fires for a symbol of its
  universe only when both sides were quoted, the latest bid is below the latest ask by more
  than the threshold, and then at the opposite touch, with the configured quantity, buying
  and selling in turn for each symbol.
\<close>

theorem strategy_signals_justified:
  assumes "strategy_run n us (SpreadStrategy_init n thr q) = Some (gs, st)" "on_market_data n st u = Some (Some g, st')"
  shows "signal_justified n thr q (us @ [u]) gs g"
proof -
  have "strategy_rep n thr q us gs st" using strategy_run_rep [OF assms(1) strategy_init_rep] by simp
  from on_market_data_rep [OF this assms(2)] show ?thesis by simp
qed

theorem strategy_signals_justified_witness:
  "case strategy_run 2 [demo_update 1 0 100] (SpreadStrategy_init 2 10 5) of
     Some (gs, st) \<Rightarrow> (case on_market_data 2 st (demo_update 2 1 150) of
       Some (Some g, st') \<Rightarrow> signal_justified 2 10 5 [demo_update 1 0 100, demo_update 2 1 150] gs g | _ \<Rightarrow> False)
   | None \<Rightarrow> False"
proof -
  have "case strategy_run 2 [demo_update 1 0 100] (SpreadStrategy_init 2 10 5) of
     Some (gs, st) \<Rightarrow> (case on_market_data 2 st (demo_update 2 1 150) of Some (Some g, st') \<Rightarrow> True | _ \<Rightarrow> False) | None \<Rightarrow> False"
    by code_simp
  then obtain gs st where r1: "strategy_run 2 [demo_update 1 0 100] (SpreadStrategy_init 2 10 5) = Some (gs, st)"
    and f: "case on_market_data 2 st (demo_update 2 1 150) of Some (Some g, st') \<Rightarrow> True | _ \<Rightarrow> False"
    by (cases "strategy_run 2 [demo_update 1 0 100] (SpreadStrategy_init 2 10 5)") (auto simp del: strategy_run.simps)
  obtain r st' where r2: "on_market_data 2 st (demo_update 2 1 150) = Some (r, st')"
    using f by (cases "on_market_data 2 st (demo_update 2 1 150)") auto
  then obtain g where "r = Some g" using f by (cases r) auto
  note r = r1 r2 [unfolded this]
  show ?thesis using strategy_signals_justified [OF r] unfolding r(1) by (simp add: r(2))
qed

end
