(* ===== verification/StrategyThread.thy ===== *)
theory StrategyThread
  imports TcpServer OrderManagerRuns Feed
begin

text \<open>
  The strategy thread of \<^verbatim>\<open>apps/tick_to_trade\<close>: connection state and reconnection
  (\<^verbatim>\<open>tcp_connection.hpp\<close>), sending of orders (\<^verbatim>\<open>order_send_handler.hpp\<close>), dispatch of exchange
  responses (\<^verbatim>\<open>order_response_handler.hpp\<close>) and the event loop (\<^verbatim>\<open>strategy_thread.hpp\<close>). What the
  operating system answers is input: clock readings and results of \<^verbatim>\<open>send\<close> and \<^verbatim>\<open>recv\<close> are lists
  that calls consume (a call that finds its list empty has the outcome \<open>None\<close>), the results of
  connecting and polling are given for every iteration. A clock reading is taken for every
  call that may read the clock. Logging, latency recording and the statistics output are left
  out.
\<close>

section \<open>Connection state\<close>

definition kHeartbeatIntervalNs :: u64 where "kHeartbeatIntervalNs = 1000000000"
definition kHeartbeatTimeoutNs :: u64 where "kHeartbeatTimeoutNs = 3000000000"
definition kReconnectBaseDelayNs :: u64 where "kReconnectBaseDelayNs = 1000000000"
definition kReconnectMaxDelayNs :: u64 where "kReconnectMaxDelayNs = 10000000000"
definition kMaxReconnectAttempts :: u32 where "kMaxReconnectAttempts = 10"
definition kConnectTimeoutNs :: u64 where "kConnectTimeoutNs = 3000000000"

datatype TcpState = kConnected | kDisconnected | kConnecting

record ConnectionState =
  cs_state :: TcpState
  cs_last_hb_sent :: u64
  cs_last_hb_recv :: u64
  cs_next_reconnect_at :: u64
  cs_reconnect_delay :: u64
  cs_reconnect_attempts :: u32
  cs_connecting_fd :: int
  cs_connect_deadline :: u64
  cs_heartbeats_sent :: u32
  cs_heartbeats_recv :: u32
  cs_reconnect_count :: u32
  cs_send_would_block :: u32
  cs_send_failures :: u32

definition ConnectionState_init :: ConnectionState where
  "ConnectionState_init = \<lparr>cs_state = kConnected, cs_last_hb_sent = 0, cs_last_hb_recv = 0, cs_next_reconnect_at = 0,
     cs_reconnect_delay = kReconnectBaseDelayNs, cs_reconnect_attempts = 0, cs_connecting_fd = - 1, cs_connect_deadline = 0,
     cs_heartbeats_sent = 0, cs_heartbeats_recv = 0, cs_reconnect_count = 0, cs_send_would_block = 0, cs_send_failures = 0\<rparr>"

definition schedule_reconnect :: "ConnectionState \<Rightarrow> u64 \<Rightarrow> ConnectionState" where
  "schedule_reconnect conn now = conn\<lparr>
     cs_reconnect_attempts := cs_reconnect_attempts conn + 1,
     cs_next_reconnect_at := now + cs_reconnect_delay conn,
     cs_reconnect_delay := min (cs_reconnect_delay conn * 2) kReconnectMaxDelayNs\<rparr>"

text \<open>The two numbers are the read and write positions of the receive buffer.\<close>

definition disconnect_and_reconnect ::
  "ConnectionState \<Rightarrow> nat \<Rightarrow> nat \<Rightarrow> u64 \<Rightarrow> ConnectionState \<times> nat \<times> nat" where
  "disconnect_and_reconnect conn tcp_rx_read tcp_rx_write now =
    (if cs_state conn \<noteq> kConnected then (conn, tcp_rx_read, tcp_rx_write)
     else (conn\<lparr>cs_state := kDisconnected, cs_next_reconnect_at := now + kReconnectBaseDelayNs,
                cs_reconnect_delay := kReconnectBaseDelayNs, cs_reconnect_attempts := 0\<rparr>, 0, 0))"

text \<open>The flags say whether the two socket options that must be set could be set.\<close>

definition finalize_tcp_connect :: "ConnectionState \<Rightarrow> bool \<Rightarrow> bool \<Rightarrow> u64 \<Rightarrow> bool \<times> ConnectionState" where
  "finalize_tcp_connect conn nodelay_ok nonblocking_ok ts =
    (if \<not> nodelay_ok then (False, conn)
     else if \<not> nonblocking_ok then (False, conn)
     else (True, conn\<lparr>cs_last_hb_sent := ts, cs_last_hb_recv := ts, cs_state := kConnected, cs_connecting_fd := - 1,
       cs_reconnect_delay := kReconnectBaseDelayNs, cs_reconnect_attempts := 0,
       cs_reconnect_count := cs_reconnect_count conn + 1\<rparr>))"

fun check_send_result :: "IoStatus \<Rightarrow> ConnectionState \<Rightarrow> bool \<times> ConnectionState" where
  "check_send_result IoOk conn = (True, conn)"
| "check_send_result IoWouldBlock conn = (True, conn\<lparr>cs_send_would_block := cs_send_would_block conn + 1\<rparr>)"
| "check_send_result IoPeerClosed conn = (False, conn\<lparr>cs_send_failures := cs_send_failures conn + 1\<rparr>)"
| "check_send_result IoError conn = (False, conn\<lparr>cs_send_failures := cs_send_failures conn + 1\<rparr>)"

section \<open>Exchange responses\<close>

definition kNumRejectReasons :: nat where "kNumRejectReasons = 9"
definition kMaxConsecutiveRejects :: u32 where "kMaxConsecutiveRejects = 5"

record OrderResponseHandler =
  rh_consecutive_rejects :: u32
  rh_parse_errors :: u64
  rh_unknown_types :: u64
  rh_reject_by_reason :: "u64 list"

definition OrderResponseHandler_init :: OrderResponseHandler where
  "OrderResponseHandler_init = \<lparr>rh_consecutive_rejects = 0, rh_parse_errors = 0, rh_unknown_types = 0,
     rh_reject_by_reason = replicate kNumRejectReasons 0\<rparr>"

definition parse_error :: "OrderResponseHandler \<Rightarrow> OrderResponseHandler" where
  "parse_error h = h\<lparr>rh_parse_errors := rh_parse_errors h + 1\<rparr>"

definition count_reason :: "OrderResponseHandler \<Rightarrow> u8 \<Rightarrow> OrderResponseHandler" where
  "count_reason h reason =
    (if unat reason < kNumRejectReasons
     then h\<lparr>rh_reject_by_reason := (rh_reject_by_reason h)[unat reason := rh_reject_by_reason h ! unat reason + 1]\<rparr>
     else h)"

text \<open>The flag asks the caller to trigger the kill switch.\<close>

definition on_tcp_message ::
  "endian \<Rightarrow> ParsedMessageView \<Rightarrow> u64 \<Rightarrow> OrderResponseHandler \<times> OrderManager \<times> ConnectionState \<Rightarrow>
   (bool \<times> OrderResponseHandler \<times> OrderManager \<times> ConnectionState) outcome" where
  "on_tcp_message en msg now = (\<lambda>(h, om, conn).
     let msg_type = mh_msg_type (pm_header msg); payload = pm_payload msg in
     if msg_type = MsgType_code kOrderAck then do {
       r \<leftarrow> deserialize_order_ack en payload;
       case r of
         None \<Rightarrow> Some (False, parse_error h, om, conn)
       | Some ack \<Rightarrow> Some (False, h\<lparr>rh_consecutive_rejects := 0\<rparr>, on_order_ack om ack, conn)
     }
     else if msg_type = MsgType_code kOrderReject then do {
       r \<leftarrow> deserialize_order_reject en payload;
       case r of
         None \<Rightarrow> Some (False, parse_error h, om, conn)
       | Some rej \<Rightarrow> do {
           om \<leftarrow> on_order_reject om rej;
           let h = h\<lparr>rh_consecutive_rejects := rh_consecutive_rejects h + 1\<rparr>;
           let h = count_reason h (orj_reason rej);
           Some (rh_consecutive_rejects h \<ge> kMaxConsecutiveRejects, h, om, conn)
         }
     }
     else if msg_type = MsgType_code kFillReport then do {
       r \<leftarrow> deserialize_fill_report en payload;
       case r of
         None \<Rightarrow> Some (False, parse_error h, om, conn)
       | Some fill \<Rightarrow> do { om \<leftarrow> on_fill om fill; Some (False, h\<lparr>rh_consecutive_rejects := 0\<rparr>, om, conn) }
     }
     else if msg_type = MsgType_code kCancelAck then do {
       r \<leftarrow> deserialize_cancel_ack en payload;
       case r of
         None \<Rightarrow> Some (False, parse_error h, om, conn)
       | Some ack \<Rightarrow> do { om \<leftarrow> on_cancel_ack om ack; Some (False, h, om, conn) }
     }
     else if msg_type = MsgType_code kCancelReject then do {
       r \<leftarrow> deserialize_cancel_reject en payload;
       case r of
         None \<Rightarrow> Some (False, parse_error h, om, conn)
       | Some rej \<Rightarrow> do { om \<leftarrow> on_cancel_reject om rej; Some (False, h, om, conn) }
     }
     else if msg_type = MsgType_code kModifyAck then do {
       r \<leftarrow> deserialize_modify_ack en payload;
       case r of
         None \<Rightarrow> Some (False, parse_error h, om, conn)
       | Some ack \<Rightarrow> Some (False, h, on_modify_ack om ack, conn)
     }
     else if msg_type = MsgType_code kModifyReject then do {
       r \<leftarrow> deserialize_modify_reject en payload;
       case r of
         None \<Rightarrow> Some (False, parse_error h, om, conn)
       | Some rej \<Rightarrow> do { om \<leftarrow> on_modify_reject om rej; Some (False, h, om, conn) }
     }
     else if msg_type = MsgType_code kHeartbeatAck then
       Some (False, h, om, conn\<lparr>cs_last_hb_recv := now, cs_heartbeats_recv := cs_heartbeats_recv conn + 1\<rparr>)
     else Some (False, h\<lparr>rh_unknown_types := rh_unknown_types h + 1\<rparr>, om, conn))"

definition reject_count_for :: "OrderResponseHandler \<Rightarrow> RejectReason \<Rightarrow> u64" where
  "reject_count_for h reason =
    (let idx = unat (RejectReason_code reason) in if idx \<ge> kNumRejectReasons then 0 else rh_reject_by_reason h ! idx)"

section \<open>The thread\<close>

record OrderSendHandler =
  sh_orders_serialized :: u64
  sh_modifies_serialized :: u64

text \<open>
  \<open>th_sent\<close> records what was handed to \<^verbatim>\<open>send\<close>: the bytes, the status and how many the kernel
  took.
\<close>

record StrategyThread =
  th_strategy :: SpreadStrategy
  th_order_mgr :: OrderManager
  th_conn :: ConnectionState
  th_tx_buf :: "u8 list"
  th_scratch :: "u8 list"
  th_rx_data :: "u8 list"
  th_rx_read :: nat
  th_rx_write :: nat
  th_stop :: bool
  th_kill_flag :: bool
  th_response :: OrderResponseHandler
  th_sender :: OrderSendHandler
  th_clock :: "i64 list"
  th_send_env :: "send_ret list"
  th_recv_env :: "recv_ret list"
  th_sent :: "(u8 list \<times> IoStatus \<times> nat) list"

definition read_clock :: "StrategyThread \<Rightarrow> (i64 \<times> StrategyThread) outcome" where
  "read_clock th = (case th_clock th of [] \<Rightarrow> None | t # ts \<Rightarrow> Some (t, th\<lparr>th_clock := ts\<rparr>))"

definition th_disconnect :: "StrategyThread \<Rightarrow> StrategyThread outcome" where
  "th_disconnect th = do {
     (now, th) \<leftarrow> read_clock th;
     let (conn, rx_read, rx_write) = disconnect_and_reconnect (th_conn th) (th_rx_read th) (th_rx_write th) now;
     Some (th\<lparr>th_conn := conn, th_rx_read := rx_read, th_rx_write := rx_write\<rparr>)
   }"

text \<open>\<^verbatim>\<open>TcpSocket::send_nonblocking\<close> on the front of the transmit buffer, then the check of its result.\<close>

definition send_nonblocking :: "nat \<Rightarrow> StrategyThread \<Rightarrow> (IoStatus \<times> StrategyThread) outcome" where
  "send_nonblocking tlen th = do {
     cassert (tlen > 0);
     (status, n, env) \<leftarrow> raw_send (th_send_env th) (min tlen (2 ^ 63 - 1));
     Some (status, th\<lparr>th_send_env := env, th_sent := th_sent th @ [(take tlen (th_tx_buf th), status, n)]\<rparr>)
   }"

definition send_checked :: "nat \<Rightarrow> StrategyThread \<Rightarrow> (bool \<times> StrategyThread) outcome" where
  "send_checked tlen th = do {
     (status, th) \<leftarrow> send_nonblocking tlen th;
     let (ok, conn) = check_send_result status (th_conn th);
     Some (ok, th\<lparr>th_conn := conn\<rparr>)
   }"

text \<open>
  Pack a serialized payload and send it. The flag is false when the connection is dead; a
  message that does not fit the buffers is dropped.
\<close>

definition pack_and_send ::
  "endian \<Rightarrow> MsgType \<Rightarrow> nat \<times> u8 list \<Rightarrow> StrategyThread \<Rightarrow> (bool \<times> StrategyThread) outcome" where
  "pack_and_send en msg_type = (\<lambda>(plen, scratch) th.
     let th = th\<lparr>th_scratch := scratch\<rparr> in
     if plen > 0 then do {
       (tlen, tx) \<leftarrow> pack_tcp_message en (th_tx_buf th) msg_type (take plen scratch);
       let th = th\<lparr>th_tx_buf := tx\<rparr>;
       if tlen > 0 then send_checked tlen th else Some (True, th)
     } else Some (True, th))"

definition send_cancel :: "endian \<Rightarrow> CancelOrder \<Rightarrow> StrategyThread \<Rightarrow> (bool \<times> StrategyThread) outcome" where
  "send_cancel en c th = do {
     r \<leftarrow> serialize_cancel_order en (th_scratch th) c;
     pack_and_send en kCancelOrder r th
   }"

fun send_cancels :: "endian \<Rightarrow> CancelOrder list \<Rightarrow> StrategyThread \<Rightarrow> StrategyThread outcome" where
  "send_cancels en [] th = Some th"
| "send_cancels en (c # cs) th = do {
     (ok, th) \<leftarrow> send_cancel en c th;
     if ok then send_cancels en cs th else th_disconnect th
   }"

text \<open>\<^verbatim>\<open>OrderSendHandler::on_signal\<close>; the flag is false when the connection is dead.\<close>

definition no_modify :: ModifyOrder where
  "no_modify = \<lparr>mo_client_order_id = 0, mo_symbol_id = 0, mo_new_price = 0, mo_new_qty = 0, mo_send_ts = 0\<rparr>"

definition no_order :: NewOrder where
  "no_order = \<lparr>no_client_order_id = 0, no_symbol_id = 0, no_side = 0, no_price = 0, no_qty = 0, no_send_ts = 0\<rparr>"

definition send_modify :: "endian \<Rightarrow> ModifyOrder \<Rightarrow> StrategyThread \<Rightarrow> (bool \<times> StrategyThread) outcome" where
  "send_modify en modify th = do {
     r \<leftarrow> serialize_modify_order en (th_scratch th) modify;
     (ok, th) \<leftarrow> pack_and_send en kModifyOrder r th;
     Some (ok, th\<lparr>th_sender := th_sender th\<lparr>sh_modifies_serialized := sh_modifies_serialized (th_sender th) + 1\<rparr>\<rparr>)
   }"

definition send_order :: "endian \<Rightarrow> NewOrder \<Rightarrow> StrategyThread \<Rightarrow> (bool \<times> StrategyThread) outcome" where
  "send_order en order th = do {
     (plen, scratch) \<leftarrow> serialize_new_order en (th_scratch th) order;
     let th = th\<lparr>th_scratch := scratch\<rparr>;
     if plen = 0 then Some (True, th)
     else do {
       (tlen, tx) \<leftarrow> pack_tcp_message en (th_tx_buf th) kNewOrder (take plen scratch);
       let th = th\<lparr>th_tx_buf := tx\<rparr>;
       if tlen = 0 then Some (True, th)
       else do {
         (ok, th) \<leftarrow> send_checked tlen th;
         Some (ok, th\<lparr>th_sender := th_sender th\<lparr>sh_orders_serialized := sh_orders_serialized (th_sender th) + 1\<rparr>\<rparr>)
       }
     }
   }"

definition send_signal :: "endian \<Rightarrow> Signal \<Rightarrow> StrategyThread \<Rightarrow> (bool \<times> StrategyThread) outcome" where
  "send_signal en signal th = do {
     (now, th) \<leftarrow> read_clock th;
     (modified, modify, om) \<leftarrow> check_modify (th_order_mgr th) signal now no_modify;
     let th = th\<lparr>th_order_mgr := om\<rparr>;
     if modified then send_modify en modify th
     else do {
       (now1, th) \<leftarrow> read_clock th;
       (now2, th) \<leftarrow> read_clock th;
       (accepted, order, om) \<leftarrow> on_signal (th_order_mgr th) signal now1 now2 no_order;
       let th = th\<lparr>th_order_mgr := om\<rparr>;
       if \<not> accepted then Some (True, th) else send_order en order th
     }
   }"

section \<open>Receiving\<close>

definition dispatch_message :: "endian \<Rightarrow> ParsedMessageView \<Rightarrow> StrategyThread \<Rightarrow> StrategyThread outcome" where
  "dispatch_message en msg th =
    (if \<not> verify_protocol_version (mh_version (pm_header msg)) then Some (th\<lparr>th_kill_flag := True\<rparr>)
     else do {
       (now, th) \<leftarrow> read_clock th;
       (kill, h, om, conn) \<leftarrow> on_tcp_message en msg now (th_response th, th_order_mgr th, th_conn th);
       let th = th\<lparr>th_response := h, th_order_mgr := om, th_conn := conn\<rparr>;
       Some (if kill then th\<lparr>th_kill_flag := True\<rparr> else th)
     })"

partial_function (option) parse_loop :: "endian \<Rightarrow> StrategyThread \<Rightarrow> StrategyThread outcome" where
  "parse_loop en th =
    (if th_rx_write th - th_rx_read th \<ge> kMessageHeaderSize then do {
       parsed \<leftarrow> unpack_message en (drop (th_rx_read th) (take (th_rx_write th) (th_rx_data th)));
       case parsed of
         None \<Rightarrow> Some th
       | Some msg \<Rightarrow> do {
           let consumed = kMessageHeaderSize + unat (mh_payload_len (pm_header msg));
           th \<leftarrow> dispatch_message en msg th;
           parse_loop en (th\<lparr>th_rx_read := th_rx_read th + consumed\<rparr>)
         }
     } else Some th)"

text \<open>Room for the next receive; the flag is false when a single message fills the buffer.\<close>

definition rx_make_space :: "StrategyThread \<Rightarrow> (bool \<times> StrategyThread) outcome" where
  "rx_make_space th =
    (if th_rx_write th \<ge> length (th_rx_data th) then
       if th_rx_read th > 0 then
         let remaining = th_rx_write th - th_rx_read th
         in Some (True, th\<lparr>th_rx_data := take remaining (drop (th_rx_read th) (th_rx_data th)) @ drop remaining (th_rx_data th),
                           th_rx_read := 0, th_rx_write := remaining\<rparr>)
       else do { th \<leftarrow> th_disconnect th; Some (False, th) }
     else Some (True, th))"

definition rx_append :: "u8 list \<Rightarrow> StrategyThread \<Rightarrow> StrategyThread" where
  "rx_append bs th = th\<lparr>th_rx_data := take (th_rx_write th) (th_rx_data th) @ bs @ drop (th_rx_write th + length bs) (th_rx_data th),
     th_rx_write := th_rx_write th + length bs\<rparr>"

definition rx_reset :: "StrategyThread \<Rightarrow> StrategyThread" where
  "rx_reset th = (if th_rx_read th = th_rx_write th then th\<lparr>th_rx_read := 0, th_rx_write := 0\<rparr> else th)"

partial_function (option) rx_loop :: "endian \<Rightarrow> StrategyThread \<Rightarrow> StrategyThread outcome" where
  "rx_loop en th = do {
     (ok, th) \<leftarrow> rx_make_space th;
     if \<not> ok then Some th
     else do {
       cassert (th_rx_write th < length (th_rx_data th));
       (status, bs, env) \<leftarrow> raw_recv (th_recv_env th) (length (th_rx_data th) - th_rx_write th);
       let th = th\<lparr>th_recv_env := env\<rparr>;
       if status = IoWouldBlock then Some th
       else if status = IoPeerClosed \<or> status = IoError then th_disconnect th
       else do {
         th \<leftarrow> parse_loop en (rx_append bs th);
         rx_loop en (rx_reset th)
       }
     }
   }"

section \<open>The event loop\<close>

text \<open>\<^verbatim>\<open>std::cmp_greater_equal\<close> of a signed reading and an unsigned deadline.\<close>

definition due :: "i64 \<Rightarrow> u64 \<Rightarrow> bool" where
  "due now limit \<longleftrightarrow> 0 \<le> sint now \<and> limit \<le> now"

definition kill_phase :: "endian \<Rightarrow> StrategyThread \<Rightarrow> StrategyThread outcome" where
  "kill_phase en th =
    (if th_kill_flag th \<and> \<not> is_killed (th_order_mgr th) \<and> cs_state (th_conn th) = kConnected then do {
       (now, th) \<leftarrow> read_clock th;
       (batch, om) \<leftarrow> trigger_kill_switch (th_order_mgr th) now;
       send_cancels en (take (unat (cb_count batch)) (cb_cancels batch)) (th\<lparr>th_order_mgr := om\<rparr>)
     } else Some th)"

definition send_heartbeat :: "endian \<Rightarrow> StrategyThread \<Rightarrow> StrategyThread outcome" where
  "send_heartbeat en th = do {
     (hb_len, tx) \<leftarrow> pack_tcp_message en (th_tx_buf th) kHeartbeat [];
     let th = th\<lparr>th_tx_buf := tx\<rparr>;
     if hb_len > 0 then do {
       (ok, th) \<leftarrow> send_checked hb_len th;
       if ok then Some th else th_disconnect th
     } else Some th
   }"

definition heartbeat_phase :: "endian \<Rightarrow> StrategyThread \<Rightarrow> StrategyThread outcome" where
  "heartbeat_phase en th =
    (if cs_state (th_conn th) = kConnected then do {
       (now, th) \<leftarrow> read_clock th;
       th \<leftarrow> (if now - cs_last_hb_sent (th_conn th) \<ge> kHeartbeatIntervalNs then do {
                th \<leftarrow> send_heartbeat en th;
                Some (th\<lparr>th_conn := th_conn th\<lparr>cs_last_hb_sent := now, cs_heartbeats_sent := cs_heartbeats_sent (th_conn th) + 1\<rparr>\<rparr>)
              } else Some th);
       if now - cs_last_hb_recv (th_conn th) \<ge> kHeartbeatTimeoutNs then th_disconnect th else Some th
     } else Some th)"

definition connect_timeout_phase :: "StrategyThread \<Rightarrow> StrategyThread outcome" where
  "connect_timeout_phase th =
    (if cs_state (th_conn th) = kConnecting then do {
       (now, th) \<leftarrow> read_clock th;
       if due now (cs_connect_deadline (th_conn th))
       then Some (th\<lparr>th_conn := schedule_reconnect ((th_conn th)\<lparr>cs_connecting_fd := - 1, cs_state := kDisconnected\<rparr>) now\<rparr>)
       else Some th
     } else Some th)"

text \<open>
  What opening a socket and connecting it yields: no socket, an immediate connection (with
  whether the two socket options can be set), a pending one, or a failure.
\<close>

datatype connect_ret = NoSocket | ConnectDone bool bool | ConnectPending int | ConnectFailed

fun start_connect :: "connect_ret \<Rightarrow> i64 \<Rightarrow> i64 \<Rightarrow> ConnectionState \<Rightarrow> ConnectionState" where
  "start_connect NoSocket now ts conn = schedule_reconnect conn now"
| "start_connect (ConnectDone nodelay_ok nonblocking_ok) now ts conn =
    (let (ok, conn) = finalize_tcp_connect conn nodelay_ok nonblocking_ok ts
     in if ok then conn else schedule_reconnect conn now)"
| "start_connect (ConnectPending fd) now ts conn =
     conn\<lparr>cs_connecting_fd := fd, cs_state := kConnecting, cs_connect_deadline := now + kConnectTimeoutNs\<rparr>"
| "start_connect ConnectFailed now ts conn = schedule_reconnect conn now"

text \<open>The flag is false when the loop continues with the next iteration.\<close>

definition reconnect_phase :: "connect_ret \<Rightarrow> StrategyThread \<Rightarrow> (bool \<times> StrategyThread) outcome" where
  "reconnect_phase ret th =
    (if cs_state (th_conn th) = kDisconnected then do {
       (now, th) \<leftarrow> read_clock th;
       if due now (cs_next_reconnect_at (th_conn th)) then
         if cs_reconnect_attempts (th_conn th) \<ge> kMaxReconnectAttempts then Some (False, th\<lparr>th_stop := True\<rparr>)
         else do {
           (ts, th) \<leftarrow> read_clock th;
           Some (True, th\<lparr>th_conn := start_connect ret now ts (th_conn th)\<rparr>)
         }
       else Some (True, th)
     } else Some (True, th))"

definition timeout_phase :: "endian \<Rightarrow> StrategyThread \<Rightarrow> StrategyThread outcome" where
  "timeout_phase en th =
    (if cs_state (th_conn th) = kConnected then do {
       (now, th) \<leftarrow> read_clock th;
       (batch, om) \<leftarrow> advance_timeouts (th_order_mgr th) now;
       send_cancels en (take (unat (cb_count batch)) (cb_cancels batch)) (th\<lparr>th_order_mgr := om\<rparr>)
     } else Some th)"

fun drain_loop :: "endian \<Rightarrow> u32 \<Rightarrow> QueuedUpdate list \<Rightarrow> StrategyThread \<Rightarrow> StrategyThread outcome" where
  "drain_loop en NSymbols [] th = Some th"
| "drain_loop en NSymbols (queued # batch) th = do {
     (sig, strategy) \<leftarrow> on_market_data NSymbols (th_strategy th) (qu_update queued);
     let th = th\<lparr>th_strategy := strategy\<rparr>;
     case sig of
       None \<Rightarrow> drain_loop en NSymbols batch th
     | Some signal \<Rightarrow>
         if cs_state (th_conn th) \<noteq> kConnected then drain_loop en NSymbols batch th
         else do {
           (ok, th) \<leftarrow> send_signal en signal th;
           if ok then drain_loop en NSymbols batch th else th_disconnect th
         }
   }"

text \<open>
  A polled event: the flags EPOLLOUT, EPOLLIN and EPOLLHUP or EPOLLERR, and, for the completion of
  a pending connect, whether \<^verbatim>\<open>SO_ERROR\<close> is set and whether the socket options can be set.
\<close>

record LoopEvent =
  le_out :: bool
  le_in :: bool
  le_hup_err :: bool
  le_sock_err :: bool
  le_nodelay_ok :: bool
  le_nonblocking_ok :: bool

definition complete_connect :: "LoopEvent \<Rightarrow> i64 \<Rightarrow> i64 \<Rightarrow> ConnectionState \<Rightarrow> ConnectionState" where
  "complete_connect ev ts now conn =
    (let conn = conn\<lparr>cs_connecting_fd := - 1\<rparr>;
         (ok, conn) = (if le_sock_err ev then (False, conn)
                       else finalize_tcp_connect conn (le_nodelay_ok ev) (le_nonblocking_ok ev) ts)
     in if ok then conn else schedule_reconnect (conn\<lparr>cs_state := kDisconnected\<rparr>) now)"

definition handle_event :: "endian \<Rightarrow> LoopEvent \<Rightarrow> StrategyThread \<Rightarrow> StrategyThread outcome" where
  "handle_event en ev th =
    (if cs_state (th_conn th) = kConnecting \<and> le_out ev then do {
       (ts, th) \<leftarrow> read_clock th;
       (now, th) \<leftarrow> read_clock th;
       Some (th\<lparr>th_conn := complete_connect ev ts now (th_conn th)\<rparr>)
     }
     else if cs_state (th_conn th) = kConnected \<and> le_in ev then rx_loop en th
     else if cs_state (th_conn th) = kConnected \<and> le_hup_err ev then th_disconnect th
     else Some th)"

fun handle_events :: "endian \<Rightarrow> LoopEvent list \<Rightarrow> StrategyThread \<Rightarrow> StrategyThread outcome" where
  "handle_events en [] th = Some th"
| "handle_events en (ev # evs) th = do { th \<leftarrow> handle_event en ev th; handle_events en evs th }"

text \<open>
  The input of an iteration: the kill switch flag set from outside, the result of connecting
  if it is tried, the updates that the drain of the queue returns, and the polled events.
\<close>

record LoopInput =
  li_kill :: bool
  li_connect :: connect_ret
  li_batch :: "QueuedUpdate list"
  li_events :: "LoopEvent list"

definition loop_iteration :: "endian \<Rightarrow> u32 \<Rightarrow> LoopInput \<Rightarrow> StrategyThread \<Rightarrow> StrategyThread outcome" where
  "loop_iteration en NSymbols inp th = do {
     th \<leftarrow> kill_phase en (th\<lparr>th_kill_flag := th_kill_flag th \<or> li_kill inp\<rparr>);
     if om_kill_switch_state (th_order_mgr th) = kComplete then Some (th\<lparr>th_stop := True\<rparr>)
     else do {
       th \<leftarrow> heartbeat_phase en th;
       th \<leftarrow> connect_timeout_phase th;
       (go_on, th) \<leftarrow> reconnect_phase (li_connect inp) th;
       if \<not> go_on then Some th
       else do {
         th \<leftarrow> timeout_phase en th;
         th \<leftarrow> drain_loop en NSymbols (li_batch inp) th;
         handle_events en (li_events inp) th
       }
     }
   }"

text \<open>The loop ends when the stop flag is set; the list holds the inputs of the iterations.\<close>

fun loop_run :: "endian \<Rightarrow> u32 \<Rightarrow> LoopInput list \<Rightarrow> StrategyThread \<Rightarrow> StrategyThread outcome" where
  "loop_run en NSymbols [] th = Some th"
| "loop_run en NSymbols (inp # inps) th =
    (if th_stop th then Some th else loop_iteration en NSymbols inp th \<bind> loop_run en NSymbols inps)"

end
