(* ===== verification/StrategyThreadProps.thy ===== *)
theory StrategyThreadProps
  imports StrategyThread
begin

text \<open>
  Properties of the strategy thread over whole runs of its event loop: the reconnection state
  machine, the kill switch on the wire and the reject streak that trips it.
\<close>

section \<open>Reconnection\<close>

text \<open>The part of the connection state that governs reconnection.\<close>

definition ctl :: "ConnectionState \<Rightarrow> TcpState \<times> u64 \<times> u32" where
  "ctl conn = (cs_state conn, cs_reconnect_delay conn, cs_reconnect_attempts conn)"

text \<open>The delay doubles from one second to at most ten; ten failed attempts are the limit.\<close>

definition backoff_ok :: "ConnectionState \<Rightarrow> bool" where
  "backoff_ok conn \<longleftrightarrow> unat (cs_reconnect_delay conn) = min (10 ^ 9 * 2 ^ unat (cs_reconnect_attempts conn)) (10 ^ 10) \<and>
     (case cs_state conn of
        kConnected \<Rightarrow> cs_reconnect_attempts conn = 0
      | kConnecting \<Rightarrow> cs_reconnect_attempts conn < kMaxReconnectAttempts
      | kDisconnected \<Rightarrow> cs_reconnect_attempts conn \<le> kMaxReconnectAttempts)"

lemma backoff_ok_ctl: "ctl conn' = ctl conn \<Longrightarrow> backoff_ok conn' = backoff_ok conn"
  by (simp add: ctl_def backoff_ok_def split: TcpState.splits)

lemma backoff_ok_init: "backoff_ok ConnectionState_init"
  by (simp add: backoff_ok_def ConnectionState_init_def kReconnectBaseDelayNs_def)

lemma schedule_ok:
  assumes a: "cs_reconnect_attempts conn < kMaxReconnectAttempts"
    and d: "unat (cs_reconnect_delay conn) = min (10 ^ 9 * 2 ^ unat (cs_reconnect_attempts conn)) (10 ^ 10)"
    and s: "cs_state conn = kDisconnected"
  shows "backoff_ok (schedule_reconnect conn now)"
proof -
  let ?n = "unat (cs_reconnect_attempts conn)"
  have n: "?n < 10" using a by (simp add: kMaxReconnectAttempts_def word_less_nat_alt)
  then have att: "unat (cs_reconnect_attempts conn + 1) = ?n + 1" by (simp add: unat_word_ariths)
  have "unat (cs_reconnect_delay conn * 2) = unat (cs_reconnect_delay conn) * 2"
    using d by (simp add: unat_word_ariths)
  then have "unat (min (cs_reconnect_delay conn * 2) kReconnectMaxDelayNs) = min (unat (cs_reconnect_delay conn) * 2) (10 ^ 10)"
    by (simp add: min_def word_le_nat_alt kReconnectMaxDelayNs_def)
  also have "\<dots> = min (10 ^ 9 * 2 ^ (?n + 1)) (10 ^ 10)" unfolding d by (simp add: min_def)
  finally show ?thesis using s att n
    by (simp add: backoff_ok_def schedule_reconnect_def kMaxReconnectAttempts_def word_le_nat_alt)
qed

lemma disconnect_ok: "backoff_ok conn \<Longrightarrow> backoff_ok (fst (disconnect_and_reconnect conn r w now))"
  by (auto simp: disconnect_and_reconnect_def backoff_ok_def kReconnectBaseDelayNs_def kMaxReconnectAttempts_def split: TcpState.splits)

lemma finalize_ok:
  assumes "finalize_tcp_connect conn a b ts = (ok, conn')"
  shows "ok \<Longrightarrow> backoff_ok conn'" "\<not> ok \<Longrightarrow> conn' = conn"
  using assms by (auto simp: finalize_tcp_connect_def backoff_ok_def kReconnectBaseDelayNs_def split: if_splits)

lemma check_send_ctl: "check_send_result status conn = (ok, conn') \<Longrightarrow> ctl conn' = ctl conn"
  by (cases status) (auto simp: ctl_def)

lemma start_connect_ok:
  assumes "backoff_ok conn" "cs_state conn = kDisconnected" "cs_reconnect_attempts conn < kMaxReconnectAttempts"
  shows "backoff_ok (start_connect ret now ts conn)"
proof (cases ret)
  case (ConnectDone a b)
  obtain ok conn' where f: "finalize_tcp_connect conn a b ts = (ok, conn')" by force
  then show ?thesis using finalize_ok [OF f] assms schedule_ok [of conn now] ConnectDone
    by (cases ok) (auto simp: backoff_ok_def)
qed (use assms schedule_ok [of conn now] in \<open>auto simp: backoff_ok_def\<close>)

lemma complete_connect_ok:
  assumes "backoff_ok conn" "cs_state conn = kConnecting"
  shows "backoff_ok (complete_connect ev ts now conn)"
proof -
  let ?c = "conn\<lparr>cs_connecting_fd := - 1\<rparr>"
  have s: "backoff_ok (schedule_reconnect (?c\<lparr>cs_state := kDisconnected\<rparr>) now)"
    by (rule schedule_ok) (use assms in \<open>auto simp: backoff_ok_def\<close>)
  obtain ok c' where f: "finalize_tcp_connect ?c (le_nodelay_ok ev) (le_nonblocking_ok ev) ts = (ok, c')" by force
  show ?thesis using finalize_ok [OF f] s f by (auto simp: complete_connect_def Let_def)
qed

section \<open>Connection control through the phases\<close>

lemma read_clock_same: "read_clock th = Some (t, th') \<Longrightarrow> th' = th\<lparr>th_clock := tl (th_clock th)\<rparr>"
  by (auto simp: read_clock_def split: list.splits)

lemma th_disconnect_ok: "th_disconnect th = Some th' \<Longrightarrow> backoff_ok (th_conn th) \<Longrightarrow> backoff_ok (th_conn th')"
  using disconnect_ok by (auto simp: th_disconnect_def elim!: bind_eq_SomeE dest!: read_clock_same split: prod.splits) (metis fst_conv)

lemma send_checked_ctl: "send_checked n th = Some (ok, th') \<Longrightarrow> ctl (th_conn th') = ctl (th_conn th)"
  by (auto simp: send_checked_def send_nonblocking_def Let_def elim!: bind_eq_SomeE dest!: check_send_ctl split: prod.splits)

lemma pack_and_send_ctl: "pack_and_send en mt r th = Some (ok, th') \<Longrightarrow> ctl (th_conn th') = ctl (th_conn th)"
  by (auto simp: pack_and_send_def Let_def elim!: bind_eq_SomeE dest!: send_checked_ctl split: prod.splits if_splits)

lemma send_signal_ctl: "send_signal en sg th = Some (ok, th') \<Longrightarrow> ctl (th_conn th') = ctl (th_conn th)"
  by (auto simp: send_signal_def send_modify_def send_order_def Let_def elim!: bind_eq_SomeE
      dest!: send_checked_ctl pack_and_send_ctl read_clock_same split: prod.splits if_splits)

lemma send_cancels_ok: "send_cancels en cs th = Some th' \<Longrightarrow> backoff_ok (th_conn th) \<Longrightarrow> backoff_ok (th_conn th')"
proof (induction cs arbitrary: th)
  case (Cons c cs)
  then obtain r ok th1 where s: "pack_and_send en kCancelOrder r th = Some (ok, th1)"
    "if ok then send_cancels en cs th1 = Some th' else th_disconnect th1 = Some th'"
    by (auto simp: send_cancel_def elim!: bind_eq_SomeE split: if_splits)
  have "backoff_ok (th_conn th1)" using backoff_ok_ctl [OF pack_and_send_ctl [OF s(1)]] Cons.prems(2) by simp
  then show ?case using s(2) Cons.IH th_disconnect_ok by (auto split: if_splits)
qed simp

section \<open>The receive path\<close>

text \<open>
  What receiving keeps: nothing is sent, the connection state stays well-formed, a killed
  order manager stays killed.
\<close>

definition rx_kept :: "StrategyThread \<Rightarrow> StrategyThread \<Rightarrow> bool" where
  "rx_kept th th' \<longleftrightarrow> th_sent th' = th_sent th \<and> (backoff_ok (th_conn th) \<longrightarrow> backoff_ok (th_conn th')) \<and>
     (is_killed (th_order_mgr th) \<longrightarrow> is_killed (th_order_mgr th'))"

lemma rx_kept_refl [simp]: "rx_kept th th"
  by (simp add: rx_kept_def)

lemma rx_kept_trans: "rx_kept a b \<Longrightarrow> rx_kept b c \<Longrightarrow> rx_kept a c"
  by (simp add: rx_kept_def)

lemma rx_kept_frame:
  "th_sent th' = th_sent th \<Longrightarrow> th_conn th' = th_conn th \<Longrightarrow> th_order_mgr th' = th_order_mgr th \<Longrightarrow> rx_kept th th'"
  by (simp add: rx_kept_def)

lemma th_disconnect_kept: "th_disconnect th = Some th' \<Longrightarrow> rx_kept th th'"
  using th_disconnect_ok [of th th']
  by (auto simp: rx_kept_def th_disconnect_def elim!: bind_eq_SomeE dest!: read_clock_same split: prod.splits)

lemma om_killed_steps:
  assumes "is_killed om"
  shows "is_killed (on_order_ack om a)" "is_killed (on_modify_ack om ma)"
    "on_order_reject om r = Some om' \<Longrightarrow> is_killed om'" "on_fill om f = Some om' \<Longrightarrow> is_killed om'"
    "on_cancel_ack om ca = Some om' \<Longrightarrow> is_killed om'" "on_cancel_reject om cr = Some om' \<Longrightarrow> is_killed om'"
    "on_modify_reject om mr = Some om' \<Longrightarrow> is_killed om'"
  using assms step_killed [of "EAck a" om False] step_killed [of "EModifyAck ma" om False] step_killed [of "EReject r" om False om']
    step_killed [of "EFill f" om False om'] step_killed [of "ECancelAck ca" om False om'] step_killed [of "ECancelReject cr" om False om']
    step_killed [of "EModifyReject mr" om False om']
  by simp_all

lemma on_tcp_message_kept:
  assumes "on_tcp_message en msg now (h, om, conn) = Some (kill, h', om', conn')"
  shows "ctl conn' = ctl conn \<and> (is_killed om \<longrightarrow> is_killed om')"
  using assms
  by (auto simp: on_tcp_message_def Let_def ctl_def elim!: bind_eq_SomeE split: if_splits option.splits dest: om_killed_steps)

lemma dispatch_kept: "dispatch_message en msg th = Some th' \<Longrightarrow> rx_kept th th'"
proof -
  assume d: "dispatch_message en msg th = Some th'"
  show ?thesis
  proof (cases "verify_protocol_version (mh_version (pm_header msg))")
    case False
    then show ?thesis using d by (auto simp: dispatch_message_def intro: rx_kept_frame)
  next
    case True
    then obtain now kill h om conn where m: "on_tcp_message en msg now (th_response th, th_order_mgr th, th_conn th) = Some (kill, h, om, conn)"
      "th' = (let th1 = th\<lparr>th_clock := tl (th_clock th), th_response := h, th_order_mgr := om, th_conn := conn\<rparr>
              in if kill then th1\<lparr>th_kill_flag := True\<rparr> else th1)"
      using d by (auto simp: dispatch_message_def Let_def elim!: bind_eq_SomeE dest!: read_clock_same)
    show ?thesis using on_tcp_message_kept [OF m(1)] backoff_ok_ctl [of conn "th_conn th"] m(2) by (simp add: rx_kept_def Let_def)
  qed
qed

lemma parse_loop_kept: "parse_loop en th = Some th' \<Longrightarrow> rx_kept th th'"
proof (induction rule: parse_loop.raw_induct [rotated 1, consumes 1, case_names step])
  case (step parse en th th')
  show ?case
  proof (cases "th_rx_write th - th_rx_read th \<ge> kMessageHeaderSize")
    case False
    then show ?thesis using step(2) by simp
  next
    case True
    then obtain parsed where u: "unpack_message en (drop (th_rx_read th) (take (th_rx_write th) (th_rx_data th))) = Some parsed"
      "(case parsed of None \<Rightarrow> Some th | Some msg \<Rightarrow> do {
           th \<leftarrow> dispatch_message en msg th;
           parse en (th\<lparr>th_rx_read := th_rx_read th + (kMessageHeaderSize + unat (mh_payload_len (pm_header msg)))\<rparr>) }) = Some th'"
      using step(2) by (auto simp: Let_def elim!: bind_eq_SomeE)
    show ?thesis
    proof (cases parsed)
      case None
      then show ?thesis using u(2) by simp
    next
      case (Some msg)
      then obtain th1 where d: "dispatch_message en msg th = Some th1"
        "parse en (th1\<lparr>th_rx_read := th_rx_read th1 + (kMessageHeaderSize + unat (mh_payload_len (pm_header msg)))\<rparr>) = Some th'"
        using u(2) by (auto simp: Let_def elim!: bind_eq_SomeE)
      have "rx_kept th1 (th1\<lparr>th_rx_read := th_rx_read th1 + (kMessageHeaderSize + unat (mh_payload_len (pm_header msg)))\<rparr>)"
        by (rule rx_kept_frame) simp_all
      then show ?thesis using dispatch_kept [OF d(1)] step(1) [OF d(2)] rx_kept_trans by blast
    qed
  qed
qed

lemma rx_make_space_kept: "rx_make_space th = Some (ok, th') \<Longrightarrow> rx_kept th th'"
  by (auto simp: rx_make_space_def Let_def elim!: bind_eq_SomeE dest: th_disconnect_kept intro: rx_kept_frame split: if_splits)

lemma rx_append_kept: "rx_kept th (rx_append bs th)" "rx_kept th (rx_reset th)"
  by (simp_all add: rx_append_def rx_reset_def rx_kept_frame)

lemma rx_loop_kept: "rx_loop en th = Some th' \<Longrightarrow> rx_kept th th'"
proof (induction rule: rx_loop.raw_induct [rotated 1, consumes 1, case_names step])
  case (step rx en th th')
  from step(2) obtain ok th1 where sp: "rx_make_space th = Some (ok, th1)"
    "(if \<not> ok then Some th1
     else do {
       cassert (th_rx_write th1 < length (th_rx_data th1));
       (status, bs, env) \<leftarrow> raw_recv (th_recv_env th1) (length (th_rx_data th1) - th_rx_write th1);
       let th1 = th1\<lparr>th_recv_env := env\<rparr>;
       if status = IoWouldBlock then Some th1
       else if status = IoPeerClosed \<or> status = IoError then th_disconnect th1
       else do {
         th1 \<leftarrow> parse_loop en (rx_append bs th1);
         rx en (rx_reset th1)
       }
     }) = Some th'"
    by (auto elim!: bind_eq_SomeE)
  note k1 = rx_make_space_kept [OF sp(1)]
  show ?case
  proof (cases ok)
    case False
    then show ?thesis using sp(2) k1 by simp
  next
    case True
    then obtain status bs env where rc: "raw_recv (th_recv_env th1) (length (th_rx_data th1) - th_rx_write th1) = Some (status, bs, env)"
      "(let th1 = th1\<lparr>th_recv_env := env\<rparr> in
       if status = IoWouldBlock then Some th1
       else if status = IoPeerClosed \<or> status = IoError then th_disconnect th1
       else parse_loop en (rx_append bs th1) \<bind> (\<lambda>th1. rx en (rx_reset th1))) = Some th'"
      using sp(2) by (auto simp: cassert_def elim!: bind_eq_SomeE split: if_splits)
    let ?th2 = "th1\<lparr>th_recv_env := env\<rparr>"
    have k2: "rx_kept th ?th2" by (rule rx_kept_trans [OF k1 rx_kept_frame]) simp_all
    consider "th' = ?th2" | "th_disconnect ?th2 = Some th'"
      | th3 where "parse_loop en (rx_append bs ?th2) = Some th3" "rx en (rx_reset th3) = Some th'"
    proof (cases "status = IoOk")
      case True
      then show thesis using rc(2) that(3) by (auto simp: Let_def bind_eq_Some_conv)
    next
      case False
      then show thesis using rc(2) that(1,2) by (cases status) (simp_all add: Let_def)
    qed
    then show ?thesis
    proof cases
      case 1
      then show ?thesis using k2 by simp
    next
      case 2
      show ?thesis by (rule rx_kept_trans [OF k2 th_disconnect_kept [OF 2]])
    next
      case 3
      have "rx_kept ?th2 th3" by (rule rx_kept_trans [OF rx_append_kept(1) parse_loop_kept [OF 3(1)]])
      moreover have "rx_kept th3 th'" by (rule rx_kept_trans [OF rx_append_kept(2) step(1) [OF 3(2)]])
      ultimately show ?thesis by (rule rx_kept_trans [OF rx_kept_trans [OF k2]])
    qed
  qed
qed

lemma handle_event_kept: "handle_event en ev th = Some th' \<Longrightarrow> rx_kept th th'"
proof (cases "cs_state (th_conn th) = kConnecting \<and> le_out ev")
  case True
  assume "handle_event en ev th = Some th'"
  then obtain t1 t2 ts where "th' = th\<lparr>th_clock := ts, th_conn := complete_connect ev t1 t2 (th_conn th)\<rparr>"
    using True by (auto simp: handle_event_def bind_eq_Some_conv dest!: read_clock_same)
  then show ?thesis using complete_connect_ok True by (simp add: rx_kept_def)
next
  case False
  assume "handle_event en ev th = Some th'"
  then show ?thesis using False rx_loop_kept th_disconnect_kept by (auto simp: handle_event_def split: if_splits)
qed

lemma handle_events_kept: "handle_events en evs th = Some th' \<Longrightarrow> rx_kept th th'"
proof (induction evs arbitrary: th)
  case (Cons ev evs)
  then obtain th1 where "handle_event en ev th = Some th1" "handle_events en evs th1 = Some th'"
    by (auto elim!: bind_eq_SomeE)
  then show ?case using handle_event_kept rx_kept_trans Cons.IH by blast
qed simp

section \<open>What is sent\<close>

definition tcp_frame :: "MsgType \<Rightarrow> u8 list \<Rightarrow> u8 list" where
  "tcp_frame ty payload = message_bytes kProtocolVersion (MsgType_code ty) 0 payload"

definition heartbeat_frame :: "u8 list \<Rightarrow> bool" where
  "heartbeat_frame bs \<longleftrightarrow> bs = tcp_frame kHeartbeat []"

definition client_frame :: "u8 list \<Rightarrow> bool" where
  "client_frame bs \<longleftrightarrow> heartbeat_frame bs \<or> (\<exists>m. bs = tcp_frame kNewOrder (wire_new_order m)) \<or>
     (\<exists>m. bs = tcp_frame kModifyOrder (wire_modify_order m)) \<or> (\<exists>m. bs = tcp_frame kCancelOrder (wire_cancel_order m))"

definition sends :: "(u8 list \<Rightarrow> bool) \<Rightarrow> StrategyThread \<Rightarrow> StrategyThread \<Rightarrow> bool" where
  "sends P th th' \<longleftrightarrow> (\<exists>ms. th_sent th' = th_sent th @ ms \<and> (\<forall>m \<in> set ms. P (fst m)))"

lemma sends_none: "th_sent th' = th_sent th \<Longrightarrow> sends P th th'"
  by (simp add: sends_def)

lemma sends_trans: "sends P a b \<Longrightarrow> sends P b c \<Longrightarrow> sends P a c"
  by (auto simp: sends_def)

lemma packed_frame:
  "pack_tcp_message en tx ty payload = Some (tlen, tx') \<Longrightarrow> tlen > 0 \<Longrightarrow> take tlen tx' = tcp_frame ty payload"
  by (auto simp: pack_tcp_message_def pack_message_eq tcp_frame_def split: if_splits)

lemma send_checked_sends:
  "send_checked tlen th = Some (ok, th') \<Longrightarrow> P (take tlen (th_tx_buf th)) \<Longrightarrow>
     sends P th th' \<and> th_order_mgr th' = th_order_mgr th"
  by (auto simp: send_checked_def send_nonblocking_def sends_def cassert_def elim!: bind_eq_SomeE split: prod.splits if_splits)

lemma pack_and_send_sends:
  assumes "pack_and_send en ty (plen, scratch) th = Some (ok, th')" "0 < plen \<Longrightarrow> P (tcp_frame ty (take plen scratch))"
  shows "sends P th th' \<and> th_order_mgr th' = th_order_mgr th"
proof -
  consider "th_sent th' = th_sent th" "th_order_mgr th' = th_order_mgr th"
    | tlen tx where "0 < plen" "0 < tlen" "pack_tcp_message en (th_tx_buf th) ty (take plen scratch) = Some (tlen, tx)"
        "send_checked tlen (th\<lparr>th_scratch := scratch, th_tx_buf := tx\<rparr>) = Some (ok, th')"
    using assms(1) by (auto simp: pack_and_send_def Let_def elim!: bind_eq_SomeE split: if_splits)
  then show ?thesis
  proof cases
    case 1
    then show ?thesis by (simp add: sends_none)
  next
    case 2
    then show ?thesis using send_checked_sends [OF 2(4), of P] packed_frame [OF 2(3,2)] assms(2) by (simp add: sends_def)
  qed
qed

lemma send_cancel_sends:
  "send_cancel en c th = Some (ok, th') \<Longrightarrow> sends client_frame th th' \<and> th_order_mgr th' = th_order_mgr th"
  by (auto simp: send_cancel_def cancel_order_codec.ser_eq cancel_order_codec.wire_length client_frame_def
      elim!: bind_eq_SomeE intro!: pack_and_send_sends split: if_splits)

lemma send_modify_sends:
  "send_modify en m th = Some (ok, th') \<Longrightarrow> sends client_frame th th' \<and> th_order_mgr th' = th_order_mgr th"
proof -
  assume "send_modify en m th = Some (ok, th')"
  then obtain plen scratch th1 where s: "serialize_modify_order en (th_scratch th) m = Some (plen, scratch)"
    "pack_and_send en kModifyOrder (plen, scratch) th = Some (ok, th1)" "th_sent th' = th_sent th1" "th_order_mgr th' = th_order_mgr th1"
    by (auto simp: send_modify_def elim!: bind_eq_SomeE)
  have "0 < plen \<Longrightarrow> client_frame (tcp_frame kModifyOrder (take plen scratch))"
    using s(1) by (auto simp: modify_order_codec.ser_eq modify_order_codec.wire_length client_frame_def split: if_splits)
  then show ?thesis using pack_and_send_sends [OF s(2)] s(3,4) by (simp add: sends_def)
qed

lemma send_order_sends:
  "send_order en m th = Some (ok, th') \<Longrightarrow> sends client_frame th th' \<and> th_order_mgr th' = th_order_mgr th"
proof -
  assume "send_order en m th = Some (ok, th')"
  then consider "th_sent th' = th_sent th" "th_order_mgr th' = th_order_mgr th"
    | plen scratch tlen tx th1 where "serialize_new_order en (th_scratch th) m = Some (plen, scratch)" "0 < plen" "0 < tlen"
        "pack_tcp_message en (th_tx_buf th) kNewOrder (take plen scratch) = Some (tlen, tx)"
        "send_checked tlen (th\<lparr>th_scratch := scratch, th_tx_buf := tx\<rparr>) = Some (ok, th1)"
        "th_sent th' = th_sent th1" "th_order_mgr th' = th_order_mgr th1"
    by (auto simp: send_order_def Let_def elim!: bind_eq_SomeE split: if_splits)
  then show ?thesis
  proof cases
    case 1
    then show ?thesis by (simp add: sends_none)
  next
    case 2
    have "client_frame (tcp_frame kNewOrder (take plen scratch))"
      using 2(1,2) by (auto simp: new_order_codec.ser_eq new_order_codec.wire_length client_frame_def split: if_splits)
    then show ?thesis using send_checked_sends [OF 2(5), of client_frame] packed_frame [OF 2(4,3)] 2(6,7) by (simp add: sends_def)
  qed
qed

section \<open>What the phases of the loop keep\<close>

text \<open>
  The connection state stays well-formed, only complete client messages are sent, and once
  the order manager is killed it stays so and only heartbeats are sent.
\<close>

definition loop_kept :: "StrategyThread \<Rightarrow> StrategyThread \<Rightarrow> bool" where
  "loop_kept th th' \<longleftrightarrow> (backoff_ok (th_conn th) \<longrightarrow> backoff_ok (th_conn th')) \<and> sends client_frame th th' \<and>
     (is_killed (th_order_mgr th) \<longrightarrow> is_killed (th_order_mgr th') \<and> sends heartbeat_frame th th')"

lemma loop_kept_trans: "loop_kept a b \<Longrightarrow> loop_kept b c \<Longrightarrow> loop_kept a c"
  by (auto simp: loop_kept_def intro: sends_trans)

lemma rx_loop_step: "rx_kept th th' \<Longrightarrow> loop_kept th th'"
  by (simp add: rx_kept_def loop_kept_def sends_none)

lemma loop_kept_refl [simp]: "loop_kept th th"
  by (simp add: rx_loop_step)

lemma send_cancels_sends: "send_cancels en cs th = Some th' \<Longrightarrow> sends client_frame th th'"
proof (induction cs arbitrary: th)
  case (Cons c cs)
  then obtain ok th1 where s: "send_cancel en c th = Some (ok, th1)"
    "if ok then send_cancels en cs th1 = Some th' else th_disconnect th1 = Some th'"
    by (auto elim!: bind_eq_SomeE split: if_splits)
  have "sends client_frame th1 th'" using s(2) Cons.IH th_disconnect_kept by (auto simp: rx_kept_def sends_none split: if_splits)
  then show ?case using send_cancel_sends [OF s(1)] sends_trans by blast
qed (simp add: sends_none)

lemma kill_phase_kept: "kill_phase en th = Some th' \<Longrightarrow> loop_kept th th'"
proof (cases "th_kill_flag th \<and> \<not> is_killed (th_order_mgr th) \<and> cs_state (th_conn th) = kConnected")
  case True
  assume "kill_phase en th = Some th'"
  then obtain cs om ts where "send_cancels en cs (th\<lparr>th_clock := ts, th_order_mgr := om\<rparr>) = Some th'"
    using True by (auto simp: kill_phase_def bind_eq_Some_conv dest!: read_clock_same)
  then show ?thesis using True send_cancels_ok send_cancels_sends by (fastforce simp: loop_kept_def sends_def)
qed (auto simp: kill_phase_def)

lemma timeout_phase_kept: "timeout_phase en th = Some th' \<Longrightarrow> loop_kept th th'"
proof (cases "cs_state (th_conn th) = kConnected")
  case True
  assume "timeout_phase en th = Some th'"
  then obtain now batch om ts where t: "advance_timeouts (th_order_mgr th) now = Some (batch, om)"
    "send_cancels en (take (unat (cb_count batch)) (cb_cancels batch)) (th\<lparr>th_clock := ts, th_order_mgr := om\<rparr>) = Some th'"
    using True by (auto simp: timeout_phase_def bind_eq_Some_conv dest!: read_clock_same)
  show ?thesis
  proof (cases "is_killed (th_order_mgr th)")
    case True
    then have "th' = th\<lparr>th_clock := ts\<rparr>" using t by (auto simp: advance_timeouts_def is_killed_def)
    then show ?thesis by (simp add: rx_loop_step rx_kept_frame)
  next
    case False
    then show ?thesis using t(2) send_cancels_ok send_cancels_sends by (fastforce simp: loop_kept_def sends_def)
  qed
qed (auto simp: timeout_phase_def)

lemma send_heartbeat_kept: "send_heartbeat en th = Some th' \<Longrightarrow> loop_kept th th'"
proof -
  assume "send_heartbeat en th = Some th'"
  then obtain n tx where p: "pack_tcp_message en (th_tx_buf th) kHeartbeat [] = Some (n, tx)"
    "(if n > 0 then send_checked n (th\<lparr>th_tx_buf := tx\<rparr>) \<bind> (\<lambda>(ok, th). if ok then Some th else th_disconnect th)
      else Some (th\<lparr>th_tx_buf := tx\<rparr>)) = Some th'"
    by (auto simp: send_heartbeat_def Let_def bind_eq_Some_conv)
  show ?thesis
  proof (cases "n > 0")
    case False
    then show ?thesis using p(2) by (auto intro!: rx_loop_step rx_kept_frame)
  next
    case True
    then obtain ok th1 where s: "send_checked n (th\<lparr>th_tx_buf := tx\<rparr>) = Some (ok, th1)"
      "if ok then th' = th1 else th_disconnect th1 = Some th'"
      using p(2) by (auto simp: bind_eq_Some_conv split: if_splits)
    have "heartbeat_frame (take n (th_tx_buf (th\<lparr>th_tx_buf := tx\<rparr>)))" using packed_frame [OF p(1) True] by (simp add: heartbeat_frame_def)
    then have "loop_kept th th1" using send_checked_sends [OF s(1), of heartbeat_frame] backoff_ok_ctl [OF send_checked_ctl [OF s(1)]]
      by (auto simp: loop_kept_def sends_def client_frame_def)
    moreover have "loop_kept th1 th'" using s(2) th_disconnect_kept [of th1 th'] rx_loop_step [of th1 th'] by (auto split: if_splits)
    ultimately show ?thesis by (rule loop_kept_trans)
  qed
qed

lemma heartbeat_phase_kept: "heartbeat_phase en th = Some th' \<Longrightarrow> loop_kept th th'"
proof (cases "cs_state (th_conn th) = kConnected")
  case True
  assume "heartbeat_phase en th = Some th'"
  then obtain now ts th1 where h: "(if now - cs_last_hb_sent (th_conn th) \<ge> kHeartbeatIntervalNs then do {
        th \<leftarrow> send_heartbeat en (th\<lparr>th_clock := ts\<rparr>);
        Some (th\<lparr>th_conn := th_conn th\<lparr>cs_last_hb_sent := now, cs_heartbeats_sent := cs_heartbeats_sent (th_conn th) + 1\<rparr>\<rparr>)
      } else Some (th\<lparr>th_clock := ts\<rparr>)) = Some th1"
    "(if now - cs_last_hb_recv (th_conn th1) \<ge> kHeartbeatTimeoutNs then th_disconnect th1 else Some th1) = Some th'"
    using True by (auto simp: heartbeat_phase_def bind_eq_Some_conv dest!: read_clock_same)
  have tick: "loop_kept th (th\<lparr>th_clock := ts\<rparr>)" by (simp add: rx_loop_step rx_kept_frame)
  have "loop_kept th th1"
  proof (cases "now - cs_last_hb_sent (th_conn th) \<ge> kHeartbeatIntervalNs")
    case True
    then obtain th2 where s: "send_heartbeat en (th\<lparr>th_clock := ts\<rparr>) = Some th2"
      "th1 = th2\<lparr>th_conn := th_conn th2\<lparr>cs_last_hb_sent := now, cs_heartbeats_sent := cs_heartbeats_sent (th_conn th2) + 1\<rparr>\<rparr>"
      using h(1) by (auto simp: bind_eq_Some_conv)
    have "loop_kept th2 th1" using backoff_ok_ctl [of "th_conn th1" "th_conn th2"] by (simp add: s(2) loop_kept_def sends_none ctl_def)
    with send_heartbeat_kept [OF s(1)] tick show ?thesis using loop_kept_trans by blast
  next
    case False
    then show ?thesis using h(1) tick by simp
  qed
  moreover have "loop_kept th1 th'" using h(2) th_disconnect_kept [of th1 th'] rx_loop_step [of th1 th'] by (auto split: if_splits)
  ultimately show ?thesis by (rule loop_kept_trans)
qed (auto simp: heartbeat_phase_def)

lemma connect_timeout_phase_kept: "connect_timeout_phase th = Some th' \<Longrightarrow> loop_kept th th'"
proof (cases "cs_state (th_conn th) = kConnecting")
  case True
  have s: "backoff_ok (th_conn th) \<Longrightarrow>
      backoff_ok (schedule_reconnect ((th_conn th)\<lparr>cs_connecting_fd := - 1, cs_state := kDisconnected\<rparr>) now)" for now
    by (rule schedule_ok) (use True in \<open>auto simp: backoff_ok_def\<close>)
  assume "connect_timeout_phase th = Some th'"
  then show ?thesis using True s
    by (auto simp: connect_timeout_phase_def bind_eq_Some_conv loop_kept_def sends_none dest!: read_clock_same split: if_splits)
qed (auto simp: connect_timeout_phase_def)

lemma reconnect_phase_kept: "reconnect_phase ret th = Some (go, th') \<Longrightarrow> loop_kept th th'"
proof (cases "cs_state (th_conn th) = kDisconnected")
  case True
  assume "reconnect_phase ret th = Some (go, th')"
  then show ?thesis using True start_connect_ok [of "th_conn th" ret]
    by (auto simp: reconnect_phase_def bind_eq_Some_conv loop_kept_def sends_none not_le dest!: read_clock_same split: if_splits)
qed (auto simp: reconnect_phase_def)

lemma send_signal_kept: "send_signal en sg th = Some (ok, th') \<Longrightarrow> loop_kept th th'"
proof -
  assume s: "send_signal en sg th = Some (ok, th')"
  show ?thesis
  proof (cases "is_killed (th_order_mgr th)")
    case True
    then show ?thesis using s
      by (auto simp: send_signal_def check_modify_def on_signal_def is_killed_def Let_def elim!: bind_eq_SomeE dest!: read_clock_same
          intro!: rx_loop_step simp: rx_kept_def)
  next
    case False
    have "sends client_frame th th'" using s
      by (auto simp: send_signal_def Let_def elim!: bind_eq_SomeE dest!: read_clock_same send_modify_sends send_order_sends
          split: if_splits) (auto simp: sends_def)
    then show ?thesis using False backoff_ok_ctl [OF send_signal_ctl [OF s]] by (simp add: loop_kept_def)
  qed
qed

lemma drain_loop_kept: "drain_loop en n batch th = Some th' \<Longrightarrow> loop_kept th th'"
proof (induction batch arbitrary: th)
  case (Cons queued batch)
  then obtain sig strategy where m: "on_market_data n (th_strategy th) (qu_update queued) = Some (sig, strategy)"
    by (auto elim!: bind_eq_SomeE)
  let ?th = "th\<lparr>th_strategy := strategy\<rparr>"
  have k: "loop_kept th ?th" by (simp add: rx_loop_step rx_kept_frame)
  have "loop_kept ?th th'"
  proof (cases "sig = None \<or> cs_state (th_conn th) \<noteq> kConnected")
    case True
    then show ?thesis using Cons.prems m Cons.IH by (auto simp: Let_def split: option.splits)
  next
    case False
    then obtain signal ok th1 where s: "send_signal en signal ?th = Some (ok, th1)"
      "if ok then drain_loop en n batch th1 = Some th' else th_disconnect th1 = Some th'"
      using Cons.prems m by (auto simp: Let_def bind_eq_Some_conv split: if_splits)
    have "loop_kept th1 th'" using s(2) Cons.IH th_disconnect_kept [of th1 th'] rx_loop_step [of th1 th'] by (auto split: if_splits)
    then show ?thesis by (rule loop_kept_trans [OF send_signal_kept [OF s(1)]])
  qed
  then show ?case by (rule loop_kept_trans [OF k])
qed simp

lemma loop_iteration_kept: "loop_iteration en n inp th = Some th' \<Longrightarrow> loop_kept th th'"
proof -
  assume l: "loop_iteration en n inp th = Some th'"
  let ?th = "th\<lparr>th_kill_flag := th_kill_flag th \<or> li_kill inp\<rparr>"
  obtain th1 where k: "kill_phase en ?th = Some th1" using l by (auto simp: loop_iteration_def bind_eq_Some_conv)
  have "loop_kept th ?th" by (simp add: rx_loop_step rx_kept_frame)
  then have k1: "loop_kept th th1" using kill_phase_kept [OF k] by (rule loop_kept_trans)
  show ?thesis
  proof (cases "om_kill_switch_state (th_order_mgr th1) = kComplete")
    case True
    then have "th' = th1\<lparr>th_stop := True\<rparr>" using l k by (simp add: loop_iteration_def)
    then have "loop_kept th1 th'" by (simp add: rx_loop_step rx_kept_frame)
    then show ?thesis by (rule loop_kept_trans [OF k1])
  next
    case False
    then obtain th2 th3 go th4 where p: "heartbeat_phase en th1 = Some th2" "connect_timeout_phase th2 = Some th3"
      "reconnect_phase (li_connect inp) th3 = Some (go, th4)"
      "(if \<not> go then Some th4 else do {
          th \<leftarrow> timeout_phase en th4; th \<leftarrow> drain_loop en n (li_batch inp) th; handle_events en (li_events inp) th }) = Some th'"
      using l k by (auto simp: loop_iteration_def bind_eq_Some_conv)
    have k4: "loop_kept th th4"
      by (rule loop_kept_trans [OF loop_kept_trans [OF loop_kept_trans [OF k1 heartbeat_phase_kept [OF p(1)]]
            connect_timeout_phase_kept [OF p(2)]] reconnect_phase_kept [OF p(3)]])
    have "loop_kept th4 th'"
    proof (cases go)
      case True
      then obtain th5 th6 where q: "timeout_phase en th4 = Some th5" "drain_loop en n (li_batch inp) th5 = Some th6"
        "handle_events en (li_events inp) th6 = Some th'"
        using p(4) by (auto simp: bind_eq_Some_conv)
      show ?thesis
        by (rule loop_kept_trans [OF loop_kept_trans [OF timeout_phase_kept [OF q(1)] drain_loop_kept [OF q(2)]]
              rx_loop_step [OF handle_events_kept [OF q(3)]]])
    qed (use p(4) in simp)
    then show ?thesis by (rule loop_kept_trans [OF k4])
  qed
qed

lemma loop_run_kept: "loop_run en n inps th = Some th' \<Longrightarrow> loop_kept th th'"
proof (induction inps arbitrary: th)
  case (Cons inp inps)
  show ?case
  proof (cases "th_stop th")
    case False
    then obtain th1 where r: "loop_iteration en n inp th = Some th1" "loop_run en n inps th1 = Some th'"
      using Cons.prems by (auto simp: bind_eq_Some_conv)
    show ?thesis by (rule loop_kept_trans [OF loop_iteration_kept [OF r(1)] Cons.IH [OF r(2)]])
  qed (use Cons.prems in simp)
qed simp

end
