(* ===== verification/StrategyThreadStream.thy ===== *)
theory StrategyThreadStream
  imports StrategyThread
begin

text \<open>
  The receive loop of the strategy thread as a function of the byte stream: however the bytes
  are split over calls of \<^verbatim>\<open>recv\<close>, the complete messages are dispatched once each, in order, and
  an incomplete one waits in the buffer.
\<close>

section \<open>Messages and the receive buffer\<close>

definition whole :: "ParsedMessageView \<Rightarrow> bool" where
  "whole m \<longleftrightarrow> mh_magic (pm_header m) = kMessageMagic \<and> mh_payload_len (pm_header m) = of_nat (length (pm_payload m)) \<and>
     length (pm_payload m) \<le> kMaxPayloadSize"

definition frame :: "ParsedMessageView \<Rightarrow> u8 list" where
  "frame m = message_bytes (mh_version (pm_header m)) (mh_msg_type (pm_header m)) (mh_flags (pm_header m)) (pm_payload m)"

definition unread :: "StrategyThread \<Rightarrow> u8 list" where
  "unread th = drop (th_rx_read th) (take (th_rx_write th) (th_rx_data th))"

definition rx_bounds :: "StrategyThread \<Rightarrow> bool" where
  "rx_bounds th \<longleftrightarrow> th_rx_read th \<le> th_rx_write th \<and> th_rx_write th \<le> length (th_rx_data th)"

fun dispatch_all :: "endian \<Rightarrow> ParsedMessageView list \<Rightarrow> StrategyThread \<Rightarrow> StrategyThread outcome" where
  "dispatch_all en [] th = Some th"
| "dispatch_all en (m # ms) th = dispatch_message en m th \<bind> dispatch_all en ms"

lemma dispatch_all_append: "dispatch_all en (ms @ ns) th = dispatch_all en ms th \<bind> dispatch_all en ns"
proof (induction ms arbitrary: th)
  case (Cons m ms)
  then show ?case by (cases "dispatch_message en m th") simp_all
qed simp

lemma length_frame: "length (frame m) = 16 + length (pm_payload m)"
  by (simp add: frame_def)

lemma whole_consumed: "whole m \<Longrightarrow> kMessageHeaderSize + unat (mh_payload_len (pm_header m)) = length (frame m)"
  by (simp add: whole_def length_frame kMessageHeaderSize_def kMaxPayloadSize_def unat_of_nat)

lemma unpack_frame: "whole m \<Longrightarrow> unpack_message en (frame m @ rest) = Some (Some m)"
  using unpack_message_bytes [of "pm_payload m" en] by (cases m; cases "pm_header m") (simp add: whole_def frame_def)

lemma unpack_partial:
  assumes "whole m" "p @ q = frame m" "q \<noteq> []"
  shows "unpack_message en p = Some None"
proof (rule ccontr)
  assume "unpack_message en p \<noteq> Some None"
  then obtain v where v: "unpack_message en p = Some (Some v)" using unpack_message_total [of en p] by auto
  obtain r where p: "p = frame v @ r" and l: "length (pm_payload v) \<le> kMaxPayloadSize"
    using unpack_message_sound [OF v] by (auto simp: frame_def)
  have "unpack_message en (frame v @ r @ q) = Some (Some m)"
    using unpack_frame [OF assms(1), of en "[]"] by (simp flip: assms(2) add: p)
  then have "pm_payload v = pm_payload m"
    unfolding frame_def unpack_message_bytes [OF l] by auto
  then show False using arg_cong [OF assms(2), of length] assms(3) by (simp add: p length_frame)
qed

section \<open>Dispatch leaves the buffer alone\<close>

definition rxu :: "u8 list \<Rightarrow> nat \<Rightarrow> nat \<Rightarrow> recv_ret list \<Rightarrow> StrategyThread \<Rightarrow> StrategyThread" where
  "rxu d r w e th = th\<lparr>th_rx_data := d, th_rx_read := r, th_rx_write := w, th_recv_env := e\<rparr>"

lemma rxu_fields [simp]:
  "th_rx_data (rxu d r w e th) = d" "th_rx_read (rxu d r w e th) = r" "th_rx_write (rxu d r w e th) = w"
  "th_recv_env (rxu d r w e th) = e" "rxu d r w e (rxu d' r' w' e' th) = rxu d r w e th"
  by (simp_all add: rxu_def)

lemma rxu_self: "rxu (th_rx_data th) (th_rx_read th) (th_rx_write th) (th_recv_env th) th = th"
  by (simp add: rxu_def)

lemma dispatch_rxu: "dispatch_message en m (rxu d r w e th) = map_option (rxu d r w e) (dispatch_message en m th)"
proof (cases "th_clock th")
  case (Cons t ts)
  show ?thesis
    by (cases "on_tcp_message en m t (th_response th, th_order_mgr th, th_conn th)")
       (auto simp: dispatch_message_def read_clock_def rxu_def Cons Let_def)
qed (simp add: dispatch_message_def read_clock_def rxu_def)

lemma dispatch_all_rxu: "dispatch_all en ms (rxu d r w e th) = map_option (rxu d r w e) (dispatch_all en ms th)"
proof (induction ms arbitrary: th)
  case (Cons m ms)
  then show ?case by (cases "dispatch_message en m th") (simp_all add: dispatch_rxu)
qed simp

lemma dispatch_fields:
  assumes "dispatch_message en m th = Some th'"
  shows "rxu (th_rx_data th) (th_rx_read th) (th_rx_write th) (th_recv_env th) th' = th'"
  using dispatch_rxu [of en m "th_rx_data th" "th_rx_read th" "th_rx_write th" "th_recv_env th" th] assms by (simp add: rxu_self)

section \<open>Parsing\<close>

lemma length_unread: "rx_bounds th \<Longrightarrow> length (unread th) = th_rx_write th - th_rx_read th"
  by (simp add: unread_def rx_bounds_def)

lemma parse_loop_stop:
  assumes "whole nx" "unread th @ q = frame nx" "q \<noteq> []" "rx_bounds th"
  shows "parse_loop en th = Some th"
  using unpack_partial [OF assms(1-3), of en] by (subst parse_loop.simps) (simp add: unread_def)

lemma parse_loop_next:
  assumes "whole m" "unread th = frame m @ rest" "rx_bounds th"
  shows "parse_loop en th = dispatch_message en m th \<bind> (\<lambda>th. parse_loop en (th\<lparr>th_rx_read := th_rx_read th + length (frame m)\<rparr>))"
proof -
  have "th_rx_write th - th_rx_read th \<ge> kMessageHeaderSize"
    using length_unread [OF assms(3)] assms(2) by (simp add: kMessageHeaderSize_def length_frame)
  then show ?thesis using unpack_frame [OF assms(1), of en rest] assms(2) whole_consumed [OF assms(1)]
    by (subst parse_loop.simps) (simp add: unread_def Let_def)
qed

lemma parse_loop_stream:
  assumes "rx_bounds th" "unread th = concat (map frame ms) @ p" "\<forall>m \<in> set ms. whole m"
    and "whole nx" "p @ q = frame nx" "q \<noteq> []"
  shows "parse_loop en th = map_option (rxu (th_rx_data th) (th_rx_write th - length p) (th_rx_write th) (th_recv_env th)) (dispatch_all en ms th)"
  using assms(1-3)
proof (induction ms arbitrary: th)
  case Nil
  have "th_rx_write th - length p = th_rx_read th"
    using length_unread [OF Nil.prems(1)] Nil.prems(1,2) by (simp add: rx_bounds_def)
  then show ?case using parse_loop_stop [OF assms(4) _ assms(6), of th en] Nil.prems assms(5) by (simp add: rxu_self)
next
  case (Cons m ms)
  have w: "whole m" and u: "unread th = frame m @ concat (map frame ms) @ p" using Cons.prems by simp_all
  show ?case
  proof (cases "dispatch_message en m th")
    case None
    then show ?thesis using parse_loop_next [OF w u Cons.prems(1)] by simp
  next
    case (Some th1)
    let ?r = "th_rx_read th + length (frame m)"
    let ?th2 = "rxu (th_rx_data th) ?r (th_rx_write th) (th_recv_env th) th1"
    note f = dispatch_fields [OF Some]
    have th2: "th1\<lparr>th_rx_read := th_rx_read th1 + length (frame m)\<rparr> = ?th2"
      by (subst f [symmetric], subst f [symmetric]) (simp add: rxu_def)
    have "unread ?th2 = drop (length (frame m)) (unread th)" by (simp add: unread_def add.commute)
    then have u2: "unread ?th2 = concat (map frame ms) @ p" by (simp add: u)
    have "rx_bounds ?th2" using Cons.prems(1) length_unread [OF Cons.prems(1)] u by (auto simp: rx_bounds_def)
    from Cons.IH [OF this u2] Cons.prems(3)
    have "parse_loop en ?th2 = map_option (rxu (th_rx_data th) (th_rx_write th - length p) (th_rx_write th) (th_recv_env th)) (dispatch_all en ms ?th2)" by simp
    also have "dispatch_all en ms ?th2 = map_option (\<lambda>t. rxu (th_rx_data th) ?r (th_rx_write th) (th_recv_env th) t) (dispatch_all en ms th1)"
      by (rule dispatch_all_rxu)
    finally show ?thesis using parse_loop_next [OF w u Cons.prems(1), of en] Some th2
      by (cases "dispatch_all en ms th1") simp_all
  qed
qed

section \<open>The stream\<close>

text \<open>The calls of \<^verbatim>\<open>recv\<close> deliver bytes and then find the socket empty.\<close>

fun blocks :: "recv_ret list \<Rightarrow> bool" where
  "blocks [] = False"
| "blocks (Received bs # env) = (bs \<noteq> [] \<and> blocks env)"
| "blocks (RecvFailed e # env) = (e = EAGAIN \<or> e = EWOULDBLOCK \<or> e = EINTR \<and> blocks env)"

lemma raw_recv_blocks:
  "blocks env \<Longrightarrow> 0 < len \<Longrightarrow> (\<exists>env'. raw_recv env len = Some (IoWouldBlock, [], env') \<and> stream env = []) \<or>
    (\<exists>bs env'. raw_recv env len = Some (IoOk, bs, env') \<and> bs \<noteq> [] \<and> length bs \<le> len \<and> blocks env' \<and>
       stream env = bs @ stream env' \<and> pending env' < pending env)"
proof (induction env)
  case (Cons e env)
  then show ?case by (cases e) (auto split: if_splits)
qed simp

text \<open>A prefix of a sequence of messages consists of complete ones and the beginning of the next.\<close>

lemma prefix_frames:
  assumes "b @ c = concat (map frame ms) @ p" "p @ q = frame nx" "q \<noteq> []"
  obtains ds es b' r where "ms = ds @ es" "b = concat (map frame ds) @ b'" "b' @ c = concat (map frame es) @ p"
    "b' @ r = frame (hd (es @ [nx]))" "r \<noteq> []"
  using assms
proof (induction ms arbitrary: b thesis)
  case Nil
  then show ?case by (metis Nil.prems(1) append.assoc append_Nil append_is_Nil_conv concat.simps(1) list.sel(1) list.map(1))
next
  case (Cons m ms)
  have eq: "b @ c = frame m @ concat (map frame ms) @ p" using Cons.prems(2) by simp
  obtain us where us: "b = frame m @ us \<and> us @ c = concat (map frame ms) @ p \<or>
      b @ us = frame m \<and> c = us @ concat (map frame ms) @ p"
    using eq unfolding append_eq_append_conv2 by blast
  consider r where "b @ r = frame m" "r \<noteq> []" "c = r @ concat (map frame ms) @ p"
    | b1 where "b = frame m @ b1" "b1 @ c = concat (map frame ms) @ p"
    using us by (cases "us = []") auto
  then show ?case
  proof cases
    case 1
    then show ?thesis using Cons.prems(1) [of "[]" "m # ms" b r] by auto
  next
    case 2
    obtain ds es b' r where "ms = ds @ es" "b1 = concat (map frame ds) @ b'" "b' @ c = concat (map frame es) @ p"
      "b' @ r = frame (hd (es @ [nx]))" "r \<noteq> []"
      by (rule Cons.IH [OF _ 2(2) Cons.prems(3,4)])
    then show ?thesis using Cons.prems(1) [of "m # ds" es b' r] 2(1) by simp
  qed
qed

lemma drop_suffix: "drop r xs = a @ b \<Longrightarrow> r \<le> length xs \<Longrightarrow> drop (length xs - length b) xs = b"
proof -
  assume d: "drop r xs = a @ b" and r: "r \<le> length xs"
  have "length xs - length b = length a + r" using arg_cong [OF d, of length] r by simp
  then show ?thesis using arg_cong [OF d, of "drop (length a)"] by simp
qed

definition buffer_holds :: "nat \<Rightarrow> u8 list \<Rightarrow> u8 list \<Rightarrow> nat \<Rightarrow> nat \<Rightarrow> bool" where
  "buffer_holds cap p d r w \<longleftrightarrow> r \<le> w \<and> w \<le> length d \<and> length d = cap \<and> drop r (take w d) = p"

lemma buffer_holds_rxu: "buffer_holds cap p d r w \<longleftrightarrow> rx_bounds (rxu d r w e th) \<and> length d = cap \<and> unread (rxu d r w e th) = p"
  by (auto simp: buffer_holds_def rx_bounds_def unread_def)

lemma buffer_can_hold:
  assumes "length p \<le> cap"
  obtains d r w where "buffer_holds cap p d r w"
proof
  show "buffer_holds cap p (p @ replicate (cap - length p) 0) 0 (length p)" using assms by (simp add: buffer_holds_def)
qed

lemma rx_make_space_unread:
  assumes "rx_bounds th" "length (unread th) < length (th_rx_data th)"
  obtains d r w where "rx_make_space th = Some (True, rxu d r w (th_recv_env th) th)" "w < length d"
    "length d = length (th_rx_data th)" "buffer_holds (length (th_rx_data th)) (unread th) d r w"
proof (cases "th_rx_write th \<ge> length (th_rx_data th)")
  case True
  let ?n = "th_rx_write th - th_rx_read th"
  let ?d = "take ?n (drop (th_rx_read th) (th_rx_data th)) @ drop ?n (th_rx_data th)"
  have r: "th_rx_read th > 0" using True assms length_unread [OF assms(1)] by (auto simp: rx_bounds_def)
  have l: "length ?d = length (th_rx_data th)" using assms(1) by (auto simp: rx_bounds_def)
  have "unread th = take ?n (drop (th_rx_read th) (th_rx_data th))" by (simp add: unread_def drop_take)
  then show ?thesis using that [of ?d 0 ?n] True r l assms
    by (auto simp: rx_make_space_def rxu_def rx_bounds_def unread_def buffer_holds_def Let_def)
next
  case False
  then show ?thesis using that [of "th_rx_data th" "th_rx_read th" "th_rx_write th"] assms
    by (simp add: rx_make_space_def rxu_self rx_bounds_def unread_def buffer_holds_def)
qed

lemma rx_append_unread:
  assumes "rx_bounds th" "length bs \<le> length (th_rx_data th) - th_rx_write th"
  shows "rx_bounds (rx_append bs th)" "unread (rx_append bs th) = unread th @ bs" "length (th_rx_data (rx_append bs th)) = length (th_rx_data th)"
  using assms by (auto simp: rx_append_def rx_bounds_def unread_def)

lemma rx_reset_rxu: "rx_reset (rxu d r w e th) = (if r = w then rxu d 0 0 e th else rxu d r w e th)"
  by (cases th) (simp add: rx_reset_def rxu_def)

text \<open>
  \<open>fits\<close>: a well-formed message that the receive buffer can hold. The loop dispatches all complete
  messages of the stream and leaves the beginning of the next one unread.
\<close>

definition fits :: "nat \<Rightarrow> ParsedMessageView \<Rightarrow> bool" where
  "fits cap m \<longleftrightarrow> whole m \<and> length (frame m) \<le> cap"

text \<open>One turn of the loop that receives bytes: complete messages are dispatched, the rest is kept.\<close>

lemma rx_loop_turn:
  assumes h: "buffer_holds cap b d r w" "w < length d" and len: "length bs \<le> length d - w"
    and sq: "b @ bs = concat (map frame ds) @ b'" "\<forall>m \<in> set ds. whole m" "whole nx" "b' @ r' = frame nx" "r' \<noteq> []"
  obtains d' r'' w' where "buffer_holds cap b' d' r'' w'"
    "parse_loop en (rx_append bs (rxu d r w e th)) \<bind> (\<lambda>th. rx_loop en (rx_reset th)) =
       dispatch_all en ds th \<bind> (\<lambda>t. rx_loop en (rxu d' r'' w' e t))"
proof -
  let ?th1 = "rxu d r w e th"
  let ?th2 = "rx_append bs ?th1"
  let ?R = "w + length bs - length b'" and ?W = "w + length bs" and ?D = "th_rx_data ?th2"
  have b1: "rx_bounds ?th1" "unread ?th1 = b" "length d = cap" using h(1) buffer_holds_rxu by blast+
  note ap = rx_append_unread [OF b1(1), of bs, simplified, OF len]
  have th2: "?th2 = rxu ?D r ?W e th" by (simp add: rx_append_def rxu_def)
  have wr: "th_rx_write ?th2 = ?W" "th_rx_read ?th2 = r" "th_recv_env ?th2 = e" by (simp_all add: rx_append_def)
  then have lt: "length (take ?W ?D) = ?W" "r \<le> ?W" "?W \<le> length ?D" using ap(1) by (auto simp: rx_bounds_def)
  have "drop r (take ?W ?D) = concat (map frame ds) @ b'" using ap(2) b1(2) sq(1) wr by (simp add: unread_def)
  from drop_suffix [OF this] lt have "drop ?R (take ?W ?D) = b'" by simp
  then have holds: "buffer_holds cap b' ?D ?R ?W" using lt ap(3) b1(3) by (simp add: buffer_holds_def)
  have "parse_loop en ?th2 = map_option (rxu ?D (th_rx_write ?th2 - length b') (th_rx_write ?th2) (th_recv_env ?th2)) (dispatch_all en ds ?th2)"
    by (rule parse_loop_stream [OF ap(1) _ sq(2-5)]) (simp add: ap(2) b1(2) sq(1))
  also have "dispatch_all en ds ?th2 = map_option (rxu ?D r ?W e) (dispatch_all en ds th)" by (subst th2) (rule dispatch_all_rxu)
  finally have parse: "parse_loop en ?th2 = map_option (rxu ?D ?R ?W e) (dispatch_all en ds th)"
    unfolding wr by (simp add: option.map_comp comp_def)
  show ?thesis
  proof (cases "?R = ?W")
    case True
    have "buffer_holds cap b' ?D 0 0" using holds True by (auto simp: buffer_holds_def)
    then show ?thesis by (rule that) (cases "dispatch_all en ds th", use parse True in \<open>auto simp: rx_reset_rxu\<close>)
  next
    case False
    show ?thesis by (rule that [OF holds]) (cases "dispatch_all en ds th", use parse False in \<open>auto simp: rx_reset_rxu\<close>)
  qed
qed

lemma rx_loop_stream:
  assumes "rx_bounds th" "blocks (th_recv_env th)" "\<forall>m \<in> set (ms @ [nx]). fits (length (th_rx_data th)) m"
    and "unread th @ stream (th_recv_env th) = concat (map frame ms) @ p" "p @ q = frame nx" "q \<noteq> []"
    and "length (unread th) < length (frame (hd (ms @ [nx])))"
  shows "\<exists>d r w e. rx_loop en th = map_option (rxu d r w e) (dispatch_all en ms th) \<and> buffer_holds (length (th_rx_data th)) p d r w"
  using assms
proof (induction "pending (th_recv_env th)" arbitrary: th ms rule: less_induct)
  case less
  note prems = less.prems
  let ?cap = "length (th_rx_data th)"
  have cap: "length (frame (hd (ms @ [nx]))) \<le> ?cap" "length p \<le> ?cap"
    using prems(3) arg_cong [OF prems(5), of length] by (cases ms; auto simp: fits_def)+
  then have "length (unread th) < ?cap" using prems(7) by simp
  then obtain d r w where sp: "rx_make_space th = Some (True, rxu d r w (th_recv_env th) th)" "w < length d" "length d = ?cap"
    "buffer_holds ?cap (unread th) d r w"
    by (rule rx_make_space_unread [OF prems(1)])
  have pos: "0 < length d - w" using sp(2) by simp
  consider env' where "raw_recv (th_recv_env th) (length d - w) = Some (IoWouldBlock, [], env')" "stream (th_recv_env th) = []"
    | bs env' where "raw_recv (th_recv_env th) (length d - w) = Some (IoOk, bs, env')" "length bs \<le> length d - w" "blocks env'"
      "stream (th_recv_env th) = bs @ stream env'" "pending env' < pending (th_recv_env th)"
    using raw_recv_blocks [OF prems(2) pos] by blast
  then show ?case
  proof cases
    case 1
    have "ms = []" by (rule ccontr) (use prems(4,7) 1(2) in \<open>cases ms; auto\<close>)
    moreover from this have "unread th = p" using prems(4) 1(2) by simp
    ultimately have "rx_loop en th = map_option (rxu d r w env') (dispatch_all en ms th)"
      using sp 1 by (subst rx_loop.simps) (simp add: cassert_def rxu_def Let_def)
    then show ?thesis using sp(4) \<open>unread th = p\<close> by blast
  next
    case 2
    obtain ds es b' r' where sq: "ms = ds @ es" "unread th @ bs = concat (map frame ds) @ b'" "b' @ stream env' = concat (map frame es) @ p"
      "b' @ r' = frame (hd (es @ [nx]))" "r' \<noteq> []"
      by (rule prefix_frames [of "unread th @ bs" "stream env'" ms p q nx]) (use prems(4-6) 2(4) in auto)
    have fit: "\<forall>m \<in> set (es @ [nx]). fits ?cap m" "\<forall>m \<in> set ds. whole m" "whole (hd (es @ [nx]))"
      using prems(3) sq(1) by (auto simp: fits_def hd_append)
    obtain d' r'' w' where turn: "buffer_holds ?cap b' d' r'' w'"
      "parse_loop en (rx_append bs (rxu d r w env' th)) \<bind> (\<lambda>th. rx_loop en (rx_reset th)) =
         dispatch_all en ds th \<bind> (\<lambda>t. rx_loop en (rxu d' r'' w' env' t))"
      by (rule rx_loop_turn [OF sp(4,2) 2(2) sq(2) fit(2,3) sq(4,5)])
    have loop: "rx_loop en th = dispatch_all en ds th \<bind> (\<lambda>t. rx_loop en (rxu d' r'' w' env' t))"
      unfolding turn(2) [symmetric] using sp 2(1) by (subst rx_loop.simps) (simp add: cassert_def rxu_def Let_def)
    show ?thesis
    proof (cases "dispatch_all en ds th")
      case None
      then show ?thesis using loop sq(1) buffer_can_hold [OF cap(2)] by (simp add: dispatch_all_append) metis
    next
      case (Some t)
      let ?th3 = "rxu d' r'' w' env' t"
      have b3: "rx_bounds ?th3" "length d' = ?cap" "unread ?th3 = b'" using turn(1) buffer_holds_rxu by blast+
      have "\<exists>d r w e. rx_loop en ?th3 = map_option (rxu d r w e) (dispatch_all en es ?th3) \<and> buffer_holds (length (th_rx_data ?th3)) p d r w"
        by (rule less.hyps [OF _ b3(1)]) (use 2 fit sq(3,5) prems(5,6) b3(2,3) in \<open>auto simp flip: sq(4)\<close>)
      then show ?thesis using loop Some sq(1) b3(2) by (auto simp: dispatch_all_append dispatch_all_rxu option.map_comp comp_def)
    qed
  qed
qed

end
