(* ===== verification/StrategyThreadClaims.thy ===== *)
theory StrategyThreadClaims
  imports StrategyThreadProps StrategyThreadStream OrderManagerDemo
begin

text \<open>
  The properties of the strategy thread: reconnection, what goes over the wire, how the bytes
  received become order manager events, and the two ways into the kill switch.
\<close>

section \<open>A small thread\<close>

definition demo_thread :: "OrderManager \<Rightarrow> i64 list \<Rightarrow> send_ret list \<Rightarrow> recv_ret list \<Rightarrow> StrategyThread" where
  "demo_thread om clock send_env recv_env = \<lparr>th_strategy = SpreadStrategy_init 1 10 5, th_order_mgr = om, th_conn = ConnectionState_init,
     th_tx_buf = replicate 64 0, th_scratch = replicate 64 0, th_rx_data = replicate 48 0, th_rx_read = 0, th_rx_write = 0,
     th_stop = False, th_kill_flag = False, th_response = OrderResponseHandler_init,
     th_sender = \<lparr>sh_orders_serialized = 0, sh_modifies_serialized = 0\<rparr>,
     th_clock = clock, th_send_env = send_env, th_recv_env = recv_env, th_sent = []\<rparr>"

definition demo_input :: LoopInput where
  "demo_input = \<lparr>li_kill = False, li_connect = NoSocket, li_batch = [], li_events = []\<rparr>"

lemmas thread_eval = loop_iteration_def demo_input_def demo_thread_def kill_phase_def heartbeat_phase_def
  ConnectionState_init_def is_killed_def read_clock_def kHeartbeatIntervalNs_def kHeartbeatTimeoutNs_def send_heartbeat_def
  pack_tcp_message_def pack_message_eq kMaxPayloadSize_def send_checked_def send_nonblocking_def cassert_def Let_def
  th_disconnect_def disconnect_and_reconnect_def connect_timeout_phase_def reconnect_phase_def due_def
  kReconnectBaseDelayNs_def timeout_phase_def

section \<open>Reconnection and the wire\<close>

text \<open>
  C37. The reconnection state is well-formed throughout every run of the event loop: the delay
  is one second doubled with every failed attempt and at most ten seconds, at most ten
  attempts fail in a row, another one is only started below that limit, and a connection
  starts the count afresh.
\<close>

theorem reconnection_wellformed:
  assumes "loop_run en n inps th = Some th'" "backoff_ok (th_conn th)"
  shows "backoff_ok (th_conn th')"
  using loop_run_kept [OF assms(1)] assms(2) by (simp add: loop_kept_def)

theorem reconnection_wellformed_witness:
  "case loop_run little 1 [demo_input] (demo_thread demo_om [2000000000, 2000000001, 2000000002] [SendFailed EPIPE] []) of
     Some th \<Rightarrow> backoff_ok (th_conn th) | None \<Rightarrow> False"
proof -
  let ?th = "demo_thread demo_om [2000000000, 2000000001, 2000000002] [SendFailed EPIPE] []"
  have "\<exists>th'. loop_run little 1 [demo_input] ?th = Some th'"
    by (simp add: thread_eval demo_om_def)
  then obtain th' where r: "loop_run little 1 [demo_input] ?th = Some th'" by blast
  have "backoff_ok (th_conn ?th)" using backoff_ok_init by (simp add: demo_thread_def)
  from reconnection_wellformed [OF r this] show ?thesis unfolding r by simp
qed

text \<open>
  C38. Every message that a run of the event loop hands to the socket is one complete, framed
  client message of the current protocol version: a heartbeat, a new order, a modify or a
  cancel. Once the kill switch has been triggered it stays so, and only heartbeats are sent.
\<close>

theorem kill_silences_wire:
  assumes "loop_run en n inps th = Some th'"
  shows "\<exists>ms. th_sent th' = th_sent th @ ms \<and> (\<forall>m \<in> set ms. client_frame (fst m)) \<and>
    (is_killed (th_order_mgr th) \<longrightarrow> is_killed (th_order_mgr th') \<and> (\<forall>m \<in> set ms. fst m = tcp_frame kHeartbeat []))"
  using loop_run_kept [OF assms] by (auto simp: loop_kept_def sends_def heartbeat_frame_def)

theorem kill_silences_wire_witness:
  "case loop_run little 1 [demo_input] (demo_thread (demo_om\<lparr>om_kill_switch_state := kDraining\<rparr>) [2000000000, 2000000001, 2000000002] [SendFailed EPIPE] []) of
     Some th \<Rightarrow> is_killed (th_order_mgr th) \<and> list_all (\<lambda>m. fst m = tcp_frame kHeartbeat []) (th_sent th) | None \<Rightarrow> False"
proof -
  let ?th = "demo_thread (demo_om\<lparr>om_kill_switch_state := kDraining\<rparr>) [2000000000, 2000000001, 2000000002] [SendFailed EPIPE] []"
  have "\<exists>th'. loop_run little 1 [demo_input] ?th = Some th'" by (simp add: thread_eval demo_om_def)
  then obtain th' where r: "loop_run little 1 [demo_input] ?th = Some th'" by blast
  have "is_killed (th_order_mgr ?th)" "th_sent ?th = []" by (simp_all add: demo_thread_def is_killed_def)
  with kill_silences_wire [OF r] show ?thesis unfolding r by (auto simp: list_all_iff)
qed

text \<open>
  A send succeeds as soon as the kernel takes part of the message; the rest of it is never
  sent. The peer's stream is out of step from then on.
\<close>

theorem partial_send_accepted:
  assumes "th_send_env th = Sent k # env" "0 < k" "k < tlen" "tlen < 2 ^ 63"
  shows "send_checked tlen th = Some (True, th\<lparr>th_send_env := env, th_sent := th_sent th @ [(take tlen (th_tx_buf th), IoOk, k)]\<rparr>)"
  using assms by (simp add: send_checked_def send_nonblocking_def cassert_def)

section \<open>Into the kill switch\<close>

lemma send_cancel_sent:
  assumes "th_send_env th = Sent k # env" "0 < k" "20 \<le> length (th_scratch th)" "36 \<le> length (th_tx_buf th)"
  obtains th' st j where "send_cancel en c th = Some (True, th')" "th_send_env th' = env" "th_order_mgr th' = th_order_mgr th"
    "th_sent th' = th_sent th @ [(tcp_frame kCancelOrder (wire_cancel_order c), IoOk, j)]"
    "length (th_scratch th') = length (th_scratch th)" "length (th_tx_buf th') = length (th_tx_buf th)"
proof -
  let ?w = "wire_cancel_order c"
  have w: "length ?w = 20" by (rule cancel_order_codec.wire_length)
  have "serialize_cancel_order en (th_scratch th) c = Some (20, ?w @ drop 20 (th_scratch th))"
    using assms(3) by (simp add: cancel_order_codec.ser_eq)
  moreover have "pack_tcp_message en (th_tx_buf th) kCancelOrder ?w = Some (36, tcp_frame kCancelOrder ?w @ drop 36 (th_tx_buf th))"
    using assms(4) w by (simp add: pack_tcp_message_def pack_message_eq tcp_frame_def kMaxPayloadSize_def)
  moreover have "length (tcp_frame kCancelOrder ?w) = 36" by (simp add: tcp_frame_def w)
  ultimately show ?thesis using assms w that
    by (simp add: send_cancel_def pack_and_send_def send_checked_def send_nonblocking_def cassert_def Let_def)
qed

lemma send_cancels_sent:
  assumes "th_send_env th = map Sent ks @ env" "length ks = length cs" "\<forall>k \<in> set ks. 0 < k"
    and "20 \<le> length (th_scratch th)" "36 \<le> length (th_tx_buf th)"
  shows "\<exists>th'. send_cancels en cs th = Some th' \<and> th_order_mgr th' = th_order_mgr th \<and>
    map fst (th_sent th') = map fst (th_sent th) @ map (\<lambda>c. tcp_frame kCancelOrder (wire_cancel_order c)) cs"
  using assms
proof (induction cs arbitrary: th ks)
  case (Cons c cs)
  then obtain k ks' where k: "ks = k # ks'" "length ks' = length cs" by (cases ks) auto
  obtain th1 j where s: "send_cancel en c th = Some (True, th1)" "th_send_env th1 = map Sent ks' @ env" "th_order_mgr th1 = th_order_mgr th"
    "th_sent th1 = th_sent th @ [(tcp_frame kCancelOrder (wire_cancel_order c), IoOk, j)]"
    "length (th_scratch th1) = length (th_scratch th)" "length (th_tx_buf th1) = length (th_tx_buf th)"
    by (rule send_cancel_sent [of th k "map Sent ks' @ env"]) (use Cons.prems k in auto)
  from Cons.IH [OF s(2) k(2)] Cons.prems k s(5,6)
  obtain th' where "send_cancels en cs th1 = Some th'" "th_order_mgr th' = th_order_mgr th1"
    "map fst (th_sent th') = map fst (th_sent th1) @ map (\<lambda>c. tcp_frame kCancelOrder (wire_cancel_order c)) cs"
    by auto
  then show ?case using s by simp
qed simp



text \<open>
  The reject streak of a sequence of messages: rejects since the last ack or fill, counting
  only messages whose payload parses. The flag is the request of the kill switch.
\<close>

definition parses_ok :: "'a option outcome \<Rightarrow> bool" where
  "parses_ok r = (case r of Some (Some _) \<Rightarrow> True | _ \<Rightarrow> False)"

definition streak_step :: "endian \<Rightarrow> nat \<times> bool \<Rightarrow> ParsedMessageView \<Rightarrow> nat \<times> bool" where
  "streak_step en = (\<lambda>(c, k) m.
     let ty = mh_msg_type (pm_header m) in
     if \<not> verify_protocol_version (mh_version (pm_header m)) then (c, True)
     else if ty = MsgType_code kOrderAck \<and> parses_ok (deserialize_order_ack en (pm_payload m)) then (0, k)
     else if ty = MsgType_code kFillReport \<and> parses_ok (deserialize_fill_report en (pm_payload m)) then (0, k)
     else if ty = MsgType_code kOrderReject \<and> parses_ok (deserialize_order_reject en (pm_payload m)) then (c + 1, k \<or> 5 \<le> c + 1)
     else (c, k))"

definition streak_of :: "StrategyThread \<Rightarrow> nat \<times> bool" where
  "streak_of th = (unat (rh_consecutive_rejects (th_response th)), th_kill_flag th)"

lemma on_tcp_message_streak:
  assumes "on_tcp_message en m now (h, om, conn) = Some (kill, h', om', conn')" "unat (rh_consecutive_rejects h) + 1 < 2 ^ 32"
    and "verify_protocol_version (mh_version (pm_header m))"
  shows "(unat (rh_consecutive_rejects h'), k \<or> kill) = streak_step en (unat (rh_consecutive_rejects h), k) m"
proof -
  have "unat (rh_consecutive_rejects h + 1) = unat (rh_consecutive_rejects h) + 1"
    using assms(2) by (simp add: unat_word_ariths)
  then show ?thesis using assms(1,3)
    by (auto simp: on_tcp_message_def streak_step_def parses_ok_def Let_def parse_error_def count_reason_def
        kMaxConsecutiveRejects_def word_le_nat_alt elim!: bind_eq_SomeE split: if_splits option.splits)
qed

lemma dispatch_streak:
  assumes "dispatch_message en m th = Some th'" "fst (streak_of th) + 1 < 2 ^ 32"
  shows "streak_of th' = streak_step en (streak_of th) m"
proof (cases "verify_protocol_version (mh_version (pm_header m))")
  case False
  then show ?thesis using assms(1) by (auto simp: dispatch_message_def streak_of_def streak_step_def Let_def)
next
  case True
  then obtain now kill h om conn where m: "on_tcp_message en m now (th_response th, th_order_mgr th, th_conn th) = Some (kill, h, om, conn)"
    "th_response th' = h" "th_kill_flag th' = (th_kill_flag th \<or> kill)"
    using assms(1) by (auto simp: dispatch_message_def Let_def elim!: bind_eq_SomeE dest!: read_clock_same)
  then show ?thesis using on_tcp_message_streak [OF m(1) _ True, of "th_kill_flag th"] assms(2) by (simp add: streak_of_def)
qed

lemma streak_bound: "fst (streak_step en s m) \<le> fst s + 1"
  by (cases s) (simp add: streak_step_def Let_def)

lemma dispatch_all_streak:
  assumes "dispatch_all en ms th = Some th'" "fst (streak_of th) + length ms < 2 ^ 32"
  shows "streak_of th' = foldl (streak_step en) (streak_of th) ms"
  using assms
proof (induction ms arbitrary: th)
  case (Cons m ms)
  then obtain th1 where d: "dispatch_message en m th = Some th1" "dispatch_all en ms th1 = Some th'" by (auto elim!: bind_eq_SomeE)
  have s: "streak_of th1 = streak_step en (streak_of th) m" by (rule dispatch_streak [OF d(1)]) (use Cons.prems(2) in simp)
  have "fst (streak_of th1) + length ms < 2 ^ 32" using Cons.prems(2) streak_bound [of en "streak_of th" m] unfolding s by simp
  from Cons.IH [OF d(2) this] show ?case by (simp add: s)
qed simp

text \<open>
  C40. The kill switch is requested exactly when a message of another protocol version
  arrives, or the fifth reject without an ack or a fill in between: over every sequence of
  dispatched messages the counter of the handler and the flag follow the reject streak, and
  a payload that does not parse changes neither.
\<close>

theorem reject_streak_kills:
  assumes "dispatch_all en ms th = Some th'" "unat (rh_consecutive_rejects (th_response th)) + length ms < 2 ^ 32"
  shows "(unat (rh_consecutive_rejects (th_response th')), th_kill_flag th') =
    foldl (streak_step en) (unat (rh_consecutive_rejects (th_response th)), th_kill_flag th) ms"
  using dispatch_all_streak [OF assms(1)] assms(2) by (simp add: streak_of_def)

definition demo_message :: "MsgType \<Rightarrow> u8 list \<Rightarrow> ParsedMessageView" where
  "demo_message ty payload = \<lparr>pm_header = \<lparr>mh_magic = kMessageMagic, mh_version = kProtocolVersion, mh_msg_type = MsgType_code ty,
     mh_payload_len = of_nat (length payload), mh_flags = 0\<rparr>, pm_payload = payload\<rparr>"

definition demo_reject :: OrderReject where
  "demo_reject = \<lparr>orj_client_order_id = 7, orj_reason = 8, orj_send_ts = 0\<rparr>"

definition demo_mismatch :: ParsedMessageView where
  "demo_mismatch = \<lparr>pm_header = \<lparr>mh_magic = kMessageMagic, mh_version = kProtocolVersion + 1, mh_msg_type = 0,
     mh_payload_len = 0, mh_flags = 0\<rparr>, pm_payload = []\<rparr>"

theorem reject_streak_kills_witness:
  "case dispatch_all little [demo_message kOrderReject (wire_order_reject demo_reject), demo_mismatch] (demo_thread demo_om [1] [] []) of
     Some th \<Rightarrow> rh_consecutive_rejects (th_response th) = 1 \<and> th_kill_flag th | None \<Rightarrow> False"
proof -
  let ?m = "demo_message kOrderReject (wire_order_reject demo_reject)" and ?th = "demo_thread demo_om [1] [] []"
  have "dispatch_all little [?m, demo_mismatch] ?th \<noteq> None" by code_simp
  then obtain th' where d: "dispatch_all little [?m, demo_mismatch] ?th = Some th'" by blast
  have "(unat (rh_consecutive_rejects (th_response th')), th_kill_flag th') =
      foldl (streak_step little) (unat (rh_consecutive_rejects (th_response ?th)), th_kill_flag ?th) [?m, demo_mismatch]"
    by (rule reject_streak_kills [OF d]) (simp add: demo_thread_def OrderResponseHandler_init_def)
  then have "unat (rh_consecutive_rejects (th_response th')) = unat (1 :: u32)" "th_kill_flag th'"
    by (simp_all add: streak_step_def parses_ok_def demo_message_def demo_mismatch_def order_reject_codec.des_wire
        verify_protocol_version_def demo_thread_def OrderResponseHandler_init_def)
  then show ?thesis unfolding d by (simp only: word_unat_eq_iff option.case)
qed

section \<open>From bytes to events\<close>

text \<open>
  C36. However the exchange's bytes are split over calls of \<^verbatim>\<open>recv\<close>, the receive loop dispatches
  every complete message exactly once and in order, and keeps the beginning of the next one
  in the buffer: its outcome is that of dispatching the messages, up to the receive buffer.
\<close>

theorem responses_dispatched_in_order:
  assumes "rx_bounds th" "blocks (th_recv_env th)" "\<forall>m \<in> set (ms @ [nx]). fits (length (th_rx_data th)) m"
    and "unread th @ stream (th_recv_env th) = concat (map frame ms) @ p" "p @ q = frame nx" "q \<noteq> []"
    and "length (unread th) < length (frame (hd (ms @ [nx])))"
  shows "\<exists>d r w e. rx_loop en th = map_option (rxu d r w e) (dispatch_all en ms th) \<and> r \<le> w \<and> w \<le> length d \<and>
    length d = length (th_rx_data th) \<and> drop r (take w d) = p"
  using rx_loop_stream [OF assms] by (simp add: buffer_holds_def)

theorem responses_dispatched_in_order_witness:
  "let m = demo_message kHeartbeatAck [];
       th = demo_thread demo_om [1] [] [Received (take 10 (frame m)), Received (drop 10 (frame m) @ take 5 (frame m)), RecvFailed EAGAIN]
   in \<exists>d r w e th'. dispatch_message little m th = Some th' \<and> rx_loop little th = Some (rxu d r w e th') \<and> drop r (take w d) = take 5 (frame m)"
proof -
  let ?m = "demo_message kHeartbeatAck []"
  let ?th = "demo_thread demo_om [1] [] [Received (take 10 (frame ?m)), Received (drop 10 (frame ?m) @ take 5 (frame ?m)), RecvFailed EAGAIN]"
  have l: "length (frame ?m) = 16" by (simp add: length_frame demo_message_def)
  then have ne: "take 10 (frame ?m) \<noteq> []" "drop 10 (frame ?m) @ take 5 (frame ?m) \<noteq> []" by auto
  have "\<exists>d r w e. rx_loop little ?th = map_option (rxu d r w e) (dispatch_all little [?m] ?th) \<and> r \<le> w \<and> w \<le> length d \<and>
    length d = length (th_rx_data ?th) \<and> drop r (take w d) = take 5 (frame ?m)"
    by (rule responses_dispatched_in_order [where nx = ?m and q = "drop 5 (frame ?m)"])
       (use l ne in \<open>auto simp: demo_thread_def rx_bounds_def fits_def whole_def unread_def demo_message_def kMaxPayloadSize_def\<close>)
  moreover have "\<exists>th'. dispatch_message little ?m ?th = Some th'"
    by (simp add: dispatch_message_def demo_message_def verify_protocol_version_def demo_thread_def read_clock_def on_tcp_message_def)
  ultimately obtain th' d r w e where "dispatch_message little ?m ?th = Some th'" "rx_loop little ?th = Some (rxu d r w e th')"
    "drop r (take w d) = take 5 (frame ?m)"
    by auto
  then show ?thesis unfolding Let_def by blast
qed

end
