(* ===== verification/FixedHashMap.thy ===== *)
theory FixedHashMap
  imports HashMap
begin

text \<open>
  \<^verbatim>\<open>libs/ds/fixed_hash_map.hpp\<close>: the hash map with inline storage, whose capacity is a template
  argument. Its operations, translated on their own, are shown to be those of the map over
  external storage (\<^verbatim>\<open>HashMap\<close>) under the embedding \<open>hm_of\<close>, so it implements the same
  interface \<open>kv_store\<close>.
\<close>

unbundle bit_operations_syntax

section \<open>State\<close>

text \<open>The capacity \<^verbatim>\<open>CapacityPow2\<close> is the length of the slot array.\<close>

record ('k, 'v) FixedHashMap =
  fh_slots :: "('k, 'v) Slot list"
  fh_size :: nat
  fh_tombstones :: nat
  fh_hash :: "'k \<Rightarrow> u64"

definition fh_capacity :: "('k, 'v) FixedHashMap \<Rightarrow> nat" where
  "fh_capacity m = length (fh_slots m)"

definition fh_mask :: "('k, 'v) FixedHashMap \<Rightarrow> nat" where
  "fh_mask m = fh_capacity m - 1"

definition fh_max_load :: "('k, 'v) FixedHashMap \<Rightarrow> nat" where
  "fh_max_load m = fh_capacity m * 7 div 10"

definition fh_tombstone_threshold :: "('k, 'v) FixedHashMap \<Rightarrow> nat" where
  "fh_tombstone_threshold m = fh_capacity m * 2 div 10"

text \<open>The default constructor: value-initialized slots, all empty.\<close>

definition fh_default :: "('k \<Rightarrow> u64) \<Rightarrow> 'k \<Rightarrow> 'v \<Rightarrow> nat \<Rightarrow> ('k, 'v) FixedHashMap" where
  "fh_default hash k0 v0 cap =
     \<lparr>fh_slots = replicate cap \<lparr>slot_key = k0, slot_value = v0, slot_state = kEmpty\<rparr>,
      fh_size = 0, fh_tombstones = 0, fh_hash = hash\<rparr>"

section \<open>Operations\<close>

definition fh_bucket_for :: "('k, 'v) FixedHashMap \<Rightarrow> 'k \<Rightarrow> nat" where
  "fh_bucket_for m key = unat (fh_hash m key AND of_nat (fh_mask m))"

fun fh_probe_find_loop :: "('k, 'v) FixedHashMap \<Rightarrow> 'k \<Rightarrow> nat \<Rightarrow> nat \<Rightarrow> nat outcome" where
  "fh_probe_find_loop m key idx 0 = None"
| "fh_probe_find_loop m key idx (Suc n) =
    (let slot = fh_slots m ! idx in
     if slot_state slot = kEmpty then Some idx
     else if slot_state slot = kFull \<and> slot_key slot = key then Some idx
     else fh_probe_find_loop m key ((idx + 1) AND fh_mask m) n)"

definition fh_probe_find :: "('k, 'v) FixedHashMap \<Rightarrow> 'k \<Rightarrow> nat outcome" where
  "fh_probe_find m key = fh_probe_find_loop m key (fh_bucket_for m key) (fh_capacity m)"

fun fh_probe_insert_loop :: "('k, 'v) FixedHashMap \<Rightarrow> 'k \<Rightarrow> nat \<Rightarrow> nat \<Rightarrow> nat \<Rightarrow> (nat \<times> bool) outcome" where
  "fh_probe_insert_loop m key idx first_tombstone 0 = None"
| "fh_probe_insert_loop m key idx first_tombstone (Suc n) =
    (let slot = fh_slots m ! idx in
     if slot_state slot = kEmpty
     then Some (if first_tombstone \<noteq> fh_capacity m then first_tombstone else idx, False)
     else if slot_state slot = kTombstone
     then fh_probe_insert_loop m key ((idx + 1) AND fh_mask m)
            (if first_tombstone = fh_capacity m then idx else first_tombstone) n
     else if slot_key slot = key then Some (idx, True)
     else fh_probe_insert_loop m key ((idx + 1) AND fh_mask m) first_tombstone n)"

definition fh_probe_insert :: "('k, 'v) FixedHashMap \<Rightarrow> 'k \<Rightarrow> (nat \<times> bool) outcome" where
  "fh_probe_insert m key = fh_probe_insert_loop m key (fh_bucket_for m key) (fh_capacity m) (fh_capacity m)"

definition fh_needs_rebuild :: "('k, 'v) FixedHashMap \<Rightarrow> bool" where
  "fh_needs_rebuild m \<longleftrightarrow> fh_tombstones m > fh_tombstone_threshold m"

definition fh_find :: "('k, 'v) FixedHashMap \<Rightarrow> 'k \<Rightarrow> 'v option outcome" where
  "fh_find m key = do {
     idx \<leftarrow> fh_probe_find m key;
     let slot = fh_slots m ! idx;
     Some (if slot_state slot = kFull then Some (slot_value slot) else None)
   }"

text \<open>The common tail of \<^verbatim>\<open>insert\<close> and \<^verbatim>\<open>upsert\<close>.\<close>

definition fh_fill :: "('k, 'v) FixedHashMap \<Rightarrow> nat \<Rightarrow> 'k \<Rightarrow> 'v \<Rightarrow> ('k, 'v) FixedHashMap" where
  "fh_fill m idx key value =
    (let m = (if slot_state (fh_slots m ! idx) = kTombstone then m\<lparr>fh_tombstones := fh_tombstones m - 1\<rparr> else m)
     in m\<lparr>fh_slots := (fh_slots m)[idx := \<lparr>slot_key = key, slot_value = value, slot_state = kFull\<rparr>],
          fh_size := fh_size m + 1\<rparr>)"

definition fh_insert :: "('k, 'v) FixedHashMap \<Rightarrow> 'k \<Rightarrow> 'v \<Rightarrow> (bool \<times> ('k, 'v) FixedHashMap) outcome" where
  "fh_insert m key value = do {
     (idx, found_existing) \<leftarrow> fh_probe_insert m key;
     if found_existing then Some (False, m)
     else let reusing_tombstone = (slot_state (fh_slots m ! idx) = kTombstone) in
       if \<not> reusing_tombstone \<and> fh_size m + fh_tombstones m \<ge> fh_max_load m then Some (False, m)
       else Some (True, fh_fill m idx key value)
   }"

definition fh_upsert :: "('k, 'v) FixedHashMap \<Rightarrow> 'k \<Rightarrow> 'v \<Rightarrow> (UpsertResult \<times> ('k, 'v) FixedHashMap) outcome" where
  "fh_upsert m key value = do {
     (idx, found_existing) \<leftarrow> fh_probe_insert m key;
     if found_existing
     then Some (kUpdated, m\<lparr>fh_slots := (fh_slots m)[idx := (fh_slots m ! idx)\<lparr>slot_value := value\<rparr>]\<rparr>)
     else let reusing_tombstone = (slot_state (fh_slots m ! idx) = kTombstone) in
       if \<not> reusing_tombstone \<and> fh_size m + fh_tombstones m \<ge> fh_max_load m then Some (kCapacityFull, m)
       else Some (kInserted, fh_fill m idx key value)
   }"

definition fh_erase :: "('k, 'v) FixedHashMap \<Rightarrow> 'k \<Rightarrow> (bool \<times> ('k, 'v) FixedHashMap) outcome" where
  "fh_erase m key = do {
     idx \<leftarrow> fh_probe_find m key;
     if slot_state (fh_slots m ! idx) \<noteq> kFull then Some (False, m)
     else Some (True, m\<lparr>fh_slots := (fh_slots m)[idx := (fh_slots m ! idx)\<lparr>slot_state := kTombstone\<rparr>],
                        fh_size := fh_size m - 1, fh_tombstones := fh_tombstones m + 1\<rparr>)
   }"

definition fh_clear :: "('k, 'v) FixedHashMap \<Rightarrow> ('k, 'v) FixedHashMap" where
  "fh_clear m = m\<lparr>fh_slots := map (\<lambda>s. s\<lparr>slot_state := kEmpty\<rparr>) (fh_slots m), fh_size := 0, fh_tombstones := 0\<rparr>"

text \<open>The entries \<^verbatim>\<open>for_each\<close> visits, in slot order.\<close>

definition fh_entries :: "('k, 'v) FixedHashMap \<Rightarrow> ('k \<times> 'v) list" where
  "fh_entries m = map (\<lambda>s. (slot_key s, slot_value s)) (filter (\<lambda>s. slot_state s = kFull) (fh_slots m))"

section \<open>Equivalence with the map over external storage\<close>

definition hm_of :: "('k, 'v) FixedHashMap \<Rightarrow> ('k, 'v) HashMap" where
  "hm_of m = \<lparr>hm_slots = fh_slots m, hm_capacity = fh_capacity m, hm_mask = fh_mask m, hm_max_load = fh_max_load m,
     hm_tombstone_threshold = fh_tombstone_threshold m, hm_size = fh_size m, hm_tombstones = fh_tombstones m,
     hm_hash = fh_hash m\<rparr>"

lemma hm_of_sel [simp]:
  "hm_slots (hm_of m) = fh_slots m" "hm_capacity (hm_of m) = fh_capacity m" "hm_mask (hm_of m) = fh_mask m"
  "hm_max_load (hm_of m) = fh_max_load m" "hm_size (hm_of m) = fh_size m" "hm_tombstones (hm_of m) = fh_tombstones m"
  "hm_hash (hm_of m) = fh_hash m" "hm_tombstone_threshold (hm_of m) = fh_tombstone_threshold m"
  by (simp_all add: hm_of_def)

lemma hm_of_inject: "hm_of m = hm_of m' \<longleftrightarrow> m = m'"
  by (cases m; cases m') (auto simp: hm_of_def)

lemma hm_of_upd [simp]:
  "hm_of (m\<lparr>fh_slots := xs\<rparr>) = (hm_of m)\<lparr>hm_slots := xs\<rparr>" if "length xs = length (fh_slots m)"
  using that by (simp add: hm_of_def fh_mask_def fh_max_load_def fh_tombstone_threshold_def fh_capacity_def)

lemma hm_of_counts [simp]:
  "hm_of (m\<lparr>fh_size := n\<rparr>) = (hm_of m)\<lparr>hm_size := n\<rparr>" "hm_of (m\<lparr>fh_tombstones := n\<rparr>) = (hm_of m)\<lparr>hm_tombstones := n\<rparr>"
  by (simp_all add: hm_of_def fh_mask_def fh_max_load_def fh_tombstone_threshold_def fh_capacity_def)

lemma fh_bucket_eq: "fh_bucket_for m k = bucket_for (hm_of m) k"
  by (simp add: fh_bucket_for_def bucket_for_def)

lemma fh_probe_find_eq: "fh_probe_find m k = probe_find (hm_of m) k"
proof -
  have "fh_probe_find_loop m k i n = probe_find_loop (hm_of m) k i n" for i n
    by (induction n arbitrary: i) (simp_all add: Let_def)
  then show ?thesis by (simp add: fh_probe_find_def probe_find_def fh_bucket_eq)
qed

lemma fh_probe_insert_eq: "fh_probe_insert m k = probe_insert (hm_of m) k"
proof -
  have "fh_probe_insert_loop m k i t n = probe_insert_loop (hm_of m) k i t n" for i t n
    by (induction n arbitrary: i t) (simp_all add: Let_def)
  then show ?thesis by (simp add: fh_probe_insert_def probe_insert_def fh_bucket_eq)
qed

lemma fh_fill_eq: "hm_of (fh_fill m i k v) = hm_fill (hm_of m) i k v"
  by (simp add: fh_fill_def hm_fill_def Let_def)

text \<open>The results agree, and so do the tables afterwards.\<close>

abbreviation via_hm :: "('r \<times> ('k, 'v) FixedHashMap) outcome \<Rightarrow> ('r \<times> ('k, 'v) HashMap) outcome" where
  "via_hm \<equiv> map_option (apsnd hm_of)"

lemma fh_find_eq: "fh_slots m \<noteq> [] \<Longrightarrow> fh_find m k = hm_find (hm_of m) k"
  by (simp add: fh_find_def hm_find_def fh_probe_find_eq fh_capacity_def)

lemma fh_insert_eq: "fh_slots m \<noteq> [] \<Longrightarrow> via_hm (fh_insert m k v) = hm_insert (hm_of m) k v"
  by (cases "probe_insert (hm_of m) k") (auto simp: fh_insert_def hm_insert_def fh_probe_insert_eq fh_capacity_def fh_fill_eq Let_def)

lemma fh_upsert_eq: "fh_slots m \<noteq> [] \<Longrightarrow> via_hm (fh_upsert m k v) = hm_upsert (hm_of m) k v"
  by (cases "probe_insert (hm_of m) k") (auto simp: fh_upsert_def hm_upsert_def fh_probe_insert_eq fh_capacity_def fh_fill_eq Let_def)

lemma fh_erase_eq: "fh_slots m \<noteq> [] \<Longrightarrow> via_hm (fh_erase m k) = hm_erase (hm_of m) k"
  by (cases "probe_find (hm_of m) k") (auto simp: fh_erase_def hm_erase_def fh_probe_find_eq fh_capacity_def)

lemma fh_clear_eq: "hm_of (fh_clear m) = hm_clear (hm_of m)"
  by (simp add: fh_clear_def hm_clear_def)

lemma fh_entries_eq: "fh_entries m = hm_entries (hm_of m)"
  by (simp add: fh_entries_def hm_entries_def)

section \<open>The map it implements\<close>

definition fh_inv :: "('k, 'v) FixedHashMap \<Rightarrow> bool" where
  "fh_inv m \<longleftrightarrow> hm_inv (hm_of m)"

definition fh_lookup :: "('k, 'v) FixedHashMap \<Rightarrow> 'k \<Rightarrow> 'v option" where
  "fh_lookup m = hm_lookup (hm_of m)"

definition fh_full :: "('k, 'v) FixedHashMap \<Rightarrow> bool" where
  "fh_full m \<longleftrightarrow> fh_size m + fh_tombstones m \<ge> fh_max_load m"

lemma fh_inv_slots: "fh_inv m \<Longrightarrow> fh_slots m \<noteq> []"
  using hm_capacity_nonzero [of "hm_of m"] by (auto simp: fh_inv_def fh_capacity_def)

interpretation fhmap: kv_store fh_inv fh_lookup fh_find fh_insert fh_erase fh_clear fh_size fh_full
proof unfold_locales
  fix m :: "('k, 'v) FixedHashMap" and k v
  assume inv: "fh_inv m"
  then have i: "hm_inv (hm_of m)" and ne: "fh_slots m \<noteq> []" using fh_inv_slots by (auto simp: fh_inv_def)
  show "fh_find m k = Some (fh_lookup m k)" by (simp add: fh_find_eq [OF ne] fh_lookup_def hmap.find [OF i])
  show "\<exists>b m'. fh_insert m k v = Some (b, m') \<and> fh_inv m' \<and>
    (b \<longrightarrow> fh_lookup m k = None \<and> fh_lookup m' = (fh_lookup m)(k \<mapsto> v)) \<and>
    (\<not> b \<longrightarrow> m' = m \<and> (fh_lookup m k \<noteq> None \<or> fh_full m))"
    using hmap.insert [OF i, of k v] fh_insert_eq [OF ne, of k v, symmetric]
    by (auto simp: fh_inv_def fh_lookup_def fh_full_def hm_full_def hm_of_inject)
  show "\<exists>m'. fh_erase m k = Some (fh_lookup m k \<noteq> None, m') \<and> fh_inv m' \<and> fh_lookup m' = (fh_lookup m)(k := None)"
    using hmap.erase [OF i, of k] fh_erase_eq [OF ne, of k, symmetric] by (auto simp: fh_inv_def fh_lookup_def)
  show "fh_inv (fh_clear m)" "fh_lookup (fh_clear m) = Map.empty"
    using hmap.clear [OF i] by (simp_all add: fh_inv_def fh_lookup_def fh_clear_eq)
  show "fh_size m = card (dom (fh_lookup m))" using hmap.size [OF i] by (simp add: fh_lookup_def)
qed

lemma fh_default_inv:
  assumes "hm_is_valid_capacity cap"
  shows "fh_inv (fh_default hash k0 v0 cap)" "fh_lookup (fh_default hash k0 v0 cap) = Map.empty"
  using assms
  by (auto simp: fh_inv_def fh_lookup_def fh_default_def hm_inv_def hm_shape_def hm_counts_def hm_chains_def hm_unique_def
      fh_capacity_def fh_mask_def fh_max_load_def fh_tombstone_threshold_def hm_lookup_def hm_entries_def)

section \<open>Occupancy\<close>

text \<open>Full slots and tombstones together; only an insert can occupy a further slot.\<close>

definition fh_used :: "('k, 'v) FixedHashMap \<Rightarrow> nat" where
  "fh_used m = fh_size m + fh_tombstones m"

lemma fh_full_used: "fh_full m \<longleftrightarrow> fh_used m \<ge> fh_capacity m * 7 div 10"
  by (simp add: fh_full_def fh_used_def fh_max_load_def)

lemma fh_default_used [simp]: "fh_used (fh_default hash k0 v0 cap) = 0" "fh_capacity (fh_default hash k0 v0 cap) = cap"
  by (simp_all add: fh_used_def fh_default_def fh_capacity_def)

lemma fh_insert_used:
  assumes "fh_insert m k v = Some (b, m')"
  shows "fh_used m' \<le> Suc (fh_used m)" "fh_capacity m' = fh_capacity m"
  using assms by (auto simp: fh_insert_def fh_fill_def fh_used_def fh_capacity_def Let_def split: if_splits prod.splits elim!: bind_eq_SomeE)

lemma fh_erase_used:
  assumes "fh_inv m" "fh_erase m k = Some (b, m')"
  shows "fh_used m' = fh_used m" "fh_capacity m' = fh_capacity m"
proof -
  have "b \<Longrightarrow> fh_size m \<noteq> 0"
  proof -
    assume b
    then have "fh_lookup m k \<noteq> None" using fhmap.erase [OF assms(1), of k] assms(2) by auto
    moreover have "finite (dom (fh_lookup m))" by (simp add: fh_lookup_def hm_lookup_def finite_dom_map_of)
    ultimately show ?thesis using fhmap.size [OF assms(1)] by auto
  qed
  then show "fh_used m' = fh_used m" "fh_capacity m' = fh_capacity m"
    using assms(2) by (auto simp: fh_erase_def fh_used_def fh_capacity_def split: if_splits elim!: bind_eq_SomeE)
qed

lemma fh_insertE:
  assumes "fh_inv m" "fh_lookup m k = None" "\<not> fh_full m"
  obtains m' where "fh_insert m k v = Some (True, m')" "fh_inv m'" "fh_lookup m' = (fh_lookup m)(k \<mapsto> v)"
    "fh_used m' \<le> Suc (fh_used m)" "fh_capacity m' = fh_capacity m"
  using assms(1)
proof (cases rule: fhmap.insertE [of m k v])
  case (ok m')
  then show thesis using that fh_insert_used [OF ok(1)] by blast
next
  case fail
  then show thesis using assms(2,3) by blast
qed

lemma fh_eraseE:
  assumes "fh_inv m"
  obtains m' where "fh_erase m k = Some (fh_lookup m k \<noteq> None, m')" "fh_inv m'" "fh_lookup m' = (fh_lookup m)(k := None)"
    "fh_used m' = fh_used m" "fh_capacity m' = fh_capacity m"
  using assms
proof (cases rule: fhmap.eraseE [of m k])
  case (1 m')
  then show thesis using that fh_erase_used [OF assms 1(1)] by blast
qed

section \<open>The visited entries\<close>

lemma fh_entries_lookup: "fh_inv m \<Longrightarrow> (k, v) \<in> set (fh_entries m) \<longleftrightarrow> fh_lookup m k = Some v"
  and fh_entries_distinct: "fh_inv m \<Longrightarrow> distinct (map fst (fh_entries m))"
  using hm_entries_distinct [of "hm_of m"] hm_invD [of "hm_of m"]
  by (simp_all add: fh_inv_def fh_lookup_def hm_lookup_def fh_entries_eq map_of_eq_Some_iff)

lemma fh_entries_length: "length (fh_entries m) \<le> fh_capacity m"
  by (simp add: fh_entries_def fh_capacity_def)

end
