(* ===== verification/ExchangeCore.thy ===== *)
theory ExchangeCore
  imports MatchingEngine FixedHashMap Protocol
begin

text \<open>
  The exchange coordinator of \<^verbatim>\<open>apps/simulated_exchange/exchange_core.hpp\<close>: one matching engine per
  symbol, sessions, the two id maps between clients' orders and the exchange's, and the
  buffer of emitted events. An assertion or a call of \<^verbatim>\<open>std::abort\<close> that fails is the outcome
  \<open>None\<close>. The buffer of events is the list of the events emitted since the last drain.
\<close>

unbundle bit_operations_syntax

section \<open>Events\<close>

datatype EventType = EvOrderAccepted | EvOrderRejected | EvFill | EvCancelAck | EvCancelRejected
  | EvModifyAck | EvModifyRejected | EvBBOUpdate | EvSessionAssigned

record ExchangeEvent =
  ev_type :: EventType
  ev_session_id :: u16
  ev_request_seq :: u32
  ev_client_order_id :: u64
  ev_exchange_order_id :: u64
  ev_symbol_id :: u32
  ev_side :: Side
  ev_price :: Price
  ev_qty :: Qty
  ev_remaining_qty :: Qty
  ev_send_ts :: i64
  ev_reason :: RejectReason

definition no_event :: ExchangeEvent where
  "no_event = \<lparr>ev_type = EvOrderAccepted, ev_session_id = 0, ev_request_seq = 0, ev_client_order_id = 0,
     ev_exchange_order_id = 0, ev_symbol_id = 0, ev_side = kBid, ev_price = 0, ev_qty = 0, ev_remaining_qty = 0,
     ev_send_ts = 0, ev_reason = kUnknown\<rparr>"

section \<open>State\<close>

record SymbolSlot =
  sl_engine :: MatchingEngine
  sl_active :: bool

record IdEntry =
  ie_exchange_id :: u64
  ie_side :: Side
  ie_symbol_id :: u32

record ReverseIdEntry =
  rie_session_id :: u16
  rie_client_order_id :: u64
  rie_symbol_id :: u32
  rie_send_ts :: i64

definition kMaxEvents :: nat where "kMaxEvents = 512"
definition kMaxSeenOrders :: nat where "kMaxSeenOrders = 16384"
definition kMaxIdMappings :: nat where "kMaxIdMappings = 1024"

text \<open>\<^verbatim>\<open>MaxSymbols\<close> is the length of the array of symbol slots.\<close>

record ExchangeCore =
  ec_symbols :: "SymbolSlot list"
  ec_next_exchange_id :: u64
  ec_events :: "ExchangeEvent list"
  ec_next_session_id :: u16
  ec_active_sessions :: "u16 \<Rightarrow> bool"
  ec_seen_orders :: "(u64, bool) FixedHashMap"
  ec_id_map :: "(u64, IdEntry) FixedHashMap"
  ec_reverse_id_map :: "(u64, ReverseIdEntry) FixedHashMap"

text \<open>The factory of the engine; \<^verbatim>\<open>MaxFills\<close> is 64.\<close>

definition kMaxFillsPerMatch :: nat where "kMaxFillsPerMatch = 64"

definition engine_of :: "OrderBook \<Rightarrow> MatchingEngine" where
  "engine_of b = \<lparr>me_book = b,
     me_fills = replicate kMaxFillsPerMatch \<lparr>maker_id = 0, taker_id = 0, f_price = 0, f_qty = 0\<rparr>, me_fill_count = 0\<rparr>"

definition engine_create ::
  "u64 \<Rightarrow> u64 \<Rightarrow> Params \<Rightarrow> raw_slots \<times> raw_slots \<times> raw_slots \<Rightarrow> MatchingEngine option outcome" where
  "engine_create buf buf_bytes params raw = do {
     book \<leftarrow> ob_create buf buf_bytes params raw;
     Some (map_option engine_of book)
   }"

text \<open>The default-constructed coordinator.\<close>

definition ExchangeCore_init :: "nat \<Rightarrow> ExchangeCore" where
  "ExchangeCore_init MaxSymbols = \<lparr>ec_symbols = replicate MaxSymbols \<lparr>sl_engine = engine_of ob_default, sl_active = False\<rparr>,
     ec_next_exchange_id = 1, ec_events = [], ec_next_session_id = 1, ec_active_sessions = (\<lambda>_. False),
     ec_seen_orders = fh_default default_hash 0 False kMaxSeenOrders,
     ec_id_map = fh_default default_hash 0 \<lparr>ie_exchange_id = 0, ie_side = kBid, ie_symbol_id = 0\<rparr> kMaxIdMappings,
     ec_reverse_id_map = fh_default default_hash 0
       \<lparr>rie_session_id = 0, rie_client_order_id = 0, rie_symbol_id = 0, rie_send_ts = 0\<rparr> kMaxIdMappings\<rparr>"

definition register_symbol ::
  "u32 \<Rightarrow> u64 \<Rightarrow> u64 \<Rightarrow> Params \<Rightarrow> raw_slots \<times> raw_slots \<times> raw_slots \<Rightarrow> ExchangeCore \<Rightarrow> ExchangeCore outcome" where
  "register_symbol symbol_id buf buf_bytes params raw c =
    (if symbol_id = 0 \<or> unat symbol_id > length (ec_symbols c) then None
     else do {
       engine \<leftarrow> engine_create buf buf_bytes params raw;
       case engine of
         None \<Rightarrow> None
       | Some engine \<Rightarrow> Some (c\<lparr>ec_symbols := (ec_symbols c)[unat (symbol_id - 1) := \<lparr>sl_engine = engine, sl_active = True\<rparr>]\<rparr>)
     })"

section \<open>Private functions\<close>

definition emit :: "ExchangeEvent \<Rightarrow> ExchangeCore \<Rightarrow> ExchangeCore outcome" where
  "emit event c = (if length (ec_events c) \<ge> kMaxEvents then None else Some (c\<lparr>ec_events := ec_events c @ [event]\<rparr>))"

definition kMaxClientOrderId :: u64 where "kMaxClientOrderId = 0x0000FFFFFFFFFFFF"

definition make_composite_key :: "u16 \<Rightarrow> u64 \<Rightarrow> u64 outcome" where
  "make_composite_key session_id client_order_id = do {
     cassert (client_order_id \<le> kMaxClientOrderId);
     Some (push_bit 48 (ucast session_id) OR (client_order_id AND kMaxClientOrderId))
   }"

definition extract_session_id :: "u64 \<Rightarrow> u16" where
  "extract_session_id composite_key = ucast (drop_bit 48 composite_key AND 0xFFFF)"

definition symbol_index :: "ExchangeCore \<Rightarrow> u32 \<Rightarrow> nat option" where
  "symbol_index c symbol_id =
    (if symbol_id = 0 \<or> unat symbol_id > length (ec_symbols c) then None
     else let idx = unat (symbol_id - 1) in if sl_active (ec_symbols c ! idx) then Some idx else None)"

definition set_engine :: "nat \<Rightarrow> MatchingEngine \<Rightarrow> ExchangeCore \<Rightarrow> ExchangeCore" where
  "set_engine i e c = c\<lparr>ec_symbols := (ec_symbols c)[i := (ec_symbols c ! i)\<lparr>sl_engine := e\<rparr>]\<rparr>"

definition emit_maker_fill :: "nat \<Rightarrow> Fill \<Rightarrow> Side \<Rightarrow> ExchangeCore \<Rightarrow> ExchangeCore outcome" where
  "emit_maker_fill sym_idx fill taker_side c = do {
     maker \<leftarrow> fh_find (ec_reverse_id_map c) (maker_id fill);
     case maker of
       None \<Rightarrow> Some c
     | Some maker \<Rightarrow> do {
         slot \<leftarrow> arr_get (ec_symbols c) sym_idx;
         let book = me_book (sl_engine slot);
         let maker_side = (if taker_side = kBid then kAsk else kBid);
         maker_remaining \<leftarrow> order_qty book (maker_id fill);
         c \<leftarrow> emit (no_event\<lparr>ev_type := EvFill, ev_session_id := rie_session_id maker,
                ev_client_order_id := rie_client_order_id maker, ev_exchange_order_id := maker_id fill,
                ev_symbol_id := rie_symbol_id maker, ev_side := maker_side, ev_price := f_price fill, ev_qty := f_qty fill,
                ev_remaining_qty := maker_remaining, ev_send_ts := rie_send_ts maker\<rparr>) c;
         live \<leftarrow> has_order book (maker_id fill);
         if \<not> live then do {
           key \<leftarrow> make_composite_key (rie_session_id maker) (rie_client_order_id maker);
           (fill_fwd, id_map) \<leftarrow> fh_erase (ec_id_map c) key;
           cassert fill_fwd;
           (fill_rev, reverse_id_map) \<leftarrow> fh_erase (ec_reverse_id_map c) (maker_id fill);
           cassert fill_rev;
           Some (c\<lparr>ec_id_map := id_map, ec_reverse_id_map := reverse_id_map\<rparr>)
         } else Some c
       }
   }"

text \<open>The best level of a ladder, if it has one, as an event.\<close>

definition emit_best :: "Side \<Rightarrow> nat list \<Rightarrow> OrderBook \<Rightarrow> u32 \<Rightarrow> ExchangeCore \<Rightarrow> ExchangeCore outcome" where
  "emit_best side ladder book symbol_id c =
    (case ladder of
       [] \<Rightarrow> Some c
     | l # _ \<Rightarrow> emit (no_event\<lparr>ev_type := EvBBOUpdate, ev_symbol_id := symbol_id, ev_side := side,
                 ev_price := pl_price (ob_level_slots book ! l), ev_qty := pl_total_qty (ob_level_slots book ! l)\<rparr>) c)"

definition emit_bbo :: "nat \<Rightarrow> u32 \<Rightarrow> ExchangeCore \<Rightarrow> ExchangeCore outcome" where
  "emit_bbo sym_idx symbol_id c = do {
     slot \<leftarrow> arr_get (ec_symbols c) sym_idx;
     let book = me_book (sl_engine slot);
     c \<leftarrow> emit_best kBid (ob_bids book) book symbol_id c;
     emit_best kAsk (ob_asks book) book symbol_id c
   }"

text \<open>
  The loop over the fills of a submit or a modify. The argument \<open>taker\<close> holds the fields of the
  taker's fill event that do not depend on the fill.
\<close>

fun emit_fills :: "nat \<Rightarrow> ExchangeEvent \<Rightarrow> Qty \<Rightarrow> Fill list \<Rightarrow> ExchangeCore \<Rightarrow> ExchangeCore outcome" where
  "emit_fills sym_idx taker remaining [] c = Some c"
| "emit_fills sym_idx taker remaining (fill # fills) c = do {
     let remaining = remaining - f_qty fill;
     c \<leftarrow> emit (taker\<lparr>ev_price := f_price fill, ev_qty := f_qty fill, ev_remaining_qty := remaining\<rparr>) c;
     c \<leftarrow> emit_maker_fill sym_idx fill (ev_side taker) c;
     c \<leftarrow> emit_bbo sym_idx (ev_symbol_id taker) c;
     emit_fills sym_idx taker remaining fills c
   }"

section \<open>Sessions\<close>

text \<open>The search for a free session id; the first argument is the number of attempts left.\<close>

fun find_session :: "nat \<Rightarrow> ExchangeCore \<Rightarrow> (u16 \<times> ExchangeCore) outcome" where
  "find_session 0 c = None"
| "find_session (Suc n) c =
    (let sid = (if ec_next_session_id c = 0 then 1 else ec_next_session_id c);
         c = c\<lparr>ec_next_session_id := sid + 1\<rparr>
     in if \<not> ec_active_sessions c sid
        then Some (sid, c\<lparr>ec_active_sessions := (ec_active_sessions c)(sid := True)\<rparr>)
        else find_session n c)"

definition on_client_connect :: "ExchangeCore \<Rightarrow> (u16 \<times> ExchangeCore) outcome" where
  "on_client_connect c = find_session 65535 c"

text \<open>The visit of the id map: cancel the session's orders and collect their keys.\<close>

fun cancel_session :: "u16 \<Rightarrow> (u64 \<times> IdEntry) list \<Rightarrow> u64 list \<Rightarrow> ExchangeCore \<Rightarrow> (u64 list \<times> ExchangeCore) outcome" where
  "cancel_session session_id [] keys c = Some (keys, c)"
| "cancel_session session_id ((key, entry) # entries) keys c =
    (if extract_session_id key \<noteq> session_id then cancel_session session_id entries keys c
     else do {
       let i = unat (ie_symbol_id entry - 1);
       slot \<leftarrow> arr_get (ec_symbols c) i;
       (_, engine) \<leftarrow> engine_cancel_order (sl_engine slot) (ie_exchange_id entry);
       cassert (length keys < kMaxIdMappings);
       cancel_session session_id entries (keys @ [key]) (set_engine i engine c)
     })"

fun erase_mappings :: "u64 list \<Rightarrow> ExchangeCore \<Rightarrow> ExchangeCore outcome" where
  "erase_mappings [] c = Some c"
| "erase_mappings (key # keys) c = do {
     fwd \<leftarrow> fh_find (ec_id_map c) key;
     fwd \<leftarrow> fwd;
     (erased_rev, reverse_id_map) \<leftarrow> fh_erase (ec_reverse_id_map c) (ie_exchange_id fwd);
     cassert erased_rev;
     (erased_fwd, id_map) \<leftarrow> fh_erase (ec_id_map c) key;
     cassert erased_fwd;
     erase_mappings keys (c\<lparr>ec_id_map := id_map, ec_reverse_id_map := reverse_id_map\<rparr>)
   }"

fun erase_seen :: "u64 list \<Rightarrow> ExchangeCore \<Rightarrow> ExchangeCore outcome" where
  "erase_seen [] c = Some c"
| "erase_seen (key # keys) c = do {
     (_, seen) \<leftarrow> fh_erase (ec_seen_orders c) key;
     erase_seen keys (c\<lparr>ec_seen_orders := seen\<rparr>)
   }"

definition on_client_disconnect :: "u16 \<Rightarrow> ExchangeCore \<Rightarrow> ExchangeCore outcome" where
  "on_client_disconnect session_id c =
    (if session_id = 0 then Some c
     else do {
       let c = c\<lparr>ec_active_sessions := (ec_active_sessions c)(session_id := False)\<rparr>;
       (keys_to_erase, c) \<leftarrow> cancel_session session_id (fh_entries (ec_id_map c)) [] c;
       c \<leftarrow> erase_mappings keys_to_erase c;
       let seen_to_erase = filter (\<lambda>key. extract_session_id key = session_id) (map fst (fh_entries (ec_seen_orders c)));
       cassert (length seen_to_erase \<le> kMaxSeenOrders);
       erase_seen seen_to_erase c
     })"

section \<open>Order operations\<close>

text \<open>The side of a message is a byte; every value but the two sides is refused by \<^verbatim>\<open>side_index\<close>.\<close>

definition side_of :: "u8 \<Rightarrow> Side" where
  "side_of b = (if b = 0 then kBid else if b = 1 then kAsk else kCount)"

text \<open>A mapping that does not fit is not entered; the results of the inserts are ignored.\<close>

definition map_resting :: "u64 \<Rightarrow> IdEntry \<Rightarrow> ReverseIdEntry \<Rightarrow> ExchangeCore \<Rightarrow> ExchangeCore outcome" where
  "map_resting key entry rentry c = do {
     (_, id_map) \<leftarrow> fh_insert (ec_id_map c) key entry;
     (_, reverse_id_map) \<leftarrow> fh_insert (ec_reverse_id_map c) (ie_exchange_id entry) rentry;
     Some (c\<lparr>ec_id_map := id_map, ec_reverse_id_map := reverse_id_map\<rparr>)
   }"

definition core_submit_order :: "u16 \<Rightarrow> NewOrder \<Rightarrow> ExchangeCore \<Rightarrow> ExchangeCore outcome" where
  "core_submit_order session_id order c =
    (let coid = no_client_order_id order; side = side_of (no_side order);
         reply = no_event\<lparr>ev_session_id := session_id, ev_client_order_id := coid, ev_send_ts := no_send_ts order\<rparr>;
         refuse = (\<lambda>reason. emit (reply\<lparr>ev_type := EvOrderRejected, ev_symbol_id := no_symbol_id order, ev_reason := reason\<rparr>))
     in if coid > kMaxClientOrderId then emit (reply\<lparr>ev_type := EvOrderRejected, ev_reason := kInvalidOrderId\<rparr>) c
     else case symbol_index c (no_symbol_id order) of
       None \<Rightarrow> refuse kUnknownSymbol c
     | Some sym_idx \<Rightarrow> do {
         key \<leftarrow> make_composite_key session_id coid;
         seen \<leftarrow> fh_find (ec_seen_orders c) key;
         if seen \<noteq> None then refuse kDuplicateOrderId c
         else do {
           (ok, seen_orders) \<leftarrow> fh_insert (ec_seen_orders c) key True;
           let c = c\<lparr>ec_seen_orders := seen_orders\<rparr>;
           if \<not> ok then refuse kBookFull c
           else do {
             let exchange_id = ec_next_exchange_id c;
             let c = c\<lparr>ec_next_exchange_id := exchange_id + 1\<rparr>;
             slot \<leftarrow> arr_get (ec_symbols c) sym_idx;
             (result, engine) \<leftarrow> submit_order (sl_engine slot) exchange_id side (no_price order) (no_qty order);
             let c = set_engine sym_idx engine c;
             if \<not> (mr_rested result \<or> has_fills result) then refuse kBookFull c
             else do {
               let reply = reply\<lparr>ev_exchange_order_id := exchange_id, ev_symbol_id := no_symbol_id order\<rparr>;
               c \<leftarrow> emit (reply\<lparr>ev_type := EvOrderAccepted\<rparr>) c;
               c \<leftarrow> emit_fills sym_idx (reply\<lparr>ev_type := EvFill, ev_side := side\<rparr>) (no_qty order) (mr_fills result) c;
               if mr_rested result
               then map_resting key \<lparr>ie_exchange_id = exchange_id, ie_side = side, ie_symbol_id = no_symbol_id order\<rparr>
                      \<lparr>rie_session_id = session_id, rie_client_order_id = coid, rie_symbol_id = no_symbol_id order,
                       rie_send_ts = no_send_ts order\<rparr> c
               else Some c
             }
           }
         }
       })"

definition core_cancel_order :: "u16 \<Rightarrow> CancelOrder \<Rightarrow> ExchangeCore \<Rightarrow> ExchangeCore outcome" where
  "core_cancel_order session_id cancel c =
    (let coid = co_client_order_id cancel;
         reply = no_event\<lparr>ev_session_id := session_id, ev_client_order_id := coid, ev_send_ts := co_send_ts cancel\<rparr>;
         refuse = (\<lambda>reason. emit (reply\<lparr>ev_type := EvCancelRejected, ev_reason := reason\<rparr>))
     in if coid > kMaxClientOrderId then refuse kInvalidOrderId c
     else case symbol_index c (co_symbol_id cancel) of
       None \<Rightarrow> refuse kUnknownSymbol c
     | Some sym_idx \<Rightarrow> do {
         key \<leftarrow> make_composite_key session_id coid;
         entry \<leftarrow> fh_find (ec_id_map c) key;
         case entry of
           None \<Rightarrow> refuse kOrderNotFound c
         | Some entry \<Rightarrow> do {
             slot \<leftarrow> arr_get (ec_symbols c) sym_idx;
             (cancelled, engine) \<leftarrow> engine_cancel_order (sl_engine slot) (ie_exchange_id entry);
             let c = set_engine sym_idx engine c;
             if \<not> cancelled then refuse kOrderNotFound c
             else do {
               (erased_rev, reverse_id_map) \<leftarrow> fh_erase (ec_reverse_id_map c) (ie_exchange_id entry);
               cassert erased_rev;
               (erased_fwd, id_map) \<leftarrow> fh_erase (ec_id_map c) key;
               cassert erased_fwd;
               emit (reply\<lparr>ev_type := EvCancelAck\<rparr>) (c\<lparr>ec_id_map := id_map, ec_reverse_id_map := reverse_id_map\<rparr>)
             }
           }
       })"

definition core_modify_order :: "u16 \<Rightarrow> ModifyOrder \<Rightarrow> ExchangeCore \<Rightarrow> ExchangeCore outcome" where
  "core_modify_order session_id modify c =
    (let coid = mo_client_order_id modify;
         reply = no_event\<lparr>ev_session_id := session_id, ev_client_order_id := coid, ev_send_ts := mo_send_ts modify\<rparr>;
         refuse = (\<lambda>reason. emit (reply\<lparr>ev_type := EvModifyRejected, ev_reason := reason\<rparr>))
     in if coid > kMaxClientOrderId then refuse kInvalidOrderId c
     else case symbol_index c (mo_symbol_id modify) of
       None \<Rightarrow> refuse kUnknownSymbol c
     | Some sym_idx \<Rightarrow> do {
         key \<leftarrow> make_composite_key session_id coid;
         entry \<leftarrow> fh_find (ec_id_map c) key;
         case entry of
           None \<Rightarrow> refuse kOrderNotFound c
         | Some entry \<Rightarrow> do {
             let new_exchange_id = ec_next_exchange_id c;
             let c = c\<lparr>ec_next_exchange_id := new_exchange_id + 1\<rparr>;
             slot \<leftarrow> arr_get (ec_symbols c) sym_idx;
             (result, engine) \<leftarrow> engine_modify_order (sl_engine slot) (ie_exchange_id entry) (ie_side entry)
                                  (mo_new_price modify) (mo_new_qty modify) new_exchange_id;
             let c = set_engine sym_idx engine c;
             if \<not> mod_success result then refuse kOrderNotFound c
             else do {
               (mod_rev, reverse_id_map) \<leftarrow> fh_erase (ec_reverse_id_map c) (ie_exchange_id entry);
               cassert mod_rev;
               (mod_fwd, id_map) \<leftarrow> fh_erase (ec_id_map c) key;
               cassert mod_fwd;
               let c = c\<lparr>ec_id_map := id_map, ec_reverse_id_map := reverse_id_map\<rparr>;
               c \<leftarrow> (if mod_rested result
                     then map_resting key \<lparr>ie_exchange_id = new_exchange_id, ie_side = ie_side entry, ie_symbol_id = ie_symbol_id entry\<rparr>
                            \<lparr>rie_session_id = session_id, rie_client_order_id = coid, rie_symbol_id = ie_symbol_id entry,
                             rie_send_ts = mo_send_ts modify\<rparr> c
                     else Some c);
               let reply = reply\<lparr>ev_exchange_order_id := new_exchange_id, ev_symbol_id := mo_symbol_id modify\<rparr>;
               c \<leftarrow> emit (reply\<lparr>ev_type := EvModifyAck\<rparr>) c;
               emit_fills sym_idx (reply\<lparr>ev_type := EvFill, ev_side := ie_side entry\<rparr>) (mo_new_qty modify) (mod_fills result) c
             }
           }
       })"

text \<open>Draining the events resets the buffer.\<close>

definition drain_events :: "ExchangeCore \<Rightarrow> ExchangeEvent list \<times> ExchangeCore" where
  "drain_events c = (ec_events c, c\<lparr>ec_events := []\<rparr>)"

end
