(* ===== verification/FixedSpscQueue.thy ===== *)
theory FixedSpscQueue
  imports SpscQueue
begin

text \<open>
  \<^verbatim>\<open>libs/sys/memory/fixed_spsc_queue.hpp\<close>: the single-producer single-consumer queue with inline
  storage, which lies in shared memory between the processes of the exchange. Its operations
  are those of the queue over an external buffer under the embedding \<open>sq_of\<close>, so everything
  shown there for the two threads holds here; as one process uses it, it is a bounded queue
  (\<open>bounded_fifo\<close>).
\<close>

unbundle bit_operations_syntax

section \<open>Definitions\<close>

text \<open>The capacity \<^verbatim>\<open>CapacityPow2\<close> is the length of the buffer.\<close>

record 'a FixedSPSCQueue =
  fq_head :: u32
  fq_tail :: u32
  fq_buf :: "'a list"

definition fq_capacity :: "'a FixedSPSCQueue \<Rightarrow> u32" where
  "fq_capacity q = of_nat (length (fq_buf q))"

definition fq_mask :: "'a FixedSPSCQueue \<Rightarrow> u32" where
  "fq_mask q = of_nat (length (fq_buf q) - 1)"

definition fq_init :: "'a list \<Rightarrow> 'a FixedSPSCQueue" where
  "fq_init contents = \<lparr>fq_head = 0, fq_tail = 0, fq_buf = contents\<rparr>"

definition fq_try_push :: "'a FixedSPSCQueue \<Rightarrow> 'a \<Rightarrow> (bool \<times> 'a FixedSPSCQueue) outcome" where
  "fq_try_push q v = do {
     let t = fq_tail q;
     let h = fq_head q;
     if t - h = fq_capacity q then Some (False, q)
     else do {
       buf \<leftarrow> arr_upd (fq_buf q) (unat (t AND fq_mask q)) (\<lambda>_. v);
       Some (True, q\<lparr>fq_buf := buf, fq_tail := t + 1\<rparr>)
     }
   }"

definition fq_try_push_batch :: "'a FixedSPSCQueue \<Rightarrow> 'a list \<Rightarrow> (nat \<times> 'a FixedSPSCQueue) outcome" where
  "fq_try_push_batch q items = do {
     let t = fq_tail q;
     let h = fq_head q;
     let available = fq_capacity q - (t - h);
     let n = (of_nat (min (length items) (unat available)) :: u32);
     buf \<leftarrow> push_loop t (fq_mask q) 0 (take (unat n) items) (fq_buf q);
     Some (unat n, if n > 0 then q\<lparr>fq_buf := buf, fq_tail := t + n\<rparr> else q\<lparr>fq_buf := buf\<rparr>)
   }"

definition fq_try_pop :: "'a FixedSPSCQueue \<Rightarrow> ('a option \<times> 'a FixedSPSCQueue) outcome" where
  "fq_try_pop q = do {
     let h = fq_head q;
     let t = fq_tail q;
     if h = t then Some (None, q)
     else do {
       v \<leftarrow> arr_get (fq_buf q) (unat (h AND fq_mask q));
       Some (Some v, q\<lparr>fq_head := h + 1\<rparr>)
     }
   }"

definition fq_drain :: "'a FixedSPSCQueue \<Rightarrow> nat \<Rightarrow> ('a list \<times> 'a FixedSPSCQueue) outcome" where
  "fq_drain q max_count = do {
     cassert (max_count > 0);
     let h = fq_head q;
     let t = fq_tail q;
     if h = t then Some ([], q)
     else do {
       let available = unat (t - h);
       let n = min available max_count;
       let start = h AND fq_mask q;
       let first = min (of_nat n) (fq_capacity q - start);
       out1 \<leftarrow> copy_out (fq_buf q) (unat start) (unat first);
       let second = of_nat n - first;
       out2 \<leftarrow> (if second > 0 then copy_out (fq_buf q) 0 (unat second) else Some []);
       Some (out1 @ out2, q\<lparr>fq_head := h + of_nat n\<rparr>)
     }
   }"

section \<open>Equivalence with the queue over an external buffer\<close>

definition sq_of :: "'a FixedSPSCQueue \<Rightarrow> 'a SPSCQueue" where
  "sq_of q = \<lparr>sq_head = fq_head q, sq_tail = fq_tail q, sq_capacity = fq_capacity q, sq_mask = fq_mask q, sq_buf = fq_buf q\<rparr>"

lemma sq_of_sel [simp]:
  "sq_head (sq_of q) = fq_head q" "sq_tail (sq_of q) = fq_tail q" "sq_capacity (sq_of q) = fq_capacity q"
  "sq_mask (sq_of q) = fq_mask q" "sq_buf (sq_of q) = fq_buf q"
  by (simp_all add: sq_of_def)

lemma sq_of_inject [simp]: "sq_of q = sq_of q' \<longleftrightarrow> q = q'"
  by (cases q; cases q') (auto simp: sq_of_def)

lemma sq_of_upd [simp]:
  "sq_of (q\<lparr>fq_head := h\<rparr>) = (sq_of q)\<lparr>sq_head := h\<rparr>" "sq_of (q\<lparr>fq_tail := t\<rparr>) = (sq_of q)\<lparr>sq_tail := t\<rparr>"
  "length buf = length (fq_buf q) \<Longrightarrow> sq_of (q\<lparr>fq_buf := buf\<rparr>) = (sq_of q)\<lparr>sq_buf := buf\<rparr>"
  by (simp_all add: sq_of_def fq_capacity_def fq_mask_def)

abbreviation via_sq :: "('r \<times> 'a FixedSPSCQueue) outcome \<Rightarrow> ('r \<times> 'a SPSCQueue) outcome" where
  "via_sq \<equiv> map_option (apsnd sq_of)"

lemma fq_try_push_eq: "via_sq (fq_try_push q v) = try_push (sq_of q) v"
  by (auto simp: fq_try_push_def try_push_def Let_def arr_upd_def)

lemma push_loop_length: "push_loop t m i xs buf = Some buf' \<Longrightarrow> length buf' = length buf"
  by (induction t m i xs buf rule: push_loop.induct) (auto simp: arr_upd_def split: if_splits elim!: bind_eq_SomeE)

lemma fq_try_push_batch_eq: "via_sq (fq_try_push_batch q items) = try_push_batch (sq_of q) items"
proof -
  let ?n = "of_nat (min (length items) (unat (fq_capacity q - (fq_tail q - fq_head q)))) :: u32"
  show ?thesis
    by (cases "push_loop (fq_tail q) (fq_mask q) 0 (take (unat ?n) items) (fq_buf q)")
       (simp_all add: fq_try_push_batch_def try_push_batch_def Let_def push_loop_length)
qed

lemma fq_try_pop_eq: "via_sq (fq_try_pop q) = try_pop (sq_of q)"
  by (auto simp: fq_try_pop_def try_pop_def Let_def arr_get_def)

lemma fq_drain_eq: "via_sq (fq_drain q n) = drain (sq_of q) n"
  by (auto simp: fq_drain_def drain_def Let_def copy_out_def cassert_def)

section \<open>A bounded queue\<close>

locale bounded_fifo =
  fixes inv :: "'q \<Rightarrow> bool"
    and items :: "'q \<Rightarrow> 'a list"
    and cap :: "'q \<Rightarrow> nat"
    and push :: "'q \<Rightarrow> 'a \<Rightarrow> (bool \<times> 'q) outcome"
    and pop :: "'q \<Rightarrow> ('a option \<times> 'q) outcome"
  assumes push: "inv q \<Longrightarrow> \<exists>q'. push q v = Some (length (items q) < cap q, q') \<and> inv q' \<and> cap q' = cap q \<and>
      items q' = (if length (items q) < cap q then items q @ [v] else items q)"
    and pop: "inv q \<Longrightarrow> \<exists>q'. pop q = Some (if items q = [] then None else Some (hd (items q)), q') \<and> inv q' \<and> cap q' = cap q \<and>
      items q' = tl (items q)"
begin

lemma pushE:
  assumes "inv q"
  obtains q' where "push q v = Some (length (items q) < cap q, q')" "inv q'" "cap q' = cap q"
    "items q' = (if length (items q) < cap q then items q @ [v] else items q)"
  using push [OF assms, of v] by blast

lemma popE:
  assumes "inv q"
  obtains (empty) q' where "items q = []" "pop q = Some (None, q')" "inv q'" "cap q' = cap q" "items q' = []"
  | (item) v vs q' where "items q = v # vs" "pop q = Some (Some v, q')" "inv q'" "cap q' = cap q" "items q' = vs"
  using pop [OF assms] by (cases "items q") auto

text \<open>Pushing a list keeps the order and drops what does not fit, all of it at the end.\<close>

lemma push_all:
  assumes "inv q"
  shows "\<exists>q'. fold (\<lambda>v r. r \<bind> (\<lambda>q. push q v) \<bind> (\<lambda>(_, q). Some q)) vs (Some q) = Some q' \<and> inv q' \<and> cap q' = cap q \<and>
    items q' = items q @ take (cap q - length (items q)) vs"
  using assms
proof (induction vs arbitrary: q)
  case (Cons v vs)
  obtain q1 where q1: "push q v = Some (length (items q) < cap q, q1)" "inv q1" "cap q1 = cap q"
    "items q1 = (if length (items q) < cap q then items q @ [v] else items q)"
    by (rule pushE [OF Cons.prems])
  obtain q' where q': "fold (\<lambda>v r. r \<bind> (\<lambda>q. push q v) \<bind> (\<lambda>(_, q). Some q)) vs (Some q1) = Some q'" "inv q'" "cap q' = cap q1"
    "items q' = items q1 @ take (cap q1 - length (items q1)) vs"
    using Cons.IH [OF q1(2)] by blast
  have "items q' = items q @ take (cap q - length (items q)) (v # vs)"
    using q'(4) q1(3,4) by (auto simp: take_Cons' not_less)
  then show ?case using q1(1,3) q'(1-3) by auto
qed auto

end

section \<open>The queue as a bounded queue\<close>

definition fq_items :: "'a FixedSPSCQueue \<Rightarrow> 'a list" where
  "fq_items q = map (slot_read (sq_of q)) [0..<unat (fq_tail q - fq_head q)]"

text \<open>The state of the two threads, both between operations, that the queue is in.\<close>

definition fq_inv :: "'a FixedSPSCQueue \<Rightarrow> bool" where
  "fq_inv q \<longleftrightarrow> (\<exists>s. spsc_inv s \<and> sp_queue s = sq_of q \<and> sp_producer s = PIdle \<and> sp_consumer s = CIdle)"

lemma flight_items:
  assumes inv: "spsc_inv s" and q: "sp_queue s = sq_of q"
  shows "fq_items q = drop (length (sp_popped s)) (sp_pushed s)" "length (sp_popped s) \<le> length (sp_pushed s)"
    "cap_of s = length (fq_buf q)"
proof -
  obtain PH CT where S: "shape_ok s" and I: "indices_ok s PH CT" and items: "items_ok s" using inv by (auto simp: spsc_inv_def)
  let ?n = "unat (fq_tail q - fq_head q)" and ?h = "length (sp_popped s)"
  have "indices_ok (s\<lparr>sp_seen_tail := sq_tail (sp_queue s)\<rparr>) PH (length (sp_pushed s))" using I by (auto simp: indices_ok_def)
  moreover have "shape_ok (s\<lparr>sp_seen_tail := sq_tail (sp_queue s)\<rparr>)" using S by (simp add: shape_ok_def)
  ultimately have n: "?n = length (sp_pushed s) - ?h" using pop_room q by fastforce
  have "slot_read (sq_of q) i = sp_pushed s ! (?h + i)" if "i < ?n" for i
    unfolding q [symmetric] slot_read_spec [OF S I] using items that n by (simp add: items_ok_def)
  then show "fq_items q = drop ?h (sp_pushed s)" using n by (intro nth_equalityI) (simp_all add: fq_items_def)
  show "?h \<le> length (sp_pushed s)" using I by (auto simp: indices_ok_def)
  show "cap_of s = length (fq_buf q)" using S q by (simp add: shape_ok_def)
qed

interpretation fq: bounded_fifo fq_inv fq_items "\<lambda>q. length (fq_buf q)" fq_try_push fq_try_pop
proof unfold_locales
  fix q :: "'a FixedSPSCQueue" and v
  assume "fq_inv q"
  then obtain s where s: "spsc_inv s" "sp_queue s = sq_of q" "sp_producer s = PIdle" "sp_consumer s = CIdle" by (auto simp: fq_inv_def)
  note f = flight_items [OF s(1,2)]
  have reach: "fq_inv q'" if "spsc_steps s s'" "sp_queue s' = sq_of q'" "sp_producer s' = PIdle" "sp_consumer s' = CIdle" for s' q'
    using that spsc_steps_inv [OF that(1) s(1)] by (auto simp: fq_inv_def)
  show "\<exists>q'. fq_try_push q v = Some (length (fq_items q) < length (fq_buf q), q') \<and> fq_inv q' \<and> length (fq_buf q') = length (fq_buf q) \<and>
      fq_items q' = (if length (fq_items q) < length (fq_buf q) then fq_items q @ [v] else fq_items q)"
    using s(1,3)
  proof (cases rule: try_push_runs [where v = v])
    case full
    then have "fq_try_push q v = Some (False, q)" using fq_try_push_eq [of q v] s(2) by auto
    then show ?thesis using f full(2) s \<open>fq_inv q\<close> by simp
  next
    case (pushed q2)
    then obtain q' where q': "fq_try_push q v = Some (True, q')" "q2 = sq_of q'" using fq_try_push_eq [of q v, symmetric] s(2) by auto
    let ?s' = "s\<lparr>sp_seen_head := sq_head (sp_queue s), sp_queue := q2, sp_producer := PIdle, sp_pushed := sp_pushed s @ [v]\<rparr>"
    have "fq_inv q'" by (rule reach [OF pushed(3)]) (use q'(2) s(4) in auto)
    moreover have "fq_items q' = drop (length (sp_popped s)) (sp_pushed s @ [v])" "length (fq_buf q') = length (fq_buf q)"
      using flight_items [OF spsc_steps_inv [OF pushed(3) s(1)], of q'] q'(2) f(3) q'(1)
      by (auto simp: fq_try_push_def Let_def arr_upd_def split: if_splits)
    ultimately show ?thesis using f pushed(2) q'(1) by auto
  qed
  show "\<exists>q'. fq_try_pop q = Some (if fq_items q = [] then None else Some (hd (fq_items q)), q') \<and> fq_inv q' \<and> length (fq_buf q') = length (fq_buf q) \<and>
      fq_items q' = tl (fq_items q)"
    using s(1,4)
  proof (cases rule: try_pop_runs)
    case empty
    then have "fq_try_pop q = Some (None, q)" using fq_try_pop_eq [of q] s(2) by auto
    then show ?thesis using f empty(2) \<open>fq_inv q\<close> by simp
  next
    case (popped x q2)
    then obtain q' where q': "fq_try_pop q = Some (Some x, q')" "q2 = sq_of q'" using fq_try_pop_eq [of q, symmetric] s(2) by auto
    have "fq_inv q'" by (rule reach [OF popped(4)]) (use q'(2) s(3) in auto)
    moreover have "fq_items q' = drop (length (sp_popped s) + 1) (sp_pushed s)" "length (fq_buf q') = length (fq_buf q)"
      using flight_items [OF spsc_steps_inv [OF popped(4) s(1)], of q'] q'(2) f(3) q'(1)
      by (auto simp: fq_try_pop_def Let_def arr_get_def split: if_splits)
    ultimately show ?thesis using f popped(2,3) q'(1) by (auto simp: hd_drop_conv_nth drop_Suc tl_drop)
  qed
qed

lemma fq_init_inv:
  assumes "2 \<le> length contents" "is_power_of_two (of_nat (length contents))" "length contents < 2 ^ 32"
  shows "fq_inv (fq_init contents)" "fq_items (fq_init contents) = []"
proof -
  have c: "sq_of (fq_init contents) = \<lparr>sq_head = 0, sq_tail = 0, sq_capacity = of_nat (length contents), sq_mask = of_nat (length contents) - 1, sq_buf = contents\<rparr>"
    using assms(1) by (simp add: sq_of_def fq_init_def fq_capacity_def fq_mask_def of_nat_diff)
  have u: "unat (of_nat (length contents) :: u32) = length contents" using assms(3) by (simp add: unat_of_nat)
  obtain k where "length contents = 2 ^ k" using assms(2,3) by (auto simp: is_power_of_two_iff unat_of_nat)
  then have "spsc_inv (spsc_start (sq_of (fq_init contents)))"
    using assms(1) u by (auto simp: c spsc_inv_def spsc_parts spsc_start_def intro!: exI [of _ 0])
  then show "fq_inv (fq_init contents)" by (auto simp: fq_inv_def spsc_start_def intro!: exI [of _ "spsc_start (sq_of (fq_init contents))"])
  show "fq_items (fq_init contents) = []" by (simp add: fq_items_def fq_init_def)
qed

end
