(* ===== verification/ExchangeEngine.thy ===== *)
theory ExchangeEngine
  imports ExchangeCore FixedSpscQueue
begin

text \<open>
  The engine process of \<^verbatim>\<open>apps/simulated_exchange/exchange_engine_main.cpp\<close> and the queues of
  \<^verbatim>\<open>shared_exchange_queue.hpp\<close>: it polls the request queues of the gateways, runs the coordinator
  and routes the events to the gateways' response queues and to the market data queue.
\<close>

section \<open>Shared memory\<close>

datatype OrderRequestType = ReqNewOrder | ReqCancelOrder | ReqModifyOrder | ReqClientConnect | ReqClientDisconnect

text \<open>The side is kept as the byte that the gateway received.\<close>

record OrderRequest =
  orq_type :: OrderRequestType
  orq_gateway_id :: u8
  orq_session_id :: u16
  orq_request_seq :: u32
  orq_client_order_id :: u64
  orq_symbol_id :: u32
  orq_side :: u8
  orq_price :: Price
  orq_qty :: Qty
  orq_new_price :: Price
  orq_new_qty :: Qty
  orq_send_ts :: i64

definition no_request :: OrderRequest where
  "no_request = \<lparr>orq_type = ReqNewOrder, orq_gateway_id = 0, orq_session_id = 0, orq_request_seq = 0, orq_client_order_id = 0,
     orq_symbol_id = 0, orq_side = 0, orq_price = 0, orq_qty = 0, orq_new_price = 0, orq_new_qty = 0, orq_send_ts = 0\<rparr>"

definition kExchangeQueueCapacity :: nat where "kExchangeQueueCapacity = 4096"
definition kMaxGateways :: nat where "kMaxGateways = 8"

record SharedExchangeRegion =
  sx_shutdown :: u32
  sx_num_gateways :: u32
  sx_request_queues :: "OrderRequest FixedSPSCQueue list"
  sx_response_queues :: "ExchangeEvent FixedSPSCQueue list"
  sx_md_event_queue :: "ExchangeEvent FixedSPSCQueue"

definition SharedExchangeRegion_init :: SharedExchangeRegion where
  "SharedExchangeRegion_init = \<lparr>sx_shutdown = 0, sx_num_gateways = 0,
     sx_request_queues = replicate kMaxGateways (fq_init (replicate kExchangeQueueCapacity no_request)),
     sx_response_queues = replicate kMaxGateways (fq_init (replicate kExchangeQueueCapacity no_event)),
     sx_md_event_queue = fq_init (replicate kExchangeQueueCapacity no_event)\<rparr>"

section \<open>Routing\<close>

text \<open>The result of a push; a failed push is only logged by the callers that drop the event.\<close>

definition push_response :: "u8 \<Rightarrow> ExchangeEvent \<Rightarrow> SharedExchangeRegion \<Rightarrow> (bool \<times> SharedExchangeRegion) outcome" where
  "push_response gw event x = do {
     q \<leftarrow> arr_get (sx_response_queues x) (unat gw);
     (ok, q) \<leftarrow> fq_try_push q event;
     Some (ok, x\<lparr>sx_response_queues := (sx_response_queues x)[unat gw := q]\<rparr>)
   }"

definition push_md :: "ExchangeEvent \<Rightarrow> SharedExchangeRegion \<Rightarrow> SharedExchangeRegion outcome" where
  "push_md event x = do {
     (_, q) \<leftarrow> fq_try_push (sx_md_event_queue x) event;
     Some (x\<lparr>sx_md_event_queue := q\<rparr>)
   }"

definition dispatch_exchange_event ::"u32 \<Rightarrow> (u16 \<Rightarrow> u8) \<Rightarrow> ExchangeEvent \<Rightarrow> SharedExchangeRegion \<Rightarrow> SharedExchangeRegion outcome" where
  "dispatch_exchange_event request_seq session_to_gateway event x =
    (let stamped = event\<lparr>ev_request_seq := request_seq\<rparr>; gw = session_to_gateway (ev_session_id event)
     in case ev_type event of
       EvFill \<Rightarrow> do { (_, x) \<leftarrow> push_response gw stamped x; push_md stamped x }
     | EvBBOUpdate \<Rightarrow> push_md stamped x
     | _ \<Rightarrow> do { (_, x) \<leftarrow> push_response gw stamped x; Some x })"

fun dispatch_events :: "u32 \<Rightarrow> (u16 \<Rightarrow> u8) \<Rightarrow> ExchangeEvent list \<Rightarrow> SharedExchangeRegion \<Rightarrow> SharedExchangeRegion outcome" where
  "dispatch_events request_seq session_to_gateway [] x = Some x"
| "dispatch_events request_seq session_to_gateway (event # events) x = do {
     x \<leftarrow> dispatch_exchange_event request_seq session_to_gateway event x;
     dispatch_events request_seq session_to_gateway events x
   }"

text \<open>The state of the engine process.\<close>

record EngineProcess =
  ep_core :: ExchangeCore
  ep_shared :: SharedExchangeRegion
  ep_session_to_gateway :: "u16 \<Rightarrow> u8"

definition drain_and_dispatch :: "u32 \<Rightarrow> EngineProcess \<Rightarrow> EngineProcess outcome" where
  "drain_and_dispatch request_seq p = do {
     let (events, core) = drain_events (ep_core p);
     x \<leftarrow> dispatch_events request_seq (ep_session_to_gateway p) events (ep_shared p);
     Some (p\<lparr>ep_core := core, ep_shared := x\<rparr>)
   }"

section \<open>Requests\<close>

definition process_request :: "OrderRequest \<Rightarrow> EngineProcess \<Rightarrow> EngineProcess outcome" where
  "process_request req p =
    (if unat (orq_gateway_id req) \<ge> unat (sx_num_gateways (ep_shared p)) then Some p
     else case orq_type req of
       ReqClientConnect \<Rightarrow> do {
         (session_id, core) \<leftarrow> on_client_connect (ep_core p);
         let p = p\<lparr>ep_core := core, ep_session_to_gateway := (ep_session_to_gateway p)(session_id := orq_gateway_id req)\<rparr>;
         (ok, x) \<leftarrow> push_response (orq_gateway_id req)
            (no_event\<lparr>ev_type := EvSessionAssigned, ev_session_id := session_id, ev_request_seq := orq_request_seq req,
               ev_client_order_id := orq_client_order_id req\<rparr>) (ep_shared p);
         let p = p\<lparr>ep_shared := x\<rparr>;
         if \<not> ok then do {
           core \<leftarrow> on_client_disconnect session_id (ep_core p);
           Some (p\<lparr>ep_core := core, ep_session_to_gateway := (ep_session_to_gateway p)(session_id := 0)\<rparr>)
         } else Some p
       }
     | ReqClientDisconnect \<Rightarrow> do {
         core \<leftarrow> on_client_disconnect (orq_session_id req) (ep_core p);
         Some (p\<lparr>ep_core := core\<rparr>)
       }
     | ReqNewOrder \<Rightarrow> do {
         core \<leftarrow> core_submit_order (orq_session_id req)
            \<lparr>no_client_order_id = orq_client_order_id req, no_symbol_id = orq_symbol_id req, no_side = orq_side req,
             no_price = orq_price req, no_qty = orq_qty req, no_send_ts = orq_send_ts req\<rparr> (ep_core p);
         drain_and_dispatch (orq_request_seq req) (p\<lparr>ep_core := core\<rparr>)
       }
     | ReqCancelOrder \<Rightarrow> do {
         core \<leftarrow> core_cancel_order (orq_session_id req)
            \<lparr>co_client_order_id = orq_client_order_id req, co_symbol_id = orq_symbol_id req, co_send_ts = orq_send_ts req\<rparr> (ep_core p);
         drain_and_dispatch (orq_request_seq req) (p\<lparr>ep_core := core\<rparr>)
       }
     | ReqModifyOrder \<Rightarrow> do {
         core \<leftarrow> core_modify_order (orq_session_id req)
            \<lparr>mo_client_order_id = orq_client_order_id req, mo_symbol_id = orq_symbol_id req, mo_new_price = orq_new_price req,
             mo_new_qty = orq_new_qty req, mo_send_ts = orq_send_ts req\<rparr> (ep_core p);
         drain_and_dispatch (orq_request_seq req) (p\<lparr>ep_core := core\<rparr>)
       })"

text \<open>One round of the main loop: every gateway's queue is polled once, in order.\<close>

definition poll_gateway :: "nat \<Rightarrow> EngineProcess \<Rightarrow> EngineProcess outcome" where
  "poll_gateway gw p = do {
     q \<leftarrow> arr_get (sx_request_queues (ep_shared p)) gw;
     (popped, q) \<leftarrow> fq_try_pop q;
     let p = p\<lparr>ep_shared := (ep_shared p)\<lparr>sx_request_queues := (sx_request_queues (ep_shared p))[gw := q]\<rparr>\<rparr>;
     case popped of None \<Rightarrow> Some p | Some req \<Rightarrow> process_request req p
   }"

fun poll_gateways :: "nat list \<Rightarrow> EngineProcess \<Rightarrow> EngineProcess outcome" where
  "poll_gateways [] p = Some p"
| "poll_gateways (gw # gws) p = do { p \<leftarrow> poll_gateway gw p; poll_gateways gws p }"

definition engine_round :: "EngineProcess \<Rightarrow> EngineProcess outcome" where
  "engine_round p = poll_gateways [0..<unat (sx_num_gateways (ep_shared p))] p"

text \<open>
  Start-up, after the symbols have been registered with the coordinator: the region is built in
  place and the clamped number of gateways is published.
\<close>

definition engine_start :: "u32 \<Rightarrow> ExchangeCore \<Rightarrow> EngineProcess" where
  "engine_start num_gateways core =
    \<lparr>ep_core = core, ep_shared = SharedExchangeRegion_init\<lparr>sx_num_gateways := max 1 (min num_gateways (of_nat kMaxGateways))\<rparr>, ep_session_to_gateway = (\<lambda>_. 0)\<rparr>"

end
