(* ===== verification/EngineOrders.thy ===== *)
theory EngineOrders
  imports MatchingEngine
begin

text \<open>
  What the operations of the matching engine do to the set of resting orders, in the form
  that a coordinator of several engines needs.
\<close>

definition resting :: "MatchingEngine \<Rightarrow> Side \<Rightarrow> OrderId set" where
  "resting e s = fst ` set (a_flat (engine_abs e s))"

lemma a_flat_v_abs:
  "map fst (a_flat (v_abs v s)) = map (\<lambda>i. order_id (v_ord v i)) (concat (map (v_queue v) (v_lad v s)))"
proof -
  have "map fst (a_flat (map (\<lambda>l. (v_price v l, map (v_entry v) (v_queue v l))) ls)) =
      map (\<lambda>i. order_id (v_ord v i)) (concat (map (v_queue v) ls))" for ls
    by (induction ls) (simp_all add: a_flat_def v_entry_def comp_def)
  then show ?thesis by (simp add: v_abs_def)
qed

lemma queues_distinct:
  assumes "wf_core N E v" "distinct ls" "set ls \<subseteq> set (v_lad v s)"
  shows "distinct (concat (map (v_queue v) ls))"
  using assms(2,3)
proof (induction ls)
  case (Cons l ls)
  then have l: "l \<in> set (v_lad v s)" by simp
  have "set (v_queue v l) \<inter> set (v_queue v m) = {}" if "m \<in> set ls" for m
  proof -
    have "m < N" "m \<noteq> l" using wf_lad_bound [OF assms(1)] Cons.prems that by auto
    then show ?thesis using wf_queue_unique [OF assms(1) l] by blast
  qed
  then show ?case using Cons level_okD(2) [OF wf_coreD(5) [OF assms(1) l]] by auto
qed simp

lemma resting_distinct:
  assumes "engine_inv M N e"
  shows "distinct (map fst (a_flat (engine_abs e s)))"
proof -
  let ?v = "view (me_book e)"
  note wf = book_invD(2,3) [OF assms]
  have "set (concat (map (v_queue ?v) (v_lad ?v s))) \<subseteq> v_ao ?v" using wf_queue_ao [OF wf(1)] by auto
  then have "inj_on (\<lambda>i. order_id (v_ord ?v i)) (set (concat (map (v_queue ?v) (v_lad ?v s))))"
    using wf_id_unique [OF wf(2)] by (intro inj_onI) (metis subsetD)
  then show ?thesis
    using queues_distinct [OF wf(1) wf_lad_distinct [OF wf(1)], of s s] unfolding book_abs_def a_flat_v_abs by (simp add: distinct_map)
qed

lemma resting_side:
  assumes "engine_inv M N e" "x \<in> resting e s" "x \<in> resting e t"
  shows "s = t"
proof -
  let ?v = "view (me_book e)"
  note wf = book_invD(2,3) [OF assms(1)]
  have r: "\<exists>l i. l \<in> set (v_lad ?v u) \<and> i \<in> set (v_queue ?v l) \<and> x = order_id (v_ord ?v i)" if "x \<in> resting e u" for u
    using that unfolding resting_def book_abs_def set_map [symmetric] a_flat_v_abs by auto
  obtain l i m j where lm: "l \<in> set (v_lad ?v s)" "i \<in> set (v_queue ?v l)" "x = order_id (v_ord ?v i)"
    "m \<in> set (v_lad ?v t)" "j \<in> set (v_queue ?v m)" "x = order_id (v_ord ?v j)"
    using r [OF assms(2)] r [OF assms(3)] by blast
  have "j = i" using wf_id_unique [OF wf(2) wf_queue_ao [OF wf(1) lm(1,2)] wf_queue_ao [OF wf(1) lm(4,5)]] lm(3,6) by simp
  then have "m = l" using wf_queue_unique [OF wf(1) lm(1,2) wf_lad_bound [OF wf(1) lm(4)]] lm(5) by simp
  then show ?thesis using wf_lad_side [OF wf(1) lm(1)] lm(4) by simp
qed

lemma resting_kCount: "resting e kCount = {}" if "engine_inv M N e"
  using wf_coreD(2) [OF book_invD(2) [OF that]] by (simp add: resting_def book_abs_def v_abs_def)

lemma has_resting: "a_orders (engine_abs e) x \<noteq> None \<longleftrightarrow> x \<in> resting e kBid \<union> resting e kAsk"
proof -
  have "(\<forall>s. s \<noteq> kCount \<longrightarrow> P s) \<longleftrightarrow> P kBid \<and> P kAsk" for P
    using Side.exhaust by (metis Side.distinct(4,5))
  then show ?thesis unfolding a_orders_None_iff resting_def by auto
qed

lemma resting_qty:
  assumes "engine_inv M N e" "(x, p, q) \<in> set (a_flat (engine_abs e s))" "s \<noteq> kCount"
  shows "a_orders (engine_abs e) x = Some q"
proof -
  have flat: "concat (map snd lad) = map (\<lambda>(oid, p, q). (oid, q)) (a_flat lad)" for lad :: "alevel list"
    by (induction lad) (auto simp: a_flat_def comp_def case_prod_beta)
  let ?L = "map (\<lambda>(oid, p, q). (oid, q)) (a_flat (engine_abs e kBid) @ a_flat (engine_abs e kAsk))"
  have "distinct (map fst (a_flat (engine_abs e kBid) @ a_flat (engine_abs e kAsk)))"
    using resting_distinct [OF assms(1)] resting_side [OF assms(1), of _ kBid kAsk] by (auto simp: resting_def)
  then have d: "distinct (map fst ?L)" by (simp add: comp_def case_prod_beta)
  have m: "(x, q) \<in> set ?L" using assms(2,3) by (cases s) force+
  have eq: "concat (map snd (engine_abs e kBid @ engine_abs e kAsk)) = ?L" by (simp add: flat)
  show ?thesis unfolding a_orders_def eq by (rule map_of_is_SomeI [OF d m])
qed

lemma a_flat_remove: "(x, p, q) \<in> set (a_flat (a_remove oid lad)) \<longleftrightarrow> (x, p, q) \<in> set (a_flat lad) \<and> x \<noteq> oid"
proof
  assume "(x, p, q) \<in> set (a_flat (a_remove oid lad))"
  then show "(x, p, q) \<in> set (a_flat lad) \<and> x \<noteq> oid" unfolding a_flat_mem by (auto simp: a_remove_def)
next
  assume a: "(x, p, q) \<in> set (a_flat lad) \<and> x \<noteq> oid"
  then obtain es where es: "(p, es) \<in> set lad" "(x, q) \<in> set es" unfolding a_flat_mem by blast
  then have "(p, filter (\<lambda>e. fst e \<noteq> oid) es) \<in> set (a_remove oid lad)" "(x, q) \<in> set (filter (\<lambda>e. fst e \<noteq> oid) es)"
    using a by (force simp: a_remove_def filter_empty_conv)+
  then show "(x, p, q) \<in> set (a_flat (a_remove oid lad))" unfolding a_flat_mem by blast
qed

lemma ids_remove: "fst ` set (a_flat (a_remove oid lad)) = fst ` set (a_flat lad) - {oid}"
  using a_flat_remove by (auto simp: image_iff)

lemma ids_Cons: "fst ` set (a_flat ((p, es) # lad)) = fst ` set es \<union> fst ` set (a_flat lad)"
  by (force simp: a_flat_def)

lemma ids_add: "fst ` set (a_flat (a_add s p (oid, q) lad)) = insert oid (fst ` set (a_flat lad))"
  by (induction s p "(oid, q)" lad rule: a_add.induct) (auto simp: ids_Cons simp del: set_map)

section \<open>The operations\<close>

lemma engine_cancel:
  assumes "engine_inv M N e"
  obtains e' where "engine_cancel_order e x = Some (x \<in> resting e kBid \<union> resting e kAsk, e')" "engine_inv M N e'"
    "me_fills e' = me_fills e" "\<And>s. resting e' s = resting e s - {x}"
proof -
  obtain b where b: "cancel_order (me_book e) x = Some (a_orders (engine_abs e) x \<noteq> None, b)"
    "book_inv M N b" "book_abs b = (\<lambda>t. a_remove x (engine_abs e t))"
    by (rule cancel_order_ok [OF assms])
  have "resting (e\<lparr>me_book := b\<rparr>) s = resting e s - {x}" for s
    unfolding resting_def using b(3) by (simp add: ids_remove)
  then show thesis using that [of "e\<lparr>me_book := b\<rparr>"] b(1,2) has_resting [of e x] by (simp add: engine_cancel_order_def)
qed

lemma in_fst_imageI: "(a, b) \<in> A \<Longrightarrow> a \<in> fst ` A"
  by force

lemma filled_prefix:
  fixes F F' fs :: "(OrderId \<times> Price \<times> Qty) list"
  assumes "F = fs @ F' \<or> (\<exists>gs oid p q f rest. fs = gs @ [(oid, p, f)] \<and> 0 < f \<and> f < q \<and> rem' = 0 \<and>
      F = gs @ (oid, p, q) # rest \<and> F' = (oid, p, q - f) # rest)"
    and "distinct (map fst F)"
  shows "distinct (map fst fs)" "fst ` set fs \<subseteq> fst ` set F" "fst ` set F' \<subseteq> fst ` set F"
    "fst ` set F - fst ` set fs \<subseteq> fst ` set F'"
    "(m, p, f) \<in> set fs \<Longrightarrow> \<exists>q. (m, p, q) \<in> set F \<and> f \<le> q \<and> (if f = q then m \<notin> fst ` set F' else (m, p, q - f) \<in> set F')"
proof -
  show "distinct (map fst fs)" "fst ` set fs \<subseteq> fst ` set F" "fst ` set F' \<subseteq> fst ` set F" "fst ` set F - fst ` set fs \<subseteq> fst ` set F'"
  proof -
    have "fst ` set F = fst ` set fs \<union> fst ` set F'" using assms(1) by (elim disjE exE conjE; simp add: image_Un; blast?)
    moreover show "distinct (map fst fs)" using assms by (elim disjE exE conjE) simp_all
    ultimately show "fst ` set fs \<subseteq> fst ` set F" "fst ` set F' \<subseteq> fst ` set F" "fst ` set F - fst ` set fs \<subseteq> fst ` set F'"
      by blast+
  qed
  assume m: "(m, p, f) \<in> set fs"
  show "\<exists>q. (m, p, q) \<in> set F \<and> f \<le> q \<and> (if f = q then m \<notin> fst ` set F' else (m, p, q - f) \<in> set F')"
    using assms(1)
  proof (elim disjE exE conjE)
    assume "F = fs @ F'"
    then have "(m, p, f) \<in> set F" "m \<notin> fst ` set F'" using m assms(2) by (auto dest: in_fst_imageI)
    then show ?thesis by auto
  next
    fix gs x p' q f' rest
    assume c: "fs = gs @ [(x, p', f')]" "f' < q" "F = gs @ (x, p', q) # rest" "F' = (x, p', q - f') # rest"
    show ?thesis
    proof (cases "(m, p, f) \<in> set gs")
      case True
      then have "(m, p, f) \<in> set F" "m \<in> fst ` set gs" using c(3) by (auto intro: in_fst_imageI)
      moreover from this(2) have "m \<notin> fst ` set F'" using c(3,4) assms(2) by simp blast
      ultimately show ?thesis by auto
    next
      case False
      then have "m = x" "p = p'" "f = f'" using m c(1) by auto
      then show ?thesis using c by (intro exI [of _ q]) auto
    qed
  qed
qed

text \<open>
  The makers of the fills rested on the opposite side; each one leaves, or keeps what was
  not filled. The submitted order joins its side when it rests.
\<close>

lemma engine_submit:
  assumes inv: "engine_inv M N e" and side: "side \<noteq> kCount"
  obtains r e' where "submit_order e oid side price qty = Some (r, e')" "engine_inv M N e'" "length (me_fills e') = length (me_fills e)"
    "length (mr_fills r) \<le> length (me_fills e)" "distinct (map maker_id (mr_fills r))"
    "maker_id ` set (mr_fills r) \<subseteq> resting e (opp side)"
    "resting e' (opp side) \<subseteq> resting e (opp side)" "resting e (opp side) - maker_id ` set (mr_fills r) \<subseteq> resting e' (opp side)"
    "resting e' side = (if mr_rested r then insert oid (resting e side) else resting e side)"
    "mr_rested r \<or> mr_fills r \<noteq> [] \<Longrightarrow> oid \<notin> resting e kBid \<union> resting e kAsk"
    "\<And>f. f \<in> set (mr_fills r) \<Longrightarrow> \<exists>q. a_orders (engine_abs e) (maker_id f) = Some q \<and> f_qty f \<le> q \<and>
       a_orders (engine_abs e') (maker_id f) = (if f_qty f = q then None else Some (q - f_qty f))"
  using inv side
proof (cases rule: submit_order_cases [where qty = qty and oid = oid and price = price])
  case (run fs rem lad rested e' b1)
  let ?r = "\<lparr>mr_fills = map (mk_fill oid) fs, mr_remaining_qty = rem, mr_rested = rested\<rparr>"
  let ?A = "engine_abs e (opp side)"
  have opp: "opp side \<noteq> side" using side by (cases side) (simp_all add: opp_def)
  have A': "engine_abs e' (opp side) = lad" using run(8,9) opp by (cases rested) auto
  have B': "resting e' side = (if rested then insert oid (resting e side) else resting e side)"
    unfolding resting_def using run(8,9) opp by (cases rested) (simp_all add: ids_add)
  have mk: "map maker_id (map (mk_fill oid) fs) = map fst fs" by (auto simp: mk_fill_def)
  have fresh: "oid \<notin> resting e kBid \<union> resting e kAsk" using run(2) has_resting [of e oid] by simp
  note P = a_match_priority [OF run(6)]
  note D = resting_distinct [OF inv, of "opp side"]
  note F = filled_prefix [OF P D]
  have fills: "\<exists>q. a_orders (engine_abs e) (maker_id f) = Some q \<and> f_qty f \<le> q \<and>
      a_orders (engine_abs e') (maker_id f) = (if f_qty f = q then None else Some (q - f_qty f))" if f: "f \<in> set (map (mk_fill oid) fs)" for f
  proof -
    obtain m p k where mk: "(m, p, k) \<in> set fs" "f = mk_fill oid (m, p, k)" using f by auto
    obtain q where q: "(m, p, q) \<in> set (a_flat ?A)" "k \<le> q" "if k = q then m \<notin> fst ` set (a_flat lad) else (m, p, q - k) \<in> set (a_flat lad)"
      using F(5) [OF mk(1)] by blast
    have m: "m \<in> resting e (opp side)" using q(1) by (force simp: resting_def)
    have ns: "m \<notin> resting e' side"
      using B' fresh m resting_side [OF inv m, of side] opp by (auto simp: opp_def split: if_splits)
    have "a_orders (engine_abs e') m = (if k = q then None else Some (q - k))"
    proof (cases "k = q")
      case True
      then have "m \<notin> resting e' (opp side)" using q(3) A' by (simp add: resting_def)
      then have "m \<notin> resting e' kBid \<union> resting e' kAsk" using ns side by (cases side) (simp_all add: opp_def)
      then show ?thesis using has_resting [of e' m] True by simp
    next
      case False
      then show ?thesis using q(3) A' resting_qty [OF run(4), of m p "q - k" "opp side"] by simp
    qed
    then show ?thesis using resting_qty [OF inv q(1)] q(2) by (auto simp: mk(2))
  qed
  have mkset: "maker_id ` set (map (mk_fill oid) fs) = fst ` set fs" using mk by (metis set_map)
  show thesis
    by (rule that [of ?r e'])
       (use run(3-5) a_match_bound [OF run(6)] F(1-4) A' B' fresh fills mk mkset in \<open>simp_all add: resting_def del: map_map\<close>)
qed (use that inv in auto)

end
