(* ===== verification/ExchangeMaps.thy ===== *)
theory ExchangeMaps
  imports ExchangeCore EngineOrders
begin

text \<open>
  The two id maps of the coordinator, as finite maps: composite keys, the agreement of the maps
  with each other and with the resting orders, and what erasing and entering a mapping keep.
\<close>

unbundle bit_operations_syntax

section \<open>Composite keys\<close>

definition ckey :: "u16 \<Rightarrow> u64 \<Rightarrow> u64" where
  "ckey s c = (push_bit 48 (ucast s) OR (c AND kMaxClientOrderId))"

lemma kMax_mask: "kMaxClientOrderId = mask 48"
  by (simp add: kMaxClientOrderId_def mask_eq_exp_minus_1)

lemma le_kMax: "c \<le> kMaxClientOrderId \<longleftrightarrow> c AND kMaxClientOrderId = c"
proof
  assume "c \<le> kMaxClientOrderId"
  then have "unat c < 2 ^ 48" by (simp add: word_le_nat_alt kMaxClientOrderId_def)
  then have "take_bit 48 c = c" by (simp add: word_unat_eq_iff unsigned_take_bit_eq take_bit_nat_eq_self)
  then show "c AND kMaxClientOrderId = c" by (simp add: kMax_mask take_bit_eq_mask and.commute)
next
  assume "c AND kMaxClientOrderId = c"
  then have "take_bit 48 c = c" by (simp add: kMax_mask take_bit_eq_mask and.commute)
  then have "unat c < 2 ^ 48" by (metis take_bit_nat_less_exp unsigned_take_bit_eq)
  then show "c \<le> kMaxClientOrderId" by (simp add: word_le_nat_alt kMaxClientOrderId_def)
qed

lemma mask16: "(0xFFFF :: u64) = mask 16"
  by (simp add: mask_eq_exp_minus_1)

lemma extract_ckey [simp]: "extract_session_id (ckey s c) = s"
  by (rule bit_word_eqI) (auto simp: extract_session_id_def mask16 ckey_def kMax_mask bit_simps)

lemma ckey_low [simp]: "ckey s c AND kMaxClientOrderId = c AND kMaxClientOrderId"
  by (rule bit_word_eqI) (auto simp: ckey_def kMax_mask bit_simps)

lemma ckey_extract [simp]: "ckey (extract_session_id k) (k AND kMaxClientOrderId) = k"
  by (rule bit_word_eqI) (auto simp: ckey_def extract_session_id_def mask16 kMax_mask bit_simps)

lemma low_le_kMax [simp]: "k AND kMaxClientOrderId \<le> kMaxClientOrderId"
  by (simp add: le_kMax and.assoc)

lemma make_composite_key_ok [simp]: "c \<le> kMaxClientOrderId \<Longrightarrow> make_composite_key s c = Some (ckey s c)"
  by (simp add: make_composite_key_def ckey_def)

lemma ckey_inject: "c \<le> kMaxClientOrderId \<Longrightarrow> d \<le> kMaxClientOrderId \<Longrightarrow> ckey s c = ckey t d \<longleftrightarrow> s = t \<and> c = d"
  using extract_ckey [of s c] ckey_low [of s c] by (metis ckey_low extract_ckey le_kMax)

section \<open>Agreement of the maps\<close>

text \<open>
  \<open>L symbol side\<close> are the resting orders. Every entry of the forward map \<open>F\<close> names a resting order
  and has its inverse in the reverse map \<open>R\<close>, and conversely; every resting order is mapped; all
  ids are below \<open>n\<close>. While an operation is under way, the orders of \<open>P\<close> may be mapped without
  resting, and those of \<open>U\<close> may rest without being mapped.
\<close>

definition fwd_ok :: "u64 set \<Rightarrow> (u32 \<Rightarrow> Side \<Rightarrow> u64 set) \<Rightarrow> (u64 \<Rightarrow> ReverseIdEntry option) \<Rightarrow> u64 \<Rightarrow> u64 \<Rightarrow> IdEntry \<Rightarrow> bool" where
  "fwd_ok P L R n k e \<longleftrightarrow> ie_side e \<noteq> kCount \<and> ie_exchange_id e < n \<and>
     (ie_exchange_id e \<in> L (ie_symbol_id e) (ie_side e) \<or> ie_exchange_id e \<in> P \<and> (\<forall>s. ie_exchange_id e \<notin> L (ie_symbol_id e) s)) \<and>
     (\<exists>ts. R (ie_exchange_id e) = Some \<lparr>rie_session_id = extract_session_id k, rie_client_order_id = k AND kMaxClientOrderId,
        rie_symbol_id = ie_symbol_id e, rie_send_ts = ts\<rparr>)"

definition maps_ok :: "u64 set \<Rightarrow> u64 set \<Rightarrow> (u32 \<Rightarrow> Side \<Rightarrow> u64 set) \<Rightarrow> (u64 \<Rightarrow> IdEntry option) \<Rightarrow>
    (u64 \<Rightarrow> ReverseIdEntry option) \<Rightarrow> u64 \<Rightarrow> bool" where
  "maps_ok P U L F R n \<longleftrightarrow>
     (\<forall>k e. F k = Some e \<longrightarrow> fwd_ok P L R n k e) \<and>
     (\<forall>x r. R x = Some r \<longrightarrow> rie_client_order_id r \<le> kMaxClientOrderId \<and>
        (\<exists>e. F (ckey (rie_session_id r) (rie_client_order_id r)) = Some e \<and> ie_exchange_id e = x)) \<and>
     (\<forall>sm s x. x \<in> L sm s \<longrightarrow> x < n \<and> (x \<in> U \<or> (\<exists>r. R x = Some r \<and> rie_symbol_id r = sm)))"

lemma maps_okD:
  assumes "maps_ok P U L F R n"
  shows "F k = Some e \<Longrightarrow> fwd_ok P L R n k e"
    and "R x = Some r \<Longrightarrow> rie_client_order_id r \<le> kMaxClientOrderId"
    and "R x = Some r \<Longrightarrow> \<exists>e. F (ckey (rie_session_id r) (rie_client_order_id r)) = Some e \<and> ie_exchange_id e = x"
    and "x \<in> L sm s \<Longrightarrow> x < n"
    and "x \<in> L sm s \<Longrightarrow> x \<notin> U \<Longrightarrow> \<exists>r. R x = Some r \<and> rie_symbol_id r = sm"
  using assms unfolding maps_ok_def by blast+

lemma maps_ok_rev_symbol:
  assumes "maps_ok P U L F R n" "F k = Some e" "R (ie_exchange_id e) = Some r"
  shows "rie_symbol_id r = ie_symbol_id e" "rie_session_id r = extract_session_id k" "rie_client_order_id r = k AND kMaxClientOrderId"
  using maps_okD(1) [OF assms(1,2)] assms(3) by (auto simp: fwd_ok_def)

lemma maps_ok_inj:
  assumes "maps_ok P U L F R n" "F k = Some e" "F k' = Some e'" "ie_exchange_id e = ie_exchange_id e'"
  shows "k = k'"
proof -
  obtain ts ts' where "R (ie_exchange_id e) = Some \<lparr>rie_session_id = extract_session_id k, rie_client_order_id = k AND kMaxClientOrderId,
      rie_symbol_id = ie_symbol_id e, rie_send_ts = ts\<rparr>"
    "R (ie_exchange_id e') = Some \<lparr>rie_session_id = extract_session_id k', rie_client_order_id = k' AND kMaxClientOrderId,
      rie_symbol_id = ie_symbol_id e', rie_send_ts = ts'\<rparr>"
    using maps_okD(1) [OF assms(1,2)] maps_okD(1) [OF assms(1,3)] by (auto simp: fwd_ok_def)
  then have "extract_session_id k = extract_session_id k' \<and> k AND kMaxClientOrderId = k' AND kMaxClientOrderId"
    using assms(4) by simp
  then show ?thesis using ckey_extract [of k] ckey_extract [of k'] by metis
qed

lemma maps_ok_rev_lt: "maps_ok P U L F R n \<Longrightarrow> R x = Some r \<Longrightarrow> x < n"
  using maps_okD(1,3) by (fastforce simp: fwd_ok_def)

text \<open>An id that is not gone after all: the order rests on some side.\<close>

lemma maps_ok_settle:
  assumes ok: "maps_ok P U L F R n" and x: "\<And>k e. F k = Some e \<Longrightarrow> ie_exchange_id e = x \<Longrightarrow> \<exists>s. x \<in> L (ie_symbol_id e) s"
  shows "maps_ok (P - {x}) U L F R n"
proof -
  have "fwd_ok (P - {x}) L R n k e" if "F k = Some e" for k e
    using maps_okD(1) [OF ok that] x [OF that] unfolding fwd_ok_def by blast
  then show ?thesis using ok unfolding maps_ok_def by blast
qed

lemma maps_ok_mono: "maps_ok P U L F R n \<Longrightarrow> P \<subseteq> P' \<Longrightarrow> U \<subseteq> U' \<Longrightarrow> maps_ok P' U' L F R n"
  unfolding maps_ok_def fwd_ok_def by blast

lemma maps_ok_erase:
  assumes ok: "maps_ok P U L F R n" and e: "F k = Some e" "ie_exchange_id e = x" and gone: "\<And>sm s. x \<notin> L sm s"
  shows "maps_ok (P - {x}) U L (F(k := None)) (R(x := None)) n"
  unfolding maps_ok_def
proof (intro conjI allI impI)
  fix k' e' assume a: "(F(k := None)) k' = Some e'"
  then have k': "k' \<noteq> k" "F k' = Some e'" by (auto split: if_splits)
  then have "ie_exchange_id e' \<noteq> x" using maps_ok_inj [OF ok k'(2) e(1)] e(2) by auto
  then show "fwd_ok (P - {x}) L (R(x := None)) n k' e'" using maps_okD(1) [OF ok k'(2)] by (simp add: fwd_ok_def)
next
  fix y r assume "(R(x := None)) y = Some r"
  then have y: "y \<noteq> x" "R y = Some r" by (auto split: if_splits)
  show "rie_client_order_id r \<le> kMaxClientOrderId" by (rule maps_okD(2) [OF ok y(2)])
  show "\<exists>e. (F(k := None)) (ckey (rie_session_id r) (rie_client_order_id r)) = Some e \<and> ie_exchange_id e = y"
    using maps_okD(3) [OF ok y(2)] e y(1) by auto
next
  fix sm s y assume y: "y \<in> L sm s"
  then show "y < n" by (rule maps_okD(4) [OF ok])
  show "y \<in> U \<or> (\<exists>r. (R(x := None)) y = Some r \<and> rie_symbol_id r = sm)"
    using maps_okD(5) [OF ok y] gone [of sm s] y by (auto split: if_splits)
qed

lemma maps_ok_enter:
  assumes ok: "maps_ok P {x} L F R n" and fresh: "F k = None" "R x = None" and e: "ie_exchange_id e = x" "ie_side e \<noteq> kCount"
    and live: "x \<in> L (ie_symbol_id e) (ie_side e)" "\<And>sm s. x \<in> L sm s \<Longrightarrow> sm = ie_symbol_id e"
    and r: "r = \<lparr>rie_session_id = extract_session_id k, rie_client_order_id = k AND kMaxClientOrderId, rie_symbol_id = ie_symbol_id e, rie_send_ts = ts\<rparr>"
  shows "maps_ok P {} L (F(k \<mapsto> e)) (R(x \<mapsto> r)) n"
  unfolding maps_ok_def
proof (intro conjI allI impI)
  fix k' e' assume a: "(F(k \<mapsto> e)) k' = Some e'"
  show "fwd_ok P L (R(x \<mapsto> r)) n k' e'"
  proof (cases "k' = k")
    case True
    then show ?thesis using a e live(1) maps_okD(4) [OF ok live(1)] r by (simp add: fwd_ok_def)
  next
    case False
    then have k': "F k' = Some e'" using a by simp
    then have "ie_exchange_id e' \<noteq> x" using maps_okD(1) [OF ok k'] fresh(2) by (auto simp: fwd_ok_def)
    then show ?thesis using maps_okD(1) [OF ok k'] by (simp add: fwd_ok_def)
  qed
next
  fix y r' assume y: "(R(x \<mapsto> r)) y = Some r'"
  show "rie_client_order_id r' \<le> kMaxClientOrderId"
    using y maps_okD(2) [OF ok, of y r'] r by (auto split: if_splits)
  show "\<exists>e'. (F(k \<mapsto> e)) (ckey (rie_session_id r') (rie_client_order_id r')) = Some e' \<and> ie_exchange_id e' = y"
  proof (cases "y = x")
    case True
    then show ?thesis using y r e(1) by auto
  next
    case False
    then have "R y = Some r'" using y by simp
    then show ?thesis using maps_okD(3) [OF ok] fresh(1) by fastforce
  qed
next
  fix sm s y assume y: "y \<in> L sm s"
  then show "y < n" by (rule maps_okD(4) [OF ok])
  show "y \<in> {} \<or> (\<exists>r'. (R(x \<mapsto> r)) y = Some r' \<and> rie_symbol_id r' = sm)"
    using maps_okD(5) [OF ok y] live(2) [of sm s] y r by (cases "y = x") auto
qed

text \<open>The engine of one symbol replaced: \<open>D\<close> has left the book, and \<open>n\<close> may have joined it.\<close>

lemma maps_ok_engine:
  assumes ok: "maps_ok {} {} L F R n" and n: "n \<noteq> - 1" and side: "\<And>sm s t x. x \<in> L sm s \<Longrightarrow> x \<in> L sm t \<Longrightarrow> s = t"
    and grow: "\<And>sm s. L' sm s \<subseteq> insert n (L sm s)" and keep: "\<And>sm s. L sm s - D \<subseteq> L' sm s"
  shows "maps_ok D {n} L' F R (n + 1)"
proof -
  have lt: "n < n + 1" using n unatSuc [of n] by (simp add: word_less_nat_alt add.commute eq_neg_iff_add_eq_0)
  have lt': "x < n + 1" if "x < n" for x using that lt by simp
  show ?thesis
    unfolding maps_ok_def
  proof (intro conjI allI impI)
    fix k e assume "F k = Some e"
    then have e: "fwd_ok {} L R n k e" by (rule maps_okD(1) [OF ok])
    then have live: "ie_exchange_id e \<in> L (ie_symbol_id e) (ie_side e)" "ie_exchange_id e \<noteq> n" by (auto simp: fwd_ok_def)
    then have "ie_exchange_id e \<in> L' (ie_symbol_id e) (ie_side e)" if "ie_exchange_id e \<in> L' (ie_symbol_id e) s" for s
      using that side [OF live(1), of s] grow [of "ie_symbol_id e" s] by blast
    then show "fwd_ok D L' R (n + 1) k e" using e live(1) keep [of "ie_symbol_id e" "ie_side e"] lt' unfolding fwd_ok_def by blast
  next
    fix x r assume x: "R x = Some r"
    show "rie_client_order_id r \<le> kMaxClientOrderId" by (rule maps_okD(2) [OF ok x])
    show "\<exists>e. F (ckey (rie_session_id r) (rie_client_order_id r)) = Some e \<and> ie_exchange_id e = x" by (rule maps_okD(3) [OF ok x])
  next
    fix sm s x assume "x \<in> L' sm s"
    then have x: "x = n \<or> x \<in> L sm s" using grow [of sm s] by blast
    then show "x < n + 1" using maps_okD(4) [OF ok, of x sm s] lt lt' by blast
    show "x \<in> {n} \<or> (\<exists>r. R x = Some r \<and> rie_symbol_id r = sm)" using x maps_okD(5) [OF ok, of x sm s] by blast
  qed
qed

lemma maps_ok_shrink:
  assumes ok: "maps_ok P {} L F R n" and side: "\<And>sm s t x. x \<in> L sm s \<Longrightarrow> x \<in> L sm t \<Longrightarrow> s = t"
    and grow: "\<And>sm s. L' sm s \<subseteq> L sm s" and keep: "\<And>sm s. L sm s - D \<subseteq> L' sm s"
  shows "maps_ok (P \<union> D) {} L' F R n"
  unfolding maps_ok_def
proof (intro conjI allI impI)
  fix k e assume "F k = Some e"
  then have e: "fwd_ok P L R n k e" by (rule maps_okD(1) [OF ok])
  let ?x = "ie_exchange_id e" and ?L = "L (ie_symbol_id e)" and ?L' = "L' (ie_symbol_id e)"
  have "?x \<in> ?L' (ie_side e) \<or> ?x \<in> P \<union> D \<and> (\<forall>s. ?x \<notin> ?L' s)"
  proof (cases "?x \<in> ?L (ie_side e)")
    case True
    then have "?x \<in> ?L' (ie_side e)" if "?x \<in> ?L' s" for s
      using that side [OF True, of s] grow [of "ie_symbol_id e" s] by blast
    then show ?thesis using keep [of "ie_symbol_id e" "ie_side e"] True by blast
  next
    case False
    then have "?x \<in> P" "\<forall>s. ?x \<notin> ?L s" using e by (auto simp: fwd_ok_def)
    then show ?thesis using grow [of "ie_symbol_id e"] by blast
  qed
  then show "fwd_ok (P \<union> D) L' R n k e" using e by (simp add: fwd_ok_def)
next
  fix x r assume x: "R x = Some r"
  show "rie_client_order_id r \<le> kMaxClientOrderId" by (rule maps_okD(2) [OF ok x])
  show "\<exists>e. F (ckey (rie_session_id r) (rie_client_order_id r)) = Some e \<and> ie_exchange_id e = x" by (rule maps_okD(3) [OF ok x])
next
  fix sm s x assume "x \<in> L' sm s"
  then have x: "x \<in> L sm s" using grow [of sm s] by blast
  then show "x < n" by (rule maps_okD(4) [OF ok])
  show "x \<in> {} \<or> (\<exists>r. R x = Some r \<and> rie_symbol_id r = sm)" using x maps_okD(5) [OF ok, of x sm s] by blast
qed

lemma maps_ok_absent:
  assumes ok: "maps_ok P {x} L F R n" and "\<And>sm s. x \<notin> L sm s"
  shows "maps_ok P {} L F R n"
  using assms unfolding maps_ok_def by blast

lemma maps_ok_symbol:
  assumes ok: "maps_ok P {} L F R n" and e: "F k = Some e" "ie_exchange_id e \<in> L sm s"
  shows "ie_symbol_id e = sm"
  using maps_okD(5) [OF ok e(2)] maps_ok_rev_symbol(1) [OF ok e(1)] by auto

end
