(* ===== verification/ExchangeCoreInv.thy ===== *)
theory ExchangeCoreInv
  imports ExchangeMaps
begin

text \<open>
  The invariant of the exchange coordinator, the events it owes for a fill and for the best
  prices, and that the loop over the fills emits exactly these and restores the invariant.
\<close>

section \<open>The invariant\<close>

text \<open>The resting orders of a symbol.\<close>

definition live :: "ExchangeCore \<Rightarrow> u32 \<Rightarrow> Side \<Rightarrow> u64 set" where
  "live c sm s = (case symbol_index c sm of None \<Rightarrow> {} | Some i \<Rightarrow> resting (sl_engine (ec_symbols c ! i)) s)"

definition slot_ok :: "SymbolSlot \<Rightarrow> bool" where
  "slot_ok slot \<longleftrightarrow> (sl_active slot \<longrightarrow> (\<exists>M N. engine_inv M N (sl_engine slot)) \<and> length (me_fills (sl_engine slot)) = kMaxFillsPerMatch)"

definition store_ok :: "ExchangeCore \<Rightarrow> bool" where
  "store_ok c \<longleftrightarrow> length (ec_symbols c) < 2 ^ 32 \<and> (\<forall>slot \<in> set (ec_symbols c). slot_ok slot) \<and>
     fh_inv (ec_seen_orders c) \<and> fh_inv (ec_id_map c) \<and> fh_inv (ec_reverse_id_map c) \<and>
     fh_capacity (ec_seen_orders c) = kMaxSeenOrders \<and> fh_capacity (ec_id_map c) = kMaxIdMappings \<and>
     fh_capacity (ec_reverse_id_map c) = kMaxIdMappings \<and>
     dom (fh_lookup (ec_id_map c)) \<subseteq> dom (fh_lookup (ec_seen_orders c))"

definition cinv :: "u64 set \<Rightarrow> u64 set \<Rightarrow> ExchangeCore \<Rightarrow> bool" where
  "cinv P U c \<longleftrightarrow> store_ok c \<and>
     maps_ok P U (live c) (fh_lookup (ec_id_map c)) (fh_lookup (ec_reverse_id_map c)) (ec_next_exchange_id c)"

abbreviation core_inv :: "ExchangeCore \<Rightarrow> bool" where
  "core_inv \<equiv> cinv {} {}"

lemma cinvD: "cinv P U c \<Longrightarrow> store_ok c"
  "cinv P U c \<Longrightarrow> maps_ok P U (live c) (fh_lookup (ec_id_map c)) (fh_lookup (ec_reverse_id_map c)) (ec_next_exchange_id c)"
  by (simp_all add: cinv_def)

lemma store_okD:
  assumes "store_ok c"
  shows "length (ec_symbols c) < 2 ^ 32" "fh_inv (ec_seen_orders c)" "fh_inv (ec_id_map c)" "fh_inv (ec_reverse_id_map c)"
    "dom (fh_lookup (ec_id_map c)) \<subseteq> dom (fh_lookup (ec_seen_orders c))"
    "fh_capacity (ec_seen_orders c) = kMaxSeenOrders" "fh_capacity (ec_id_map c) = kMaxIdMappings" "fh_capacity (ec_reverse_id_map c) = kMaxIdMappings"
  using assms unfolding store_ok_def by simp_all

lemma symbol_indexD:
  assumes "symbol_index c sm = Some i"
  shows "i < length (ec_symbols c)" "sl_active (ec_symbols c ! i)" "i = unat (sm - 1)" "sm \<noteq> 0" "sm = of_nat i + 1"
proof -
  have s: "sm \<noteq> 0" "unat sm \<le> length (ec_symbols c)" "i = unat (sm - 1)" "sl_active (ec_symbols c ! i)"
    using assms by (auto simp: symbol_index_def Let_def split: if_splits)
  then show "sl_active (ec_symbols c ! i)" "i = unat (sm - 1)" "sm \<noteq> 0" "sm = of_nat i + 1" by simp_all
  have "unat sm \<noteq> 0" using s(1) by (simp add: unat_eq_0)
  then show "i < length (ec_symbols c)" using s(1-3) by (simp add: unat_minus_one)
qed

lemma core_symbol_index_inj: "symbol_index c sm = Some i \<Longrightarrow> symbol_index c t = Some i \<Longrightarrow> t = sm"
  using symbol_indexD(5) by metis

lemma engine_at:
  assumes "store_ok c" "symbol_index c sm = Some i"
  obtains M N where "engine_inv M N (sl_engine (ec_symbols c ! i))" "length (me_fills (sl_engine (ec_symbols c ! i))) = kMaxFillsPerMatch"
  using assms(1) symbol_indexD(1,2) [OF assms(2)] nth_mem [of i "ec_symbols c"] unfolding store_ok_def slot_ok_def by blast

lemma live_at: "symbol_index c sm = Some i \<Longrightarrow> live c sm s = resting (sl_engine (ec_symbols c ! i)) s"
  by (simp add: live_def)

lemma live_side:
  assumes "store_ok c" "x \<in> live c sm s" "x \<in> live c sm t"
  shows "s = t"
proof -
  obtain i where i: "symbol_index c sm = Some i" using assms(2) by (auto simp: live_def split: option.splits)
  obtain M N where "engine_inv M N (sl_engine (ec_symbols c ! i))" by (rule engine_at [OF assms(1) i])
  then show ?thesis using resting_side assms(2,3) live_at [OF i] by blast
qed

text \<open>Fields that the invariant does not read, and the effect of a new engine.\<close>

lemma symbol_index_cong [simp]:
  "symbol_index (c\<lparr>ec_next_exchange_id := n\<rparr>) = symbol_index c" "symbol_index (c\<lparr>ec_events := es\<rparr>) = symbol_index c"
  "symbol_index (c\<lparr>ec_next_session_id := sid\<rparr>) = symbol_index c" "symbol_index (c\<lparr>ec_active_sessions := act\<rparr>) = symbol_index c"
  "symbol_index (c\<lparr>ec_seen_orders := m\<rparr>) = symbol_index c" "symbol_index (c\<lparr>ec_id_map := f\<rparr>) = symbol_index c"
  "symbol_index (c\<lparr>ec_reverse_id_map := r\<rparr>) = symbol_index c"
  by (auto simp: symbol_index_def fun_eq_iff)

lemma live_cong [simp]:
  "live (c\<lparr>ec_next_exchange_id := n\<rparr>) = live c" "live (c\<lparr>ec_events := es\<rparr>) = live c"
  "live (c\<lparr>ec_next_session_id := sid\<rparr>) = live c" "live (c\<lparr>ec_active_sessions := act\<rparr>) = live c"
  "live (c\<lparr>ec_seen_orders := m\<rparr>) = live c" "live (c\<lparr>ec_id_map := f\<rparr>) = live c" "live (c\<lparr>ec_reverse_id_map := r\<rparr>) = live c"
  by (simp_all add: live_def fun_eq_iff split: option.split)

lemma cinv_cong [simp]:
  "cinv P U (c\<lparr>ec_events := es\<rparr>) = cinv P U c" "cinv P U (c\<lparr>ec_next_session_id := sid\<rparr>) = cinv P U c"
  "cinv P U (c\<lparr>ec_active_sessions := act\<rparr>) = cinv P U c"
  by (simp_all add: cinv_def store_ok_def)

lemma set_engine_sel [simp]:
  "ec_next_exchange_id (set_engine i e c) = ec_next_exchange_id c" "ec_events (set_engine i e c) = ec_events c"
  "ec_next_session_id (set_engine i e c) = ec_next_session_id c" "ec_active_sessions (set_engine i e c) = ec_active_sessions c"
  "ec_seen_orders (set_engine i e c) = ec_seen_orders c" "ec_id_map (set_engine i e c) = ec_id_map c"
  "ec_reverse_id_map (set_engine i e c) = ec_reverse_id_map c"
  "length (ec_symbols (set_engine i e c)) = length (ec_symbols c)"
  by (simp_all add: set_engine_def)

lemma symbol_index_set_engine [simp]: "symbol_index (set_engine i e c) = symbol_index c"
proof
  fix sm
  have "sl_active ((ec_symbols c)[i := (ec_symbols c ! i)\<lparr>sl_engine := e\<rparr>] ! k) = sl_active (ec_symbols c ! k)" for k
    by (cases "i < length (ec_symbols c)") (simp_all add: nth_list_update list_update_beyond)
  then show "symbol_index (set_engine i e c) sm = symbol_index c sm" by (simp add: symbol_index_def set_engine_def)
qed

lemma engine_set_engine: "i < length (ec_symbols c) \<Longrightarrow> sl_engine (ec_symbols (set_engine i e c) ! k) = (if k = i then e else sl_engine (ec_symbols c ! k))"
  by (simp add: set_engine_def nth_list_update)

lemma live_set_engine:
  assumes "symbol_index c sm = Some i"
  shows "live (set_engine i e c) t s = (if t = sm then resting e s else live c t s)"
proof (cases "symbol_index c t")
  case (Some k)
  then show ?thesis
    using assms core_symbol_index_inj [OF assms, of t] engine_set_engine [OF symbol_indexD(1) [OF assms]] by (auto simp: live_def)
qed (use assms in \<open>auto simp: live_def\<close>)

lemma store_ok_set_engine:
  assumes "store_ok c" "engine_inv M N e" "length (me_fills e) = kMaxFillsPerMatch"
  shows "store_ok (set_engine i e c)"
proof -
  have "slot_ok slot" if "slot \<in> set (ec_symbols (set_engine i e c))" for slot
    using that assms set_update_subset_insert [of "ec_symbols c" i] unfolding set_engine_def store_ok_def by (force simp: slot_ok_def)
  then show ?thesis using assms(1) by (simp add: store_ok_def)
qed

text \<open>An operation of the engine of one symbol, with the next exchange id drawn.\<close>

lemma cinv_engine:
  assumes inv: "core_inv c" and i: "symbol_index c sm = Some i" and n: "ec_next_exchange_id c \<noteq> - 1"
    and e: "engine_inv M N e" "length (me_fills e) = kMaxFillsPerMatch"
    and grow: "\<And>s. resting e s \<subseteq> insert (ec_next_exchange_id c) (live c sm s)" and keep: "\<And>s. live c sm s - D \<subseteq> resting e s"
  shows "cinv D {ec_next_exchange_id c} (set_engine i e (c\<lparr>ec_next_exchange_id := ec_next_exchange_id c + 1\<rparr>))"
proof -
  let ?c = "c\<lparr>ec_next_exchange_id := ec_next_exchange_id c + 1\<rparr>"
  have st: "store_ok ?c" using cinvD(1) [OF inv] by (simp add: store_ok_def)
  have L: "live (set_engine i e ?c) t s = (if t = sm then resting e s else live c t s)" for t s
    using live_set_engine [of ?c sm i e t s] i by simp
  have "maps_ok D {ec_next_exchange_id c} (live (set_engine i e ?c)) (fh_lookup (ec_id_map c)) (fh_lookup (ec_reverse_id_map c)) (ec_next_exchange_id c + 1)"
    by (rule maps_ok_engine [OF cinvD(2) [OF inv] n live_side [OF cinvD(1) [OF inv]]])
       (use grow keep in \<open>auto simp: L split: if_splits\<close>)
  then show ?thesis using store_ok_set_engine [OF st e] by (simp add: cinv_def)
qed

section \<open>Events\<close>

text \<open>What the coordinator owes its clients: the best prices with the quantity there, and the fill of a maker.\<close>

definition best_event :: "u32 \<Rightarrow> Side \<Rightarrow> alevel list \<Rightarrow> ExchangeEvent list" where
  "best_event sm s lad = (case lad of [] \<Rightarrow> []
     | (p, es) # _ \<Rightarrow> [no_event\<lparr>ev_type := EvBBOUpdate, ev_symbol_id := sm, ev_side := s, ev_price := p, ev_qty := sum_list (map snd es)\<rparr>])"

definition bbo_events :: "u32 \<Rightarrow> (Side \<Rightarrow> alevel list) \<Rightarrow> ExchangeEvent list" where
  "bbo_events sm A = best_event sm kBid (A kBid) @ best_event sm kAsk (A kAsk)"

definition left_of :: "MatchingEngine \<Rightarrow> u64 \<Rightarrow> Qty" where
  "left_of e x = (case a_orders (engine_abs e) x of None \<Rightarrow> 0 | Some q \<Rightarrow> q)"

definition maker_event :: "ReverseIdEntry \<Rightarrow> Side \<Rightarrow> Qty \<Rightarrow> Fill \<Rightarrow> ExchangeEvent" where
  "maker_event r side left f = no_event\<lparr>ev_type := EvFill, ev_session_id := rie_session_id r,
     ev_client_order_id := rie_client_order_id r, ev_exchange_order_id := maker_id f, ev_symbol_id := rie_symbol_id r,
     ev_side := side, ev_price := f_price f, ev_qty := f_qty f, ev_remaining_qty := left, ev_send_ts := rie_send_ts r\<rparr>"

fun fill_events :: "(u64 \<Rightarrow> ReverseIdEntry option) \<Rightarrow> MatchingEngine \<Rightarrow> ExchangeEvent \<Rightarrow> Qty \<Rightarrow> Fill list \<Rightarrow> ExchangeEvent list" where
  "fill_events R e taker rem [] = []"
| "fill_events R e taker rem (f # fs) =
     taker\<lparr>ev_price := f_price f, ev_qty := f_qty f, ev_remaining_qty := rem - f_qty f\<rparr> #
     (case R (maker_id f) of None \<Rightarrow> []
      | Some r \<Rightarrow> [maker_event r (if ev_side taker = kBid then kAsk else kBid) (left_of e (maker_id f)) f]) @
     bbo_events (ev_symbol_id taker) (engine_abs e) @ fill_events R e taker (rem - f_qty f) fs"

lemma emit_ok [simp]: "length (ec_events c) < kMaxEvents \<Longrightarrow> emit ev c = Some (c\<lparr>ec_events := ec_events c @ [ev]\<rparr>)"
  by (simp add: emit_def)

lemma length_best_event: "length (best_event sm s lad) \<le> 1"
  by (simp add: best_event_def split: list.split prod.split)

lemma length_bbo_events: "length (bbo_events sm A) \<le> 2"
  using length_best_event [of sm kBid "A kBid"] length_best_event [of sm kAsk "A kAsk"] by (simp add: bbo_events_def)

lemma length_fill_events: "length (fill_events R e taker rem fs) \<le> 4 * length fs"
proof (induction fs arbitrary: rem)
  case (Cons f fs)
  show ?case
    using Cons.IH [of "rem - f_qty f"] length_bbo_events [of "ev_symbol_id taker" "engine_abs e"] by (simp split: option.split)
qed simp

lemma fill_events_cong: "(\<And>f. f \<in> set fs \<Longrightarrow> R (maker_id f) = R' (maker_id f)) \<Longrightarrow> fill_events R e taker rem fs = fill_events R' e taker rem fs"
  by (induction fs arbitrary: rem) auto

lemma emit_best_ok:
  assumes "book_inv M N b" "s \<noteq> kCount" "length (ec_events c) < kMaxEvents"
  shows "emit_best s (ob_ladder b s) b sm c = Some (c\<lparr>ec_events := ec_events c @ best_event sm s (book_abs b s)\<rparr>)"
proof (cases "ob_ladder b s")
  case Nil
  then show ?thesis using assms(2) by (simp add: emit_best_def best_event_def book_abs_def v_abs_def view_sel)
next
  case (Cons l ls)
  then have l: "l \<in> set (v_lad (view b) s)" using assms(2) by (simp add: view_sel)
  have "pl_total_qty (ob_level_slots b ! l) = sum_list (map snd (map (v_entry (view b)) (v_queue (view b) l)))"
    using level_okD(3) [OF wf_coreD(5) [OF book_invD(2) [OF assms(1)] l]] by (simp add: view_sel(1) v_entry_def comp_def)
  then show ?thesis
    using Cons assms(2,3) by (simp add: emit_best_def best_event_def book_abs_def v_abs_def view_sel)
qed

lemma emit_bbo_ok:
  assumes "engine_inv M N (sl_engine (ec_symbols c ! i))" "i < length (ec_symbols c)" "length (ec_events c) + 2 \<le> kMaxEvents"
  shows "emit_bbo i sm c = Some (c\<lparr>ec_events := ec_events c @ bbo_events sm (engine_abs (sl_engine (ec_symbols c ! i)))\<rparr>)"
proof -
  let ?b = "me_book (sl_engine (ec_symbols c ! i))"
  let ?c = "c\<lparr>ec_events := ec_events c @ best_event sm kBid (book_abs ?b kBid)\<rparr>"
  have "length (ec_events ?c) < kMaxEvents" using assms(3) length_best_event [of sm kBid "book_abs ?b kBid"] by simp
  then show ?thesis
    using emit_best_ok [OF assms(1), of kBid c sm] emit_best_ok [OF assms(1), of kAsk ?c sm] assms(2,3)
    by (simp add: emit_bbo_def bbo_events_def arr_get_def ob_ladder_def Let_def)
qed

section \<open>The loop over the fills\<close>

text \<open>Reporting fills changes the events and the id maps only, and occupies no further slot of the maps.\<close>

definition reported :: "ExchangeCore \<Rightarrow> ExchangeCore \<Rightarrow> bool" where
  "reported c c' \<longleftrightarrow> c'\<lparr>ec_events := ec_events c, ec_id_map := ec_id_map c, ec_reverse_id_map := ec_reverse_id_map c\<rparr> = c \<and>
     fh_used (ec_id_map c') = fh_used (ec_id_map c) \<and> fh_used (ec_reverse_id_map c') = fh_used (ec_reverse_id_map c) \<and>
     fh_capacity (ec_id_map c') = fh_capacity (ec_id_map c) \<and> fh_capacity (ec_reverse_id_map c') = fh_capacity (ec_reverse_id_map c)"

lemma reported_trans: "reported c c' \<Longrightarrow> reported c' c'' \<Longrightarrow> reported c c''"
  by (cases c; cases c'; cases c'') (auto simp: reported_def)

lemma reported_events [simp]: "reported c (c\<lparr>ec_events := es\<rparr>)"
  by (cases c) (simp add: reported_def)

lemma reported_sel:
  assumes "reported c c'"
  shows "ec_symbols c' = ec_symbols c" "ec_next_exchange_id c' = ec_next_exchange_id c" "ec_seen_orders c' = ec_seen_orders c"
    "ec_active_sessions c' = ec_active_sessions c" "ec_next_session_id c' = ec_next_session_id c"
    "symbol_index c' = symbol_index c" "live c' = live c"
proof -
  show s: "ec_symbols c' = ec_symbols c" "ec_next_exchange_id c' = ec_next_exchange_id c" "ec_seen_orders c' = ec_seen_orders c"
    "ec_active_sessions c' = ec_active_sessions c" "ec_next_session_id c' = ec_next_session_id c"
    using assms by (cases c; cases c'; simp add: reported_def)+
  then show "symbol_index c' = symbol_index c" by (simp add: symbol_index_def fun_eq_iff)
  then show "live c' = live c" by (simp add: live_def fun_eq_iff s(1) split: option.split)
qed

lemma erase_both:
  assumes inv: "cinv P U c" and e: "fh_lookup (ec_id_map c) k = Some e" "ie_exchange_id e = x" and gone: "\<And>sm s. x \<notin> live c sm s"
  obtains f r where "fh_erase (ec_id_map c) k = Some (True, f)" "fh_erase (ec_reverse_id_map c) x = Some (True, r)"
    "cinv (P - {x}) U (c\<lparr>ec_id_map := f, ec_reverse_id_map := r\<rparr>)" "reported c (c\<lparr>ec_id_map := f, ec_reverse_id_map := r\<rparr>)"
    "fh_lookup f = (fh_lookup (ec_id_map c))(k := None)" "fh_lookup r = (fh_lookup (ec_reverse_id_map c))(x := None)"
proof -
  note st = store_okD [OF cinvD(1) [OF inv]] and mp = cinvD(2) [OF inv]
  obtain f where f: "fh_erase (ec_id_map c) k = Some (fh_lookup (ec_id_map c) k \<noteq> None, f)" "fh_inv f"
    "fh_lookup f = (fh_lookup (ec_id_map c))(k := None)" "fh_used f = fh_used (ec_id_map c)" "fh_capacity f = fh_capacity (ec_id_map c)"
    by (rule fh_eraseE [OF st(3)])
  obtain r where r: "fh_erase (ec_reverse_id_map c) x = Some (fh_lookup (ec_reverse_id_map c) x \<noteq> None, r)" "fh_inv r"
    "fh_lookup r = (fh_lookup (ec_reverse_id_map c))(x := None)" "fh_used r = fh_used (ec_reverse_id_map c)"
    "fh_capacity r = fh_capacity (ec_reverse_id_map c)"
    by (rule fh_eraseE [OF st(4)])
  have "fh_lookup (ec_reverse_id_map c) x \<noteq> None" using maps_okD(1) [OF mp e(1)] e(2) by (auto simp: fwd_ok_def)
  moreover have "cinv (P - {x}) U (c\<lparr>ec_id_map := f, ec_reverse_id_map := r\<rparr>)"
    using maps_ok_erase [OF mp e gone] cinvD(1) [OF inv] f(2,3,5) r(2,3,5) by (auto simp: cinv_def store_ok_def)
  moreover have "reported c (c\<lparr>ec_id_map := f, ec_reverse_id_map := r\<rparr>)" using f(4,5) r(4,5) by (cases c) (simp add: reported_def)
  ultimately show thesis using that [of f r] f(1,3) r(1,3) e(1) by simp
qed

lemma emit_maker_fill_ok:
  assumes inv: "cinv P U c" and i: "symbol_index c sm = Some i" and r: "fh_lookup (ec_reverse_id_map c) (maker_id f) = Some r" "rie_symbol_id r = sm"
    and U: "maker_id f \<notin> U" and room: "length (ec_events c) < kMaxEvents"
  obtains c' where "emit_maker_fill i f tside c = Some c'" "cinv (P - {maker_id f}) U c'" "reported c c'"
    "ec_events c' = ec_events c @ [maker_event r (if tside = kBid then kAsk else kBid) (left_of (sl_engine (ec_symbols c ! i)) (maker_id f)) f]"
    "\<And>y t s. y \<noteq> maker_id f \<or> y \<in> live c t s \<Longrightarrow> fh_lookup (ec_reverse_id_map c') y = fh_lookup (ec_reverse_id_map c) y"
proof -
  let ?x = "maker_id f" and ?e = "sl_engine (ec_symbols c ! i)"
  let ?ev = "maker_event r (if tside = kBid then kAsk else kBid) (left_of ?e ?x) f"
  let ?c = "c\<lparr>ec_events := ec_events c @ [?ev]\<rparr>"
  note mp = cinvD(2) [OF inv]
  obtain M N where e: "engine_inv M N ?e" by (rule engine_at [OF cinvD(1) [OF inv] i])
  have q: "order_qty (me_book ?e) ?x = Some (left_of ?e ?x)" using order_qty_ok [OF e] by (simp add: left_of_def)
  have h: "has_order (me_book ?e) ?x = Some (?x \<in> live c sm kBid \<union> live c sm kAsk)"
    using has_order_ok [OF e] has_resting [of ?e ?x] by (simp add: live_at [OF i])
  obtain k en where k: "k = ckey (rie_session_id r) (rie_client_order_id r)" "fh_lookup (ec_id_map c) k = Some en" "ie_exchange_id en = ?x"
    "rie_client_order_id r \<le> kMaxClientOrderId"
    using maps_okD(2,3) [OF mp r(1)] by blast
  have sm: "ie_symbol_id en = sm" using maps_ok_rev_symbol(1) [OF mp k(2)] k(3) r by simp
  have inv': "cinv P U ?c" using inv by simp
  note step = emit_maker_fill_def fhmap.find [OF store_okD(4) [OF cinvD(1) [OF inv]]] r(1) arr_get_def symbol_indexD(1) [OF i] Let_def q room
  show thesis
  proof (cases "?x \<in> live c sm kBid \<union> live c sm kAsk")
    case True
    then have "maps_ok (P - {?x}) U (live c) (fh_lookup (ec_id_map c)) (fh_lookup (ec_reverse_id_map c)) (ec_next_exchange_id c)"
      using maps_ok_inj [OF mp k(2)] k(2,3) sm by (intro maps_ok_settle [OF mp]) (metis UnE option.inject)
    then have "cinv (P - {?x}) U ?c" using cinvD(1) [OF inv] by (simp add: cinv_def store_ok_def)
    moreover have "has_order (me_book ?e) ?x = Some True" using h True by simp
    ultimately show thesis using that [of ?c] by (simp add: step maker_event_def)
  next
    case False
    have gone: "?x \<notin> live ?c t s" for t s
    proof
      assume l: "?x \<in> live ?c t s"
      then have "t = sm" using maps_okD(5) [OF mp _ U, of t s] r by auto
      then show False using l False resting_kCount [OF e] by (cases s) (auto simp: live_at [OF i])
    qed
    obtain f' r' where er: "fh_erase (ec_id_map ?c) k = Some (True, f')" "fh_erase (ec_reverse_id_map ?c) ?x = Some (True, r')"
      "cinv (P - {?x}) U (?c\<lparr>ec_id_map := f', ec_reverse_id_map := r'\<rparr>)" "reported ?c (?c\<lparr>ec_id_map := f', ec_reverse_id_map := r'\<rparr>)"
      "fh_lookup r' = (fh_lookup (ec_reverse_id_map ?c))(?x := None)"
      by (rule erase_both [OF inv', of k en ?x]) (use k(2,3) gone in auto)
    moreover have "has_order (me_book ?e) ?x = Some False" using h False by simp
    ultimately show thesis
      using that [of "?c\<lparr>ec_id_map := f', ec_reverse_id_map := r'\<rparr>"] k(1,4) gone reported_trans [OF reported_events er(4)]
      by (simp add: step maker_event_def)
  qed
qed

lemma emit_fills_ex:
  assumes "cinv P U c" "symbol_index c (ev_symbol_id taker) = Some i" "distinct (map maker_id fs)"
    "\<And>f. f \<in> set fs \<Longrightarrow> maker_id f \<notin> U \<and> (\<exists>r. fh_lookup (ec_reverse_id_map c) (maker_id f) = Some r \<and> rie_symbol_id r = ev_symbol_id taker)"
    "length (ec_events c) + 4 * length fs \<le> kMaxEvents"
  shows "\<exists>c'. emit_fills i taker rem fs c = Some c' \<and> cinv (P - maker_id ` set fs) U c' \<and> reported c c' \<and>
    ec_events c' = ec_events c @ fill_events (fh_lookup (ec_reverse_id_map c)) (sl_engine (ec_symbols c ! i)) taker rem fs \<and>
    (\<forall>y. y \<notin> maker_id ` set fs \<or> (\<exists>sm s. y \<in> live c sm s) \<longrightarrow> fh_lookup (ec_reverse_id_map c') y = fh_lookup (ec_reverse_id_map c) y)"
  using assms
proof (induction fs arbitrary: P c rem)
  case Nil
  then show ?case by (cases c) (simp add: reported_def)
next
  case (Cons f fs)
  let ?e = "sl_engine (ec_symbols c ! i)" and ?rem = "rem - f_qty f" and ?x = "maker_id f"
  let ?c1 = "c\<lparr>ec_events := ec_events c @ [taker\<lparr>ev_price := f_price f, ev_qty := f_qty f, ev_remaining_qty := ?rem\<rparr>]\<rparr>"
  let ?R = "fh_lookup (ec_reverse_id_map c)"
  obtain M N where e: "engine_inv M N ?e" by (rule engine_at [OF cinvD(1) [OF Cons.prems(1)] Cons.prems(2)])
  obtain r where r: "?R ?x = Some r" "rie_symbol_id r = ev_symbol_id taker" using Cons.prems(4) [of f] by auto
  obtain c2 where c2: "emit_maker_fill i f (ev_side taker) ?c1 = Some c2" "cinv (P - {?x}) U c2" "reported ?c1 c2"
    "ec_events c2 = ec_events ?c1 @ [maker_event r (if ev_side taker = kBid then kAsk else kBid) (left_of (sl_engine (ec_symbols ?c1 ! i)) ?x) f]"
    "\<And>y sm s. y \<noteq> ?x \<or> y \<in> live ?c1 sm s \<Longrightarrow> fh_lookup (ec_reverse_id_map c2) y = fh_lookup (ec_reverse_id_map ?c1) y"
    by (rule emit_maker_fill_ok [where c = ?c1 and f = f and tside = "ev_side taker" and P = P and U = U and sm = "ev_symbol_id taker" and i = i and r = r])
       (use Cons.prems r in auto)
  let ?c3 = "c2\<lparr>ec_events := ec_events c2 @ bbo_events (ev_symbol_id taker) (engine_abs ?e)\<rparr>"
  note rep = reported_sel [OF c2(3), simplified]
  have len: "length (ec_events ?c3) + 4 * length fs \<le> kMaxEvents"
    using Cons.prems(5) c2(4) length_bbo_events [of "ev_symbol_id taker" "engine_abs ?e"] by simp
  have bbo: "emit_bbo i (ev_symbol_id taker) c2 = Some ?c3"
    using emit_bbo_ok [where c = c2 and i = i] e rep(1) symbol_indexD(1) [OF Cons.prems(2)] c2(4) Cons.prems(5) by simp
  have keep: "fh_lookup (ec_reverse_id_map ?c3) y = ?R y" if "y \<noteq> ?x \<or> (\<exists>sm s. y \<in> live c sm s)" for y using c2(5) that by auto
  have "?x \<notin> maker_id ` set fs" using Cons.prems(3) by auto
  then have other: "fh_lookup (ec_reverse_id_map ?c3) (maker_id g) = ?R (maker_id g)" if "g \<in> set fs" for g
    using that by (intro keep disjI1) (metis imageI)
  have "\<exists>c'. emit_fills i taker ?rem fs ?c3 = Some c' \<and> cinv (P - {?x} - maker_id ` set fs) U c' \<and> reported ?c3 c' \<and>
    ec_events c' = ec_events ?c3 @ fill_events (fh_lookup (ec_reverse_id_map ?c3)) (sl_engine (ec_symbols ?c3 ! i)) taker ?rem fs \<and>
    (\<forall>y. y \<notin> maker_id ` set fs \<or> (\<exists>sm s. y \<in> live ?c3 sm s) \<longrightarrow> fh_lookup (ec_reverse_id_map c') y = fh_lookup (ec_reverse_id_map ?c3) y)"
    by (rule Cons.IH) (use c2(2) Cons.prems(2-4) rep(6) other len in auto)
  then obtain c' where c': "emit_fills i taker ?rem fs ?c3 = Some c'" "cinv (P - {?x} - maker_id ` set fs) U c'" "reported ?c3 c'"
    "ec_events c' = ec_events ?c3 @ fill_events (fh_lookup (ec_reverse_id_map ?c3)) (sl_engine (ec_symbols ?c3 ! i)) taker ?rem fs"
    "\<And>y. y \<notin> maker_id ` set fs \<or> (\<exists>sm s. y \<in> live ?c3 sm s) \<Longrightarrow> fh_lookup (ec_reverse_id_map c') y = fh_lookup (ec_reverse_id_map ?c3) y"
    by blast
  have "emit_fills i taker rem (f # fs) c = Some c'" using Cons.prems(5) c2(1) bbo c'(1) by (simp add: Let_def)
  moreover have "reported c c'" by (rule reported_trans [OF reported_events [of c] reported_trans [OF c2(3) reported_trans [OF reported_events c'(3)]]])
  moreover have "cinv (P - maker_id ` set (f # fs)) U c'" 
  proof -
    have "P - maker_id ` set (f # fs) = P - {?x} - maker_id ` set fs" by auto
    then show ?thesis using c'(2) by simp
  qed
  moreover have "ec_events c' = ec_events c @ fill_events ?R ?e taker rem (f # fs)"
    using c'(4) c2(4) r(1) rep(1) fill_events_cong [of fs "fh_lookup (ec_reverse_id_map ?c3)" ?R ?e taker ?rem] other by simp
  moreover have "fh_lookup (ec_reverse_id_map c') y = ?R y" if "y \<notin> maker_id ` set (f # fs) \<or> (\<exists>sm s. y \<in> live c sm s)" for y

  proof -
    have "y \<notin> maker_id ` set fs \<or> (\<exists>sm s. y \<in> live ?c3 sm s)" "y \<noteq> ?x \<or> (\<exists>sm s. y \<in> live c sm s)" using that rep(7) by auto
    then show ?thesis using c'(5) keep by metis
  qed
  ultimately show ?case by blast
qed

end
