(* ===== verification/ExchangeCoreOps.thy ===== *)
theory ExchangeCoreOps
  imports ExchangeCoreInv
begin

text \<open>
  The requests of the exchange coordinator: each returns, keeps the invariant, and has the
  events and the effect on the maps and books that are stated branch by branch.
\<close>

section \<open>Shared steps\<close>

text \<open>Room for one more mapping and one more exchange id.\<close>

definition core_room :: "ExchangeCore \<Rightarrow> bool" where
  "core_room c \<longleftrightarrow> \<not> fh_full (ec_id_map c) \<and> \<not> fh_full (ec_reverse_id_map c) \<and> ec_next_exchange_id c \<noteq> - 1"

definition grown :: "ExchangeCore \<Rightarrow> ExchangeCore \<Rightarrow> bool" where
  "grown c c' \<longleftrightarrow> fh_used (ec_id_map c') \<le> Suc (fh_used (ec_id_map c)) \<and> fh_used (ec_reverse_id_map c') \<le> Suc (fh_used (ec_reverse_id_map c)) \<and>
     (ec_next_exchange_id c' = ec_next_exchange_id c \<or> ec_next_exchange_id c' = ec_next_exchange_id c + 1) \<and>
     ec_active_sessions c' = ec_active_sessions c"

lemma reported_full:
  assumes "reported c c'"
  shows "fh_full (ec_id_map c') = fh_full (ec_id_map c)" "fh_full (ec_reverse_id_map c') = fh_full (ec_reverse_id_map c)"
  using assms by (simp_all add: reported_def fh_full_used)

lemma symbol_index_symbols: "ec_symbols c' = ec_symbols c \<Longrightarrow> symbol_index c' = symbol_index c"
  by (simp add: symbol_index_def fun_eq_iff)

lemma live_kCount:
  assumes "store_ok c"
  shows "live c sm kCount = {}"
proof (cases "symbol_index c sm")
  case (Some i)
  obtain M N where "engine_inv M N (sl_engine (ec_symbols c ! i))" by (rule engine_at [OF assms Some])
  then show ?thesis using resting_kCount Some by (simp add: live_def)
qed (simp add: live_def)

lemma live_lt: "cinv P U c \<Longrightarrow> x \<in> live c sm s \<Longrightarrow> x < ec_next_exchange_id c"
  using maps_okD(4) [OF cinvD(2)] by blast

lemma cinv_absent: "cinv P {x} c \<Longrightarrow> (\<And>sm s. x \<notin> live c sm s) \<Longrightarrow> cinv P {} c"
  using maps_ok_absent unfolding cinv_def by blast

lemma next_unmapped: "cinv P U c \<Longrightarrow> fh_lookup (ec_reverse_id_map c) (ec_next_exchange_id c) = None"
  using maps_ok_rev_lt [OF cinvD(2)] by (cases "fh_lookup (ec_reverse_id_map c) (ec_next_exchange_id c)") force+

text \<open>A live order of a book is mapped to its owner.\<close>

lemma live_mapped:
  assumes "core_inv c" "x \<in> live c sm s"
  shows "\<exists>r. fh_lookup (ec_reverse_id_map c) x = Some r \<and> rie_symbol_id r = sm"
  using maps_okD(5) [OF cinvD(2) [OF assms(1)] assms(2)] by simp

lemma cinv_shrink:
  assumes inv: "cinv P {} c" and i: "symbol_index c sm = Some i"
    and e: "engine_inv M N e" "length (me_fills e) = kMaxFillsPerMatch" and r: "\<And>s. resting e s = live c sm s - D"
  shows "cinv (P \<union> D) {} (set_engine i e c)"
proof -
  have L: "live (set_engine i e c) t s = (if t = sm then resting e s else live c t s)" for t s by (rule live_set_engine [OF i])
  have "maps_ok (P \<union> D) {} (live (set_engine i e c)) (fh_lookup (ec_id_map c)) (fh_lookup (ec_reverse_id_map c)) (ec_next_exchange_id c)"
    by (rule maps_ok_shrink [OF cinvD(2) [OF inv] live_side [OF cinvD(1) [OF inv]]]) (use r in \<open>auto simp: L split: if_splits\<close>)
  then show ?thesis using store_ok_set_engine [OF cinvD(1) [OF inv] e] by (simp add: cinv_def)
qed

text \<open>No step but \<open>map_resting\<close> enters a key: the entries are determined by the live orders and their owners.\<close>

lemma id_map_dom:
  assumes c': "cinv {} U c'" and c: "cinv P V c"
    and R: "\<And>y sm s. y \<in> live c' sm s \<Longrightarrow> fh_lookup (ec_reverse_id_map c') y = fh_lookup (ec_reverse_id_map c) y"
  shows "dom (fh_lookup (ec_id_map c')) \<subseteq> dom (fh_lookup (ec_id_map c))"
proof
  fix k assume "k \<in> dom (fh_lookup (ec_id_map c'))"
  then obtain e where "fh_lookup (ec_id_map c') k = Some e" by auto
  then have e: "fwd_ok {} (live c') (fh_lookup (ec_reverse_id_map c')) (ec_next_exchange_id c') k e" by (rule maps_okD(1) [OF cinvD(2) [OF c']])
  then have "fh_lookup (ec_reverse_id_map c') (ie_exchange_id e) = fh_lookup (ec_reverse_id_map c) (ie_exchange_id e)"
    by (intro R [of _ "ie_symbol_id e" "ie_side e"]) (simp add: fwd_ok_def)
  then obtain r where "fh_lookup (ec_reverse_id_map c) (ie_exchange_id e) = Some r" "rie_session_id r = extract_session_id k"
    "rie_client_order_id r = k AND kMaxClientOrderId" using e by (auto simp: fwd_ok_def)
  then show "k \<in> dom (fh_lookup (ec_id_map c))" using maps_okD(3) [OF cinvD(2) [OF c]] by force
qed

lemma map_resting_ok:
  assumes inv: "cinv P {x} c" and fresh: "fh_lookup (ec_id_map c) k = None" "fh_lookup (ec_reverse_id_map c) x = None"
    and e: "ie_exchange_id e = x" "ie_side e \<noteq> kCount" and live: "x \<in> live c (ie_symbol_id e) (ie_side e)" "\<And>sm s. x \<in> live c sm s \<Longrightarrow> sm = ie_symbol_id e"
    and r: "r = \<lparr>rie_session_id = extract_session_id k, rie_client_order_id = k AND kMaxClientOrderId, rie_symbol_id = ie_symbol_id e, rie_send_ts = ts\<rparr>"
    and room: "\<not> fh_full (ec_id_map c)" "\<not> fh_full (ec_reverse_id_map c)" and seen: "k \<in> dom (fh_lookup (ec_seen_orders c))"
  obtains f' r' where "map_resting k e r c = Some (c\<lparr>ec_id_map := f', ec_reverse_id_map := r'\<rparr>)"
    "cinv P {} (c\<lparr>ec_id_map := f', ec_reverse_id_map := r'\<rparr>)" "fh_lookup f' = (fh_lookup (ec_id_map c))(k \<mapsto> e)"
    "fh_lookup r' = (fh_lookup (ec_reverse_id_map c))(x \<mapsto> r)" "grown c (c\<lparr>ec_id_map := f', ec_reverse_id_map := r'\<rparr>)"
proof -
  note st = store_okD [OF cinvD(1) [OF inv]]
  obtain f' where f': "fh_insert (ec_id_map c) k e = Some (True, f')" "fh_inv f'" "fh_lookup f' = (fh_lookup (ec_id_map c))(k \<mapsto> e)"
    "fh_used f' \<le> Suc (fh_used (ec_id_map c))" "fh_capacity f' = fh_capacity (ec_id_map c)"
    by (rule fh_insertE [OF st(3) fresh(1) room(1)])
  obtain r' where r': "fh_insert (ec_reverse_id_map c) x r = Some (True, r')" "fh_inv r'" "fh_lookup r' = (fh_lookup (ec_reverse_id_map c))(x \<mapsto> r)"
    "fh_used r' \<le> Suc (fh_used (ec_reverse_id_map c))" "fh_capacity r' = fh_capacity (ec_reverse_id_map c)"
    by (rule fh_insertE [OF st(4) fresh(2) room(2)])
  have "store_ok (c\<lparr>ec_id_map := f', ec_reverse_id_map := r'\<rparr>)"
    using cinvD(1) [OF inv] f'(2,3,5) r'(2,5) seen unfolding store_ok_def by (simp add: subset_insertI2)
  then have "cinv P {} (c\<lparr>ec_id_map := f', ec_reverse_id_map := r'\<rparr>)"
    using maps_ok_enter [OF cinvD(2) [OF inv] fresh e live r] f'(3) r'(3) by (simp add: cinv_def)
  then show thesis using that [of r' f'] f'(1,3,4) r'(1,3,4) e(1) by (simp add: map_resting_def grown_def)
qed

section \<open>Submitting to the book of one symbol\<close>

text \<open>The engine's part of a submit, seen from the coordinator: its id is the next one.\<close>

lemma core_engine_submit:
  assumes inv: "core_inv c" and i: "symbol_index c sm = Some i" and n: "ec_next_exchange_id c \<noteq> - 1" and side: "side \<noteq> kCount"
    and e: "engine_inv M N e" "length (me_fills e) = kMaxFillsPerMatch" "\<And>s. resting e s = live c sm s - D"
  obtains r e' where "submit_order e (ec_next_exchange_id c) side price qty = Some (r, e')"
    "cinv (D \<union> maker_id ` set (mr_fills r)) {ec_next_exchange_id c} (set_engine i e' (c\<lparr>ec_next_exchange_id := ec_next_exchange_id c + 1\<rparr>))"
    "length (mr_fills r) \<le> kMaxFillsPerMatch" "distinct (map maker_id (mr_fills r))"
    "maker_id ` set (mr_fills r) \<subseteq> live c sm (opp side) - D"
    "\<And>s. ec_next_exchange_id c \<in> resting e' s \<longleftrightarrow> s = side \<and> mr_rested r" "\<And>s. resting e' s \<subseteq> insert (ec_next_exchange_id c) (resting e s)"
proof -
  let ?n = "ec_next_exchange_id c"
  have lt: "?n \<notin> resting e s" for s using live_lt [OF inv, of ?n sm s] e(3) by auto
  obtain r e' where r: "submit_order e ?n side price qty = Some (r, e')" "engine_inv M N e'" "length (me_fills e') = length (me_fills e)"
    "length (mr_fills r) \<le> length (me_fills e)" "distinct (map maker_id (mr_fills r))"
    "maker_id ` set (mr_fills r) \<subseteq> resting e (opp side)"
    "resting e' (opp side) \<subseteq> resting e (opp side)" "resting e (opp side) - maker_id ` set (mr_fills r) \<subseteq> resting e' (opp side)"
    "resting e' side = (if mr_rested r then insert ?n (resting e side) else resting e side)"
    by (rule engine_submit [OF e(1) side, where oid = ?n and price = price and qty = qty]) auto
  have cases: "s = side \<or> s = opp side \<or> s = kCount" for s using side by (cases s; cases side) (auto simp: opp_def)
  have k: "resting e' kCount = {}" "resting e kCount = {}" using resting_kCount r(2) e(1) by auto
  have grow: "resting e' s \<subseteq> insert ?n (resting e s)" for s using cases [of s] r(7,9) k by (auto split: if_splits)
  have keep: "live c sm s - (D \<union> maker_id ` set (mr_fills r)) \<subseteq> resting e' s" for s
    using cases [of s] r(8,9) k e(3) [of s] by (auto split: if_splits)
  have inv': "cinv (D \<union> maker_id ` set (mr_fills r)) {?n} (set_engine i e' (c\<lparr>ec_next_exchange_id := ?n + 1\<rparr>))"
    by (rule cinv_engine [OF inv i n r(2)]) (use r(3) e(2) grow e(3) keep in auto)
  have "?n \<in> resting e' s \<longleftrightarrow> s = side \<and> mr_rested r" for s
    using cases [of s] r(7,9) k(1) lt side by (auto simp: opp_def split: if_splits)
  then show thesis using that [OF r(1) inv' _ r(5)] r(4,6) e(2,3) grow by simp
qed

section \<open>Submit\<close>

definition submit_reply :: "u16 \<Rightarrow> NewOrder \<Rightarrow> ExchangeEvent" where
  "submit_reply s ord = no_event\<lparr>ev_session_id := s, ev_client_order_id := no_client_order_id ord, ev_send_ts := no_send_ts ord\<rparr>"

definition submit_reject :: "u16 \<Rightarrow> NewOrder \<Rightarrow> RejectReason \<Rightarrow> ExchangeEvent" where
  "submit_reject s ord reason = (submit_reply s ord)\<lparr>ev_type := EvOrderRejected, ev_symbol_id := no_symbol_id ord, ev_reason := reason\<rparr>"

text \<open>The events of an order that entered the book or traded.\<close>

definition accept_events :: "u16 \<Rightarrow> NewOrder \<Rightarrow> u64 \<Rightarrow> (u64 \<Rightarrow> ReverseIdEntry option) \<Rightarrow> MatchingEngine \<Rightarrow> Fill list \<Rightarrow> ExchangeEvent list" where
  "accept_events s ord x R e fs = (let reply = (submit_reply s ord)\<lparr>ev_exchange_order_id := x, ev_symbol_id := no_symbol_id ord\<rparr> in
     reply\<lparr>ev_type := EvOrderAccepted\<rparr> # fill_events R e (reply\<lparr>ev_type := EvFill, ev_side := side_of (no_side ord)\<rparr>) (no_qty ord) fs)"

definition submit_entry :: "NewOrder \<Rightarrow> u64 \<Rightarrow> IdEntry" where
  "submit_entry ord x = \<lparr>ie_exchange_id = x, ie_side = side_of (no_side ord), ie_symbol_id = no_symbol_id ord\<rparr>"

lemmas submit_defs = core_submit_order_def submit_reply_def [symmetric] submit_reject_def [symmetric] Let_def

text \<open>Refusals that leave the coordinator as it was.\<close>

definition submit_refusal :: "u16 \<Rightarrow> NewOrder \<Rightarrow> ExchangeCore \<Rightarrow> ExchangeEvent option" where
  "submit_refusal s ord c =
    (if no_client_order_id ord > kMaxClientOrderId then Some ((submit_reply s ord)\<lparr>ev_type := EvOrderRejected, ev_reason := kInvalidOrderId\<rparr>)
     else if symbol_index c (no_symbol_id ord) = None then Some (submit_reject s ord kUnknownSymbol)
     else if fh_lookup (ec_seen_orders c) (ckey s (no_client_order_id ord)) \<noteq> None then Some (submit_reject s ord kDuplicateOrderId)
     else None)"

lemma core_submit_refused:
  assumes "core_inv c" "submit_refusal s ord c = Some ev" "length (ec_events c) < kMaxEvents"
  shows "core_submit_order s ord c = Some (c\<lparr>ec_events := ec_events c @ [ev]\<rparr>)"
  using assms(2,3) fhmap.find [OF store_okD(2) [OF cinvD(1) [OF assms(1)]]]
  by (auto simp: submit_refusal_def submit_defs split: if_splits option.splits)

lemma submit_refusal_None:
  assumes "submit_refusal s ord c = None"
  obtains i where "no_client_order_id ord \<le> kMaxClientOrderId" "symbol_index c (no_symbol_id ord) = Some i"
    "fh_lookup (ec_seen_orders c) (ckey s (no_client_order_id ord)) = None"
  using assms by (auto simp: submit_refusal_def split: if_splits)

lemma core_submit_full:
  assumes "core_inv c" "submit_refusal s ord c = None" "length (ec_events c) < kMaxEvents"
    "fh_insert (ec_seen_orders c) (ckey s (no_client_order_id ord)) True = Some (False, m)"
  shows "core_submit_order s ord c = Some (c\<lparr>ec_events := ec_events c @ [submit_reject s ord kBookFull]\<rparr>)"
proof -
  obtain i where i: "no_client_order_id ord \<le> kMaxClientOrderId" "symbol_index c (no_symbol_id ord) = Some i"
    "fh_lookup (ec_seen_orders c) (ckey s (no_client_order_id ord)) = None" by (rule submit_refusal_None [OF assms(2)])
  have "m = ec_seen_orders c"
    using fhmap.insert [OF store_okD(2) [OF cinvD(1) [OF assms(1)]], of "ckey s (no_client_order_id ord)" True] assms(4) by auto
  then show ?thesis
    using i assms(3,4) fhmap.find [OF store_okD(2) [OF cinvD(1) [OF assms(1)]]] by (simp add: submit_defs)
qed

lemma seen_inserted:
  assumes inv: "core_inv c" and m: "fh_insert (ec_seen_orders c) k True = Some (True, m)"
  shows "core_inv (c\<lparr>ec_seen_orders := m\<rparr>)" "fh_lookup (ec_seen_orders c) k = None" "fh_lookup m = (fh_lookup (ec_seen_orders c))(k \<mapsto> True)"
proof -
  have l: "fh_inv m" "fh_lookup (ec_seen_orders c) k = None" "fh_lookup m = (fh_lookup (ec_seen_orders c))(k \<mapsto> True)"
    using fhmap.insert [OF store_okD(2) [OF cinvD(1) [OF inv]], of k True] m by auto
  show "fh_lookup (ec_seen_orders c) k = None" "fh_lookup m = (fh_lookup (ec_seen_orders c))(k \<mapsto> True)" by (rule l)+
  show "core_inv (c\<lparr>ec_seen_orders := m\<rparr>)"
    using cinvD [OF inv] l fh_insert_used(2) [OF m] by (auto simp: cinv_def store_ok_def)
qed

lemma core_submit_unfold:
  assumes "no_client_order_id ord \<le> kMaxClientOrderId" "symbol_index c (no_symbol_id ord) = Some i" "i < length (ec_symbols c)"
    "fh_find (ec_seen_orders c) (ckey s (no_client_order_id ord)) = Some None"
    "fh_insert (ec_seen_orders c) (ckey s (no_client_order_id ord)) True = Some (True, m)"
    "submit_order (sl_engine (ec_symbols c ! i)) (ec_next_exchange_id c) (side_of (no_side ord)) (no_price ord) (no_qty ord) = Some (r, e')"
  shows "core_submit_order s ord c =
    (let c2 = set_engine i e' (c\<lparr>ec_seen_orders := m, ec_next_exchange_id := ec_next_exchange_id c + 1\<rparr>);
         reply = (submit_reply s ord)\<lparr>ev_exchange_order_id := ec_next_exchange_id c, ev_symbol_id := no_symbol_id ord\<rparr>
     in if \<not> (mr_rested r \<or> mr_fills r \<noteq> []) then emit (submit_reject s ord kBookFull) c2
        else do {
          d \<leftarrow> emit (reply\<lparr>ev_type := EvOrderAccepted\<rparr>) c2;
          d \<leftarrow> emit_fills i (reply\<lparr>ev_type := EvFill, ev_side := side_of (no_side ord)\<rparr>) (no_qty ord) (mr_fills r) d;
          if mr_rested r
          then map_resting (ckey s (no_client_order_id ord)) (submit_entry ord (ec_next_exchange_id c))
            \<lparr>rie_session_id = s, rie_client_order_id = no_client_order_id ord, rie_symbol_id = no_symbol_id ord, rie_send_ts = no_send_ts ord\<rparr> d
          else Some d
        })"
  using assms leD [OF assms(1)] unfolding submit_entry_def
  by (simp add: core_submit_order_def submit_reply_def submit_reject_def has_fills_def arr_get_def Let_def del: emit_ok)

lemma core_submit_run:
  assumes inv: "core_inv c" and room: "core_room c" and side: "side_of (no_side ord) \<noteq> kCount"
    and len: "length (ec_events c) + 257 \<le> kMaxEvents" and none: "submit_refusal s ord c = None" and i: "symbol_index c (no_symbol_id ord) = Some i"
    and m: "fh_insert (ec_seen_orders c) (ckey s (no_client_order_id ord)) True = Some (True, m)"
  obtains r e' c' where
    "submit_order (sl_engine (ec_symbols c ! i)) (ec_next_exchange_id c) (side_of (no_side ord)) (no_price ord) (no_qty ord) = Some (r, e')"
    "core_submit_order s ord c = Some c'" "core_inv c'" "grown c c'"
    "ec_events c' = ec_events c @ (if mr_rested r \<or> mr_fills r \<noteq> []
       then accept_events s ord (ec_next_exchange_id c) (fh_lookup (ec_reverse_id_map c)) e' (mr_fills r) else [submit_reject s ord kBookFull])"
    "ec_symbols c' = ec_symbols (set_engine i e' c)" "ec_seen_orders c' = m" "ec_active_sessions c' = ec_active_sessions c"
    "\<And>f. f \<in> set (mr_fills r) \<Longrightarrow> \<exists>w. fh_lookup (ec_reverse_id_map c) (maker_id f) = Some w \<and> rie_symbol_id w = no_symbol_id ord"
    "mr_rested r \<Longrightarrow> fh_lookup (ec_id_map c') (ckey s (no_client_order_id ord)) = Some (submit_entry ord (ec_next_exchange_id c))"
    "length (mr_fills r) \<le> kMaxFillsPerMatch"
proof -
  let ?k = "ckey s (no_client_order_id ord)" and ?c1 = "c\<lparr>ec_seen_orders := m\<rparr>" and ?n = "ec_next_exchange_id c"
  let ?side = "side_of (no_side ord)" and ?sm = "no_symbol_id ord" and ?e = "sl_engine (ec_symbols c ! i)"
  let ?R = "fh_lookup (ec_reverse_id_map c)"
  note m' = seen_inserted [OF inv m]
  have coid: "no_client_order_id ord \<le> kMaxClientOrderId" by (rule submit_refusal_None [OF none])
  have i1: "symbol_index ?c1 ?sm = Some i" using i by simp
  obtain M N where e: "engine_inv M N ?e" "length (me_fills ?e) = kMaxFillsPerMatch" by (rule engine_at [OF cinvD(1) [OF inv] i])
  obtain r e' where r: "submit_order ?e ?n ?side (no_price ord) (no_qty ord) = Some (r, e')"
    "cinv (maker_id ` set (mr_fills r)) {?n} (set_engine i e' (?c1\<lparr>ec_next_exchange_id := ?n + 1\<rparr>))"
    "length (mr_fills r) \<le> kMaxFillsPerMatch" "distinct (map maker_id (mr_fills r))"
    "maker_id ` set (mr_fills r) \<subseteq> live c ?sm (opp ?side)" "\<And>s. ?n \<in> resting e' s \<longleftrightarrow> s = ?side \<and> mr_rested r"
    by (rule core_engine_submit [OF m'(1) i1 _ side e, where D = "{}" and price = "no_price ord" and qty = "no_qty ord"])
       (use room in \<open>auto simp: core_room_def live_at [OF i]\<close>)
  let ?c2 = "set_engine i e' (?c1\<lparr>ec_next_exchange_id := ?n + 1\<rparr>)"
  have L2: "live ?c2 t u = (if t = ?sm then resting e' u else live c t u)" for t u
    using live_set_engine [of "?c1\<lparr>ec_next_exchange_id := ?n + 1\<rparr>" ?sm i e' t u] i by simp
  have n2: "?n \<in> live ?c2 t u \<longleftrightarrow> t = ?sm \<and> u = ?side \<and> mr_rested r" for t u
    using live_lt [OF inv, of ?n t u] r(6) [of u] by (auto simp: L2)
  have mk: "maker_id f \<noteq> ?n \<and> (\<exists>w. ?R (maker_id f) = Some w \<and> rie_symbol_id w = ?sm)" if "f \<in> set (mr_fills r)" for f
  proof -
    have f: "maker_id f \<in> live c ?sm (opp ?side)" using r(5) that by auto
    show ?thesis using live_lt [OF inv f] live_mapped [OF inv f] by auto
  qed
  have sym2: "ec_symbols ?c2 = ec_symbols (set_engine i e' c)" by (simp add: set_engine_def)
  have find: "fh_find (ec_seen_orders c) ?k = Some None" using fhmap.find [OF store_okD(2) [OF cinvD(1) [OF inv]]] m'(2) by simp
  note step = core_submit_unfold [OF coid i symbol_indexD(1) [OF i] find m r(1)] Let_def
  show thesis
  proof (cases "mr_rested r \<or> mr_fills r \<noteq> []")
    case False
    have "cinv {} {} ?c2" by (rule cinv_absent) (use r(2) n2 False in auto)
    then show thesis
      using that [of r e' "?c2\<lparr>ec_events := ec_events c @ [submit_reject s ord kBookFull]\<rparr>"] False len sym2 r(1) by (simp add: step grown_def)
  next
    case True
    define reply where "reply = (submit_reply s ord)\<lparr>ev_exchange_order_id := ?n, ev_symbol_id := ?sm\<rparr>"
    define taker where "taker = reply\<lparr>ev_type := EvFill, ev_side := ?side\<rparr>"
    define c3 where "c3 = ?c2\<lparr>ec_events := ec_events c @ [reply\<lparr>ev_type := EvOrderAccepted\<rparr>]\<rparr>"
    have tk: "ev_symbol_id taker = ?sm" by (simp add: taker_def reply_def)
    have s3: "symbol_index c3 (ev_symbol_id taker) = Some i" using i tk by (simp add: c3_def)
    have e3: "sl_engine (ec_symbols c3 ! i) = e'" using engine_set_engine symbol_indexD(1) [OF i] by (simp add: c3_def)
    obtain c4 where c4: "emit_fills i taker (no_qty ord) (mr_fills r) c3 = Some c4"
      "cinv (maker_id ` set (mr_fills r) - maker_id ` set (mr_fills r)) {?n} c4" "reported c3 c4"
      "ec_events c4 = ec_events c3 @ fill_events ?R e' taker (no_qty ord) (mr_fills r)"
      "\<forall>y. y \<notin> maker_id ` set (mr_fills r) \<or> (\<exists>sm s. y \<in> live c3 sm s) \<longrightarrow> fh_lookup (ec_reverse_id_map c4) y = ?R y"
      using emit_fills_ex [of "maker_id ` set (mr_fills r)" "{?n}" c3 taker i "mr_fills r" "no_qty ord"] r(2-4) mk len s3 e3 tk
      by (auto simp: c3_def kMaxFillsPerMatch_def)
    have evs: "ec_events c4 = ec_events c @ accept_events s ord ?n ?R e' (mr_fills r)"
      using c4(4) by (simp add: c3_def accept_events_def Let_def taker_def reply_def)
    note rep = reported_sel [OF c4(3)]
    have used: "grown c c4" using c4(3) rep(2,4) by (simp add: grown_def reported_def c3_def)
    have sym4: "ec_symbols c4 = ec_symbols (set_engine i e' c)" using rep(1) sym2 by (simp add: c3_def)
    show thesis
    proof (cases "mr_rested r")
      case False
      have "cinv {} {} c4" by (rule cinv_absent) (use c4(2) n2 False rep(7) in \<open>auto simp: c3_def\<close>)
      then show thesis
        using that [of r e' c4] False True len r(1,3) c4(1) evs used sym4 rep(3,4) mk
        by (simp add: step c3_def reply_def taker_def)
    next
      case rested: True
      let ?en = "submit_entry ord ?n"
      let ?re = "\<lparr>rie_session_id = s, rie_client_order_id = no_client_order_id ord, rie_symbol_id = ?sm, rie_send_ts = no_send_ts ord\<rparr>"
      have L4: "live c4 = live ?c2" using rep(7) by (simp add: c3_def)
      have full: "\<not> fh_full (ec_id_map c4)" "\<not> fh_full (ec_reverse_id_map c4)"
        using room reported_full [OF c4(3)] by (auto simp: core_room_def c3_def)
      have "fh_lookup (ec_id_map c) ?k = None" using store_okD(5) [OF cinvD(1) [OF inv]] m'(2) by auto
      then have k4: "fh_lookup (ec_id_map c4) ?k = None"
        using id_map_dom [of "{?n}" c4 "{}" "{}" c] c4(2,5) inv rep(7) by auto
      have n4: "fh_lookup (ec_reverse_id_map c4) ?n = None"
        using c4(5) next_unmapped [OF inv] n2 rested by (auto simp: c3_def)
      obtain f' r' where mr: "map_resting ?k ?en ?re c4 = Some (c4\<lparr>ec_id_map := f', ec_reverse_id_map := r'\<rparr>)"
        "cinv {} {} (c4\<lparr>ec_id_map := f', ec_reverse_id_map := r'\<rparr>)" "fh_lookup f' = (fh_lookup (ec_id_map c4))(?k \<mapsto> ?en)"
        "grown c4 (c4\<lparr>ec_id_map := f', ec_reverse_id_map := r'\<rparr>)"
        by (rule map_resting_ok [where P = "{}" and x = ?n and c = c4 and k = ?k and e = ?en and r = ?re and ts = "no_send_ts ord"])
           (use c4(2) k4 n4 side n2 rested full coid rep(3) m'(3) in \<open>auto simp: submit_entry_def L4 le_kMax c3_def\<close>)
      have "grown c (c4\<lparr>ec_id_map := f', ec_reverse_id_map := r'\<rparr>)"
        using mr(4) c4(3) rep(2,4) by (simp add: grown_def reported_def c3_def)
      then show thesis
        using that [of r e' "c4\<lparr>ec_id_map := f', ec_reverse_id_map := r'\<rparr>"] rested len r(1,3) c4(1) evs sym4 rep(3,4) mk mr(1-3)
        by (simp add: step c3_def reply_def taker_def submit_entry_def)
    qed
  qed
qed

lemma length_accept_events: "length fs \<le> kMaxFillsPerMatch \<Longrightarrow> length (accept_events s ord x R e fs) \<le> 257"
  by (rule order_trans [of _ "Suc (4 * length fs)"]) (simp_all add: accept_events_def Let_def length_fill_events kMaxFillsPerMatch_def)

lemma core_submit_total:
  assumes inv: "core_inv c" and room: "core_room c" and side: "side_of (no_side ord) \<noteq> kCount" and len: "length (ec_events c) + 257 \<le> kMaxEvents"
  shows "\<exists>c'. core_submit_order s ord c = Some c' \<and> core_inv c' \<and> grown c c' \<and> length (ec_events c') \<le> length (ec_events c) + 257"
proof (cases "submit_refusal s ord c")
  case (Some ev)
  then show ?thesis using core_submit_refused [OF inv Some] len inv by (simp add: grown_def)
next
  case None
  obtain i where i: "symbol_index c (no_symbol_id ord) = Some i" by (rule submit_refusal_None [OF None])
  obtain b m where m: "fh_insert (ec_seen_orders c) (ckey s (no_client_order_id ord)) True = Some (b, m)"
    using fhmap.insert [OF store_okD(2) [OF cinvD(1) [OF inv]]] by blast
  show ?thesis
  proof (cases b)
    case True
    then have m: "fh_insert (ec_seen_orders c) (ckey s (no_client_order_id ord)) True = Some (True, m)" using m by simp
    show ?thesis
      by (rule core_submit_run [OF inv room side len None i m]) (auto intro!: length_accept_events)
  next
    case False
    then show ?thesis using core_submit_full [OF inv None _ , of m] m len inv by (simp add: grown_def)
  qed
qed

section \<open>Cancel\<close>

text \<open>Which order a cancel or a modify of a session concerns, or why it is refused.\<close>

definition request_target :: "u16 \<Rightarrow> u64 \<Rightarrow> u32 \<Rightarrow> ExchangeCore \<Rightarrow> RejectReason + IdEntry" where
  "request_target s coid sm c =
    (if coid > kMaxClientOrderId then Inl kInvalidOrderId
     else if symbol_index c sm = None then Inl kUnknownSymbol
     else case fh_lookup (ec_id_map c) (ckey s coid) of
       None \<Rightarrow> Inl kOrderNotFound
     | Some e \<Rightarrow> if ie_symbol_id e = sm then Inr e else Inl kOrderNotFound)"

definition cancel_reply :: "u16 \<Rightarrow> CancelOrder \<Rightarrow> ExchangeEvent" where
  "cancel_reply s x = no_event\<lparr>ev_session_id := s, ev_client_order_id := co_client_order_id x, ev_send_ts := co_send_ts x\<rparr>"

lemma target_live:
  assumes inv: "core_inv c" and e: "fh_lookup (ec_id_map c) k = Some e"
  shows "ie_exchange_id e \<in> live c (ie_symbol_id e) (ie_side e)" "ie_side e \<noteq> kCount" "ie_exchange_id e \<in> live c t u \<Longrightarrow> t = ie_symbol_id e \<and> u = ie_side e"
proof -
  show l: "ie_exchange_id e \<in> live c (ie_symbol_id e) (ie_side e)" and "ie_side e \<noteq> kCount"
    using maps_okD(1) [OF cinvD(2) [OF inv] e] by (auto simp: fwd_ok_def)
  assume u: "ie_exchange_id e \<in> live c t u"
  have "ie_symbol_id e = t" by (rule maps_ok_symbol [OF cinvD(2) [OF inv] e u])
  then show "t = ie_symbol_id e \<and> u = ie_side e" using live_side [OF cinvD(1) [OF inv] l, of u] u by simp
qed

lemma core_cancel_ok:
  assumes inv: "core_inv c" and len: "length (ec_events c) < kMaxEvents"
  shows "\<exists>c'. core_cancel_order s x c = Some c' \<and> core_inv c' \<and> ec_active_sessions c' = ec_active_sessions c \<and>
    ec_next_exchange_id c' = ec_next_exchange_id c \<and> fh_used (ec_id_map c') = fh_used (ec_id_map c) \<and>
    fh_used (ec_reverse_id_map c') = fh_used (ec_reverse_id_map c) \<and>
    (case request_target s (co_client_order_id x) (co_symbol_id x) c of
       Inl reason \<Rightarrow> ec_events c' = ec_events c @ [(cancel_reply s x)\<lparr>ev_type := EvCancelRejected, ev_reason := reason\<rparr>] \<and>
         live c' = live c \<and> fh_lookup (ec_id_map c') = fh_lookup (ec_id_map c) \<and> fh_lookup (ec_reverse_id_map c') = fh_lookup (ec_reverse_id_map c)
     | Inr e \<Rightarrow> ec_events c' = ec_events c @ [(cancel_reply s x)\<lparr>ev_type := EvCancelAck\<rparr>] \<and>
         live c' = (\<lambda>t u. live c t u - {ie_exchange_id e}) \<and>
         fh_lookup (ec_id_map c') = (fh_lookup (ec_id_map c))(ckey s (co_client_order_id x) := None) \<and>
         fh_lookup (ec_reverse_id_map c') = (fh_lookup (ec_reverse_id_map c))(ie_exchange_id e := None))"
proof -
  let ?coid = "co_client_order_id x" and ?sm = "co_symbol_id x" and ?k = "ckey s (co_client_order_id x)"
  note find = fhmap.find [OF store_okD(3) [OF cinvD(1) [OF inv]]]
  consider "?coid > kMaxClientOrderId" | "?coid \<le> kMaxClientOrderId" "symbol_index c ?sm = None"
    | i where "?coid \<le> kMaxClientOrderId" "symbol_index c ?sm = Some i" "fh_lookup (ec_id_map c) ?k = None"
    | i e where "?coid \<le> kMaxClientOrderId" "symbol_index c ?sm = Some i" "fh_lookup (ec_id_map c) ?k = Some e"
    using not_less by (metis not_None_eq)
  then show ?thesis
  proof cases
    case 1
    then show ?thesis using len inv by (simp add: core_cancel_order_def request_target_def cancel_reply_def Let_def grown_def)
  next
    case 2
    then show ?thesis using len inv leD [OF 2(1)] by (simp add: core_cancel_order_def request_target_def cancel_reply_def Let_def grown_def)
  next
    case 3
    then show ?thesis using len inv leD [OF 3(1)] find by (simp add: core_cancel_order_def request_target_def cancel_reply_def Let_def grown_def)
  next
    case (4 i e)
    let ?x = "ie_exchange_id e" and ?e = "sl_engine (ec_symbols c ! i)"
    obtain M N where en: "engine_inv M N ?e" "length (me_fills ?e) = kMaxFillsPerMatch" by (rule engine_at [OF cinvD(1) [OF inv] 4(2)])
    obtain e' where e': "engine_cancel_order ?e ?x = Some (?x \<in> resting ?e kBid \<union> resting ?e kAsk, e')" "engine_inv M N e'"
      "me_fills e' = me_fills ?e" "\<And>s. resting e' s = resting ?e s - {?x}" by (rule engine_cancel [OF en(1), where x = ?x]) blast
    let ?c2 = "set_engine i e' c"
    note tl = target_live [OF inv 4(3)]
    have here: "?x \<in> resting ?e kBid \<union> resting ?e kAsk \<longleftrightarrow> ie_symbol_id e = ?sm"
      using tl(1,2) tl(3) [of ?sm] by (cases "ie_side e") (auto simp: live_at [OF 4(2)])
    have L2: "live ?c2 = (\<lambda>t u. live c t u - {?x})" if "ie_symbol_id e = ?sm"
      using that tl(3) e'(4) by (intro ext) (auto simp: live_set_engine [OF 4(2)] live_at [OF 4(2)])
    have L2': "live ?c2 = live c" if "ie_symbol_id e \<noteq> ?sm"
    proof (intro ext)
      fix t u
      show "live ?c2 t u = live c t u"
        using that tl(3) [of ?sm u] e'(4) [of u] live_at [OF 4(2), of u] by (auto simp: live_set_engine [OF 4(2)])
    qed
    have "cinv ({} \<union> {?x}) {} ?c2"
      by (rule cinv_shrink [OF inv 4(2) e'(2)]) (use e'(3,4) en(2) in \<open>auto simp: live_at [OF 4(2)]\<close>)
    then have inv2: "cinv {?x} {} ?c2" by simp
    note step = core_cancel_order_def Let_def leD [OF 4(1)] 4 find arr_get_def symbol_indexD(1) [OF 4(2)] e'(1) request_target_def
    show ?thesis
    proof (cases "ie_symbol_id e = ?sm")
      case True
      obtain f r where er: "fh_erase (ec_id_map ?c2) ?k = Some (True, f)" "fh_erase (ec_reverse_id_map ?c2) ?x = Some (True, r)"
        "cinv ({?x} - {?x}) {} (?c2\<lparr>ec_id_map := f, ec_reverse_id_map := r\<rparr>)" "reported ?c2 (?c2\<lparr>ec_id_map := f, ec_reverse_id_map := r\<rparr>)"
        "fh_lookup f = (fh_lookup (ec_id_map ?c2))(?k := None)" "fh_lookup r = (fh_lookup (ec_reverse_id_map ?c2))(?x := None)"
        by (rule erase_both [OF inv2, of ?k e ?x]) (use 4(3) L2 [OF True] in auto)
      have st: "(?x \<in> resting ?e kBid \<union> resting ?e kAsk) = True" using here True by blast
      show ?thesis
        using er len L2 [OF True] True
        by (simp add: step st [simplified] cancel_reply_def reported_def grown_def)
    next
      case False
      have st: "(?x \<in> resting ?e kBid \<union> resting ?e kAsk) = False" using here False by blast
      have "cinv {} {} ?c2"
        using inv2 L2' [OF False] cinvD(2) [OF inv] by (simp add: cinv_def)
      then show ?thesis
        using len L2' [OF False] False by (simp add: step st [simplified] cancel_reply_def grown_def)
    qed
  qed
qed

section \<open>Modify\<close>

definition modify_reply :: "u16 \<Rightarrow> ModifyOrder \<Rightarrow> ExchangeEvent" where
  "modify_reply s x = no_event\<lparr>ev_session_id := s, ev_client_order_id := mo_client_order_id x, ev_send_ts := mo_send_ts x\<rparr>"

definition modify_events :: "u16 \<Rightarrow> ModifyOrder \<Rightarrow> u64 \<Rightarrow> Side \<Rightarrow> (u64 \<Rightarrow> ReverseIdEntry option) \<Rightarrow> MatchingEngine \<Rightarrow> Fill list \<Rightarrow> ExchangeEvent list" where
  "modify_events s x n side R e fs = (let reply = (modify_reply s x)\<lparr>ev_exchange_order_id := n, ev_symbol_id := mo_symbol_id x\<rparr> in
     reply\<lparr>ev_type := EvModifyAck\<rparr> # fill_events R e (reply\<lparr>ev_type := EvFill, ev_side := side\<rparr>) (mo_new_qty x) fs)"

lemma core_modify_unfold:
  assumes "mo_client_order_id x \<le> kMaxClientOrderId" "symbol_index c (mo_symbol_id x) = Some i" "i < length (ec_symbols c)"
    "fh_find (ec_id_map c) (ckey s (mo_client_order_id x)) = Some (Some e)"
    "engine_modify_order (sl_engine (ec_symbols c ! i)) (ie_exchange_id e) (ie_side e) (mo_new_price x) (mo_new_qty x) (ec_next_exchange_id c) = Some (r, e')"
  shows "core_modify_order s x c =
    (let c2 = set_engine i e' (c\<lparr>ec_next_exchange_id := ec_next_exchange_id c + 1\<rparr>);
         reply = (modify_reply s x)\<lparr>ev_exchange_order_id := ec_next_exchange_id c, ev_symbol_id := mo_symbol_id x\<rparr>;
         key = ckey s (mo_client_order_id x)
     in if \<not> mod_success r then emit ((modify_reply s x)\<lparr>ev_type := EvModifyRejected, ev_reason := kOrderNotFound\<rparr>) c2
        else do {
          (mod_rev, reverse_id_map) \<leftarrow> fh_erase (ec_reverse_id_map c) (ie_exchange_id e);
          cassert mod_rev;
          (mod_fwd, id_map) \<leftarrow> fh_erase (ec_id_map c) key;
          cassert mod_fwd;
          d \<leftarrow> (if mod_rested r
                then map_resting key \<lparr>ie_exchange_id = ec_next_exchange_id c, ie_side = ie_side e, ie_symbol_id = ie_symbol_id e\<rparr>
                       \<lparr>rie_session_id = s, rie_client_order_id = mo_client_order_id x, rie_symbol_id = ie_symbol_id e,
                        rie_send_ts = mo_send_ts x\<rparr> (c2\<lparr>ec_id_map := id_map, ec_reverse_id_map := reverse_id_map\<rparr>)
                else Some (c2\<lparr>ec_id_map := id_map, ec_reverse_id_map := reverse_id_map\<rparr>));
          d \<leftarrow> emit (reply\<lparr>ev_type := EvModifyAck\<rparr>) d;
          emit_fills i (reply\<lparr>ev_type := EvFill, ev_side := ie_side e\<rparr>) (mo_new_qty x) (mod_fills r) d
        })"
  using assms leD [OF assms(1)] by (simp add: core_modify_order_def modify_reply_def arr_get_def Let_def del: emit_ok)

text \<open>The engine's part of a modify: the old order leaves, and the new one is submitted under the next id.\<close>

lemma core_engine_modify:
  assumes inv: "core_inv c" and i: "symbol_index c (ie_symbol_id e) = Some i" and n: "ec_next_exchange_id c \<noteq> - 1" and k: "fh_lookup (ec_id_map c) k = Some e"
  obtains e1 r e' where "engine_cancel_order (sl_engine (ec_symbols c ! i)) (ie_exchange_id e) = Some (True, e1)"
    "submit_order e1 (ec_next_exchange_id c) (ie_side e) price qty = Some (r, e')"
    "cinv ({ie_exchange_id e} \<union> maker_id ` set (mr_fills r)) {ec_next_exchange_id c} (set_engine i e' (c\<lparr>ec_next_exchange_id := ec_next_exchange_id c + 1\<rparr>))"
    "length (mr_fills r) \<le> kMaxFillsPerMatch" "distinct (map maker_id (mr_fills r))"
    "maker_id ` set (mr_fills r) \<subseteq> live c (ie_symbol_id e) (opp (ie_side e)) - {ie_exchange_id e}"
    "\<And>s. ec_next_exchange_id c \<in> resting e' s \<longleftrightarrow> s = ie_side e \<and> mr_rested r" "\<And>s. ie_exchange_id e \<notin> resting e' s"
proof -
  let ?x = "ie_exchange_id e" and ?e = "sl_engine (ec_symbols c ! i)" and ?n = "ec_next_exchange_id c"
  note tl = target_live [OF inv k]
  obtain M N where en: "engine_inv M N ?e" "length (me_fills ?e) = kMaxFillsPerMatch" by (rule engine_at [OF cinvD(1) [OF inv] i])
  obtain e1 where e1: "engine_cancel_order ?e ?x = Some (?x \<in> resting ?e kBid \<union> resting ?e kAsk, e1)" "engine_inv M N e1"
    "me_fills e1 = me_fills ?e" "\<And>s. resting e1 s = resting ?e s - {?x}" by (rule engine_cancel [OF en(1), where x = ?x]) blast
  have here: "?x \<in> resting ?e kBid \<union> resting ?e kAsk" using tl(1,2) by (cases "ie_side e") (auto simp: live_at [OF i])
  obtain r e' where r: "submit_order e1 ?n (ie_side e) price qty = Some (r, e')"
    "cinv ({?x} \<union> maker_id ` set (mr_fills r)) {?n} (set_engine i e' (c\<lparr>ec_next_exchange_id := ?n + 1\<rparr>))"
    "length (mr_fills r) \<le> kMaxFillsPerMatch" "distinct (map maker_id (mr_fills r))"
    "maker_id ` set (mr_fills r) \<subseteq> live c (ie_symbol_id e) (opp (ie_side e)) - {?x}"
    "\<And>s. ?n \<in> resting e' s \<longleftrightarrow> s = ie_side e \<and> mr_rested r" "\<And>s. resting e' s \<subseteq> insert ?n (resting e1 s)"
    by (rule core_engine_submit [OF inv i n tl(2) e1(2), where D = "{?x}" and price = price and qty = qty])
       (use e1(3,4) en(2) in \<open>auto simp: live_at [OF i]\<close>)
  have "?x \<notin> resting e' s" for s using r(7) [of s] e1(4) [of s] live_lt [OF inv tl(1)] by auto
  then show thesis using that [of e1 r e'] e1(1) here r(1-6) by simp
qed

text \<open>The maps after the old mapping is replaced by the new one, or dropped when nothing rests.\<close>

lemma modify_maps:
  assumes inv: "cinv (insert x D) {n} c" "x \<notin> D" "x \<noteq> n" and k: "fh_lookup (ec_id_map c) k = Some e" "ie_exchange_id e = x"
    and gone: "\<And>t u. x \<notin> live c t u" and n: "\<And>t u. n \<in> live c t u \<longleftrightarrow> t = ie_symbol_id e \<and> u = ie_side e \<and> rested"
      "fh_lookup (ec_reverse_id_map c) n = None"
    and side: "ie_side e \<noteq> kCount" and room: "\<not> fh_full (ec_id_map c)" "\<not> fh_full (ec_reverse_id_map c)"
  obtains f r d where "fh_erase (ec_id_map c) k = Some (True, f)" "fh_erase (ec_reverse_id_map c) x = Some (True, r)"
    "(if rested then map_resting k \<lparr>ie_exchange_id = n, ie_side = ie_side e, ie_symbol_id = ie_symbol_id e\<rparr>
        \<lparr>rie_session_id = extract_session_id k, rie_client_order_id = k AND kMaxClientOrderId, rie_symbol_id = ie_symbol_id e, rie_send_ts = ts\<rparr>
        (c\<lparr>ec_id_map := f, ec_reverse_id_map := r\<rparr>)
      else Some (c\<lparr>ec_id_map := f, ec_reverse_id_map := r\<rparr>)) = Some d" "cinv D {} d"
    "grown c d" "ec_next_exchange_id d = ec_next_exchange_id c" "ec_symbols d = ec_symbols c" "ec_events d = ec_events c"
    "ec_seen_orders d = ec_seen_orders c" "ec_active_sessions d = ec_active_sessions c"
    "fh_lookup (ec_reverse_id_map d) = (fh_lookup (ec_reverse_id_map c))(x := None, n := (if rested then Some \<lparr>rie_session_id = extract_session_id k,
        rie_client_order_id = k AND kMaxClientOrderId, rie_symbol_id = ie_symbol_id e, rie_send_ts = ts\<rparr> else None))"
    "rested \<or> fh_lookup (ec_id_map d) k = None"
proof -
  obtain f r where er: "fh_erase (ec_id_map c) k = Some (True, f)" "fh_erase (ec_reverse_id_map c) x = Some (True, r)"
    "cinv (insert x D - {x}) {n} (c\<lparr>ec_id_map := f, ec_reverse_id_map := r\<rparr>)" "reported c (c\<lparr>ec_id_map := f, ec_reverse_id_map := r\<rparr>)"
    "fh_lookup f = (fh_lookup (ec_id_map c))(k := None)" "fh_lookup r = (fh_lookup (ec_reverse_id_map c))(x := None)"
    by (rule erase_both [OF inv(1) k gone])
  let ?c = "c\<lparr>ec_id_map := f, ec_reverse_id_map := r\<rparr>"
  have inv3: "cinv D {n} ?c" using er(3) inv(2) by simp
  have full: "\<not> fh_full (ec_id_map ?c)" "\<not> fh_full (ec_reverse_id_map ?c)" using room reported_full [OF er(4)] by auto
  have g: "grown c ?c" using er(4) by (simp add: reported_def grown_def)
  show thesis
  proof (cases rested)
    case False
    have "cinv D {} ?c" by (rule cinv_absent [OF inv3]) (use n(1) False in auto)
    then show thesis using that [OF er(1,2), of ?c] False g er(5,6) n(2) inv(3) by (simp add: fun_upd_twist fun_upd_idem)
  next
    case True
    let ?en = "\<lparr>ie_exchange_id = n, ie_side = ie_side e, ie_symbol_id = ie_symbol_id e\<rparr>"
    let ?re = "\<lparr>rie_session_id = extract_session_id k, rie_client_order_id = k AND kMaxClientOrderId, rie_symbol_id = ie_symbol_id e, rie_send_ts = ts\<rparr>"
    have seen: "k \<in> dom (fh_lookup (ec_seen_orders c))" using store_okD(5) [OF cinvD(1) [OF inv(1)]] k(1) by auto
    obtain f' r' where mr: "map_resting k ?en ?re ?c = Some (?c\<lparr>ec_id_map := f', ec_reverse_id_map := r'\<rparr>)"
      "cinv D {} (?c\<lparr>ec_id_map := f', ec_reverse_id_map := r'\<rparr>)" "fh_lookup r' = (fh_lookup (ec_reverse_id_map ?c))(n \<mapsto> ?re)"
      "grown ?c (?c\<lparr>ec_id_map := f', ec_reverse_id_map := r'\<rparr>)"
      by (rule map_resting_ok [OF inv3, where k = k and e = ?en and r = ?re and ts = ts])
         (use er(5,6) n side True full seen inv(3) in auto)
    then show thesis
      using that [OF er(1,2), of "?c\<lparr>ec_id_map := f', ec_reverse_id_map := r'\<rparr>"] True er(4,6) by (simp add: grown_def reported_def)
  qed
qed

lemma core_modify_run:
  assumes inv: "core_inv c" and room: "core_room c" and len: "length (ec_events c) + 257 \<le> kMaxEvents"
    and t: "request_target s (mo_client_order_id x) (mo_symbol_id x) c = Inr e" and i: "symbol_index c (mo_symbol_id x) = Some i"
  obtains e1 r e' c' where "engine_cancel_order (sl_engine (ec_symbols c ! i)) (ie_exchange_id e) = Some (True, e1)"
    "submit_order e1 (ec_next_exchange_id c) (ie_side e) (mo_new_price x) (mo_new_qty x) = Some (r, e')"
    "core_modify_order s x c = Some c'" "core_inv c'" "grown c c'"
    "ec_events c' = ec_events c @ modify_events s x (ec_next_exchange_id c) (ie_side e) (fh_lookup (ec_reverse_id_map c)) e' (mr_fills r)"
    "ec_symbols c' = ec_symbols (set_engine i e' c)" "ec_seen_orders c' = ec_seen_orders c" "ec_active_sessions c' = ec_active_sessions c"
    "length (mr_fills r) \<le> kMaxFillsPerMatch"
    "\<And>f. f \<in> set (mr_fills r) \<Longrightarrow> \<exists>w. fh_lookup (ec_reverse_id_map c) (maker_id f) = Some w \<and> rie_symbol_id w = mo_symbol_id x"
    "if mr_rested r then fh_lookup (ec_reverse_id_map c') (ec_next_exchange_id c) = Some \<lparr>rie_session_id = s, rie_client_order_id = mo_client_order_id x,
       rie_symbol_id = mo_symbol_id x, rie_send_ts = mo_send_ts x\<rparr>
     else fh_lookup (ec_id_map c') (ckey s (mo_client_order_id x)) = None"
proof -
  let ?k = "ckey s (mo_client_order_id x)" and ?n = "ec_next_exchange_id c" and ?sm = "mo_symbol_id x"
  let ?R = "fh_lookup (ec_reverse_id_map c)" and ?x = "ie_exchange_id e"
  have e: "mo_client_order_id x \<le> kMaxClientOrderId" "fh_lookup (ec_id_map c) ?k = Some e" "ie_symbol_id e = ?sm"
    using t i by (auto simp: request_target_def split: if_splits option.splits)
  have i': "symbol_index c (ie_symbol_id e) = Some i" using i e(3) by simp
  have n1: "?n \<noteq> - 1" using room by (simp add: core_room_def)
  obtain e1 r e' where r: "engine_cancel_order (sl_engine (ec_symbols c ! i)) ?x = Some (True, e1)"
    "submit_order e1 ?n (ie_side e) (mo_new_price x) (mo_new_qty x) = Some (r, e')"
    "cinv ({?x} \<union> maker_id ` set (mr_fills r)) {?n} (set_engine i e' (c\<lparr>ec_next_exchange_id := ?n + 1\<rparr>))"
    "length (mr_fills r) \<le> kMaxFillsPerMatch" "distinct (map maker_id (mr_fills r))"
    "maker_id ` set (mr_fills r) \<subseteq> live c ?sm (opp (ie_side e)) - {?x}"
    "\<And>s. ?n \<in> resting e' s \<longleftrightarrow> s = ie_side e \<and> mr_rested r" "\<And>s. ?x \<notin> resting e' s"
    by (rule core_engine_modify [OF inv i' n1 e(2), where price = "mo_new_price x" and qty = "mo_new_qty x"]) (auto simp: e(3))
  note tl = target_live [OF inv e(2)]
  let ?c2 = "set_engine i e' (c\<lparr>ec_next_exchange_id := ?n + 1\<rparr>)"
  have L2: "live ?c2 t u = (if t = ?sm then resting e' u else live c t u)" for t u
    using live_set_engine [of "c\<lparr>ec_next_exchange_id := ?n + 1\<rparr>" ?sm i e' t u] i by simp
  have n2: "?n \<in> live ?c2 t u \<longleftrightarrow> t = ie_symbol_id e \<and> u = ie_side e \<and> mr_rested r" for t u
    using live_lt [OF inv, of ?n t u] r(7) [of u] e(3) by (auto simp: L2)
  have x2: "?x \<notin> live ?c2 t u" for t u using tl(3) [of t u] r(8) [of u] e(3) by (auto simp: L2)
  obtain f g d where d: "fh_erase (ec_id_map ?c2) ?k = Some (True, f)" "fh_erase (ec_reverse_id_map ?c2) ?x = Some (True, g)"
    "(if mr_rested r then map_resting ?k \<lparr>ie_exchange_id = ?n, ie_side = ie_side e, ie_symbol_id = ie_symbol_id e\<rparr>
        \<lparr>rie_session_id = extract_session_id ?k, rie_client_order_id = ?k AND kMaxClientOrderId, rie_symbol_id = ie_symbol_id e, rie_send_ts = mo_send_ts x\<rparr>
        (?c2\<lparr>ec_id_map := f, ec_reverse_id_map := g\<rparr>)
      else Some (?c2\<lparr>ec_id_map := f, ec_reverse_id_map := g\<rparr>)) = Some d" "cinv (maker_id ` set (mr_fills r)) {} d"
    "grown ?c2 d" "ec_next_exchange_id d = ec_next_exchange_id ?c2" "ec_symbols d = ec_symbols ?c2" "ec_events d = ec_events ?c2"
    "ec_seen_orders d = ec_seen_orders ?c2" "ec_active_sessions d = ec_active_sessions ?c2"
    "fh_lookup (ec_reverse_id_map d) = (fh_lookup (ec_reverse_id_map ?c2))(?x := None, ?n := (if mr_rested r then Some \<lparr>rie_session_id = extract_session_id ?k,
        rie_client_order_id = ?k AND kMaxClientOrderId, rie_symbol_id = ie_symbol_id e, rie_send_ts = mo_send_ts x\<rparr> else None))"
    "mr_rested r \<or> fh_lookup (ec_id_map d) ?k = None"
    by (rule modify_maps [where c = ?c2 and x = ?x and n = ?n and k = ?k and e = e and rested = "mr_rested r" and D = "maker_id ` set (mr_fills r)" and ts = "mo_send_ts x"])
       (use r(3,6) x2 n2 e(2) next_unmapped [OF inv] tl(2) room live_lt [OF inv tl(1)] in \<open>auto simp: core_room_def\<close>)
  define reply where "reply = (modify_reply s x)\<lparr>ev_exchange_order_id := ?n, ev_symbol_id := ?sm\<rparr>"
  define taker where "taker = reply\<lparr>ev_type := EvFill, ev_side := ie_side e\<rparr>"
  define c4 where "c4 = d\<lparr>ec_events := ec_events c @ [reply\<lparr>ev_type := EvModifyAck\<rparr>]\<rparr>"
  have tk: "ev_symbol_id taker = ?sm" by (simp add: taker_def reply_def)
  have sidx: "symbol_index d = symbol_index c" using symbol_index_symbols [OF d(7)] by simp
  have e4: "sl_engine (ec_symbols c4 ! i) = e'" using engine_set_engine symbol_indexD(1) [OF i] d(7) by (simp add: c4_def)
  have mk: "maker_id f \<noteq> ?n \<and> maker_id f \<noteq> ?x \<and> (\<exists>w. ?R (maker_id f) = Some w \<and> rie_symbol_id w = ?sm)" if "f \<in> set (mr_fills r)" for f
  proof -
    have f: "maker_id f \<in> live c ?sm (opp (ie_side e))" "maker_id f \<noteq> ?x" using r(6) that by auto
    show ?thesis using live_lt [OF inv f(1)] live_mapped [OF inv f(1)] f(2) by auto
  qed
  have Rd: "fh_lookup (ec_reverse_id_map d) (maker_id f) = ?R (maker_id f)" if "f \<in> set (mr_fills r)" for f
    using mk [OF that] d(11) by simp
  obtain c' where c': "emit_fills i taker (mo_new_qty x) (mr_fills r) c4 = Some c'" "core_inv c'" "reported c4 c'"
    "ec_events c' = ec_events c4 @ fill_events (fh_lookup (ec_reverse_id_map d)) e' taker (mo_new_qty x) (mr_fills r)"
    "\<forall>y. y \<notin> maker_id ` set (mr_fills r) \<or> (\<exists>sm s. y \<in> live c4 sm s) \<longrightarrow> fh_lookup (ec_reverse_id_map c') y = fh_lookup (ec_reverse_id_map d) y"
    using emit_fills_ex [of "maker_id ` set (mr_fills r)" "{}" c4 taker i "mr_fills r" "mo_new_qty x"] r(4,5) d(4) mk Rd len e4 tk i sidx
    by (auto simp: c4_def kMaxFillsPerMatch_def)
  note rep = reported_sel [OF c'(3)]
  have L4: "live c4 = live ?c2" using d(7) sidx by (simp add: c4_def live_def fun_eq_iff split: option.split)
  have find: "fh_find (ec_id_map c) ?k = Some (Some e)" using fhmap.find [OF store_okD(3) [OF cinvD(1) [OF inv]]] e(2) by simp
  have em: "engine_modify_order (sl_engine (ec_symbols c ! i)) ?x (ie_side e) (mo_new_price x) (mo_new_qty x) ?n =
      Some (\<lparr>mod_fills = mr_fills r, mod_remaining_qty = mr_remaining_qty r, mod_rested = mr_rested r, mod_success = True\<rparr>, e')"
    by (simp add: engine_modify_order_def r(1,2))
  have low: "mo_client_order_id x AND kMaxClientOrderId = mo_client_order_id x" using e(1) by (simp add: le_kMax)
  have "core_modify_order s x c = Some c'"
    using c'(1) d(1-3,8) len low e(3)
    by (cases "mr_rested r") (simp_all add: core_modify_unfold [OF e(1) i symbol_indexD(1) [OF i] find em] Let_def c4_def reply_def taker_def)
  moreover have "grown c c'" using d(5,6) c'(3) rep(2,4) by (simp add: grown_def reported_def c4_def)
  moreover have "ec_events c' = ec_events c @ modify_events s x ?n (ie_side e) ?R e' (mr_fills r)"
    using c'(4) fill_events_cong [of "mr_fills r" "fh_lookup (ec_reverse_id_map d)" ?R] Rd by (simp add: c4_def modify_events_def Let_def taker_def reply_def)
  moreover have "ec_symbols c' = ec_symbols (set_engine i e' c)" using rep(1) d(7) by (simp add: c4_def set_engine_def)
  moreover have "if mr_rested r then fh_lookup (ec_reverse_id_map c') ?n = Some \<lparr>rie_session_id = s, rie_client_order_id = mo_client_order_id x,
       rie_symbol_id = ?sm, rie_send_ts = mo_send_ts x\<rparr> else fh_lookup (ec_id_map c') ?k = None"
  proof (cases "mr_rested r")
    case True
    then show ?thesis using c'(5) n2 L4 d(11) low e(3) by auto
  next
    case False
    have "dom (fh_lookup (ec_id_map c')) \<subseteq> dom (fh_lookup (ec_id_map d))"
      by (rule id_map_dom [OF c'(2) d(4)]) (use c'(5) rep(7) in auto)
    then show ?thesis using False d(12) by auto
  qed
  ultimately show thesis using that [OF r(1,2)] c'(2) rep(3,4) d(9,10) r(4) mk by (simp add: c4_def)
qed

lemma length_modify_events: "length fs \<le> kMaxFillsPerMatch \<Longrightarrow> length (modify_events s x n side R e fs) \<le> 257"
  by (rule order_trans [of _ "Suc (4 * length fs)"]) (simp_all add: modify_events_def Let_def length_fill_events kMaxFillsPerMatch_def)

lemma core_modify_refused:
  assumes inv: "core_inv c" and n: "ec_next_exchange_id c \<noteq> - 1" and len: "length (ec_events c) < kMaxEvents"
    and t: "request_target s (mo_client_order_id x) (mo_symbol_id x) c = Inl reason"
  shows "\<exists>c'. core_modify_order s x c = Some c' \<and> core_inv c' \<and> grown c c' \<and> live c' = live c \<and>
    ec_events c' = ec_events c @ [(modify_reply s x)\<lparr>ev_type := EvModifyRejected, ev_reason := reason\<rparr>] \<and>
    fh_lookup (ec_id_map c') = fh_lookup (ec_id_map c) \<and> fh_lookup (ec_reverse_id_map c') = fh_lookup (ec_reverse_id_map c)"
proof -
  let ?coid = "mo_client_order_id x" and ?sm = "mo_symbol_id x" and ?k = "ckey s (mo_client_order_id x)" and ?n = "ec_next_exchange_id c"
  note find = fhmap.find [OF store_okD(3) [OF cinvD(1) [OF inv]]]
  consider "?coid > kMaxClientOrderId" | "?coid \<le> kMaxClientOrderId" "symbol_index c ?sm = None"
    | i where "?coid \<le> kMaxClientOrderId" "symbol_index c ?sm = Some i" "fh_lookup (ec_id_map c) ?k = None"
    | i e where "?coid \<le> kMaxClientOrderId" "symbol_index c ?sm = Some i" "fh_lookup (ec_id_map c) ?k = Some e"
    using not_less by (metis not_None_eq)
  then show ?thesis
  proof cases
    case 1
    then show ?thesis using t len inv by (simp add: core_modify_order_def request_target_def modify_reply_def Let_def grown_def)
  next
    case 2
    then show ?thesis using t len inv leD [OF 2(1)] by (simp add: core_modify_order_def request_target_def modify_reply_def Let_def grown_def)
  next
    case 3
    then show ?thesis using t len inv leD [OF 3(1)] find by (simp add: core_modify_order_def request_target_def modify_reply_def Let_def grown_def)
  next
    case (4 i e)
    let ?x = "ie_exchange_id e" and ?e = "sl_engine (ec_symbols c ! i)"
    have sm: "ie_symbol_id e \<noteq> ?sm" "reason = kOrderNotFound" using t 4 leD [OF 4(1)] by (auto simp: request_target_def split: if_splits)
    obtain M N where en: "engine_inv M N ?e" "length (me_fills ?e) = kMaxFillsPerMatch" by (rule engine_at [OF cinvD(1) [OF inv] 4(2)])
    obtain e' where e': "engine_cancel_order ?e ?x = Some (?x \<in> resting ?e kBid \<union> resting ?e kAsk, e')" "engine_inv M N e'"
      "me_fills e' = me_fills ?e" "\<And>s. resting e' s = resting ?e s - {?x}" by (rule engine_cancel [OF en(1), where x = ?x]) blast
    have absent: "?x \<notin> resting ?e u" for u using target_live(3) [OF inv 4(3), of ?sm u] sm(1) live_at [OF 4(2), of u] by auto
    then have same: "resting e' u = live c ?sm u" for u using e'(4) [of u] live_at [OF 4(2), of u] by auto
    let ?c2 = "set_engine i e' (c\<lparr>ec_next_exchange_id := ?n + 1\<rparr>)"
    have L2: "live ?c2 = live c"
      using live_set_engine [of "c\<lparr>ec_next_exchange_id := ?n + 1\<rparr>" ?sm i e'] 4(2) same by (auto simp: fun_eq_iff)
    have "cinv {} {?n} ?c2"
      by (rule cinv_engine [OF inv 4(2) n e'(2)]) (use e'(3) en(2) same in auto)
    then have inv2: "core_inv ?c2" by (rule cinv_absent) (use L2 live_lt [OF inv, of ?n] in auto)
    have em: "engine_modify_order ?e ?x (ie_side e) (mo_new_price x) (mo_new_qty x) ?n =
        Some (\<lparr>mod_fills = [], mod_remaining_qty = 0, mod_rested = False, mod_success = False\<rparr>, e')"
      using e'(1) absent by (simp add: engine_modify_order_def)
    have find': "fh_find (ec_id_map c) ?k = Some (Some e)" using find 4(3) by simp
    show ?thesis
      using inv2 L2 sm(2) len by (simp add: core_modify_unfold [OF 4(1,2) symbol_indexD(1) [OF 4(2)] find' em] Let_def grown_def)
  qed
qed

lemma core_modify_total:
  assumes inv: "core_inv c" and room: "core_room c" and len: "length (ec_events c) + 257 \<le> kMaxEvents"
  shows "\<exists>c'. core_modify_order s x c = Some c' \<and> core_inv c' \<and> grown c c' \<and> length (ec_events c') \<le> length (ec_events c) + 257"
proof (cases "request_target s (mo_client_order_id x) (mo_symbol_id x) c")
  case (Inl reason)
  then show ?thesis using core_modify_refused [OF inv _ _ Inl] room len by (force simp: core_room_def)
next
  case (Inr e)
  then obtain i where i: "symbol_index c (mo_symbol_id x) = Some i" by (auto simp: request_target_def split: if_splits)
  show ?thesis by (rule core_modify_run [OF inv room len Inr i]) (auto intro!: length_modify_events)
qed

end
