(* ===== verification/ExchangeSessions.thy ===== *)
theory ExchangeSessions
  imports ExchangeCoreOps
begin

text \<open>
  Sessions of the exchange coordinator: the search for a free session id finds one whenever
  there is one, and the end of a session removes exactly its orders and its keys.
\<close>

section \<open>The search for a session id\<close>

lemma u16_lt: "unat (s :: u16) < 65536"
  using unsigned_less [of s] by simp

text \<open>The id that attempt \<open>j\<close> looks at, counting from the next session id \<open>s\<close>; zero is skipped.\<close>

definition attempt :: "u16 \<Rightarrow> nat \<Rightarrow> u16" where
  "attempt s j = of_nat ((unat (if s = 0 then 1 else s) - 1 + j) mod 65535 + 1)"

lemma attempt_0: "attempt s 0 = (if s = 0 then 1 else s)"
proof -
  have "unat s - 1 < 65535" using u16_lt [of s] by simp
  moreover have "s \<noteq> 0 \<Longrightarrow> unat s \<noteq> 0" by (simp add: unat_eq_0)
  ultimately show ?thesis by (auto simp: attempt_def)
qed

lemma attempt_Suc: "attempt (attempt s 0 + 1) j = attempt s (Suc j)"
proof -
  let ?a = "if s = 0 then 1 else s"
  have a: "0 < unat ?a" "unat ?a < 65536" using u16_lt [of s] by (auto simp: unat_gt_0)
  have "unat (if ?a + 1 = 0 then 1 else ?a + 1) - 1 = unat ?a mod 65535"
  proof (cases "?a + 1 = 0")
    case True
    then have "?a = - 1" by (simp add: eq_neg_iff_add_eq_0)
    then have "unat ?a = 65535" by (simp add: unsigned_minus_1_eq_mask mask_eq_exp_minus_1)
    then show ?thesis using True by simp
  next
    case False
    then have s: "unat (?a + 1) = Suc (unat ?a)" using unatSuc [of ?a] by (simp add: add.commute)
    then have "unat ?a < 65535" using u16_lt [of "?a + 1"] by simp
    then show ?thesis using False s by simp
  qed
  then have "attempt (?a + 1) j = of_nat ((unat ?a mod 65535 + j) mod 65535 + 1)" by (simp add: attempt_def del: of_nat_add)
  also have "(unat ?a mod 65535 + j) mod 65535 = (unat ?a - 1 + Suc j) mod 65535" using a(1) by (simp add: mod_add_left_eq)
  finally show ?thesis using attempt_0 [of s] by (simp add: attempt_def)
qed

lemma attempt_covers:
  assumes "sid \<noteq> 0"
  shows "\<exists>j < 65535. attempt s j = sid"
proof -
  define a where "a = unat (if s = 0 then 1 else s) - 1"
  define b where "b = unat sid - 1"
  have u: "unat s < 65536" "unat sid < 65536" using u16_lt by blast+
  have sid: "0 < unat sid" using assms by (simp add: unat_gt_0)
  have ab: "a < 65535" "b < 65535" using u sid unfolding a_def b_def by (auto split: if_splits)
  define j where "j = (if a \<le> b then b - a else 65535 + b - a)"
  have j: "j < 65535" using ab unfolding j_def by auto
  have "a + j = (if a \<le> b then b else b + 65535)" using ab unfolding j_def by auto
  then have "(a + j) mod 65535 = b" using ab(2) by (auto split: if_splits)
  then have "attempt s j = of_nat (b + 1)" unfolding attempt_def a_def by simp
  then have "attempt s j = sid" using sid by (simp add: b_def)
  then show ?thesis using j by blast
qed

lemma find_session_ok:
  "find_session n c =
    (if \<exists>j < n. \<not> ec_active_sessions c (attempt (ec_next_session_id c) j)
     then let sid = attempt (ec_next_session_id c) (LEAST j. \<not> ec_active_sessions c (attempt (ec_next_session_id c) j))
          in Some (sid, c\<lparr>ec_next_session_id := sid + 1, ec_active_sessions := (ec_active_sessions c)(sid := True)\<rparr>)
     else None)"
proof (induction n arbitrary: c)
  case (Suc n)
  let ?s = "ec_next_session_id c" and ?act = "ec_active_sessions c"
  let ?P = "\<lambda>j. \<not> ?act (attempt ?s j)"
  show ?case
  proof (cases "?P 0")
    case True
    then have "(LEAST j. ?P j) = 0" by (rule Least_eq_0)
    then show ?thesis using True attempt_0 [of ?s] by (auto simp: Let_def)
  next
    case False
    let ?c = "c\<lparr>ec_next_session_id := attempt ?s 0 + 1\<rparr>"
    have "find_session (Suc n) c = find_session n ?c" using False attempt_0 [of ?s] by (simp add: Let_def)
    moreover have "(\<exists>j < Suc n. ?P j) \<longleftrightarrow> (\<exists>j < n. ?P (Suc j))" using False Ex_less_Suc2 [of n ?P] by blast
    moreover have "(LEAST j. ?P j) = Suc (LEAST j. ?P (Suc j))" if ex: "\<exists>j < n. ?P (Suc j)"
    proof -
      obtain j where "?P (Suc j)" using ex by blast
      then show ?thesis using False by (intro Least_Suc [of ?P "Suc j"]) auto
    qed
    ultimately show ?thesis by (cases "\<exists>j < n. ?P (Suc j)") (simp_all add: Suc.IH attempt_Suc Let_def fun_upd_def)
  qed
qed simp

text \<open>A session id is found exactly when one is free; it was free, and only it becomes active.\<close>

lemma on_client_connect_ok:
  "on_client_connect c = None \<longleftrightarrow> (\<forall>sid. sid \<noteq> 0 \<longrightarrow> ec_active_sessions c sid)"
  "on_client_connect c = Some (sid, c') \<Longrightarrow> sid \<noteq> 0 \<and> \<not> ec_active_sessions c sid \<and>
     c' = c\<lparr>ec_next_session_id := sid + 1, ec_active_sessions := (ec_active_sessions c)(sid := True)\<rparr>"
proof -
  let ?P = "\<lambda>j. \<not> ec_active_sessions c (attempt (ec_next_session_id c) j)"
  have nz: "attempt s j \<noteq> 0" for s j
  proof -
    have "Suc ((unat (if s = 0 then 1 else s) - 1 + j) mod 65535) \<le> 65535" by (simp add: Suc_le_eq)
    then have "unat (attempt s j) = Suc ((unat (if s = 0 then 1 else s) - 1 + j) mod 65535)"
      unfolding attempt_def by (simp add: unsigned_of_nat take_bit_nat_eq_self del: of_nat_Suc of_nat_add)
    then show ?thesis by (metis Zero_not_Suc unat_0)
  qed
  have ex: "(\<exists>j < 65535. ?P j) \<longleftrightarrow> (\<exists>sid. sid \<noteq> 0 \<and> \<not> ec_active_sessions c sid)"
    using attempt_covers nz by metis
  then show "on_client_connect c = None \<longleftrightarrow> (\<forall>sid. sid \<noteq> 0 \<longrightarrow> ec_active_sessions c sid)"
    by (auto simp: on_client_connect_def find_session_ok Let_def)
  assume "on_client_connect c = Some (sid, c')"
  then have r: "\<exists>j < 65535. ?P j" "sid = attempt (ec_next_session_id c) (LEAST j. ?P j)"
    "c' = c\<lparr>ec_next_session_id := sid + 1, ec_active_sessions := (ec_active_sessions c)(sid := True)\<rparr>"
    by (auto simp: on_client_connect_def find_session_ok Let_def split: if_splits)
  have "?P (LEAST j. ?P j)" using r(1) LeastI_ex [of ?P] by blast
  then show "sid \<noteq> 0 \<and> \<not> ec_active_sessions c sid \<and> c' = c\<lparr>ec_next_session_id := sid + 1, ec_active_sessions := (ec_active_sessions c)(sid := True)\<rparr>"
    using r nz by simp
qed

section \<open>The end of a session\<close>

definition of_session :: "u16 \<Rightarrow> u64 \<times> 'a \<Rightarrow> bool" where
  "of_session s p \<longleftrightarrow> extract_session_id (fst p) = s"

lemma of_session_Pair [simp]: "of_session s (k, e) \<longleftrightarrow> extract_session_id k = s"
  by (simp add: of_session_def)

lemma cancel_session_ex:
  assumes "cinv D {} c" "\<And>k e. (k, e) \<in> set entries \<Longrightarrow> fh_lookup (ec_id_map c) k = Some e \<and> (\<exists>i. symbol_index c (ie_symbol_id e) = Some i)"
    "length keys + length entries \<le> kMaxIdMappings"
  shows "\<exists>c'. cancel_session s entries keys c = Some (keys @ map fst (filter (of_session s) entries), c') \<and>
    cinv (D \<union> (ie_exchange_id \<circ> snd) ` set (filter (of_session s) entries)) {} c' \<and> c'\<lparr>ec_symbols := ec_symbols c\<rparr> = c \<and>
    live c' = (\<lambda>t u. live c t u - (ie_exchange_id \<circ> snd) ` set (filter (of_session s) entries))"
  using assms
proof (induction entries arbitrary: D keys c)
  case Nil
  then show ?case by simp
next
  case (Cons p entries)
  obtain k e where p: "p = (k, e)" by (cases p)
  let ?x = "ie_exchange_id e" and ?sm = "ie_symbol_id e"
  show ?case
  proof (cases "extract_session_id k = s")
    case False
    have "\<exists>c'. cancel_session s entries keys c = Some (keys @ map fst (filter (of_session s) entries), c') \<and>
      cinv (D \<union> (ie_exchange_id \<circ> snd) ` set (filter (of_session s) entries)) {} c' \<and> c'\<lparr>ec_symbols := ec_symbols c\<rparr> = c \<and>
      live c' = (\<lambda>t u. live c t u - (ie_exchange_id \<circ> snd) ` set (filter (of_session s) entries))"
      by (rule Cons.IH) (use Cons.prems in auto)
    then show ?thesis using False by (simp add: p)
  next
    case True
    have F: "fh_lookup (ec_id_map c) k = Some e" using Cons.prems(2) [of k e] p by simp
    obtain i where i: "symbol_index c ?sm = Some i" using Cons.prems(2) [of k e] p by auto
    let ?e = "sl_engine (ec_symbols c ! i)"
    obtain M N where en: "engine_inv M N ?e" "length (me_fills ?e) = kMaxFillsPerMatch" by (rule engine_at [OF cinvD(1) [OF Cons.prems(1)] i])
    obtain b e' where e': "engine_cancel_order ?e ?x = Some (b, e')" "engine_inv M N e'"
      "me_fills e' = me_fills ?e" "\<And>u. resting e' u = resting ?e u - {?x}" by (rule engine_cancel [OF en(1), where x = ?x]) blast
    let ?c = "set_engine i e' c"
    have inv': "cinv (D \<union> {?x}) {} ?c"
      by (rule cinv_shrink [OF Cons.prems(1) i e'(2)]) (use e'(3,4) en(2) in \<open>auto simp: live_at [OF i]\<close>)
    have L: "live ?c t u = live c t u - {?x}" for t u
      using maps_ok_symbol [OF cinvD(2) [OF Cons.prems(1)] F, of t u] e'(4) [of u]
      by (auto simp: live_set_engine [OF i] live_at [OF i])
    have "\<exists>c'. cancel_session s entries (keys @ [k]) ?c = Some ((keys @ [k]) @ map fst (filter (of_session s) entries), c') \<and>
      cinv (D \<union> {?x} \<union> (ie_exchange_id \<circ> snd) ` set (filter (of_session s) entries)) {} c' \<and> c'\<lparr>ec_symbols := ec_symbols ?c\<rparr> = ?c \<and>
      live c' = (\<lambda>t u. live ?c t u - (ie_exchange_id \<circ> snd) ` set (filter (of_session s) entries))"
      by (rule Cons.IH) (use inv' Cons.prems in auto)
    then obtain c' where c': "cancel_session s entries (keys @ [k]) ?c = Some ((keys @ [k]) @ map fst (filter (of_session s) entries), c')"
      "cinv (D \<union> {?x} \<union> (ie_exchange_id \<circ> snd) ` set (filter (of_session s) entries)) {} c'" "c'\<lparr>ec_symbols := ec_symbols ?c\<rparr> = ?c"
      "live c' = (\<lambda>t u. live ?c t u - (ie_exchange_id \<circ> snd) ` set (filter (of_session s) entries))"
      by blast
    have "c'\<lparr>ec_symbols := ec_symbols c\<rparr> = (c'\<lparr>ec_symbols := ec_symbols ?c\<rparr>)\<lparr>ec_symbols := ec_symbols c\<rparr>" by simp
    also have "\<dots> = c" unfolding c'(3) by (simp add: set_engine_def)
    finally have "c'\<lparr>ec_symbols := ec_symbols c\<rparr> = c" .
    moreover have "cancel_session s (p # entries) keys c = Some (keys @ map fst (filter (of_session s) (p # entries)), c')"
      using True Cons.prems(3) c'(1) e'(1) symbol_indexD(1,3) [OF i] by (simp add: p arr_get_def Let_def)
    ultimately show ?thesis using True c'(2,4) L by (auto simp: p)
  qed
qed

text \<open>The exchange ids that a list of keys maps to.\<close>

definition ids_of :: "ExchangeCore \<Rightarrow> u64 set \<Rightarrow> u64 set" where
  "ids_of c ks = {ie_exchange_id e |e k. k \<in> ks \<and> fh_lookup (ec_id_map c) k = Some e}"

lemma erase_mappings_ex:
  assumes "cinv P {} c" "distinct keys" "\<And>k. k \<in> set keys \<Longrightarrow> k \<in> dom (fh_lookup (ec_id_map c))"
    "\<And>x t u. x \<in> ids_of c (set keys) \<Longrightarrow> x \<notin> live c t u"
  shows "\<exists>c'. erase_mappings keys c = Some c' \<and> cinv (P - ids_of c (set keys)) {} c' \<and> reported c c' \<and> ec_events c' = ec_events c \<and>
    fh_lookup (ec_id_map c') = (fh_lookup (ec_id_map c)) |` (- set keys) \<and>
    fh_lookup (ec_reverse_id_map c') = (fh_lookup (ec_reverse_id_map c)) |` (- ids_of c (set keys))"
  using assms
proof (induction keys arbitrary: P c)
  case Nil
  then show ?case by (cases c) (simp add: ids_of_def reported_def restrict_map_def)
next
  case (Cons k keys)
  let ?F = "fh_lookup (ec_id_map c)" and ?R = "fh_lookup (ec_reverse_id_map c)"
  obtain e where e: "?F k = Some e" using Cons.prems(3) [of k] by auto
  let ?x = "ie_exchange_id e"
  have x: "?x \<in> ids_of c (set (k # keys))" using e by (auto simp: ids_of_def)
  obtain f r where er: "fh_erase (ec_id_map c) k = Some (True, f)" "fh_erase (ec_reverse_id_map c) ?x = Some (True, r)"
    "cinv (P - {?x}) {} (c\<lparr>ec_id_map := f, ec_reverse_id_map := r\<rparr>)" "reported c (c\<lparr>ec_id_map := f, ec_reverse_id_map := r\<rparr>)"
    "fh_lookup f = ?F(k := None)" "fh_lookup r = ?R(?x := None)"
    by (rule erase_both [OF Cons.prems(1) e, of ?x]) (use Cons.prems(4) [OF x] in auto)
  let ?c = "c\<lparr>ec_id_map := f, ec_reverse_id_map := r\<rparr>"
  have ids: "ids_of ?c (set keys) = ids_of c (set keys)" using Cons.prems(2) er(5) by (auto simp: ids_of_def)
  have ids': "ids_of c (set (k # keys)) = insert ?x (ids_of c (set keys))" using e by (auto simp: ids_of_def)
  have "\<exists>c'. erase_mappings keys ?c = Some c' \<and> cinv (P - {?x} - ids_of ?c (set keys)) {} c' \<and> reported ?c c' \<and> ec_events c' = ec_events ?c \<and>
    fh_lookup (ec_id_map c') = (fh_lookup (ec_id_map ?c)) |` (- set keys) \<and>
    fh_lookup (ec_reverse_id_map c') = (fh_lookup (ec_reverse_id_map ?c)) |` (- ids_of ?c (set keys))"
  proof (rule Cons.IH [OF er(3)])
    show "distinct keys" using Cons.prems(2) by simp
    show "j \<in> dom (fh_lookup (ec_id_map ?c))" if "j \<in> set keys" for j using Cons.prems(2) Cons.prems(3) [of j] that er(5) by auto
    show "y \<notin> live ?c t u" if "y \<in> ids_of ?c (set keys)" for y t u using Cons.prems(4) [of y t u] that ids ids' by auto
  qed
  then obtain c' where c': "erase_mappings keys ?c = Some c'" "cinv (P - {?x} - ids_of c (set keys)) {} c'" "reported ?c c'" "ec_events c' = ec_events c"
    "fh_lookup (ec_id_map c') = (?F(k := None)) |` (- set keys)"
    "fh_lookup (ec_reverse_id_map c') = (?R(?x := None)) |` (- ids_of c (set keys))"
    using er(5,6) ids by auto
  have "erase_mappings (k # keys) c = Some c'"
    using c'(1) er(1,2) fhmap.find [OF store_okD(3) [OF cinvD(1) [OF Cons.prems(1)]]] e by simp
  moreover have "P - ids_of c (set (k # keys)) = P - {?x} - ids_of c (set keys)" unfolding ids' by blast
  moreover have "fh_lookup (ec_id_map c') = ?F |` (- set (k # keys))" unfolding c'(5) by (auto simp: restrict_map_def fun_eq_iff)
  moreover have "fh_lookup (ec_reverse_id_map c') = ?R |` (- ids_of c (set (k # keys)))" unfolding c'(6) ids' by (auto simp: restrict_map_def fun_eq_iff)
  ultimately show ?case using c'(2,4) reported_trans [OF er(4) c'(3)] by simp
qed

lemma erase_seen_ex:
  assumes "fh_inv (ec_seen_orders c)"
  shows "\<exists>m. erase_seen keys c = Some (c\<lparr>ec_seen_orders := m\<rparr>) \<and> fh_inv m \<and> fh_capacity m = fh_capacity (ec_seen_orders c) \<and>
    fh_lookup m = (fh_lookup (ec_seen_orders c)) |` (- set keys)"
  using assms
proof (induction keys arbitrary: c)
  case Nil
  then show ?case by (intro exI [of _ "ec_seen_orders c"]) (simp add: restrict_map_def)
next
  case (Cons k keys)
  obtain m where m: "fh_erase (ec_seen_orders c) k = Some (fh_lookup (ec_seen_orders c) k \<noteq> None, m)" "fh_inv m"
    "fh_lookup m = (fh_lookup (ec_seen_orders c))(k := None)" "fh_capacity m = fh_capacity (ec_seen_orders c)"
    by (rule fh_eraseE [OF Cons.prems])
  have "\<exists>m'. erase_seen keys (c\<lparr>ec_seen_orders := m\<rparr>) = Some (c\<lparr>ec_seen_orders := m\<rparr>\<lparr>ec_seen_orders := m'\<rparr>) \<and> fh_inv m' \<and>
      fh_capacity m' = fh_capacity (ec_seen_orders (c\<lparr>ec_seen_orders := m\<rparr>)) \<and> fh_lookup m' = (fh_lookup (ec_seen_orders (c\<lparr>ec_seen_orders := m\<rparr>))) |` (- set keys)"
    by (rule Cons.IH) (simp add: m(2))
  then obtain m' where m': "erase_seen keys (c\<lparr>ec_seen_orders := m\<rparr>) = Some (c\<lparr>ec_seen_orders := m'\<rparr>)" "fh_inv m'"
    "fh_capacity m' = fh_capacity m" "fh_lookup m' = (fh_lookup m) |` (- set keys)" by auto
  have "fh_lookup m' = (fh_lookup (ec_seen_orders c)) |` (- set (k # keys))" unfolding m'(4) m(3) by (auto simp: restrict_map_def fun_eq_iff)
  then show ?case using m(1,4) m'(1-3) by (intro exI [of _ m']) simp
qed

text \<open>The exchange ids of the orders a session owns.\<close>

definition orders_of :: "ExchangeCore \<Rightarrow> u16 \<Rightarrow> u64 set" where
  "orders_of c s = {x. \<exists>r. fh_lookup (ec_reverse_id_map c) x = Some r \<and> rie_session_id r = s}"

lemma orders_of_ids:
  assumes inv: "core_inv c"
  shows "orders_of c s = ids_of c {k. extract_session_id k = s}"
proof (intro set_eqI iffI)
  fix x assume "x \<in> orders_of c s"
  then obtain r where r: "fh_lookup (ec_reverse_id_map c) x = Some r" "rie_session_id r = s" by (auto simp: orders_of_def)
  then obtain e where "fh_lookup (ec_id_map c) (ckey s (rie_client_order_id r)) = Some e" "ie_exchange_id e = x"
    using maps_okD(3) [OF cinvD(2) [OF inv] r(1)] by auto
  then show "x \<in> ids_of c {k. extract_session_id k = s}" unfolding ids_of_def by (metis (mono_tags, lifting) extract_ckey mem_Collect_eq)
next
  fix x assume "x \<in> ids_of c {k. extract_session_id k = s}"
  then obtain k e where k: "extract_session_id k = s" "fh_lookup (ec_id_map c) k = Some e" "ie_exchange_id e = x" by (auto simp: ids_of_def)
  then show "x \<in> orders_of c s" using maps_okD(1) [OF cinvD(2) [OF inv] k(2)] by (auto simp: fwd_ok_def orders_of_def)
qed

lemma on_client_disconnect_ok:
  assumes inv: "core_inv c" and s: "s \<noteq> 0"
  shows "\<exists>c'. on_client_disconnect s c = Some c' \<and> core_inv c' \<and>
    ec_active_sessions c' = (ec_active_sessions c)(s := False) \<and> ec_events c' = ec_events c \<and>
    live c' = (\<lambda>t u. live c t u - orders_of c s) \<and>
    fh_lookup (ec_id_map c') = (fh_lookup (ec_id_map c)) |` {k. extract_session_id k \<noteq> s} \<and>
    fh_lookup (ec_reverse_id_map c') = (fh_lookup (ec_reverse_id_map c)) |` (- orders_of c s) \<and>
    fh_lookup (ec_seen_orders c') = (fh_lookup (ec_seen_orders c)) |` {k. extract_session_id k \<noteq> s} \<and>
    ec_next_exchange_id c' = ec_next_exchange_id c \<and> ec_next_session_id c' = ec_next_session_id c \<and>
    fh_used (ec_id_map c') = fh_used (ec_id_map c) \<and> fh_used (ec_reverse_id_map c') = fh_used (ec_reverse_id_map c)"
proof -
  define c0 where "c0 = c\<lparr>ec_active_sessions := (ec_active_sessions c)(s := False)\<rparr>"
  let ?es = "fh_entries (ec_id_map c)" and ?F = "fh_lookup (ec_id_map c)"
  note st = store_okD [OF cinvD(1) [OF inv]]
  let ?own = "filter (of_session s) ?es" and ?K = "{k. extract_session_id k = s}"
  have F: "(k, e) \<in> set ?es \<longleftrightarrow> ?F k = Some e" for k e by (rule fh_entries_lookup [OF st(3)])
  have ids: "(ie_exchange_id \<circ> snd) ` set ?own = orders_of c s" unfolding orders_of_ids [OF inv] ids_of_def using F by force
  have keys: "set (map fst ?own) = ?K \<inter> dom ?F" using F by force
  have "cinv {} {} c0" using inv by (simp add: c0_def)
  moreover have "\<exists>i. symbol_index c (ie_symbol_id e) = Some i" if "?F k = Some e" for k e
    using target_live(1) [OF inv that] by (auto simp: live_def split: option.splits)
  ultimately have "\<exists>c'. cancel_session s ?es [] c0 = Some ([] @ map fst ?own, c') \<and>
    cinv ({} \<union> (ie_exchange_id \<circ> snd) ` set ?own) {} c' \<and> c'\<lparr>ec_symbols := ec_symbols c0\<rparr> = c0 \<and>
    live c' = (\<lambda>t u. live c0 t u - (ie_exchange_id \<circ> snd) ` set ?own)"
    by (intro cancel_session_ex) (use F fh_entries_length [of "ec_id_map c"] st(7) in \<open>auto simp: c0_def\<close>)
  then obtain c1 where c1: "cancel_session s ?es [] c0 = Some (map fst ?own, c1)" "cinv (orders_of c s) {} c1" "c1\<lparr>ec_symbols := ec_symbols c0\<rparr> = c0"
    "live c1 = (\<lambda>t u. live c t u - orders_of c s)" unfolding ids by (auto simp: c0_def)
  have same: "ec_id_map c1 = ec_id_map c" "ec_reverse_id_map c1 = ec_reverse_id_map c" "ec_seen_orders c1 = ec_seen_orders c" "ec_events c1 = ec_events c"
    "ec_next_exchange_id c1 = ec_next_exchange_id c" "ec_next_session_id c1 = ec_next_session_id c"
    "ec_active_sessions c1 = (ec_active_sessions c)(s := False)"
    using c1(3) by (cases c1; cases c; simp add: c0_def)+
  have ids1: "ids_of c1 (set (map fst ?own)) = orders_of c s"
    unfolding orders_of_ids [OF inv] keys by (auto simp: ids_of_def same)
  have "\<exists>c'. erase_mappings (map fst ?own) c1 = Some c' \<and> cinv (orders_of c s - ids_of c1 (set (map fst ?own))) {} c' \<and> reported c1 c' \<and>
    ec_events c' = ec_events c1 \<and> fh_lookup (ec_id_map c') = (fh_lookup (ec_id_map c1)) |` (- set (map fst ?own)) \<and>
    fh_lookup (ec_reverse_id_map c') = (fh_lookup (ec_reverse_id_map c1)) |` (- ids_of c1 (set (map fst ?own)))"
  proof (rule erase_mappings_ex [OF c1(2)])
    show "distinct (map fst ?own)" by (rule distinct_map_filter [OF fh_entries_distinct [OF st(3)]])
    show "k \<in> dom (fh_lookup (ec_id_map c1))" if "k \<in> set (map fst ?own)" for k using that keys same(1) by simp
    show "x \<notin> live c1 t u" if "x \<in> ids_of c1 (set (map fst ?own))" for x t u using that ids1 c1(4) by simp
  qed
  then obtain c2 where c2: "erase_mappings (map fst ?own) c1 = Some c2" "core_inv c2" "reported c1 c2" "ec_events c2 = ec_events c"
    "fh_lookup (ec_id_map c2) = ?F |` (- set (map fst ?own))"
    "fh_lookup (ec_reverse_id_map c2) = (fh_lookup (ec_reverse_id_map c)) |` (- orders_of c s)"
    unfolding ids1 same by auto
  have F2: "fh_lookup (ec_id_map c2) = ?F |` {k. extract_session_id k \<noteq> s}"
    unfolding c2(5) keys by (auto simp: restrict_map_def fun_eq_iff)
  note rep = reported_sel [OF c2(3)]
  let ?seen = "filter (\<lambda>k. extract_session_id k = s) (map fst (fh_entries (ec_seen_orders c2)))"
  have seen2: "ec_seen_orders c2 = ec_seen_orders c" using rep(3) same(3) by simp
  obtain m where m: "erase_seen ?seen c2 = Some (c2\<lparr>ec_seen_orders := m\<rparr>)" "fh_inv m" "fh_capacity m = fh_capacity (ec_seen_orders c)"
    "fh_lookup m = (fh_lookup (ec_seen_orders c)) |` (- set ?seen)"
    using erase_seen_ex [of c2 ?seen] st(2) seen2 by auto
  have G: "(k, b) \<in> set (fh_entries (ec_seen_orders c)) \<longleftrightarrow> fh_lookup (ec_seen_orders c) k = Some b" for k b by (rule fh_entries_lookup [OF st(2)])
  have "set ?seen = ?K \<inter> dom (fh_lookup (ec_seen_orders c))" unfolding seen2 using G by force
  then have m2: "fh_lookup m = (fh_lookup (ec_seen_orders c)) |` {k. extract_session_id k \<noteq> s}"
    unfolding m(4) by (auto simp: restrict_map_def fun_eq_iff)
  have "core_inv (c2\<lparr>ec_seen_orders := m\<rparr>)"
    using cinvD [OF c2(2)] m(2,3) m2 F2 st(5,6) seen2 by (auto simp: cinv_def store_ok_def restrict_map_def split: if_splits)
  moreover have "length ?seen \<le> kMaxSeenOrders"
    using length_filter_le [of _ "map fst (fh_entries (ec_seen_orders c2))"] fh_entries_length [of "ec_seen_orders c"] st(6) seen2
    by (metis (no_types, lifting) length_map order_trans)
  then have "on_client_disconnect s c = Some (c2\<lparr>ec_seen_orders := m\<rparr>)"
    using s c1(1) c2(1) m(1) by (simp add: on_client_disconnect_def c0_def Let_def)
  ultimately show ?thesis using c2 F2 m2 rep same c1(4) by (simp add: reported_def)
qed

end
