(* ===== verification/ExchangeEngineInv.thy ===== *)
theory ExchangeEngineInv
  imports ExchangeEngine ExchangeSessions
begin

text \<open>
  The engine process: its queues as bounded queues, where each event goes, and that every request
  is processed and keeps the invariant.
\<close>

section \<open>Queues\<close>

text \<open>A list of items offered to a queue of capacity \<open>c\<close>.\<close>

definition offer :: "nat \<Rightarrow> 'a list \<Rightarrow> 'a list \<Rightarrow> 'a list" where
  "offer c xs ys = xs @ take (c - length xs) ys"

lemma offer_Nil [simp]: "offer c xs [] = xs"
  by (simp add: offer_def)

lemma offer_append [simp]: "offer c (offer c xs ys) zs = offer c xs (ys @ zs)"
  by (simp add: offer_def min_def)

lemma offer_one: "offer c xs [y] = (if length xs < c then xs @ [y] else xs)"
  by (simp add: offer_def)

definition queue_ok :: "'a FixedSPSCQueue \<Rightarrow> bool" where
  "queue_ok q \<longleftrightarrow> fq_inv q \<and> length (fq_buf q) = kExchangeQueueCapacity"

abbreviation offered :: "'a list \<Rightarrow> 'a list \<Rightarrow> 'a list" where
  "offered \<equiv> offer kExchangeQueueCapacity"

lemma queue_push:
  assumes "queue_ok q"
  obtains q' where "fq_try_push q v = Some (length (fq_items q) < kExchangeQueueCapacity, q')" "queue_ok q'" "fq_items q' = offered (fq_items q) [v]"
  using assms fq.push [of q v] by (auto simp: queue_ok_def offer_one)

lemma queue_pop:
  assumes "queue_ok q"
  obtains q' where "fq_try_pop q = Some (if fq_items q = [] then None else Some (hd (fq_items q)), q')" "queue_ok q'" "fq_items q' = tl (fq_items q)"
  using assms fq.pop [of q] by (auto simp: queue_ok_def)

lemma queue_init: "queue_ok (fq_init (replicate kExchangeQueueCapacity v))" "fq_items (fq_init (replicate kExchangeQueueCapacity v)) = []"
proof -
  have "is_power_of_two (of_nat (length (replicate kExchangeQueueCapacity v)))"
    unfolding is_power_of_two_iff by (intro exI [of _ 12]) (simp add: kExchangeQueueCapacity_def)
  then show "queue_ok (fq_init (replicate kExchangeQueueCapacity v))" "fq_items (fq_init (replicate kExchangeQueueCapacity v)) = []"
    using fq_init_inv [of "replicate kExchangeQueueCapacity v"] by (simp_all add: queue_ok_def kExchangeQueueCapacity_def fq_init_def)
qed

definition region_ok :: "SharedExchangeRegion \<Rightarrow> bool" where
  "region_ok x \<longleftrightarrow> length (sx_request_queues x) = kMaxGateways \<and> (\<forall>q \<in> set (sx_request_queues x). queue_ok q) \<and>
     length (sx_response_queues x) = kMaxGateways \<and> (\<forall>q \<in> set (sx_response_queues x). queue_ok q) \<and> queue_ok (sx_md_event_queue x) \<and>
     unat (sx_num_gateways x) \<le> kMaxGateways"

text \<open>What a gateway, and the market data publisher, has in its queue.\<close>

definition responses :: "SharedExchangeRegion \<Rightarrow> nat \<Rightarrow> ExchangeEvent list" where
  "responses x g = fq_items (sx_response_queues x ! g)"

definition requests :: "SharedExchangeRegion \<Rightarrow> nat \<Rightarrow> OrderRequest list" where
  "requests x g = fq_items (sx_request_queues x ! g)"

definition md_events :: "SharedExchangeRegion \<Rightarrow> ExchangeEvent list" where
  "md_events x = fq_items (sx_md_event_queue x)"

text \<open>An operation that changes the contents of the outgoing queues only.\<close>

definition routed :: "SharedExchangeRegion \<Rightarrow> (nat \<Rightarrow> ExchangeEvent list) \<Rightarrow> ExchangeEvent list \<Rightarrow> SharedExchangeRegion \<Rightarrow> bool" where
  "routed x es ms x' \<longleftrightarrow> region_ok x' \<and> (\<forall>g < kMaxGateways. responses x' g = offered (responses x g) (es g)) \<and>
     md_events x' = offered (md_events x) ms \<and> sx_request_queues x' = sx_request_queues x \<and>
     sx_num_gateways x' = sx_num_gateways x \<and> sx_shutdown x' = sx_shutdown x"

lemma routed_refl [simp]: "region_ok x \<Longrightarrow> routed x (\<lambda>_. []) [] x"
  by (simp add: routed_def)

lemma routed_trans: "routed x es ms x' \<Longrightarrow> routed x' es' ms' x'' \<Longrightarrow> routed x (\<lambda>g. es g @ es' g) (ms @ ms') x''"
  by (simp add: routed_def)

lemma push_response_ok:
  assumes x: "region_ok x" and gw: "unat gw < kMaxGateways"
  shows "\<exists>x'. push_response gw ev x = Some (length (responses x (unat gw)) < kExchangeQueueCapacity, x') \<and>
    routed x (\<lambda>g. if g = unat gw then [ev] else []) [] x'"
proof -
  let ?g = "unat gw" and ?qs = "sx_response_queues x"
  have g: "?g < length ?qs" using x gw by (simp add: region_ok_def)
  then have "queue_ok (?qs ! ?g)" using x by (simp add: region_ok_def)
  then obtain q where q: "fq_try_push (?qs ! ?g) ev = Some (length (fq_items (?qs ! ?g)) < kExchangeQueueCapacity, q)" "queue_ok q"
    "fq_items q = offered (fq_items (?qs ! ?g)) [ev]" by (rule queue_push)
  let ?x = "x\<lparr>sx_response_queues := ?qs[?g := q]\<rparr>"
  have "region_ok ?x" using x q(2) set_update_subset_insert [of ?qs ?g q] by (auto simp: region_ok_def)
  moreover have "responses ?x h = offered (responses x h) (if h = ?g then [ev] else [])" if "h < kMaxGateways" for h
    using g q(3) by (simp add: responses_def nth_list_update)
  ultimately have "routed x (\<lambda>g. if g = ?g then [ev] else []) [] ?x" by (simp add: routed_def md_events_def)
  then show ?thesis using q(1) g by (simp add: push_response_def arr_get_def responses_def)
qed

lemma push_md_ok:
  assumes x: "region_ok x"
  shows "\<exists>x'. push_md ev x = Some x' \<and> routed x (\<lambda>_. []) [ev] x'"
proof -
  have "queue_ok (sx_md_event_queue x)" using x by (simp add: region_ok_def)
  then obtain q where q: "fq_try_push (sx_md_event_queue x) ev = Some (length (fq_items (sx_md_event_queue x)) < kExchangeQueueCapacity, q)" "queue_ok q"
    "fq_items q = offered (fq_items (sx_md_event_queue x)) [ev]" by (rule queue_push)
  then have "routed x (\<lambda>_. []) [ev] (x\<lparr>sx_md_event_queue := q\<rparr>)" using x by (simp add: routed_def region_ok_def responses_def md_events_def)
  then show ?thesis using q(1) by (simp add: push_md_def)
qed

section \<open>Routing\<close>

text \<open>Everything but a change of the best prices goes to the gateway of its session; fills and best prices go to the publisher.\<close>

definition to_gateway :: "(u16 \<Rightarrow> u8) \<Rightarrow> nat \<Rightarrow> ExchangeEvent \<Rightarrow> bool" where
  "to_gateway stg g ev \<longleftrightarrow> ev_type ev \<noteq> EvBBOUpdate \<and> unat (stg (ev_session_id ev)) = g"

definition to_md :: "ExchangeEvent \<Rightarrow> bool" where
  "to_md ev \<longleftrightarrow> ev_type ev = EvFill \<or> ev_type ev = EvBBOUpdate"

definition stamp :: "u32 \<Rightarrow> ExchangeEvent \<Rightarrow> ExchangeEvent" where
  "stamp n ev = ev\<lparr>ev_request_seq := n\<rparr>"

lemma dispatch_exchange_event_ok:
  assumes x: "region_ok x" and stg: "\<And>s. unat (stg s) < kMaxGateways"
  shows "\<exists>x'. dispatch_exchange_event n stg ev x = Some x' \<and>
    routed x (\<lambda>g. if to_gateway stg g ev then [stamp n ev] else []) (if to_md ev then [stamp n ev] else []) x'"
proof -
  let ?gw = "stg (ev_session_id ev)"
  obtain x1 where x1: "push_response ?gw (stamp n ev) x = Some (length (responses x (unat ?gw)) < kExchangeQueueCapacity, x1)"
    "routed x (\<lambda>g. if g = unat ?gw then [stamp n ev] else []) [] x1" using push_response_ok [OF x stg] by blast
  have ok1: "region_ok x1" using x1(2) by (simp add: routed_def)
  obtain x2 where x2: "push_md (stamp n ev) x1 = Some x2" "routed x1 (\<lambda>_. []) [stamp n ev] x2" using push_md_ok [OF ok1] by blast
  obtain x3 where x3: "push_md (stamp n ev) x = Some x3" "routed x (\<lambda>_. []) [stamp n ev] x3" using push_md_ok [OF x] by blast
  have fill: "routed x (\<lambda>g. if g = unat ?gw then [stamp n ev] else []) [stamp n ev] x2" using routed_trans [OF x1(2) x2(2)] by simp
  show ?thesis
    using x1 x2(1) x3 fill
    by (cases "ev_type ev") (simp_all add: dispatch_exchange_event_def Let_def to_gateway_def to_md_def stamp_def eq_commute [of "unat ?gw"])
qed

lemma dispatch_events_ok:
  assumes x: "region_ok x" and stg: "\<And>s. unat (stg s) < kMaxGateways"
  shows "\<exists>x'. dispatch_events n stg evs x = Some x' \<and>
    routed x (\<lambda>g. map (stamp n) (filter (to_gateway stg g) evs)) (map (stamp n) (filter to_md evs)) x'"
  using x
proof (induction evs arbitrary: x)
  case (Cons ev evs)
  obtain x1 where x1: "dispatch_exchange_event n stg ev x = Some x1"
    "routed x (\<lambda>g. if to_gateway stg g ev then [stamp n ev] else []) (if to_md ev then [stamp n ev] else []) x1"
    using dispatch_exchange_event_ok [of x stg n ev] Cons.prems stg by blast
  then have "region_ok x1" by (simp add: routed_def)
  then obtain x2 where x2: "dispatch_events n stg evs x1 = Some x2"
    "routed x1 (\<lambda>g. map (stamp n) (filter (to_gateway stg g) evs)) (map (stamp n) (filter to_md evs)) x2" using Cons.IH by blast
  have "(\<lambda>g. (if to_gateway stg g ev then [stamp n ev] else []) @ map (stamp n) (filter (to_gateway stg g) evs)) =
      (\<lambda>g. map (stamp n) (filter (to_gateway stg g) (ev # evs)))" by (simp add: fun_eq_iff)
  moreover have "(if to_md ev then [stamp n ev] else []) @ map (stamp n) (filter to_md evs) = map (stamp n) (filter to_md (ev # evs))" by simp
  ultimately show ?case using routed_trans [OF x1(2) x2(2)] x1(1) x2(1) by auto
qed auto

section \<open>The process\<close>

definition proc_inv :: "EngineProcess \<Rightarrow> bool" where
  "proc_inv p \<longleftrightarrow> core_inv (ep_core p) \<and> ec_events (ep_core p) = [] \<and> region_ok (ep_shared p) \<and>
     (\<forall>s. unat (ep_session_to_gateway p s) < kMaxGateways)"

text \<open>
  \<open>n\<close> bounds what the process has used up: slots of the id maps, which are never rebuilt, exchange
  ids and session ids.
\<close>

definition within :: "nat \<Rightarrow> ExchangeCore \<Rightarrow> bool" where
  "within n c \<longleftrightarrow> fh_used (ec_id_map c) \<le> n \<and> fh_used (ec_reverse_id_map c) \<le> n \<and> unat (ec_next_exchange_id c) \<le> Suc n \<and>
     card {s. ec_active_sessions c s} \<le> n"

definition kMaxMappingsUsed :: nat where "kMaxMappingsUsed = 716"

lemma within_room:
  assumes "core_inv c" "within n c" "n < kMaxMappingsUsed"
  shows "core_room c" "\<exists>sid. sid \<noteq> 0 \<and> \<not> ec_active_sessions c sid"
proof -
  have "unat (ec_next_exchange_id c) \<noteq> unat (- 1 :: u64)"
    using assms(2,3) by (simp add: within_def kMaxMappingsUsed_def unsigned_minus_1_eq_mask mask_eq_exp_minus_1)
  then show "core_room c"
    using assms store_okD(7,8) [OF cinvD(1) [OF assms(1)]]
    by (auto simp: core_room_def within_def fh_full_used kMaxIdMappings_def kMaxMappingsUsed_def)
  show "\<exists>sid. sid \<noteq> 0 \<and> \<not> ec_active_sessions c sid"
  proof (rule ccontr)
    assume "\<not> ?thesis"
    then have "UNIV - {0} \<subseteq> {s. ec_active_sessions c s}" by blast
    then have "card (UNIV - {0 :: u16}) \<le> card {s. ec_active_sessions c s}" by (intro card_mono) simp_all
    then show False using assms(2,3) by (simp add: within_def kMaxMappingsUsed_def card_Diff_singleton card_word)
  qed
qed

lemma within_grown:
  assumes "within n c" "grown c c'"
  shows "within (Suc n) c'"
proof -
  have "unat (ec_next_exchange_id c + 1) \<le> Suc (unat (ec_next_exchange_id c))"
    using unatSuc [of "ec_next_exchange_id c"] by (cases "1 + ec_next_exchange_id c = 0") (simp_all add: add.commute)
  then show ?thesis using assms by (auto simp: within_def grown_def)
qed

text \<open>The requests that use something up, and those with a side that the wire format names.\<close>

definition uses_up :: "OrderRequest \<Rightarrow> bool" where
  "uses_up req \<longleftrightarrow> orq_type req \<in> {ReqNewOrder, ReqModifyOrder, ReqClientConnect}"

definition valid_request :: "OrderRequest \<Rightarrow> bool" where
  "valid_request req \<longleftrightarrow> side_of (orq_side req) \<noteq> kCount"

lemma drain_and_dispatch_ok:
  assumes inv: "core_inv c" and p: "region_ok (ep_shared p)" "\<And>s. unat (ep_session_to_gateway p s) < kMaxGateways"
  shows "\<exists>x'. drain_and_dispatch n (p\<lparr>ep_core := c\<rparr>) = Some (p\<lparr>ep_core := c\<lparr>ec_events := []\<rparr>, ep_shared := x'\<rparr>) \<and>
    proc_inv (p\<lparr>ep_core := c\<lparr>ec_events := []\<rparr>, ep_shared := x'\<rparr>) \<and>
    routed (ep_shared p) (\<lambda>g. map (stamp n) (filter (to_gateway (ep_session_to_gateway p) g) (ec_events c))) (map (stamp n) (filter to_md (ec_events c))) x'"
proof -
  obtain x' where x': "dispatch_events n (ep_session_to_gateway p) (ec_events c) (ep_shared p) = Some x'"
    "routed (ep_shared p) (\<lambda>g. map (stamp n) (filter (to_gateway (ep_session_to_gateway p) g) (ec_events c))) (map (stamp n) (filter to_md (ec_events c))) x'"
    using dispatch_events_ok [OF p(1), of "ep_session_to_gateway p" n "ec_events c"] p(2) by blast
  then have "drain_and_dispatch n (p\<lparr>ep_core := c\<rparr>) = Some (p\<lparr>ep_core := c\<lparr>ec_events := []\<rparr>, ep_shared := x'\<rparr>)"
    by (simp add: drain_and_dispatch_def drain_events_def)
  moreover have "proc_inv (p\<lparr>ep_core := c\<lparr>ec_events := []\<rparr>, ep_shared := x'\<rparr>)" using inv p(2) x'(2) by (simp add: proc_inv_def routed_def)
  ultimately show ?thesis using x'(2) by blast
qed

lemma proc_invD:
  assumes "proc_inv p"
  shows "core_inv (ep_core p)" "ec_events (ep_core p) = []" "region_ok (ep_shared p)" "unat (ep_session_to_gateway p s) < kMaxGateways"
  using assms by (simp_all add: proc_inv_def)

text \<open>A request leaves the request queues and the number of gateways alone.\<close>

definition frame :: "EngineProcess \<Rightarrow> EngineProcess \<Rightarrow> bool" where
  "frame p p' \<longleftrightarrow> sx_request_queues (ep_shared p') = sx_request_queues (ep_shared p) \<and> sx_num_gateways (ep_shared p') = sx_num_gateways (ep_shared p)"

lemma core_request_ok:
  assumes p: "proc_inv p" and c: "core_inv c" "within n c"
  shows "\<exists>p'. drain_and_dispatch k (p\<lparr>ep_core := c\<rparr>) = Some p' \<and> proc_inv p' \<and> within n (ep_core p') \<and> frame p p'"
proof -
  obtain x' where x': "drain_and_dispatch k (p\<lparr>ep_core := c\<rparr>) = Some (p\<lparr>ep_core := c\<lparr>ec_events := []\<rparr>, ep_shared := x'\<rparr>)"
    "proc_inv (p\<lparr>ep_core := c\<lparr>ec_events := []\<rparr>, ep_shared := x'\<rparr>)"
    "routed (ep_shared p) (\<lambda>g. map (stamp k) (filter (to_gateway (ep_session_to_gateway p) g) (ec_events c))) (map (stamp k) (filter to_md (ec_events c))) x'"
    using drain_and_dispatch_ok [OF c(1) proc_invD(3,4) [OF p]] by blast
  then show ?thesis using c(2) by (simp add: frame_def routed_def within_def)
qed

lemma disconnect_within:
  assumes inv: "core_inv c" and w: "within n c"
  shows "\<exists>c'. on_client_disconnect s c = Some c' \<and> core_inv c' \<and> within n c' \<and> ec_events c' = ec_events c \<and>
    ec_active_sessions c' = (if s = 0 then ec_active_sessions c else (ec_active_sessions c)(s := False))"
proof (cases "s = 0")
  case True
  then show ?thesis using assms by (simp add: on_client_disconnect_def)
next
  case False
  obtain c' where c': "on_client_disconnect s c = Some c'" "core_inv c'" "ec_active_sessions c' = (ec_active_sessions c)(s := False)" "ec_events c' = ec_events c"
    "ec_next_exchange_id c' = ec_next_exchange_id c" "fh_used (ec_id_map c') = fh_used (ec_id_map c)" "fh_used (ec_reverse_id_map c') = fh_used (ec_reverse_id_map c)"
    using on_client_disconnect_ok [OF inv False] by blast
  have "card {t. ec_active_sessions c' t} \<le> card {t. ec_active_sessions c t}" by (rule card_mono) (auto simp: c'(3))
  then have "within n c'" using c'(5-7) w by (simp add: within_def)
  then show ?thesis using c'(1-4) False by simp
qed

lemma connect_ok:
  assumes p: "proc_inv p" and w: "within n (ep_core p)" "n < kMaxMappingsUsed" and t: "orq_type req = ReqClientConnect"
    and gw: "unat (orq_gateway_id req) < unat (sx_num_gateways (ep_shared p))"
  shows "\<exists>p'. process_request req p = Some p' \<and> proc_inv p' \<and> within (Suc n) (ep_core p') \<and> frame p p'"
proof -
  note inv = proc_invD(1) [OF p]
  let ?c = "ep_core p" and ?g = "orq_gateway_id req"
  obtain sid c1 where r: "on_client_connect ?c = Some (sid, c1)"
    using on_client_connect_ok(1) [of ?c] within_room(2) [OF inv w] by (cases "on_client_connect ?c") auto
  note s = on_client_connect_ok(2) [OF r]
  have c1: "core_inv c1" "ec_events c1 = []" using s inv proc_invD(2) [OF p] by simp_all
  have "{t. ec_active_sessions c1 t} = insert sid {t. ec_active_sessions ?c t}" using s by auto
  then have "card {t. ec_active_sessions c1 t} \<le> Suc (card {t. ec_active_sessions ?c t})" by (simp add: card_insert_if)
  moreover have "ec_id_map c1 = ec_id_map ?c" "ec_reverse_id_map c1 = ec_reverse_id_map ?c" "ec_next_exchange_id c1 = ec_next_exchange_id ?c"
    using s by simp_all
  ultimately have w1: "within (Suc n) c1" using w(1) by (simp add: within_def)
  have g: "unat ?g < kMaxGateways" using gw proc_invD(3) [OF p] by (simp add: region_ok_def)
  let ?ev = "no_event\<lparr>ev_type := EvSessionAssigned, ev_session_id := sid, ev_request_seq := orq_request_seq req, ev_client_order_id := orq_client_order_id req\<rparr>"
  obtain ok x where x: "push_response ?g ?ev (ep_shared p) = Some (ok, x)" "routed (ep_shared p) (\<lambda>h. if h = unat ?g then [?ev] else []) [] x"
    using push_response_ok [OF proc_invD(3) [OF p] g] by blast
  obtain c2 where c2: "on_client_disconnect sid c1 = Some c2" "core_inv c2" "within (Suc n) c2" "ec_events c2 = []"
    using disconnect_within [OF c1(1) w1, of sid] c1(2) by auto
  have fr: "region_ok x" "sx_request_queues x = sx_request_queues (ep_shared p)" "sx_num_gateways x = sx_num_gateways (ep_shared p)"
    using x(2) by (simp_all add: routed_def)
  show ?thesis
    using t gw r x(1) c2 c1 w1 fr g proc_invD(4) [OF p]
    by (cases ok) (simp_all add: process_request_def proc_inv_def frame_def Let_def kMaxGateways_def)
qed

lemma process_request_ok:
  assumes p: "proc_inv p" and w: "within n (ep_core p)" and room: "uses_up req \<Longrightarrow> n < kMaxMappingsUsed" and v: "valid_request req"
  shows "\<exists>p'. process_request req p = Some p' \<and> proc_inv p' \<and> within (if uses_up req then Suc n else n) (ep_core p') \<and> frame p p'"
proof (cases "unat (orq_gateway_id req) < unat (sx_num_gateways (ep_shared p))")
  case False
  then show ?thesis using p w by (auto simp: process_request_def frame_def within_def)
next
  case gw: True
  note inv = proc_invD(1) [OF p]
  have len: "length (ec_events (ep_core p)) + 257 \<le> kMaxEvents" "length (ec_events (ep_core p)) < kMaxEvents"
    using proc_invD(2) [OF p] by (simp_all add: kMaxEvents_def)
  show ?thesis
  proof (cases "orq_type req")
    case ReqNewOrder
    let ?o = "\<lparr>no_client_order_id = orq_client_order_id req, no_symbol_id = orq_symbol_id req, no_side = orq_side req,
        no_price = orq_price req, no_qty = orq_qty req, no_send_ts = orq_send_ts req\<rparr>"
    obtain c where c: "core_submit_order (orq_session_id req) ?o (ep_core p) = Some c" "core_inv c" "grown (ep_core p) c"
      using core_submit_total [OF inv within_room(1) [OF inv w], of ?o "orq_session_id req"] len(1) v room ReqNewOrder by (auto simp: valid_request_def uses_up_def)
    show ?thesis using core_request_ok [OF p c(2) within_grown [OF w c(3)], of "orq_request_seq req"] c(1) gw ReqNewOrder
      by (simp add: process_request_def uses_up_def)
  next
    case ReqCancelOrder
    let ?o = "\<lparr>co_client_order_id = orq_client_order_id req, co_symbol_id = orq_symbol_id req, co_send_ts = orq_send_ts req\<rparr>"
    obtain c where c: "core_cancel_order (orq_session_id req) ?o (ep_core p) = Some c" "core_inv c" "ec_active_sessions c = ec_active_sessions (ep_core p)"
      "ec_next_exchange_id c = ec_next_exchange_id (ep_core p)" "fh_used (ec_id_map c) = fh_used (ec_id_map (ep_core p))"
      "fh_used (ec_reverse_id_map c) = fh_used (ec_reverse_id_map (ep_core p))"
      using core_cancel_ok [OF inv len(2), of "orq_session_id req" ?o] by blast
    then have "within n c" using w by (simp add: within_def)
    then show ?thesis using core_request_ok [OF p c(2), of n "orq_request_seq req"] c(1) gw ReqCancelOrder
      by (simp add: process_request_def uses_up_def)
  next
    case ReqModifyOrder
    let ?o = "\<lparr>mo_client_order_id = orq_client_order_id req, mo_symbol_id = orq_symbol_id req, mo_new_price = orq_new_price req,
        mo_new_qty = orq_new_qty req, mo_send_ts = orq_send_ts req\<rparr>"
    obtain c where c: "core_modify_order (orq_session_id req) ?o (ep_core p) = Some c" "core_inv c" "grown (ep_core p) c"
      using core_modify_total [OF inv within_room(1) [OF inv w] len(1), of "orq_session_id req" ?o] room ReqModifyOrder by (auto simp: uses_up_def)
    show ?thesis using core_request_ok [OF p c(2) within_grown [OF w c(3)], of "orq_request_seq req"] c(1) gw ReqModifyOrder
      by (simp add: process_request_def uses_up_def)
  next
    case ReqClientConnect
    then show ?thesis using connect_ok [OF p w _ ReqClientConnect gw] room by (simp add: uses_up_def)
  next
    case ReqClientDisconnect
    obtain c where c: "on_client_disconnect (orq_session_id req) (ep_core p) = Some c" "core_inv c" "within n c" "ec_events c = []"
      using disconnect_within [OF inv w, of "orq_session_id req"] proc_invD(2) [OF p] by auto
    then show ?thesis using p gw ReqClientDisconnect by (simp add: process_request_def uses_up_def proc_inv_def frame_def)
  qed
qed

end
