(* ===== verification/ExchangeRuns.thy ===== *)
theory ExchangeRuns
  imports ExchangeEngineInv
begin

text \<open>
  Executions of the exchange: start-up, gateways that push requests and take responses, the
  publisher that takes events, and the engine that polls, in any order.
\<close>

section \<open>Start-up\<close>

lemma valid_capacities: "hm_is_valid_capacity kMaxIdMappings" "hm_is_valid_capacity kMaxSeenOrders"
  unfolding hm_is_valid_capacity_def is_power_of_two_iff
  by (auto simp: kMaxIdMappings_def kMaxSeenOrders_def intro: exI [of _ 10] exI [of _ 14])

text \<open>A coordinator that has not seen a request.\<close>

definition fresh_core :: "ExchangeCore \<Rightarrow> bool" where
  "fresh_core c \<longleftrightarrow> core_inv c \<and> within 0 c \<and> ec_events c = [] \<and> fh_lookup (ec_seen_orders c) = Map.empty \<and>
     fh_lookup (ec_id_map c) = Map.empty \<and> fh_lookup (ec_reverse_id_map c) = Map.empty \<and> live c = (\<lambda>_ _. {})"

lemma ExchangeCore_init_fresh:
  assumes "MaxSymbols < 2 ^ 32"
  shows "fresh_core (ExchangeCore_init MaxSymbols)"
proof -
  have idx: "symbol_index (ExchangeCore_init MaxSymbols) sm = None" for sm
  proof (cases "sm = 0 \<or> unat sm > MaxSymbols")
    case False
    then have "unat sm \<noteq> 0" by (simp add: unat_eq_0)
    then have "unat (sm - 1) < MaxSymbols" using False unat_minus_one [of sm] by auto
    then show ?thesis by (simp add: symbol_index_def ExchangeCore_init_def)
  qed (auto simp: symbol_index_def ExchangeCore_init_def)
  then have live: "live (ExchangeCore_init MaxSymbols) = (\<lambda>_ _. {})" by (simp add: live_def fun_eq_iff)
  have "store_ok (ExchangeCore_init MaxSymbols)"
    using assms by (auto simp: store_ok_def ExchangeCore_init_def slot_ok_def fh_default_inv valid_capacities)
  then show ?thesis
    using live by (auto simp: fresh_core_def cinv_def maps_ok_def within_def fh_default_inv valid_capacities ExchangeCore_init_def)
qed

lemma register_symbol_fresh:
  assumes c: "fresh_core c" and sm: "sm \<noteq> 0" "unat sm \<le> length (ec_symbols c)"
    and buf: "valid_params params" "valid_raw params raw" "buf \<noteq> 0" "ob_required_buffer_size params \<le> buf_bytes" "unat buf + unat buf_bytes + 8 \<le> 2 ^ 64"
  shows "\<exists>c'. register_symbol sm buf buf_bytes params raw c = Some c' \<and> fresh_core c' \<and> length (ec_symbols c') = length (ec_symbols c) \<and>
    symbol_index c' sm = Some (unat (sm - 1)) \<and> (\<forall>t. t \<noteq> sm \<longrightarrow> symbol_index c' t = symbol_index c t)"
proof -
  obtain b where b: "ob_create buf buf_bytes params raw = Some (Some b)" "book_inv (par_max_orders params) (par_max_levels params) b" "book_abs b = (\<lambda>s. [])"
    by (rule ob_create_ok [OF buf]) blast
  let ?i = "unat (sm - 1)"
  let ?c = "c\<lparr>ec_symbols := (ec_symbols c)[?i := \<lparr>sl_engine = engine_of b, sl_active = True\<rparr>]\<rparr>"
  have "unat sm \<noteq> 0" using sm(1) by (simp add: unat_eq_0)
  then have i: "?i < length (ec_symbols c)" using sm unat_minus_one [of sm] by auto
  have reg: "register_symbol sm buf buf_bytes params raw c = Some ?c"
    using sm b(1) by (simp add: register_symbol_def engine_create_def)
  have idx: "symbol_index ?c sm = Some ?i" using sm i by (simp add: symbol_index_def Let_def)
  have other: "symbol_index ?c t = symbol_index c t" if "t \<noteq> sm" for t
  proof -
    have "unat (t - 1) \<noteq> ?i" using that by (simp add: word_unat_eq_iff [symmetric])
    then show ?thesis by (simp add: symbol_index_def Let_def)
  qed
  have new: "resting (engine_of b) s = {}" for s using b(3) by (simp add: resting_def engine_of_def a_flat_def)
  have old: "resting (sl_engine (ec_symbols c ! k)) s = {}" if "symbol_index c t = Some k" for t k s
    using c live_at [OF that, of s] by (simp add: fresh_core_def)
  have live: "live ?c = (\<lambda>_ _. {})"
  proof (intro ext)
    fix t s
    show "live ?c t s = {}"
      using idx other [of t] i new old [of t] by (cases "t = sm") (auto simp: live_def nth_list_update split: option.splits)
  qed
  let ?slot = "\<lparr>sl_engine = engine_of b, sl_active = True\<rparr>"
  have "slot_ok ?slot" using b(2) by (auto simp: slot_ok_def engine_of_def)
  then have "\<forall>slot \<in> set (ec_symbols ?c). slot_ok slot"
    using c set_update_subset_insert [of "ec_symbols c" ?i ?slot] by (auto simp: fresh_core_def cinv_def store_ok_def)
  then have "store_ok ?c" using c by (simp add: fresh_core_def cinv_def store_ok_def)
  then have "fresh_core ?c" using c live by (simp add: fresh_core_def cinv_def within_def maps_ok_def)
  then show ?thesis using reg idx other by simp
qed

lemma clamp_gateways: "unat (max 1 (min k (of_nat kMaxGateways)) :: u32) \<le> kMaxGateways"
proof -
  have "max 1 (min k (of_nat kMaxGateways)) \<le> (of_nat kMaxGateways :: u32)" unfolding kMaxGateways_def by (intro max.boundedI) simp_all
  then have "unat (max 1 (min k (of_nat kMaxGateways)) :: u32) \<le> unat (of_nat kMaxGateways :: u32)" by (rule word_le_nat_alt [THEN iffD1])
  also have "\<dots> = kMaxGateways" by (simp add: kMaxGateways_def)
  finally show ?thesis .
qed

lemma engine_start_ok:
  assumes "fresh_core c"
  shows "proc_inv (engine_start k c)" "within 0 (ep_core (engine_start k c))" "g < kMaxGateways \<Longrightarrow> requests (ep_shared (engine_start k c)) g = []"
proof -
  have "region_ok (SharedExchangeRegion_init\<lparr>sx_num_gateways := max 1 (min k (of_nat kMaxGateways))\<rparr>)"
    using clamp_gateways [of k] by (simp add: region_ok_def SharedExchangeRegion_init_def queue_init set_replicate_conv_if)
  moreover have "0 < kMaxGateways" by (simp add: kMaxGateways_def)
  ultimately show "proc_inv (engine_start k c)" using assms by (simp add: proc_inv_def engine_start_def fresh_core_def)
  show "within 0 (ep_core (engine_start k c))" using assms by (simp add: fresh_core_def engine_start_def)
  show "g < kMaxGateways \<Longrightarrow> requests (ep_shared (engine_start k c)) g = []"
    by (simp add: requests_def engine_start_def SharedExchangeRegion_init_def queue_init)
qed

section \<open>Executions\<close>

text \<open>The other sides of the queues: a gateway pushes a request or takes a response, the publisher takes an event.\<close>

definition push_request :: "nat \<Rightarrow> OrderRequest \<Rightarrow> EngineProcess \<Rightarrow> EngineProcess outcome" where
  "push_request g req p = do {
     q \<leftarrow> arr_get (sx_request_queues (ep_shared p)) g;
     (_, q) \<leftarrow> fq_try_push q req;
     Some (p\<lparr>ep_shared := (ep_shared p)\<lparr>sx_request_queues := (sx_request_queues (ep_shared p))[g := q]\<rparr>\<rparr>)
   }"

definition pop_response :: "nat \<Rightarrow> EngineProcess \<Rightarrow> EngineProcess outcome" where
  "pop_response g p = do {
     q \<leftarrow> arr_get (sx_response_queues (ep_shared p)) g;
     (_, q) \<leftarrow> fq_try_pop q;
     Some (p\<lparr>ep_shared := (ep_shared p)\<lparr>sx_response_queues := (sx_response_queues (ep_shared p))[g := q]\<rparr>\<rparr>)
   }"

definition pop_md :: "EngineProcess \<Rightarrow> EngineProcess outcome" where
  "pop_md p = do {
     (_, q) \<leftarrow> fq_try_pop (sx_md_event_queue (ep_shared p));
     Some (p\<lparr>ep_shared := (ep_shared p)\<lparr>sx_md_event_queue := q\<rparr>\<rparr>)
   }"

text \<open>What polling a gateway will use up.\<close>

definition next_use :: "nat \<Rightarrow> EngineProcess \<Rightarrow> nat" where
  "next_use g p = (case requests (ep_shared p) g of [] \<Rightarrow> 0 | req # _ \<Rightarrow> if uses_up req then 1 else 0)"

inductive exchange_runs :: "EngineProcess \<Rightarrow> nat \<Rightarrow> EngineProcess \<Rightarrow> bool" for p0 where
  start: "exchange_runs p0 0 p0"
| request: "exchange_runs p0 n p \<Longrightarrow> g < kMaxGateways \<Longrightarrow> valid_request req \<Longrightarrow> push_request g req p = Some p' \<Longrightarrow> exchange_runs p0 n p'"
| respond: "exchange_runs p0 n p \<Longrightarrow> g < kMaxGateways \<Longrightarrow> pop_response g p = Some p' \<Longrightarrow> exchange_runs p0 n p'"
| publish: "exchange_runs p0 n p \<Longrightarrow> pop_md p = Some p' \<Longrightarrow> exchange_runs p0 n p'"
| poll: "exchange_runs p0 n p \<Longrightarrow> g < unat (sx_num_gateways (ep_shared p)) \<Longrightarrow> poll_gateway g p = Some p' \<Longrightarrow>
    exchange_runs p0 (n + next_use g p) p'"

definition queued_valid :: "EngineProcess \<Rightarrow> bool" where
  "queued_valid p \<longleftrightarrow> (\<forall>g < kMaxGateways. \<forall>req \<in> set (requests (ep_shared p) g). valid_request req)"

definition run_inv :: "nat \<Rightarrow> EngineProcess \<Rightarrow> bool" where
  "run_inv n p \<longleftrightarrow> proc_inv p \<and> within n (ep_core p) \<and> queued_valid p"

lemma request_queue_set:
  assumes p: "proc_inv p" and g: "g < kMaxGateways" and q: "queue_ok q"
  defines "p' \<equiv> p\<lparr>ep_shared := (ep_shared p)\<lparr>sx_request_queues := (sx_request_queues (ep_shared p))[g := q]\<rparr>\<rparr>"
  shows "proc_inv p'" "requests (ep_shared p') h = (if h = g then fq_items q else requests (ep_shared p) h)"
proof -
  let ?qs = "sx_request_queues (ep_shared p)"
  have len: "length ?qs = kMaxGateways" using proc_invD(3) [OF p] by (simp add: region_ok_def)
  have "region_ok (ep_shared p')"
    using proc_invD(3) [OF p] q set_update_subset_insert [of ?qs g q] by (auto simp: region_ok_def p'_def)
  then show "proc_inv p'" using p by (simp add: proc_inv_def p'_def)
  show "requests (ep_shared p') h = (if h = g then fq_items q else requests (ep_shared p) h)"
    using g len by (simp add: requests_def p'_def nth_list_update)
qed

lemma request_queue_at: "proc_inv p \<Longrightarrow> g < kMaxGateways \<Longrightarrow> g < length (sx_request_queues (ep_shared p)) \<and> queue_ok (sx_request_queues (ep_shared p) ! g)"
  using proc_invD(3) [of p] by (simp add: region_ok_def)

lemma push_request_inv:
  assumes inv: "run_inv n p" and g: "g < kMaxGateways" and v: "valid_request req" and r: "push_request g req p = Some p'"
  shows "run_inv n p'"
proof -
  have p: "proc_inv p" "queued_valid p" "within n (ep_core p)" using inv by (simp_all add: run_inv_def)
  let ?q = "sx_request_queues (ep_shared p) ! g"
  note at = request_queue_at [OF p(1) g]
  obtain q where q: "fq_try_push ?q req = Some (length (fq_items ?q) < kExchangeQueueCapacity, q)" "queue_ok q" "fq_items q = offered (fq_items ?q) [req]"
    by (rule queue_push [OF conjunct2 [OF at]])
  have p': "p' = p\<lparr>ep_shared := (ep_shared p)\<lparr>sx_request_queues := (sx_request_queues (ep_shared p))[g := q]\<rparr>\<rparr>"
    using r q(1) at by (simp add: push_request_def arr_get_def)
  have "\<forall>r \<in> set (fq_items q). valid_request r" using p(2) g v q(3) by (auto simp: queued_valid_def requests_def offer_one)
  then have "queued_valid p'" using p(2) request_queue_set(2) [OF p(1) g q(2)] by (simp add: queued_valid_def p')
  then show ?thesis using request_queue_set(1) [OF p(1) g q(2)] p(3) by (simp add: run_inv_def p')
qed

lemma pop_response_inv:
  assumes inv: "run_inv n p" and g: "g < kMaxGateways" and r: "pop_response g p = Some p'"
  shows "run_inv n p'"
proof -
  have p: "proc_inv p" "queued_valid p" "within n (ep_core p)" using inv by (simp_all add: run_inv_def)
  let ?qs = "sx_response_queues (ep_shared p)"
  have at: "g < length ?qs" "queue_ok (?qs ! g)" using proc_invD(3) [OF p(1)] g by (simp_all add: region_ok_def)
  obtain v q where q: "fq_try_pop (?qs ! g) = Some (v, q)" "queue_ok q" by (rule queue_pop [OF at(2)])
  have p': "p' = p\<lparr>ep_shared := (ep_shared p)\<lparr>sx_response_queues := ?qs[g := q]\<rparr>\<rparr>"
    using r q(1) at by (simp add: pop_response_def arr_get_def)
  have "region_ok (ep_shared p')" using proc_invD(3) [OF p(1)] q(2) set_update_subset_insert [of ?qs g q] by (auto simp: region_ok_def p')
  then show ?thesis using p by (simp add: run_inv_def proc_inv_def queued_valid_def requests_def p')
qed

lemma pop_md_inv:
  assumes inv: "run_inv n p" and r: "pop_md p = Some p'"
  shows "run_inv n p'"
proof -
  have p: "proc_inv p" "queued_valid p" "within n (ep_core p)" using inv by (simp_all add: run_inv_def)
  have at: "queue_ok (sx_md_event_queue (ep_shared p))" using proc_invD(3) [OF p(1)] by (simp add: region_ok_def)
  obtain v q where q: "fq_try_pop (sx_md_event_queue (ep_shared p)) = Some (v, q)" "queue_ok q" by (rule queue_pop [OF at])
  have p': "p' = p\<lparr>ep_shared := (ep_shared p)\<lparr>sx_md_event_queue := q\<rparr>\<rparr>" using r q(1) by (simp add: pop_md_def)
  have "region_ok (ep_shared p')" using proc_invD(3) [OF p(1)] q(2) by (simp add: region_ok_def p')
  then show ?thesis using p by (simp add: run_inv_def proc_inv_def queued_valid_def requests_def p')
qed

text \<open>A poll succeeds and keeps the invariant.\<close>

lemma poll_gateway_ok:
  assumes inv: "run_inv n p" and g: "g < unat (sx_num_gateways (ep_shared p))" and room: "n + next_use g p \<le> kMaxMappingsUsed"
  shows "\<exists>p'. poll_gateway g p = Some p' \<and> run_inv (n + next_use g p) p' \<and> sx_num_gateways (ep_shared p') = sx_num_gateways (ep_shared p)"
proof -
  have p: "proc_inv p" "queued_valid p" "within n (ep_core p)" using inv by (simp_all add: run_inv_def)
  have g': "g < kMaxGateways" using g proc_invD(3) [OF p(1)] by (simp add: region_ok_def)
  let ?q = "sx_request_queues (ep_shared p) ! g"
  note at = request_queue_at [OF p(1) g']
  obtain q where q: "fq_try_pop ?q = Some (if fq_items ?q = [] then None else Some (hd (fq_items ?q)), q)" "queue_ok q" "fq_items q = tl (fq_items ?q)"
    by (rule queue_pop [OF conjunct2 [OF at]])
  let ?p = "p\<lparr>ep_shared := (ep_shared p)\<lparr>sx_request_queues := (sx_request_queues (ep_shared p))[g := q]\<rparr>\<rparr>"
  note set = request_queue_set [OF p(1) g' q(2)]
  have "\<forall>r \<in> set (fq_items q). valid_request r" using p(2) g' q(3) by (cases "fq_items ?q") (auto simp: queued_valid_def requests_def)
  then have qv: "queued_valid ?p" using p(2) set(2) by (simp add: queued_valid_def)
  show ?thesis
  proof (cases "fq_items ?q")
    case Nil
    then show ?thesis using q(1) at set(1) qv p(3) by (simp add: poll_gateway_def arr_get_def run_inv_def next_use_def requests_def Let_def)
  next
    case (Cons req reqs)
    have v: "valid_request req" using p(2) g' Cons by (auto simp: queued_valid_def requests_def)
    have nu: "next_use g p = (if uses_up req then 1 else 0)" using Cons by (simp add: next_use_def requests_def)
    obtain p' where p': "process_request req ?p = Some p'" "proc_inv p'" "within (if uses_up req then Suc n else n) (ep_core p')" "frame ?p p'"
      using process_request_ok [OF set(1), of n req] p(3) v room nu by (cases "uses_up req") auto
    have "queued_valid p'" using qv p'(4) by (simp add: queued_valid_def requests_def frame_def)
    then show ?thesis using p' q(1) at Cons nu by (auto simp: poll_gateway_def arr_get_def run_inv_def Let_def frame_def)
  qed
qed

lemma exchange_runs_inv:
  assumes "exchange_runs p0 n p" "run_inv 0 p0" "n \<le> kMaxMappingsUsed"
  shows "run_inv n p"
  using assms
proof (induction rule: exchange_runs.induct)
  case (poll n p g p')
  then have "run_inv n p" by simp
  then show ?case using poll_gateway_ok [of n p g] poll by auto
qed (auto intro: push_request_inv pop_response_inv pop_md_inv)

end
