(* ===== verification/ExchangeDemo.thy ===== *)
theory ExchangeDemo
  imports ExchangeRuns
begin

text \<open>A small exchange with one registered symbol and one resting order, on which the properties are instantiated.\<close>

definition demo_core :: ExchangeCore where
  "demo_core = (case register_symbol 1 4096 2048 sample_params sample_raw (ExchangeCore_init 2) of Some c \<Rightarrow> c | None \<Rightarrow> ExchangeCore_init 2)"

lemma demo_core_fresh: "fresh_core demo_core" "symbol_index demo_core 1 = Some 0" "sl_engine (ec_symbols demo_core ! 0) = engine_of sample_book"
  "ec_next_exchange_id demo_core = 1" "ec_seen_orders demo_core = fh_default default_hash 0 False kMaxSeenOrders"
proof -
  have "fresh_core (ExchangeCore_init 2)" "length (ec_symbols (ExchangeCore_init 2)) = 2"
    using ExchangeCore_init_fresh [of 2] by (simp_all add: ExchangeCore_init_def)
  then obtain c where c: "register_symbol 1 4096 2048 sample_params sample_raw (ExchangeCore_init 2) = Some c" "fresh_core c"
    "symbol_index c 1 = Some (unat ((1 :: u32) - 1))"
    using register_symbol_fresh [of "ExchangeCore_init 2" 1 sample_params sample_raw 4096 2048] sample_params_valid sample_fits by auto
  obtain b where b: "ob_create 4096 2048 sample_params sample_raw = Some (Some b)"
    by (rule ob_create_ok [OF sample_params_valid _ sample_fits, of 4096]) simp_all
  then have "sample_book = b" by (simp add: sample_book_def)
  then have "c = (ExchangeCore_init 2)\<lparr>ec_symbols := (ec_symbols (ExchangeCore_init 2))[0 := \<lparr>sl_engine = engine_of sample_book, sl_active = True\<rparr>]\<rparr>"
    using c(1) b by (auto simp: register_symbol_def engine_create_def split: if_splits)
  then show "fresh_core demo_core" "symbol_index demo_core 1 = Some 0" "sl_engine (ec_symbols demo_core ! 0) = engine_of sample_book"
    "ec_next_exchange_id demo_core = 1" "ec_seen_orders demo_core = fh_default default_hash 0 False kMaxSeenOrders"
    using c by (simp_all add: demo_core_def ExchangeCore_init_def)
qed

text \<open>On an empty book with room the order rests.\<close>

lemma demo_rests:
  obtains r e where "submit_order (engine_of sample_book) 1 kBid 100 5 = Some (r, e)" "mr_rested r" "mr_fills r = []"
proof -
  let ?b = sample_book
  have inv: "book_inv 4 4 ?b" "book_abs ?b = (\<lambda>s. [])" by (rule sample_book_inv)+
  have lad: "opposite_ladder kBid ?b = []"
    using fun_cong [OF inv(2), of kAsk] by (simp add: opposite_ladder_view opp_def book_abs_def v_abs_def)
  obtain r b' where r: "add_order ?b 1 kBid 100 5 = Some (r, b')" "\<not> r \<Longrightarrow> a_orders (book_abs ?b) 1 \<noteq> None \<or> no_room 4 4 ?b kBid 100"
    by (rule add_order_ok [OF inv(1), of kBid 1 100 5]) auto
  have "a_orders (book_abs ?b) 1 = None" by (simp add: inv(2) a_orders_def)
  then have "r" "has_order ?b 1 = Some False" using r(2) sample_book_inv(3) [of kBid 100] has_order_ok [OF inv(1), of 1] by auto
  then show thesis using that r(1) lad by (auto simp: submit_order_def engine_of_def match_loop.simps Let_def rest_order_def)
qed

definition demo_order :: OrderRequest where
  "demo_order = no_request\<lparr>orq_session_id := 1, orq_client_order_id := 7, orq_symbol_id := 1, orq_price := 100, orq_qty := 5, orq_request_seq := 3\<rparr>"

definition demo_new :: NewOrder where
  "demo_new = \<lparr>no_client_order_id = 7, no_symbol_id = 1, no_side = 0, no_price = 100, no_qty = 5, no_send_ts = 0\<rparr>"

lemma demo_order_valid: "valid_request demo_order" "uses_up demo_order"
  by (simp_all add: demo_order_def no_request_def valid_request_def uses_up_def side_of_def)

lemma demo_admissible:
  "core_inv demo_core" "core_room demo_core" "ec_events demo_core = []" "submit_refusal 1 demo_new demo_core = None"
  "symbol_index demo_core (no_symbol_id demo_new) = Some 0" "\<not> fh_full (ec_seen_orders demo_core)" "side_of (no_side demo_new) \<noteq> kCount"
  "fh_lookup (ec_seen_orders demo_core) = Map.empty" "fh_lookup (ec_id_map demo_core) = Map.empty" "fh_lookup (ec_reverse_id_map demo_core) = Map.empty"
proof -
  note f = demo_core_fresh(1) [unfolded fresh_core_def]
  show inv: "core_inv demo_core" "ec_events demo_core = []" "fh_lookup (ec_seen_orders demo_core) = Map.empty"
    "fh_lookup (ec_id_map demo_core) = Map.empty" "fh_lookup (ec_reverse_id_map demo_core) = Map.empty" using f by simp_all
  show "core_room demo_core" using within_room(1) [OF inv(1), of 0] f by (simp add: kMaxMappingsUsed_def)
  show "submit_refusal 1 demo_new demo_core = None" "symbol_index demo_core (no_symbol_id demo_new) = Some 0" "side_of (no_side demo_new) \<noteq> kCount"
    using inv(3) demo_core_fresh(2) by (simp_all add: submit_refusal_def demo_new_def kMaxClientOrderId_def side_of_def)
  show "\<not> fh_full (ec_seen_orders demo_core)" by (simp add: fh_full_used kMaxSeenOrders_def demo_core_fresh(5))
qed

text \<open>The coordinator after the order, which rests with exchange id 1.\<close>

definition demo_core1 :: ExchangeCore where
  "demo_core1 = (case core_submit_order 1 demo_new demo_core of Some c \<Rightarrow> c\<lparr>ec_events := []\<rparr> | None \<Rightarrow> demo_core)"

lemma demo_submitted:
  obtains c where "core_submit_order 1 demo_new demo_core = Some c" "core_inv c" "1 \<in> live c 1 kBid" "symbol_index c 1 = Some 0"
    "fh_lookup (ec_id_map c) (ckey 1 7) = Some \<lparr>ie_exchange_id = 1, ie_side = kBid, ie_symbol_id = 1\<rparr>" "grown demo_core c"
    "fh_lookup (ec_seen_orders c) = [ckey 1 7 \<mapsto> True]" "\<not> fh_full (ec_seen_orders c)"
proof -
  have len: "length (ec_events demo_core) + 257 \<le> kMaxEvents" using demo_admissible(3) by (simp add: kMaxEvents_def)
  have none: "fh_lookup (ec_seen_orders demo_core) (ckey 1 (no_client_order_id demo_new)) = None" by (simp add: demo_admissible(8))
  obtain m where m: "fh_insert (ec_seen_orders demo_core) (ckey 1 (no_client_order_id demo_new)) True = Some (True, m)"
    "fh_lookup m = (fh_lookup (ec_seen_orders demo_core))(ckey 1 (no_client_order_id demo_new) \<mapsto> True)"
    "fh_used m \<le> Suc (fh_used (ec_seen_orders demo_core))" "fh_capacity m = fh_capacity (ec_seen_orders demo_core)"
    by (rule fh_insertE [OF store_okD(2) [OF cinvD(1) [OF demo_admissible(1)]] none demo_admissible(6), where v = True])
  obtain r e where r: "submit_order (engine_of sample_book) 1 kBid 100 5 = Some (r, e)" "mr_rested r" by (rule demo_rests)
  obtain r' e' c where c: "submit_order (sl_engine (ec_symbols demo_core ! 0)) (ec_next_exchange_id demo_core) (side_of (no_side demo_new)) (no_price demo_new) (no_qty demo_new) = Some (r', e')"
    "core_submit_order 1 demo_new demo_core = Some c" "core_inv c" "grown demo_core c" "ec_symbols c = ec_symbols (set_engine 0 e' demo_core)" "ec_seen_orders c = m"
    "mr_rested r' \<Longrightarrow> fh_lookup (ec_id_map c) (ckey 1 (no_client_order_id demo_new)) = Some (submit_entry demo_new (ec_next_exchange_id demo_core))"
    by (rule core_submit_run [OF demo_admissible(1,2,7) len demo_admissible(4,5) m(1)]) blast
  have "r' = r" using c(1) r(1) by (simp add: demo_core_fresh demo_new_def side_of_def)
  then have f: "fh_lookup (ec_id_map c) (ckey 1 7) = Some \<lparr>ie_exchange_id = 1, ie_side = kBid, ie_symbol_id = 1\<rparr>"
    using c(7) r(2) by (simp add: submit_entry_def demo_new_def demo_core_fresh(4) side_of_def)
  have "symbol_index c = symbol_index demo_core" using symbol_index_symbols [OF c(5)] by simp
  moreover have "\<not> fh_full m" using m(3,4) by (simp add: fh_full_used kMaxSeenOrders_def demo_core_fresh(5))
  moreover have "fh_lookup m = [ckey 1 7 \<mapsto> True]" using m(2) by (simp add: demo_admissible(8) demo_new_def)
  ultimately show thesis using that [OF c(2,3) _ _ f c(4)] c(6) target_live(1) [OF c(3) f] demo_core_fresh(2) by simp
qed

lemma demo_core1_ok:
  "core_inv demo_core1" "ec_events demo_core1 = []" "1 \<in> live demo_core1 1 kBid" "symbol_index demo_core1 1 = Some 0" "core_room demo_core1"
  "fh_lookup (ec_id_map demo_core1) (ckey 1 7) = Some \<lparr>ie_exchange_id = 1, ie_side = kBid, ie_symbol_id = 1\<rparr>"
  "fh_lookup (ec_seen_orders demo_core1) = [ckey 1 7 \<mapsto> True]" "\<not> fh_full (ec_seen_orders demo_core1)"
proof -
  obtain c where c: "core_submit_order 1 demo_new demo_core = Some c" "core_inv c" "1 \<in> live c 1 kBid" "symbol_index c 1 = Some 0"
    "fh_lookup (ec_id_map c) (ckey 1 7) = Some \<lparr>ie_exchange_id = 1, ie_side = kBid, ie_symbol_id = 1\<rparr>" "grown demo_core c"
    "fh_lookup (ec_seen_orders c) = [ckey 1 7 \<mapsto> True]" "\<not> fh_full (ec_seen_orders c)" by (rule demo_submitted)
  then have d: "demo_core1 = c\<lparr>ec_events := []\<rparr>" by (simp add: demo_core1_def)
  show "core_inv demo_core1" "ec_events demo_core1 = []" "1 \<in> live demo_core1 1 kBid" "symbol_index demo_core1 1 = Some 0"
    "fh_lookup (ec_id_map demo_core1) (ckey 1 7) = Some \<lparr>ie_exchange_id = 1, ie_side = kBid, ie_symbol_id = 1\<rparr>"
    "fh_lookup (ec_seen_orders demo_core1) = [ckey 1 7 \<mapsto> True]" "\<not> fh_full (ec_seen_orders demo_core1)"
    using c(2-5,7,8) by (simp_all add: d)
  have "within 0 demo_core" using demo_core_fresh(1) by (simp add: fresh_core_def)
  then have "within 1 demo_core1" using within_grown [OF _ c(6)] by (simp add: d within_def)
  then show "core_room demo_core1" using within_room(1) [of demo_core1 1] \<open>core_inv demo_core1\<close> by (simp add: kMaxMappingsUsed_def)
qed

lemma demo_start: "run_inv 0 (engine_start 2 demo_core)" "unat (sx_num_gateways (ep_shared (engine_start 2 demo_core))) = 2"
  using engine_start_ok [OF demo_core_fresh(1)] by (auto simp: run_inv_def queued_valid_def) (simp add: engine_start_def kMaxGateways_def)

lemma demo_pushed:
  obtains p where "push_request 0 demo_order (engine_start 2 demo_core) = Some p" "exchange_runs (engine_start 2 demo_core) 0 p"
    "requests (ep_shared p) 0 = [demo_order]" "ep_core p = demo_core" "unat (sx_num_gateways (ep_shared p)) = 2"
proof -
  let ?p = "engine_start 2 demo_core" and ?q = "sx_request_queues (ep_shared (engine_start 2 demo_core)) ! 0"
  have g: "0 < kMaxGateways" by (simp add: kMaxGateways_def)
  have pi: "proc_inv ?p" using demo_start(1) by (simp add: run_inv_def)
  have q: "0 < length (sx_request_queues (ep_shared ?p)) \<and> queue_ok ?q" using request_queue_at [OF pi g] by simp
  obtain b q' where q': "fq_try_push ?q demo_order = Some (b, q')" "queue_ok q'" "fq_items q' = offered (fq_items ?q) [demo_order]" by (rule queue_push [OF conjunct2 [OF q]])
  let ?p' = "?p\<lparr>ep_shared := (ep_shared ?p)\<lparr>sx_request_queues := (sx_request_queues (ep_shared ?p))[0 := q']\<rparr>\<rparr>"
  have r: "push_request 0 demo_order ?p = Some ?p'" using q q'(1) by (simp add: push_request_def arr_get_def)
  have "fq_items ?q = []" using engine_start_ok(3) [OF demo_core_fresh(1) g, of 2] by (simp add: requests_def)
  then have "requests (ep_shared ?p') 0 = [demo_order]" using request_queue_set(2) [OF pi g q'(2)] q'(3) by (simp add: offer_def kExchangeQueueCapacity_def)
  moreover have "ep_core ?p' = demo_core" "unat (sx_num_gateways (ep_shared ?p')) = 2" using demo_start(2) by (simp_all add: engine_start_def)
  ultimately show thesis using that [OF r exchange_runs.request [OF exchange_runs.start g demo_order_valid(1) r]] by blast
qed

lemma demo_run:
  obtains p where "exchange_runs (engine_start 2 demo_core) 1 p" "ep_core p = demo_core1"
proof -
  obtain p where p: "exchange_runs (engine_start 2 demo_core) 0 p" "requests (ep_shared p) 0 = [demo_order]" "ep_core p = demo_core"
    "unat (sx_num_gateways (ep_shared p)) = 2" by (rule demo_pushed)
  have r: "run_inv 0 p" by (rule exchange_runs_inv [OF p(1) demo_start(1)]) simp
  then have pi: "proc_inv p" by (simp add: run_inv_def)
  have g: "0 < kMaxGateways" by (simp add: kMaxGateways_def)
  have q: "0 < length (sx_request_queues (ep_shared p)) \<and> queue_ok (sx_request_queues (ep_shared p) ! 0)" using request_queue_at [OF pi g] by simp
  obtain q' where q': "fq_try_pop (sx_request_queues (ep_shared p) ! 0) = Some (Some demo_order, q')" "queue_ok q'"
    by (rule queue_pop [OF conjunct2 [OF q]]) (use p(2) in \<open>auto simp: requests_def\<close>)
  let ?p1 = "p\<lparr>ep_shared := (ep_shared p)\<lparr>sx_request_queues := (sx_request_queues (ep_shared p))[0 := q']\<rparr>\<rparr>"
  obtain c where c: "core_submit_order 1 demo_new demo_core = Some c" "core_inv c" by (rule demo_submitted)
  have p1: "proc_inv ?p1" by (rule request_queue_set(1) [OF pi g q'(2)])
  obtain x' where "drain_and_dispatch 3 (?p1\<lparr>ep_core := c\<rparr>) = Some (?p1\<lparr>ep_core := c\<lparr>ec_events := []\<rparr>, ep_shared := x'\<rparr>)"
    using drain_and_dispatch_ok [OF c(2) proc_invD(3,4) [OF p1]] by blast
  then have "process_request demo_order ?p1 = Some (?p1\<lparr>ep_core := c\<lparr>ec_events := []\<rparr>, ep_shared := x'\<rparr>)"
    using c(1) p(3,4) by (simp add: process_request_def demo_order_def no_request_def demo_new_def)
  then have poll: "poll_gateway 0 p = Some (?p1\<lparr>ep_core := c\<lparr>ec_events := []\<rparr>, ep_shared := x'\<rparr>)"
    using q q'(1) by (simp add: poll_gateway_def arr_get_def Let_def)
  have "next_use 0 p = 1" using p(2) demo_order_valid(2) by (simp add: next_use_def)
  then have "exchange_runs (engine_start 2 demo_core) 1 (?p1\<lparr>ep_core := c\<lparr>ec_events := []\<rparr>, ep_shared := x'\<rparr>)"
    using exchange_runs.poll [OF p(1) _ poll] p(4) by simp
  then show thesis using that c(1) by (simp add: demo_core1_def)
qed

text \<open>The process with the resting order, and an order of another session that crosses it.\<close>

definition demo_proc :: EngineProcess where
  "demo_proc = (engine_start 2 demo_core)\<lparr>ep_core := demo_core1\<rparr>"

definition demo_sell :: OrderRequest where
  "demo_sell = no_request\<lparr>orq_session_id := 2, orq_client_order_id := 9, orq_symbol_id := 1, orq_side := 1, orq_price := 100, orq_qty := 3, orq_request_seq := 4\<rparr>"

lemma demo_proc_ok: "proc_inv demo_proc" "unat (sx_num_gateways (ep_shared demo_proc)) = 2" "ep_core demo_proc = demo_core1"
  using demo_start demo_core1_ok(1,2) by (simp_all add: demo_proc_def run_inv_def proc_inv_def)

end
