(* ===== verification/ExchangeClaims.thy ===== *)
theory ExchangeClaims
  imports ExchangeDemo
begin

text \<open>Properties of the simulated exchange, from the hash map it keeps its ids in to the running process.\<close>

unbundle bit_operations_syntax

lemma poll_gateways_ok:
  assumes "run_inv n p" "\<forall>g \<in> set gs. g < unat (sx_num_gateways (ep_shared p))" "n + length gs \<le> kMaxMappingsUsed"
  shows "\<exists>p'. poll_gateways gs p = Some p' \<and> proc_inv p'"
  using assms
proof (induction gs arbitrary: n p)
  case Nil
  then show ?case by (simp add: run_inv_def)
next
  case (Cons g gs)
  have u: "next_use g p \<le> 1" by (simp add: next_use_def split: list.split)
  obtain p1 where p1: "poll_gateway g p = Some p1" "run_inv (n + next_use g p) p1" "sx_num_gateways (ep_shared p1) = sx_num_gateways (ep_shared p)"
    using poll_gateway_ok [OF Cons.prems(1), of g] Cons.prems(2,3) u by auto
  have "\<exists>p'. poll_gateways gs p1 = Some p' \<and> proc_inv p'" by (rule Cons.IH [OF p1(2)]) (use Cons.prems(2,3) p1(3) u in auto)
  then show ?case using p1(1) by auto
qed

text \<open>
  C7. The exchange never aborts: from start-up, whatever the order in which gateways push requests
  whose side is a bid or an ask, gateways and publisher take events, and the engine polls, a full round of the engine returns and leaves the
  coordinator, the id maps and the queues well-formed. This holds until new orders, modifies
  and connects have used up the id maps, which are never rebuilt.
\<close>

theorem exchange_never_aborts:
  assumes "fresh_core core" "exchange_runs (engine_start k core) n p" "n + kMaxGateways \<le> kMaxMappingsUsed"
  shows "\<exists>p'. engine_round p = Some p' \<and> proc_inv p'"
proof -
  have "run_inv 0 (engine_start k core)" using engine_start_ok [OF assms(1)] by (auto simp: run_inv_def queued_valid_def)
  then have r: "run_inv n p" using exchange_runs_inv [OF assms(2)] assms(3) by simp
  then have "unat (sx_num_gateways (ep_shared p)) \<le> kMaxGateways" by (simp add: run_inv_def proc_inv_def region_ok_def)
  then show ?thesis unfolding engine_round_def by (intro poll_gateways_ok [OF r]) (use assms(3) in auto)
qed

theorem exchange_never_aborts_witness:
  "\<exists>p p'. exchange_runs (engine_start 2 demo_core) 1 p \<and> ep_core p = demo_core1 \<and> engine_round p = Some p' \<and> proc_inv p'"
proof -
  obtain p where p: "exchange_runs (engine_start 2 demo_core) 1 p" "ep_core p = demo_core1" by (rule demo_run)
  show ?thesis using exchange_never_aborts [OF demo_core_fresh(1) p(1)] p by (auto simp: kMaxMappingsUsed_def kMaxGateways_def)
qed

text \<open>
  C8. In every reachable state each resting order of each book belongs to exactly one
  client order: the forward map has one key for its exchange id, with its symbol and side, and
  the reverse map names the session and the client's id of that key.
\<close>

theorem resting_orders_owned:
  assumes "fresh_core core" "exchange_runs (engine_start k core) n p" "n \<le> kMaxMappingsUsed"
    "symbol_index (ep_core p) sm = Some i" "x \<in> resting (sl_engine (ec_symbols (ep_core p) ! i)) side"
  shows "\<exists>!key. fh_find (ec_id_map (ep_core p)) key = Some (Some \<lparr>ie_exchange_id = x, ie_side = side, ie_symbol_id = sm\<rparr>) \<and>
    (\<exists>ts. fh_find (ec_reverse_id_map (ep_core p)) x = Some (Some \<lparr>rie_session_id = extract_session_id key,
       rie_client_order_id = key AND kMaxClientOrderId, rie_symbol_id = sm, rie_send_ts = ts\<rparr>))"
proof -
  let ?c = "ep_core p"
  have "run_inv 0 (engine_start k core)" using engine_start_ok [OF assms(1)] by (auto simp: run_inv_def queued_valid_def)
  then have inv: "core_inv ?c" using exchange_runs_inv [OF assms(2)] assms(3) by (simp add: run_inv_def proc_inv_def)
  note st = store_okD [OF cinvD(1) [OF inv]] and mp = cinvD(2) [OF inv]
  note find = fhmap.find [OF st(3)] fhmap.find [OF st(4)]
  have l: "x \<in> live ?c sm side" using assms(5) live_at [OF assms(4)] by simp
  obtain r where r: "fh_lookup (ec_reverse_id_map ?c) x = Some r" "rie_symbol_id r = sm" using live_mapped [OF inv l] by blast
  obtain e where e: "fh_lookup (ec_id_map ?c) (ckey (rie_session_id r) (rie_client_order_id r)) = Some e" "ie_exchange_id e = x"
    using maps_okD(3) [OF mp r(1)] by blast
  have "sm = ie_symbol_id e \<and> side = ie_side e" using target_live(3) [OF inv e(1)] l e(2) by simp
  then have en: "e = \<lparr>ie_exchange_id = x, ie_side = side, ie_symbol_id = sm\<rparr>" using e(2) by (cases e) simp
  show ?thesis
  proof (rule ex1I)
    let ?key = "ckey (rie_session_id r) (rie_client_order_id r)"
    have "fwd_ok {} (live ?c) (fh_lookup (ec_reverse_id_map ?c)) (ec_next_exchange_id ?c) ?key e" by (rule maps_okD(1) [OF mp e(1)])
    then show "fh_find (ec_id_map ?c) ?key = Some (Some \<lparr>ie_exchange_id = x, ie_side = side, ie_symbol_id = sm\<rparr>) \<and>
      (\<exists>ts. fh_find (ec_reverse_id_map ?c) x = Some (Some \<lparr>rie_session_id = extract_session_id ?key,
         rie_client_order_id = ?key AND kMaxClientOrderId, rie_symbol_id = sm, rie_send_ts = ts\<rparr>))"
      using e(1) en by (simp add: find fwd_ok_def)
  next
    fix key
    assume a: "fh_find (ec_id_map ?c) key = Some (Some \<lparr>ie_exchange_id = x, ie_side = side, ie_symbol_id = sm\<rparr>) \<and>
      (\<exists>ts. fh_find (ec_reverse_id_map ?c) x = Some (Some \<lparr>rie_session_id = extract_session_id key,
         rie_client_order_id = key AND kMaxClientOrderId, rie_symbol_id = sm, rie_send_ts = ts\<rparr>))"
    then have "fh_lookup (ec_id_map ?c) key = Some \<lparr>ie_exchange_id = x, ie_side = side, ie_symbol_id = sm\<rparr>" by (simp add: find)
    then show "key = ckey (rie_session_id r) (rie_client_order_id r)" using maps_ok_inj [OF mp _ e(1)] e(2) by simp
  qed
qed

theorem resting_orders_owned_witness:
  "\<exists>p. exchange_runs (engine_start 2 demo_core) 1 p \<and> ep_core p = demo_core1 \<and>
    (\<exists>!key. fh_find (ec_id_map demo_core1) key = Some (Some \<lparr>ie_exchange_id = 1, ie_side = kBid, ie_symbol_id = 1\<rparr>) \<and>
      (\<exists>ts. fh_find (ec_reverse_id_map demo_core1) 1 = Some (Some \<lparr>rie_session_id = extract_session_id key,
         rie_client_order_id = key AND kMaxClientOrderId, rie_symbol_id = 1, rie_send_ts = ts\<rparr>)))"
proof -
  obtain p where p: "exchange_runs (engine_start 2 demo_core) 1 p" "ep_core p = demo_core1" by (rule demo_run)
  have "1 \<in> resting (sl_engine (ec_symbols demo_core1 ! 0)) kBid" using demo_core1_ok(3) live_at [OF demo_core1_ok(4)] by simp
  then show ?thesis
    using resting_orders_owned [OF demo_core_fresh(1) p(1), of 1 0 1 kBid] demo_core1_ok(4) p by (auto simp: kMaxMappingsUsed_def)
qed

section \<open>New orders\<close>

text \<open>
  C9. A new order of a session is reported to everyone it concerns. What the engine answers
  and how the book changes is what the matching engine computes for the next exchange id. The
  taker gets the acceptance and a fill per trade with what is left of the order, the owner of
  every maker gets its fill, with what is left of the maker, at the gateway that serves the
  owner's session, and the publisher gets fills and best prices; all in order and stamped with
  the sequence number of the request. Each queue takes what fits. An order that neither rests
  nor trades is rejected, and nobody else hears of it.
\<close>

definition request_order :: "OrderRequest \<Rightarrow> NewOrder" where
  "request_order req = \<lparr>no_client_order_id = orq_client_order_id req, no_symbol_id = orq_symbol_id req, no_side = orq_side req,
     no_price = orq_price req, no_qty = orq_qty req, no_send_ts = orq_send_ts req\<rparr>"

theorem new_order_reported:
  assumes "proc_inv p" "core_room (ep_core p)" "\<not> fh_full (ec_seen_orders (ep_core p))" "orq_type req = ReqNewOrder" "valid_request req"
    "unat (orq_gateway_id req) < unat (sx_num_gateways (ep_shared p))"
    "submit_refusal (orq_session_id req) (request_order req) (ep_core p) = None" "symbol_index (ep_core p) (orq_symbol_id req) = Some i"
  defines "n \<equiv> ec_next_exchange_id (ep_core p)" and "R \<equiv> fh_lookup (ec_reverse_id_map (ep_core p))"
  shows "\<exists>r e' p' evs. submit_order (sl_engine (ec_symbols (ep_core p) ! i)) n (side_of (orq_side req)) (orq_price req) (orq_qty req) = Some (r, e') \<and>
    evs = (if mr_rested r \<or> mr_fills r \<noteq> [] then accept_events (orq_session_id req) (request_order req) n R e' (mr_fills r)
           else [submit_reject (orq_session_id req) (request_order req) kBookFull]) \<and>
    process_request req p = Some p' \<and> proc_inv p' \<and> sl_engine (ec_symbols (ep_core p') ! i) = e' \<and>
    (\<forall>g < kMaxGateways. responses (ep_shared p') g = offered (responses (ep_shared p) g)
       (map (stamp (orq_request_seq req)) (filter (to_gateway (ep_session_to_gateway p) g) evs))) \<and>
    md_events (ep_shared p') = offered (md_events (ep_shared p)) (map (stamp (orq_request_seq req)) (filter to_md evs)) \<and>
    (\<forall>f \<in> set (mr_fills r). \<exists>w. R (maker_id f) = Some w)"
proof -
  note inv = proc_invD(1) [OF assms(1)]
  let ?c = "ep_core p" and ?s = "orq_session_id req" and ?o = "request_order req"
  have len: "length (ec_events ?c) + 257 \<le> kMaxEvents" using proc_invD(2) [OF assms(1)] by (simp add: kMaxEvents_def)
  have side: "side_of (no_side ?o) \<noteq> kCount" using assms(5) by (simp add: request_order_def valid_request_def)
  have i: "symbol_index ?c (no_symbol_id ?o) = Some i" using assms(8) by (simp add: request_order_def)
  have "fh_lookup (ec_seen_orders ?c) (ckey ?s (no_client_order_id ?o)) = None" by (rule submit_refusal_None [OF assms(7)])
  then obtain m where m: "fh_insert (ec_seen_orders ?c) (ckey ?s (no_client_order_id ?o)) True = Some (True, m)"
    by (rule fh_insertE [OF store_okD(2) [OF cinvD(1) [OF inv]] _ assms(3), where v = True])
  obtain r e' c where c: "submit_order (sl_engine (ec_symbols ?c ! i)) (ec_next_exchange_id ?c) (side_of (no_side ?o)) (no_price ?o) (no_qty ?o) = Some (r, e')"
    "core_submit_order ?s ?o ?c = Some c" "core_inv c"
    "ec_events c = ec_events ?c @ (if mr_rested r \<or> mr_fills r \<noteq> [] then accept_events ?s ?o (ec_next_exchange_id ?c) R e' (mr_fills r) else [submit_reject ?s ?o kBookFull])"
    "ec_symbols c = ec_symbols (set_engine i e' ?c)" "\<And>f. f \<in> set (mr_fills r) \<Longrightarrow> \<exists>w. R (maker_id f) = Some w"
    unfolding R_def by (rule core_submit_run [OF inv assms(2) side len assms(7) i m]) blast
  obtain x' where x': "drain_and_dispatch (orq_request_seq req) (p\<lparr>ep_core := c\<rparr>) = Some (p\<lparr>ep_core := c\<lparr>ec_events := []\<rparr>, ep_shared := x'\<rparr>)"
    "proc_inv (p\<lparr>ep_core := c\<lparr>ec_events := []\<rparr>, ep_shared := x'\<rparr>)"
    "routed (ep_shared p) (\<lambda>g. map (stamp (orq_request_seq req)) (filter (to_gateway (ep_session_to_gateway p) g) (ec_events c)))
       (map (stamp (orq_request_seq req)) (filter to_md (ec_events c))) x'"
    using drain_and_dispatch_ok [OF c(3) proc_invD(3,4) [OF assms(1)]] by blast
  have "process_request req p = Some (p\<lparr>ep_core := c\<lparr>ec_events := []\<rparr>, ep_shared := x'\<rparr>)"
    using x'(1) c(2) assms(4,6) by (simp add: process_request_def request_order_def)
  moreover have "sl_engine (ec_symbols (c\<lparr>ec_events := []\<rparr>) ! i) = e'" using c(5) engine_set_engine symbol_indexD(1) [OF assms(8)] by simp
  moreover have "ec_events c = (if mr_rested r \<or> mr_fills r \<noteq> [] then accept_events ?s ?o n R e' (mr_fills r) else [submit_reject ?s ?o kBookFull])"
    using c(4) proc_invD(2) [OF assms(1)] by (simp add: n_def)
  ultimately show ?thesis
    using c(1,6) x'(2,3)
    by (intro exI [of _ r] exI [of _ e'] exI [of _ "p\<lparr>ep_core := c\<lparr>ec_events := []\<rparr>, ep_shared := x'\<rparr>"] exI [of _ "ec_events c"])
       (simp add: routed_def n_def request_order_def)
qed

theorem new_order_reported_witness:
  "\<exists>r e' p' evs. submit_order (sl_engine (ec_symbols demo_core1 ! 0)) (ec_next_exchange_id demo_core1) kAsk 100 3 = Some (r, e') \<and>
    evs = (if mr_rested r \<or> mr_fills r \<noteq> []
           then accept_events 2 (request_order demo_sell) (ec_next_exchange_id demo_core1) (fh_lookup (ec_reverse_id_map demo_core1)) e' (mr_fills r)
           else [submit_reject 2 (request_order demo_sell) kBookFull]) \<and>
    process_request demo_sell demo_proc = Some p' \<and> proc_inv p' \<and>
    responses (ep_shared p') 0 = offered (responses (ep_shared demo_proc) 0) (map (stamp 4) (filter (to_gateway (ep_session_to_gateway demo_proc) 0) evs))"
proof -
  have k: "ckey 2 9 \<noteq> ckey 1 7" using ckey_inject [of 9 7 2 1] by (simp add: kMaxClientOrderId_def)
  have r: "submit_refusal (orq_session_id demo_sell) (request_order demo_sell) (ep_core demo_proc) = None"
    using k by (simp add: submit_refusal_def request_order_def demo_sell_def demo_proc_ok(3) demo_core1_ok kMaxClientOrderId_def)
  have v: "valid_request demo_sell" "orq_type demo_sell = ReqNewOrder" "unat (orq_gateway_id demo_sell) < unat (sx_num_gateways (ep_shared demo_proc))"
    "symbol_index (ep_core demo_proc) (orq_symbol_id demo_sell) = Some 0"
    by (simp_all add: demo_sell_def no_request_def valid_request_def side_of_def demo_proc_ok(2,3) demo_core1_ok(4))
  have c: "core_room (ep_core demo_proc)" "\<not> fh_full (ec_seen_orders (ep_core demo_proc))" using demo_core1_ok(5,8) by (simp_all add: demo_proc_ok(3))
  have g: "0 < kMaxGateways" by (simp add: kMaxGateways_def)
  have sel: "orq_session_id demo_sell = 2" "side_of (orq_side demo_sell) = kAsk" "orq_price demo_sell = 100" "orq_qty demo_sell = 3" "orq_request_seq demo_sell = 4"
    by (simp_all add: demo_sell_def side_of_def)
  show ?thesis
    using new_order_reported [OF demo_proc_ok(1) c v(2,1,3) r v(4)] g unfolding demo_proc_ok(3) sel by blast
qed

section \<open>Cancels and modifies\<close>

text \<open>
  C10. A cancel concerns the caller's own order and no other. When the session has a resting
  order under the client's id on the named symbol, exactly this order leaves the book and the
  maps, and the cancel is acknowledged. Otherwise the answer names the reason, and the books
  and the maps are as before.
\<close>

theorem cancel_own_order_only:
  assumes "core_inv c" "ec_events c = []"
  shows "\<exists>c'. core_cancel_order s x c = Some c' \<and> core_inv c' \<and>
    (case request_target s (co_client_order_id x) (co_symbol_id x) c of
       Inl reason \<Rightarrow> ec_events c' = [(cancel_reply s x)\<lparr>ev_type := EvCancelRejected, ev_reason := reason\<rparr>] \<and>
         live c' = live c \<and> fh_lookup (ec_id_map c') = fh_lookup (ec_id_map c) \<and> fh_lookup (ec_reverse_id_map c') = fh_lookup (ec_reverse_id_map c)
     | Inr e \<Rightarrow> ec_events c' = [(cancel_reply s x)\<lparr>ev_type := EvCancelAck\<rparr>] \<and> ie_exchange_id e \<in> live c (co_symbol_id x) (ie_side e) \<and>
         live c' = (\<lambda>t u. live c t u - {ie_exchange_id e}) \<and>
         fh_lookup (ec_id_map c') = (fh_lookup (ec_id_map c))(ckey s (co_client_order_id x) := None) \<and>
         fh_lookup (ec_reverse_id_map c') = (fh_lookup (ec_reverse_id_map c))(ie_exchange_id e := None))"
proof -
  have "ie_exchange_id e \<in> live c (co_symbol_id x) (ie_side e)" if "request_target s (co_client_order_id x) (co_symbol_id x) c = Inr e" for e
    using that target_live(1) [OF assms(1), of "ckey s (co_client_order_id x)" e] by (auto simp: request_target_def split: if_splits option.splits)
  moreover have "length (ec_events c) < kMaxEvents" using assms(2) by (simp add: kMaxEvents_def)
  ultimately show ?thesis
    using core_cancel_ok [OF assms(1), of s x] assms(2) by (cases "request_target s (co_client_order_id x) (co_symbol_id x) c") auto
qed

theorem cancel_own_order_only_witness:
  "\<exists>c'. core_cancel_order 1 \<lparr>co_client_order_id = 7, co_symbol_id = 1, co_send_ts = 0\<rparr> demo_core1 = Some c' \<and> core_inv c' \<and>
     1 \<in> live demo_core1 1 kBid \<and> live c' = (\<lambda>t u. live demo_core1 t u - {1})"
proof -
  let ?x = "\<lparr>co_client_order_id = 7, co_symbol_id = 1, co_send_ts = 0\<rparr>"
  have "request_target 1 (co_client_order_id ?x) (co_symbol_id ?x) demo_core1 = Inr \<lparr>ie_exchange_id = 1, ie_side = kBid, ie_symbol_id = 1\<rparr>"
    by (simp add: request_target_def demo_core1_ok kMaxClientOrderId_def)
  then show ?thesis using cancel_own_order_only [OF demo_core1_ok(1,2), of 1 ?x] demo_core1_ok(3) by auto
qed

text \<open>
  C11. A modify of the caller's own resting order withdraws it and submits the replacement on
  the same side under the next exchange id. The client is told of the new id, and of every
  trade of the replacement, as are the owners of the makers. The client's id leads to the
  replacement when it rests, and to nothing when it does not. A modify that concerns no
  order of the caller is refused and changes no book and no mapping.
\<close>

theorem modify_replaces_own_order:
  fixes x :: ModifyOrder
  assumes "core_inv c" "core_room c" "ec_events c = []"
  defines "n \<equiv> ec_next_exchange_id c" and "i \<equiv> unat (mo_symbol_id x - 1)"
  shows "\<exists>c'. core_modify_order s x c = Some c' \<and> core_inv c' \<and>
    (case request_target s (mo_client_order_id x) (mo_symbol_id x) c of
       Inl reason \<Rightarrow> ec_events c' = [(modify_reply s x)\<lparr>ev_type := EvModifyRejected, ev_reason := reason\<rparr>] \<and> live c' = live c \<and>
         fh_lookup (ec_id_map c') = fh_lookup (ec_id_map c) \<and> fh_lookup (ec_reverse_id_map c') = fh_lookup (ec_reverse_id_map c)
     | Inr e \<Rightarrow> \<exists>e1 r e'. engine_cancel_order (sl_engine (ec_symbols c ! i)) (ie_exchange_id e) = Some (True, e1) \<and>
         submit_order e1 n (ie_side e) (mo_new_price x) (mo_new_qty x) = Some (r, e') \<and> ec_symbols c' = ec_symbols (set_engine i e' c) \<and>
         ec_events c' = modify_events s x n (ie_side e) (fh_lookup (ec_reverse_id_map c)) e' (mr_fills r) \<and>
         (if mr_rested r
          then fh_lookup (ec_reverse_id_map c') n = Some \<lparr>rie_session_id = s, rie_client_order_id = mo_client_order_id x,
                 rie_symbol_id = mo_symbol_id x, rie_send_ts = mo_send_ts x\<rparr>
          else fh_lookup (ec_id_map c') (ckey s (mo_client_order_id x)) = None))"
proof (cases "request_target s (mo_client_order_id x) (mo_symbol_id x) c")
  case (Inl reason)
  then show ?thesis using core_modify_refused [OF assms(1) _ _ Inl] assms(2,3) by (auto simp: core_room_def kMaxEvents_def)
next
  case (Inr e)
  then obtain k where "symbol_index c (mo_symbol_id x) = Some k" by (auto simp: request_target_def split: if_splits)
  then have i: "symbol_index c (mo_symbol_id x) = Some i" using symbol_indexD(3) by (simp add: i_def)
  have len: "length (ec_events c) + 257 \<le> kMaxEvents" using assms(3) by (simp add: kMaxEvents_def)
  show ?thesis by (rule core_modify_run [OF assms(1,2) len Inr i]) (use Inr assms(3) in \<open>auto simp: n_def\<close>)
qed

theorem modify_replaces_own_order_witness:
  "\<exists>c' e1 r e'. core_modify_order 1 \<lparr>mo_client_order_id = 7, mo_symbol_id = 1, mo_new_price = 99, mo_new_qty = 4, mo_send_ts = 0\<rparr> demo_core1 = Some c' \<and>
     core_inv c' \<and> engine_cancel_order (sl_engine (ec_symbols demo_core1 ! 0)) 1 = Some (True, e1) \<and>
     submit_order e1 (ec_next_exchange_id demo_core1) kBid 99 4 = Some (r, e')"
proof -
  let ?x = "\<lparr>mo_client_order_id = 7, mo_symbol_id = 1, mo_new_price = 99, mo_new_qty = 4, mo_send_ts = 0\<rparr>"
  have "request_target 1 (mo_client_order_id ?x) (mo_symbol_id ?x) demo_core1 = Inr \<lparr>ie_exchange_id = 1, ie_side = kBid, ie_symbol_id = 1\<rparr>"
    by (simp add: request_target_def demo_core1_ok kMaxClientOrderId_def)
  then show ?thesis using modify_replaces_own_order [OF demo_core1_ok(1,5,2), of 1 ?x] by auto
qed

section \<open>Sessions\<close>

text \<open>
  C12. When a client disconnects, its session id is free again, every order of the session
  leaves its book and both maps, and its ids may be used again, while the orders, mappings
  and used ids of all other sessions stay. Nothing is reported.
\<close>

theorem disconnect_cancels_session:
  assumes "core_inv c" "s \<noteq> 0"
  shows "\<exists>c'. on_client_disconnect s c = Some c' \<and> core_inv c' \<and>
    ec_active_sessions c' = (ec_active_sessions c)(s := False) \<and> ec_events c' = ec_events c \<and>
    live c' = (\<lambda>t u. live c t u - orders_of c s) \<and> orders_of c' s = {} \<and>
    fh_lookup (ec_id_map c') = (fh_lookup (ec_id_map c)) |` {k. extract_session_id k \<noteq> s} \<and>
    fh_lookup (ec_reverse_id_map c') = (fh_lookup (ec_reverse_id_map c)) |` (- orders_of c s) \<and>
    fh_lookup (ec_seen_orders c') = (fh_lookup (ec_seen_orders c)) |` {k. extract_session_id k \<noteq> s}"
proof -
  obtain c' where c': "on_client_disconnect s c = Some c'" "core_inv c'" "ec_active_sessions c' = (ec_active_sessions c)(s := False)"
    "ec_events c' = ec_events c" "live c' = (\<lambda>t u. live c t u - orders_of c s)"
    "fh_lookup (ec_id_map c') = (fh_lookup (ec_id_map c)) |` {k. extract_session_id k \<noteq> s}"
    "fh_lookup (ec_reverse_id_map c') = (fh_lookup (ec_reverse_id_map c)) |` (- orders_of c s)"
    "fh_lookup (ec_seen_orders c') = (fh_lookup (ec_seen_orders c)) |` {k. extract_session_id k \<noteq> s}"
    using on_client_disconnect_ok [OF assms] by blast
  have "orders_of c' s = {}" unfolding orders_of_def c'(7) by (auto simp: restrict_map_def orders_of_def)
  then show ?thesis using c' by blast
qed

theorem disconnect_cancels_session_witness:
  "\<exists>c'. on_client_disconnect 1 demo_core1 = Some c' \<and> core_inv c' \<and> 1 \<in> live demo_core1 1 kBid \<and> 1 \<notin> live c' 1 kBid"
proof -
  have "1 \<in> orders_of demo_core1 1"
    using demo_core1_ok(6) unfolding orders_of_ids [OF demo_core1_ok(1)] ids_of_def by force
  then show ?thesis using disconnect_cancels_session [OF demo_core1_ok(1), of 1] demo_core1_ok(3) by auto
qed

text \<open>
  A client that connects gets a session id unless all 65535 are in use; the id is not
  zero, was free, and is the only one that becomes active.
\<close>

theorem session_ids_unique:
  "(on_client_connect c = None \<longleftrightarrow> {sid. sid \<noteq> 0 \<and> \<not> ec_active_sessions c sid} = {}) \<and>
   (case on_client_connect c of None \<Rightarrow> True
    | Some (sid, c') \<Rightarrow> sid \<noteq> 0 \<and> \<not> ec_active_sessions c sid \<and>
        c' = c\<lparr>ec_next_session_id := sid + 1, ec_active_sessions := (ec_active_sessions c)(sid := True)\<rparr>)"
proof (intro conjI)
  show "on_client_connect c = None \<longleftrightarrow> {sid. sid \<noteq> 0 \<and> \<not> ec_active_sessions c sid} = {}"
    unfolding on_client_connect_ok(1) by blast
  show "case on_client_connect c of None \<Rightarrow> True
    | Some (sid, c') \<Rightarrow> sid \<noteq> 0 \<and> \<not> ec_active_sessions c sid \<and>
        c' = c\<lparr>ec_next_session_id := sid + 1, ec_active_sessions := (ec_active_sessions c)(sid := True)\<rparr>"
    by (simp split: option.split) (use on_client_connect_ok(2) in blast)
qed

section \<open>The maps and queues\<close>

text \<open>
  C17. The hash map with inline storage and the one over a caller's buffer are the same map:
  on equal tables every operation returns the same and leaves equal tables.
\<close>

theorem fixed_hash_map_equivalent:
  assumes "fh_slots m \<noteq> []"
  shows "fh_find m k = hm_find (hm_of m) k \<and>
    map_option (apsnd hm_of) (fh_insert m k v) = hm_insert (hm_of m) k v \<and>
    map_option (apsnd hm_of) (fh_upsert m k v) = hm_upsert (hm_of m) k v \<and>
    map_option (apsnd hm_of) (fh_erase m k) = hm_erase (hm_of m) k \<and>
    hm_of (fh_clear m) = hm_clear (hm_of m) \<and> fh_entries m = hm_entries (hm_of m)"
  by (intro conjI fh_find_eq fh_insert_eq fh_upsert_eq fh_erase_eq fh_clear_eq fh_entries_eq assms)

theorem fixed_hash_map_equivalent_witness:
  "fh_find (fh_default default_hash 0 (0 :: nat) 4) 7 = hm_find (hm_of (fh_default default_hash 0 0 4)) 7 \<and>
    map_option (apsnd hm_of) (fh_insert (fh_default default_hash 0 (0 :: nat) 4) 7 9) = hm_insert (hm_of (fh_default default_hash 0 0 4)) 7 9"
  using fixed_hash_map_equivalent [of "fh_default default_hash 0 (0 :: nat) 4" 7 9] by (simp add: fh_default_def)

text \<open>
  The queue in shared memory and the lock-free queue over a caller's buffer are the same
  queue: all four operations, run to completion, return the same and leave equal queues.
\<close>

theorem fixed_spsc_queue_equivalent:
  "map_option (apsnd sq_of) (fq_try_push q v) = try_push (sq_of q) v \<and>
   map_option (apsnd sq_of) (fq_try_push_batch q vs) = try_push_batch (sq_of q) vs \<and>
   map_option (apsnd sq_of) (fq_try_pop q) = try_pop (sq_of q) \<and>
   map_option (apsnd sq_of) (fq_drain q n) = drain (sq_of q) n"
  by (intro conjI fq_try_push_eq fq_try_push_batch_eq fq_try_pop_eq fq_drain_eq)

section \<open>An input the exchange does not survive\<close>

text \<open>
  The side of an order is a byte of the message that nobody checks; an order with a third
  side reaches the level maps with an index they do not have.
\<close>

theorem unchecked_side_undefined: "find_or_create_level b (side_of 2) price = None"
  by (simp add: find_or_create_level_def side_index_def side_of_def)

end
