(* ===== verification/Spec2Isabelle.thy ===== *)
theory Spec2Isabelle
  imports DataProps OrderBookProps MatchingEngine TcpServer OrderManagerProps StrategyCtxProps Feed StrategyThreadClaims
    ExchangeClaims
begin

text \<open>
  A verification development for a low-latency trading pipeline and the simulated exchange it
  trades on. All paths are relative to \<^verbatim>\<open>src/\<close>.

  \<^bold>\<open>The program.\<close> The pipeline (\<^verbatim>\<open>apps/tick_to_trade\<close>) has a market data thread that parses UDP
  datagrams and pushes quotes into a lock-free queue, and a strategy thread that drains the
  queue, turns quotes into signals and signals into orders, and talks to the exchange over
  TCP. The order manager between the two checks risk limits, tracks orders and their timeouts
  and runs the kill switch. The exchange (\<^verbatim>\<open>apps/simulated_exchange\<close>) has gateway processes that
  own the TCP connections, an engine process that owns the coordinator with one matching engine
  per symbol, and a publisher; they exchange requests and events through queues in shared
  memory. Both rest on the containers, codecs and allocators of \<^verbatim>\<open>libs\<close>.

  \<^bold>\<open>Conventions.\<close> Code that may call \<^verbatim>\<open>std::abort\<close>, fail an assert or run into undefined behaviour
  has the type \<open>'a outcome\<close> of \<^theory_text>\<open>Prelude\<close>, which is \<open>'a option\<close>, with \<open>None\<close> for these cases; the
  Debug build is modelled, so asserts are checked. State is a record that operations return
  updated, machine integers are words of their width where the code computes with them, enums
  are datatypes. Hash probing, matching and the other loops are structural recursion or
  \<^theory_text>\<open>function\<close>s with a termination proof. Loops that the source bounds only by the state (matching
  over levels, clearing of books and lists, frames of a buffer, reading and writing until the
  socket would block, the timers of a tick) are \<^theory_text>\<open>partial_function\<close>s in the option monad, and
  that they return is proved. What the operating system answers (clock, \<^verbatim>\<open>send\<close>, \<^verbatim>\<open>recv\<close>,
  \<^verbatim>\<open>epoll\<close>) is input.

  \<^bold>\<open>Containers and memory.\<close>
  \<^item> \<^theory_text>\<open>HashUtils\<close>, \<^theory_text>\<open>BitUtils\<close>, \<^theory_text>\<open>HashMap\<close>: \<^verbatim>\<open>libs/ds/hash_utils.hpp\<close>, \<^verbatim>\<open>libs/sys/bit_utils.hpp\<close>,
    \<^verbatim>\<open>libs/ds/hash_map.hpp\<close>. The map implements a finite map under any sequence of operations. Its
    contract is the locale \<open>kv_store\<close>, which \<^theory_text>\<open>FixedHashMap\<close> (\<^verbatim>\<open>libs/ds/fixed_hash_map.hpp\<close>) fulfils
    too, by its equivalence with the map over a caller's buffer.
  \<^item> \<^theory_text>\<open>IndexFreeStack\<close>, \<^theory_text>\<open>IntrusiveList\<close>, \<^theory_text>\<open>Arena\<close>, with the properties in \<^theory_text>\<open>DataProps\<close> and
    \<^theory_text>\<open>OrderBookProps\<close>: slots handed out once, lists over a shared heap of hooks, disjoint aligned
    blocks. Contracts: the locales \<open>index_pool\<close> and \<open>node_lists\<close>.
  \<^item> \<^theory_text>\<open>RingBuffer\<close>, \<^theory_text>\<open>SpscQueue\<close>, \<^theory_text>\<open>FixedSpscQueue\<close>: the ring buffer is a window on the latest
    elements. The lock-free queue has, besides its operations, a step relation with every load,
    copy and store of the two threads; in every interleaving items arrive in order. The queue
    with inline storage equals it operation by operation and is a \<open>bounded_fifo\<close>.
  \<^item> \<^theory_text>\<open>TimingWheel\<close>, \<^theory_text>\<open>TimingWheelProps\<close> (\<^verbatim>\<open>libs/ds/timing_wheel.hpp\<close>): refinement to a table of armed
    timers with generation-safe handles, and that timers fire on time.

  \<^bold>\<open>Order book and matching.\<close> \<^theory_text>\<open>OrderBook\<close> is \<^verbatim>\<open>libs/algo/order_book.hpp\<close>, \<^theory_text>\<open>OrderBookSpec\<close> the abstract
  book and the invariant, \<^theory_text>\<open>OrderBookCorrect\<close> the refinement of each operation, \<^theory_text>\<open>OrderBookBind\<close>
  construction over a buffer. \<^theory_text>\<open>MatchingEngine\<close> is \<^verbatim>\<open>libs/algo/matching_engine.hpp\<close>: submit returns,
  conserves quantity, fills in price-time priority within the limit, leaves no crossed book and
  implements abstract matching.

  \<^bold>\<open>Wire.\<close> \<^theory_text>\<open>Endian\<close>, \<^theory_text>\<open>WireCodec\<close>, \<^theory_text>\<open>Protocol\<close>: \<^verbatim>\<open>libs/sys/endian.hpp\<close>, the cursors and framing of \<^verbatim>\<open>libs/net\<close>,
  the messages of \<^verbatim>\<open>apps/shared\<close>; round trips, one interpretation of \<open>payload_codec\<close> per message.
  \<^theory_text>\<open>TcpServer\<close> is the connection layer of \<^verbatim>\<open>libs/net/tcp_server.hpp\<close>; the locales \<open>stream_framer\<close> and
  \<open>conn_io\<close> give that however bytes arrive every complete message is handled in order.

  \<^bold>\<open>Pipeline.\<close>
  \<^item> \<^theory_text>\<open>StrategyCtx\<close>, \<^theory_text>\<open>StrategyCtxProps\<close>: \<^verbatim>\<open>order_types.hpp\<close>, \<^verbatim>\<open>strategy_ctx.hpp\<close> and the buffer layout.
  \<^item> \<^theory_text>\<open>OrderManager\<close> is \<^verbatim>\<open>order_manager.hpp\<close>; \<^theory_text>\<open>OrderManagerInv\<close>, \<^theory_text>\<open>OrderManagerOps\<close>,
    \<^theory_text>\<open>OrderManagerHalt\<close>, \<^theory_text>\<open>OrderManagerRuns\<close>, \<^theory_text>\<open>OrderManagerDemo\<close> hold the invariant, each operation's
    effect, runs and an example; \<^theory_text>\<open>OrderManagerProps\<close> the risk limits, positions, rate limit,
    timeouts and kill switch.
  \<^item> \<^theory_text>\<open>Feed\<close>: \<^verbatim>\<open>feed_handler.hpp\<close>, \<^verbatim>\<open>spread_strategy.hpp\<close>, \<^verbatim>\<open>md_feed_thread.hpp\<close>; sequence accounting and
    justified signals.
  \<^item> \<^theory_text>\<open>StrategyThread\<close> is \<^verbatim>\<open>tcp_connection.hpp\<close>, \<^verbatim>\<open>order_send_handler.hpp\<close>, \<^verbatim>\<open>order_response_handler.hpp\<close> and
    \<^verbatim>\<open>strategy_thread.hpp\<close>; \<^theory_text>\<open>StrategyThreadProps\<close> and \<^theory_text>\<open>StrategyThreadStream\<close> its runs and its byte
    stream; \<^theory_text>\<open>StrategyThreadClaims\<close> the properties.

  \<^bold>\<open>Exchange.\<close>
  \<^item> \<^theory_text>\<open>ExchangeCore\<close> is \<^verbatim>\<open>exchange_core.hpp\<close> with \<^verbatim>\<open>exchange_event.hpp\<close>. \<^theory_text>\<open>EngineOrders\<close> says what a
    matching engine does to the set of resting orders, \<^theory_text>\<open>ExchangeMaps\<close> how the two id maps agree
    with it. \<^theory_text>\<open>ExchangeCoreInv\<close>, \<^theory_text>\<open>ExchangeCoreOps\<close> and \<^theory_text>\<open>ExchangeSessions\<close> have the invariant and
    the effect of every request.
  \<^item> \<^theory_text>\<open>ExchangeEngine\<close> is \<^verbatim>\<open>exchange_engine_main.cpp\<close> with \<^verbatim>\<open>shared_exchange_queue.hpp\<close>;
    \<^theory_text>\<open>ExchangeEngineInv\<close> has where events go and that every request is processed, \<^theory_text>\<open>ExchangeRuns\<close>
    the executions of gateways, engine and publisher in any order, \<^theory_text>\<open>ExchangeDemo\<close> an example and
    \<^theory_text>\<open>ExchangeClaims\<close> the properties.

  \<^bold>\<open>Bounds.\<close> The id maps of the coordinator refuse a new key at 70 percent load, tombstones
  included, and are never rebuilt. That no order rests without a mapping is therefore shown for
  executions in which at most 716 (\<open>kMaxMappingsUsed\<close>) new orders, modifies and connects have
  been polled; one request uses at most one slot of a map. The search for a session id is
  bounded by the 65535 attempts of the source. Requests are assumed to carry one of the two sides;
  \<open>unchecked_side_undefined\<close> shows why. Runs of the order manager are those of expected events:
  exchange responses that name outstanding orders.

  \<^bold>\<open>Not modelled.\<close> The gateway process (\<^verbatim>\<open>exchange_gateway_main.cpp\<close>) and the publisher, which only
  connect sockets with the modelled codecs and queues; start-up in \<^verbatim>\<open>main.cpp\<close>; sockets, \<^verbatim>\<open>epoll\<close>, memory
  mapping, pinning and clocks, which are system calls; latency statistics and logging, which
  are output; the object pools, lock-free stacks, the packed codec and the remaining containers
  with inline storage, which neither application uses. Weak memory is not modelled: the steps
  of the queue's threads interleave, with views of the other thread's index that may be stale.
\<close>

end
